(* ===== verification/Prelude.thy ===== *)
theory Prelude
  imports Main "HOL-Library.Word"
begin

text \<open>
  Shared vocabulary of the development: the machine types the C++ code computes with, the
  outcomes a C++ operation can have besides returning (an assertion that aborts the process,
  an access outside a vector or a buffer, an exception), and generic lemmas on lists and on
  the bits of a machine word.

  A \<open>size_t\<close> is a \<open>nat\<close> below \<open>2 ^ 64\<close>, with the wrap-around written out by \<open>sz\<close> where an
  operation can leave that range; a block of a bit vector is a \<open>64 word\<close>; an \<open>int\<close> is an
  HOL \<open>int\<close> whose range is part of the invariants.
\<close>

unbundle bit_operations_syntax

named_theorems coh_simps "unfolding rules of the straight-line operations"
named_theorems coh_inv "preservation of the component invariants"
named_theorems coh_abs "effect of the operations on the abstract state"

subsection \<open>Machine types and outcomes\<close>

type_synonym block_type = "64 word"
type_synonym size_t = nat

datatype error =
    Assert_failed            \<comment> \<open>\<open>assert(...)\<close> does not hold: the process aborts\<close>
  | Out_of_range             \<comment> \<open>a vector or array is accessed outside its elements\<close>
  | Buffer_overflow          \<comment> \<open>a write leaves the memory of a buffer\<close>
  | Empty_back               \<comment> \<open>\<open>back()\<close> or \<open>front()\<close> of an empty container\<close>
  | Dangling_reference       \<comment> \<open>a reference is used after its container moved\<close>
  | Null_pointer             \<comment> \<open>a null pointer is dereferenced\<close>
  | Runtime_error string     \<comment> \<open>\<open>throw std::runtime_error(...)\<close>\<close>
  | System_error string      \<comment> \<open>\<open>throw boost::system::system_error(...)\<close>\<close>

type_synonym 'a res = "error + 'a"

definition rbind :: "'a res \<Rightarrow> ('a \<Rightarrow> 'b res) \<Rightarrow> 'b res" where
  "rbind r f = (case r of Inl e \<Rightarrow> Inl e | Inr x \<Rightarrow> f x)"

lemma rbind_simps [simp]:
  "rbind (Inl e) f = Inl e"
  "rbind (Inr x) f = f x"
  by (simp_all add: rbind_def)

lemma rbind_eq_Inr: "rbind r f = Inr y \<longleftrightarrow> (\<exists>x. r = Inr x \<and> f x = Inr y)"
  by (cases r) simp_all

lemma rbind_assoc: "rbind (rbind r f) g = rbind r (\<lambda>x. rbind (f x) g)"
  by (cases r) simp_all

text \<open>Operations that may also not return: \<open>None\<close> is a loop that never ends.\<close>

definition pbind :: "'a res option \<Rightarrow> ('a \<Rightarrow> 'b res option) \<Rightarrow> 'b res option" where
  "pbind x f = Option.bind x (\<lambda>r. case r of Inl e \<Rightarrow> Some (Inl e) | Inr v \<Rightarrow> f v)"

lemma pbind_simps [simp]:
  "pbind None f = None"
  "pbind (Some (Inl e)) f = Some (Inl e)"
  "pbind (Some (Inr v)) f = f v"
  by (simp_all add: pbind_def)

lemma pbind_eq_Inr: "pbind x f = Some (Inr y) \<longleftrightarrow> (\<exists>v. x = Some (Inr v) \<and> f v = Some (Inr y))"
  by (auto simp: pbind_def split: Option.bind_splits sum.splits)

lemma pbind_mono [partial_function_mono]:
  assumes "mono_option B" "\<And>y. mono_option (\<lambda>f. C y f)"
  shows "mono_option (\<lambda>f. pbind (B f) (\<lambda>y. C y f))"
proof -
  have "mono_option (\<lambda>f. case r of Inl e \<Rightarrow> Some (Inl e) | Inr v \<Rightarrow> C v f)" for r
    using assms(2) by (cases r) (simp_all add: monotone_on_def flat_ord_def)
  then show ?thesis unfolding pbind_def by (intro bind_mono assms(1))
qed

definition size_max :: nat where
  "size_max = 2 ^ 64"

definition sz :: "nat \<Rightarrow> size_t" where
  "sz n = n mod size_max"

lemma sz_id [simp]: "n < size_max \<Longrightarrow> sz n = n"
  by (simp add: sz_def)

lemma sz_less [simp]: "sz n < size_max"
  by (simp add: sz_def size_max_def)

text \<open>\<open>static_cast<size_t>(-1)\<close>, the value that stands for "no position".\<close>

definition npos :: size_t where
  "npos = size_max - 1"

subsection \<open>Lists\<close>

lemma list_eq_iff_nth: "xs = ys \<longleftrightarrow> length xs = length ys \<and> (\<forall>i < length xs. xs ! i = ys ! i)"
  by (auto intro: nth_equalityI)

lemma map_upt_update:
  "i < n \<Longrightarrow> (map f [0..<n])[i := v] = map (f(i := v)) [0..<n]"
  by (auto intro!: nth_equalityI simp: nth_list_update)

lemma length_filter_upt_card: "length (filter P [0..<n]) = card {i. i < n \<and> P i}"
proof -
  have "set (filter P [0..<n]) = {i. i < n \<and> P i}" by auto
  then show ?thesis by (metis distinct_card distinct_filter distinct_upt)
qed

lemma sorted_wrt_symD:
  assumes "sorted_wrt P xs" "x \<in> set xs" "y \<in> set xs" "x \<noteq> y" "\<And>a b. P a b \<Longrightarrow> P b a"
  shows "P x y"
  using assms by (induction xs) auto

lemma sorted_wrt_remove1: "sorted_wrt P xs \<Longrightarrow> sorted_wrt P (remove1 x xs)"
  by (induction xs) (auto dest: subsetD [OF set_remove1_subset])

subsection \<open>Blocks: position arithmetic and bits\<close>

lemma block_bound: "k < n \<Longrightarrow> n \<le> 64 * m \<Longrightarrow> k div 64 < (m::nat)"
  by (simp add: div_less_iff_less_mult mult.commute)

lemma block_divI: "(p::nat) = 64 * q + r \<Longrightarrow> r < 64 \<Longrightarrow> p div 64 = q"
  and block_modI: "(p::nat) = 64 * q + r \<Longrightarrow> r < 64 \<Longrightarrow> p mod 64 = r"
  by simp_all

lemma block_borrow:
  assumes "(p::nat) = 64 * k + j" "n = 64 * d + r" "r < 64" "d < k"
  shows "p - n = 64 * (k - d - 1) + (64 - r + j)"
proof -
  obtain m where "k = Suc (d + m)" using assms(4) less_imp_Suc_add by blast
  then show ?thesis using assms by simp
qed

lemma less_block_iff:
  "(k::nat) < n \<longleftrightarrow> k div 64 < n div 64 \<or> (k div 64 = n div 64 \<and> k mod 64 < n mod 64)"
  using div_mult_mod_eq [of k 64] div_mult_mod_eq [of n 64]
    mod_less_divisor [of 64 k] mod_less_divisor [of 64 n] by linarith

lemma bit_64D: "bit (w :: 64 word) j \<Longrightarrow> j < 64"
  using bit_imp_le_length [of w j] by simp

lemma block_eqI: "(\<And>j. j < 64 \<Longrightarrow> bit v j = bit w j) \<Longrightarrow> v = (w :: 64 word)"
  by (rule bit_word_eqI) simp

lemma drop_bit_unat_less: "b \<noteq> 0 \<Longrightarrow> 0 < n \<Longrightarrow> unat (drop_bit n (b :: 64 word)) < unat b"
  by (subst unat_drop_bit_eq, subst drop_bit_eq_div)
    (auto intro!: div_less_dividend one_less_power simp: unat_gt_0 simp del: One_nat_def)

lemma bit_minus_one_64: "bit (- 1 :: 64 word) j \<longleftrightarrow> j < 64"
  by (simp add: bit_simps)

end
