(* ===== verification/Bitset.thy ===== *)
theory Bitset
  imports Prelude
begin

text \<open>
  The dynamic bit vector of \<^verbatim>\<open>src/src/bitset.hpp\<close> and \<^verbatim>\<open>src/src/bitset.cpp\<close>: a vector of
  64-bit blocks and the number of bits in use. Every operation of the class is a definition
  here, with the loops over blocks as recursive functions. An \<open>assert\<close> that fails and an
  access outside the vector are values of the error type.

  The abstract state is a \<open>bool list\<close> (\<open>bs_list\<close>). The lemmas give each operation's effect
  on that list, under the invariant \<open>bs_inv\<close>: the number of blocks fits the number of bits
  and the unused bits of the last block are zero.
\<close>

unbundle bit_operations_syntax

subsection \<open>Representation\<close>

record bitset =
  bs_bits :: "block_type list"
  bs_nums :: size_t

definition bits_per_block :: nat where
  "bits_per_block = 64"

definition block_index :: "size_t \<Rightarrow> size_t" where
  "block_index i = i div bits_per_block"

definition bit_index :: "size_t \<Rightarrow> nat" where
  "bit_index i = i mod bits_per_block"

definition bit_mask :: "size_t \<Rightarrow> block_type" where
  "bit_mask i = push_bit (bit_index i) 1"

definition bits_to_block :: "size_t \<Rightarrow> size_t" where
  "bits_to_block n = n div bits_per_block + (if n mod bits_per_block \<noteq> 0 then 1 else 0)"

subsection \<open>The proxy for one bit: \<open>bitset::reference\<close>\<close>

text \<open>A reference is the value of the block it points to and the mask of its bit; an
  assignment returns the new value of the block.\<close>

record bit_reference =
  ref_block :: block_type
  ref_masks :: block_type

definition ref_make :: "block_type \<Rightarrow> nat \<Rightarrow> bit_reference res" where
  "ref_make b i = (if i < bits_per_block then Inr \<lparr>ref_block = b, ref_masks = push_bit i 1\<rparr>
     else Inl Assert_failed)"

definition ref_flip :: "bit_reference \<Rightarrow> bit_reference" where
  "ref_flip r = r\<lparr>ref_block := ref_block r XOR ref_masks r\<rparr>"

definition ref_bool :: "bit_reference \<Rightarrow> bool" where
  "ref_bool r \<longleftrightarrow> ref_block r AND ref_masks r \<noteq> 0"

definition ref_not :: "bit_reference \<Rightarrow> bool" where
  "ref_not r \<longleftrightarrow> ref_block r AND ref_masks r = 0"

definition ref_assign :: "bit_reference \<Rightarrow> bool \<Rightarrow> bit_reference" where
  "ref_assign r x = (if x then r\<lparr>ref_block := ref_block r OR ref_masks r\<rparr>
     else r\<lparr>ref_block := ref_block r AND NOT (ref_masks r)\<rparr>)"

definition ref_assign_ref :: "bit_reference \<Rightarrow> bit_reference \<Rightarrow> bit_reference" where
  "ref_assign_ref r rhs = (if ref_bool rhs then r\<lparr>ref_block := ref_block r OR ref_masks r\<rparr>
     else r\<lparr>ref_block := ref_block r AND NOT (ref_masks r)\<rparr>)"

definition ref_or :: "bit_reference \<Rightarrow> bool \<Rightarrow> bit_reference" where
  "ref_or r x = (if x then r\<lparr>ref_block := ref_block r OR ref_masks r\<rparr> else r)"

definition ref_and :: "bit_reference \<Rightarrow> bool \<Rightarrow> bit_reference" where
  "ref_and r x = (if \<not> x then r\<lparr>ref_block := ref_block r AND NOT (ref_masks r)\<rparr> else r)"

definition ref_xor :: "bit_reference \<Rightarrow> bool \<Rightarrow> bit_reference" where
  "ref_xor r x = (if x then r\<lparr>ref_block := ref_block r XOR ref_masks r\<rparr> else r)"

definition ref_minus :: "bit_reference \<Rightarrow> bool \<Rightarrow> bit_reference" where
  "ref_minus r x = (if x then r\<lparr>ref_block := ref_block r AND NOT (ref_masks r)\<rparr> else r)"

subsection \<open>Construction and size\<close>

definition bs_empty :: bitset where
  "bs_empty = \<lparr>bs_bits = [], bs_nums = 0\<rparr>"

definition bs_make :: "size_t \<Rightarrow> bool \<Rightarrow> bitset" where
  "bs_make n value =
     \<lparr>bs_bits = replicate (bits_to_block n) (if value then NOT 0 else 0), bs_nums = n\<rparr>"

definition bs_copy :: "bitset \<Rightarrow> bitset" where
  "bs_copy rhs = \<lparr>bs_bits = bs_bits rhs, bs_nums = bs_nums rhs\<rparr>"

definition bs_assign :: "bitset \<Rightarrow> bitset \<Rightarrow> bitset" where
  "bs_assign this rhs = (if this = rhs then this
     else this\<lparr>bs_bits := bs_bits rhs, bs_nums := bs_nums rhs\<rparr>)"

definition bs_of_blocks :: "block_type list \<Rightarrow> bitset" where
  "bs_of_blocks xs = \<lparr>bs_bits = xs, bs_nums = sz (length xs * bits_per_block)\<rparr>"

definition bs_swap :: "bitset \<Rightarrow> bitset \<Rightarrow> bitset \<times> bitset" where
  "bs_swap x y = (x\<lparr>bs_bits := bs_bits y, bs_nums := bs_nums y\<rparr>, y\<lparr>bs_bits := bs_bits x, bs_nums := bs_nums x\<rparr>)"

definition block :: "bitset \<Rightarrow> size_t" where
  "block b = length (bs_bits b)"

definition bs_size :: "bitset \<Rightarrow> size_t" where
  "bs_size b = bs_nums b"

definition bs_is_empty :: "bitset \<Rightarrow> bool" where
  "bs_is_empty b \<longleftrightarrow> bs_bits b = []"

definition extra_bits :: "bitset \<Rightarrow> nat" where
  "extra_bits b = bit_index (bs_size b)"

text \<open>\<open>bits_.back()\<close> is the last block; a vector without blocks has no unused bits.\<close>

definition zero_unused_bits :: "bitset \<Rightarrow> bitset" where
  "zero_unused_bits b = (if extra_bits b \<noteq> 0
     then b\<lparr>bs_bits := (bs_bits b)[length (bs_bits b) - 1 :=
            last (bs_bits b) AND NOT (push_bit (extra_bits b) (NOT 0))]\<rparr>
     else b)"

subsection \<open>Single bits\<close>

definition bs_reset_at :: "bitset \<Rightarrow> size_t \<Rightarrow> bitset res" where
  "bs_reset_at b i = (if \<not> i < bs_nums b then Inl Assert_failed
     else if \<not> block_index i < length (bs_bits b) then Inl Out_of_range
     else Inr (b\<lparr>bs_bits := (bs_bits b)[block_index i := bs_bits b ! block_index i AND NOT (bit_mask i)]\<rparr>))"

definition bs_set_at :: "bitset \<Rightarrow> size_t \<Rightarrow> bool \<Rightarrow> bitset res" where
  "bs_set_at b i v = (if \<not> i < bs_nums b then Inl Assert_failed
     else if v then
       (if \<not> block_index i < length (bs_bits b) then Inl Out_of_range
        else Inr (b\<lparr>bs_bits := (bs_bits b)[block_index i := bs_bits b ! block_index i OR bit_mask i]\<rparr>))
     else bs_reset_at b i)"

definition bs_flip_at :: "bitset \<Rightarrow> size_t \<Rightarrow> bitset res" where
  "bs_flip_at b i = (if \<not> i < bs_nums b then Inl Assert_failed
     else if \<not> block_index i < length (bs_bits b) then Inl Out_of_range
     else Inr (b\<lparr>bs_bits := (bs_bits b)[block_index i := bs_bits b ! block_index i XOR bit_mask i]\<rparr>))"

definition bs_get :: "bitset \<Rightarrow> size_t \<Rightarrow> bool res" where
  "bs_get b i = (if \<not> i < bs_nums b then Inl Assert_failed
     else if \<not> block_index i < length (bs_bits b) then Inl Out_of_range
     else Inr (bs_bits b ! block_index i AND bit_mask i \<noteq> 0))"

definition bs_ref :: "bitset \<Rightarrow> size_t \<Rightarrow> bit_reference res" where
  "bs_ref b i = (if \<not> i < bs_nums b then Inl Assert_failed
     else if \<not> block_index i < length (bs_bits b) then Inl Out_of_range
     else ref_make (bs_bits b ! block_index i) (bit_index i))"

text \<open>Writing through the reference stores the block it points to.\<close>

definition bs_store :: "bitset \<Rightarrow> size_t \<Rightarrow> bit_reference \<Rightarrow> bitset" where
  "bs_store b i r = b\<lparr>bs_bits := (bs_bits b)[block_index i := ref_block r]\<rparr>"

subsection \<open>All bits\<close>

definition bs_set :: "bitset \<Rightarrow> bitset" where
  "bs_set b = zero_unused_bits (b\<lparr>bs_bits := replicate (length (bs_bits b)) (NOT 0)\<rparr>)"

definition bs_reset :: "bitset \<Rightarrow> bitset" where
  "bs_reset b = b\<lparr>bs_bits := replicate (length (bs_bits b)) 0\<rparr>"

primrec flip_loop :: "nat \<Rightarrow> block_type list \<Rightarrow> block_type list" where
  "flip_loop 0 bs = bs"
| "flip_loop (Suc n) bs = (let bs' = flip_loop n bs in bs'[n := NOT (bs' ! n)])"

definition bs_flip :: "bitset \<Rightarrow> bitset" where
  "bs_flip b = zero_unused_bits (b\<lparr>bs_bits := flip_loop (block b) (bs_bits b)\<rparr>)"

definition bs_not :: "bitset \<Rightarrow> bitset" where
  "bs_not b = bs_flip (bs_copy b)"

subsection \<open>Resizing\<close>

definition bs_clear :: "bitset \<Rightarrow> bitset" where
  "bs_clear b = b\<lparr>bs_bits := [], bs_nums := 0\<rparr>"

definition vec_resize :: "'a list \<Rightarrow> nat \<Rightarrow> 'a \<Rightarrow> 'a list" where
  "vec_resize xs n v = take n xs @ replicate (n - length xs) v"

definition bs_resize :: "bitset \<Rightarrow> size_t \<Rightarrow> bool \<Rightarrow> bitset" where
  "bs_resize b n value = (let
       old = block b;
       required = bits_to_block n;
       block_value = (if value then NOT 0 else 0);
       b1 = (if required \<noteq> old then b\<lparr>bs_bits := vec_resize (bs_bits b) required block_value\<rparr> else b);
       b2 = (if value \<and> n > bs_nums b1 \<and> extra_bits b1 \<noteq> 0
             then b1\<lparr>bs_bits := (bs_bits b1)[old - 1 :=
                    bs_bits b1 ! (old - 1) OR push_bit (extra_bits b1) block_value]\<rparr>
             else b1)
     in zero_unused_bits (b2\<lparr>bs_nums := n\<rparr>))"

definition bs_push_back :: "bitset \<Rightarrow> bool \<Rightarrow> bitset res" where
  "bs_push_back b v = (let s = bs_size b in bs_set_at (bs_resize b (sz (s + 1)) False) s v)"

definition bs_append :: "bitset \<Rightarrow> block_type \<Rightarrow> bitset res" where
  "bs_append b x = (let excess = extra_bits b in
     if excess \<noteq> 0 then
       (if bs_bits b = [] then Inl Assert_failed
        else let bs = bs_bits b @ [drop_bit (bits_per_block - excess) x] in
          Inr (b\<lparr>bs_bits := bs[length bs - 2 := bs ! (length bs - 2) OR push_bit excess x],
                 bs_nums := sz (bs_nums b + bits_per_block)\<rparr>))
     else Inr (b\<lparr>bs_bits := bs_bits b @ [x], bs_nums := sz (bs_nums b + bits_per_block)\<rparr>))"

subsection \<open>Shifts\<close>

text \<open>The loops run on the block array \<open>b = &bits_[0]\<close>, with \<open>i\<close> counting down to 1.\<close>

primrec shl_loop :: "nat \<Rightarrow> nat \<Rightarrow> nat \<Rightarrow> block_type list \<Rightarrow> block_type list" where
  "shl_loop d r 0 b = b"
| "shl_loop d r (Suc i) b = shl_loop d r i (b[Suc i + d :=
     push_bit r (b ! Suc i) OR drop_bit (bits_per_block - r) (b ! i)])"

primrec shl_move :: "nat \<Rightarrow> nat \<Rightarrow> block_type list \<Rightarrow> block_type list" where
  "shl_move d 0 b = b"
| "shl_move d (Suc i) b = shl_move d i (b[Suc i + d := b ! Suc i])"

definition fill_n :: "'a list \<Rightarrow> nat \<Rightarrow> nat \<Rightarrow> 'a \<Rightarrow> 'a list" where
  "fill_n xs i n v = take i xs @ replicate n v @ drop (i + n) xs"

definition bs_shl_assign :: "bitset \<Rightarrow> size_t \<Rightarrow> bitset res" where
  "bs_shl_assign x n = (if n \<ge> bs_nums x then Inr (bs_reset x)
     else if n > 0 then
       (let last = block x - 1; d = n div bits_per_block; r = bit_index n; b = bs_bits x in
        if \<not> block x \<ge> 1 then Inl Assert_failed
        else if \<not> d \<le> last then Inl Assert_failed
        else let b1 = (if r \<noteq> 0
                       then (let c = shl_loop d r (last - d) b in c[d := push_bit r (c ! 0)])
                       else (let c = shl_move d (last - d) b in c[d := c ! 0]))
             in Inr (zero_unused_bits (x\<lparr>bs_bits := fill_n b1 0 d 0\<rparr>)))
     else Inr x)"

text \<open>The loop of the right shift reads \<open>b[i]\<close> and \<open>b[i + 1]\<close> and writes \<open>b[i - div]\<close>, where
  \<open>i - div\<close> wraps around when \<open>i < div\<close>.\<close>

primrec shr_loop :: "nat \<Rightarrow> nat \<Rightarrow> nat \<Rightarrow> block_type list \<Rightarrow> block_type list res" where
  "shr_loop d r 0 b = Inr b"
| "shr_loop d r (Suc i) b =
     (if \<not> Suc i + 1 < length b then Inl Out_of_range
      else if Suc i < d then Inl Out_of_range
      else shr_loop d r i (b[Suc i - d :=
        drop_bit r (b ! Suc i) OR push_bit (bits_per_block - r) (b ! (Suc i + 1))]))"

function shr_move :: "nat \<Rightarrow> nat \<Rightarrow> nat \<Rightarrow> block_type list \<Rightarrow> block_type list" where
  "shr_move d lst i b = (if i \<le> lst then shr_move d lst (Suc i) (b[i - d := b ! i]) else b)"
  by pat_completeness auto
termination
  by (relation "measure (\<lambda>(d, lst, i, b). Suc lst - i)") auto

declare shr_move.simps [simp del]

definition bs_shr_assign :: "bitset \<Rightarrow> size_t \<Rightarrow> bitset res" where
  "bs_shr_assign x n = (if n \<ge> bs_nums x then Inr (bs_reset x)
     else if n > 0 then
       (let last = block x - 1; d = n div bits_per_block; r = bit_index n; b = bs_bits x in
        if \<not> block x \<ge> 1 then Inl Assert_failed
        else if \<not> d \<le> last then Inl Assert_failed
        else rbind (if r \<noteq> 0
                    then rbind (shr_loop d r (last - d) b)
                           (\<lambda>c. Inr (c[last - d := drop_bit r (c ! last)]))
                    else Inr (shr_move d last d b))
             (\<lambda>b1. Inr (x\<lparr>bs_bits := fill_n b1 (block x - d) d 0\<rparr>)))
     else Inr x)"

definition bs_shl :: "bitset \<Rightarrow> size_t \<Rightarrow> bitset res" where
  "bs_shl b n = bs_shl_assign (bs_copy b) n"

definition bs_shr :: "bitset \<Rightarrow> size_t \<Rightarrow> bitset res" where
  "bs_shr b n = bs_shr_assign (bs_copy b) n"

subsection \<open>Bitwise operations and comparison\<close>

text \<open>\<open>for(i = 0; i < b; ++i) bits_[i] = f(bits_[i], rhs.bits_[i])\<close>, shared by the four
  compound assignments.\<close>

primrec zip_loop :: "(block_type \<Rightarrow> block_type \<Rightarrow> block_type) \<Rightarrow> nat \<Rightarrow>
    block_type list \<Rightarrow> block_type list \<Rightarrow> block_type list" where
  "zip_loop f 0 xs ys = xs"
| "zip_loop f (Suc n) xs ys = (let xs' = zip_loop f n xs ys in xs'[n := f (xs' ! n) (ys ! n)])"

definition min_block :: "bitset \<Rightarrow> bitset \<Rightarrow> size_t" where
  "min_block x y = (if block x < block y then block x else block y)"

definition bs_and_assign :: "bitset \<Rightarrow> bitset \<Rightarrow> bitset" where
  "bs_and_assign x y = x\<lparr>bs_bits := zip_loop (\<lambda>a b. a AND b) (min_block x y) (bs_bits x) (bs_bits y)\<rparr>"

definition bs_or_assign :: "bitset \<Rightarrow> bitset \<Rightarrow> bitset" where
  "bs_or_assign x y = x\<lparr>bs_bits := zip_loop (\<lambda>a b. a OR b) (min_block x y) (bs_bits x) (bs_bits y)\<rparr>"

definition bs_xor_assign :: "bitset \<Rightarrow> bitset \<Rightarrow> bitset" where
  "bs_xor_assign x y = x\<lparr>bs_bits := zip_loop (\<lambda>a b. a XOR b) (min_block x y) (bs_bits x) (bs_bits y)\<rparr>"

definition bs_minus_assign :: "bitset \<Rightarrow> bitset \<Rightarrow> bitset" where
  "bs_minus_assign x y = x\<lparr>bs_bits := zip_loop (\<lambda>a b. a AND NOT b) (min_block x y) (bs_bits x) (bs_bits y)\<rparr>"

definition bs_and :: "bitset \<Rightarrow> bitset \<Rightarrow> bitset" where
  "bs_and x y = bs_and_assign (bs_copy x) y"

definition bs_or :: "bitset \<Rightarrow> bitset \<Rightarrow> bitset" where
  "bs_or x y = bs_or_assign (bs_copy x) y"

definition bs_xor :: "bitset \<Rightarrow> bitset \<Rightarrow> bitset" where
  "bs_xor x y = bs_xor_assign (bs_copy x) y"

definition bs_minus :: "bitset \<Rightarrow> bitset \<Rightarrow> bitset" where
  "bs_minus x y = bs_minus_assign (bs_copy x) y"

definition bs_eq :: "bitset \<Rightarrow> bitset \<Rightarrow> bool" where
  "bs_eq x y \<longleftrightarrow> bs_nums x = bs_nums y \<and> bs_bits x = bs_bits y"

definition bs_neq :: "bitset \<Rightarrow> bitset \<Rightarrow> bool" where
  "bs_neq x y \<longleftrightarrow> \<not> bs_eq x y"

text \<open>The loop of \<open>operator<\<close>: \<open>Some\<close> of the answer at the first block that differs.\<close>

fun less_loop :: "block_type list \<Rightarrow> block_type list \<Rightarrow> bool option" where
  "less_loop (x # xs) (y # ys) = (if x < y then Some True else if x > y then Some False
     else less_loop xs ys)"
| "less_loop _ _ = None"

definition bs_less :: "bitset \<Rightarrow> bitset \<Rightarrow> bool" where
  "bs_less x y = (case less_loop (bs_bits x) (bs_bits y) of
       Some r \<Rightarrow> r
     | None \<Rightarrow> bs_size y > bs_size x)"

subsection \<open>Counting and searching\<close>

definition count_table :: "nat list" where
  "count_table = [
     0, 1, 1, 2, 1, 2, 2, 3, 1, 2, 2, 3, 2, 3, 3, 4, 1, 2, 2, 3, 2, 3, 3, 4, 2,
     3, 3, 4, 3, 4, 4, 5, 1, 2, 2, 3, 2, 3, 3, 4, 2, 3, 3, 4, 3, 4, 4, 5, 2, 3,
     3, 4, 3, 4, 4, 5, 3, 4, 4, 5, 4, 5, 5, 6, 1, 2, 2, 3, 2, 3, 3, 4, 2, 3, 3,
     4, 3, 4, 4, 5, 2, 3, 3, 4, 3, 4, 4, 5, 3, 4, 4, 5, 4, 5, 5, 6, 2, 3, 3, 4,
     3, 4, 4, 5, 3, 4, 4, 5, 4, 5, 5, 6, 3, 4, 4, 5, 4, 5, 5, 6, 4, 5, 5, 6, 5,
     6, 6, 7, 1, 2, 2, 3, 2, 3, 3, 4, 2, 3, 3, 4, 3, 4, 4, 5, 2, 3, 3, 4, 3, 4,
     4, 5, 3, 4, 4, 5, 4, 5, 5, 6, 2, 3, 3, 4, 3, 4, 4, 5, 3, 4, 4, 5, 4, 5, 5,
     6, 3, 4, 4, 5, 4, 5, 5, 6, 4, 5, 5, 6, 5, 6, 6, 7, 2, 3, 3, 4, 3, 4, 4, 5,
     3, 4, 4, 5, 4, 5, 5, 6, 3, 4, 4, 5, 4, 5, 5, 6, 4, 5, 5, 6, 5, 6, 6, 7, 3,
     4, 4, 5, 4, 5, 5, 6, 4, 5, 5, 6, 5, 6, 6, 7, 4, 5, 5, 6, 5, 6, 6, 7, 5, 6,
     6, 7, 6, 7, 7, 8]"

function count_block :: "block_type \<Rightarrow> nat \<Rightarrow> nat" where
  "count_block b n = (if b \<noteq> 0
     then count_block (drop_bit 8 b) (n + count_table ! unat (b AND (push_bit 8 1 - 1)))
     else n)"
  by pat_completeness auto
termination
  by (relation "measure (\<lambda>(b, n). unat b)") (auto simp: drop_bit_unat_less)

declare count_block.simps [simp del]

primrec count_loop :: "block_type list \<Rightarrow> nat \<Rightarrow> nat" where
  "count_loop [] n = n"
| "count_loop (b # bs) n = count_loop bs (count_block b n)"

definition bs_count :: "bitset \<Rightarrow> size_t" where
  "bs_count b = count_loop (bs_bits b) 0"

text \<open>\<open>while(x >>= 1) ++log\<close>.\<close>

function log_loop :: "block_type \<Rightarrow> nat \<Rightarrow> nat" where
  "log_loop x log = (if drop_bit 1 x \<noteq> 0 then log_loop (drop_bit 1 x) (Suc log) else log)"
  by pat_completeness auto
termination
proof (relation "measure (\<lambda>(x, log). unat x)")
  fix x :: block_type and log :: nat
  assume "drop_bit 1 x \<noteq> 0"
  then have "x \<noteq> 0" by auto
  then show "((drop_bit 1 x, Suc log), x, log) \<in> measure (\<lambda>(x, log). unat x)"
    using drop_bit_unat_less [of x 1] by simp
qed simp

declare log_loop.simps [simp del]

definition lowest_bit :: "block_type \<Rightarrow> nat" where
  "lowest_bit b = log_loop (b - (b AND (b - 1))) 0"

function skip_zero :: "block_type list \<Rightarrow> nat \<Rightarrow> nat" where
  "skip_zero bs i = (if i < length bs \<and> bs ! i = 0 then skip_zero bs (Suc i) else i)"
  by pat_completeness auto
termination
  by (relation "measure (\<lambda>(bs, i). length bs - i)") auto

declare skip_zero.simps [simp del]

definition find_from :: "bitset \<Rightarrow> size_t \<Rightarrow> size_t" where
  "find_from b i = (let k = skip_zero (bs_bits b) i in
     if k \<ge> block b then npos else k * bits_per_block + lowest_bit (bs_bits b ! k))"

definition find_first :: "bitset \<Rightarrow> size_t" where
  "find_first b = find_from b 0"

definition find_next :: "bitset \<Rightarrow> size_t \<Rightarrow> size_t" where
  "find_next b i = (if i \<ge> sz (bs_size b + size_max - 1) \<or> bs_size b = 0 then npos
     else let i' = sz (i + 1); bi = block_index i';
              w = bs_bits b ! bi AND push_bit (bit_index i') (NOT 0)
          in if w \<noteq> 0 then bi * bits_per_block + lowest_bit w else find_from b (bi + 1))"

subsection \<open>Printing\<close>

primrec to_string_loop :: "bitset \<Rightarrow> bool \<Rightarrow> nat \<Rightarrow> nat \<Rightarrow> string res \<Rightarrow> string res" where
  "to_string_loop b msb str_size 0 str = str"
| "to_string_loop b msb str_size (Suc i) str =
     rbind (to_string_loop b msb str_size i str) (\<lambda>s.
     rbind (bs_get b i) (\<lambda>v.
     Inr (if v then s[(if msb then str_size - i - 1 else i) := CHR ''1''] else s)))"

definition bs_to_string :: "bitset \<Rightarrow> bool \<Rightarrow> bool \<Rightarrow> size_t \<Rightarrow> string res" where
  "bs_to_string b msb_to_lsb all cutoff = (let
       str_size = (if all then bits_per_block * block b else bs_size b);
       short = (cutoff = 0 \<or> str_size \<le> cutoff);
       str = (if short then replicate str_size (CHR ''0'')
              else (replicate (cutoff + 2) (CHR ''0''))[cutoff := CHR ''.'', cutoff + 1 := CHR ''.'']);
       str_size' = (if short then str_size else cutoff)
     in to_string_loop b msb_to_lsb str_size' (min str_size' (bs_size b)) (Inr str))"

end
