(* ===== verification/Bitset_Spec.thy ===== *)
theory Bitset_Spec
  imports Bitset "HOL-Library.List_Lexorder"
begin

text \<open>
  What the bit vector promises: its abstract state is the list of its bits, \<open>bs_list\<close>, and
  each operation of \<^verbatim>\<open>src/src/bitset.cpp\<close> is shown to have its effect on that list.
\<close>

unbundle bit_operations_syntax

subsection \<open>Abstract state and invariant\<close>

definition bs_bit :: "bitset \<Rightarrow> nat \<Rightarrow> bool" where
  "bs_bit b k = bit (bs_bits b ! (k div 64)) (k mod 64)"

definition bs_list :: "bitset \<Rightarrow> bool list" where
  "bs_list b = map (bs_bit b) [0..<bs_nums b]"

definition bs_shape :: "bitset \<Rightarrow> bool" where
  "bs_shape b \<longleftrightarrow> length (bs_bits b) = bits_to_block (bs_nums b) \<and> bs_nums b < size_max"

definition bs_clean :: "bitset \<Rightarrow> bool" where
  "bs_clean b \<longleftrightarrow> list_all (\<lambda>k. \<not> bs_bit b k) [bs_nums b..<64 * length (bs_bits b)]"

definition bs_inv :: "bitset \<Rightarrow> bool" where
  "bs_inv b \<longleftrightarrow> bs_shape b \<and> bs_clean b"

lemmas index_defs = bits_per_block_def block_index_def bit_index_def bit_mask_def

subsection \<open>Blocks and positions\<close>

lemma bits_to_block_bounds: "n \<le> 64 * bits_to_block n" "64 * bits_to_block n < n + 64"
proof -
  obtain q r where "n = 64 * q + r" "r < 64"
    by (metis mod_less_divisor mult_div_mod_eq zero_less_numeral)
  then show "n \<le> 64 * bits_to_block n" "64 * bits_to_block n < n + 64"
    by (auto simp: bits_to_block_def bits_per_block_def)
qed

lemma bs_shape_bounds:
  assumes "bs_shape b"
  shows "bs_nums b \<le> 64 * length (bs_bits b)" "64 * length (bs_bits b) < bs_nums b + 64"
  using assms bits_to_block_bounds by (auto simp: bs_shape_def)

lemma bs_shape_index: "bs_shape b \<Longrightarrow> k < bs_nums b \<Longrightarrow> k div 64 < length (bs_bits b)"
  using bs_shape_bounds(1) block_bound by blast

lemma bs_clean_iff:
  "bs_clean b \<longleftrightarrow> (\<forall>k. bs_nums b \<le> k \<and> k < 64 * length (bs_bits b) \<longrightarrow> \<not> bs_bit b k)"
  by (auto simp: bs_clean_def list_all_iff)

lemma length_bs_list [simp]: "length (bs_list b) = bs_nums b"
  by (simp add: bs_list_def)

lemma nth_bs_list [simp]: "k < bs_nums b \<Longrightarrow> bs_list b ! k = bs_bit b k"
  by (simp add: bs_list_def)

lemma bs_list_eqI:
  "length xs = bs_nums b \<Longrightarrow> (\<And>k. k < bs_nums b \<Longrightarrow> xs ! k = bs_bit b k) \<Longrightarrow> bs_list b = xs"
  by (auto intro!: nth_equalityI)

lemma bs_bit_block: "j < 64 \<Longrightarrow> bs_bit b (64 * i + j) = bit (bs_bits b ! i) j"
  by (simp add: bs_bit_def)

lemma bs_bit_update:
  assumes "k < 64 * length (bs_bits b)"
  shows "bs_bit (b\<lparr>bs_bits := (bs_bits b)[j := w]\<rparr>) k =
    (if k div 64 = j then bit w (k mod 64) else bs_bit b k)"
proof -
  have "k div 64 < length (bs_bits b)" using assms by simp
  then show ?thesis by (simp add: bs_bit_def nth_list_update)
qed

lemma bit_power_block: "bit (2 ^ i :: block_type) j \<longleftrightarrow> i = j \<and> j < 64"
  by (auto simp: bit_simps)

lemma and_power_block: "i < 64 \<Longrightarrow> (w AND 2 ^ i \<noteq> 0) = bit (w :: block_type) i"
  by (simp add: and_exp_eq_0_iff_not_bit)

lemma and_bit_mask: "(w AND bit_mask i \<noteq> 0) = bit w (i mod 64)"
  using and_power_block [of "i mod 64" w] by (simp add: index_defs)

lemma bit_bit_mask: "bit (bit_mask i) j \<longleftrightarrow> j = i mod 64"
  by (auto simp: index_defs bit_power_block)

text \<open>Two vectors of the same size agree when their blocks agree bit by bit.\<close>

lemma bs_bits_eqI:
  assumes "length (bs_bits b) = length (bs_bits c)"
    and "\<And>k. k < 64 * length (bs_bits b) \<Longrightarrow> bs_bit b k = bs_bit c k"
  shows "bs_bits b = bs_bits c"
proof (rule nth_equalityI [OF assms(1)], rule block_eqI)
  fix i j :: nat
  assume "i < length (bs_bits b)" "j < 64"
  then show "bit (bs_bits b ! i) j = bit (bs_bits c ! i) j"
    using assms(2) [of "64 * i + j"] by (simp add: bs_bit_block)
qed

subsection \<open>Zeroing the unused bits\<close>

lemma zero_unused_bits_sel [simp]:
  "bs_nums (zero_unused_bits b) = bs_nums b"
  "length (bs_bits (zero_unused_bits b)) = length (bs_bits b)"
  by (simp_all add: zero_unused_bits_def)

lemma bs_bit_zero_unused:
  assumes "bs_shape b" and k: "k < 64 * length (bs_bits b)"
  shows "bs_bit (zero_unused_bits b) k \<longleftrightarrow> bs_bit b k \<and> k < bs_nums b"
proof (cases "extra_bits b = 0")
  case True
  then have "64 * length (bs_bits b) = bs_nums b"
    using assms by (auto simp: extra_bits_def bs_size_def index_defs bs_shape_def bits_to_block_def)
  then show ?thesis using True k by (simp add: zero_unused_bits_def)
next
  case False
  let ?e = "bs_nums b mod 64" and ?l = "length (bs_bits b) - 1"
  have len: "length (bs_bits b) = bs_nums b div 64 + 1"
    using False assms by (auto simp: extra_bits_def bs_size_def index_defs bs_shape_def bits_to_block_def)
  have kl: "k div 64 \<le> bs_nums b div 64" using k len by simp
  have upd: "bs_bit (zero_unused_bits b) k = (if k div 64 = ?l
      then bit (last (bs_bits b) AND NOT (push_bit ?e (NOT 0))) (k mod 64) else bs_bit b k)"
    using False bs_bit_update [OF k] by (simp add: zero_unused_bits_def extra_bits_def bs_size_def index_defs)
  have "k < bs_nums b \<longleftrightarrow> k div 64 < bs_nums b div 64 \<or> (k div 64 = bs_nums b div 64 \<and> k mod 64 < ?e)"
    by (rule less_block_iff)
  moreover have "last (bs_bits b) = bs_bits b ! (bs_nums b div 64)"
    using len by (subst last_conv_nth) auto
  ultimately show ?thesis
    using upd kl len by (auto simp: bs_bit_def bit_simps)
qed

lemma zero_unused_bits_inv: "bs_shape b \<Longrightarrow> bs_inv (zero_unused_bits b)"
  by (auto simp: bs_inv_def bs_shape_def bs_clean_iff bs_bit_zero_unused)

lemma bs_list_zero_unused: "bs_shape b \<Longrightarrow> bs_list (zero_unused_bits b) = bs_list b"
  using bs_shape_bounds [of b] by (auto intro!: bs_list_eqI simp: bs_bit_zero_unused)

subsection \<open>Single bits\<close>

definition one_bit :: "bitset \<Rightarrow> nat \<Rightarrow> block_type \<Rightarrow> bool \<Rightarrow> bool" where
  "one_bit b i w v \<longleftrightarrow>
     (\<forall>j < 64. bit w j = (if j = i mod 64 then v else bit (bs_bits b ! (i div 64)) j))"

lemma bs_bit_one_bit:
  assumes "one_bit b i w v" "k < 64 * length (bs_bits b)"
  shows "bs_bit (b\<lparr>bs_bits := (bs_bits b)[i div 64 := w]\<rparr>) k = (if k = i then v else bs_bit b k)"
proof (cases "k div 64 = i div 64")
  case True
  then have "k mod 64 = i mod 64 \<longleftrightarrow> k = i" by (metis div_mult_mod_eq)
  moreover have "bit w (k mod 64) = (if k mod 64 = i mod 64 then v else bs_bit b k)"
    using assms(1) True by (simp add: one_bit_def bs_bit_def)
  ultimately show ?thesis using assms(2) True by (simp add: bs_bit_update)
qed (use assms(2) in \<open>auto simp: bs_bit_update\<close>)

lemma bs_list_update:
  assumes "bs_shape b" "i < bs_nums b" "one_bit b i w v"
  shows "bs_list (b\<lparr>bs_bits := (bs_bits b)[i div 64 := w]\<rparr>) = (bs_list b)[i := v]"
  using bs_shape_bounds [OF assms(1)] assms(2)
  by (auto intro!: bs_list_eqI simp: bs_bit_one_bit [OF assms(3)] nth_list_update split: if_splits)

lemma bs_clean_update:
  assumes "bs_inv b" "i < bs_nums b" "one_bit b i w v"
  shows "bs_inv (b\<lparr>bs_bits := (bs_bits b)[i div 64 := w]\<rparr>)"
  using assms(1,2) by (auto simp: bs_inv_def bs_shape_def bs_clean_iff bs_bit_one_bit [OF assms(3)])

text \<open>Under the invariant, an access inside the vector returns, and one outside it aborts.\<close>

lemma bs_reset_at_eq:
  assumes "bs_shape b"
  shows "bs_reset_at b i = (if i < bs_nums b
    then Inr (b\<lparr>bs_bits := (bs_bits b)[i div 64 := bs_bits b ! (i div 64) AND NOT (bit_mask i)]\<rparr>)
    else Inl Assert_failed)"
  using bs_shape_index [OF assms] by (auto simp: bs_reset_at_def block_index_def bits_per_block_def)

lemma bs_set_at_eq:
  assumes "bs_shape b"
  shows "bs_set_at b i v = (if i < bs_nums b
    then Inr (b\<lparr>bs_bits := (bs_bits b)[i div 64 := (if v then bs_bits b ! (i div 64) OR bit_mask i
           else bs_bits b ! (i div 64) AND NOT (bit_mask i))]\<rparr>)
    else Inl Assert_failed)"
  using bs_shape_index [OF assms]
  by (auto simp: bs_set_at_def bs_reset_at_eq [OF assms] block_index_def bits_per_block_def)

lemma bs_flip_at_eq:
  assumes "bs_shape b"
  shows "bs_flip_at b i = (if i < bs_nums b
    then Inr (b\<lparr>bs_bits := (bs_bits b)[i div 64 := bs_bits b ! (i div 64) XOR bit_mask i]\<rparr>)
    else Inl Assert_failed)"
  using bs_shape_index [OF assms] by (auto simp: bs_flip_at_def block_index_def bits_per_block_def)

lemma bs_get_eq:
  assumes "bs_shape b"
  shows "bs_get b i = (if i < bs_nums b then Inr (bs_list b ! i) else Inl Assert_failed)"
  using bs_shape_index [OF assms]
  by (auto simp: bs_get_def and_bit_mask bs_bit_def block_index_def bits_per_block_def)

lemma set_at_one_bit:
  "one_bit b i (if v then bs_bits b ! (i div 64) OR bit_mask i
     else bs_bits b ! (i div 64) AND NOT (bit_mask i)) v"
  by (auto simp: one_bit_def bit_or_iff bit_and_iff bit_not_iff bit_bit_mask)

lemma flip_at_one_bit:
  "one_bit b i (bs_bits b ! (i div 64) XOR bit_mask i) (\<not> bs_bit b i)"
  by (auto simp: one_bit_def bit_xor_iff bit_bit_mask bs_bit_def)

lemma bs_set_at_spec:
  assumes "bs_inv b" "i < bs_nums b"
  shows "\<exists>b'. bs_set_at b i v = Inr b' \<and> bs_inv b' \<and> bs_nums b' = bs_nums b \<and>
    bs_list b' = (bs_list b)[i := v]"
proof -
  have sh: "bs_shape b" using assms(1) by (simp add: bs_inv_def)
  show ?thesis
    using assms(2) bs_list_update [OF sh assms(2) set_at_one_bit] bs_clean_update [OF assms set_at_one_bit]
    by (auto simp: bs_set_at_eq [OF sh])
qed

lemma bs_reset_at_set: "bs_shape b \<Longrightarrow> bs_reset_at b i = bs_set_at b i False"
  by (simp add: bs_reset_at_eq bs_set_at_eq)

lemma bs_flip_at_spec:
  assumes "bs_inv b" "i < bs_nums b"
  shows "\<exists>b'. bs_flip_at b i = Inr b' \<and> bs_inv b' \<and> bs_nums b' = bs_nums b \<and>
    bs_list b' = (bs_list b)[i := \<not> bs_list b ! i]"
proof -
  have sh: "bs_shape b" using assms(1) by (simp add: bs_inv_def)
  show ?thesis
    using assms(2) bs_list_update [OF sh assms(2) flip_at_one_bit] bs_clean_update [OF assms flip_at_one_bit]
    by (auto simp: bs_flip_at_eq [OF sh])
qed

lemma bs_set_at_outside: "bs_nums b \<le> i \<Longrightarrow> bs_set_at b i v = Inl Assert_failed"
  by (simp add: bs_set_at_def)

subsection \<open>Construction and whole-vector operations\<close>

lemma bs_make_shape: "n < size_max \<Longrightarrow> bs_shape (bs_make n v)"
  by (simp add: bs_shape_def bs_make_def)

lemma bs_make_sel [simp]: "length (bs_bits (bs_make n v)) = bits_to_block n" "bs_nums (bs_make n v) = n"
  by (simp_all add: bs_make_def)

lemma bs_copy_id [simp]: "bs_copy x = x"
  by (simp add: bs_copy_def)

lemma bs_bit_make: "k < 64 * bits_to_block n \<Longrightarrow> bs_bit (bs_make n v) k = v"
  by (simp add: bs_bit_def bs_make_def bit_simps less_mult_imp_div_less mult.commute)

lemma bs_list_make: "bs_list (bs_make n v) = replicate n v"
proof (rule bs_list_eqI)
  fix k assume "k < bs_nums (bs_make n v)"
  then show "replicate n v ! k = bs_bit (bs_make n v) k"
    using bits_to_block_bounds(1) [of n] bs_bit_make [of k n v] by (simp add: bs_make_def)
qed (simp add: bs_make_def)

lemma bs_make_clean_iff: "bs_clean (bs_make n v) \<longleftrightarrow> \<not> v \<or> n mod 64 = 0"
proof -
  have len: "length (bs_bits (bs_make n v)) = bits_to_block n" "bs_nums (bs_make n v) = n"
    by (simp_all add: bs_make_def)
  have eq: "n mod 64 = 0 \<longleftrightarrow> n = 64 * bits_to_block n"
    by (auto simp: bits_to_block_def bits_per_block_def)
  have "bs_clean (bs_make n v) \<longleftrightarrow> (\<forall>k. n \<le> k \<and> k < 64 * bits_to_block n \<longrightarrow> \<not> v)"
    unfolding bs_clean_iff len using bs_bit_make [of _ n v] by blast
  also have "\<dots> \<longleftrightarrow> \<not> v \<or> \<not> n < 64 * bits_to_block n" by auto
  finally show ?thesis using eq bits_to_block_bounds(1) [of n] by auto
qed

lemma bs_make_inv: "n < size_max \<Longrightarrow> \<not> v \<or> n mod 64 = 0 \<Longrightarrow> bs_inv (bs_make n v)"
  by (simp add: bs_inv_def bs_make_shape bs_make_clean_iff)

lemma flip_loop_eq: "n \<le> length bs \<Longrightarrow> flip_loop n bs = map NOT (take n bs) @ drop n bs"
proof (induction n)
  case (Suc n)
  then have "take (Suc n) bs = take n bs @ [bs ! n]" "drop n bs = bs ! n # drop (Suc n) bs"
    by (simp_all add: take_Suc_conv_app_nth Cons_nth_drop_Suc)
  with Suc show ?case by (simp add: Let_def nth_append list_update_append)
qed simp

lemma bs_flip_spec:
  assumes "bs_shape b"
  shows "bs_inv (bs_flip b)" "bs_nums (bs_flip b) = bs_nums b"
    "bs_list (bs_flip b) = map Not (bs_list b)"
proof -
  let ?c = "b\<lparr>bs_bits := map NOT (bs_bits b)\<rparr>"
  have c: "bs_flip b = zero_unused_bits ?c" "bs_shape ?c"
    using assms by (simp_all add: bs_flip_def block_def flip_loop_eq bs_shape_def)
  have "bs_list ?c = map Not (bs_list b)"
    using bs_shape_index [OF assms] by (intro bs_list_eqI) (auto simp: bs_bit_def bit_not_iff)
  with c show "bs_inv (bs_flip b)" "bs_nums (bs_flip b) = bs_nums b"
    "bs_list (bs_flip b) = map Not (bs_list b)"
    by (simp_all add: zero_unused_bits_inv bs_list_zero_unused)
qed

lemma bs_set_spec:
  assumes "bs_shape b"
  shows "bs_inv (bs_set b)" "bs_list (bs_set b) = replicate (bs_nums b) True"
proof -
  let ?c = "b\<lparr>bs_bits := replicate (length (bs_bits b)) (NOT 0)\<rparr>"
  have c: "bs_set b = zero_unused_bits ?c" "bs_shape ?c"
    using assms by (simp_all add: bs_set_def bs_shape_def)
  have "bs_list ?c = replicate (bs_nums b) True"
    using bs_shape_index [OF assms] by (intro bs_list_eqI) (auto simp: bs_bit_def bit_simps)
  with c show "bs_inv (bs_set b)" "bs_list (bs_set b) = replicate (bs_nums b) True"
    by (simp_all add: zero_unused_bits_inv bs_list_zero_unused)
qed

lemma bs_reset_spec:
  assumes "bs_shape b"
  shows "bs_inv (bs_reset b)" "bs_list (bs_reset b) = replicate (bs_nums b) False"
    "bs_nums (bs_reset b) = bs_nums b"
proof -
  have "\<not> bs_bit (bs_reset b) k" if "k < 64 * length (bs_bits b)" for k
    using that by (simp add: bs_bit_def bs_reset_def less_mult_imp_div_less mult.commute)
  then show "bs_inv (bs_reset b)" "bs_list (bs_reset b) = replicate (bs_nums b) False"
      "bs_nums (bs_reset b) = bs_nums b"
    using assms bs_shape_bounds [OF assms]
    by (auto simp: bs_inv_def bs_clean_iff bs_shape_def bs_reset_def intro!: bs_list_eqI)
qed

subsection \<open>Resizing\<close>

lemma nth_vec_resize:
  "i < n \<Longrightarrow> vec_resize xs n v ! i = (if i < length xs then xs ! i else v)"
  by (auto simp: vec_resize_def nth_append min_def)

lemma length_vec_resize [simp]: "length (vec_resize xs n v) = n"
  by (simp add: vec_resize_def)

text \<open>The vector of blocks before \<open>nums_\<close> is set to the new size.\<close>

definition resized :: "bitset \<Rightarrow> size_t \<Rightarrow> bool \<Rightarrow> bitset" where
  "resized b n value = (let
       b1 = b\<lparr>bs_bits := vec_resize (bs_bits b) (bits_to_block n) (if value then NOT 0 else 0)\<rparr> in
     if value \<and> n > bs_nums b \<and> extra_bits b \<noteq> 0
     then b1\<lparr>bs_bits := (bs_bits b1)[length (bs_bits b) - 1 :=
            bs_bits b1 ! (length (bs_bits b) - 1) OR push_bit (extra_bits b) (NOT 0)]\<rparr>
     else b1)"

lemma bs_resize_resized: "bs_resize b n value = zero_unused_bits ((resized b n value)\<lparr>bs_nums := n\<rparr>)"
proof -
  have "vec_resize (bs_bits b) (length (bs_bits b)) w = bs_bits b" for w
    by (simp add: vec_resize_def)
  then show ?thesis
    by (auto simp: bs_resize_def resized_def block_def Let_def extra_bits_def bs_size_def)
qed

lemma bs_bit_vec_resize:
  assumes "k < 64 * m"
  shows "bs_bit (b\<lparr>bs_bits := vec_resize (bs_bits b) m w\<rparr>) k =
    (if k < 64 * length (bs_bits b) then bs_bit b k else bit w (k mod 64))"
proof -
  have "k div 64 < m" "k div 64 < length (bs_bits b) \<longleftrightarrow> k < 64 * length (bs_bits b)"
    using assms by (simp_all add: div_less_iff_less_mult mult.commute)
  then show ?thesis by (simp add: bs_bit_def nth_vec_resize)
qed

lemma bs_bit_resized:
  assumes inv: "bs_inv b" and k: "k < n"
  shows "bs_bit (resized b n v) k = (if k < bs_nums b then bs_bit b k else v)"
proof -
  let ?w = "if v then NOT 0 else 0 :: block_type"
  let ?b1 = "b\<lparr>bs_bits := vec_resize (bs_bits b) (bits_to_block n) ?w\<rparr>"
  have sh: "bs_shape b" and cl: "bs_clean b" using inv by (simp_all add: bs_inv_def)
  have kn: "k < 64 * bits_to_block n" using k bits_to_block_bounds(1) [of n] by simp
  have b1: "bs_bit ?b1 k = (if k < 64 * length (bs_bits b) then bs_bit b k else v)"
    using bs_bit_vec_resize [OF kn] by (simp add: bit_simps)
  have unused: "\<not> bs_bit b k" if "bs_nums b \<le> k" "k < 64 * length (bs_bits b)"
    using cl that by (simp add: bs_clean_iff)
  note bounds = bs_shape_bounds [OF sh]
  show ?thesis
  proof (cases "v \<and> n > bs_nums b \<and> extra_bits b \<noteq> 0")
    case False
    have "k < bs_nums b \<or> 64 * length (bs_bits b) \<le> k" if "v" "\<not> k < bs_nums b"
    proof -
      have "bs_nums b mod 64 = 0" using False that k by (auto simp: extra_bits_def bs_size_def index_defs)
      then have "64 * length (bs_bits b) = bs_nums b"
        using sh by (auto simp: bs_shape_def bits_to_block_def bits_per_block_def)
      with that show ?thesis by simp
    qed
    then show ?thesis using False b1 unused bounds by (auto simp: resized_def Let_def)
  next
    case True
    let ?l = "length (bs_bits b) - 1" and ?e = "bs_nums b mod 64"
    have len: "length (bs_bits b) = bs_nums b div 64 + 1"
      using True sh by (auto simp: extra_bits_def bs_size_def index_defs bs_shape_def bits_to_block_def)
    have r: "resized b n v = ?b1\<lparr>bs_bits := (bs_bits ?b1)[?l := bs_bits ?b1 ! ?l OR push_bit ?e (NOT 0)]\<rparr>"
      using True by (simp add: resized_def Let_def extra_bits_def bs_size_def index_defs)
    have "bs_bit (resized b n v) k = (if k div 64 = ?l
        then bit (bs_bits ?b1 ! ?l OR push_bit ?e (NOT 0)) (k mod 64) else bs_bit ?b1 k)"
      unfolding r by (rule bs_bit_update) (use kn in simp)
    also have "\<dots> = (bs_bit ?b1 k \<or> (k div 64 = ?l \<and> ?e \<le> k mod 64))"
      by (auto simp: bs_bit_def bit_simps)
    finally have "bs_bit (resized b n v) k = (bs_bit ?b1 k \<or> (k div 64 = ?l \<and> ?e \<le> k mod 64))" .
    moreover have "k div 64 = ?l \<and> ?e \<le> k mod 64 \<longleftrightarrow> bs_nums b \<le> k \<and> k < 64 * length (bs_bits b)"
    proof -
      have "k < 64 * length (bs_bits b) \<longleftrightarrow> k div 64 \<le> bs_nums b div 64"
        using len by (auto simp: div_less_iff_less_mult mult.commute simp flip: less_Suc_eq_le)
      then show ?thesis using len less_block_iff [of k "bs_nums b"] by auto
    qed
    ultimately show ?thesis using b1 True unused bounds by auto
  qed
qed

lemma resized_sel [simp]:
  "length (bs_bits (resized b n v)) = bits_to_block n" "bs_nums (resized b n v) = bs_nums b"
  by (simp_all add: resized_def Let_def)

lemma bs_resize_spec:
  assumes "bs_inv b" "n < size_max"
  shows "bs_inv (bs_resize b n v)" "bs_nums (bs_resize b n v) = n"
    "bs_list (bs_resize b n v) = take n (bs_list b) @ replicate (n - bs_nums b) v"
proof -
  let ?c = "(resized b n v)\<lparr>bs_nums := n\<rparr>"
  have sh: "bs_shape ?c" using assms(2) by (simp add: bs_shape_def)
  have "bs_bit ?c k = bs_bit (resized b n v) k" for k by (simp add: bs_bit_def)
  then have "bs_list ?c = take n (bs_list b) @ replicate (n - bs_nums b) v"
    using bs_bit_resized [OF assms(1)] by (intro bs_list_eqI) (auto simp: nth_append min_def)
  then show "bs_inv (bs_resize b n v)" "bs_nums (bs_resize b n v) = n"
    "bs_list (bs_resize b n v) = take n (bs_list b) @ replicate (n - bs_nums b) v"
    using sh by (simp_all add: bs_resize_resized zero_unused_bits_inv bs_list_zero_unused)
qed

lemma bs_push_back_spec:
  assumes "bs_inv b" "bs_nums b + 1 < size_max"
  shows "\<exists>b'. bs_push_back b v = Inr b' \<and> bs_inv b' \<and> bs_list b' = bs_list b @ [v]"
proof -
  let ?r = "bs_resize b (bs_nums b + 1) False"
  note r = bs_resize_spec [OF assms, of False]
  obtain b' where "bs_set_at ?r (bs_nums b) v = Inr b'" "bs_inv b'"
      "bs_list b' = (bs_list ?r)[bs_nums b := v]"
    using bs_set_at_spec [OF r(1), of "bs_nums b" v] r(2) by auto
  then show ?thesis
    using r(3) assms(2) by (simp add: bs_push_back_def bs_size_def list_update_append Let_def)
qed

lemma bs_append_blocks:
  assumes inv: "bs_inv b" and e: "0 < bs_nums b mod 64"
    and c: "bs_bits c = (bs_bits b @ [drop_bit (64 - bs_nums b mod 64) x])[bs_nums b div 64 :=
      bs_bits b ! (bs_nums b div 64) OR push_bit (bs_nums b mod 64) x]"
    and k: "k < 64 * (length (bs_bits b) + 1)"
  shows "bs_bit c k = (if k < bs_nums b then bs_bit b k else bit x (k - bs_nums b))"
proof -
  let ?q = "bs_nums b div 64" and ?e = "bs_nums b mod 64" and ?j = "k mod 64"
  have sh: "bs_shape b" and cl: "bs_clean b" using inv by (simp_all add: bs_inv_def)
  have len: "length (bs_bits b) = ?q + 1"
    using e sh by (auto simp: bs_shape_def bits_to_block_def bits_per_block_def)
  have kq: "k = 64 * (k div 64) + ?j" "?j < 64" "bs_nums b = 64 * ?q + ?e" "?e < 64" by simp_all
  have "k div 64 < ?q + 2" using k len by (simp add: div_less_iff_less_mult)
  then consider "k div 64 < ?q" | "k div 64 = ?q" | "k div 64 = ?q + 1" by linarith
  then show ?thesis
  proof cases
    case 1
    then have "k < bs_nums b" by (subst less_block_iff) simp
    then show ?thesis using 1 len c by (simp add: bs_bit_def nth_append)
  next
    case 2
    have lt: "k < bs_nums b \<longleftrightarrow> ?j < ?e" by (subst less_block_iff) (simp add: 2)
    have "bs_bit c k = (bs_bit b k \<or> (?e \<le> ?j \<and> bit x (?j - ?e)))"
      using 2 len c by (auto simp: bs_bit_def bit_simps)
    moreover have "k - bs_nums b = ?j - ?e" using kq 2 by linarith
    moreover have "\<not> bs_bit b k" if "\<not> k < bs_nums b"
      using cl that 2 len kq by (auto simp: bs_clean_iff)
    ultimately show ?thesis using lt by auto
  next
    case 3
    have "bs_nums b \<le> k" using kq 3 by linarith
    moreover have "k - bs_nums b = 64 - ?e + ?j" using kq 3 by linarith
    ultimately show ?thesis using 3 len c by (simp add: bs_bit_def nth_append bit_simps)
  qed
qed

lemma bs_append_spec:
  assumes inv: "bs_inv b" and n: "bs_nums b + 64 < size_max"
  shows "\<exists>b'. bs_append b x = Inr b' \<and> bs_inv b' \<and> bs_list b' = bs_list b @ map (bit x) [0..<64]"
proof -
  have sh: "bs_shape b" using inv by (simp add: bs_inv_def)
  have ne: "bs_bits b \<noteq> []" "length (bs_bits b) = bs_nums b div 64 + 1" if "0 < bs_nums b mod 64"
    using that sh by (auto simp: bs_shape_def bits_to_block_def bits_per_block_def)
  define c where "c = b\<lparr>bs_bits :=
    (if 0 < bs_nums b mod 64
     then (bs_bits b @ [drop_bit (64 - bs_nums b mod 64) x])[bs_nums b div 64 :=
            bs_bits b ! (bs_nums b div 64) OR push_bit (bs_nums b mod 64) x]
     else bs_bits b @ [x]), bs_nums := bs_nums b + 64\<rparr>"
  have eq: "bs_append b x = Inr c"
    using n ne by (auto simp: bs_append_def c_def Let_def extra_bits_def bs_size_def index_defs nth_append)
  have len: "length (bs_bits c) = length (bs_bits b) + 1" "bs_nums c = bs_nums b + 64"
    by (simp_all add: c_def)
  have bits: "bs_bit c k = (if k < bs_nums b then bs_bit b k else bit x (k - bs_nums b))"
    if k: "k < 64 * (length (bs_bits b) + 1)" for k
  proof (cases "0 < bs_nums b mod 64")
    case True
    show ?thesis by (rule bs_append_blocks [OF inv True _ k]) (simp add: c_def True)
  next
    case False
    then have l: "bs_nums b = 64 * length (bs_bits b)"
      using sh by (auto simp: bs_shape_def bits_to_block_def bits_per_block_def)
    have "k div 64 = length (bs_bits b) \<Longrightarrow> k - bs_nums b = k mod 64"
      using l by (metis add_diff_cancel_left' mult_div_mod_eq)
    moreover have "k < bs_nums b \<longleftrightarrow> k div 64 < length (bs_bits b)"
      using l by (simp add: div_less_iff_less_mult mult.commute)
    moreover have "k div 64 \<le> length (bs_bits b)" using k by simp
    ultimately show ?thesis using False by (auto simp: bs_bit_def c_def nth_append)
  qed
  note bounds = bs_shape_bounds [OF sh]
  have "bs_shape c" using sh n len by (auto simp: bs_shape_def bits_to_block_def bits_per_block_def)
  moreover have "bs_clean c" using len bits bit_64D [of x] by (force simp: bs_clean_iff)
  moreover have "bs_list c = bs_list b @ map (bit x) [0..<64]"
    using len bits bounds by (intro bs_list_eqI) (auto simp: nth_append)
  ultimately show ?thesis using eq by (auto simp: bs_inv_def)
qed

subsection \<open>Shifts\<close>

lemma length_shl_loop [simp]: "length (shl_loop d r i b) = length b"
  by (induction i arbitrary: b) simp_all

lemma length_shl_move [simp]: "length (shl_move d i b) = length b"
  by (induction i arbitrary: b) simp_all

text \<open>Writing from the top down never reads a block that was written before.\<close>

lemma nth_shl_loop:
  "i + d < length b \<Longrightarrow> k < length b \<Longrightarrow> shl_loop d r i b ! k =
    (if d < k \<and> k \<le> i + d then push_bit r (b ! (k - d)) OR drop_bit (bits_per_block - r) (b ! (k - d - 1))
     else b ! k)"
proof (induction i arbitrary: b)
  case (Suc i)
  then show ?case by (auto simp: nth_list_update)
qed auto

lemma nth_shl_move:
  "i + d < length b \<Longrightarrow> k < length b \<Longrightarrow> shl_move d i b ! k =
    (if d < k \<and> k \<le> i + d then b ! (k - d) else b ! k)"
proof (induction i arbitrary: b)
  case (Suc i)
  then show ?case by (auto simp: nth_list_update)
qed auto

lemma shl_first [simp]: "shl_loop d r i b ! 0 = b ! 0" "shl_move d i b ! 0 = b ! 0"
  by (induction i arbitrary: b) simp_all

lemma nth_fill_n:
  "i + n \<le> length xs \<Longrightarrow> k < length xs \<Longrightarrow>
    fill_n xs i n v ! k = (if i \<le> k \<and> k < i + n then v else xs ! k)"
  by (auto simp: fill_n_def nth_append min_def)

lemma length_fill_n [simp]: "i + n \<le> length xs \<Longrightarrow> length (fill_n xs i n v) = length xs"
  by (simp add: fill_n_def)

definition shl_block :: "block_type list \<Rightarrow> nat \<Rightarrow> nat \<Rightarrow> block_type" where
  "shl_block b n k = (if k < n div 64 then 0
     else push_bit (n mod 64) (b ! (k - n div 64)) OR
       (if n div 64 < k then drop_bit (64 - n mod 64) (b ! (k - n div 64 - 1)) else 0))"

lemma drop_bit_64 [simp]: "drop_bit 64 (w :: block_type) = 0"
  by (rule block_eqI) (auto simp: bit_simps dest: bit_64D)

lemma push_bit_64 [simp]: "push_bit 64 (w :: block_type) = 0"
  by (rule block_eqI) (auto simp: bit_simps)

lemma bit_shl_block:
  assumes "p div 64 < length b"
  shows "bit (shl_block b n (p div 64)) (p mod 64) \<longleftrightarrow>
    n \<le> p \<and> bit (b ! ((p - n) div 64)) ((p - n) mod 64)"
proof -
  let ?k = "p div 64" and ?j = "p mod 64" and ?d = "n div 64" and ?r = "n mod 64"
  have eqs: "p = 64 * ?k + ?j" "?j < 64" "n = 64 * ?d + ?r" "?r < 64" by simp_all
  show ?thesis
  proof (cases "?k < ?d \<or> ?k = ?d \<and> ?j < ?r")
    case True
    then have "p < n" by (subst less_block_iff) auto
    with True show ?thesis by (auto simp: shl_block_def bit_simps)
  next
    case False
    then have le: "?d \<le> ?k" "n \<le> p" using less_block_iff [of p n] by auto
    show ?thesis
    proof (cases "?r \<le> ?j")
      case True
      have "p - n = 64 * (?k - ?d) + (?j - ?r)" using eqs le True by (simp add: diff_mult_distrib2)
      moreover have "?j - ?r < 64" using eqs by linarith
      ultimately have "(p - n) div 64 = ?k - ?d" "(p - n) mod 64 = ?j - ?r" by simp_all
      moreover have "\<not> bit (drop_bit (64 - ?r) (b ! (?k - ?d - 1))) ?j"
        using True eqs by (auto simp: bit_drop_bit_eq dest!: bit_64D)
      ultimately show ?thesis using le True eqs by (auto simp: shl_block_def bit_simps)
    next
      case r: False
      then have dk: "?d < ?k" using False by auto
      then have "p - n = 64 * (?k - ?d - 1) + (64 - ?r + ?j)"
        using eqs by (intro block_borrow) auto
      moreover have "64 - ?r + ?j < 64" using r by simp
      ultimately have "(p - n) div 64 = ?k - ?d - 1" "(p - n) mod 64 = 64 - ?r + ?j"
        by (rule block_divI, rule block_modI)
      then show ?thesis using le r dk by (simp add: shl_block_def bit_simps)
    qed
  qed
qed

lemma bs_shl_assign_spec:
  assumes sh: "bs_shape x" and n: "n < bs_nums x"
  shows "\<exists>y. bs_shl_assign x n = Inr y \<and> (bs_inv x \<longrightarrow> bs_inv y) \<and> bs_nums y = bs_nums x \<and>
    bs_list y = replicate n False @ take (bs_nums x - n) (bs_list x)"
proof (cases "n = 0")
  case True
  then show ?thesis using n by (auto simp: bs_shl_assign_def)
next
  case False
  let ?d = "n div 64" and ?L = "length (bs_bits x)" and ?b = "bs_bits x"
  have dl: "?d < ?L" using bs_shape_index [OF sh n] .
  define c where "c = fill_n (if n mod 64 \<noteq> 0
      then (let c = shl_loop ?d (n mod 64) (?L - 1 - ?d) ?b in c[?d := push_bit (n mod 64) (c ! 0)])
      else (let c = shl_move ?d (?L - 1 - ?d) ?b in c[?d := c ! 0])) 0 ?d 0"
  have lenc: "length c = ?L" using dl by (simp add: c_def Let_def)
  have blocks: "c ! k = shl_block ?b n k" if k: "k < ?L" for k
    using k dl unfolding c_def
    by (auto simp: nth_fill_n nth_shl_loop nth_shl_move nth_list_update shl_block_def Let_def
        bits_per_block_def)
  let ?y = "x\<lparr>bs_bits := c\<rparr>"
  have eq: "bs_shl_assign x n = Inr (zero_unused_bits ?y)"
    using False n dl
    by (auto simp: bs_shl_assign_def Let_def c_def block_def bits_per_block_def bit_index_def)
  have shy: "bs_shape ?y" using sh lenc by (simp add: bs_shape_def)
  have "bs_bit ?y p = (n \<le> p \<and> bs_bit x (p - n))" if "p < bs_nums x" for p
    using bit_shl_block [of p ?b n] bs_shape_index [OF sh that] blocks by (simp add: bs_bit_def)
  then have "bs_list ?y = replicate n False @ take (bs_nums x - n) (bs_list x)"
    using n by (intro bs_list_eqI) (auto simp: nth_append)
  then show ?thesis using eq shy by (simp add: zero_unused_bits_inv bs_list_zero_unused)
qed

lemma bs_shift_all:
  assumes "bs_shape x" "bs_nums x \<le> n"
  shows "bs_shl_assign x n = Inr (bs_reset x)" "bs_shr_assign x n = Inr (bs_reset x)"
  using assms by (simp_all add: bs_shl_assign_def bs_shr_assign_def)

subsubsection \<open>The right shift\<close>

lemma length_shr_move [simp]: "length (shr_move d l i b) = length b"
  by (induction d l i b rule: shr_move.induct) (subst shr_move.simps, simp)

lemma nth_shr_move:
  "d \<le> i \<Longrightarrow> 0 < d \<Longrightarrow> l < length b \<Longrightarrow> k < length b \<Longrightarrow>
    shr_move d l i b ! k = (if i \<le> k + d \<and> k + d \<le> l then b ! (k + d) else b ! k)"
proof (induction d l i b rule: shr_move.induct)
  case (1 d l i b)
  show ?case
  proof (cases "i \<le> l")
    case True
    have "shr_move d l i b ! k = (if Suc i \<le> k + d \<and> k + d \<le> l then b[i - d := b ! i] ! (k + d)
        else b[i - d := b ! i] ! k)"
      using 1 True by (subst shr_move.simps) simp
    then show ?thesis using 1(2-) True by (auto simp: nth_list_update)
  next
    case False
    then show ?thesis by (subst shr_move.simps) auto
  qed
qed

text \<open>A shift by whole blocks is right, and so is one that leaves only bits of the last block.\<close>

definition shr_block :: "block_type list \<Rightarrow> nat \<Rightarrow> nat \<Rightarrow> block_type" where
  "shr_block b n k = (if k + n div 64 < length b then drop_bit (n mod 64) (b ! (k + n div 64)) else 0)"

definition shr_supported :: "block_type list \<Rightarrow> nat \<Rightarrow> bool" where
  "shr_supported b n \<longleftrightarrow> n mod 64 = 0 \<or> n div 64 = length b - 1"

lemma bit_shr_block_aligned:
  assumes "n mod 64 = 0"
  shows "bit (shr_block b n (p div 64)) (p mod 64) \<longleftrightarrow>
    p + n < 64 * length b \<and> bit (b ! ((p + n) div 64)) ((p + n) mod 64)"
proof -
  have eq: "(p + n) div 64 = p div 64 + n div 64" "(p + n) mod 64 = p mod 64" using assms by auto
  then have "p + n < 64 * length b \<longleftrightarrow> p div 64 + n div 64 < length b"
    by (metis div_less_iff_less_mult mult.commute zero_less_numeral)
  then show ?thesis using assms eq by (simp add: shr_block_def)
qed

lemma bit_shr_block_last:
  assumes "n div 64 = length b - 1" "b \<noteq> []"
  shows "bit (shr_block b n (p div 64)) (p mod 64) \<longleftrightarrow>
    p + n < 64 * length b \<and> bit (b ! ((p + n) div 64)) ((p + n) mod 64)"
proof -
  obtain m where m: "length b = Suc m" using assms(2) by (cases b) auto
  define r where "r = n mod 64"
  have n: "n = 64 * m + r" "r < 64" using assms(1) m unfolding r_def
    by (metis diff_Suc_1 mult_div_mod_eq, simp)
  have blk: "shr_block b n (p div 64) = (if p div 64 = 0 then drop_bit r (b ! m) else 0)"
    using assms(1) m by (auto simp: shr_block_def r_def)
  show ?thesis
  proof (cases "p + r < 64")
    case True
    have "p + n = 64 * m + (p + r)" using n by simp
    then have "(p + n) div 64 = m" "(p + n) mod 64 = p + r" "p + n < 64 * length b"
      using True m by (simp_all add: block_divI block_modI)
    then show ?thesis using True blk by (simp add: bit_drop_bit_eq add.commute)
  next
    case False
    then have "\<not> bit (shr_block b n (p div 64)) (p mod 64)"
      using blk by (auto simp: bit_drop_bit_eq div_eq_0_iff dest!: bit_64D split: if_splits)
    then show ?thesis using False n m by simp
  qed
qed

lemma bit_shr_block:
  "shr_supported b n \<Longrightarrow> b \<noteq> [] \<Longrightarrow> bit (shr_block b n (p div 64)) (p mod 64) \<longleftrightarrow>
    p + n < 64 * length b \<and> bit (b ! ((p + n) div 64)) ((p + n) mod 64)"
  unfolding shr_supported_def by (erule disjE) (erule bit_shr_block_aligned, erule (1) bit_shr_block_last)

lemma bs_shr_assign_eq:
  assumes sh: "bs_shape x" and n: "0 < n" "n < bs_nums x" and good: "shr_supported (bs_bits x) n"
  shows "\<exists>c. bs_shr_assign x n = Inr (x\<lparr>bs_bits := c\<rparr>) \<and> length c = length (bs_bits x) \<and>
    (\<forall>k < length c. c ! k = shr_block (bs_bits x) n k)"
proof -
  let ?d = "n div 64" and ?L = "length (bs_bits x)" and ?b = "bs_bits x"
  have dl: "?d < ?L" using bs_shape_index [OF sh n(2)] .
  define c where "c = fill_n (if n mod 64 \<noteq> 0 then ?b[0 := drop_bit (n mod 64) (?b ! (?L - 1))]
     else shr_move ?d (?L - 1) ?d ?b) (?L - ?d) ?d 0"
  have eq: "bs_shr_assign x n = Inr (x\<lparr>bs_bits := c\<rparr>)"
    using n dl good
    by (auto simp: bs_shr_assign_def Let_def c_def block_def bits_per_block_def bit_index_def shr_supported_def)
  have d0: "0 < ?d" if "n mod 64 = 0" using that n(1) by (metis div_mult_mod_eq gr0I mult_0 add_0)
  have "c ! k = shr_block ?b n k" if k: "k < ?L" for k
  proof -
    have le: "?L - ?d \<le> k \<longleftrightarrow> \<not> k + ?d < ?L" "k + ?d \<le> ?L - 1 \<longleftrightarrow> k + ?d < ?L"
      using dl by linarith+
    show ?thesis
    proof (cases "n mod 64 = 0")
      case True
      then show ?thesis using k dl d0 le by (simp add: c_def nth_fill_n nth_shr_move shr_block_def)
    next
      case False
      then have "?d = ?L - 1" using good by (simp add: shr_supported_def)
      moreover from this have "k + ?d < ?L \<longleftrightarrow> k = 0" using dl by linarith
      ultimately show ?thesis using False k dl le
        by (auto simp: c_def nth_fill_n shr_block_def simp del: One_nat_def)
    qed
  qed
  moreover have "length c = ?L" using dl by (simp add: c_def)
  ultimately show ?thesis using eq by auto
qed

lemma bs_shr_assign_spec:
  assumes inv: "bs_inv x" and n: "n < bs_nums x" and good: "shr_supported (bs_bits x) n"
  shows "\<exists>y. bs_shr_assign x n = Inr y \<and> bs_inv y \<and> bs_nums y = bs_nums x \<and>
    bs_list y = drop n (bs_list x) @ replicate n False"
proof (cases "n = 0")
  case True
  then show ?thesis using n inv by (auto simp: bs_shr_assign_def)
next
  case False
  have sh: "bs_shape x" and cl: "bs_clean x" using inv by (simp_all add: bs_inv_def)
  note bounds = bs_shape_bounds [OF sh]
  have ne: "bs_bits x \<noteq> []" using n bounds by auto
  obtain c where c: "bs_shr_assign x n = Inr (x\<lparr>bs_bits := c\<rparr>)" "length c = length (bs_bits x)"
      "\<And>k. k < length c \<Longrightarrow> c ! k = shr_block (bs_bits x) n k"
    using bs_shr_assign_eq [OF sh _ n good] False by auto
  let ?y = "x\<lparr>bs_bits := c\<rparr>"
  have bits: "bs_bit ?y p = (p + n < bs_nums x \<and> bs_bit x (p + n))" if p: "p < 64 * length c" for p
  proof -
    have "bs_bit ?y p = (p + n < 64 * length c \<and> bs_bit x (p + n))"
      using bit_shr_block [OF good ne, of p] p c(2,3) by (simp add: bs_bit_def)
    moreover have "bs_bit x (p + n) \<Longrightarrow> p + n < 64 * length c \<Longrightarrow> p + n < bs_nums x"
      using cl c(2) by (metis bs_clean_iff linorder_not_less)
    ultimately show ?thesis using bounds c(2) by auto
  qed
  have "bs_list ?y = drop n (bs_list x) @ replicate n False"
    using bits n bounds c(2) by (intro bs_list_eqI) (auto simp: nth_append add.commute)
  moreover have "bs_inv ?y" using sh c(2) bits by (auto simp: bs_inv_def bs_shape_def bs_clean_iff)
  ultimately show ?thesis using c(1) by auto
qed

text \<open>Any other shift below one block reads past the last block.\<close>

lemma bs_shr_assign_out_of_range:
  assumes "bs_shape x" "0 < n" "n < 64" "64 < bs_nums x"
  shows "bs_shr_assign x n = Inl Out_of_range"
proof -
  have "1 < length (bs_bits x)" using assms(4) bs_shape_bounds(1) [OF assms(1)] by linarith
  then obtain m where "length (bs_bits x) = Suc (Suc m)"
    by (metis One_nat_def Suc_lessE less_imp_Suc_add)
  then show ?thesis
    using assms by (simp add: bs_shr_assign_def Let_def block_def bits_per_block_def bit_index_def)
qed

subsection \<open>Bitwise operations and comparison\<close>

lemma length_zip_loop [simp]: "length (zip_loop f n xs ys) = length xs"
  by (induction n) (simp_all add: Let_def)

lemma nth_zip_loop:
  "n \<le> length xs \<Longrightarrow> k < length xs \<Longrightarrow>
    zip_loop f n xs ys ! k = (if k < n then f (xs ! k) (ys ! k) else xs ! k)"
  by (induction n) (auto simp: Let_def nth_list_update less_Suc_eq)

text \<open>A block operation that works bit by bit works on the bits of two vectors of one size.\<close>

lemma zip_loop_spec:
  assumes f: "\<And>v w j. j < 64 \<Longrightarrow> bit (f v w) j = g (bit v j) (bit w j)" and g: "\<not> g False False"
    and inv: "bs_inv x" "bs_inv y" and n: "bs_nums x = bs_nums y"
  defines "z \<equiv> x\<lparr>bs_bits := zip_loop f (min_block x y) (bs_bits x) (bs_bits y)\<rparr>"
  shows "bs_inv z" "bs_nums z = bs_nums x" "bs_list z = map2 g (bs_list x) (bs_list y)"
proof -
  have sh: "bs_shape x" and len: "length (bs_bits x) = length (bs_bits y)"
    using inv n by (simp_all add: bs_inv_def bs_shape_def)
  have z: "length (bs_bits z) = length (bs_bits x)" "bs_nums z = bs_nums x" by (simp_all add: z_def)
  have bits: "bs_bit z k = g (bs_bit x k) (bs_bit y k)" if "k < 64 * length (bs_bits x)" for k
  proof -
    have "k div 64 < length (bs_bits x)" using that by simp
    then show ?thesis
      using len by (simp add: z_def bs_bit_def nth_zip_loop min_block_def block_def f)
  qed
  show "bs_nums z = bs_nums x" by (rule z)
  show "bs_inv z"
    using inv n z len bits g by (auto simp: bs_inv_def bs_shape_def bs_clean_iff)
  show "bs_list z = map2 g (bs_list x) (bs_list y)"
    using n z bits bs_shape_bounds [OF sh] by (intro bs_list_eqI) auto
qed

lemma bs_bitwise_spec:
  assumes "bs_inv x" "bs_inv y" "bs_nums x = bs_nums y"
  shows "bs_inv (bs_and x y)" "bs_list (bs_and x y) = map2 (\<and>) (bs_list x) (bs_list y)"
    "bs_inv (bs_or x y)" "bs_list (bs_or x y) = map2 (\<or>) (bs_list x) (bs_list y)"
    "bs_inv (bs_xor x y)" "bs_list (bs_xor x y) = map2 (\<noteq>) (bs_list x) (bs_list y)"
    "bs_inv (bs_minus x y)" "bs_list (bs_minus x y) = map2 (\<lambda>a b. a \<and> \<not> b) (bs_list x) (bs_list y)"
proof -
  have copy: "bs_copy x = x" by (simp add: bs_copy_def)
  note spec = zip_loop_spec [OF _ _ assms]
  show "bs_inv (bs_and x y)" "bs_list (bs_and x y) = map2 (\<and>) (bs_list x) (bs_list y)"
    using spec [of "\<lambda>a b. a AND b" "(\<and>)"] by (simp_all add: bs_and_def bs_and_assign_def copy bit_and_iff)
  show "bs_inv (bs_or x y)" "bs_list (bs_or x y) = map2 (\<or>) (bs_list x) (bs_list y)"
    using spec [of "\<lambda>a b. a OR b" "(\<or>)"] by (simp_all add: bs_or_def bs_or_assign_def copy bit_or_iff)
  show "bs_inv (bs_xor x y)" "bs_list (bs_xor x y) = map2 (\<noteq>) (bs_list x) (bs_list y)"
    using spec [of "\<lambda>a b. a XOR b" "(\<noteq>)"] by (simp_all add: bs_xor_def bs_xor_assign_def copy bit_xor_iff)
  show "bs_inv (bs_minus x y)" "bs_list (bs_minus x y) = map2 (\<lambda>a b. a \<and> \<not> b) (bs_list x) (bs_list y)"
    using spec [of "\<lambda>a b. a AND NOT b" "\<lambda>a b. a \<and> \<not> b"]
    by (simp_all add: bs_minus_def bs_minus_assign_def copy bit_and_iff bit_not_iff)
qed

lemma bs_eq_list:
  assumes "bs_inv x" "bs_inv y"
  shows "bs_eq x y \<longleftrightarrow> bs_list x = bs_list y"
proof
  assume eq: "bs_list x = bs_list y"
  then have n: "bs_nums x = bs_nums y" using length_bs_list by metis
  have len: "length (bs_bits x) = length (bs_bits y)" using assms n by (simp add: bs_inv_def bs_shape_def)
  have "bs_bit x k = bs_bit y k" if "k < 64 * length (bs_bits x)" for k
  proof (cases "k < bs_nums x")
    case True
    then show ?thesis using eq n by (metis nth_bs_list)
  next
    case False
    then show ?thesis using assms n len that by (auto simp: bs_inv_def bs_clean_iff)
  qed
  then show "bs_eq x y" using n bs_bits_eqI [OF len] by (simp add: bs_eq_def)
qed (auto simp: bs_eq_def bs_list_def bs_bit_def)

text \<open>\<open>operator<\<close> is the lexicographic order of the block vectors, then of the sizes: a strict
  total order on the vectors that \<open>operator==\<close> tells apart.\<close>

lemma less_loop_Some: "less_loop xs ys = Some r \<Longrightarrow> xs \<noteq> ys \<and> xs < ys = r"
  by (induction xs ys rule: less_loop.induct) (auto split: if_splits)

lemma Nil_less_iff: "[] < (xs :: block_type list) \<longleftrightarrow> xs \<noteq> []"
  by (cases xs) simp_all

lemma less_loop_None:
  "less_loop xs ys = None \<Longrightarrow> xs < ys = (length xs < length ys) \<and> xs = ys = (length xs = length ys)"
  by (induction xs ys rule: less_loop.induct) (auto split: if_splits simp: Nil_less_iff)

lemma bs_less_iff:
  assumes "bs_shape x" "bs_shape y"
  shows "bs_less x y \<longleftrightarrow> bs_bits x < bs_bits y \<or> bs_bits x = bs_bits y \<and> bs_nums x < bs_nums y"
proof (cases "less_loop (bs_bits x) (bs_bits y)")
  case None
  have mono: "length (bs_bits x) < length (bs_bits y) \<Longrightarrow> bs_nums x < bs_nums y"
    "length (bs_bits y) < length (bs_bits x) \<Longrightarrow> bs_nums y < bs_nums x"
    using bs_shape_bounds [OF assms(1)] bs_shape_bounds [OF assms(2)] by linarith+
  show ?thesis using None less_loop_None [OF None] mono
    by (auto simp: bs_less_def bs_size_def)
next
  case (Some r)
  then show ?thesis using less_loop_Some [OF Some] by (auto simp: bs_less_def)
qed

lemma bs_less_total_order:
  assumes "bs_shape x" "bs_shape y" "bs_shape z"
  shows "\<not> bs_less x x" "bs_less x y \<Longrightarrow> bs_less y z \<Longrightarrow> bs_less x z"
    "bs_less x y \<or> bs_eq x y \<or> bs_less y x"
  using assms by (auto simp: bs_less_iff bs_eq_def)

subsection \<open>References to a bit\<close>

text \<open>A reference obtained from \<open>operator[]\<close> reads and writes the one bit it stands for.\<close>

lemma bs_ref_eq:
  assumes "bs_shape b" "i < bs_nums b"
  shows "bs_ref b i = Inr \<lparr>ref_block = bs_bits b ! (i div 64), ref_masks = bit_mask i\<rparr>"
  using assms bs_shape_index by (simp add: bs_ref_def ref_make_def index_defs)

definition ref_after :: "(bit_reference \<Rightarrow> bit_reference) \<Rightarrow> bitset \<Rightarrow> size_t \<Rightarrow> bitset res" where
  "ref_after f b i = rbind (bs_ref b i) (\<lambda>r. Inr (bs_store b i (f r)))"

lemma ref_after_spec:
  assumes inv: "bs_inv b" and i: "i < bs_nums b"
    and f: "f \<lparr>ref_block = bs_bits b ! (i div 64), ref_masks = bit_mask i\<rparr> = r"
    and one: "one_bit b i (ref_block r) v"
  shows "\<exists>b'. ref_after f b i = Inr b' \<and> bs_inv b' \<and> bs_list b' = (bs_list b)[i := v]"
proof -
  have sh: "bs_shape b" using inv by (simp add: bs_inv_def)
  have "ref_after f b i = Inr (b\<lparr>bs_bits := (bs_bits b)[i div 64 := ref_block r]\<rparr>)"
    using f by (simp add: ref_after_def bs_ref_eq [OF sh i] bs_store_def index_defs)
  then show ?thesis using bs_list_update [OF sh i one] bs_clean_update [OF inv i one] by auto
qed

lemma ref_bool_get:
  assumes "bs_inv b" "i < bs_nums b" "bs_ref b i = Inr r"
  shows "ref_bool r = bs_list b ! i" "ref_not r = (\<not> bs_list b ! i)"
proof -
  have "r = \<lparr>ref_block = bs_bits b ! (i div 64), ref_masks = bit_mask i\<rparr>"
    using assms bs_ref_eq by (simp add: bs_inv_def)
  then have "ref_bool r = bs_bit b i" "ref_not r \<longleftrightarrow> \<not> ref_bool r"
    using and_bit_mask [of "bs_bits b ! (i div 64)" i] by (auto simp: ref_bool_def ref_not_def bs_bit_def)
  then show "ref_bool r = bs_list b ! i" "ref_not r = (\<not> bs_list b ! i)"
    using assms(2) by simp_all
qed

lemma ref_ops_spec:
  assumes inv: "bs_inv b" and i: "i < bs_nums b"
  defines "upd \<equiv> \<lambda>f v. \<exists>b'. ref_after f b i = Inr b' \<and> bs_inv b' \<and> bs_list b' = (bs_list b)[i := v]"
  shows "upd (\<lambda>r. ref_assign r x) x" "upd ref_flip (\<not> bs_list b ! i)"
    "upd (\<lambda>r. ref_or r x) (bs_list b ! i \<or> x)" "upd (\<lambda>r. ref_and r x) (bs_list b ! i \<and> x)"
    "upd (\<lambda>r. ref_xor r x) (bs_list b ! i \<noteq> x)" "upd (\<lambda>r. ref_minus r x) (bs_list b ! i \<and> \<not> x)"
    "upd (\<lambda>r. ref_assign_ref r rhs) (ref_bool rhs)"
proof -
  have bit: "bit (bs_bits b ! (i div 64)) (i mod 64) = bs_list b ! i" using i by (simp add: bs_bit_def)
  note defs = one_bit_def bit_or_iff bit_and_iff bit_xor_iff bit_not_iff bit_bit_mask bit
  show "upd (\<lambda>r. ref_assign r x) x"
    unfolding upd_def by (rule ref_after_spec [OF inv i refl]) (auto simp: defs ref_assign_def)
  show "upd ref_flip (\<not> bs_list b ! i)"
    unfolding upd_def by (rule ref_after_spec [OF inv i refl]) (auto simp: defs ref_flip_def)
  show "upd (\<lambda>r. ref_or r x) (bs_list b ! i \<or> x)"
    unfolding upd_def by (rule ref_after_spec [OF inv i refl]) (auto simp: defs ref_or_def)
  show "upd (\<lambda>r. ref_and r x) (bs_list b ! i \<and> x)"
    unfolding upd_def by (rule ref_after_spec [OF inv i refl]) (auto simp: defs ref_and_def)
  show "upd (\<lambda>r. ref_xor r x) (bs_list b ! i \<noteq> x)"
    unfolding upd_def by (rule ref_after_spec [OF inv i refl]) (auto simp: defs ref_xor_def)
  show "upd (\<lambda>r. ref_minus r x) (bs_list b ! i \<and> \<not> x)"
    unfolding upd_def by (rule ref_after_spec [OF inv i refl]) (auto simp: defs ref_minus_def)
  show "upd (\<lambda>r. ref_assign_ref r rhs) (ref_bool rhs)"
    unfolding upd_def by (rule ref_after_spec [OF inv i refl]) (auto simp: defs ref_assign_ref_def)
qed

subsection \<open>Counting\<close>

definition pop :: "block_type \<Rightarrow> nat" where
  "pop w = card {j. j < 64 \<and> bit w j}"

text \<open>A table of bit counts for one more bit is the old table followed by the old table with
  every entry increased.\<close>

fun bit_table :: "nat \<Rightarrow> nat list" where
  "bit_table 0 = [0]"
| "bit_table (Suc n) = bit_table n @ map Suc (bit_table n)"

lemma length_bit_table [simp]: "length (bit_table n) = 2 ^ n"
  by (induction n) simp_all

lemma nth_bit_table: "m < 2 ^ n \<Longrightarrow> bit_table n ! m = card {j. j < n \<and> bit m j}"
proof (induction n arbitrary: m)
  case (Suc n)
  show ?case
  proof (cases "m < 2 ^ n")
    case True
    then have "\<not> bit m n" by (simp add: bit_iff_odd)
    then have "{j. j < Suc n \<and> bit m j} = {j. j < n \<and> bit m j}" by (auto simp: less_Suc_eq)
    then show ?thesis using True Suc by (simp add: nth_append)
  next
    case False
    let ?m = "m - 2 ^ n"
    have m: "m = ?m + 2 ^ n" "?m < 2 ^ n" using False Suc.prems by auto
    have nb: "\<not> bit ?m n" using m(2) by (simp add: bit_iff_odd)
    then have dis: "?m AND 2 ^ n = 0" by (simp add: and_exp_eq_0_iff_not_bit)
    have "m = ?m OR 2 ^ n" using m(1) disjunctive_add_eq_or [OF dis] by simp
    then have bits: "bit m j \<longleftrightarrow> bit ?m j \<or> j = n" for j
      by (metis bit_exp_iff bit_or_iff possible_bit_nat)
    then have "{j. j < Suc n \<and> bit m j} = insert n {j. j < n \<and> bit ?m j}"
      using nb by (auto simp: less_Suc_eq)
    then have "card {j. j < Suc n \<and> bit m j} = Suc (card {j. j < n \<and> bit ?m j})" by simp
    then show ?thesis using False m(2) Suc.IH [OF m(2)] by (simp add: nth_append)
  qed
qed simp

lemma count_table_eq: "count_table = bit_table 8"
  by (simp add: count_table_def eval_nat_numeral)

lemma count_table_low: "count_table ! unat (w AND 255 :: block_type) = card {j. j < 8 \<and> bit w j}"
proof -
  let ?m = "unat (w AND 255 :: block_type)"
  have "?m \<le> unat (255 :: block_type)" by (rule word_and_le1 [THEN word_le_nat_alt [THEN iffD1]])
  then have "?m < 2 ^ 8" by simp
  then have "count_table ! ?m = card {j. j < 8 \<and> bit ?m j}"
    unfolding count_table_eq by (rule nth_bit_table)
  moreover have "(255 :: block_type) = mask 8" by (simp add: mask_eq_exp_minus_1)
  ultimately show ?thesis
    by (simp add: bit_unsigned_iff bit_and_iff bit_mask_iff conj_ac cong: conj_cong)
qed

lemma pop_split: "pop w = card {j. j < 8 \<and> bit w j} + pop (drop_bit 8 w)"
proof -
  let ?lo = "{j. j < 8 \<and> bit w j}" and ?hi = "{j. j < 64 \<and> bit (drop_bit 8 w) j}"
  have "{j. j < 64 \<and> bit w j} = ?lo \<union> (+) 8 ` ?hi"
  proof (intro set_eqI iffI)
    fix j assume j: "j \<in> {j. j < 64 \<and> bit w j}"
    show "j \<in> ?lo \<union> (+) 8 ` ?hi"
    proof (cases "j < 8")
      case False
      then have "j = 8 + (j - 8)" "j - 8 \<in> ?hi" using j by (auto simp: bit_drop_bit_eq)
      then show ?thesis by blast
    qed (use j in simp)
  qed (auto simp: bit_drop_bit_eq dest: bit_64D)
  moreover have "card (?lo \<union> (+) 8 ` ?hi) = card ?lo + card ((+) 8 ` ?hi)"
    by (rule card_Un_disjoint) auto
  moreover have "card ((+) 8 ` ?hi) = card ?hi" by (rule card_image) simp
  ultimately show ?thesis by (simp add: pop_def)
qed

lemma count_block_pop: "count_block b n = n + pop b"
proof (induction b n rule: count_block.induct)
  case (1 b n)
  show ?case
  proof (cases "b = 0")
    case True
    then show ?thesis by (subst count_block.simps) (simp add: pop_def)
  next
    case False
    then show ?thesis using 1 pop_split [of b] count_table_low [of b]
      by (subst count_block.simps) simp
  qed
qed

lemma count_loop_pop: "count_loop bs n = n + sum_list (map pop bs)"
  by (induction bs arbitrary: n) (simp_all add: count_block_pop)

lemma sum_pop_card: "sum_list (map pop bs) = card {k. k < 64 * length bs \<and> bit (bs ! (k div 64)) (k mod 64)}"
proof (induction bs rule: rev_induct)
  case (snoc w bs)
  let ?P = "\<lambda>bs k. k < 64 * length bs \<and> bit (bs ! (k div 64)) (k mod 64)"
  let ?L = "length bs"
  have "{k. ?P (bs @ [w]) k} = {k. ?P bs k} \<union> (+) (64 * ?L) ` {j. j < 64 \<and> bit w j}"
  proof (intro set_eqI iffI)
    fix k assume k: "k \<in> {k. ?P (bs @ [w]) k}"
    show "k \<in> {k. ?P bs k} \<union> (+) (64 * ?L) ` {j. j < 64 \<and> bit w j}"
    proof (cases "k < 64 * ?L")
      case True
      then show ?thesis using k by (auto simp: nth_append less_mult_imp_div_less mult.commute)
    next
      case False
      then have "k = 64 * ?L + (k - 64 * ?L)" "k - 64 * ?L < 64" using k by auto
      then have "k div 64 = ?L" "k mod 64 = k - 64 * ?L" by (rule block_divI, rule block_modI)
      then have "k - 64 * ?L \<in> {j. j < 64 \<and> bit w j}" using k by (auto simp: nth_append)
      then show ?thesis using False by force
    qed
  qed (auto simp: nth_append less_mult_imp_div_less mult.commute)
  moreover have "card ({k. ?P bs k} \<union> (+) (64 * ?L) ` {j. j < 64 \<and> bit w j}) =
      card {k. ?P bs k} + card ((+) (64 * ?L) ` {j. j < 64 \<and> bit w j})"
    by (rule card_Un_disjoint) auto
  moreover have "card ((+) (64 * ?L) ` {j. j < 64 \<and> bit w j}) = pop w"
    unfolding pop_def by (rule card_image) simp
  ultimately show ?case using snoc by simp
qed simp

lemma bs_count_spec:
  assumes "bs_inv b"
  shows "bs_count b = length (filter id (bs_list b))"
proof -
  have "bs_count b = card {k. k < 64 * length (bs_bits b) \<and> bs_bit b k}"
    by (simp add: bs_count_def count_loop_pop sum_pop_card bs_bit_def)
  also have "{k. k < 64 * length (bs_bits b) \<and> bs_bit b k} = {k. k < bs_nums b \<and> bs_bit b k}"
    using assms bs_shape_bounds [of b] by (auto simp: bs_inv_def bs_clean_iff not_less [symmetric])
  also have "card \<dots> = length (filter id (bs_list b))"
    by (simp add: bs_list_def filter_map o_def length_filter_upt_card)
  finally show ?thesis .
qed

subsection \<open>Searching\<close>

lemma log_loop_power: "l < 64 \<Longrightarrow> log_loop (2 ^ l) n = n + l"
proof (induction l arbitrary: n)
  case 0
  have "drop_bit 1 (1 :: block_type) = 0" by (simp add: drop_bit_eq_div)
  then show ?case by (subst log_loop.simps) simp
next
  case (Suc l)
  have "drop_bit 1 (2 ^ Suc l :: block_type) = 2 ^ l"
    using Suc.prems by (intro block_eqI) (auto simp: bit_drop_bit_eq bit_power_block simp del: power_Suc)
  moreover have "(2 ^ l :: block_type) \<noteq> 0" using Suc.prems by simp
  ultimately show ?case using Suc by (subst log_loop.simps) simp
qed

text \<open>\<open>b - (b & (b - 1))\<close> isolates the lowest bit that is set.\<close>

lemma isolate_lowest:
  assumes l: "bit b l" and low: "\<And>j. j < l \<Longrightarrow> \<not> bit (b :: block_type) j"
  shows "b - (b AND (b - 1)) = 2 ^ l"
proof -
  define c where "c = b AND NOT (2 ^ l)"
  have l64: "l < 64" using l by (rule bit_64D)
  have c: "bit c j \<longleftrightarrow> bit b j \<and> j \<noteq> l" for j
    using l64 by (auto simp: c_def bit_and_iff bit_not_iff bit_power_block dest: bit_64D)
  have "c AND 2 ^ l = 0" by (rule block_eqI) (auto simp: bit_and_iff c bit_power_block)
  then have "c + 2 ^ l = c OR 2 ^ l" by (rule disjunctive_add_eq_or)
  also have "\<dots> = b" by (rule block_eqI) (use l in \<open>auto simp: bit_or_iff c bit_power_block\<close>)
  finally have b: "b = c + 2 ^ l" ..
  have "c AND mask l = 0" by (rule block_eqI) (auto simp: bit_and_iff c bit_mask_iff low)
  then have "c + mask l = c OR mask l" by (rule disjunctive_add_eq_or)
  moreover have "b - 1 = c + mask l" using b by (simp add: mask_eq_exp_minus_1)
  ultimately have b1: "b - 1 = c OR mask l" by simp
  have "b AND (b - 1) = c"
    unfolding b1 by (rule block_eqI) (auto simp: bit_and_iff bit_or_iff c bit_mask_iff low)
  then show ?thesis using b by simp
qed

lemma lowest_bit_spec:
  assumes "b \<noteq> 0"
  shows "bit b (lowest_bit b)" "j < lowest_bit b \<Longrightarrow> \<not> bit b j" "lowest_bit b < 64"
proof -
  define l where "l = (LEAST j. bit b j)"
  have "\<exists>j. bit b j" using assms by (auto simp: bit_eq_iff)
  then have l: "bit b l" "\<And>j. j < l \<Longrightarrow> \<not> bit b j"
    unfolding l_def by (auto intro: LeastI_ex dest: not_less_Least)
  have l64: "l < 64" using l(1) by (rule bit_64D)
  have "lowest_bit b = l"
    using isolate_lowest [OF l] log_loop_power [OF l64, of 0] by (simp add: lowest_bit_def)
  then show "bit b (lowest_bit b)" "j < lowest_bit b \<Longrightarrow> \<not> bit b j" "lowest_bit b < 64"
    using l l64 by auto
qed

lemma skip_zero_spec:
  "i \<le> skip_zero bs i" "i \<le> k \<Longrightarrow> k < skip_zero bs i \<Longrightarrow> k < length bs \<and> bs ! k = 0"
  "skip_zero bs i < length bs \<Longrightarrow> bs ! skip_zero bs i \<noteq> 0"
proof (induction bs i rule: skip_zero.induct)
  case (1 bs i)
  note IH = "1.IH"
  { case 1 show ?case using IH(1) by (subst skip_zero.simps) force }
  { case 2 then show ?case using IH(2) by (subst (asm) skip_zero.simps) (cases "k = i"; force split: if_splits) }
  { case 3 then show ?case using IH(3)
      by (cases "i < length bs \<and> bs ! i = 0") (simp_all add: skip_zero.simps [of bs i]) }
qed

text \<open>\<open>first_from b p r\<close>: \<open>r\<close> is the first position at or after \<open>p\<close> whose bit is set, \<open>npos\<close> if
  there is none.\<close>

definition first_from :: "bool list \<Rightarrow> nat \<Rightarrow> nat \<Rightarrow> bool" where
  "first_from l p r \<longleftrightarrow> (if \<exists>k < length l. p \<le> k \<and> l ! k
     then p \<le> r \<and> r < length l \<and> l ! r \<and> (\<forall>k < r. p \<le> k \<longrightarrow> \<not> l ! k) else r = npos)"

lemma first_from_hit: "first_from l p r \<Longrightarrow> p < length l \<Longrightarrow> l ! p \<Longrightarrow> r = p"
  unfolding first_from_def by (metis le_refl linorder_neqE_nat linorder_not_less)

lemma first_from_none: "first_from l p r \<Longrightarrow> length l \<le> p \<Longrightarrow> r = npos"
  by (auto simp: first_from_def split: if_splits)

lemma first_from_skip:
  assumes "first_from l q r" "p \<le> q" "\<And>k. p \<le> k \<Longrightarrow> k < q \<Longrightarrow> k < length l \<Longrightarrow> \<not> l ! k"
  shows "first_from l p r"
proof (cases "\<exists>k < length l. q \<le> k \<and> l ! k")
  case True
  then have r: "q \<le> r" "r < length l" "l ! r" "\<forall>k < r. q \<le> k \<longrightarrow> \<not> l ! k"
    using assms(1) by (auto simp: first_from_def)
  then have "\<forall>k < r. p \<le> k \<longrightarrow> \<not> l ! k" using assms(3) by (metis linorder_not_less order.strict_trans)
  then show ?thesis using r assms(2) by (auto simp: first_from_def)
next
  case False
  then have "\<not> (\<exists>k < length l. p \<le> k \<and> l ! k)" using assms(3) linorder_not_less by blast
  then show ?thesis using False assms(1) by (auto simp: first_from_def)
qed

lemma find_from_spec:
  assumes inv: "bs_inv b"
  shows "first_from (bs_list b) (64 * i) (find_from b i)"
proof -
  let ?bs = "bs_bits b" and ?k = "skip_zero (bs_bits b) i"
  have sh: "bs_shape b" and cl: "bs_clean b" using inv by (simp_all add: bs_inv_def)
  note bounds = bs_shape_bounds [OF sh]
  have zero: "\<not> bs_bit b p" if "64 * i \<le> p" "p div 64 < ?k" for p
  proof -
    have "i \<le> p div 64" using that(1) by simp
    then show ?thesis using skip_zero_spec(2) [of i "p div 64" ?bs] that(2) by (simp add: bs_bit_def)
  qed
  show ?thesis
  proof (cases "?k < length ?bs")
    case False
    then have "\<not> (\<exists>k < bs_nums b. 64 * i \<le> k \<and> bs_list b ! k)"
      using zero bs_shape_index [OF sh] by fastforce
    then show ?thesis using False by (auto simp: first_from_def find_from_def block_def)
  next
    case True
    define r where "r = ?k * 64 + lowest_bit (?bs ! ?k)"
    note low = lowest_bit_spec [OF skip_zero_spec(3) [OF True]]
    have r: "r div 64 = ?k" "r mod 64 = lowest_bit (?bs ! ?k)" using low(3) by (simp_all add: r_def)
    have f: "find_from b i = r"
      using True by (simp add: find_from_def block_def bits_per_block_def r_def Let_def)
    have set: "bs_bit b r" using low(1) r by (simp add: bs_bit_def)
    have r1: "64 * i \<le> r" using skip_zero_spec(1) [of i ?bs] by (simp add: r_def)
    have "r < 64 * length ?bs" using True r(1) by (metis div_less_iff_less_mult mult.commute zero_less_numeral)
    then have r2: "r < bs_nums b" using cl set by (meson bs_clean_iff linorder_not_less)
    have before: "\<not> bs_bit b k" if "64 * i \<le> k" "k < r" for k
    proof (cases "k div 64 < ?k")
      case False
      then have "k div 64 = ?k" "k mod 64 < lowest_bit (?bs ! ?k)"
        using that(2) r less_block_iff [of k r] by auto
      then show ?thesis using low(2) by (simp add: bs_bit_def)
    qed (use zero that in simp)
    show ?thesis using r1 r2 set before f by (auto simp: first_from_def)
  qed
qed

lemma find_first_spec: "bs_inv b \<Longrightarrow> first_from (bs_list b) 0 (find_first b)"
  using find_from_spec [of b 0] by (simp add: find_first_def)

text \<open>A search that may start inside a block: the rest of the block first, then the others.\<close>

lemma first_from_block:
  assumes inv: "bs_inv b" and p: "p < bs_nums b"
    and w: "w = bs_bits b ! (p div 64) AND push_bit (p mod 64) (NOT 0)"
  shows "first_from (bs_list b) p
    (if w \<noteq> 0 then p div 64 * 64 + lowest_bit w else find_from b (p div 64 + 1))"
proof -
  have sh: "bs_shape b" and cl: "bs_clean b" using inv by (simp_all add: bs_inv_def)
  have bw: "bit w j \<longleftrightarrow> p mod 64 \<le> j \<and> j < 64 \<and> bs_bit b (p div 64 * 64 + j)" for j
    using w by (auto simp: bit_simps bs_bit_def dest: bit_64D)
  show ?thesis
  proof (cases "w = 0")
    case True
    have none: "\<not> bs_bit b k" if "p \<le> k" "k < 64 * (p div 64 + 1)" for k
    proof -
      have "k div 64 = p div 64"
        using that by (metis Suc_eq_plus1 div_le_mono div_less_iff_less_mult less_Suc_eq_le le_antisym
            mult.commute zero_less_numeral)
      then show ?thesis using bw [of "k mod 64"] True that(1) less_block_iff [of k p]
        by (metis bit_0_eq bot_apply bot_bool_def div_mult_mod_eq linorder_not_less mod_less_divisor
            zero_less_numeral)
    qed
    have "p \<le> 64 * (p div 64 + 1)" by (simp add: dividend_less_times_div less_imp_le)
    then have "first_from (bs_list b) p (find_from b (p div 64 + 1))"
      using none by (intro first_from_skip [OF find_from_spec [OF inv]]) simp_all
    then show ?thesis using True by simp
  next
    case False
    note low = lowest_bit_spec [OF False]
    define r where "r = p div 64 * 64 + lowest_bit w"
    have r: "p mod 64 \<le> lowest_bit w" "bs_bit b r" using low(1) bw by (auto simp: r_def)
    have pr: "p \<le> r" using r(1) unfolding r_def by (metis add_le_cancel_left div_mult_mod_eq)
    have rd: "r div 64 = p div 64" "r mod 64 = lowest_bit w" using low(3) by (simp_all add: r_def)
    have "r < 64 * length (bs_bits b)"
      using rd(1) bs_shape_index [OF sh p] by (metis div_less_iff_less_mult mult.commute zero_less_numeral)
    then have "r < bs_nums b" using cl r(2) by (meson bs_clean_iff linorder_not_less)
    moreover have "\<not> bs_bit b k" if k: "p \<le> k" "k < r" for k
    proof -
      have "k div 64 = p div 64" using k rd(1) by (metis div_le_mono le_antisym less_or_eq_imp_le)
      moreover from this have "p mod 64 \<le> k mod 64" "k mod 64 < lowest_bit w"
        using k rd less_block_iff [of k p] less_block_iff [of k r] by auto
      ultimately show ?thesis using low(2) bw by (metis div_mult_mod_eq mod_less_divisor zero_less_numeral)
    qed
    ultimately show ?thesis using False pr r(2) by (auto simp: first_from_def r_def [symmetric])
  qed
qed

lemma find_next_spec:
  assumes inv: "bs_inv b" and i: "i < size_max"
  shows "first_from (bs_list b) (i + 1) (find_next b i)"
proof (cases "i + 1 < bs_nums b")
  case True
  have n: "bs_nums b < size_max" using inv by (simp add: bs_inv_def bs_shape_def)
  have m1: "bs_nums b + size_max - 1 = bs_nums b - 1 + size_max" using True by simp
  have "sz (bs_nums b + size_max - 1) = bs_nums b - 1"
    unfolding sz_def m1 mod_add_self2 using n by simp
  moreover have "\<not> bs_nums b - 1 \<le> i" using True by linarith
  ultimately have "find_next b i = (let w = bs_bits b ! ((i + 1) div 64) AND push_bit ((i + 1) mod 64) (NOT 0)
      in if w \<noteq> 0 then (i + 1) div 64 * 64 + lowest_bit w else find_from b ((i + 1) div 64 + 1))"
    using True n by (simp add: find_next_def bs_size_def Let_def index_defs)
  then show ?thesis using first_from_block [OF inv True refl] by (simp only: Let_def)
next
  case False
  have n: "bs_nums b < size_max" using inv by (simp add: bs_inv_def bs_shape_def)
  have "find_next b i = npos"
  proof (cases "bs_nums b = 0")
    case False
    then have m1: "bs_nums b + size_max - 1 = bs_nums b - 1 + size_max" by simp
    have "sz (bs_nums b + size_max - 1) = bs_nums b - 1"
      unfolding sz_def m1 mod_add_self2 using n by simp
    moreover have "bs_nums b - 1 \<le> i" using \<open>\<not> i + 1 < bs_nums b\<close> by linarith
    ultimately show ?thesis by (simp add: find_next_def bs_size_def)
  qed (simp add: find_next_def bs_size_def)
  then show ?thesis using False by (auto simp: first_from_def)
qed

subsection \<open>Printing\<close>

definition bit_char :: "bool \<Rightarrow> char" where
  "bit_char v = (if v then CHR ''1'' else CHR ''0'')"

lemma to_string_loop_spec:
  assumes sh: "bs_shape b"
  shows "n \<le> bs_nums b \<Longrightarrow> n \<le> m \<Longrightarrow> to_string_loop b msb m n (Inr (replicate m (CHR ''0''))) =
    Inr (let s = map bit_char (take n (bs_list b)) @ replicate (m - n) (CHR ''0'') in if msb then rev s else s)"
proof (induction n)
  case (Suc n)
  define S where "S n = map bit_char (take n (bs_list b)) @ replicate (m - n) (CHR ''0'')" for n
  have get: "bs_get b n = Inr (bs_list b ! n)" using Suc.prems bs_get_eq [OF sh] by simp
  have step: "(S n)[n := bit_char (bs_list b ! n)] = S (Suc n)"
    using Suc.prems unfolding S_def
    by (intro nth_equalityI) (auto simp: nth_list_update nth_append less_Suc_eq)
  have len: "length (S n) = m" "n < m" "S n ! n = CHR ''0''"
    using Suc.prems by (auto simp: S_def nth_append)
  have upd: "(if bs_list b ! n then (S n)[n := CHR ''1''] else S n) = S (Suc n)"
    using step len(3) list_update_id [of "S n" n] by (cases "bs_list b ! n") (auto simp: bit_char_def)
  have "(rev (S n))[m - n - 1 := CHR ''1''] = rev ((S n)[n := CHR ''1''])"
    using len rev_update [of n "S n"] by simp
  then have "(if bs_list b ! n then (rev (S n))[m - n - 1 := CHR ''1''] else rev (S n)) = rev (S (Suc n))"
    using upd by (auto split: if_splits)
  then show ?case
    using Suc get upd by (cases "bs_list b ! n"; cases msb) (simp_all add: S_def [symmetric] Let_def)
qed (simp add: Let_def)

lemma bs_to_string_spec:
  assumes "bs_shape b"
  shows "bs_to_string b msb False 0 =
    Inr (let s = map bit_char (bs_list b) in if msb then rev s else s)"
  using to_string_loop_spec [OF assms, of "bs_nums b" "bs_nums b" msb]
  by (simp add: bs_to_string_def bs_size_def Let_def)

end
