(* ===== verification/Bitset_Props.thy ===== *)
theory Bitset_Props
  imports Bitset_Spec
begin

text \<open>
  The properties of the bit vector of \<^verbatim>\<open>src/src/bitset.cpp\<close>, each with a concrete instance
  where its hypotheses hold.
\<close>

text \<open>Inside the vector, \<open>set(i, v)\<close>, \<open>reset(i)\<close> and \<open>flip(i)\<close> return, keep the invariant and
  change exactly bit \<open>i\<close> of the abstract list, and \<open>operator[]\<close> reads it; outside the vector all
  four stop at their assertion.\<close>

theorem bitset_single_bit:
  assumes "bs_inv b"
  shows "if i < bs_nums b
    then (\<exists>b'. bs_set_at b i v = Inr b' \<and> bs_inv b' \<and> bs_list b' = (bs_list b)[i := v]) \<and>
      (\<exists>b'. bs_reset_at b i = Inr b' \<and> bs_inv b' \<and> bs_list b' = (bs_list b)[i := False]) \<and>
      (\<exists>b'. bs_flip_at b i = Inr b' \<and> bs_inv b' \<and> bs_list b' = (bs_list b)[i := \<not> bs_list b ! i]) \<and>
      bs_get b i = Inr (bs_list b ! i)
    else bs_set_at b i v = Inl Assert_failed \<and> bs_reset_at b i = Inl Assert_failed \<and>
      bs_flip_at b i = Inl Assert_failed \<and> bs_get b i = Inl Assert_failed"
proof -
  have sh: "bs_shape b" using assms by (simp add: bs_inv_def)
  show ?thesis
  proof (cases "i < bs_nums b")
    case True
    then show ?thesis
      using bs_set_at_spec [OF assms True, of v] bs_set_at_spec [OF assms True, of False]
        bs_flip_at_spec [OF assms True] bs_get_eq [OF sh] bs_reset_at_set [OF sh] by fastforce
  next
    case False
    then show ?thesis
      by (simp add: bs_set_at_def bs_reset_at_def bs_flip_at_def bs_get_def)
  qed
qed

theorem bitset_single_bit_witness:
  "bs_inv (bs_make 70 False) \<and>
   (\<exists>b'. bs_set_at (bs_make 70 False) 65 True = Inr b' \<and> bs_list b' = (replicate 70 False)[65 := True]) \<and>
   bs_get (bs_make 70 False) 70 = Inl Assert_failed"
proof -
  have inv: "bs_inv (bs_make 70 False)" by (simp add: bs_make_inv size_max_def)
  show ?thesis
    using inv bitset_single_bit [OF inv, of 65 True] bitset_single_bit [OF inv, of 70 True]
    by (auto simp: bs_list_make)
qed

text \<open>\<open>resize\<close> truncates the list of bits or extends it with the given value, \<open>push_back\<close>
  adds one bit and \<open>append\<close> the 64 bits of a block, also when the vector ends inside a block;
  all three keep the invariant.\<close>

theorem bitset_grow:
  assumes "bs_inv b" "bs_nums b + 64 < size_max" "n < size_max"
  shows "bs_inv (bs_resize b n v) \<and>
    bs_list (bs_resize b n v) = take n (bs_list b) @ replicate (n - bs_nums b) v \<and>
    (\<exists>b'. bs_push_back b v = Inr b' \<and> bs_inv b' \<and> bs_list b' = bs_list b @ [v]) \<and>
    (\<exists>b'. bs_append b x = Inr b' \<and> bs_inv b' \<and> bs_list b' = bs_list b @ map (bit x) [0..<64])"
  using bs_resize_spec [OF assms(1,3)] bs_push_back_spec [OF assms(1)] bs_append_spec [OF assms(1,2)] assms(2)
  by simp

theorem bitset_grow_witness:
  "bs_inv (bs_make 3 False) \<and> bs_list (bs_resize (bs_make 3 False) 5 True) = [False, False, False, True, True]"
proof -
  have inv: "bs_inv (bs_make 3 False)" by (simp add: bs_make_inv size_max_def)
  have small: "bs_nums (bs_make 3 False) + 64 < size_max" "5 < size_max" by (simp_all add: size_max_def)
  show ?thesis
    using inv bitset_grow [OF inv small, of True 0] by (simp add: bs_list_make numeral_eq_Suc)
qed

text \<open>Shifting left by \<open>n\<close> bits, across block boundaries, moves every bit up by \<open>n\<close>
  positions and fills with zeros; a shift by the size or more clears the vector. The invariant
  is kept.\<close>

theorem bitset_shift_left:
  assumes "bs_inv x"
  shows "\<exists>y. bs_shl x n = Inr y \<and> bs_inv y \<and>
    bs_list y = replicate (min n (bs_nums x)) False @ take (bs_nums x - n) (bs_list x)"
proof -
  have sh: "bs_shape x" using assms by (simp add: bs_inv_def)
  show ?thesis
  proof (cases "n < bs_nums x")
    case True
    then show ?thesis using bs_shl_assign_spec [OF sh True] assms by (auto simp: bs_shl_def min_def)
  next
    case False
    then show ?thesis using bs_shift_all(1) [OF sh] bs_reset_spec [OF sh]
      by (auto simp: bs_shl_def min_def)
  qed
qed

theorem bitset_shift_left_witness:
  "bs_inv (bs_make 130 True) = False \<and> bs_inv (bs_set (bs_make 130 False)) \<and>
   (\<exists>y. bs_shl (bs_set (bs_make 130 False)) 70 = Inr y \<and> bs_list y = replicate 70 False @ replicate 60 True)"
proof -
  have inv: "bs_inv (bs_set (bs_make 130 False))" by (rule bs_set_spec(1), rule bs_make_shape) (simp add: size_max_def)
  have "bs_list (bs_set (bs_make 130 False)) = replicate 130 True" "bs_nums (bs_set (bs_make 130 False)) = 130"
    using bs_set_spec(2) [OF bs_make_shape, of 130 False]
    by (simp_all add: size_max_def bs_set_def bs_make_def)
  then show ?thesis
    using inv bitset_shift_left [OF inv, of 70] bs_make_clean_iff [of 130 True] by (auto simp: bs_inv_def)
qed

text \<open>Shifting right drops the \<open>n\<close> lowest bits and fills with zeros at the top, provided
  \<open>n\<close> is a multiple of the block size or only bits of the last block remain.\<close>

theorem bitset_shift_right:
  assumes "bs_inv x" "n < bs_nums x" "n mod 64 = 0 \<or> n div 64 = length (bs_bits x) - 1"
  shows "\<exists>y. bs_shr x n = Inr y \<and> bs_inv y \<and> bs_list y = drop n (bs_list x) @ replicate n False"
  using bs_shr_assign_spec [OF assms(1,2)] assms(3) by (auto simp: bs_shr_def shr_supported_def)

theorem bitset_shift_right_witness:
  "\<exists>y. bs_shr (bs_make 100 False) 67 = Inr y \<and> bs_list y = replicate 100 False"
proof -
  have inv: "bs_inv (bs_make 100 False)" by (simp add: bs_make_inv size_max_def)
  have "replicate 33 False @ replicate 67 False = replicate (33 + 67) False" by (rule replicate_add [symmetric])
  then show ?thesis using bitset_shift_right [OF inv, of 67]
    by (auto simp: bs_list_make bits_to_block_def bits_per_block_def)
qed

text \<open>For every other shift by less than a block of a vector with more than one block, the
  loop of \<open>operator>>=\<close> reads the block after the last one.\<close>

theorem bitset_shift_right_out_of_range:
  assumes "bs_inv x" "0 < n" "n < 64" "64 < bs_nums x"
  shows "bs_shr x n = Inl Out_of_range"
  using bs_shr_assign_out_of_range [OF _ assms(2-4)] assms(1) by (simp add: bs_shr_def bs_inv_def)

theorem bitset_shift_right_out_of_range_witness: "bs_shr (bs_make 65 False) 1 = Inl Out_of_range"
proof -
  have inv: "bs_inv (bs_make 65 False)" by (simp add: bs_make_inv size_max_def)
  show ?thesis by (rule bitset_shift_right_out_of_range [OF inv]) simp_all
qed

text \<open>On vectors of one size, \<open>&\<close>, \<open>|\<close>, \<open>^\<close> and \<open>-\<close> are the bitwise operations of the lists and
  \<open>~\<close> negates every bit; all keep the invariant.\<close>

theorem bitset_bitwise:
  assumes "bs_inv x" "bs_inv y" "bs_nums x = bs_nums y"
  shows "bs_list (bs_and x y) = map2 (\<and>) (bs_list x) (bs_list y) \<and>
    bs_list (bs_or x y) = map2 (\<or>) (bs_list x) (bs_list y) \<and>
    bs_list (bs_xor x y) = map2 (\<noteq>) (bs_list x) (bs_list y) \<and>
    bs_list (bs_minus x y) = map2 (\<lambda>a b. a \<and> \<not> b) (bs_list x) (bs_list y) \<and>
    bs_list (bs_not x) = map Not (bs_list x) \<and>
    bs_inv (bs_and x y) \<and> bs_inv (bs_or x y) \<and> bs_inv (bs_xor x y) \<and> bs_inv (bs_minus x y) \<and> bs_inv (bs_not x)"
proof -
  have sh: "bs_shape x" using assms(1) by (simp add: bs_inv_def)
  show ?thesis
    using bs_bitwise_spec [OF assms] bs_flip_spec [OF sh] by (simp add: bs_not_def)
qed

theorem bitset_bitwise_witness:
  "bs_list (bs_xor (bs_make 2 False) (bs_not (bs_make 2 False))) = [True, True]"
proof -
  have sh: "bs_shape (bs_make 2 False)" by (simp add: bs_make_shape size_max_def)
  have inv: "bs_inv (bs_make 2 False)" "bs_inv (bs_not (bs_make 2 False))"
    "bs_nums (bs_make 2 False) = bs_nums (bs_not (bs_make 2 False))"
    using bs_flip_spec [OF sh] by (simp_all add: bs_make_inv size_max_def bs_not_def)
  have "bs_list (bs_not (bs_make 2 False)) = [True, True]"
    using bs_flip_spec [OF sh] by (simp add: bs_not_def bs_list_make numeral_eq_Suc)
  then show ?thesis using bitset_bitwise [OF inv] by (simp add: bs_list_make numeral_eq_Suc)
qed

text \<open>\<open>count\<close>, which sums a table of byte counts over the blocks, is the number of bits that
  are set.\<close>

theorem bitset_count:
  assumes "bs_inv b"
  shows "bs_count b = length (filter id (bs_list b))"
  using assms by (rule bs_count_spec)

theorem bitset_count_witness: "bs_count (bs_not (bs_make 70 False)) = 70"
proof -
  have sh: "bs_shape (bs_make 70 False)" by (simp add: bs_make_shape size_max_def)
  have inv: "bs_inv (bs_not (bs_make 70 False))" using bs_flip_spec [OF sh] by (simp add: bs_not_def)
  have "bs_list (bs_not (bs_make 70 False)) = replicate 70 True"
    using bs_flip_spec [OF sh] by (simp add: bs_not_def bs_list_make)
  then show ?thesis using bitset_count [OF inv] by simp
qed

text \<open>\<open>find_first\<close> is the lowest position whose bit is set and \<open>find_next(i)\<close> the lowest one
  above \<open>i\<close>; both are \<open>npos\<close> exactly when there is none.\<close>

theorem bitset_find:
  assumes "bs_inv b" "i < size_max"
  shows "first_from (bs_list b) 0 (find_first b) \<and> first_from (bs_list b) (i + 1) (find_next b i)"
  using find_first_spec [OF assms(1)] find_next_spec [OF assms] by simp

theorem bitset_find_witness:
  "find_first (bs_not (bs_make 3 False)) = 0 \<and> find_next (bs_not (bs_make 3 False)) 2 = npos"
proof -
  have sh: "bs_shape (bs_make 3 False)" by (simp add: bs_make_shape size_max_def)
  have inv: "bs_inv (bs_not (bs_make 3 False))" using bs_flip_spec [OF sh] by (simp add: bs_not_def)
  have l: "bs_list (bs_not (bs_make 3 False)) = [True, True, True]"
    using bs_flip_spec [OF sh] by (simp add: bs_not_def bs_list_make numeral_eq_Suc)
  have "(2::nat) < size_max" by (simp add: size_max_def)
  note f = bitset_find [OF inv this, unfolded l]
  show ?thesis
    using first_from_hit [OF conjunct1 [OF f]] first_from_none [OF conjunct2 [OF f]] by simp
qed

text \<open>Without a cutoff, \<open>to_string\<close> writes one digit per bit, the highest bit first or
  last as asked.\<close>

theorem bitset_to_string:
  assumes "bs_inv b"
  shows "bs_to_string b msb False 0 =
    Inr (if msb then rev (map bit_char (bs_list b)) else map bit_char (bs_list b))"
  using bs_to_string_spec [of b msb] assms by (simp add: bs_inv_def Let_def)

theorem bitset_to_string_witness: "bs_to_string (bs_resize (bs_make 2 False) 4 True) True False 0 = Inr ''1100''"
proof -
  have b: "bs_inv (bs_make 2 False)" "4 < size_max" by (simp_all add: bs_make_inv size_max_def)
  have inv: "bs_inv (bs_resize (bs_make 2 False) 4 True)" by (rule bs_resize_spec(1) [OF b])
  have l: "bs_list (bs_resize (bs_make 2 False) 4 True) = [False, False, True, True]"
    using bs_resize_spec(3) [OF b, of True] by (simp add: bs_list_make numeral_eq_Suc)
  show ?thesis using bitset_to_string [OF inv, of True] by (simp add: l bit_char_def)
qed

text \<open>\<open>operator==\<close> compares the lists of bits, and \<open>operator<\<close> is a strict total order on
  vectors that \<open>operator==\<close> tells apart.\<close>

theorem bitset_order:
  assumes "bs_inv x" "bs_inv y" "bs_inv z"
  shows "(bs_eq x y \<longleftrightarrow> bs_list x = bs_list y) \<and> \<not> bs_less x x \<and>
    (bs_less x y \<and> bs_less y z \<longrightarrow> bs_less x z) \<and> (bs_less x y \<or> bs_eq x y \<or> bs_less y x)"
proof -
  have sh: "bs_shape x" "bs_shape y" "bs_shape z" using assms by (simp_all add: bs_inv_def)
  show ?thesis using bs_eq_list [OF assms(1,2)] bs_less_total_order [OF sh] by blast
qed

theorem bitset_order_witness: "bs_less (bs_make 2 False) (bs_make 3 False)"
proof -
  have inv: "bs_inv (bs_make 2 False)" "bs_inv (bs_make 3 False)" by (simp_all add: bs_make_inv size_max_def)
  have "\<not> bs_eq (bs_make 2 False) (bs_make 3 False)" "\<not> bs_less (bs_make 3 False) (bs_make 2 False)"
    by (simp_all add: bs_eq_def bs_less_def bs_make_def bits_to_block_def bits_per_block_def bs_size_def)
  then show ?thesis using bitset_order [OF inv(1,2,1)] by blast
qed

text \<open>The constructor \<open>bitset(size, value)\<close> gives \<open>size\<close> copies of \<open>value\<close>, but with
  \<open>value = true\<close> the unused bits of the last block are set too, so the invariant holds only when
  the size is a multiple of the block size.\<close>

theorem bitset_construct:
  assumes "n < size_max"
  shows "bs_list (bs_make n v) = replicate n v \<and> (bs_inv (bs_make n v) \<longleftrightarrow> \<not> v \<or> n mod 64 = 0)"
  using assms by (simp add: bs_list_make bs_inv_def bs_make_shape bs_make_clean_iff)

theorem bitset_construct_witness: "\<not> bs_inv (bs_make 4 True) \<and> bs_inv (bs_make 64 True)"
  using bitset_construct [of 4 True] bitset_construct [of 64 True] by (simp add: size_max_def)

end
