(* ===== verification/Bitset_Run.thy ===== *)
theory Bitset_Run
  imports Bitset_Spec
begin

text \<open>
  Programs on the bit vector of \<^verbatim>\<open>src/src/bitset.cpp\<close>: any sequence of its updates refines the same sequence on
  the list of its bits, which is where its type invariant (as many blocks as the bits need, all unused
  bits clear) matters: without it \<open>count\<close> and \<open>find_first\<close> would see bits that are not there.
\<close>

datatype bs_call =
    Set_at nat bool | Reset_at nat | Flip_at nat
  | Set_all | Reset_all | Flip_all
  | Clear | Resize nat bool | Push_back bool | Append block_type
  | Shift_left nat
  | And_with bitset | Or_with bitset | Xor_with bitset | Minus_with bitset

fun bs_do :: "bs_call \<Rightarrow> bitset \<Rightarrow> bitset res" where
  "bs_do (Set_at i v) b = bs_set_at b i v"
| "bs_do (Reset_at i) b = bs_reset_at b i"
| "bs_do (Flip_at i) b = bs_flip_at b i"
| "bs_do Set_all b = Inr (bs_set b)"
| "bs_do Reset_all b = Inr (bs_reset b)"
| "bs_do Flip_all b = Inr (bs_flip b)"
| "bs_do Clear b = Inr (bs_clear b)"
| "bs_do (Resize n v) b = Inr (bs_resize b n v)"
| "bs_do (Push_back v) b = bs_push_back b v"
| "bs_do (Append x) b = bs_append b x"
| "bs_do (Shift_left n) b = bs_shl_assign b n"
| "bs_do (And_with y) b = Inr (bs_and b y)"
| "bs_do (Or_with y) b = Inr (bs_or b y)"
| "bs_do (Xor_with y) b = Inr (bs_xor b y)"
| "bs_do (Minus_with y) b = Inr (bs_minus b y)"

text \<open>The same on lists; \<open>None\<close> is a failed assertion.\<close>

fun bl_do :: "bs_call \<Rightarrow> bool list \<Rightarrow> bool list option" where
  "bl_do (Set_at i v) l = (if i < length l then Some (l[i := v]) else None)"
| "bl_do (Reset_at i) l = (if i < length l then Some (l[i := False]) else None)"
| "bl_do (Flip_at i) l = (if i < length l then Some (l[i := \<not> l ! i]) else None)"
| "bl_do Set_all l = Some (replicate (length l) True)"
| "bl_do Reset_all l = Some (replicate (length l) False)"
| "bl_do Flip_all l = Some (map Not l)"
| "bl_do Clear l = Some []"
| "bl_do (Resize n v) l = Some (take n l @ replicate (n - length l) v)"
| "bl_do (Push_back v) l = Some (l @ [v])"
| "bl_do (Append x) l = Some (l @ map (bit x) [0..<64])"
| "bl_do (Shift_left n) l = Some (take (length l) (replicate n False @ l))"
| "bl_do (And_with y) l = Some (map2 (\<and>) l (bs_list y))"
| "bl_do (Or_with y) l = Some (map2 (\<or>) l (bs_list y))"
| "bl_do (Xor_with y) l = Some (map2 (\<noteq>) l (bs_list y))"
| "bl_do (Minus_with y) l = Some (map2 (\<lambda>a b. a \<and> \<not> b) l (bs_list y))"

text \<open>Sizes stay below the range of \<open>size_t\<close>, and the operands of bitwise operations are well formed and of the
  same size.\<close>

fun bs_fits :: "bs_call \<Rightarrow> bool list \<Rightarrow> bool" where
  "bs_fits (Resize n v) l \<longleftrightarrow> n < size_max"
| "bs_fits (Push_back v) l \<longleftrightarrow> length l + 1 < size_max"
| "bs_fits (Append x) l \<longleftrightarrow> length l + 64 < size_max"
| "bs_fits (And_with y) l \<longleftrightarrow> bs_inv y \<and> bs_nums y = length l"
| "bs_fits (Or_with y) l \<longleftrightarrow> bs_inv y \<and> bs_nums y = length l"
| "bs_fits (Xor_with y) l \<longleftrightarrow> bs_inv y \<and> bs_nums y = length l"
| "bs_fits (Minus_with y) l \<longleftrightarrow> bs_inv y \<and> bs_nums y = length l"
| "bs_fits _ l \<longleftrightarrow> True"

fun bs_run :: "bs_call list \<Rightarrow> bitset \<Rightarrow> bitset res" where
  "bs_run [] b = Inr b"
| "bs_run (c # cs) b = rbind (bs_do c b) (bs_run cs)"

fun bl_run :: "bs_call list \<Rightarrow> bool list \<Rightarrow> bool list option" where
  "bl_run [] l = Some l"
| "bl_run (c # cs) l = Option.bind (bl_do c l) (bl_run cs)"

fun bs_run_fits :: "bs_call list \<Rightarrow> bool list \<Rightarrow> bool" where
  "bs_run_fits [] l \<longleftrightarrow> True"
| "bs_run_fits (c # cs) l \<longleftrightarrow> bs_fits c l \<and> (case bl_do c l of None \<Rightarrow> True | Some l' \<Rightarrow> bs_run_fits cs l')"

definition implements :: "bitset res \<Rightarrow> bool list option \<Rightarrow> bool" where
  "implements r l \<longleftrightarrow> (case l of None \<Rightarrow> r = Inl Assert_failed | Some xs \<Rightarrow> \<exists>b. r = Inr b \<and> bs_inv b \<and> bs_list b = xs)"

lemma implements_Some: "r = Inr b \<Longrightarrow> bs_inv b \<Longrightarrow> bs_list b = xs \<Longrightarrow> implements r (Some xs)"
  by (simp add: implements_def)

lemma bs_do_implements:
  assumes "bs_inv b" "bs_fits c (bs_list b)"
  shows "implements (bs_do c b) (bl_do c (bs_list b))"
proof -
  have sh: "bs_shape b" using assms(1) by (simp add: bs_inv_def)
  show ?thesis
  proof (cases c)
    case (Set_at i v)
    then show ?thesis using bs_set_at_spec [OF assms(1), of i v] bs_set_at_outside [of b i v] by (auto simp: implements_def)
  next
    case (Reset_at i)
    then show ?thesis using bs_set_at_spec [OF assms(1), of i False] bs_set_at_outside [of b i False] bs_reset_at_set [OF sh]
      by (auto simp: implements_def)
  next
    case (Flip_at i)
    then show ?thesis using bs_flip_at_spec [OF assms(1), of i] by (auto simp: implements_def bs_flip_at_def)
  next
    case (Shift_left n)
    show ?thesis
    proof (cases "n < bs_nums b")
      case True
      then show ?thesis using Shift_left bs_shl_assign_spec [OF sh True] assms(1) by (auto simp: implements_def)
    next
      case False
      then show ?thesis using Shift_left bs_reset_spec [OF sh] by (auto simp: implements_def bs_shl_assign_def)
    qed
  next
    case Clear
    then show ?thesis by (auto simp: implements_def bs_clear_def bs_inv_def bs_shape_def bs_clean_def bs_list_def bits_to_block_def
        bits_per_block_def size_max_def sz_def)
  next
    case (Push_back v)
    then show ?thesis using bs_push_back_spec [OF assms(1), of v] assms(2) by (auto simp: implements_def)
  next
    case (Append x)
    then show ?thesis using bs_append_spec [OF assms(1), of x] assms(2) by (auto simp: implements_def)
  qed (use assms bs_set_spec [OF sh] bs_reset_spec [OF sh] bs_flip_spec [OF sh] bs_resize_spec [OF assms(1)] bs_bitwise_spec [OF assms(1)]
       in \<open>auto intro!: implements_Some\<close>)
qed

lemma bs_run_implements:
  "bs_inv b \<Longrightarrow> bs_run_fits cs (bs_list b) \<Longrightarrow> implements (bs_run cs b) (bl_run cs (bs_list b))"
proof (induction cs arbitrary: b)
  case (Cons c cs)
  have i: "implements (bs_do c b) (bl_do c (bs_list b))" using bs_do_implements Cons.prems by simp
  show ?case
  proof (cases "bl_do c (bs_list b)")
    case (Some l)
    then obtain b' where "bs_do c b = Inr b'" "bs_inv b'" "bs_list b' = l" using i by (auto simp: implements_def)
    then show ?thesis using Cons.IH [of b'] Cons.prems(2) Some by simp
  qed (use i in \<open>simp add: implements_def\<close>)
qed (simp add: implements_def)

lemma bs_empty_inv: "bs_inv bs_empty" "bs_list bs_empty = []"
  by (simp_all add: bs_empty_def bs_inv_def bs_shape_def bs_clean_def bs_list_def bits_to_block_def bits_per_block_def size_max_def sz_def)



end
