(* ===== verification/Libc.thy ===== *)
theory Libc
  imports Prelude
begin

text \<open>
  The parts of the C library and of the integer conversions that the server relies on:
  the 32-bit \<open>int\<close> and its conversions, decimal printing as \<open>%d\<close> and \<open>%02d\<close> do it, bounded
  formatted output (\<open>snprintf\<close>) into a buffer, \<open>memcmp\<close>, and case-insensitive comparison in
  the C locale.
\<close>

subsection \<open>32-bit int and its conversions\<close>

definition int_max :: int where
  "int_max = 2 ^ 31 - 1"

text \<open>The value of an \<open>int\<close> computation, reduced to 32 bits in two's complement.\<close>

definition cint :: "int \<Rightarrow> int" where
  "cint x = (x + 2 ^ 31) mod 2 ^ 32 - 2 ^ 31"

text \<open>\<open>size_t\<close> to \<open>int\<close> and \<open>int\<close> to \<open>size_t\<close>.\<close>

definition int_of_size :: "size_t \<Rightarrow> int" where
  "int_of_size n = cint (int n)"

definition size_of_int :: "int \<Rightarrow> size_t" where
  "size_of_int x = nat (x mod 2 ^ 64)"

subsection \<open>Decimal printing\<close>

definition digit_char :: "nat \<Rightarrow> char" where
  "digit_char d = char_of (48 + d)"

fun dec :: "nat \<Rightarrow> string" where
  "dec n = (if n < 10 then [digit_char n] else dec (n div 10) @ [digit_char (n mod 10)])"

declare dec.simps [simp del]

definition fmt_d :: "int \<Rightarrow> string" where
  "fmt_d x = (if x < 0 then CHR ''-'' # dec (nat (- x)) else dec (nat x))"

definition fmt_02d :: "int \<Rightarrow> string" where
  "fmt_02d x = (let s = fmt_d x in if length s < 2 then CHR ''0'' # s else s)"

definition digit_val :: "char \<Rightarrow> nat" where
  "digit_val c = of_char c - 48"

definition undec :: "string \<Rightarrow> nat" where
  "undec s = foldl (\<lambda>a c. 10 * a + digit_val c) 0 s"

subsection \<open>Bounded output\<close>

definition crlf :: string where
  "crlf = [CHR 0x0D, CHR 0x0A]"

text \<open>
  \<open>snprintf(buf + off, lim, ...)\<close> for the formatted text \<open>s\<close>: with a limit of 0 nothing is
  written; otherwise at most \<open>lim - 1\<close> characters of the text and a terminating NUL. The
  write must stay inside the buffer. The result is the length of the whole text, or -1 when
  that length does not fit an \<open>int\<close> (what the buffer holds then is unspecified; here it is
  left alone).
\<close>

definition overwrite :: "'a list \<Rightarrow> nat \<Rightarrow> 'a list \<Rightarrow> 'a list" where
  "overwrite xs i ys = take i xs @ ys @ drop (i + length ys) xs"

definition snprintf_text :: "nat \<Rightarrow> string \<Rightarrow> string" where
  "snprintf_text lim s = (if lim = 0 then [] else take (lim - 1) s @ [CHR 0x00])"

definition snprintf :: "string \<Rightarrow> int \<Rightarrow> int \<Rightarrow> string \<Rightarrow> (string \<times> int) res" where
  "snprintf buf off lim s = (let out = snprintf_text (size_of_int lim) s in
     if int (length s) > int_max then Inr (buf, - 1)
     else if out = [] then Inr (buf, int (length s))
     else if off < 0 \<or> int (length buf) < off + int (length out) then Inl Buffer_overflow
     else Inr (overwrite buf (nat off) out, int (length s)))"

text \<open>\<open>memcpy(buf + off, src, n)\<close>.\<close>

definition memcpy :: "string \<Rightarrow> int \<Rightarrow> string \<Rightarrow> string res" where
  "memcpy buf off src = (if off < 0 \<or> int (length buf) < off + int (length src)
     then Inl Buffer_overflow else Inr (overwrite buf (nat off) src))"

subsection \<open>Comparison\<close>

fun memcmp :: "string \<Rightarrow> string \<Rightarrow> int" where
  "memcmp (x # xs) (y # ys) = (if x = y then memcmp xs ys else int (of_char x) - int (of_char y))"
| "memcmp _ _ = 0"

text \<open>A C string ends at its first NUL.\<close>

definition c_str :: "string \<Rightarrow> string" where
  "c_str s = takeWhile (\<lambda>c. c \<noteq> CHR 0x00) s"

definition toupper :: "char \<Rightarrow> char" where
  "toupper c = (let n = of_char c :: nat in if 97 \<le> n \<and> n \<le> 122 then char_of (n - 32) else c)"

definition tolower :: "char \<Rightarrow> char" where
  "tolower c = (let n = of_char c :: nat in if 65 \<le> n \<and> n \<le> 90 then char_of (n + 32) else c)"

fun strcasecmp :: "string \<Rightarrow> string \<Rightarrow> int" where
  "strcasecmp [] [] = 0"
| "strcasecmp [] (y # ys) = - int (of_char (tolower y))"
| "strcasecmp (x # xs) [] = int (of_char (tolower x))"
| "strcasecmp (x # xs) (y # ys) = (if tolower x = tolower y then strcasecmp xs ys
     else int (of_char (tolower x)) - int (of_char (tolower y)))"

subsection \<open>Lemmas\<close>

lemma cint_id: "- (2 ^ 31) \<le> x \<Longrightarrow> x < 2 ^ 31 \<Longrightarrow> cint x = x"
  by (simp add: cint_def)

lemma cint_range: "- (2 ^ 31) \<le> cint x" "cint x < 2 ^ 31"
  using pos_mod_sign [of "2 ^ 32" "x + 2 ^ 31"] pos_mod_bound [of "2 ^ 32" "x + 2 ^ 31"]
  by (simp_all add: cint_def)

lemma int_of_size_small [simp]: "n < 2 ^ 31 \<Longrightarrow> int_of_size n = int n"
  by (simp add: int_of_size_def cint_id)

lemma int_of_size_npos: "int_of_size npos = - 1"
  by (simp add: int_of_size_def cint_def npos_def size_max_def)

lemma size_of_int_nonneg: "0 \<le> x \<Longrightarrow> x < 2 ^ 64 \<Longrightarrow> size_of_int x = nat x"
  by (simp add: size_of_int_def)

lemma size_of_int_minus_one: "size_of_int (- 1) = npos"
  by (simp add: size_of_int_def npos_def size_max_def)

lemma digit_val_char: "d < 10 \<Longrightarrow> digit_val (digit_char d) = d"
  by (simp add: digit_val_def digit_char_def)

lemma undec_snoc: "undec (s @ [c]) = 10 * undec s + digit_val c"
  by (simp add: undec_def)

text \<open>Printing a number in decimal and reading it back.\<close>

lemma undec_dec: "undec (dec n) = n"
proof (induction n rule: dec.induct)
  case (1 n)
  show ?case
  proof (cases "n < 10")
    case True
    then show ?thesis by (subst dec.simps) (simp add: undec_def digit_val_char)
  next
    case False
    then show ?thesis using 1 by (subst dec.simps) (simp add: undec_snoc digit_val_char)
  qed
qed

lemma dec_nonempty [simp]: "dec n \<noteq> []"
  by (subst dec.simps) simp

lemma dec_length: "n < 10 ^ Suc k \<Longrightarrow> length (dec n) \<le> Suc k"
proof (induction k arbitrary: n)
  case 0
  then show ?case by (subst dec.simps) simp
next
  case (Suc k)
  have "n div 10 < 10 ^ Suc k" using Suc.prems by (simp add: less_mult_imp_div_less mult.commute)
  then show ?case using Suc.IH [of "n div 10"] by (subst dec.simps) simp
qed

lemma digit_not_nul: "d < 10 \<Longrightarrow> digit_char d \<noteq> CHR 0x00"
proof
  assume d: "d < 10" and "digit_char d = CHR 0x00"
  then have "(of_char (digit_char d) :: nat) = of_char (CHR 0x00)" by simp
  then show False using d by (simp add: digit_char_def)
qed

lemma dec_no_nul: "CHR 0x00 \<notin> set (dec n)"
proof (induction n rule: dec.induct)
  case (1 n)
  then show ?case using digit_not_nul [of n] digit_not_nul [of "n mod 10"] by (subst dec.simps) auto
qed

lemma c_str_snprintf: "0 < lim \<Longrightarrow> CHR 0x00 \<notin> set t \<Longrightarrow> c_str (snprintf_text lim t) = take (lim - 1) t"
proof -
  assume "0 < lim" and t: "CHR 0x00 \<notin> set t"
  have "CHR 0x00 \<notin> set (take (lim - 1) t)" using t by (meson in_set_takeD)
  then have "takeWhile (\<lambda>c. c \<noteq> CHR 0x00) (take (lim - 1) t @ [CHR 0x00]) = take (lim - 1) t"
    by (subst takeWhile_append2) auto
  then show ?thesis using \<open>0 < lim\<close> by (simp add: c_str_def snprintf_text_def)
qed

lemma length_overwrite [simp]: "i + length ys \<le> length xs \<Longrightarrow> length (overwrite xs i ys) = length xs"
  by (simp add: overwrite_def)

lemma take_overwrite: "i + length ys \<le> length xs \<Longrightarrow> take (i + length ys) (overwrite xs i ys) = take i xs @ ys"
  by (simp add: overwrite_def)

lemma take_overwrite_prefix: "j \<le> i \<Longrightarrow> i \<le> length xs \<Longrightarrow> take j (overwrite xs i ys) = take j xs"
  by (simp add: overwrite_def min_def)

lemma memcmp_0_iff: "length xs = length ys \<Longrightarrow> memcmp xs ys = 0 \<longleftrightarrow> xs = ys"
  by (induction xs ys rule: memcmp.induct) auto

lemma toupper_tolower: "toupper (tolower c) = toupper c"
  by (auto simp: toupper_def tolower_def Let_def)

lemma tolower_toupper: "tolower x = tolower y \<Longrightarrow> toupper x = toupper y"
  by (metis toupper_tolower)

lemma of_char_pos: "c \<noteq> CHR 0x00 \<Longrightarrow> 0 < (of_char c :: nat)"
proof (rule ccontr)
  assume "c \<noteq> CHR 0x00" "\<not> 0 < (of_char c :: nat)"
  then have "of_char c = (of_char (CHR 0x00) :: nat)" by simp
  then show False using \<open>c \<noteq> CHR 0x00\<close> by (simp only: of_char_eq_iff)
qed

lemma tolower_pos: "CHR 0x00 \<noteq> c \<Longrightarrow> 0 < (of_char (tolower c) :: nat)"
  using of_char_pos [of c] by (auto simp: tolower_def Let_def)

lemma strcasecmp_0_iff:
  "CHR 0x00 \<notin> set xs \<Longrightarrow> CHR 0x00 \<notin> set ys \<Longrightarrow>
    strcasecmp xs ys = 0 \<longleftrightarrow> map tolower xs = map tolower ys"
  by (induction xs ys rule: strcasecmp.induct) (auto simp: tolower_pos)

text \<open>A text that is shorter than the limit is written whole, followed by a NUL.\<close>

lemma snprintf_fits:
  assumes "0 \<le> off" "off + lim \<le> int (length buf)" "int (length s) < lim" "lim < 2 ^ 31"
  shows "snprintf buf off lim s = Inr (overwrite buf (nat off) (s @ [CHR 0x00]), int (length s))"
proof -
  have "size_of_int lim = nat lim" using assms(3,4) by (simp add: size_of_int_nonneg)
  then have "snprintf_text (size_of_int lim) s = s @ [CHR 0x00]"
    using assms(3) by (simp add: snprintf_text_def)
  then show ?thesis using assms by (simp add: snprintf_def int_max_def)
qed

text \<open>A longer text is cut to the limit, the last character of which is the NUL.\<close>

lemma snprintf_cut:
  assumes "0 \<le> off" "off + lim \<le> int (length buf)" "0 < lim" "lim \<le> int (length s)" "int (length s) < 2 ^ 31"
  shows "snprintf buf off lim s =
    Inr (overwrite buf (nat off) (take (nat lim - 1) s @ [CHR 0x00]), int (length s))"
proof -
  have "size_of_int lim = nat lim" using assms(3-5) by (simp add: size_of_int_nonneg)
  then have "snprintf_text (size_of_int lim) s = take (nat lim - 1) s @ [CHR 0x00]"
    using assms(3) by (simp add: snprintf_text_def)
  then show ?thesis using assms by (simp add: snprintf_def int_max_def)
qed

lemma snprintf_length: "snprintf buf off lim s = Inr (b, n) \<Longrightarrow> length b = length buf"
  by (auto simp: snprintf_def Let_def split: if_splits)

lemma memcpy_length: "memcpy buf off src = Inr b \<Longrightarrow> length b = length buf"
  by (auto simp: memcpy_def split: if_splits)

end
