(* ===== verification/Slice.thy ===== *)
theory Slice
  imports Libc "HOL-Library.List_Lexorder" "HOL-Library.Product_Lexorder"
begin

text \<open>
  The byte range \<open>slice\<close> of \<^verbatim>\<open>src/src/iobufs.hpp\<close>: a pointer into memory that belongs to
  somebody else and a length. Memory is a function from addresses to bytes; the null pointer
  is \<open>None\<close>. The order of slices is the order of their contents, which the type \<open>bytes\<close>
  carries as a \<open>linorder\<close>.
\<close>

unbundle bit_operations_syntax

type_synonym mem = "nat \<Rightarrow> char"

text \<open>A memory that holds a given text at a given address.\<close>

definition mem_at :: "nat \<Rightarrow> string \<Rightarrow> mem" where
  "mem_at a s = (\<lambda>i. if a \<le> i \<and> i < a + length s then s ! (i - a) else CHR 0x00)"

record slice =
  sl_buf :: "nat option"
  sl_len :: int

definition slice_default :: slice where
  "slice_default = \<lparr>sl_buf = None, sl_len = 0\<rparr>"

definition slice_make :: "nat option \<Rightarrow> int \<Rightarrow> slice" where
  "slice_make buf len = \<lparr>sl_buf = buf, sl_len = len\<rparr>"

definition slice_reset :: "slice \<Rightarrow> slice" where
  "slice_reset s = s\<lparr>sl_buf := None, sl_len := 0\<rparr>"

definition slice_data :: "slice \<Rightarrow> nat option" where
  "slice_data s = (case sl_buf s of Some a \<Rightarrow> Some a | None \<Rightarrow> None)"

definition slice_size :: "slice \<Rightarrow> size_t" where
  "slice_size s = size_of_int (sl_len s)"

subsection \<open>Hash\<close>

definition fnv_seed :: "64 word" where
  "fnv_seed = 14695981039346656037"

definition fnv_prime :: "64 word" where
  "fnv_prime = 1099511628211"

function hash_loop :: "mem \<Rightarrow> nat \<Rightarrow> nat \<Rightarrow> 64 word \<Rightarrow> 64 word" where
  "hash_loop m pv fin r = (if pv < fin
     then hash_loop m (pv + 1) fin ((r XOR of_nat (of_char (m pv))) * fnv_prime) else r)"
  by pat_completeness auto
termination
  by (relation "measure (\<lambda>(m, pv, fin, r). fin - pv)") auto

declare hash_loop.simps [simp del]

definition slice_hash :: "mem \<Rightarrow> slice \<Rightarrow> (64 word) res" where
  "slice_hash m s = (case sl_buf s of
       Some a \<Rightarrow> Inr (hash_loop m a (nat (int a + sl_len s)) fnv_seed)
     | None \<Rightarrow> if sl_len s > 0 then Inl Null_pointer else Inr fnv_seed)"

subsection \<open>Comparison\<close>

definition slice_bytes :: "mem \<Rightarrow> slice \<Rightarrow> string" where
  "slice_bytes m s = (case sl_buf s of None \<Rightarrow> [] | Some a \<Rightarrow> map m [a..<a + nat (sl_len s)])"

definition slice_compare :: "mem \<Rightarrow> slice \<Rightarrow> slice \<Rightarrow> int" where
  "slice_compare m a b = (let al = int_of_size (slice_size a); bl = int_of_size (slice_size b) in
     if al = bl then memcmp (slice_bytes m a) (slice_bytes m b) else cint (al - bl))"

definition slice_less :: "mem \<Rightarrow> slice \<Rightarrow> slice \<Rightarrow> bool" where
  "slice_less m a b \<longleftrightarrow> slice_compare m a b < 0"

definition slice_eq :: "mem \<Rightarrow> slice \<Rightarrow> slice \<Rightarrow> bool" where
  "slice_eq m a b \<longleftrightarrow> slice_compare m a b = 0"

definition slice_neq :: "mem \<Rightarrow> slice \<Rightarrow> slice \<Rightarrow> bool" where
  "slice_neq m a b \<longleftrightarrow> slice_compare m a b \<noteq> 0"

text \<open>A slice the code builds: its length is that of a region of memory, and the null slice
  is empty.\<close>

definition slice_ok :: "slice \<Rightarrow> bool" where
  "slice_ok s \<longleftrightarrow> 0 \<le> sl_len s \<and> sl_len s < 2 ^ 31 \<and> (sl_buf s = None \<longrightarrow> sl_len s = 0)"

subsection \<open>The contents of a slice as an ordered type\<close>

datatype bytes = Bytes (unbytes: string)

definition bytes_key :: "bytes \<Rightarrow> nat \<times> nat list" where
  "bytes_key b = (length (unbytes b), map of_char (unbytes b))"

lemma bytes_key_inj: "bytes_key a = bytes_key b \<longleftrightarrow> a = b"
  by (cases a; cases b) (auto simp: bytes_key_def inj_map_eq_map [OF inj_of_char])

instantiation bytes :: linorder
begin

definition less_eq_bytes :: "bytes \<Rightarrow> bytes \<Rightarrow> bool" where
  "less_eq_bytes a b \<longleftrightarrow> bytes_key a \<le> bytes_key b"

definition less_bytes :: "bytes \<Rightarrow> bytes \<Rightarrow> bool" where
  "less_bytes a b \<longleftrightarrow> bytes_key a < bytes_key b"

instance
  by standard (auto simp: less_eq_bytes_def less_bytes_def less_le_not_le simp flip: bytes_key_inj)

end

subsection \<open>Lemmas\<close>

lemma memcmp_less_iff:
  "length xs = length ys \<Longrightarrow> memcmp xs ys < 0 \<longleftrightarrow> map of_char xs < (map of_char ys :: nat list)"
  by (induction xs ys rule: memcmp.induct) auto

lemma slice_ok_length:
  assumes "slice_ok s"
  shows "int (length (slice_bytes m s)) = sl_len s" "int_of_size (slice_size s) = sl_len s"
proof -
  show "int (length (slice_bytes m s)) = sl_len s"
    using assms by (auto simp: slice_ok_def slice_bytes_def split: option.splits)
  have "nat (sl_len s) < 2 ^ 31" using assms by (auto simp: slice_ok_def)
  then show "int_of_size (slice_size s) = sl_len s"
    using assms by (auto simp: slice_ok_def slice_size_def size_of_int_nonneg)
qed

lemma slice_compare_eq:
  assumes "slice_ok a" "slice_ok b"
  shows "slice_compare m a b = (if length (slice_bytes m a) = length (slice_bytes m b)
    then memcmp (slice_bytes m a) (slice_bytes m b)
    else int (length (slice_bytes m a)) - int (length (slice_bytes m b)))"
proof -
  note len = slice_ok_length [OF assms(1)] slice_ok_length [OF assms(2)]
  have "cint (sl_len a - sl_len b) = sl_len a - sl_len b"
    using assms by (intro cint_id) (auto simp: slice_ok_def)
  then show ?thesis
    using len(1,3) [of m] by (simp add: slice_compare_def Let_def len(2,4))
qed

text \<open>\<open>operator==\<close> and \<open>operator<\<close> are equality and order of the contents.\<close>

lemma slice_eq_iff:
  "slice_ok a \<Longrightarrow> slice_ok b \<Longrightarrow> slice_eq m a b \<longleftrightarrow> slice_bytes m a = slice_bytes m b"
  by (auto simp: slice_eq_def slice_compare_eq memcmp_0_iff)

lemma slice_less_iff:
  "slice_ok a \<Longrightarrow> slice_ok b \<Longrightarrow>
    slice_less m a b \<longleftrightarrow> Bytes (slice_bytes m a) < Bytes (slice_bytes m b)"
  by (auto simp: slice_less_def slice_compare_eq memcmp_less_iff less_bytes_def bytes_key_def)

lemma hash_loop_bytes:
  "hash_loop m a (a + n) r = foldl (\<lambda>r c. (r XOR of_nat (of_char c)) * fnv_prime) r (map m [a..<a + n])"
proof (induction n arbitrary: a r)
  case 0
  then show ?case by (subst hash_loop.simps) simp
next
  case (Suc n)
  have "[a..<a + Suc n] = a # [Suc a..<Suc a + n]" by (simp add: upt_conv_Cons del: upt_Suc)
  then show ?case using Suc [of "Suc a"] by (subst hash_loop.simps) (simp del: upt_Suc)
qed

lemma slice_hash_bytes:
  "slice_ok s \<Longrightarrow> slice_hash m s =
    Inr (foldl (\<lambda>r c. (r XOR of_nat (of_char c)) * fnv_prime) fnv_seed (slice_bytes m s))"
  using hash_loop_bytes [of m _ "nat (sl_len s)" fnv_seed]
  by (auto simp: slice_hash_def slice_bytes_def slice_ok_def nat_add_distrib split: option.splits)

subsection \<open>Properties\<close>

text \<open>On slices the code can build, \<open>operator<\<close> is a strict total order up to
  \<open>operator==\<close>: exactly one of \<open>a < b\<close>, \<open>a == b\<close>, \<open>b < a\<close> holds, both relations are
  transitive, a shorter slice comes first, and slices that compare equal have the same bytes and
  the same hash.\<close>

theorem slice_strict_order:
  assumes "slice_ok a" "slice_ok b" "slice_ok c"
  shows "(slice_less m a b \<longrightarrow> \<not> slice_eq m a b \<and> \<not> slice_less m b a) \<and>
    (slice_less m a b \<or> slice_eq m a b \<or> slice_less m b a) \<and>
    (slice_less m a b \<and> slice_less m b c \<longrightarrow> slice_less m a c) \<and>
    (sl_len a < sl_len b \<longrightarrow> slice_less m a b) \<and>
    (slice_eq m a b \<longrightarrow> slice_bytes m a = slice_bytes m b \<and> slice_hash m a = slice_hash m b \<and> \<not> slice_neq m a b)"
proof -
  have "sl_len a < sl_len b \<longrightarrow> slice_less m a b"
    using slice_ok_length(1) [OF assms(1), of m] slice_ok_length(1) [OF assms(2), of m]
    by (auto simp: slice_less_def slice_compare_eq [OF assms(1,2)])
  moreover have "\<not> slice_neq m a b" if "slice_eq m a b" using that by (simp add: slice_eq_def slice_neq_def)
  ultimately show ?thesis
    using assms by (auto simp: slice_eq_iff slice_less_iff slice_hash_bytes)
qed

theorem slice_strict_order_witness:
  "slice_less (\<lambda>_. CHR ''x'') (slice_make (Some 8) 2) (slice_make (Some 4) 3) \<and>
   \<not> slice_less (\<lambda>_. CHR ''x'') (slice_make (Some 4) 3) (slice_make (Some 8) 2)"
  using slice_strict_order [of "slice_make (Some 8) 2" "slice_make (Some 4) 3" slice_default "\<lambda>_. CHR ''x''"]
  by (simp add: slice_ok_def slice_make_def slice_default_def)

end
