(* ===== verification/Lpmtree.thy ===== *)
theory Lpmtree
  imports Slice
begin

text \<open>
  The longest-prefix-match tree of \<^verbatim>\<open>src/src/lpmtree.hpp\<close>: nodes with a vector of 256 children,
  one per byte, and a list of the distinct values that were inserted. A \<open>shared_ptr\<close> is an
  option, with \<open>None\<close> for the null pointer; two pointers are equal when they are the same
  value of the type parameter. The abstract view of a tree is the map from inserted keys to
  values, and the contract of such a table is the locale \<open>prefix_table\<close>.
\<close>

subsection \<open>Nodes\<close>

datatype 'v node_t = Node (nd_index: char) (nd_value: "'v option") (nd_child: "'v node_t option list") (nd_num: nat)

definition node_make :: "char \<Rightarrow> nat \<Rightarrow> 'v node_t" where
  "node_make index num_of_nodes = Node index None (replicate num_of_nodes None) num_of_nodes"

definition exist :: "'v node_t option \<Rightarrow> bool" where
  "exist current \<longleftrightarrow> current \<noteq> None"

definition alloc :: "'v node_t option \<Rightarrow> char \<Rightarrow> 'v node_t" where
  "alloc current index = node_make index 256"

record 'v lpmtree =
  lpm_root :: "'v node_t"
  lpm_values :: "'v option list"

text \<open>The \<open>index\<close> of the root is never assigned; the model gives it the zero byte.\<close>

definition lpm_make :: "'v lpmtree" where
  "lpm_make = \<lparr>lpm_root = node_make (CHR 0x00) 256, lpm_values = []\<rparr>"

subsection \<open>Insertion\<close>

fun insert_node :: "'v node_t \<Rightarrow> string \<Rightarrow> 'v option \<Rightarrow> 'v node_t res" where
  "insert_node (Node x v child k) [] value = Inr (Node x value child k)"
| "insert_node (Node x v child k) (chr # cs) value = (let idx = of_char chr in
     if \<not> idx < length child then Inl Out_of_range
     else let nxt = (if \<not> exist (child ! idx) then alloc (child ! idx) chr else the (child ! idx)) in
       rbind (insert_node nxt cs value) (\<lambda>n. Inr (Node x v (child[idx := Some n]) k)))"

definition lpm_insert :: "'v lpmtree \<Rightarrow> string \<Rightarrow> 'v option \<Rightarrow> 'v lpmtree res" where
  "lpm_insert t index value = rbind (insert_node (lpm_root t) index value) (\<lambda>r.
     Inr (t\<lparr>lpm_root := r, lpm_values :=
       (if value \<notin> set (lpm_values t) then lpm_values t @ [value] else lpm_values t)\<rparr>))"

subsection \<open>Search\<close>

text \<open>The loop of \<open>search\<close>. The counter is an \<open>int\<close>, so a slice whose size does not fit one
  overflows it.\<close>

function search_loop :: "mem \<Rightarrow> slice \<Rightarrow> nat \<Rightarrow> 'v node_t \<Rightarrow> string \<Rightarrow> 'v option \<Rightarrow> string option
    \<Rightarrow> ('v option \<times> string option) res" where
  "search_loop m index i current match found prefix = (
     if i < slice_size index \<and> i < 2 ^ 31 then
       (case slice_data index of
          None \<Rightarrow> Inl Null_pointer
        | Some data \<Rightarrow>
            (let chr = m (data + i); idx = of_char chr in
             if \<not> idx < length (nd_child current) then Inl Out_of_range
             else case nd_child current ! idx of
                 None \<Rightarrow> Inr (found, prefix)
               | Some n \<Rightarrow>
                   (if nd_value n \<noteq> None
                    then search_loop m index (i + 1) n (match @ [chr]) (nd_value n)
                           (if prefix \<noteq> None then Some (match @ [chr]) else prefix)
                    else search_loop m index (i + 1) n (match @ [chr]) found prefix)))
     else if i < slice_size index then Inl Out_of_range
     else Inr (found, prefix))"
  by pat_completeness auto
termination
  by (relation "measure (\<lambda>(m, index, i, _). slice_size index - i)") auto

declare search_loop.simps [simp del]

definition lpm_search :: "mem \<Rightarrow> 'v lpmtree \<Rightarrow> slice \<Rightarrow> string option \<Rightarrow> ('v option \<times> string option) res" where
  "lpm_search m t index prefix =
     search_loop m index 0 (lpm_root t) [] None (if prefix \<noteq> None then Some [] else prefix)"

text \<open>The overload on strings: the bytes of the string lie at some address.\<close>

definition lpm_search_string :: "'v lpmtree \<Rightarrow> string \<Rightarrow> string option \<Rightarrow> ('v option \<times> string option) res" where
  "lpm_search_string t index prefix =
     lpm_search (mem_at 1 index) t (slice_make (Some 1) (int_of_size (length index))) prefix"

definition lpm_elems :: "'v lpmtree \<Rightarrow> 'v option list" where
  "lpm_elems t = lpm_values t"

subsection \<open>The unit test of the header\<close>

definition test_inserts :: "(string \<times> string) list" where
  "test_inserts = [(''0'', ''USA''), (''0086'', ''CHN''), (''008610'', ''CHN.BEIJING''),
     (''008621'', ''CHN.WUHAN''), (''0086755'', ''CHN.SHENZHEN''), (''00867551'', ''CHN.SHENZHEN.FUTIAN'')]"

fun insert_all :: "'v lpmtree \<Rightarrow> (string \<times> 'v option) list \<Rightarrow> 'v lpmtree res" where
  "insert_all t [] = Inr t"
| "insert_all t ((k, v) # kvs) = rbind (lpm_insert t k v) (\<lambda>t'. insert_all t' kvs)"

definition test_checks :: "(string \<times> string \<times> string) list" where
  "test_checks = [(''00'', ''USA'', ''0''), (''00862'', ''CHN'', ''0086''), (''008610'', ''CHN.BEIJING'', ''008610''),
     (''00867552'', ''CHN.SHENZHEN'', ''0086755''), (''0086755123456'', ''CHN.SHENZHEN.FUTIAN'', ''00867551'')]"

definition prefix_tree_test :: "bool res" where
  "prefix_tree_test = rbind (insert_all lpm_make (map (\<lambda>(k, v). (k, Some v)) test_inserts)) (\<lambda>tree.
     Inr (list_all (\<lambda>(q, v, p). lpm_search_string tree q (Some []) = Inr (Some v, Some p)) test_checks))"

subsection \<open>Specification\<close>

text \<open>A table maps keys to values; inserting the null pointer removes the key.\<close>

type_synonym 'v table = "string \<Rightarrow> 'v option"

primrec best_match :: "'v table \<Rightarrow> string \<Rightarrow> nat \<Rightarrow> 'v option \<times> string" where
  "best_match f s 0 = (None, [])"
| "best_match f s (Suc n) = (if f (take (Suc n) s) \<noteq> None then (f (take (Suc n) s), take (Suc n) s)
     else best_match f s n)"

definition table_search :: "'v table \<Rightarrow> string \<Rightarrow> 'v option \<times> string" where
  "table_search f s = best_match f s (length s)"

definition table_of :: "(string \<times> 'v option) list \<Rightarrow> 'v table" where
  "table_of kvs = foldl (\<lambda>f (k, v). f(k := v)) (\<lambda>_. None) kvs"

text \<open>The longest non-empty key that is a prefix of the argument.\<close>

definition longest_match :: "'v table \<Rightarrow> string \<Rightarrow> 'v \<Rightarrow> string \<Rightarrow> bool" where
  "longest_match f s v p \<longleftrightarrow> f p = Some v \<and> p \<noteq> [] \<and> take (length p) s = p \<and>
     list_all (\<lambda>n. f (take n s) = None) [Suc (length p)..<Suc (length s)]"

lemma best_match_cong:
  "(\<And>k. 0 < k \<Longrightarrow> k \<le> n \<Longrightarrow> f (take k s) = g (take k s)) \<Longrightarrow> best_match f s n = best_match g s n"
  by (induction n) auto

lemma best_match_found:
  "best_match f s n = (Some v, p) \<Longrightarrow> n \<le> length s \<Longrightarrow>
    f p = Some v \<and> p \<noteq> [] \<and> take (length p) s = p \<and> length p \<le> n \<and> (\<forall>k. length p < k \<and> k \<le> n \<longrightarrow> f (take k s) = None)"
proof (induction n)
  case (Suc n)
  then show ?case by (cases "f (take (Suc n) s)") (auto simp: min_absorb2 le_Suc_eq)
qed simp

lemma best_match_none:
  "fst (best_match f s n) = None \<longleftrightarrow> (\<forall>k. 0 < k \<and> k \<le> n \<longrightarrow> f (take k s) = None)"
  by (induction n) (auto simp: le_Suc_eq)

lemma best_match_empty: "best_match f s n = (None, p) \<Longrightarrow> p = []"
  by (induction n) (auto split: if_splits)

lemma table_search_longest: "table_search f s = (Some v, p) \<Longrightarrow> longest_match f s v p"
  using best_match_found [of f s "length s" v p]
  by (auto simp: table_search_def longest_match_def list_all_iff less_Suc_eq_le simp del: upt_Suc)

locale prefix_table =
  fixes make :: 't
    and insert :: "'t \<Rightarrow> string \<Rightarrow> 'v option \<Rightarrow> 't res"
    and search :: "'t \<Rightarrow> string \<Rightarrow> string option \<Rightarrow> ('v option \<times> string option) res"
    and table :: "'t \<Rightarrow> 'v table"
    and inv :: "'t \<Rightarrow> bool"
  assumes inv_make: "inv make"
    and table_make: "table make = (\<lambda>_. None)"
    and insert_ok: "inv t \<Longrightarrow> \<exists>t'. insert t k v = Inr t' \<and> inv t' \<and> table t' = (table t)(k := v)"
    and search_table: "inv t \<Longrightarrow> length s < 2 ^ 31 \<Longrightarrow> search t s prefix =
      Inr (case table_search (table t) s of (v, p) \<Rightarrow> (v, map_option (\<lambda>_. p) prefix))"
begin

lemma search_other:
  assumes "inv t" "insert t k v = Inr t'" "take (length k) s \<noteq> k \<or> k = []" "length s < 2 ^ 31"
  shows "search t' s prefix = search t s prefix"
proof -
  have t': "inv t'" "table t' = (table t)(k := v)" using insert_ok [OF assms(1), of k v] assms(2) by auto
  have "best_match (table t') s (length s) = best_match (table t) s (length s)"
    by (rule best_match_cong) (use assms(3) in \<open>auto simp: t'(2)\<close>)
  then show ?thesis using assms(4)
    by (simp add: search_table [OF assms(1)] search_table [OF t'(1)] table_search_def)
qed

lemma search_exact:
  assumes "inv t" "k \<noteq> []" "insert t k (Some v) = Inr t'" "length k < 2 ^ 31"
  shows "search t' k (Some q) = Inr (Some v, Some k)"
proof -
  have t': "inv t'" "table t' = (table t)(k := Some v)"
    using insert_ok [OF assms(1), of k "Some v"] assms(3) by auto
  obtain n where "length k = Suc n" using assms(2) by (cases k) auto
  then show ?thesis using assms(4) by (simp add: search_table [OF t'(1)] table_search_def t'(2))
qed

end

subsection \<open>The tree refines the table\<close>

fun node_at :: "'v node_t \<Rightarrow> string \<Rightarrow> 'v node_t option" where
  "node_at n [] = Some n"
| "node_at n (c # cs) = (case nd_child n ! of_char c of None \<Rightarrow> None | Some k \<Rightarrow> node_at k cs)"

definition node_table :: "'v node_t \<Rightarrow> 'v table" where
  "node_table n k = Option.bind (node_at n k) nd_value"

inductive node_wf :: "'v node_t \<Rightarrow> bool" where
  node_wf: "length child = 256 \<Longrightarrow> (\<And>k. Some k \<in> set child \<Longrightarrow> node_wf k) \<Longrightarrow> node_wf (Node x v child num)"

inductive_cases node_wfE: "node_wf (Node x v child num)"

lemma node_wf_make: "node_wf (node_make c 256)"
  unfolding node_make_def by (rule node_wf) auto

lemma node_wf_child: "node_wf n \<Longrightarrow> length (nd_child n) = 256"
  "node_wf n \<Longrightarrow> nd_child n ! i = Some k \<Longrightarrow> i < 256 \<Longrightarrow> node_wf k"
  by (auto elim!: node_wf.cases) (metis nth_mem)

lemma of_char_less [simp]: "(of_char c :: nat) < 256"
  using nat_of_char_less_256 [of c] by simp

lemma node_at_make: "node_at (node_make c 256) k = (if k = [] then Some (node_make c 256) else None)"
  by (cases k) (simp_all add: node_make_def)

lemma node_table_make: "node_table (node_make c 256) = (\<lambda>_. None)"
  by (auto simp: node_table_def node_at_make fun_eq_iff) (simp add: node_make_def)

lemma node_table_cons:
  "node_table n (c # cs) = (case nd_child n ! of_char c of None \<Rightarrow> None | Some k \<Rightarrow> node_table k cs)"
  by (simp add: node_table_def split: option.splits)

lemma insert_node_ok:
  "node_wf n \<Longrightarrow> \<exists>n'. insert_node n k v = Inr n' \<and> node_wf n' \<and> node_table n' = (node_table n)(k := v)"
proof (induction n k v rule: insert_node.induct)
  case (1 x v child k val)
  have "node_table (Node x val child k) s = ((node_table (Node x v child k))([] := val)) s" for s
    by (cases s) (simp_all add: node_table_def)
  then show ?case using 1 by (auto elim!: node_wfE intro: node_wf)
next
  case (2 x v child k chr cs val)
  let ?idx = "of_char chr :: nat"
  let ?nx = "if \<not> exist (child ! ?idx) then alloc (child ! ?idx) chr else the (child ! ?idx)"
  have len: "length child = 256" and sub: "\<And>n. Some n \<in> set child \<Longrightarrow> node_wf n"
    using 2(2) by (auto elim: node_wfE)
  have "node_wf ?nx"
    using node_wf_child(2) [OF 2(2), of ?idx] by (auto simp: exist_def alloc_def node_wf_make)
  then have "\<exists>n'. insert_node ?nx cs val = Inr n' \<and> node_wf n' \<and> node_table n' = (node_table ?nx)(cs := val)"
    by (intro 2(1) [OF refl _ refl]) (simp_all add: len)
  then obtain n' where n': "insert_node ?nx cs val = Inr n'" "node_wf n'"
      "node_table n' = (node_table ?nx)(cs := val)" by blast
  have nx: "node_table ?nx s = (case child ! ?idx of None \<Rightarrow> None | Some n \<Rightarrow> node_table n s)" for s
    by (auto simp: exist_def alloc_def node_table_make split: option.splits)
  have "node_wf (Node x v (child[?idx := Some n']) k)"
    by (rule node_wf) (use len sub n'(2) in \<open>auto dest!: set_update_subset_insert [THEN subsetD]\<close>)
  moreover have "node_table (Node x v (child[?idx := Some n']) k) s = ((node_table (Node x v child k))(chr # cs := val)) s" for s
    using len n'(3) nx by (cases s) (auto simp: node_table_cons nth_list_update, simp_all add: node_table_def)
  ultimately show ?case using n'(1) len by (auto simp: Let_def)
qed

lemma best_match_no_child:
  "nd_child n ! of_char c = None \<Longrightarrow> best_match (node_table n) (c # cs) j = (None, [])"
  by (induction j) (auto simp: node_table_cons)

lemma best_match_child:
  "nd_child n ! of_char c = Some k \<Longrightarrow> best_match (node_table n) (c # cs) (Suc j) =
    (case best_match (node_table k) cs j of (Some v, p) \<Rightarrow> (Some v, c # p)
     | (None, _) \<Rightarrow> if nd_value k \<noteq> None then (nd_value k, [c]) else (None, []))"
proof (induction j)
  case 0
  then show ?case by (simp add: node_table_cons node_table_def)
next
  case (Suc j)
  then show ?case
    by (cases "node_table k (take (Suc j) cs)") (simp_all add: node_table_cons)
qed

lemma search_loop_ok:
  assumes "node_wf n" "slice_ok sl" "slice_data sl = Some a" "nat (sl_len sl) = i + j"
  shows "search_loop m sl i n match found prefix =
    Inr (case best_match (node_table n) (map m [a + i..<a + i + j]) j of
     (None, _) \<Rightarrow> (found, prefix) | (Some v, p) \<Rightarrow> (Some v, map_option (\<lambda>_. match @ p) prefix))"
  using assms
proof (induction j arbitrary: i n match found prefix)
  case 0
  then have "slice_size sl = i" by (simp add: slice_size_def slice_ok_def size_of_int_nonneg)
  then show ?case by (simp add: search_loop.simps)
next
  case (Suc j)
  have "slice_size sl = Suc (i + j)" "Suc (i + j) < 2 ^ 31"
    using Suc.prems(2,4) by (auto simp: slice_size_def slice_ok_def size_of_int_nonneg nat_less_iff)
  then have i: "i < slice_size sl" "i < 2147483648" by simp_all
  have bytes: "map m [a + i..<a + i + Suc j] = m (a + i) # map m [a + Suc i..<a + Suc i + j]"
    by (simp add: upt_conv_Cons del: upt_Suc)
  note wf = node_wf_child [OF Suc.prems(1)]
  show ?case
  proof (cases "nd_child n ! of_char (m (a + i))")
    case None
    then show ?thesis using i Suc.prems(3) wf(1) unfolding bytes best_match_no_child [OF None]
      by (simp add: search_loop.simps Let_def)
  next
    case (Some k)
    have k: "node_wf k" using wf(2) [OF Some] by simp
    have j: "nat (sl_len sl) = Suc i + j" using Suc.prems(4) by simp
    show ?thesis using i Suc.prems(3) wf(1) Some unfolding bytes best_match_child [OF Some]
      by (cases prefix) (simp_all add: search_loop.simps [of m sl i n] Let_def Suc.IH [OF k Suc.prems(2,3) j] del: upt_Suc
          split: option.splits prod.splits)
  qed
qed

subsection \<open>The contract\<close>

definition lpm_inv :: "'v lpmtree \<Rightarrow> bool" where
  "lpm_inv t \<longleftrightarrow> node_wf (lpm_root t) \<and> distinct (lpm_values t)"

definition lpm_table :: "'v lpmtree \<Rightarrow> 'v table" where
  "lpm_table t = node_table (lpm_root t)"

lemma lpm_insert_ok:
  assumes "lpm_inv t"
  obtains t' where "lpm_insert t k v = Inr t'" "lpm_inv t'" "lpm_table t' = (lpm_table t)(k := v)"
    "lpm_values t' = (if v \<in> set (lpm_values t) then lpm_values t else lpm_values t @ [v])"
proof -
  obtain r where "insert_node (lpm_root t) k v = Inr r" "node_wf r" "node_table r = (node_table (lpm_root t))(k := v)"
    using insert_node_ok [of "lpm_root t" k v] assms by (auto simp: lpm_inv_def)
  then show thesis using assms that by (simp add: lpm_insert_def lpm_inv_def lpm_table_def)
qed

lemma lpm_search_ok:
  assumes "lpm_inv t" "slice_ok sl" "slice_data sl = Some a"
  shows "lpm_search m t sl prefix = Inr (case table_search (lpm_table t) (slice_bytes m sl) of (v, p) \<Rightarrow>
    (v, map_option (\<lambda>_. p) prefix))"
proof -
  have b: "slice_bytes m sl = map m [a + 0..<a + 0 + nat (sl_len sl)]"
    using assms(3) by (auto simp: slice_bytes_def slice_data_def split: option.splits)
  have "lpm_search m t sl prefix = Inr (case best_match (lpm_table t) (slice_bytes m sl) (nat (sl_len sl)) of
     (None, _) \<Rightarrow> (None, map_option (\<lambda>_. []) prefix) | (Some v, p) \<Rightarrow> (Some v, map_option (\<lambda>_. p) prefix))"
    unfolding lpm_search_def b lpm_table_def
    using assms by (subst search_loop_ok [where j = "nat (sl_len sl)" and a = a])
      (auto simp: lpm_inv_def option.map_comp o_def split: option.splits prod.splits)
  moreover have "nat (sl_len sl) = length (slice_bytes m sl)" by (simp add: b)
  ultimately show ?thesis
    using best_match_empty [of "lpm_table t" "slice_bytes m sl" "length (slice_bytes m sl)"]
    by (auto simp: table_search_def split: option.splits prod.splits)
qed

lemma mem_at_bytes:
  assumes "length s < 2 ^ 31"
  shows "slice_ok (slice_make (Some a) (int_of_size (length s)))"
    "slice_bytes (mem_at a s) (slice_make (Some a) (int_of_size (length s))) = s"
  using assms by (auto simp: slice_ok_def slice_make_def slice_bytes_def mem_at_def intro: nth_equalityI)

lemma lpm_search_string_ok:
  assumes "lpm_inv t" "length s < 2 ^ 31"
  shows "lpm_search_string t s prefix = Inr (case table_search (lpm_table t) s of (v, p) \<Rightarrow>
    (v, map_option (\<lambda>_. p) prefix))"
  unfolding lpm_search_string_def
  by (subst lpm_search_ok [OF assms(1) mem_at_bytes(1) [OF assms(2)], where a = 1])
    (simp_all add: mem_at_bytes(2) [OF assms(2)], simp add: slice_data_def slice_make_def)

lemma insert_all_ok:
  assumes "lpm_inv t"
  shows "\<exists>t'. insert_all t kvs = Inr t' \<and> lpm_inv t' \<and>
    lpm_table t' = foldl (\<lambda>f (k, v). f(k := v)) (lpm_table t) kvs \<and>
    set (lpm_values t') = set (lpm_values t) \<union> snd ` set kvs"
  using assms
proof (induction kvs arbitrary: t)
  case (Cons kv kvs)
  obtain k v where kv: "kv = (k, v)" by (cases kv)
  obtain t1 where t1: "lpm_insert t k v = Inr t1" "lpm_inv t1" "lpm_table t1 = (lpm_table t)(k := v)"
      "lpm_values t1 = (if v \<in> set (lpm_values t) then lpm_values t else lpm_values t @ [v])"
    by (rule lpm_insert_ok [OF Cons.prems])
  show ?case using Cons.IH [OF t1(2)] t1 by (auto simp: kv)
qed simp

lemma lpm_make_ok: "lpm_inv lpm_make" "lpm_table lpm_make = (\<lambda>_. None)" "lpm_values lpm_make = []"
  by (simp_all add: lpm_make_def lpm_inv_def lpm_table_def node_wf_make node_table_make)

interpretation lpm: prefix_table lpm_make lpm_insert lpm_search_string lpm_table lpm_inv
proof unfold_locales
  show "\<exists>t'. lpm_insert t k v = Inr t' \<and> lpm_inv t' \<and> lpm_table t' = (lpm_table t)(k := v)"
    if "lpm_inv t" for t :: "'v lpmtree" and k v
    by (rule lpm_insert_ok [OF that, of k v]) blast
qed (use lpm_make_ok lpm_search_string_ok in auto)

subsection \<open>Properties\<close>

text \<open>C16: after any sequence of insertions, a search on a slice finds a value exactly if some
  non-empty prefix of the slice is a key with a value, and then it returns the value and the text
  of the longest such prefix.\<close>

theorem lpm_longest_prefix:
  assumes "insert_all lpm_make kvs = Inr t" "slice_ok sl" "sl_buf sl \<noteq> None"
  shows "\<exists>v p. lpm_search m t sl (Some q) = Inr (v, Some p) \<and>
    (case v of
       None \<Rightarrow> p = [] \<and> (\<forall>k. 0 < k \<and> k \<le> length (slice_bytes m sl) \<longrightarrow>
                 table_of kvs (take k (slice_bytes m sl)) = None)
     | Some w \<Rightarrow> longest_match (table_of kvs) (slice_bytes m sl) w p)"
proof -
  have t: "lpm_inv t" "lpm_table t = table_of kvs"
    using insert_all_ok [OF lpm_make_ok(1), of kvs] assms(1) by (simp_all add: lpm_make_ok table_of_def)
  obtain a where "slice_data sl = Some a" using assms(3) by (auto simp: slice_data_def)
  note search = lpm_search_ok [OF t(1) assms(2) this, of m "Some q"]
  obtain v p where vp: "table_search (table_of kvs) (slice_bytes m sl) = (v, p)" by fastforce
  show ?thesis
  proof (cases v)
    case None
    then show ?thesis
      using search vp best_match_none [of "table_of kvs" "slice_bytes m sl" "length (slice_bytes m sl)"]
        best_match_empty [of "table_of kvs" "slice_bytes m sl" "length (slice_bytes m sl)" p]
      by (auto simp: t(2) table_search_def)
  next
    case (Some w)
    then show ?thesis using search vp table_search_longest by (auto simp: t(2))
  qed
qed

theorem lpm_longest_prefix_witness:
  "\<exists>t v p. insert_all lpm_make [(''a'', Some 1), (''abc'', Some (2::nat))] = Inr t \<and>
     lpm_search (mem_at 1 ''abd'') t (slice_make (Some 1) 3) (Some []) = Inr (v, Some p) \<and>
     (v = None \<or> (\<exists>w. v = Some w \<and> longest_match (table_of [(''a'', Some 1), (''abc'', Some 2)]) ''abd'' w p))"
proof -
  let ?kvs = "[(''a'', Some 1), (''abc'', Some (2::nat))]" and ?sl = "slice_make (Some 1) 3"
  obtain t where t: "insert_all lpm_make ?kvs = Inr t" using insert_all_ok [OF lpm_make_ok(1), of ?kvs] by blast
  have sl: "slice_ok ?sl" "sl_buf ?sl \<noteq> None" "slice_bytes (mem_at 1 ''abd'') ?sl = ''abd''"
    using mem_at_bytes [of "''abd''" 1] by (simp_all add: slice_make_def)
  then show ?thesis
    using lpm_longest_prefix [OF t sl(1,2), of "mem_at 1 ''abd''" "[]"] t by (fastforce split: option.splits)
qed

text \<open>Insertion never fails; the values of the tree are the inserted values, each once.\<close>

theorem lpm_values_distinct:
  "\<exists>t. insert_all lpm_make kvs = Inr t \<and> distinct (lpm_elems t) \<and> set (lpm_elems t) = snd ` set kvs"
  using insert_all_ok [OF lpm_make_ok(1), of kvs] by (auto simp: lpm_inv_def lpm_elems_def lpm_make_ok)

text \<open>A search for a key that was just inserted returns its value and the whole key; a search
  for a string that does not start with the new key returns what it returned before; the empty key
  is never found.\<close>

theorem lpm_insert_search:
  assumes "lpm_inv t" "lpm_insert t k (Some v) = Inr t'" "length k < 2 ^ 31" "length s < 2 ^ 31"
  shows "(if k \<noteq> [] then lpm_search_string t' k (Some q) = Inr (Some v, Some k)
      else lpm_search_string t' s (Some q) = lpm_search_string t s (Some q)) \<and>
    (take (length k) s = k \<or> lpm_search_string t' s (Some q) = lpm_search_string t s (Some q))"
  using lpm.search_exact [OF assms(1) _ assms(2,3)] lpm.search_other [OF assms(1,2) _ assms(4)] by auto

theorem lpm_insert_search_witness:
  "\<exists>t. lpm_insert lpm_make ''ab'' (Some (7::nat)) = Inr t \<and>
     lpm_search_string t ''ab'' (Some []) = Inr (Some 7, Some ''ab'')"
proof -
  obtain t where "lpm_insert lpm_make ''ab'' (Some (7::nat)) = Inr t"
    by (rule lpm_insert_ok [OF lpm_make_ok(1)])
  then show ?thesis using lpm_insert_search [OF lpm_make_ok(1), of "''ab''" 7 t "[]" "[]"] by simp
qed

text \<open>Every check of the unit test in the header holds.\<close>

theorem prefix_tree_test_passes: "prefix_tree_test = Inr True"
proof -
  let ?kvs = "map (\<lambda>(k, v). (k, Some v)) test_inserts"
  obtain t where t: "insert_all lpm_make ?kvs = Inr t" "lpm_inv t" "lpm_table t = table_of ?kvs"
    using insert_all_ok [OF lpm_make_ok(1), of ?kvs] by (auto simp: lpm_make_ok table_of_def)
  have "lpm_search_string t q (Some []) = Inr (Some v, Some p)"
    if "table_search (table_of ?kvs) q = (Some v, p)" "length q < 2 ^ 31" for q v p
    using that by (simp add: lpm_search_string_ok [OF t(2)] t(3))
  moreover have "list_all (\<lambda>(q, v, p). table_search (table_of ?kvs) q = (Some v, p) \<and> length q < 2 ^ 31) test_checks"
    by (simp add: test_checks_def table_search_def table_of_def test_inserts_def)
  ultimately show ?thesis by (auto simp: prefix_tree_test_def t(1) list_all_iff)
qed

end
