(* ===== verification/Errors.thy ===== *)
theory Errors
  imports Libc
begin

text \<open>
  The error messages of \<^verbatim>\<open>src/src/errors.cpp\<close>: a prefix with the position in the source, the
  formatted text, which is printed into a buffer that grows until it fits, and a suffix with the
  error code. \<open>strerror\<close> is an argument; the formatted text stands for the format and its
  arguments. The model keeps track of the buffer of the loop, which is deleted only on success.
\<close>

subsection \<open>Definitions\<close>

text \<open>A pointer into a C string is the rest of the string.\<close>

fun strrchr :: "string \<Rightarrow> char \<Rightarrow> string option" where
  "strrchr [] c = None"
| "strrchr (x # xs) c = (case strrchr xs c of Some s \<Rightarrow> Some s | None \<Rightarrow> if x = c then Some (x # xs) else None)"

definition get_basename :: "string \<Rightarrow> string" where
  "get_basename file = (case strrchr file (CHR ''/'') of Some basefile \<Rightarrow> drop 1 basefile | None \<Rightarrow> file)"

text \<open>The C string left in a new array of \<open>n\<close> bytes by \<open>snprintf\<close>.\<close>

definition printed :: "nat \<Rightarrow> string \<Rightarrow> string" where
  "printed n s = c_str (snprintf_text n s)"

definition rhandle_error :: "(int \<Rightarrow> string) \<Rightarrow> nat \<Rightarrow> int \<Rightarrow> string" where
  "rhandle_error strerror n code = printed n ('' ['' @ fmt_d code @ '']:'' @ strerror code)"

definition report_prefix :: "string \<Rightarrow> int \<Rightarrow> string \<Rightarrow> string" where
  "report_prefix file line func = printed 2048 (''['' @ get_basename file @ '':'' @ fmt_d line @ '':'' @ func @ ''] '')"

text \<open>The loop: \<open>len\<close> is the size of the current buffer. The result is the text appended to the
  message, if any, and the number of buffers that are never deleted.\<close>

fun format_loop :: "nat \<Rightarrow> nat \<Rightarrow> string \<Rightarrow> string option \<times> nat" where
  "format_loop 0 len s = (None, 1)"
| "format_loop (Suc tries) len s = (let ncopy = (if int (length s) > int_max then - 1 else int (length s)) in
     if ncopy > - 1 \<and> size_of_int ncopy < len then (Some (printed len s), 0)
     else if ncopy > 0 then format_loop tries (size_of_int (cint (ncopy + 1))) s
     else format_loop tries (sz (len * 2)) s)"

definition vreport_stack :: "(int \<Rightarrow> string) \<Rightarrow> string \<Rightarrow> int \<Rightarrow> string \<Rightarrow> int \<Rightarrow> string \<Rightarrow> string \<times> nat" where
  "vreport_stack strerror file line func code s = (let (t, leaked) = format_loop 10 2048 s in
     (report_prefix file line func @ (case t of Some x \<Rightarrow> x | None \<Rightarrow> []) @ rhandle_error strerror 2048 code, leaked))"

definition report_stack :: "(int \<Rightarrow> string) \<Rightarrow> string \<Rightarrow> int \<Rightarrow> string \<Rightarrow> int \<Rightarrow> string \<Rightarrow> string \<times> nat" where
  "report_stack strerror file line func code s = vreport_stack strerror file line func code s"

subsection \<open>Lemmas\<close>

lemma strrchr_split: "CHR ''/'' \<notin> set b \<Longrightarrow> strrchr (d @ CHR ''/'' # b) (CHR ''/'') = Some (CHR ''/'' # b)"
  and strrchr_none: "CHR ''/'' \<notin> set b \<Longrightarrow> strrchr b (CHR ''/'') = None"
proof -
  show none: "CHR ''/'' \<notin> set b \<Longrightarrow> strrchr b (CHR ''/'') = None" for b by (induction b) auto
  show "CHR ''/'' \<notin> set b \<Longrightarrow> strrchr (d @ CHR ''/'' # b) (CHR ''/'') = Some (CHR ''/'' # b)"
    using none by (induction d) auto
qed

lemma printed_whole:
  assumes "CHR 0x00 \<notin> set s"
  shows "printed n s = take (n - 1) s"
proof (cases "n = 0")
  case False
  have "CHR 0x00 \<notin> set (take (n - 1) s)" using assms by (meson in_set_takeD)
  then have "takeWhile (\<lambda>c. c \<noteq> CHR 0x00) (take (n - 1) s @ [CHR 0x00]) = take (n - 1) s"
    by (subst takeWhile_append2) auto
  then show ?thesis using False by (simp add: printed_def c_str_def snprintf_text_def)
qed (simp add: printed_def c_str_def snprintf_text_def)

lemma format_loop_two:
  assumes "int (length s) < int_max" "2 \<le> tries" "0 < len"
  shows "format_loop tries len s = (Some (printed (if length s < len then len else length s + 1) s), 0)"
proof -
  have small: "int (length s) < 2 ^ 31 - 1" using assms(1) by (simp add: int_max_def)
  have c: "cint (int (length s) + 1) = int (length s) + 1" using small by (intro cint_id) simp_all
  have z: "size_of_int (int (length s)) = length s" "size_of_int (int (length s) + 1) = length s + 1"
    using small by (simp_all add: size_of_int_nonneg nat_add_distrib)
  obtain n where n: "tries = Suc (Suc n)" using assms(2) by (metis add_2_eq_Suc le_Suc_ex)
  show ?thesis
  proof (cases "length s < len")
    case True
    then show ?thesis using assms(1) by (simp add: n z)
  next
    case False
    then show ?thesis using assms(1,3) by (cases "s = []") (simp_all add: n z c)
  qed
qed

subsection \<open>Properties\<close>

text \<open>C39: for every text shorter than the largest \<open>int\<close> the message is the prefix with the base name
  of the file (cut to 2047 bytes), the whole text, and the suffix (cut likewise); the loop of ten
  tries needs at most two, and its buffer is deleted.\<close>

theorem report_stack_complete:
  assumes "int (length s) < int_max" "CHR 0x00 \<notin> set (s @ dir @ base @ func @ strerror code)" "CHR ''/'' \<notin> set base"
  shows "report_stack strerror (dir @ ''/'' @ base) line func code s =
    (take 2047 (''['' @ base @ '':'' @ fmt_d line @ '':'' @ func @ ''] '') @ s @
     take 2047 ('' ['' @ fmt_d code @ '']:'' @ strerror code), 0) \<and>
    format_loop 2 2048 s = format_loop 10 2048 s"
proof -
  have d: "CHR 0x00 \<notin> set (fmt_d x)" for x using dec_no_nul by (auto simp: fmt_d_def)
  have base: "get_basename (dir @ ''/'' @ base) = base" using strrchr_split [OF assms(3)] by (simp add: get_basename_def)
  have p: "report_prefix (dir @ ''/'' @ base) line func = take 2047 (''['' @ base @ '':'' @ fmt_d line @ '':'' @ func @ ''] '')"
    unfolding report_prefix_def base using assms(2) d by (subst printed_whole) auto
  have q: "rhandle_error strerror 2048 code = take 2047 ('' ['' @ fmt_d code @ '']:'' @ strerror code)"
    unfolding rhandle_error_def using assms(2) d by (subst printed_whole) auto
  have t: "printed (if length s < 2048 then 2048 else length s + 1) s = s"
    using assms(2) by (subst printed_whole) auto
  have f: "format_loop k 2048 s = (Some s, 0)" if "2 \<le> k" for k
    using format_loop_two [OF assms(1) that, of 2048] t by simp
  have "format_loop 10 2048 s = (Some s, 0)" "format_loop 2 2048 s = (Some s, 0)" by (rule f, simp)+
  then show ?thesis unfolding report_stack_def vreport_stack_def p q by (simp only: prod.case option.case Let_def)
qed

theorem report_stack_complete_witness:
  "fst (report_stack (\<lambda>_. ''Success'') ''src/response.cpp'' 74 ''content_type'' 0 ''response should set status first'') =
   ''[response.cpp:74:content_type] response should set status first [0]:Success''"
proof -
  have "fmt_d 74 = ''74''" "fmt_d 0 = ''0''" by code_simp+
  then show ?thesis
    using report_stack_complete [of "''response should set status first''" "''src''" "''response.cpp''" "''content_type''" "\<lambda>_. ''Success''" 0 74]
    by (simp add: int_max_def)
qed

text \<open>When the formatted text does not fit an \<open>int\<close>, all ten tries fail: the message consists of
  prefix and suffix only, and the last buffer is never deleted.\<close>

theorem report_stack_leaks:
  assumes "int (length s) > int_max"
  shows "snd (report_stack strerror file line func code s) = 1 \<and>
    fst (report_stack strerror file line func code s) = report_prefix file line func @ rhandle_error strerror 2048 code"
proof -
  have "format_loop k len s = (None, 1)" for k len using assms by (induction k arbitrary: len) simp_all
  then show ?thesis by (simp add: report_stack_def vreport_stack_def)
qed

theorem report_stack_leaks_witness:
  "snd (report_stack (\<lambda>_. ''Success'') ''a.cpp'' 1 ''f'' 0 (replicate (2 ^ 31) (CHR ''x''))) = 1"
  using report_stack_leaks [of "replicate (2 ^ 31) (CHR ''x'')" "\<lambda>_. ''Success''" "''a.cpp''" 1 "''f''" 0]
  by (simp add: int_max_def)

end
