(* ===== verification/Iobufs.thy ===== *)
theory Iobufs
  imports Bitset_Spec Libc
begin

text \<open>
  The I/O buffers of \<^verbatim>\<open>src/src/iobufs.hpp\<close> and the buffer pool of \<^verbatim>\<open>src/src/iobufs.cpp\<close>.

  A buffer is a header with a size, a write and a read position, and its bytes. Buffers live
  at addresses of a heap; a pool owns one block of \<open>count\<close> chunks and a bitmap with a set bit
  for every chunk that is free. A \<open>shared_ptr<iobuf>\<close> is an address with the deleter it was
  made with: chunks of the pool go back to the bitmap, others to \<open>free\<close>.

  The pool relies on the bit vector through the contract \<open>index_allocator\<close>, which
  \<open>bitset\<close> satisfies. The steps of a pool's clients are the relation \<open>pool_step\<close>.
\<close>

subsection \<open>One buffer\<close>

record iobuf =
  io_size :: int
  io_wpos :: int
  io_rpos :: int
  io_buff :: string

definition iobuf_init :: "iobuf \<Rightarrow> int \<Rightarrow> iobuf" where
  "iobuf_init io n = io\<lparr>io_rpos := 0, io_wpos := 0, io_size := n\<rparr>"

text \<open>A pointer into the buffer is an offset from \<open>io->buff\<close>.\<close>

definition iobuf_get_w_buf :: "iobuf \<Rightarrow> int" where
  "iobuf_get_w_buf io = io_wpos io"

definition iobuf_get_w_len :: "iobuf \<Rightarrow> int" where
  "iobuf_get_w_len io = io_wpos io"

definition iobuf_get_w_available :: "iobuf \<Rightarrow> int" where
  "iobuf_get_w_available io = cint (io_size io - io_wpos io)"

definition iobuf_get_r_buf :: "iobuf \<Rightarrow> int" where
  "iobuf_get_r_buf io = io_rpos io"

definition iobuf_get_r_len :: "iobuf \<Rightarrow> int" where
  "iobuf_get_r_len io = cint (io_wpos io - io_rpos io)"

definition iobuf_set_w_len :: "iobuf \<Rightarrow> int \<Rightarrow> iobuf \<times> bool" where
  "iobuf_set_w_len io n = (if cint (io_wpos io + n) > io_size io then (io, False)
     else (io\<lparr>io_wpos := cint (io_wpos io + n)\<rparr>, True))"

definition iobuf_set_r_len :: "iobuf \<Rightarrow> int \<Rightarrow> iobuf \<times> bool" where
  "iobuf_set_r_len io n = (if cint (io_rpos io + n) > io_wpos io then (io, False)
     else (io\<lparr>io_rpos := cint (io_rpos io + n)\<rparr>, True))"

definition iobuf_ok :: "iobuf \<Rightarrow> bool" where
  "iobuf_ok io \<longleftrightarrow> 0 \<le> io_rpos io \<and> io_rpos io \<le> io_wpos io \<and> io_wpos io \<le> io_size io \<and>
     io_size io < 2 ^ 31 \<and> int (length (io_buff io)) = io_size io"

text \<open>What a buffer holds: the bytes written so far, and the part not read yet.\<close>

definition io_written :: "iobuf \<Rightarrow> string" where
  "io_written io = take (nat (io_wpos io)) (io_buff io)"

definition io_unread :: "iobuf \<Rightarrow> string" where
  "io_unread io = drop (nat (io_rpos io)) (io_written io)"

subsection \<open>Memory\<close>

definition sizeof_iobuf :: nat where
  "sizeof_iobuf = 12"

record heap =
  hp_brk :: nat
  hp_cells :: "nat \<Rightarrow> iobuf option"

datatype deleter = Pool_release | Libc_free

record iobuf_ptr =
  ptr_addr :: nat
  ptr_del :: deleter

definition malloc :: "heap \<Rightarrow> nat \<Rightarrow> nat \<times> heap" where
  "malloc h n = (hp_brk h, h\<lparr>hp_brk := hp_brk h + n + 1\<rparr>)"

text \<open>Memory that was never written: a header with no meaning and indeterminate bytes.\<close>

definition raw_iobuf :: "int \<Rightarrow> iobuf" where
  "raw_iobuf n = \<lparr>io_size = 0, io_wpos = 0, io_rpos = 0, io_buff = replicate (nat n) (CHR 0x00)\<rparr>"

subsection \<open>The pool\<close>

record iobufs =
  pl_bitmap :: bitset
  pl_size :: int
  pl_count :: int
  pl_chunk :: nat

text \<open>\<open>size_ + sizeof(iobuf)\<close>, the distance between two chunks.\<close>

definition stride :: "iobufs \<Rightarrow> nat" where
  "stride p = sz (size_of_int (pl_size p) + sizeof_iobuf)"

definition chunk_cells :: "nat \<Rightarrow> nat \<Rightarrow> nat \<Rightarrow> iobuf \<Rightarrow> (nat \<Rightarrow> iobuf option) \<Rightarrow> nat \<Rightarrow> iobuf option" where
  "chunk_cells base w n c f = (\<lambda>a. if base \<le> a \<and> a < base + w * n \<and> (a - base) mod w = 0 then Some c else f a)"

definition iobufs_make :: "heap \<Rightarrow> int \<Rightarrow> int \<Rightarrow> heap \<times> iobufs" where
  "iobufs_make h chunk_size chunk_count = (let
       bm = bs_make (size_of_int chunk_count) True;
       w = sz (size_of_int chunk_size + sizeof_iobuf);
       (a, h') = malloc h (sz (w * size_of_int chunk_count))
     in (h'\<lparr>hp_cells := chunk_cells a w (size_of_int chunk_count) (raw_iobuf chunk_size) (hp_cells h')\<rparr>,
         \<lparr>pl_bitmap = bm, pl_size = chunk_size, pl_count = chunk_count, pl_chunk = a\<rparr>))"

definition iobufs_destroy :: "heap \<Rightarrow> iobufs \<Rightarrow> heap \<times> iobufs" where
  "iobufs_destroy h p = (h\<lparr>hp_cells := (\<lambda>a. if pl_chunk p \<le> a \<and>
        a < pl_chunk p + stride p * size_of_int (pl_count p) then None else hp_cells h a)\<rparr>,
     p\<lparr>pl_chunk := 0\<rparr>)"

definition inrange :: "iobufs \<Rightarrow> nat \<Rightarrow> bool" where
  "inrange p a \<longleftrightarrow> a \<ge> pl_chunk p \<and> a < pl_chunk p + sz (stride p * size_of_int (pl_count p))"

definition iobufs_acquire :: "heap \<Rightarrow> iobufs \<Rightarrow> (iobuf_ptr \<times> heap \<times> iobufs) res" where
  "iobufs_acquire h p = (let i = int_of_size (find_first (pl_bitmap p)) in
     if size_of_int i \<noteq> npos then
       rbind (bs_set_at (pl_bitmap p) (size_of_int i) False) (\<lambda>bm.
         let a = pl_chunk p + sz (size_of_int i * stride p) in
         case hp_cells h a of
           None \<Rightarrow> Inl Out_of_range
         | Some c \<Rightarrow> Inr (\<lparr>ptr_addr = a, ptr_del = Pool_release\<rparr>,
             h\<lparr>hp_cells := (hp_cells h)(a \<mapsto> iobuf_init c (pl_size p))\<rparr>, p\<lparr>pl_bitmap := bm\<rparr>))
     else
       (let (a, h') = malloc h (stride p) in
        Inr (\<lparr>ptr_addr = a, ptr_del = Libc_free\<rparr>,
          h'\<lparr>hp_cells := (hp_cells h')(a \<mapsto> iobuf_init (raw_iobuf (pl_size p)) (pl_size p))\<rparr>, p)))"

definition iobufs_release :: "iobufs \<Rightarrow> nat \<Rightarrow> iobufs res" where
  "iobufs_release p a = (if \<not> inrange p a then Inl Assert_failed
     else let i = int_of_size ((a - pl_chunk p) div stride p) in
       rbind (bs_set_at (pl_bitmap p) (size_of_int i) True) (\<lambda>bm. Inr (p\<lparr>pl_bitmap := bm\<rparr>)))"

text \<open>The last \<open>shared_ptr\<close> to a buffer is destroyed: its deleter runs.\<close>

definition iobuf_delete :: "heap \<Rightarrow> iobufs \<Rightarrow> iobuf_ptr \<Rightarrow> (heap \<times> iobufs) res" where
  "iobuf_delete h p q = (case ptr_del q of
       Pool_release \<Rightarrow> rbind (iobufs_release p (ptr_addr q)) (\<lambda>p'. Inr (h, p'))
     | Libc_free \<Rightarrow> Inr (h\<lparr>hp_cells := (hp_cells h)(ptr_addr q := None)\<rparr>, p))"

subsection \<open>The clients of a pool\<close>

record pool_state =
  ps_heap :: heap
  ps_pool :: iobufs
  ps_lent :: "iobuf_ptr list"

inductive pool_step :: "pool_state \<Rightarrow> pool_state \<Rightarrow> bool" where
  acquire: "iobufs_acquire (ps_heap s) (ps_pool s) = Inr (q, h, p) \<Longrightarrow>
     pool_step s \<lparr>ps_heap = h, ps_pool = p, ps_lent = q # ps_lent s\<rparr>"
| delete: "q \<in> set (ps_lent s) \<Longrightarrow> iobuf_delete (ps_heap s) (ps_pool s) q = Inr (h, p) \<Longrightarrow>
     pool_step s \<lparr>ps_heap = h, ps_pool = p, ps_lent = remove1 q (ps_lent s)\<rparr>"
| use: "q \<in> set (ps_lent s) \<Longrightarrow> hp_cells (ps_heap s) (ptr_addr q) = Some c \<Longrightarrow>
     length (io_buff c') = length (io_buff c) \<Longrightarrow>
     pool_step s (s\<lparr>ps_heap := (ps_heap s)\<lparr>hp_cells := (hp_cells (ps_heap s))(ptr_addr q \<mapsto> c')\<rparr>\<rparr>)"

inductive pool_reachable :: "pool_state \<Rightarrow> pool_state \<Rightarrow> bool" for s0 where
  start: "pool_reachable s0 s0"
| step: "pool_reachable s0 s \<Longrightarrow> pool_step s t \<Longrightarrow> pool_reachable s0 t"

definition pool_start :: "heap \<Rightarrow> int \<Rightarrow> int \<Rightarrow> pool_state" where
  "pool_start h n m = (let (h', p) = iobufs_make h n m in \<lparr>ps_heap = h', ps_pool = p, ps_lent = []\<rparr>)"

subsection \<open>What the pool needs of its bitmap\<close>

locale index_allocator =
  fixes find :: "'b \<Rightarrow> nat"
    and put :: "'b \<Rightarrow> nat \<Rightarrow> bool \<Rightarrow> 'b res"
    and flags :: "'b \<Rightarrow> bool list"
    and inv :: "'b \<Rightarrow> bool"
  assumes find_first: "inv b \<Longrightarrow> first_from (flags b) 0 (find b)"
    and put_in: "inv b \<Longrightarrow> i < length (flags b) \<Longrightarrow>
      \<exists>b'. put b i v = Inr b' \<and> inv b' \<and> flags b' = (flags b)[i := v]"
    and ext: "inv a \<Longrightarrow> inv b \<Longrightarrow> flags a = flags b \<Longrightarrow> a = b"
begin

lemma take_free:
  assumes "inv b" "True \<in> set (flags b)"
  shows "\<exists>b'. find b < length (flags b) \<and> flags b ! find b \<and>
    put b (find b) False = Inr b' \<and> inv b' \<and> flags b' = (flags b)[find b := False]"
proof -
  have "\<exists>k < length (flags b). flags b ! k" using assms(2) by (metis in_set_conv_nth)
  then have "find b < length (flags b)" "flags b ! find b"
    using find_first [OF assms(1)] by (auto simp: first_from_def)
  with put_in [OF assms(1) this(1), of False] show ?thesis by blast
qed

lemma none_free: "inv b \<Longrightarrow> True \<notin> set (flags b) \<Longrightarrow> find b = npos"
  using find_first [of b] by (fastforce simp: first_from_def in_set_conv_nth)

lemma give_back:
  assumes "inv b" "i < length (flags b)" "flags b ! i" "put b i False = Inr b'"
  shows "put b' i True = Inr b"
proof -
  have b': "inv b'" "flags b' = (flags b)[i := False]"
    using put_in [OF assms(1,2), of False] assms(4) by auto
  moreover obtain c where c: "put b' i True = Inr c" "inv c" "flags c = (flags b')[i := True]"
    using put_in [OF b'(1), of i True] b'(2) assms(2) by auto
  ultimately have "flags c = flags b" using assms(3) list_update_id [of "flags b" i] by simp
  then show ?thesis using c ext [OF c(2) assms(1)] by simp
qed

end

lemma bitset_ext: "bs_inv a \<Longrightarrow> bs_inv b \<Longrightarrow> bs_list a = bs_list b \<Longrightarrow> a = b"
  using bs_eq_list [of a b] by (simp add: bs_eq_def)

interpretation bm: index_allocator find_first bs_set_at bs_list bs_inv
proof unfold_locales
  show "first_from (bs_list b) 0 (Bitset.find_first b)" if "bs_inv b" for b
    using that by (rule find_first_spec)
  show "\<exists>b'. bs_set_at b i v = Inr b' \<and> bs_inv b' \<and> bs_list b' = (bs_list b)[i := v]"
    if "bs_inv b" "i < length (bs_list b)" for b i v
    using bs_set_at_spec [of b i v] that by auto
  show "a = b" if "bs_inv a" "bs_inv b" "bs_list a = bs_list b" for a b
    using that by (rule bitset_ext)
qed

subsection \<open>Buffer operations\<close>

lemma iobuf_ok_init:
  "0 \<le> n \<Longrightarrow> n < 2 ^ 31 \<Longrightarrow> int (length (io_buff c)) = n \<Longrightarrow> iobuf_ok (iobuf_init c n)"
  by (simp add: iobuf_ok_def iobuf_init_def)

lemma iobuf_available:
  "iobuf_ok io \<Longrightarrow> iobuf_get_w_available io = io_size io - io_wpos io"
  "iobuf_ok io \<Longrightarrow> iobuf_get_r_len io = io_wpos io - io_rpos io"
  by (auto simp: iobuf_ok_def iobuf_get_w_available_def iobuf_get_r_len_def intro!: cint_id)

lemma iobuf_set_w_len_eq:
  assumes "iobuf_ok io" "0 \<le> n" "io_wpos io + n < 2 ^ 31"
  shows "iobuf_set_w_len io n = (if n \<le> iobuf_get_w_available io
    then (io\<lparr>io_wpos := io_wpos io + n\<rparr>, True) else (io, False))"
proof -
  have "cint (io_wpos io + n) = io_wpos io + n"
    using assms by (intro cint_id) (auto simp: iobuf_ok_def)
  then show ?thesis using assms(1) by (auto simp: iobuf_set_w_len_def iobuf_available)
qed

lemma iobuf_set_r_len_eq:
  assumes "iobuf_ok io" "0 \<le> n" "io_rpos io + n < 2 ^ 31"
  shows "iobuf_set_r_len io n = (if n \<le> iobuf_get_r_len io
    then (io\<lparr>io_rpos := io_rpos io + n\<rparr>, True) else (io, False))"
proof -
  have "cint (io_rpos io + n) = io_rpos io + n"
    using assms by (intro cint_id) (auto simp: iobuf_ok_def)
  then show ?thesis using assms(1) by (auto simp: iobuf_set_r_len_def iobuf_available)
qed

lemma iobuf_set_w_len_ok:
  "iobuf_ok io \<Longrightarrow> 0 \<le> n \<Longrightarrow> io_wpos io + n < 2 ^ 31 \<Longrightarrow> iobuf_ok (fst (iobuf_set_w_len io n))"
  by (auto simp: iobuf_set_w_len_eq iobuf_ok_def iobuf_available)

lemma iobuf_set_r_len_ok:
  "iobuf_ok io \<Longrightarrow> 0 \<le> n \<Longrightarrow> io_rpos io + n < 2 ^ 31 \<Longrightarrow> iobuf_ok (fst (iobuf_set_r_len io n))"
  by (auto simp: iobuf_set_r_len_eq iobuf_ok_def iobuf_available)

subsection \<open>Well-formed pools\<close>

definition chunk_addr :: "iobufs \<Rightarrow> nat \<Rightarrow> nat" where
  "chunk_addr p i = pl_chunk p + i * (nat (pl_size p) + 12)"

definition has_cell :: "heap \<Rightarrow> iobufs \<Rightarrow> nat \<Rightarrow> bool" where
  "has_cell h p a \<longleftrightarrow> (case hp_cells h a of None \<Rightarrow> False | Some c \<Rightarrow> int (length (io_buff c)) = pl_size p)"

definition pool_ok :: "heap \<Rightarrow> iobufs \<Rightarrow> bool" where
  "pool_ok h p \<longleftrightarrow> 0 \<le> pl_size p \<and> pl_size p < 2 ^ 31 \<and> 0 \<le> pl_count p \<and> pl_count p < 2 ^ 31 \<and>
     bs_inv (pl_bitmap p) \<and> bs_nums (pl_bitmap p) = nat (pl_count p) \<and>
     chunk_addr p (nat (pl_count p)) \<le> hp_brk h \<and>
     list_all (\<lambda>i. has_cell h p (chunk_addr p i)) [0..<nat (pl_count p)]"

text \<open>The flags of a pool: which chunks are free.\<close>

abbreviation pl_free :: "iobufs \<Rightarrow> bool list" where
  "pl_free p \<equiv> bs_list (pl_bitmap p)"

lemma pool_okD:
  assumes "pool_ok h p"
  shows "0 \<le> pl_size p" "pl_size p < 2 ^ 31" "0 \<le> pl_count p" "pl_count p < 2 ^ 31"
    "bs_inv (pl_bitmap p)" "bs_nums (pl_bitmap p) = nat (pl_count p)" "length (pl_free p) = nat (pl_count p)"
    "chunk_addr p (nat (pl_count p)) \<le> hp_brk h"
    "i < nat (pl_count p) \<Longrightarrow> has_cell h p (chunk_addr p i)"
  using assms by (auto simp: pool_ok_def list_all_iff)

lemma pool_ok_nat: "pool_ok h p \<Longrightarrow> nat (pl_count p) < 2 ^ 31" "pool_ok h p \<Longrightarrow> nat (pl_size p) < 2 ^ 31"
  using pool_okD [of h p] by (simp_all add: nat_less_iff)

lemma stride_eq: "0 \<le> pl_size p \<Longrightarrow> pl_size p < 2 ^ 31 \<Longrightarrow> stride p = nat (pl_size p) + 12"
proof -
  assume "0 \<le> pl_size p" "pl_size p < 2 ^ 31"
  then have "size_of_int (pl_size p) = nat (pl_size p)" "nat (pl_size p) + 12 < size_max"
    by (simp_all add: size_of_int_nonneg size_max_def nat_less_iff)
  then show ?thesis by (simp add: stride_def sizeof_iobuf_def)
qed

lemma chunk_offset_small:
  assumes "pool_ok h p" "i \<le> nat (pl_count p)"
  shows "i * (nat (pl_size p) + 12) < size_max"
proof -
  have "i < 2 ^ 31" "nat (pl_size p) + 12 < 2 ^ 32" using pool_ok_nat [OF assms(1)] assms(2) by simp_all
  then have "i * (nat (pl_size p) + 12) < 2 ^ 31 * 2 ^ 32" by (intro mult_strict_mono) auto
  then show ?thesis by (simp add: size_max_def)
qed

lemma chunk_addr_less: "i < j \<Longrightarrow> chunk_addr p i + (nat (pl_size p) + 12) \<le> chunk_addr p j"
proof -
  assume "i < j"
  then have "Suc i * (nat (pl_size p) + 12) \<le> j * (nat (pl_size p) + 12)"
    by (intro mult_le_mono1) simp
  then show ?thesis by (simp add: chunk_addr_def)
qed

lemma chunk_addr_inj [simp]: "chunk_addr p i = chunk_addr p j \<longleftrightarrow> i = j"
  by (simp add: chunk_addr_def)

lemma chunk_addr_cong: "pl_size p = pl_size q \<Longrightarrow> pl_chunk p = pl_chunk q \<Longrightarrow> chunk_addr p i = chunk_addr q i"
  by (simp add: chunk_addr_def)

lemma bitmap_upd [simp]:
  "chunk_addr (p\<lparr>pl_bitmap := bm\<rparr>) i = chunk_addr p i" "has_cell h (p\<lparr>pl_bitmap := bm\<rparr>) = has_cell h p"
  by (auto simp: chunk_addr_def has_cell_def fun_eq_iff split: option.splits)

subsection \<open>Acquire and release\<close>

lemma acquire_pool:
  assumes ok: "pool_ok h p" and free: "True \<in> set (pl_free p)"
  defines "i \<equiv> find_first (pl_bitmap p)"
  obtains bm c where "i < nat (pl_count p)" "pl_free p ! i" "hp_cells h (chunk_addr p i) = Some c"
    "int (length (io_buff c)) = pl_size p"
    "bs_set_at (pl_bitmap p) i False = Inr bm" "bs_inv bm" "bs_list bm = (pl_free p)[i := False]"
    "iobufs_acquire h p = Inr (\<lparr>ptr_addr = chunk_addr p i, ptr_del = Pool_release\<rparr>,
       h\<lparr>hp_cells := (hp_cells h)(chunk_addr p i \<mapsto> iobuf_init c (pl_size p))\<rparr>, p\<lparr>pl_bitmap := bm\<rparr>)"
proof -
  note pd = pool_okD [OF ok]
  obtain bm where bm: "i < nat (pl_count p)" "pl_free p ! i" "bs_set_at (pl_bitmap p) i False = Inr bm"
      "bs_inv bm" "bs_list bm = (pl_free p)[i := False]"
    using bm.take_free [OF pd(5) free] pd(6) by (auto simp: i_def)
  have i31: "i < 2 ^ 31" using bm(1) pool_ok_nat [OF ok] by simp
  then have idx: "int_of_size i = int i" "size_of_int (int i) = i"
    by (simp_all add: size_of_int_nonneg)
  have "i \<noteq> npos" using i31 by (simp add: npos_def size_max_def)
  obtain c where c: "hp_cells h (chunk_addr p i) = Some c" "int (length (io_buff c)) = pl_size p"
    using pd(9) [OF bm(1)] by (auto simp: has_cell_def split: option.splits)
  have "pl_chunk p + sz (i * stride p) = chunk_addr p i"
    using chunk_offset_small [OF ok, of i] bm(1) pd(1,2) by (simp add: stride_eq chunk_addr_def)
  then show thesis
    using that [OF bm(1,2) c bm(3-5)] bm(3) c idx \<open>i \<noteq> npos\<close>
    by (simp add: iobufs_acquire_def Let_def i_def [symmetric])
qed

lemma acquire_malloc:
  assumes ok: "pool_ok h p" and "True \<notin> set (pl_free p)"
  shows "iobufs_acquire h p = Inr (\<lparr>ptr_addr = hp_brk h, ptr_del = Libc_free\<rparr>,
    \<lparr>hp_brk = hp_brk h + (nat (pl_size p) + 12) + 1,
     hp_cells = (hp_cells h)(hp_brk h \<mapsto> iobuf_init (raw_iobuf (pl_size p)) (pl_size p))\<rparr>, p)"
proof -
  note pd = pool_okD [OF ok]
  have "find_first (pl_bitmap p) = npos" using bm.none_free [OF pd(5)] assms(2) by simp
  then show ?thesis
    using pd(1,2)
    by (simp add: iobufs_acquire_def Let_def int_of_size_npos size_of_int_minus_one malloc_def stride_eq)
qed

lemma release_chunk:
  assumes ok: "pool_ok h p" and i: "i < nat (pl_count p)"
  obtains bm where "bs_set_at (pl_bitmap p) i True = Inr bm" "bs_inv bm"
    "bs_list bm = (pl_free p)[i := True]"
    "iobufs_release p (chunk_addr p i) = Inr (p\<lparr>pl_bitmap := bm\<rparr>)"
proof -
  note pd = pool_okD [OF ok]
  let ?w = "nat (pl_size p) + 12"
  obtain bm where bm: "bs_set_at (pl_bitmap p) i True = Inr bm" "bs_inv bm"
      "bs_list bm = (pl_free p)[i := True]"
    using bm.put_in [OF pd(5), of i True] i pd(6) by auto
  have cnt: "size_of_int (pl_count p) = nat (pl_count p)" using pd(3,4) by (simp add: size_of_int_nonneg)
  have "sz (stride p * size_of_int (pl_count p)) = nat (pl_count p) * ?w"
    using chunk_offset_small [OF ok, of "nat (pl_count p)"] pd(1,2) cnt by (simp add: stride_eq mult.commute)
  moreover have "i * ?w < nat (pl_count p) * ?w" using i by simp
  ultimately have "inrange p (chunk_addr p i)" by (simp add: inrange_def chunk_addr_def)
  moreover have "(chunk_addr p i - pl_chunk p) div stride p = i"
    using pd(1,2) by (simp add: chunk_addr_def stride_eq)
  moreover have "int_of_size i = int i" "size_of_int (int i) = i"
    using i pool_ok_nat [OF ok] by (simp_all add: size_of_int_nonneg)
  ultimately show thesis using that [OF bm] bm(1) by (simp add: iobufs_release_def)
qed

subsection \<open>The invariant of a pool and its clients\<close>

text \<open>Every lent buffer is either a chunk whose bit is clear or a block of its own behind the
  chunks; every clear bit is such a buffer; the blocks do not overlap.\<close>

definition lent_ok :: "heap \<Rightarrow> iobufs \<Rightarrow> iobuf_ptr \<Rightarrow> bool" where
  "lent_ok h p q \<longleftrightarrow> (case ptr_del q of
       Pool_release \<Rightarrow> \<exists>i < nat (pl_count p). ptr_addr q = chunk_addr p i \<and> \<not> pl_free p ! i
     | Libc_free \<Rightarrow> chunk_addr p (nat (pl_count p)) \<le> ptr_addr q \<and>
         ptr_addr q + (nat (pl_size p) + 12) \<le> hp_brk h \<and> has_cell h p (ptr_addr q))"

definition apart :: "iobufs \<Rightarrow> nat \<Rightarrow> nat \<Rightarrow> bool" where
  "apart p a b \<longleftrightarrow> a + (nat (pl_size p) + 12) \<le> b \<or> b + (nat (pl_size p) + 12) \<le> a"

definition pool_inv :: "pool_state \<Rightarrow> bool" where
  "pool_inv s \<longleftrightarrow> pool_ok (ps_heap s) (ps_pool s) \<and>
     (\<forall>q \<in> set (ps_lent s). lent_ok (ps_heap s) (ps_pool s) q) \<and>
     sorted_wrt (\<lambda>q r. apart (ps_pool s) (ptr_addr q) (ptr_addr r)) (ps_lent s) \<and>
     (\<forall>i < nat (pl_count (ps_pool s)). \<not> pl_free (ps_pool s) ! i \<longrightarrow>
        \<lparr>ptr_addr = chunk_addr (ps_pool s) i, ptr_del = Pool_release\<rparr> \<in> set (ps_lent s))"

lemma apart_sym: "apart p a b \<longleftrightarrow> apart p b a"
  by (auto simp: apart_def)

lemma apart_neq: "apart p a b \<Longrightarrow> a \<noteq> b"
  by (auto simp: apart_def)

lemma apart_chunks: "i \<noteq> j \<Longrightarrow> apart p (chunk_addr p i) (chunk_addr p j)"
  using chunk_addr_less [of i j p] chunk_addr_less [of j i p] by (auto simp: apart_def linorder_neq_iff)

lemma apart_block:
  "i < n \<Longrightarrow> chunk_addr p n \<le> a \<Longrightarrow> apart p (chunk_addr p i) a"
  using chunk_addr_less [of i n p] by (auto simp: apart_def)

lemma apart_upd [simp]: "apart (p\<lparr>pl_bitmap := bm\<rparr>) = apart p"
  by (simp add: apart_def fun_eq_iff)

lemma lent_has_cell: "pool_ok h p \<Longrightarrow> lent_ok h p q \<Longrightarrow> has_cell h p (ptr_addr q)"
  using pool_okD(9) [of h p] by (auto simp: lent_ok_def split: deleter.splits)

lemma lent_below_brk:
  assumes "pool_ok h p" "lent_ok h p q"
  shows "ptr_addr q + (nat (pl_size p) + 12) \<le> hp_brk h"
proof (cases "ptr_del q")
  case Pool_release
  then obtain i where "i < nat (pl_count p)" "ptr_addr q = chunk_addr p i"
    using assms(2) by (auto simp: lent_ok_def)
  then show ?thesis using pool_okD(8) [OF assms(1)] chunk_addr_less [of i "nat (pl_count p)" p] by simp
qed (use assms(2) in \<open>simp add: lent_ok_def\<close>)

lemma has_cell_write:
  "has_cell h p a \<Longrightarrow> int (length (io_buff c)) = pl_size p \<Longrightarrow>
    has_cell (h\<lparr>hp_cells := (hp_cells h)(b \<mapsto> c)\<rparr>) p a"
  by (auto simp: has_cell_def split: option.splits)

lemma lent_ok_write:
  "lent_ok h p q \<Longrightarrow> int (length (io_buff c)) = pl_size p \<Longrightarrow>
    lent_ok (h\<lparr>hp_cells := (hp_cells h)(b \<mapsto> c)\<rparr>) p q"
  by (auto simp: lent_ok_def has_cell_write split: deleter.splits)

lemma pool_ok_write:
  "pool_ok h p \<Longrightarrow> int (length (io_buff c)) = pl_size p \<Longrightarrow>
    pool_ok (h\<lparr>hp_cells := (hp_cells h)(b \<mapsto> c)\<rparr>) p"
  by (auto simp: pool_ok_def list_all_iff has_cell_write)

lemma pool_ok_bitmap:
  "pool_ok h p \<Longrightarrow> bs_inv bm \<Longrightarrow> bs_list bm = (pl_free p)[i := v] \<Longrightarrow> pool_ok h (p\<lparr>pl_bitmap := bm\<rparr>)"
  using length_bs_list [of bm] by (simp add: pool_ok_def)

lemma length_iobuf_init [simp]: "io_buff (iobuf_init c n) = io_buff c"
  by (simp add: iobuf_init_def)

lemma pool_inv_acquire_chunk:
  assumes inv: "pool_inv s" and free: "True \<in> set (pl_free (ps_pool s))"
    and acq: "iobufs_acquire (ps_heap s) (ps_pool s) = Inr (q, h, p)"
  shows "pool_inv \<lparr>ps_heap = h, ps_pool = p, ps_lent = q # ps_lent s\<rparr>"
proof -
  let ?p = "ps_pool s" and ?h = "ps_heap s"
  have ok: "pool_ok ?h ?p" and lent: "\<And>r. r \<in> set (ps_lent s) \<Longrightarrow> lent_ok ?h ?p r"
    using inv by (auto simp: pool_inv_def)
  define i where "i = find_first (pl_bitmap ?p)"
  obtain bm c where a: "i < nat (pl_count ?p)" "pl_free ?p ! i" "hp_cells ?h (chunk_addr ?p i) = Some c"
      "int (length (io_buff c)) = pl_size ?p" "bs_set_at (pl_bitmap ?p) i False = Inr bm"
      "bs_inv bm" "bs_list bm = (pl_free ?p)[i := False]"
      "iobufs_acquire ?h ?p = Inr (\<lparr>ptr_addr = chunk_addr ?p i, ptr_del = Pool_release\<rparr>,
         ?h\<lparr>hp_cells := (hp_cells ?h)(chunk_addr ?p i \<mapsto> iobuf_init c (pl_size ?p))\<rparr>, ?p\<lparr>pl_bitmap := bm\<rparr>)"
    by (rule acquire_pool [OF ok free, folded i_def])
  have q: "q = \<lparr>ptr_addr = chunk_addr ?p i, ptr_del = Pool_release\<rparr>"
    and h: "h = ?h\<lparr>hp_cells := (hp_cells ?h)(chunk_addr ?p i \<mapsto> iobuf_init c (pl_size ?p))\<rparr>"
    and p: "p = ?p\<lparr>pl_bitmap := bm\<rparr>"
    using acq a(8) by simp_all
  have other: "apart ?p (chunk_addr ?p i) (ptr_addr r) \<and> lent_ok h p r" if r: "r \<in> set (ps_lent s)" for r
  proof (cases "ptr_del r")
    case Pool_release
    then obtain j where j: "j < nat (pl_count ?p)" "ptr_addr r = chunk_addr ?p j" "\<not> pl_free ?p ! j"
      using lent [OF r] by (auto simp: lent_ok_def)
    then have "j \<noteq> i" using a(2) by auto
    then show ?thesis using j Pool_release a(7) by (auto simp: apart_chunks lent_ok_def p)
  next
    case Libc_free
    then show ?thesis using lent [OF r] apart_block [OF a(1)] a(4)
      by (auto simp: lent_ok_def p h has_cell_write)
  qed
  have "pool_ok h p" unfolding h p using a(4) by (intro pool_ok_write pool_ok_bitmap [OF ok a(6,7)]) simp
  moreover have "lent_ok h p q" using a(1,7) pool_okD(7) [OF ok] by (auto simp: lent_ok_def q p)
  ultimately show ?thesis
    using inv other a(1,7) pool_okD(7) [OF ok]
    by (auto simp: pool_inv_def q p nth_list_update split: if_splits)
qed

lemma pool_inv_acquire_malloc:
  assumes inv: "pool_inv s" and none: "True \<notin> set (pl_free (ps_pool s))"
    and acq: "iobufs_acquire (ps_heap s) (ps_pool s) = Inr (q, h, p)"
  shows "pool_inv \<lparr>ps_heap = h, ps_pool = p, ps_lent = q # ps_lent s\<rparr>"
proof -
  let ?p = "ps_pool s" and ?h = "ps_heap s"
  let ?c = "iobuf_init (raw_iobuf (pl_size ?p)) (pl_size ?p)"
  have ok: "pool_ok ?h ?p" and lent: "\<And>r. r \<in> set (ps_lent s) \<Longrightarrow> lent_ok ?h ?p r"
    using inv by (auto simp: pool_inv_def)
  note pd = pool_okD [OF ok]
  have q: "q = \<lparr>ptr_addr = hp_brk ?h, ptr_del = Libc_free\<rparr>" and p: "p = ?p"
    and h: "h = \<lparr>hp_brk = hp_brk ?h + (nat (pl_size ?p) + 12) + 1, hp_cells = (hp_cells ?h)(hp_brk ?h \<mapsto> ?c)\<rparr>"
    using acq acquire_malloc [OF ok none] by auto
  have c: "int (length (io_buff ?c)) = pl_size ?p" using pd(1) by (simp add: raw_iobuf_def)
  have cells: "has_cell h ?p a" if "has_cell ?h ?p a" for a
    using has_cell_write [OF that c, of "hp_brk ?h"] by (simp add: h has_cell_def)
  have new: "has_cell h ?p (hp_brk ?h)" using c by (simp add: h has_cell_def)
  have "pool_ok h ?p" using ok cells by (auto simp: pool_ok_def list_all_iff h)
  moreover have "lent_ok h ?p r" if "r \<in> set (ps_lent s)" for r
    using lent [OF that] cells by (auto simp: lent_ok_def h split: deleter.splits)
  moreover have "lent_ok h ?p q" using pd(8) new by (simp add: lent_ok_def q h)
  moreover have "apart ?p (hp_brk ?h) (ptr_addr r)" if "r \<in> set (ps_lent s)" for r
    using lent_below_brk [OF ok lent [OF that]] by (simp add: apart_def)
  ultimately show ?thesis using inv by (auto simp: pool_inv_def q p)
qed

lemma lent_apart:
  assumes "pool_inv s" "q \<in> set (ps_lent s)" "r \<in> set (ps_lent s)" "q \<noteq> r"
  shows "apart (ps_pool s) (ptr_addr q) (ptr_addr r)"
proof -
  have "sorted_wrt (\<lambda>q r. apart (ps_pool s) (ptr_addr q) (ptr_addr r)) (ps_lent s)"
    using assms(1) by (simp add: pool_inv_def)
  then show ?thesis using assms(2-4) by (rule sorted_wrt_symD) (metis apart_sym)
qed

lemma lent_distinct: "pool_inv s \<Longrightarrow> distinct (ps_lent s)"
  using apart_neq by (fastforce simp: pool_inv_def distinct_conv_nth sorted_wrt_iff_nth_less linorder_neq_iff)

lemma pool_inv_delete:
  assumes inv: "pool_inv s" and q: "q \<in> set (ps_lent s)"
    and del: "iobuf_delete (ps_heap s) (ps_pool s) q = Inr (h, p)"
  shows "pool_inv \<lparr>ps_heap = h, ps_pool = p, ps_lent = remove1 q (ps_lent s)\<rparr>"
proof -
  let ?p = "ps_pool s" and ?h = "ps_heap s"
  have ok: "pool_ok ?h ?p" and lent: "\<And>r. r \<in> set (ps_lent s) \<Longrightarrow> lent_ok ?h ?p r"
    using inv by (auto simp: pool_inv_def)
  have rest: "set (remove1 q (ps_lent s)) = set (ps_lent s) - {q}"
    using lent_distinct [OF inv] by (rule set_remove1_eq)
  have sep: "ptr_addr q \<noteq> ptr_addr r" if "r \<in> set (ps_lent s)" "r \<noteq> q" for r
    using lent_apart [OF inv q that(1)] that(2) apart_neq by blast
  have srt: "sorted_wrt (\<lambda>q r. apart ?p (ptr_addr q) (ptr_addr r)) (remove1 q (ps_lent s))"
    using inv by (simp add: pool_inv_def sorted_wrt_remove1)
  show ?thesis
  proof (cases "ptr_del q")
    case Pool_release
    then obtain i where i: "i < nat (pl_count ?p)" "ptr_addr q = chunk_addr ?p i"
      using lent [OF q] by (auto simp: lent_ok_def)
    obtain bm where bm: "bs_set_at (pl_bitmap ?p) i True = Inr bm" "bs_inv bm"
        "bs_list bm = (pl_free ?p)[i := True]" "iobufs_release ?p (chunk_addr ?p i) = Inr (?p\<lparr>pl_bitmap := bm\<rparr>)"
      by (rule release_chunk [OF ok i(1)])
    then have hp: "h = ?h" "p = ?p\<lparr>pl_bitmap := bm\<rparr>"
      using del Pool_release i(2) by (simp_all add: iobuf_delete_def)
    have qe: "q = \<lparr>ptr_addr = chunk_addr ?p i, ptr_del = Pool_release\<rparr>" using i(2) Pool_release by simp
    have "lent_ok h p r" if r: "r \<in> set (ps_lent s)" "r \<noteq> q" for r
      using lent [OF r(1)] sep [OF r] i bm(3) by (auto simp: lent_ok_def hp split: deleter.splits)
    moreover have "pool_ok h p" unfolding hp by (rule pool_ok_bitmap [OF ok bm(2,3)])
    ultimately show ?thesis
      using inv srt rest bm(3) pool_okD(7) [OF ok] i(1)
      by (auto simp: pool_inv_def hp qe nth_list_update split: if_splits)
  next
    case Libc_free
    then have hp: "h = ?h\<lparr>hp_cells := (hp_cells ?h)(ptr_addr q := None)\<rparr>" "p = ?p"
      using del by (simp_all add: iobuf_delete_def)
    have keep: "has_cell h ?p a" if "has_cell ?h ?p a" "a \<noteq> ptr_addr q" for a
      using that by (simp add: hp has_cell_def)
    have "chunk_addr ?p (nat (pl_count ?p)) \<le> ptr_addr q"
      using lent [OF q] Libc_free by (simp add: lent_ok_def)
    then have "pool_ok h ?p"
      using ok keep apart_neq [OF apart_block] by (auto simp: pool_ok_def list_all_iff hp)
    moreover have "lent_ok h ?p r" if r: "r \<in> set (ps_lent s)" "r \<noteq> q" for r
      using lent [OF r(1)] sep [OF r] keep by (auto simp: lent_ok_def hp split: deleter.splits)
    ultimately show ?thesis using inv srt rest Libc_free by (auto simp: pool_inv_def hp)
  qed
qed

lemma pool_inv_use:
  assumes inv: "pool_inv s" and q: "q \<in> set (ps_lent s)"
    and c: "hp_cells (ps_heap s) (ptr_addr q) = Some c" "length (io_buff c') = length (io_buff c)"
  shows "pool_inv (s\<lparr>ps_heap := (ps_heap s)\<lparr>hp_cells := (hp_cells (ps_heap s))(ptr_addr q \<mapsto> c')\<rparr>\<rparr>)"
proof -
  have "lent_ok (ps_heap s) (ps_pool s) q" using inv q by (auto simp: pool_inv_def)
  then have "has_cell (ps_heap s) (ps_pool s) (ptr_addr q)"
    using inv lent_has_cell by (auto simp: pool_inv_def)
  then have "int (length (io_buff c')) = pl_size (ps_pool s)" using c by (simp add: has_cell_def)
  then show ?thesis using inv by (auto simp: pool_inv_def pool_ok_write lent_ok_write)
qed

lemma pool_step_inv: "pool_step s t \<Longrightarrow> pool_inv s \<Longrightarrow> pool_inv t"
proof (induction rule: pool_step.induct)
  case (acquire s q h p)
  then show ?case using pool_inv_acquire_chunk pool_inv_acquire_malloc by (cases "True \<in> set (pl_free (ps_pool s))") auto
qed (simp_all add: pool_inv_delete pool_inv_use)

lemma pool_reachable_inv: "pool_reachable s t \<Longrightarrow> pool_inv s \<Longrightarrow> pool_inv t"
  by (induction rule: pool_reachable.induct) (auto intro: pool_step_inv)

lemma pool_start_inv:
  assumes "0 \<le> n" "n < 2 ^ 31" "0 \<le> m" "m < 2 ^ 31" "m mod 64 = 0"
  shows "pool_inv (pool_start h n m)"
proof -
  let ?w = "nat n + 12" and ?N = "nat m"
  have conv: "size_of_int m = ?N" "size_of_int n = nat n" using assms by (simp_all add: size_of_int_nonneg)
  have small: "?w < 2 ^ 32" "?N < 2 ^ 31" using assms by (simp_all add: nat_less_iff)
  then have "?w * ?N < 2 ^ 32 * 2 ^ 31" by (intro mult_strict_mono) auto
  then have szs: "sz ?w = ?w" "sz (?w * ?N) = ?w * ?N" using small by (simp_all add: size_max_def)
  define p where "p = \<lparr>pl_bitmap = bs_make ?N True, pl_size = n, pl_count = m, pl_chunk = hp_brk h\<rparr>"
  define h' where "h' = h\<lparr>hp_brk := hp_brk h + ?w * ?N + 1,
    hp_cells := chunk_cells (hp_brk h) ?w ?N (raw_iobuf n) (hp_cells h)\<rparr>"
  have start: "pool_start h n m = \<lparr>ps_heap = h', ps_pool = p, ps_lent = []\<rparr>"
    using szs conv
    by (simp add: pool_start_def iobufs_make_def malloc_def Let_def sizeof_iobuf_def p_def h'_def)
  have "?N mod 64 = 0" using assms(3,5) nat_mod_distrib [of m 64] by simp
  then have "bs_inv (bs_make ?N True)"
    using small bs_make_shape [of ?N True] by (simp add: bs_inv_def bs_make_clean_iff size_max_def)
  moreover have "has_cell h' p (chunk_addr p i)" if "i < ?N" for i
    using that assms(1) mult_strict_right_mono [of i ?N ?w]
    by (simp add: has_cell_def h'_def p_def chunk_addr_def chunk_cells_def raw_iobuf_def mult.commute)
  ultimately have "pool_ok h' p"
    using assms by (simp add: pool_ok_def p_def list_all_iff bs_make_def chunk_addr_def h'_def mult.commute)
  then show ?thesis by (simp add: start pool_inv_def p_def bs_list_make)
qed

subsection \<open>A pool whose chunk count is not a multiple of 64\<close>

text \<open>The bitmap is constructed with all blocks set, so the unused bits of its last block are
  set as well, and no operation of the pool clears them.\<close>

definition bs_dirty :: "bitset \<Rightarrow> bool" where
  "bs_dirty b \<longleftrightarrow> bs_shape b \<and> list_all (bs_bit b) [bs_nums b..<64 * length (bs_bits b)]"

lemma bs_make_dirty: "n < size_max \<Longrightarrow> bs_dirty (bs_make n True)"
  by (auto simp: bs_dirty_def bs_make_shape list_all_iff bs_bit_make)

lemma bs_set_at_dirty:
  assumes "bs_dirty b" "bs_set_at b i v = Inr b'"
  shows "bs_dirty b'" "bs_nums b' = bs_nums b"
proof -
  have sh: "bs_shape b" using assms(1) by (simp add: bs_dirty_def)
  have i: "i < bs_nums b" using assms(2) by (simp add: bs_set_at_def split: if_splits)
  have b': "b' = b\<lparr>bs_bits := (bs_bits b)[i div 64 := (if v then bs_bits b ! (i div 64) OR bit_mask i
      else bs_bits b ! (i div 64) AND NOT (bit_mask i))]\<rparr>"
    using assms(2) i by (simp add: bs_set_at_eq [OF sh])
  have "bs_bit b' k" if "bs_nums b \<le> k" "k < 64 * length (bs_bits b)" for k
    using bs_bit_one_bit [OF set_at_one_bit that(2)] assms(1) that i
    by (auto simp: b' bs_dirty_def list_all_iff)
  then show "bs_dirty b'" "bs_nums b' = bs_nums b"
    using sh by (auto simp: bs_dirty_def list_all_iff bs_shape_def b')
qed

text \<open>The search ranges over whole blocks, so it finds the first unused bit when all others are
  clear.\<close>

lemma find_first_blocks:
  assumes sh: "bs_shape b" and small: "bs_nums b + 64 < size_max"
  shows "first_from (map (bs_bit b) [0..<64 * length (bs_bits b)]) 0 (find_first b)"
proof -
  let ?b = "b\<lparr>bs_nums := 64 * length (bs_bits b)\<rparr>"
  note bounds = bs_shape_bounds [OF sh]
  have "bs_inv ?b"
    using bounds small by (auto simp: bs_inv_def bs_shape_def bits_to_block_def bits_per_block_def bs_clean_iff)
  then have "first_from (bs_list ?b) 0 (find_first ?b)" by (rule find_first_spec)
  moreover have "find_first ?b = find_first b"
    by (simp add: Bitset.find_first_def find_from_def block_def Let_def)
  moreover have "bs_list ?b = map (bs_bit b) [0..<64 * length (bs_bits b)]"
    by (simp add: bs_list_def bs_bit_def fun_eq_iff)
  ultimately show ?thesis by simp
qed

lemma find_first_dirty:
  assumes d: "bs_dirty b" and none: "True \<notin> set (bs_list b)" and n: "bs_nums b mod 64 \<noteq> 0"
    and small: "bs_nums b + 64 < size_max"
  shows "find_first b = bs_nums b"
proof -
  have sh: "bs_shape b" using d by (simp add: bs_dirty_def)
  have lt: "bs_nums b < 64 * length (bs_bits b)"
    using bs_shape_bounds(1) [OF sh] n by (metis mod_mult_self1_is_0 nat_less_le)
  moreover have "bs_bit b (bs_nums b)" using d lt by (simp add: bs_dirty_def list_all_iff)
  moreover have "\<not> bs_bit b k" if "k < bs_nums b" for k
    using none that by (metis in_set_conv_nth length_bs_list nth_bs_list)
  ultimately show ?thesis
    using find_first_blocks [OF sh small]
    by (auto simp: first_from_def split: if_splits) (metis linorder_neqE_nat order.strict_trans)+
qed

definition dirty_pool :: "int \<Rightarrow> pool_state \<Rightarrow> bool" where
  "dirty_pool m s \<longleftrightarrow> bs_dirty (pl_bitmap (ps_pool s)) \<and> bs_nums (pl_bitmap (ps_pool s)) = nat m"

lemma acquire_bitmap:
  assumes "iobufs_acquire h p = Inr (q, h', p')"
  shows "pl_bitmap p' = pl_bitmap p \<or> (\<exists>i v. bs_set_at (pl_bitmap p) i v = Inr (pl_bitmap p'))"
  using assms
  by (auto simp: iobufs_acquire_def Let_def rbind_eq_Inr split: if_splits option.splits prod.splits)

lemma delete_bitmap:
  assumes "iobuf_delete h p q = Inr (h', p')"
  shows "pl_bitmap p' = pl_bitmap p \<or> (\<exists>i v. bs_set_at (pl_bitmap p) i v = Inr (pl_bitmap p'))"
  using assms
  by (auto simp: iobuf_delete_def iobufs_release_def Let_def rbind_eq_Inr split: if_splits deleter.splits)

lemma dirty_pool_bitmap:
  assumes "dirty_pool m s" "pl_bitmap p = pl_bitmap (ps_pool s) \<or>
    (\<exists>i v. bs_set_at (pl_bitmap (ps_pool s)) i v = Inr (pl_bitmap p))"
  shows "dirty_pool m \<lparr>ps_heap = h, ps_pool = p, ps_lent = l\<rparr>"
  using assms bs_set_at_dirty by (auto simp: dirty_pool_def)

lemma dirty_pool_step: "pool_step s t \<Longrightarrow> dirty_pool m s \<Longrightarrow> dirty_pool m t"
proof (induction rule: pool_step.induct)
  case (acquire s q h p)
  then show ?case by (intro dirty_pool_bitmap acquire_bitmap)
next
  case (delete q s h p)
  then show ?case by (intro dirty_pool_bitmap delete_bitmap)
qed (simp add: dirty_pool_def)

lemma dirty_pool_reachable: "pool_reachable s t \<Longrightarrow> dirty_pool m s \<Longrightarrow> dirty_pool m t"
  by (induction rule: pool_reachable.induct) (auto intro: dirty_pool_step)

lemma dirty_pool_start: "0 \<le> m \<Longrightarrow> m < 2 ^ 31 \<Longrightarrow> dirty_pool m (pool_start h n m)"
  using bs_make_dirty [of "nat m"]
  by (simp add: dirty_pool_def pool_start_def iobufs_make_def malloc_def Let_def size_of_int_nonneg
      size_max_def nat_less_iff)

lemma dirty_acquire:
  assumes "dirty_pool m s" "0 \<le> m" "m < 2 ^ 31" "m mod 64 \<noteq> 0" "True \<notin> set (pl_free (ps_pool s))"
  shows "iobufs_acquire (ps_heap s) (ps_pool s) = Inl Assert_failed"
proof -
  let ?b = "pl_bitmap (ps_pool s)"
  have n: "bs_nums ?b = nat m" "nat m < 2 ^ 31" using assms(1-3) by (simp_all add: dirty_pool_def nat_less_iff)
  have "nat m mod 64 \<noteq> 0" using assms(2,4) nat_mod_distrib [of m 64] by simp
  then have "find_first ?b = nat m"
    using find_first_dirty [of ?b] assms(1,5) n by (simp add: dirty_pool_def size_max_def)
  moreover have "int_of_size (nat m) = m" "size_of_int m = nat m"
    using assms(2,3) n(2) by (simp_all add: size_of_int_nonneg)
  moreover have "nat m \<noteq> npos" using n(2) by (simp add: npos_def size_max_def)
  ultimately show ?thesis using n(1) by (simp add: iobufs_acquire_def bs_set_at_outside)
qed

lemma delete_total:
  assumes "pool_inv s" "q \<in> set (ps_lent s)"
  shows "\<exists>h p. iobuf_delete (ps_heap s) (ps_pool s) q = Inr (h, p)"
proof (cases "ptr_del q")
  case Pool_release
  have ok: "pool_ok (ps_heap s) (ps_pool s)" using assms(1) by (simp add: pool_inv_def)
  have "lent_ok (ps_heap s) (ps_pool s) q" using assms by (simp add: pool_inv_def)
  then obtain i where i: "i < nat (pl_count (ps_pool s))" "ptr_addr q = chunk_addr (ps_pool s) i"
    using Pool_release by (auto simp: lent_ok_def)
  show ?thesis by (rule release_chunk [OF ok i(1)]) (simp add: iobuf_delete_def Pool_release i(2))
qed (simp add: iobuf_delete_def)

lemma acquire_total:
  assumes "pool_ok h p"
  shows "\<exists>q h' p'. iobufs_acquire h p = Inr (q, h', p')"
proof (cases "True \<in> set (pl_free p)")
  case True
  show ?thesis by (rule acquire_pool [OF assms True]) blast
next
  case False
  show ?thesis using acquire_malloc [OF assms False] by blast
qed

subsection \<open>Properties\<close>

text \<open>C11: with sizes and counts that fit an \<open>int\<close> and a count that is a multiple of 64, in every
  state reached by acquiring, using and dropping buffers in any order, the buffers that are lent
  are backed by memory of the configured size and no two of them overlap.\<close>

theorem pool_buffers_disjoint:
  assumes "0 \<le> n" "n < 2 ^ 31" "0 \<le> m" "m < 2 ^ 31" "m mod 64 = 0"
    and "pool_reachable (pool_start h n m) s"
    and "q \<in> set (ps_lent s)" "r \<in> set (ps_lent s)" "q \<noteq> r"
  shows "has_cell (ps_heap s) (ps_pool s) (ptr_addr q) \<and>
    apart (ps_pool s) (ptr_addr q) (ptr_addr r) \<and> distinct (ps_lent s)"
proof -
  have inv: "pool_inv s" using pool_reachable_inv [OF assms(6) pool_start_inv [OF assms(1-5)]] .
  then have "lent_ok (ps_heap s) (ps_pool s) q" "pool_ok (ps_heap s) (ps_pool s)"
    using assms(7) by (auto simp: pool_inv_def)
  then show ?thesis using lent_apart [OF inv assms(7-9)] lent_has_cell lent_distinct [OF inv] by blast
qed

text \<open>The first two buffers a pool lends.\<close>

lemma pool_run_two:
  assumes "pool_inv s0"
  obtains s q r where "pool_reachable s0 s" "q \<in> set (ps_lent s)" "r \<in> set (ps_lent s)" "q \<noteq> r"
proof -
  obtain q h p where 1: "iobufs_acquire (ps_heap s0) (ps_pool s0) = Inr (q, h, p)"
    using acquire_total [of "ps_heap s0" "ps_pool s0"] assms by (auto simp: pool_inv_def)
  let ?s1 = "\<lparr>ps_heap = h, ps_pool = p, ps_lent = q # ps_lent s0\<rparr>"
  have s1: "pool_step s0 ?s1" by (rule pool_step.acquire [OF 1])
  then have inv1: "pool_inv ?s1" using assms by (rule pool_step_inv)
  obtain r h' p' where 2: "iobufs_acquire h p = Inr (r, h', p')"
    using acquire_total [of h p] inv1 by (auto simp: pool_inv_def)
  let ?s2 = "\<lparr>ps_heap = h', ps_pool = p', ps_lent = r # q # ps_lent s0\<rparr>"
  have s2: "pool_step ?s1 ?s2" using pool_step.acquire [of ?s1 r h' p'] 2 by simp
  have "distinct (ps_lent ?s2)" by (rule lent_distinct [OF pool_step_inv [OF s2 inv1]])
  moreover have "pool_reachable s0 ?s2"
    by (rule pool_reachable.step [OF pool_reachable.step [OF pool_reachable.start s1] s2])
  ultimately show thesis using that [of ?s2 q r] by auto
qed

theorem pool_buffers_disjoint_witness:
  "\<exists>s q r. q \<in> set (ps_lent s) \<and> r \<in> set (ps_lent s) \<and> q \<noteq> r \<and>
     pool_reachable (pool_start \<lparr>hp_brk = 4096, hp_cells = (\<lambda>_. None)\<rparr> 8192 16384) s \<and>
     apart (ps_pool s) (ptr_addr q) (ptr_addr r)"
proof -
  let ?s0 = "pool_start \<lparr>hp_brk = 4096, hp_cells = (\<lambda>_. None)\<rparr> 8192 16384"
  have "pool_inv ?s0" by (rule pool_start_inv) simp_all
  then obtain s q r where s: "pool_reachable ?s0 s" "q \<in> set (ps_lent s)" "r \<in> set (ps_lent s)" "q \<noteq> r"
    by (rule pool_run_two)
  moreover have "apart (ps_pool s) (ptr_addr q) (ptr_addr r)"
    using pool_buffers_disjoint [OF _ _ _ _ _ s] by simp
  ultimately show ?thesis by blast
qed



text \<open>C37: dropping the last pointer to a buffer that was just acquired restores the bitmap of the
  pool exactly.\<close>

theorem pool_acquire_release:
  assumes "pool_ok h p" "iobufs_acquire h p = Inr (q, h', p')"
  shows "\<exists>h''. iobuf_delete h' p' q = Inr (h'', p)"
proof (cases "True \<in> set (pl_free p)")
  case False
  then show ?thesis using assms acquire_malloc [OF assms(1) False] by (auto simp: iobuf_delete_def)
next
  case True
  let ?i = "find_first (pl_bitmap p)"
  obtain bm c where a: "?i < nat (pl_count p)" "pl_free p ! ?i"
      "hp_cells h (chunk_addr p ?i) = Some c" "int (length (io_buff c)) = pl_size p"
      "bs_set_at (pl_bitmap p) ?i False = Inr bm" "bs_inv bm" "bs_list bm = (pl_free p)[?i := False]"
    and acq: "iobufs_acquire h p = Inr (\<lparr>ptr_addr = chunk_addr p ?i, ptr_del = Pool_release\<rparr>,
      h\<lparr>hp_cells := (hp_cells h)(chunk_addr p ?i \<mapsto> iobuf_init c (pl_size p))\<rparr>, p\<lparr>pl_bitmap := bm\<rparr>)"
    by (rule acquire_pool [OF assms(1) True])
  have p': "p' = p\<lparr>pl_bitmap := bm\<rparr>" and q: "q = \<lparr>ptr_addr = chunk_addr p ?i, ptr_del = Pool_release\<rparr>"
    using acq assms(2) by simp_all
  have ok': "pool_ok h p'" unfolding p' by (rule pool_ok_bitmap [OF assms(1) a(6,7)])
  have undo: "bs_set_at bm ?i True = Inr (pl_bitmap p)"
    using bm.give_back [OF pool_okD(5) [OF assms(1)] _ a(2,5)] a(1) pool_okD(7) [OF assms(1)] by simp
  obtain bm' where "bs_set_at (pl_bitmap p') ?i True = Inr bm'"
      "iobufs_release p' (chunk_addr p' ?i) = Inr (p'\<lparr>pl_bitmap := bm'\<rparr>)"
    by (rule release_chunk [OF ok', of ?i]) (use a(1) p' in auto)
  then have "iobufs_release p' (chunk_addr p ?i) = Inr p" using undo p' by simp
  then show ?thesis by (simp add: iobuf_delete_def q)
qed

theorem pool_acquire_release_witness:
  "\<exists>q h' p' h''. iobufs_acquire (ps_heap (pool_start \<lparr>hp_brk = 0, hp_cells = (\<lambda>_. None)\<rparr> 8192 16384))
      (ps_pool (pool_start \<lparr>hp_brk = 0, hp_cells = (\<lambda>_. None)\<rparr> 8192 16384)) = Inr (q, h', p') \<and>
    iobuf_delete h' p' q = Inr (h'', ps_pool (pool_start \<lparr>hp_brk = 0, hp_cells = (\<lambda>_. None)\<rparr> 8192 16384))"
proof -
  let ?s0 = "pool_start \<lparr>hp_brk = 0, hp_cells = (\<lambda>_. None)\<rparr> 8192 16384"
  have inv: "pool_inv ?s0" by (rule pool_start_inv) simp_all
  then have ok: "pool_ok (ps_heap ?s0) (ps_pool ?s0)" by (simp add: pool_inv_def)
  obtain q h' p' where acq: "iobufs_acquire (ps_heap ?s0) (ps_pool ?s0) = Inr (q, h', p')"
    using acquire_total [OF ok] by blast
  then show ?thesis using pool_acquire_release [OF ok acq] by blast
qed

text \<open>When the number of chunks is not a multiple of 64 and all of them are in use, the search
  for a free chunk returns the first unused bit of the bitmap, and \<open>acquire\<close> stops at the
  assertion of \<open>bitset::set\<close> instead of falling back to \<open>malloc\<close>.\<close>

theorem pool_exhausted_aborts:
  assumes "0 \<le> m" "m < 2 ^ 31" "m mod 64 \<noteq> 0" "pool_reachable (pool_start h n m) s"
    and "True \<notin> set (pl_free (ps_pool s))"
  shows "iobufs_acquire (ps_heap s) (ps_pool s) = Inl Assert_failed"
  using dirty_acquire [OF dirty_pool_reachable [OF assms(4) dirty_pool_start]] assms by blast

text \<open>A pool with one chunk: the first \<open>acquire\<close> takes it, the second one stops.\<close>

lemma find_first_one: "find_first (bs_make 1 True) = 0"
proof (rule ccontr)
  assume "find_first (bs_make 1 True) \<noteq> 0"
  then have "\<forall>k. \<not> k < (64::nat)"
    using find_first_blocks [of "bs_make 1 True"]
    by (auto simp: bs_make_shape size_max_def first_from_def bs_bit_make bs_make_sel bits_to_block_def
        bits_per_block_def split: if_splits)
  then show False by (metis zero_less_numeral)
qed

theorem pool_exhausted_aborts_witness:
  "\<exists>s. pool_reachable (pool_start \<lparr>hp_brk = 0, hp_cells = (\<lambda>_. None)\<rparr> 16 1) s \<and>
     iobufs_acquire (ps_heap s) (ps_pool s) = Inl Assert_failed"
proof -
  let ?u = "pool_start \<lparr>hp_brk = 0, hp_cells = (\<lambda>_. None)\<rparr> 16 1"
  have b: "pl_bitmap (ps_pool ?u) = bs_make 1 True"
    by (simp add: pool_start_def iobufs_make_def malloc_def Let_def size_of_int_nonneg)
  obtain bm where bm: "bs_set_at (bs_make 1 True) 0 False = Inr bm" "bs_list bm = [False]"
    using bs_set_at_eq [OF bs_make_shape, of 1 True 0 False]
      bs_list_update [OF bs_make_shape _ set_at_one_bit, of 1 0 True False]
    by (simp add: size_max_def bs_list_make bs_make_sel)
  obtain q h where acq: "iobufs_acquire (ps_heap ?u) (ps_pool ?u) = Inr (q, h, (ps_pool ?u)\<lparr>pl_bitmap := bm\<rparr>)"
    using bm(1) find_first_one
    by (simp add: b iobufs_acquire_def) (simp add: pool_start_def iobufs_make_def malloc_def Let_def
        size_of_int_nonneg chunk_cells_def sizeof_iobuf_def size_max_def npos_def)
  let ?t = "\<lparr>ps_heap = h, ps_pool = (ps_pool ?u)\<lparr>pl_bitmap := bm\<rparr>, ps_lent = q # ps_lent ?u\<rparr>"
  have r: "pool_reachable ?u ?t"
    by (rule pool_reachable.step [OF pool_reachable.start pool_step.acquire [OF acq]])
  have "iobufs_acquire (ps_heap ?t) (ps_pool ?t) = Inl Assert_failed"
    by (rule pool_exhausted_aborts [OF _ _ _ r]) (simp_all add: bm)
  with r show ?thesis by blast
qed

end
