(* ===== verification/Response.thy ===== *)
theory Response
  imports Iobufs
begin

text \<open>
  The response writer of \<^verbatim>\<open>src/src/response.hpp\<close> and \<^verbatim>\<open>src/src/response.cpp\<close>.

  A response owns two vectors of buffers from the pool, one for the header and one for the
  body; its operations format text at the write position of the last buffer. The state they
  change is the heap and the pool (\<open>world\<close>) and the response. Formatted text is the argument
  of the variadic operations; the broken-down time of \<open>gmtime_r\<close> is an argument of \<open>status\<close>.
  The capacity of the body vector is part of the state, since \<open>append\<close> keeps a reference into
  it across a \<open>push_back\<close>.
\<close>

subsection \<open>State\<close>

record world =
  w_heap :: heap
  w_pool :: iobufs

record http_response =
  rs_header :: "iobuf_ptr list"
  rs_body :: "iobuf_ptr list"
  rs_cap :: nat
  rs_status :: int
  rs_alive :: int
  rs_iseom :: int

definition acquire :: "world \<Rightarrow> (iobuf_ptr \<times> world) res" where
  "acquire w = rbind (iobufs_acquire (w_heap w) (w_pool w)) (\<lambda>(q, h, p). Inr (q, \<lparr>w_heap = h, w_pool = p\<rparr>))"

text \<open>\<open>push_back\<close> moves the elements when the size has reached the capacity; the new capacity
  is twice the size.\<close>

definition grow :: "nat \<Rightarrow> nat \<Rightarrow> nat" where
  "grow n cap = (if n < cap then cap else max 1 (2 * n))"

definition resp_make :: "world \<Rightarrow> (world \<times> http_response) res" where
  "resp_make w = rbind (acquire w) (\<lambda>(q, w1). rbind (acquire w1) (\<lambda>(r, w2).
     Inr (w2, \<lparr>rs_header = [q], rs_body = [r], rs_cap = grow 0 0, rs_status = - 1, rs_alive = 1, rs_iseom = 0\<rparr>)))"

text \<open>Destroying a list of pointers: the deleter runs for a pointer that occurs nowhere else.\<close>

fun drop_ptrs :: "world \<Rightarrow> iobuf_ptr list \<Rightarrow> iobuf_ptr list \<Rightarrow> world res" where
  "drop_ptrs w [] keep = Inr w"
| "drop_ptrs w (q # qs) keep = (if q \<in> set qs \<or> q \<in> set keep then drop_ptrs w qs keep
     else rbind (iobuf_delete (w_heap w) (w_pool w) q) (\<lambda>(h, p). drop_ptrs \<lparr>w_heap = h, w_pool = p\<rparr> qs keep))"

definition resp_reset :: "world \<Rightarrow> http_response \<Rightarrow> (world \<times> http_response) res" where
  "resp_reset w r =
     rbind (drop_ptrs w (rs_header r) (rs_body r)) (\<lambda>w1.
     rbind (drop_ptrs w1 (rs_body r) []) (\<lambda>w2.
     Inr (w2, r\<lparr>rs_status := - 1, rs_alive := 1, rs_iseom := 0, rs_header := [], rs_body := []\<rparr>)))"

text \<open>An operation on the buffer \<open>back()\<close> points to.\<close>

definition with_back :: "world \<Rightarrow> iobuf_ptr list \<Rightarrow> (iobuf \<Rightarrow> (iobuf \<times> 'a) res) \<Rightarrow> (world \<times> 'a) res" where
  "with_back w ps f = (if ps = [] then Inl Empty_back
     else case hp_cells (w_heap w) (ptr_addr (last ps)) of
         None \<Rightarrow> Inl Dangling_reference
       | Some io \<Rightarrow> rbind (f io) (\<lambda>(io', x).
           Inr (w\<lparr>w_heap := (w_heap w)\<lparr>hp_cells := (hp_cells (w_heap w))(ptr_addr (last ps) \<mapsto> io')\<rparr>\<rparr>, x)))"

text \<open>\<open>snprintf\<close> at an offset from the write position.\<close>

definition print_at :: "iobuf \<Rightarrow> int \<Rightarrow> string \<Rightarrow> (iobuf \<times> int) res" where
  "print_at io n s = rbind (snprintf (io_buff io) (iobuf_get_w_buf io + n) (cint (iobuf_get_w_available io - n)) s)
     (\<lambda>(b, k). Inr (io\<lparr>io_buff := b\<rparr>, k))"

subsection \<open>The header\<close>

record tm =
  tm_wday :: int
  tm_mday :: int
  tm_mon :: int
  tm_year :: int
  tm_hour :: int
  tm_min :: int
  tm_sec :: int

definition WEEK_DAY :: "string list" where
  "WEEK_DAY = [''Sun'', ''Mon'', ''Tue'', ''Wed'', ''Thu'', ''Fri'', ''Sat'']"

definition MONTH :: "string list" where
  "MONTH = [''Jan'', ''Feb'', ''Mar'', ''Apr'', ''May'', ''Jun'', ''Jul'', ''Aug'', ''Sep'', ''Oct'', ''Nov'', ''Dec'']"

definition date_text :: "tm \<Rightarrow> string res" where
  "date_text t = (if tm_wday t < 0 \<or> 7 \<le> tm_wday t \<or> tm_mon t < 0 \<or> 12 \<le> tm_mon t then Inl Out_of_range
     else Inr (''Date: '' @ WEEK_DAY ! nat (tm_wday t) @ '', '' @ fmt_d (tm_mday t) @ '' '' @ MONTH ! nat (tm_mon t) @
       '' '' @ fmt_d (cint (tm_year t + 1900)) @ '' '' @ fmt_02d (tm_hour t) @ '':'' @ fmt_02d (tm_min t) @ '':'' @
       fmt_02d (tm_sec t) @ '' GMT'' @ crlf))"

definition http_response_current_date :: "tm \<Rightarrow> iobuf \<Rightarrow> iobuf res" where
  "http_response_current_date t io = rbind (date_text t) (\<lambda>s. rbind (print_at io 0 s) (\<lambda>(io1, n).
     Inr (fst (iobuf_set_w_len io1 n))))"

definition status_text :: "int \<Rightarrow> string \<Rightarrow> string" where
  "status_text code message = ''HTTP/1.1 '' @ fmt_d code @ '' '' @ message @ crlf @ ''Server: cohttp/0.9.0'' @ crlf"

definition resp_status :: "tm \<Rightarrow> world \<Rightarrow> http_response \<Rightarrow> int \<Rightarrow> string \<Rightarrow> (world \<times> http_response) res" where
  "resp_status t w r code message = rbind (with_back w (rs_header r) (\<lambda>io.
       rbind (print_at io 0 (status_text code message)) (\<lambda>(io1, n).
       rbind (http_response_current_date t (fst (iobuf_set_w_len io1 n))) (\<lambda>io2. Inr (io2, ())))))
     (\<lambda>(w', _). Inr (w', r\<lparr>rs_status := code\<rparr>))"

definition no_status :: error where
  "no_status = Runtime_error ''response should set status first''"

definition resp_content_type :: "world \<Rightarrow> http_response \<Rightarrow> string option \<Rightarrow> string option \<Rightarrow> (world \<times> http_response) res" where
  "resp_content_type w r type charset = (if rs_status r = - 1 then Inl no_status
     else rbind (with_back w (rs_header r) (\<lambda>io.
       rbind (print_at io 0 (''Content-Type: '' @ (case type of Some s \<Rightarrow> s | None \<Rightarrow> ''text/html''))) (\<lambda>(io1, n).
       rbind (case charset of
           Some cs \<Rightarrow> print_at io1 n (''; charset='' @ cs @ crlf)
         | None \<Rightarrow> print_at io1 n crlf) (\<lambda>(io2, n2).
       Inr (fst (iobuf_set_w_len io2 (cint (n + n2))), ())))))
     (\<lambda>(w', _). Inr (w', r)))"

definition resp_keep_alive :: "world \<Rightarrow> http_response \<Rightarrow> bool \<Rightarrow> (world \<times> http_response) res" where
  "resp_keep_alive w r alive = (if rs_status r = - 1 then Inl no_status
     else rbind (with_back w (rs_header r) (\<lambda>io.
       rbind (print_at io 0 (''Connection: '' @ (if alive then ''keep-alive'' else ''close'') @ crlf)) (\<lambda>(io1, n).
       Inr (fst (iobuf_set_w_len io1 n), ()))))
     (\<lambda>(w', _). Inr (w', r\<lparr>rs_alive := (if alive then 1 else 0)\<rparr>)))"

definition too_large :: "string \<Rightarrow> int \<Rightarrow> int \<Rightarrow> error" where
  "too_large what s n = Runtime_error (''too larget http response header: '' @ what @ ''available '' @ fmt_d s @
     '', expected '' @ fmt_d n)"

definition resp_header :: "world \<Rightarrow> http_response \<Rightarrow> string \<Rightarrow> string \<Rightarrow> (world \<times> http_response) res" where
  "resp_header w r field val = (if rs_status r = - 1 then Inl no_status
     else rbind (with_back w (rs_header r) (\<lambda>io.
       rbind (print_at io 0 (field @ '': '' @ val @ crlf)) (\<lambda>(io1, n).
       if n < 0 \<or> n > iobuf_get_w_available io then Inl (too_large [] (iobuf_get_w_available io) n)
       else Inr (fst (iobuf_set_w_len io1 n), ()))))
     (\<lambda>(w', _). Inr (w', r)))"

text \<open>The variadic overload: the text of the value is formatted twice, first to learn its length.\<close>

definition resp_header_fmt :: "world \<Rightarrow> http_response \<Rightarrow> string \<Rightarrow> string \<Rightarrow> (world \<times> http_response) res" where
  "resp_header_fmt w r field text = (if rs_status r = - 1 then Inl no_status
     else rbind (with_back w (rs_header r) (\<lambda>io.
       let s = cint ((if int (length text) > int_max then - 1 else int (length text)) + int (length field) + 4) in
       if s < 0 \<or> s > iobuf_get_w_available io
       then Inl (too_large (field @ '' '') (iobuf_get_w_available io) s)
       else rbind (print_at io 0 (field @ '': '')) (\<lambda>(io1, n1).
         rbind (print_at io1 n1 text) (\<lambda>(io2, l).
         rbind (print_at io2 (cint (n1 + l)) crlf) (\<lambda>(io3, n2).
         Inr (fst (iobuf_set_w_len io3 (cint (l + n1 + n2))), ()))))))
     (\<lambda>(w', _). Inr (w', r)))"

definition resp_eom :: "world \<Rightarrow> http_response \<Rightarrow> (world \<times> http_response) res" where
  "resp_eom w r = rbind (with_back w (rs_header r) (\<lambda>io.
       rbind (print_at io 0 crlf) (\<lambda>(io1, n). Inr (fst (iobuf_set_w_len io1 n), ()))))
     (\<lambda>(w', _). Inr (w', r\<lparr>rs_iseom := 1\<rparr>))"

definition resp_iseom :: "http_response \<Rightarrow> bool" where
  "resp_iseom r \<longleftrightarrow> rs_iseom r = 1"

definition resp_is_keep_alive :: "http_response \<Rightarrow> bool" where
  "resp_is_keep_alive r \<longleftrightarrow> rs_alive r = 1"

definition resp_get_status :: "http_response \<Rightarrow> int" where
  "resp_get_status r = rs_status r"

definition resp_buffers :: "http_response \<Rightarrow> iobuf_ptr list" where
  "resp_buffers r = rs_header r @ rs_body r"

subsection \<open>The body\<close>

definition push_body :: "http_response \<Rightarrow> iobuf_ptr \<Rightarrow> http_response" where
  "push_body r q = r\<lparr>rs_body := rs_body r @ [q], rs_cap := grow (length (rs_body r)) (rs_cap r)\<rparr>"

text \<open>The loop of \<open>printf\<close>; the buffer it writes to is always the last one of the body.\<close>

function printf_loop :: "world \<Rightarrow> http_response \<Rightarrow> string \<Rightarrow> nat \<Rightarrow> (world \<times> http_response \<times> int) res" where
  "printf_loop w r s retry = rbind (with_back w (rs_body r) (\<lambda>io.
       rbind (print_at io 0 s) (\<lambda>(io1, k).
       if k > - 1 \<and> k \<le> iobuf_get_w_available io then Inr (fst (iobuf_set_w_len io1 k), (k, True))
       else Inr (io1, (k, False)))))
     (\<lambda>(w1, k, done).
       if done then Inr (w1, r, k)
       else rbind (acquire w1) (\<lambda>(q, w2).
         if retry + 1 < 2 then printf_loop w2 (push_body r q) s (retry + 1)
         else Inr (w2, push_body r q, k)))"
  by pat_completeness auto
termination
  by (relation "measure (\<lambda>(w, r, s, retry). 2 - retry)") auto

declare printf_loop.simps [simp del]

definition resp_printf :: "world \<Rightarrow> http_response \<Rightarrow> string \<Rightarrow> (world \<times> http_response \<times> int) res" where
  "resp_printf w r s = printf_loop w r s 0"

text \<open>
  The loop of \<open>append\<close>. The reference \<open>iov\<close> is the element with index \<open>k\<close> of the body:
  assigning to it replaces that element, and after a \<open>push_back\<close> that moves the elements it
  dangles. All quantities stay between 0 and \<open>len\<close> or the size of a buffer.
\<close>

definition append_write :: "world \<Rightarrow> http_response \<Rightarrow> nat \<Rightarrow> string \<Rightarrow> world res" where
  "append_write w r k src = (case hp_cells (w_heap w) (ptr_addr (rs_body r ! k)) of
     None \<Rightarrow> Inl Dangling_reference
   | Some io \<Rightarrow> rbind (memcpy (io_buff io) (iobuf_get_w_buf io) src) (\<lambda>b.
       Inr (w\<lparr>w_heap := (w_heap w)\<lparr>hp_cells := (hp_cells (w_heap w))(ptr_addr (rs_body r ! k) \<mapsto>
         fst (iobuf_set_w_len (io\<lparr>io_buff := b\<rparr>) (int (length src))))\<rparr>\<rparr>)))"

definition append_next :: "world \<Rightarrow> http_response \<Rightarrow> nat \<Rightarrow> (world \<times> http_response \<times> int) res" where
  "append_next w r k = rbind (acquire w) (\<lambda>(q, w1).
     let r1 = r\<lparr>rs_body := (rs_body r)[k := q]\<rparr> in
     rbind (drop_ptrs w1 [rs_body r ! k] (rs_header r1 @ rs_body r1)) (\<lambda>w2.
     if \<not> length (rs_body r) < rs_cap r then Inl Dangling_reference
     else case hp_cells (w_heap w2) (ptr_addr q) of
         None \<Rightarrow> Inl Dangling_reference
       | Some io \<Rightarrow> Inr (w2, push_body r1 q, iobuf_get_w_available io)))"

lemma append_next_result:
  "append_next w r k = Inr (w', r', a) \<Longrightarrow>
    length (rs_body r) < rs_cap r \<and> (\<exists>q. r' = push_body (r\<lparr>rs_body := (rs_body r)[k := q]\<rparr>) q)"
  unfolding append_next_def Let_def rbind_def
  by (simp only: split: sum.splits prod.splits if_splits option.splits) (metis Inl_Inr_False Inr_inject prod.inject)+

lemma append_next_measure:
  assumes "append_next w r k = Inr (w', r', a)"
  shows "rs_cap r' - length (rs_body r') < rs_cap r - length (rs_body r)"
  using append_next_result [OF assms] by (auto simp: push_body_def grow_def)

function append_loop :: "world \<Rightarrow> http_response \<Rightarrow> nat \<Rightarrow> string \<Rightarrow> int \<Rightarrow> (world \<times> http_response) res" where
  "append_loop w r k buf avail = (if buf = [] then Inr (w, r)
     else if avail < 0 then Inl Buffer_overflow
     else let n = min (nat avail) (length buf) in
       rbind (append_write w r k (take n buf)) (\<lambda>w1.
       if avail - int n < int (length buf) - int n
       then (case append_next w1 r k of
           Inl e \<Rightarrow> Inl e
         | Inr (w2, r2, avail2) \<Rightarrow> append_loop w2 r2 k (drop n buf) avail2)
       else append_loop w1 r k (drop n buf) (avail - int n)))"
  by pat_completeness auto
termination
proof (relation "measures [\<lambda>(w, r, k, buf, avail). rs_cap r - length (rs_body r),
    \<lambda>(w, r, k, buf, avail). length buf]", goal_cases)
  case 2
  then show ?case by (auto dest: append_next_measure)
next
  case 3
  then show ?case by simp
qed simp

declare append_loop.simps [simp del]

definition resp_append :: "world \<Rightarrow> http_response \<Rightarrow> string \<Rightarrow> (world \<times> http_response) res" where
  "resp_append w r buf = (if rs_body r = [] then Inl Empty_back
     else case hp_cells (w_heap w) (ptr_addr (last (rs_body r))) of
         None \<Rightarrow> Inl Dangling_reference
       | Some io \<Rightarrow> append_loop w r (length (rs_body r) - 1) buf (iobuf_get_w_available io))"

subsection \<open>Text in buffers\<close>

text \<open>Text that was formatted behind the write position but is not part of the buffer yet.\<close>

definition pending :: "iobuf \<Rightarrow> string \<Rightarrow> bool" where
  "pending io s \<longleftrightarrow> iobuf_ok io \<and> io_wpos io + int (length s) \<le> io_size io \<and>
     take (nat (io_wpos io) + length s) (io_buff io) = io_written io @ s"

definition same_pos :: "iobuf \<Rightarrow> iobuf \<Rightarrow> bool" where
  "same_pos io io' \<longleftrightarrow> io_size io' = io_size io \<and> io_wpos io' = io_wpos io \<and> io_rpos io' = io_rpos io \<and>
     io_written io' = io_written io"

lemma pending_start: "iobuf_ok io \<Longrightarrow> pending io []"
  by (simp add: pending_def io_written_def iobuf_ok_def)

lemma print_pending:
  assumes p: "pending io s" and fits: "int (length s + length t) < iobuf_get_w_available io"
  obtains io' where "print_at io (int (length s)) t = Inr (io', int (length t))" "pending io' (s @ t)" "same_pos io io'"
proof -
  have ok: "iobuf_ok io" using p by (simp add: pending_def)
  note av = iobuf_available(1) [OF ok]
  have b: "0 \<le> io_wpos io" "io_size io < 2 ^ 31" "int (length (io_buff io)) = io_size io" using ok by (auto simp: iobuf_ok_def)
  define off where "off = nat (io_wpos io) + length s"
  define buf where "buf = overwrite (io_buff io) off (t @ [CHR 0x00])"
  have len: "off + length (t @ [CHR 0x00]) \<le> length (io_buff io)" using fits b av by (simp add: off_def)
  have "cint (iobuf_get_w_available io - int (length s)) = iobuf_get_w_available io - int (length s)"
    using fits b av by (intro cint_id) simp_all
  moreover have "snprintf (io_buff io) (int off) (iobuf_get_w_available io - int (length s)) t = Inr (buf, int (length t))"
    using snprintf_fits [of "int off" "iobuf_get_w_available io - int (length s)" "io_buff io" t] fits b av
    by (simp add: buf_def off_def nat_add_distrib)
  ultimately have "print_at io (int (length s)) t = Inr (io\<lparr>io_buff := buf\<rparr>, int (length t))"
    using b by (simp add: print_at_def iobuf_get_w_buf_def off_def)
  moreover have lb: "length buf = length (io_buff io)" using len by (simp add: buf_def)
  have w: "take (nat (io_wpos io)) buf = io_written io"
    using len by (simp add: buf_def io_written_def take_overwrite_prefix off_def)
  have "take (off + length t) buf = take off (io_buff io) @ t"
    using len by (simp add: buf_def overwrite_def)
  then have "pending (io\<lparr>io_buff := buf\<rparr>) (s @ t)"
    using p lb w fits av by (simp add: pending_def iobuf_ok_def io_written_def off_def add.assoc)
  moreover have "same_pos io (io\<lparr>io_buff := buf\<rparr>)" using w by (simp add: same_pos_def io_written_def)
  ultimately show thesis using that by blast
qed

lemma pending_commit:
  assumes "pending io s"
  obtains io' where "iobuf_set_w_len io (int (length s)) = (io', True)" "iobuf_ok io'" "io_size io' = io_size io"
    "io_written io' = io_written io @ s" "io_wpos io' = io_wpos io + int (length s)" "io_rpos io' = io_rpos io" "length (io_buff io') = length (io_buff io)"
proof -
  have ok: "iobuf_ok io" and le: "io_wpos io + int (length s) \<le> io_size io"
    and tk: "take (nat (io_wpos io) + length s) (io_buff io) = io_written io @ s"
    using assms by (simp_all add: pending_def)
  have b: "0 \<le> io_wpos io" "io_size io < 2 ^ 31" using ok by (auto simp: iobuf_ok_def)
  have "iobuf_set_w_len io (int (length s)) = (io\<lparr>io_wpos := io_wpos io + int (length s)\<rparr>, True)"
    using le b by (simp add: iobuf_set_w_len_eq [OF ok] iobuf_available [OF ok])
  moreover have "io_written (io\<lparr>io_wpos := io_wpos io + int (length s)\<rparr>) = io_written io @ s"
    using tk b by (simp add: io_written_def nat_add_distrib)
  ultimately show thesis using that ok le by (simp add: iobuf_ok_def)
qed

text \<open>One formatted write that fits with its NUL.\<close>

definition appended :: "iobuf \<Rightarrow> string \<Rightarrow> iobuf \<Rightarrow> bool" where
  "appended io s io' \<longleftrightarrow> iobuf_ok io' \<and> io_size io' = io_size io \<and> io_written io' = io_written io @ s \<and>
     io_wpos io' = io_wpos io + int (length s) \<and> io_rpos io' = io_rpos io"

lemma pending_appended:
  assumes "pending io' s" "same_pos io io'"
  obtains io'' where "iobuf_set_w_len io' (int (length s)) = (io'', True)" "appended io s io''"
  by (rule pending_commit [OF assms(1)]) (use assms(2) that in \<open>auto simp: appended_def same_pos_def\<close>)

lemma same_pos_trans: "same_pos a b \<Longrightarrow> same_pos b c \<Longrightarrow> same_pos a c"
  by (simp add: same_pos_def)

lemma same_pos_available: "same_pos a b \<Longrightarrow> iobuf_get_w_available b = iobuf_get_w_available a"
  by (simp add: same_pos_def iobuf_get_w_available_def)

lemma print_appended:
  assumes "iobuf_ok io" "int (length s) < iobuf_get_w_available io"
  obtains io1 io2 where "print_at io 0 s = Inr (io1, int (length s))"
    "iobuf_set_w_len io1 (int (length s)) = (io2, True)" "appended io s io2"
proof -
  obtain io1 where 1: "print_at io 0 s = Inr (io1, int (length s))" "pending io1 s" "same_pos io io1"
    using print_pending [OF pending_start [OF assms(1)], of s] assms(2) by auto
  obtain io2 where "iobuf_set_w_len io1 (int (length s)) = (io2, True)" "appended io s io2"
    by (rule pending_appended [OF 1(2,3)])
  with 1 show thesis using that by blast
qed

lemma appended_trans: "appended a s b \<Longrightarrow> appended b t c \<Longrightarrow> appended a (s @ t) c"
  by (simp add: appended_def)

lemma appended_available:
  assumes "appended a s b" "iobuf_ok a"
  shows "iobuf_get_w_available b = iobuf_get_w_available a - int (length s)"
  using assms iobuf_available(1) [of a] iobuf_available(1) [of b] by (simp add: appended_def)

subsection \<open>The invariant of a response\<close>

definition cell_ok :: "world \<Rightarrow> iobuf_ptr \<Rightarrow> bool" where
  "cell_ok w q \<longleftrightarrow> (case hp_cells (w_heap w) (ptr_addr q) of None \<Rightarrow> False
     | Some io \<Rightarrow> iobuf_ok io \<and> io_rpos io = 0 \<and> io_size io = pl_size (w_pool w))"

definition lent_state :: "world \<Rightarrow> iobuf_ptr list \<Rightarrow> pool_state" where
  "lent_state w lent = \<lparr>ps_heap = w_heap w, ps_pool = w_pool w, ps_lent = lent\<rparr>"

text \<open>The buffers of a response are distinct buffers among those lent by the pool.\<close>

definition resp_inv :: "world \<Rightarrow> iobuf_ptr list \<Rightarrow> http_response \<Rightarrow> bool" where
  "resp_inv w lent r \<longleftrightarrow> pool_inv (lent_state w lent) \<and> distinct (resp_buffers r) \<and>
     set (resp_buffers r) \<subseteq> set lent \<and> rs_header r \<noteq> [] \<and> rs_body r \<noteq> [] \<and>
     length (rs_body r) \<le> rs_cap r \<and> (\<forall>q \<in> set (resp_buffers r). cell_ok w q)"

definition ptr_text :: "world \<Rightarrow> iobuf_ptr \<Rightarrow> string" where
  "ptr_text w q = (case hp_cells (w_heap w) (ptr_addr q) of None \<Rightarrow> [] | Some io \<Rightarrow> io_written io)"

definition texts :: "world \<Rightarrow> iobuf_ptr list \<Rightarrow> string" where
  "texts w ps = concat (map (ptr_text w) ps)"

definition header_text :: "world \<Rightarrow> http_response \<Rightarrow> string" where
  "header_text w r = texts w (rs_header r)"

definition body_text :: "world \<Rightarrow> http_response \<Rightarrow> string" where
  "body_text w r = texts w (rs_body r)"

definition back_room :: "world \<Rightarrow> iobuf_ptr list \<Rightarrow> int" where
  "back_room w ps = (case hp_cells (w_heap w) (ptr_addr (last ps)) of None \<Rightarrow> 0 | Some io \<Rightarrow> iobuf_get_w_available io)"

lemma texts_simps [simp]: "texts w [] = []" "texts w (q # qs) = ptr_text w q @ texts w qs"
    "texts w (ps @ qs) = texts w ps @ texts w qs"
  by (simp_all add: texts_def)

text \<open>Writing a cell that none of the pointers refers to.\<close>

definition write_cell :: "world \<Rightarrow> nat \<Rightarrow> iobuf \<Rightarrow> world" where
  "write_cell w a io = w\<lparr>w_heap := (w_heap w)\<lparr>hp_cells := (hp_cells (w_heap w))(a \<mapsto> io)\<rparr>\<rparr>"

lemma write_cell_simps [simp]: "w_pool (write_cell w a io) = w_pool w"
    "hp_cells (w_heap (write_cell w a io)) = (hp_cells (w_heap w))(a \<mapsto> io)"
    "hp_brk (w_heap (write_cell w a io)) = hp_brk (w_heap w)"
  by (simp_all add: write_cell_def)

lemma cell_ok_write: "cell_ok (write_cell w a io) q \<longleftrightarrow>
    (if ptr_addr q = a then iobuf_ok io \<and> io_rpos io = 0 \<and> io_size io = pl_size (w_pool w) else cell_ok w q)"
  by (simp add: cell_ok_def split: option.splits)

lemma texts_write_other: "a \<notin> ptr_addr ` set ps \<Longrightarrow> texts (write_cell w a io) ps = texts w ps"
  by (induction ps) (auto simp: ptr_text_def)

lemma texts_cong:
  "(\<And>q. q \<in> set ps \<Longrightarrow> hp_cells (w_heap w') (ptr_addr q) = hp_cells (w_heap w) (ptr_addr q)) \<Longrightarrow> texts w' ps = texts w ps"
  by (induction ps) (auto simp: ptr_text_def)

lemma lent_addr_inj:
  assumes "pool_inv (lent_state w lent)" "q \<in> set lent" "r \<in> set lent" "ptr_addr q = ptr_addr r"
  shows "q = r"
  using lent_apart [of "lent_state w lent" q r] assms apart_neq by (fastforce simp: lent_state_def)

lemma resp_inv_write:
  assumes inv: "resp_inv w lent r" and q: "q \<in> set (resp_buffers r)"
    and io: "hp_cells (w_heap w) (ptr_addr q) = Some io" and io': "iobuf_ok io'" "io_size io' = io_size io" "io_rpos io' = io_rpos io"
  shows "resp_inv (write_cell w (ptr_addr q) io') lent r"
proof -
  have "q \<in> set lent" using inv q by (auto simp: resp_inv_def)
  moreover have "iobuf_ok io" "io_size io = pl_size (w_pool w)" "io_rpos io = 0" using inv q io by (auto simp: resp_inv_def cell_ok_def)
  moreover from this have "length (io_buff io') = length (io_buff io)" using io' by (simp add: iobuf_ok_def)
  ultimately have "pool_inv (lent_state (write_cell w (ptr_addr q) io') lent)"
    using pool_inv_use [of "lent_state w lent" q io io'] inv io by (simp add: resp_inv_def lent_state_def write_cell_def)
  then show ?thesis
    using inv io' \<open>io_size io = pl_size (w_pool w)\<close> \<open>io_rpos io = 0\<close> by (simp add: resp_inv_def cell_ok_write)
qed

text \<open>The operation on the last buffer of one of the two vectors appends its text there and
  leaves everything else alone.\<close>

lemma with_back_ok:
  assumes inv: "resp_inv w lent r" and ps: "ps = rs_header r \<or> ps = rs_body r"
    and f: "\<And>io. iobuf_ok io \<Longrightarrow> iobuf_get_w_available io = back_room w ps \<Longrightarrow> \<exists>io'. f io = Inr (io', x) \<and> appended io s io'"
  obtains w' where "with_back w ps f = Inr (w', x)" "resp_inv w' lent r" "texts w' ps = texts w ps @ s"
    "\<forall>q \<in> set lent. q \<noteq> last ps \<longrightarrow>
       hp_cells (w_heap w') (ptr_addr q) = hp_cells (w_heap w) (ptr_addr q)"
    "back_room w' ps = back_room w ps - int (length s)" "w_pool w' = w_pool w"
proof -
  have ne: "ps \<noteq> []" and sub: "set ps \<subseteq> set (resp_buffers r)" and d: "distinct ps"
    using inv ps by (auto simp: resp_inv_def resp_buffers_def)
  let ?q = "last ps"
  have q: "?q \<in> set (resp_buffers r)" and in_lent: "set ps \<subseteq> set lent" using ne sub inv by (auto simp: resp_inv_def)
  obtain io where io: "hp_cells (w_heap w) (ptr_addr ?q) = Some io" "iobuf_ok io"
    using inv q by (auto simp: resp_inv_def cell_ok_def split: option.splits)
  obtain io' where io': "f io = Inr (io', x)" "appended io s io'" using f [OF io(2)] io(1) by (auto simp: back_room_def)
  let ?w = "write_cell w (ptr_addr ?q) io'"
  have "with_back w ps f = Inr (?w, x)" using ne io(1) io'(1) by (simp add: with_back_def write_cell_def)
  moreover have "resp_inv ?w lent r"
    using resp_inv_write [OF inv q io(1)] io'(2) by (simp add: appended_def)
  moreover have addr: "ptr_addr p \<noteq> ptr_addr ?q" if "p \<in> set lent" "p \<noteq> ?q" for p
    using lent_addr_inj [of w lent p ?q] inv q that by (auto simp: resp_inv_def)
  have "texts ?w ps = texts w ps @ s"
  proof -
    have sp: "ps = butlast ps @ [?q]" using ne by simp
    have "?q \<notin> set (butlast ps)" using d sp by (metis distinct_append disjoint_iff list.set_intros(1))
    then have "texts ?w (butlast ps) = texts w (butlast ps)"
      using addr in_lent by (intro texts_write_other) (metis image_iff in_set_butlastD subset_iff)
    moreover have "ptr_text ?w ?q = ptr_text w ?q @ s"
      using io io'(2) by (simp add: ptr_text_def write_cell_def appended_def)
    ultimately show ?thesis using sp by (metis append.assoc texts_simps(1,2,3) append_Nil2)
  qed
  moreover have "hp_cells (w_heap ?w) (ptr_addr p) = hp_cells (w_heap w) (ptr_addr p)"
    if "p \<in> set lent" "p \<noteq> ?q" for p
    using addr [OF that] by simp
  moreover have "back_room ?w ps = back_room w ps - int (length s)"
    using appended_available [OF io'(2) io(2)] io(1) by (simp add: back_room_def write_cell_def)
  moreover have "w_pool ?w = w_pool w" by simp
  ultimately show thesis using that by blast
qed

subsection \<open>The header operations\<close>

text \<open>The lent buffers outside a list are as before.\<close>

definition others_same :: "world \<Rightarrow> iobuf_ptr list \<Rightarrow> iobuf_ptr list \<Rightarrow> world \<Rightarrow> bool" where
  "others_same w lent own w' \<longleftrightarrow> (\<forall>q \<in> set lent. q \<notin> set own \<longrightarrow>
     hp_cells (w_heap w') (ptr_addr q) = hp_cells (w_heap w) (ptr_addr q))"

lemma others_same_refl [simp]: "others_same w lent own w"
  by (simp add: others_same_def)

lemma others_same_trans: "others_same a lent own b \<Longrightarrow> others_same b lent own c \<Longrightarrow> others_same a lent own c"
  by (simp add: others_same_def)

lemma others_same_mono: "others_same a lent own b \<Longrightarrow> set lent' \<subseteq> set lent \<Longrightarrow> set own \<subseteq> set own' \<Longrightarrow> others_same a lent' own' b"
  by (auto simp: others_same_def)

text \<open>What a header operation does when its text fits.\<close>

definition wrote_header :: "world \<Rightarrow> iobuf_ptr list \<Rightarrow> http_response \<Rightarrow> string \<Rightarrow> world \<Rightarrow> bool" where
  "wrote_header w lent r s w' \<longleftrightarrow> resp_inv w' lent r \<and> header_text w' r = header_text w r @ s \<and>
     body_text w' r = body_text w r \<and> back_room w' (rs_header r) = back_room w (rs_header r) - int (length s) \<and>
     back_room w' (rs_body r) = back_room w (rs_body r) \<and> w_pool w' = w_pool w \<and>
     others_same w lent (resp_buffers r) w'"

definition wrote_body :: "world \<Rightarrow> iobuf_ptr list \<Rightarrow> http_response \<Rightarrow> string \<Rightarrow> world \<Rightarrow> bool" where
  "wrote_body w lent r s w' \<longleftrightarrow> resp_inv w' lent r \<and> body_text w' r = body_text w r @ s \<and>
     header_text w' r = header_text w r \<and> back_room w' (rs_body r) = back_room w (rs_body r) - int (length s) \<and>
     back_room w' (rs_header r) = back_room w (rs_header r) \<and> w_pool w' = w_pool w \<and>
     others_same w lent (resp_buffers r) w'"

lemma resp_inv_disjoint:
  assumes "resp_inv w lent r"
  shows "last (rs_header r) \<notin> set (rs_body r)" "last (rs_body r) \<notin> set (rs_header r)"
proof -
  have "set (rs_header r) \<inter> set (rs_body r) = {}" "rs_header r \<noteq> []" "rs_body r \<noteq> []"
    using assms by (auto simp: resp_inv_def resp_buffers_def)
  then show "last (rs_header r) \<notin> set (rs_body r)" "last (rs_body r) \<notin> set (rs_header r)"
    using last_in_set by blast+
qed

lemma other_vector:
  assumes "\<forall>q \<in> set lent. q \<noteq> l \<longrightarrow> hp_cells (w_heap w') (ptr_addr q) = hp_cells (w_heap w) (ptr_addr q)"
    and "l \<notin> set ps" "set ps \<subseteq> set lent" "ps \<noteq> []"
  shows "texts w' ps = texts w ps" "back_room w' ps = back_room w ps"
proof -
  have c: "hp_cells (w_heap w') (ptr_addr q) = hp_cells (w_heap w) (ptr_addr q)" if "q \<in> set ps" for q
    using assms(1-3) that by (metis subsetD)
  then show "texts w' ps = texts w ps" by (rule texts_cong)
  show "back_room w' ps = back_room w ps" using c [OF last_in_set [OF assms(4)]] by (simp add: back_room_def)
qed

lemma header_write:
  assumes inv: "resp_inv w lent r"
    and f: "\<And>io. iobuf_ok io \<Longrightarrow> iobuf_get_w_available io = back_room w (rs_header r) \<Longrightarrow> \<exists>io'. f io = Inr (io', x) \<and> appended io s io'"
  shows "\<exists>w'. with_back w (rs_header r) f = Inr (w', x) \<and> wrote_header w lent r s w'"
proof -
  obtain w' where w': "with_back w (rs_header r) f = Inr (w', x)" "resp_inv w' lent r"
      "texts w' (rs_header r) = texts w (rs_header r) @ s"
      "\<forall>q \<in> set lent. q \<noteq> last (rs_header r) \<longrightarrow>
         hp_cells (w_heap w') (ptr_addr q) = hp_cells (w_heap w) (ptr_addr q)"
      "back_room w' (rs_header r) = back_room w (rs_header r) - int (length s)" "w_pool w' = w_pool w"
    by (rule with_back_ok [OF inv disjI1 [OF refl] f])
  have "rs_body r \<noteq> []" "set (rs_body r) \<subseteq> set lent" using inv by (auto simp: resp_inv_def resp_buffers_def)
  moreover have "others_same w lent (resp_buffers r) w'"
    using w'(4) inv last_in_set by (fastforce simp: others_same_def resp_inv_def resp_buffers_def)
  ultimately show ?thesis using other_vector [OF w'(4) resp_inv_disjoint(1) [OF inv]] w'
    by (simp add: wrote_header_def header_text_def body_text_def)
qed

lemma body_write:
  assumes inv: "resp_inv w lent r"
    and f: "\<And>io. iobuf_ok io \<Longrightarrow> iobuf_get_w_available io = back_room w (rs_body r) \<Longrightarrow> \<exists>io'. f io = Inr (io', x) \<and> appended io s io'"
  shows "\<exists>w'. with_back w (rs_body r) f = Inr (w', x) \<and> wrote_body w lent r s w'"
proof -
  obtain w' where w': "with_back w (rs_body r) f = Inr (w', x)" "resp_inv w' lent r"
      "texts w' (rs_body r) = texts w (rs_body r) @ s"
      "\<forall>q \<in> set lent. q \<noteq> last (rs_body r) \<longrightarrow>
         hp_cells (w_heap w') (ptr_addr q) = hp_cells (w_heap w) (ptr_addr q)"
      "back_room w' (rs_body r) = back_room w (rs_body r) - int (length s)" "w_pool w' = w_pool w"
    by (rule with_back_ok [OF inv disjI2 [OF refl] f])
  have "rs_header r \<noteq> []" "set (rs_header r) \<subseteq> set lent" using inv by (auto simp: resp_inv_def resp_buffers_def)
  moreover have "others_same w lent (resp_buffers r) w'"
    using w'(4) inv last_in_set by (fastforce simp: others_same_def resp_inv_def resp_buffers_def)
  ultimately show ?thesis using other_vector [OF w'(4) resp_inv_disjoint(2) [OF inv]] w'
    by (simp add: wrote_body_def header_text_def body_text_def)
qed

lemma header_print:
  assumes "resp_inv w lent r" "int (length s) < back_room w (rs_header r)"
  shows "\<exists>w'. with_back w (rs_header r) (\<lambda>io. rbind (print_at io 0 s) (\<lambda>(io1, n).
      Inr (fst (iobuf_set_w_len io1 n), ()))) = Inr (w', ()) \<and> wrote_header w lent r s w'"
proof (rule header_write [OF assms(1)])
  show "\<exists>io'. rbind (print_at io 0 s) (\<lambda>(io1, n). Inr (fst (iobuf_set_w_len io1 n), ())) = Inr (io', ()) \<and> appended io s io'"
    if "iobuf_ok io" "iobuf_get_w_available io = back_room w (rs_header r)" for io
    by (rule print_appended [OF that(1), of s]) (use assms(2) that(2) in auto)
qed

lemma resp_status_ok:
  assumes "resp_inv w lent r" "date_text t = Inr d"
    and "int (length (status_text code msg @ d)) < back_room w (rs_header r)"
  shows "\<exists>w'. resp_status t w r code msg = Inr (w', r\<lparr>rs_status := code\<rparr>) \<and>
    wrote_header w lent r (status_text code msg @ d) w'"
proof -
  let ?f = "\<lambda>io. rbind (print_at io 0 (status_text code msg)) (\<lambda>(io1, n).
       rbind (http_response_current_date t (fst (iobuf_set_w_len io1 n))) (\<lambda>io2. Inr (io2, ())))"
  have "\<exists>io'. ?f io = Inr (io', ()) \<and> appended io (status_text code msg @ d) io'"
    if io: "iobuf_ok io" "iobuf_get_w_available io = back_room w (rs_header r)" for io
  proof -
    obtain io1 io2 where 1: "print_at io 0 (status_text code msg) = Inr (io1, int (length (status_text code msg)))"
        "iobuf_set_w_len io1 (int (length (status_text code msg))) = (io2, True)" "appended io (status_text code msg) io2"
      by (rule print_appended [OF io(1), of "status_text code msg"]) (use io(2) assms(3) in auto)
    have "iobuf_ok io2" "int (length d) < iobuf_get_w_available io2"
      using 1(3) appended_available [OF 1(3) io(1)] io(2) assms(3) by (simp_all add: appended_def)
    then obtain io3 io4 where 2: "print_at io2 0 d = Inr (io3, int (length d))"
        "iobuf_set_w_len io3 (int (length d)) = (io4, True)" "appended io2 d io4"
      by (rule print_appended)
    show ?thesis using 1 2 appended_trans [OF 1(3) 2(3)] assms(2) by (simp add: http_response_current_date_def)
  qed
  from header_write [OF assms(1) this] show ?thesis by (auto simp: resp_status_def)
qed

definition content_type_text :: "string option \<Rightarrow> string option \<Rightarrow> string" where
  "content_type_text type charset = ''Content-Type: '' @ (case type of Some s \<Rightarrow> s | None \<Rightarrow> ''text/html'') @
     (case charset of Some cs \<Rightarrow> ''; charset='' @ cs @ crlf | None \<Rightarrow> crlf)"

lemma resp_content_type_ok:
  assumes "resp_inv w lent r" "rs_status r \<noteq> - 1"
    and room: "int (length (content_type_text type charset)) < back_room w (rs_header r)"
  shows "\<exists>w'. resp_content_type w r type charset = Inr (w', r) \<and> wrote_header w lent r (content_type_text type charset) w'"
proof -
  define s where "s = ''Content-Type: '' @ (case type of Some s \<Rightarrow> s | None \<Rightarrow> ''text/html'')"
  define t where "t = (case charset of Some cs \<Rightarrow> ''; charset='' @ cs @ crlf | None \<Rightarrow> crlf)"
  let ?f = "\<lambda>io. rbind (print_at io 0 s) (\<lambda>(io1, n). rbind (print_at io1 n t) (\<lambda>(io2, n2).
    Inr (fst (iobuf_set_w_len io2 (cint (n + n2))), ())))"
  have st: "content_type_text type charset = s @ t" by (simp add: content_type_text_def s_def t_def)
  have "\<exists>io'. ?f io = Inr (io', ()) \<and> appended io (s @ t) io'"
    if io: "iobuf_ok io" "iobuf_get_w_available io = back_room w (rs_header r)" for io
  proof -
    obtain io1 where 1: "print_at io 0 s = Inr (io1, int (length s))" "pending io1 s" "same_pos io io1"
      using print_pending [OF pending_start [OF io(1)], of s] room io(2) by (auto simp: st)
    obtain io2 where 2: "print_at io1 (int (length s)) t = Inr (io2, int (length t))" "pending io2 (s @ t)" "same_pos io1 io2"
      by (rule print_pending [OF 1(2), of t]) (use room io(2) same_pos_available [OF 1(3)] in \<open>auto simp: st\<close>)
    obtain io3 where 3: "iobuf_set_w_len io2 (int (length (s @ t))) = (io3, True)" "appended io (s @ t) io3"
      by (rule pending_appended [OF 2(2) same_pos_trans [OF 1(3) 2(3)]])
    have "cint (int (length s) + int (length t)) = int (length (s @ t))"
      using pending_def [of io2 "s @ t"] 2(2) by (subst cint_id) (auto simp: iobuf_ok_def)
    then show ?thesis using 1(1) 2(1) 3 by simp
  qed
  from header_write [OF assms(1) this] show ?thesis
    using assms(2) by (auto simp: resp_content_type_def st s_def t_def cong: option.case_cong split: option.splits)
qed

definition keep_alive_text :: "bool \<Rightarrow> string" where
  "keep_alive_text alive = ''Connection: '' @ (if alive then ''keep-alive'' else ''close'') @ crlf"

lemma resp_keep_alive_ok:
  assumes "resp_inv w lent r" "rs_status r \<noteq> - 1" "int (length (keep_alive_text alive)) < back_room w (rs_header r)"
  shows "\<exists>w'. resp_keep_alive w r alive = Inr (w', r\<lparr>rs_alive := (if alive then 1 else 0)\<rparr>) \<and>
    wrote_header w lent r (keep_alive_text alive) w'"
  using header_print [OF assms(1,3)] assms(2) by (auto simp: resp_keep_alive_def keep_alive_text_def)

lemma resp_eom_ok:
  assumes "resp_inv w lent r" "int (length crlf) < back_room w (rs_header r)"
  shows "\<exists>w'. resp_eom w r = Inr (w', r\<lparr>rs_iseom := 1\<rparr>) \<and> wrote_header w lent r crlf w'"
  using header_print [OF assms] by (auto simp: resp_eom_def)

lemma resp_header_ok:
  assumes "resp_inv w lent r" "rs_status r \<noteq> - 1" "int (length (field @ '': '' @ val @ crlf)) < back_room w (rs_header r)"
  shows "\<exists>w'. resp_header w r field val = Inr (w', r) \<and> wrote_header w lent r (field @ '': '' @ val @ crlf) w'"
proof -
  let ?s = "field @ '': '' @ val @ crlf"
  let ?f = "\<lambda>io. rbind (print_at io 0 ?s) (\<lambda>(io1, n).
       if n < 0 \<or> n > iobuf_get_w_available io then Inl (too_large [] (iobuf_get_w_available io) n)
       else Inr (fst (iobuf_set_w_len io1 n), ()))"
  have "\<exists>io'. ?f io = Inr (io', ()) \<and> appended io ?s io'"
    if "iobuf_ok io" "iobuf_get_w_available io = back_room w (rs_header r)" for io
    by (rule print_appended [OF that(1), of ?s]) (use assms(3) that(2) in auto)
  from header_write [OF assms(1) this] show ?thesis using assms(2) by (auto simp: resp_header_def)
qed

lemma resp_header_fmt_ok:
  assumes "resp_inv w lent r" "rs_status r \<noteq> - 1" "int (length (field @ '': '' @ text @ crlf)) < back_room w (rs_header r)"
  shows "\<exists>w'. resp_header_fmt w r field text = Inr (w', r) \<and> wrote_header w lent r (field @ '': '' @ text @ crlf) w'"
proof -
  let ?a = "field @ '': ''" and ?s = "field @ '': '' @ text @ crlf"
  define f where "f io = (let s = cint ((if int (length text) > int_max then - 1 else int (length text)) + int (length field) + 4) in
       if s < 0 \<or> s > iobuf_get_w_available io
       then Inl (too_large (field @ '' '') (iobuf_get_w_available io) s)
       else rbind (print_at io 0 (field @ '': '')) (\<lambda>(io1, n1).
         rbind (print_at io1 n1 text) (\<lambda>(io2, l).
         rbind (print_at io2 (cint (n1 + l)) crlf) (\<lambda>(io3, n2).
         Inr (fst (iobuf_set_w_len io3 (cint (l + n1 + n2))), ())))))" for io
  have "\<exists>io'. f io = Inr (io', ()) \<and> appended io ?s io'"
    if io: "iobuf_ok io" "iobuf_get_w_available io = back_room w (rs_header r)" for io
  proof -
    have room: "int (length ?s) < iobuf_get_w_available io" using assms(3) io(2) by simp
    have small: "iobuf_get_w_available io < 2 ^ 31" using io(1) iobuf_available(1) [OF io(1)] by (auto simp: iobuf_ok_def)
    obtain io1 where 1: "print_at io 0 ?a = Inr (io1, int (length ?a))" "pending io1 ?a" "same_pos io io1"
      using print_pending [OF pending_start [OF io(1)], of ?a] room by auto
    note av1 = same_pos_available [OF 1(3)]
    obtain io2 where 2: "print_at io1 (int (length ?a)) text = Inr (io2, int (length text))" "pending io2 (?a @ text)" "same_pos io1 io2"
      by (rule print_pending [OF 1(2), of "text"]) (use room av1 in auto)
    note av2 = same_pos_available [OF 2(3)]
    obtain io3 where 3: "print_at io2 (int (length (?a @ text))) crlf = Inr (io3, int (length crlf))" "pending io3 ((?a @ text) @ crlf)" "same_pos io2 io3"
      by (rule print_pending [OF 2(2), of crlf]) (use room av1 av2 in auto)
    obtain io4 where 4: "iobuf_set_w_len io3 (int (length ((?a @ text) @ crlf))) = (io4, True)" "appended io ((?a @ text) @ crlf) io4"
      by (rule pending_appended [OF 3(2) same_pos_trans [OF 1(3) same_pos_trans [OF 2(3) 3(3)]]])
    have c: "cint (int (length text) + int (length field) + 4) = int (length text) + int (length field) + 4"
        "cint (int (length ?a) + int (length text)) = int (length (?a @ text))"
        "cint (int (length text) + int (length ?a) + int (length crlf)) = int (length ((?a @ text) @ crlf))"
      using room small by (simp_all add: cint_id crlf_def)
    have len: "\<not> int (length text) > int_max" using room small by (simp add: int_max_def)
    have le: "\<not> int (length text) + int (length field) + 4 > iobuf_get_w_available io" using room by (simp add: crlf_def)
    show ?thesis
      unfolding f_def Let_def if_not_P [OF len] c(1) 1(1)
      using 2(1) 3(1) 4 le c(2,3) by simp
  qed
  from header_write [OF assms(1) this] show ?thesis
    using assms(2) by (auto simp: resp_header_fmt_def f_def [abs_def])
qed

subsection \<open>New buffers\<close>

definition fresh_io :: "world \<Rightarrow> iobuf_ptr \<Rightarrow> bool" where
  "fresh_io w q \<longleftrightarrow> (case hp_cells (w_heap w) (ptr_addr q) of None \<Rightarrow> False | Some io \<Rightarrow> iobuf_ok io \<and>
     io_written io = [] \<and> io_rpos io = 0 \<and> io_size io = pl_size (w_pool w) \<and> iobuf_get_w_available io = pl_size (w_pool w))"

lemma acquire_fresh:
  assumes inv: "pool_inv (lent_state w lent)"
  obtains q w' where "acquire w = Inr (q, w')" "pool_inv (lent_state w' (q # lent))" "q \<notin> set lent"
    "fresh_io w' q" "pl_size (w_pool w') = pl_size (w_pool w)"
    "\<forall>r \<in> set lent. hp_cells (w_heap w') (ptr_addr r) = hp_cells (w_heap w) (ptr_addr r)"
proof -
  have ok: "pool_ok (w_heap w) (w_pool w)" using inv by (simp add: pool_inv_def lent_state_def)
  note pd = pool_okD [OF ok]
  obtain q h p c where acq: "iobufs_acquire (w_heap w) (w_pool w) = Inr (q, h, p)"
      "pl_size p = pl_size (w_pool w)" "hp_cells h = (hp_cells (w_heap w))(ptr_addr q \<mapsto> iobuf_init c (pl_size p))"
      "int (length (io_buff c)) = pl_size p"
  proof (cases "True \<in> set (pl_free (w_pool w))")
    case True
    show thesis by (rule acquire_pool [OF ok True]) (simp add: that)
  next
    case False
    show thesis using acquire_malloc [OF ok False] that pd(1) by (simp add: raw_iobuf_def)
  qed
  let ?w = "\<lparr>w_heap = h, w_pool = p\<rparr>"
  have io: "iobuf_ok (iobuf_init c (pl_size p))" using acq(2,4) pd(1,2) by (intro iobuf_ok_init) simp_all
  have inv': "pool_inv (lent_state ?w (q # lent))"
    using pool_step_inv [OF pool_step.acquire [of "lent_state w lent" q h p] inv] acq(1) by (simp add: lent_state_def)
  have nq: "q \<notin> set lent" using lent_distinct [OF inv'] by (simp add: lent_state_def)
  have "ptr_addr r \<noteq> ptr_addr q" if "r \<in> set lent" for r
    using lent_addr_inj [OF inv', of r q] that nq by auto
  then have "\<forall>r \<in> set lent. hp_cells h (ptr_addr r) = hp_cells (w_heap w) (ptr_addr r)" by (simp add: acq(3))
  moreover have "fresh_io ?w q"
    using io iobuf_available(1) [OF io] by (simp add: fresh_io_def acq(3)) (simp add: iobuf_init_def io_written_def)
  ultimately show thesis using that [of q ?w] acq(1,2) inv' nq by (simp add: acquire_def)
qed

lemma push_body_ok:
  assumes inv: "resp_inv w lent r"
  obtains q w' where "acquire w = Inr (q, w')" "resp_inv w' (q # lent) (push_body r q)"
    "header_text w' (push_body r q) = header_text w r" "body_text w' (push_body r q) = body_text w r"
    "back_room w' (rs_body (push_body r q)) = pl_size (w_pool w)" "pl_size (w_pool w') = pl_size (w_pool w)"
proof -
  have p: "pool_inv (lent_state w lent)" using inv by (simp add: resp_inv_def)
  obtain q w' where q: "acquire w = Inr (q, w')" "pool_inv (lent_state w' (q # lent))" "q \<notin> set lent"
    "fresh_io w' q" "pl_size (w_pool w') = pl_size (w_pool w)"
    "\<forall>r \<in> set lent. hp_cells (w_heap w') (ptr_addr r) = hp_cells (w_heap w) (ptr_addr r)"
    by (rule acquire_fresh [OF p])
  have sub: "set (rs_header r) \<subseteq> set lent" "set (rs_body r) \<subseteq> set lent"
    using inv by (auto simp: resp_inv_def resp_buffers_def)
  have same: "texts w' ps = texts w ps" if "set ps \<subseteq> set lent" for ps
    using that q(6) by (intro texts_cong) auto
  have "ptr_text w' q = []" using q(4) by (auto simp: fresh_io_def ptr_text_def split: option.splits)
  then have t: "header_text w' (push_body r q) = header_text w r" "body_text w' (push_body r q) = body_text w r"
    using same sub by (simp_all add: header_text_def body_text_def push_body_def)
  have cells: "cell_ok w' u" if "u \<in> set (resp_buffers r)" for u
  proof -
    have "u \<in> set lent" "cell_ok w u" using that inv by (auto simp: resp_inv_def)
    then show ?thesis using q(5,6) by (simp add: cell_ok_def split: option.splits)
  qed
  have "cell_ok w' q" using q(4) by (auto simp: fresh_io_def cell_ok_def split: option.splits)
  moreover have "q \<notin> set (resp_buffers r)" using sub q(3) by (auto simp: resp_buffers_def)
  ultimately have "resp_inv w' (q # lent) (push_body r q)"
    using inv q(2) cells by (auto simp: resp_inv_def resp_buffers_def push_body_def grow_def)
  moreover have "back_room w' (rs_body (push_body r q)) = pl_size (w_pool w)"
    using q(4,5) by (auto simp: fresh_io_def back_room_def push_body_def split: option.splits)
  ultimately show thesis using that q(1,5) t by blast
qed

lemma resp_make_ok:
  assumes inv: "pool_inv (lent_state w lent)"
  obtains w' r lent' where "resp_make w = Inr (w', r)" "resp_inv w' lent' r" "header_text w' r = []" "body_text w' r = []"
    "back_room w' (rs_header r) = pl_size (w_pool w)" "back_room w' (rs_body r) = pl_size (w_pool w)"
    "rs_status r = - 1" "rs_alive r = 1" "rs_iseom r = 0" "pl_size (w_pool w') = pl_size (w_pool w)"
    "lent' = rs_body r @ rs_header r @ lent" "others_same w lent [] w'"
proof -
  obtain q w1 where q: "acquire w = Inr (q, w1)" "pool_inv (lent_state w1 (q # lent))" "q \<notin> set lent"
    "fresh_io w1 q" "pl_size (w_pool w1) = pl_size (w_pool w)"
    "\<forall>r \<in> set lent. hp_cells (w_heap w1) (ptr_addr r) = hp_cells (w_heap w) (ptr_addr r)"
    by (rule acquire_fresh [OF inv])
  obtain b w2 where b: "acquire w1 = Inr (b, w2)" "pool_inv (lent_state w2 (b # q # lent))" "b \<notin> set (q # lent)"
    "fresh_io w2 b" "pl_size (w_pool w2) = pl_size (w_pool w1)"
    "\<forall>r \<in> set (q # lent). hp_cells (w_heap w2) (ptr_addr r) = hp_cells (w_heap w1) (ptr_addr r)"
    by (rule acquire_fresh [OF q(2)])
  let ?r = "\<lparr>rs_header = [q], rs_body = [b], rs_cap = 1, rs_status = - 1, rs_alive = 1, rs_iseom = 0\<rparr>"
  have f: "fresh_io w2 q" using q(4) b(5,6) by (simp add: fresh_io_def split: option.splits)
  have "resp_make w = Inr (w2, ?r)" using q(1) b(1) by (simp add: resp_make_def grow_def)
  moreover have "resp_inv w2 (b # q # lent) ?r"
    using b(2,3,4) f by (auto simp: resp_inv_def resp_buffers_def fresh_io_def cell_ok_def split: option.splits)
  moreover have "ptr_text w2 q = []" "ptr_text w2 b = []" "back_room w2 [q] = pl_size (w_pool w)" "back_room w2 [b] = pl_size (w_pool w)"
    using f b(4,5) q(5) by (auto simp: fresh_io_def ptr_text_def back_room_def split: option.splits)
  moreover have "others_same w lent [] w2" using b(6) q(6) by (simp add: others_same_def)
  ultimately show thesis using that [of w2 ?r] b(5) q(5) by (simp add: header_text_def body_text_def)
qed

subsection \<open>The body operations\<close>

lemma print_cut:
  assumes ok: "iobuf_ok io" and cut: "iobuf_get_w_available io \<le> int (length s)" "int (length s) < 2 ^ 31"
  obtains io' where "print_at io 0 s = Inr (io', int (length s))" "same_pos io io'" "iobuf_ok io'"
    "iobuf_get_w_available io = 0 \<or> pending io' (take (nat (iobuf_get_w_available io) - 1) s @ [CHR 0x00])"
proof -
  note av = iobuf_available(1) [OF ok]
  have b: "0 \<le> io_wpos io" "io_wpos io \<le> io_size io" "io_size io < 2 ^ 31" "int (length (io_buff io)) = io_size io"
    using ok by (auto simp: iobuf_ok_def)
  have c: "cint (iobuf_get_w_available io) = iobuf_get_w_available io" using b av by (intro cint_id) simp_all
  show thesis
  proof (cases "iobuf_get_w_available io = 0")
    case True
    then have "print_at io 0 s = Inr (io, int (length s))"
      using cut(2) c by (simp add: print_at_def snprintf_def snprintf_text_def size_of_int_nonneg int_max_def)
    then show thesis using that [of io] ok True by (simp add: same_pos_def)
  next
    case False
    define t where "t = take (nat (iobuf_get_w_available io) - 1) s @ [CHR 0x00]"
    define buf where "buf = overwrite (io_buff io) (nat (io_wpos io)) t"
    have pos: "0 < iobuf_get_w_available io" using False b av by simp
    have lt: "length t = nat (iobuf_get_w_available io)" using pos cut(1) by (simp add: t_def)
    have len: "nat (io_wpos io) + length t \<le> length (io_buff io)" unfolding lt using b av by simp
    have "snprintf (io_buff io) (io_wpos io) (iobuf_get_w_available io) s = Inr (buf, int (length s))"
      unfolding buf_def t_def using snprintf_cut [of "io_wpos io" "iobuf_get_w_available io" "io_buff io" s] b av pos cut by simp
    then have p: "print_at io 0 s = Inr (io\<lparr>io_buff := buf\<rparr>, int (length s))"
      using c by (simp add: print_at_def iobuf_get_w_buf_def)
    have lb: "length buf = length (io_buff io)" using len by (simp add: buf_def)
    have w: "take (nat (io_wpos io)) buf = io_written io"
      using len by (simp add: buf_def io_written_def take_overwrite_prefix)
    have "take (nat (io_wpos io) + length t) buf = io_written io @ t"
      unfolding buf_def io_written_def using len by (rule take_overwrite)
    then have "pending (io\<lparr>io_buff := buf\<rparr>) t"
      using ok lb w b av lt unfolding pending_def by (simp add: iobuf_ok_def io_written_def)
    then show thesis using that [OF p] w by (simp add: same_pos_def io_written_def pending_def t_def)
  qed
qed

lemma printf_fits:
  assumes "resp_inv w lent r" "int (length s) < back_room w (rs_body r)"
  shows "\<exists>w'. printf_loop w r s k = Inr (w', r, int (length s)) \<and> wrote_body w lent r s w'"
proof -
  let ?f = "\<lambda>io. rbind (print_at io 0 s) (\<lambda>(io1, k).
       if k > - 1 \<and> k \<le> iobuf_get_w_available io then Inr (fst (iobuf_set_w_len io1 k), (k, True))
       else Inr (io1, (k, False)))"
  have "\<exists>io'. ?f io = Inr (io', (int (length s), True)) \<and> appended io s io'"
    if "iobuf_ok io" "iobuf_get_w_available io = back_room w (rs_body r)" for io
    by (rule print_appended [OF that(1), of s]) (use assms(2) that(2) in auto)
  from body_write [OF assms(1) this] show ?thesis by (auto simp: printf_loop.simps)
qed

lemma printf_no_room:
  assumes "resp_inv w lent r" "back_room w (rs_body r) < int (length s)" "int (length s) < 2 ^ 31"
  shows "\<exists>w1. wrote_body w lent r [] w1 \<and> printf_loop w r s k = rbind (acquire w1) (\<lambda>(q, w2).
     if k + 1 < 2 then printf_loop w2 (push_body r q) s (k + 1) else Inr (w2, push_body r q, int (length s)))"
proof -
  let ?f = "\<lambda>io. rbind (print_at io 0 s) (\<lambda>(io1, k).
       if k > - 1 \<and> k \<le> iobuf_get_w_available io then Inr (fst (iobuf_set_w_len io1 k), (k, True))
       else Inr (io1, (k, False)))"
  have "\<exists>io'. ?f io = Inr (io', (int (length s), False)) \<and> appended io [] io'"
    if "iobuf_ok io" "iobuf_get_w_available io = back_room w (rs_body r)" for io
    by (rule print_cut [OF that(1), of s]) (use assms(2,3) that(2) in \<open>auto simp: appended_def same_pos_def\<close>)
  from body_write [OF assms(1) this] show ?thesis by (auto simp: printf_loop.simps [of w])
qed

lemma memcpy_appended:
  assumes ok: "iobuf_ok io" and le: "int (length src) \<le> iobuf_get_w_available io"
  obtains b io' where "memcpy (io_buff io) (iobuf_get_w_buf io) src = Inr b"
    "iobuf_set_w_len (io\<lparr>io_buff := b\<rparr>) (int (length src)) = (io', True)" "appended io src io'"
proof -
  note av = iobuf_available(1) [OF ok]
  have b: "0 \<le> io_wpos io" "io_wpos io \<le> io_size io" "int (length (io_buff io)) = io_size io"
    using ok by (auto simp: iobuf_ok_def)
  define buf where "buf = overwrite (io_buff io) (nat (io_wpos io)) src"
  have len: "nat (io_wpos io) + length src \<le> length (io_buff io)" using b av le by simp
  have m: "memcpy (io_buff io) (iobuf_get_w_buf io) src = Inr buf"
    using b av le by (simp add: memcpy_def iobuf_get_w_buf_def buf_def)
  have w: "take (nat (io_wpos io)) buf = io_written io"
    using len by (simp add: buf_def io_written_def take_overwrite_prefix)
  have "take (nat (io_wpos io) + length src) buf = io_written io @ src"
    unfolding buf_def io_written_def using len by (rule take_overwrite)
  then have p: "pending (io\<lparr>io_buff := buf\<rparr>) src"
    using ok len w av le by (simp add: pending_def iobuf_ok_def io_written_def buf_def)
  have "same_pos io (io\<lparr>io_buff := buf\<rparr>)" using w by (simp add: same_pos_def io_written_def)
  then show thesis using pending_appended [OF p] that [OF m] by blast
qed

lemma append_write_ok:
  assumes inv: "resp_inv w lent r" and le: "int (length src) \<le> back_room w (rs_body r)"
  shows "\<exists>w'. append_write w r (length (rs_body r) - 1) src = Inr w' \<and> wrote_body w lent r src w'"
proof -
  let ?f = "\<lambda>io. rbind (memcpy (io_buff io) (iobuf_get_w_buf io) src) (\<lambda>b.
     Inr (fst (iobuf_set_w_len (io\<lparr>io_buff := b\<rparr>) (int (length src))), ()))"
  have "\<exists>io'. ?f io = Inr (io', ()) \<and> appended io src io'"
    if "iobuf_ok io" "iobuf_get_w_available io = back_room w (rs_body r)" for io
    by (rule memcpy_appended [OF that(1), of src]) (use le that(2) in auto)
  from body_write [OF inv this] obtain w' where w': "with_back w (rs_body r) ?f = Inr (w', ())" "wrote_body w lent r src w'"
    by blast
  have "rs_body r \<noteq> []" using inv by (simp add: resp_inv_def)
  with w'(1) have "append_write w r (length (rs_body r) - 1) src = Inr w'"
    by (auto simp: append_write_def with_back_def last_conv_nth rbind_eq_Inr split: option.splits)
  with w'(2) show ?thesis by blast
qed

lemma append_fits:
  assumes inv: "resp_inv w lent r" and le: "int (length buf) \<le> back_room w (rs_body r)"
  shows "\<exists>w'. resp_append w r buf = Inr (w', r) \<and> wrote_body w lent r buf w'"
proof -
  have ne: "rs_body r \<noteq> []" and "cell_ok w (last (rs_body r))"
    using inv last_in_set by (auto simp: resp_inv_def resp_buffers_def)
  then obtain io where io: "hp_cells (w_heap w) (ptr_addr (last (rs_body r))) = Some io" "iobuf_ok io"
    by (auto simp: cell_ok_def split: option.splits)
  have room: "iobuf_get_w_available io = back_room w (rs_body r)" using io(1) by (simp add: back_room_def)
  let ?k = "length (rs_body r) - 1"
  show ?thesis
  proof (cases "buf = []")
    case True
    then show ?thesis using inv ne io by (simp add: resp_append_def append_loop.simps wrote_body_def)
  next
    case False
    obtain w' where w': "append_write w r ?k buf = Inr w'" "wrote_body w lent r buf w'"
      using append_write_ok [OF inv le] by blast
    have m: "min (nat (back_room w (rs_body r))) (length buf) = length buf" using le by simp
    have "append_loop w r ?k buf (back_room w (rs_body r)) = Inr (w', r)"
      using False le w'(1) m by (subst append_loop.simps) (simp add: append_loop.simps [of w'])
    then show ?thesis using ne io w'(2) room by (auto simp: resp_append_def)
  qed
qed

lemma delete_lent:
  assumes "pool_inv (lent_state w lent)" "q \<in> set lent"
  obtains h p where "iobuf_delete (w_heap w) (w_pool w) q = Inr (h, p)"
    "pool_inv (lent_state \<lparr>w_heap = h, w_pool = p\<rparr> (remove1 q lent))"
proof -
  obtain h p where d: "iobuf_delete (w_heap w) (w_pool w) q = Inr (h, p)"
    using delete_total [OF assms(1), of q] assms(2) by (auto simp: lent_state_def)
  moreover have "pool_inv (lent_state \<lparr>w_heap = h, w_pool = p\<rparr> (remove1 q lent))"
    using pool_inv_delete [OF assms(1), of q h p] assms(2) d by (simp add: lent_state_def)
  ultimately show thesis using that by blast
qed

text \<open>Dropping distinct lent pointers that nobody else holds returns all of them to the pool.\<close>

lemma drop_ptrs_ok:
  assumes "pool_inv (lent_state w lent)" "distinct qs" "set qs \<subseteq> set lent" "set qs \<inter> set keep = {}"
  shows "\<exists>w'. drop_ptrs w qs keep = Inr w' \<and> pool_inv (lent_state w' (filter (\<lambda>q. q \<notin> set qs) lent))"
  using assms
proof (induction qs arbitrary: w lent)
  case (Cons q qs)
  have q: "q \<in> set lent" using Cons.prems(3) by simp
  obtain h p where d: "iobuf_delete (w_heap w) (w_pool w) q = Inr (h, p)"
      "pool_inv (lent_state \<lparr>w_heap = h, w_pool = p\<rparr> (remove1 q lent))"
    by (rule delete_lent [OF Cons.prems(1) q])
  have rm: "remove1 q lent = filter (\<lambda>x. x \<noteq> q) lent"
    using lent_distinct [OF Cons.prems(1)] by (simp add: lent_state_def distinct_remove1_removeAll removeAll_filter_not_eq eq_commute)
  have "\<exists>w'. drop_ptrs \<lparr>w_heap = h, w_pool = p\<rparr> qs keep = Inr w' \<and>
      pool_inv (lent_state w' (filter (\<lambda>x. x \<notin> set qs) (remove1 q lent)))"
    using Cons.prems by (intro Cons.IH d(2)) (auto simp: rm)
  then show ?case using Cons.prems d(1) by (auto simp: rm conj_commute)
qed simp

lemma append_next_dangles:
  assumes inv: "resp_inv w lent r" and full: "\<not> length (rs_body r) < rs_cap r"
  shows "append_next w r (length (rs_body r) - 1) = Inl Dangling_reference"
proof -
  let ?k = "length (rs_body r) - 1" and ?l = "last (rs_body r)"
  have p: "pool_inv (lent_state w lent)" and ne: "rs_body r \<noteq> []" and d: "distinct (resp_buffers r)"
    and sub: "set (resp_buffers r) \<subseteq> set lent" using inv by (auto simp: resp_inv_def)
  obtain q w1 where q: "acquire w = Inr (q, w1)" "pool_inv (lent_state w1 (q # lent))" "q \<notin> set lent"
    by (rule acquire_fresh [OF p])
  have l: "rs_body r ! ?k = ?l" "?l \<in> set lent" using ne sub by (auto simp: last_conv_nth resp_buffers_def)
  have upd: "(rs_body r)[?k := q] = butlast (rs_body r) @ [q]"
    using ne by (metis append_butlast_last_id length_butlast list_update_length)
  have "?l \<notin> set (butlast (rs_body r))"
    using ne d by (metis append_butlast_last_id distinct_append disjoint_iff list.set_intros(1) resp_buffers_def)
  then have "set [?l] \<inter> set (rs_header r @ butlast (rs_body r) @ [q]) = {}"
    using resp_inv_disjoint(2) [OF inv] l(2) q(3) by auto
  moreover have "distinct [?l]" "set [?l] \<subseteq> set (q # lent)" using l(2) by simp_all
  ultimately obtain w2 where "drop_ptrs w1 [?l] (rs_header r @ butlast (rs_body r) @ [q]) = Inr w2"
    using drop_ptrs_ok [OF q(2)] by blast
  then show ?thesis using q(1) full l(1) upd by (simp add: append_next_def Let_def del: drop_ptrs.simps)
qed

lemma append_overflow:
  assumes inv: "resp_inv w lent r" and gt: "back_room w (rs_body r) < int (length buf)"
    and full: "\<not> length (rs_body r) < rs_cap r"
  shows "resp_append w r buf = Inl Dangling_reference"
proof -
  have ne: "rs_body r \<noteq> []" and "cell_ok w (last (rs_body r))"
    using inv last_in_set by (auto simp: resp_inv_def resp_buffers_def)
  then obtain io where io: "hp_cells (w_heap w) (ptr_addr (last (rs_body r))) = Some io" "iobuf_ok io"
    by (auto simp: cell_ok_def split: option.splits)
  have room: "iobuf_get_w_available io = back_room w (rs_body r)" "0 \<le> back_room w (rs_body r)"
    using io iobuf_available(1) [OF io(2)] by (simp_all add: back_room_def iobuf_ok_def)
  let ?n = "nat (back_room w (rs_body r))"
  obtain w1 where w1: "append_write w r (length (rs_body r) - 1) (take ?n buf) = Inr w1" "wrote_body w lent r (take ?n buf) w1"
    using append_write_ok [OF inv, of "take ?n buf"] room(2) gt by (auto simp: min_absorb2)
  have "append_next w1 r (length (rs_body r) - 1) = Inl Dangling_reference"
    using w1(2) full by (intro append_next_dangles) (auto simp: wrote_body_def)
  moreover have "min ?n (length buf) = ?n" "buf \<noteq> []" using gt room(2) by auto
  ultimately have "append_loop w r (length (rs_body r) - 1) buf (back_room w (rs_body r)) = Inl Dangling_reference"
    using gt room(2) w1(1) by (subst append_loop.simps) simp
  then show ?thesis using ne io room by (simp add: resp_append_def)
qed

lemma reset_ok:
  assumes inv: "resp_inv w lent r"
  shows "\<exists>w'. resp_reset w r = Inr (w', r\<lparr>rs_status := - 1, rs_alive := 1, rs_iseom := 0, rs_header := [], rs_body := []\<rparr>) \<and>
    pool_inv (lent_state w' (filter (\<lambda>q. q \<notin> set (resp_buffers r)) lent))"
proof -
  have p: "pool_inv (lent_state w lent)" and d: "distinct (rs_header r)" "distinct (rs_body r)"
      "set (rs_header r) \<inter> set (rs_body r) = {}" and sub: "set (rs_header r) \<subseteq> set lent" "set (rs_body r) \<subseteq> set lent"
    using inv by (auto simp: resp_inv_def resp_buffers_def)
  obtain w1 where 1: "drop_ptrs w (rs_header r) (rs_body r) = Inr w1"
      "pool_inv (lent_state w1 (filter (\<lambda>q. q \<notin> set (rs_header r)) lent))"
    using drop_ptrs_ok [OF p d(1) sub(1) d(3)] by blast
  obtain w2 where 2: "drop_ptrs w1 (rs_body r) [] = Inr w2"
      "pool_inv (lent_state w2 (filter (\<lambda>q. q \<notin> set (rs_body r)) (filter (\<lambda>q. q \<notin> set (rs_header r)) lent)))"
    using drop_ptrs_ok [OF 1(2) d(2), of "[]"] sub(2) d(3) by auto
  then show ?thesis using 1 by (simp add: resp_reset_def resp_buffers_def conj_commute)
qed

end
