(* ===== verification/Response_Props.thy ===== *)
theory Response_Props
  imports Response
begin

text \<open>
  Properties of the response writer: what a complete response looks like on the wire, and
  what each operation does when its text does not fit.
\<close>

subsection \<open>A world to start from\<close>

definition start_world :: "int \<Rightarrow> int \<Rightarrow> world" where
  "start_world n m = (let s = pool_start \<lparr>hp_brk = 4096, hp_cells = (\<lambda>_. None)\<rparr> n m
     in \<lparr>w_heap = ps_heap s, w_pool = ps_pool s\<rparr>)"

lemma start_world_inv:
  assumes "0 \<le> n" "n < 2 ^ 31" "0 \<le> m" "m < 2 ^ 31" "m mod 64 = 0"
  shows "pool_inv (lent_state (start_world n m) [])" "pl_size (w_pool (start_world n m)) = n"
proof -
  let ?s = "pool_start \<lparr>hp_brk = 4096, hp_cells = (\<lambda>_. None)\<rparr> n m"
  have "ps_lent ?s = []" "pl_size (ps_pool ?s) = n"
    by (simp_all add: pool_start_def iobufs_make_def malloc_def Let_def)
  moreover from this have "lent_state (start_world n m) [] = ?s"
    by (cases ?s) (simp add: start_world_def Let_def lent_state_def)
  ultimately show "pool_inv (lent_state (start_world n m) [])" "pl_size (w_pool (start_world n m)) = n"
    using pool_start_inv [OF assms, of "\<lparr>hp_brk = 4096, hp_cells = (\<lambda>_. None)\<rparr>"]
    by (simp_all add: start_world_def Let_def)
qed

lemma digit_chars: "digit_char 0 = CHR ''0''" "digit_char 1 = CHR ''1''" "digit_char 2 = CHR ''2''" "digit_char 3 = CHR ''3''"
  "digit_char 4 = CHR ''4''" "digit_char 5 = CHR ''5''" "digit_char 6 = CHR ''6''" "digit_char 7 = CHR ''7''"
  "digit_char 8 = CHR ''8''" "digit_char 9 = CHR ''9''" "digit_char (Suc 0) = CHR ''1''"
  by code_simp+

definition test_tm :: tm where
  "test_tm = \<lparr>tm_wday = 5, tm_mday = 30, tm_mon = 8, tm_year = 116, tm_hour = 9, tm_min = 5, tm_sec = 0\<rparr>"

lemma test_date: "date_text test_tm = Inr (''Date: Fri, 30 Sep 2016 09:05:00 GMT'' @ crlf)"
  by (simp add: date_text_def test_tm_def WEEK_DAY_def MONTH_def fmt_d_def fmt_02d_def dec.simps digit_chars
      cint_def Let_def crlf_def)

subsection \<open>A complete response\<close>

text \<open>C10: on a fresh response, \<open>status\<close>, \<open>content_type\<close>, \<open>keep_alive\<close>, \<open>header\<close>, \<open>printf\<close> and
  \<open>eom\<close> succeed whenever header and body each leave room for a NUL in one buffer, and the bytes
  of \<open>buffers()\<close> are the status line, the server and date lines, the three header lines, an empty
  line, and the body.\<close>

theorem response_complete:
  assumes "pool_inv (lent_state w lent)" "date_text t = Inr d" "code \<noteq> - 1"
    and "head = status_text code msg @ d @ content_type_text type charset @ keep_alive_text alive @
      (field @ '': '' @ val @ crlf) @ crlf"
    and "int (length head) < pl_size (w_pool w)" "int (length body) < pl_size (w_pool w)"
  shows "\<exists>w' r'. rbind (resp_make w) (\<lambda>(w, r).
      rbind (resp_status t w r code msg) (\<lambda>(w, r).
      rbind (resp_content_type w r type charset) (\<lambda>(w, r).
      rbind (resp_keep_alive w r alive) (\<lambda>(w, r).
      rbind (resp_header w r field val) (\<lambda>(w, r).
      rbind (resp_printf w r body) (\<lambda>(w, r, n).
      resp_eom w r)))))) = Inr (w', r') \<and>
    texts w' (resp_buffers r') = head @ body \<and> resp_get_status r' = code \<and>
    resp_is_keep_alive r' = alive \<and> resp_iseom r'"
proof -
  obtain w1 r lent' where 1: "resp_make w = Inr (w1, r)" "resp_inv w1 lent' r" "header_text w1 r = []" "body_text w1 r = []"
    "back_room w1 (rs_header r) = pl_size (w_pool w)" "back_room w1 (rs_body r) = pl_size (w_pool w)"
    by (rule resp_make_ok [OF assms(1)])
  let ?s = "status_text code msg @ d" and ?c = "content_type_text type charset" and ?k = "keep_alive_text alive"
    and ?h = "field @ '': '' @ val @ crlf"
  have inv_upd: "resp_inv w lent (r\<lparr>rs_status := x\<rparr>) = resp_inv w lent r"
    "resp_inv w lent (r\<lparr>rs_alive := x\<rparr>) = resp_inv w lent r" for w lent x and r :: http_response
    by (simp_all add: resp_inv_def resp_buffers_def)
  note len = assms(5) [unfolded assms(4)]
  obtain w2 where 2: "resp_status t w1 r code msg = Inr (w2, r\<lparr>rs_status := code\<rparr>)" "wrote_header w1 lent' r ?s w2"
    using resp_status_ok [OF 1(2) assms(2), of code msg] 1(5) len by auto
  let ?r = "r\<lparr>rs_status := code\<rparr>"
  obtain w3 where 3: "resp_content_type w2 ?r type charset = Inr (w3, ?r)" "wrote_header w2 lent' ?r ?c w3"
    using resp_content_type_ok [of w2 lent' ?r type charset] assms(3) 2(2) 1(5) len by (auto simp: wrote_header_def inv_upd)
  let ?r2 = "?r\<lparr>rs_alive := (if alive then 1 else 0)\<rparr>"
  obtain w4 where 4: "resp_keep_alive w3 ?r alive = Inr (w4, ?r2)" "wrote_header w3 lent' ?r ?k w4"
    using resp_keep_alive_ok [of w3 lent' ?r alive] assms(3) 2(2) 3(2) 1(5) len by (auto simp: wrote_header_def inv_upd)
  obtain w5 where 5: "resp_header w4 ?r2 field val = Inr (w5, ?r2)" "wrote_header w4 lent' ?r2 ?h w5"
    using resp_header_ok [of w4 lent' ?r2 field val] assms(3) 2(2) 3(2) 4(2) 1(5) len
    by (auto simp: wrote_header_def inv_upd)
  obtain w6 where 6: "resp_printf w5 ?r2 body = Inr (w6, ?r2, int (length body))" "wrote_body w5 lent' ?r2 body w6"
    using printf_fits [of w5 lent' ?r2 body 0] 2(2) 3(2) 4(2) 5(2) 1(6) assms(6)
    by (auto simp: wrote_header_def resp_printf_def)
  obtain w7 where 7: "resp_eom w6 ?r2 = Inr (w7, ?r2\<lparr>rs_iseom := 1\<rparr>)" "wrote_header w6 lent' ?r2 crlf w7"
    using resp_eom_ok [of w6 lent' ?r2] 2(2) 3(2) 4(2) 5(2) 6(2) 1(5) len by (auto simp: wrote_header_def wrote_body_def)
  show ?thesis
    using 1(1,3,4) 2 3 4 5 6 7 unfolding assms(4)
    by (auto simp: wrote_header_def wrote_body_def header_text_def body_text_def resp_buffers_def
        resp_get_status_def resp_is_keep_alive_def resp_iseom_def)
qed

theorem response_complete_witness:
  "\<exists>w' r'. rbind (resp_make (start_world 8192 16384)) (\<lambda>(w, r).
      rbind (resp_status test_tm w r 200 ''OK'') (\<lambda>(w, r).
      rbind (resp_content_type w r None (Some ''utf-8'')) (\<lambda>(w, r).
      rbind (resp_keep_alive w r True) (\<lambda>(w, r).
      rbind (resp_header w r ''Content-Length'' ''2'') (\<lambda>(w, r).
      rbind (resp_printf w r ''hi'') (\<lambda>(w, r, n).
      resp_eom w r)))))) = Inr (w', r') \<and>
    texts w' (resp_buffers r') = ''HTTP/1.1 200 OK'' @ crlf @ ''Server: cohttp/0.9.0'' @ crlf @
      ''Date: Fri, 30 Sep 2016 09:05:00 GMT'' @ crlf @ ''Content-Type: text/html; charset=utf-8'' @ crlf @
      ''Connection: keep-alive'' @ crlf @ ''Content-Length: 2'' @ crlf @ crlf @ ''hi''"
proof -
  have inv: "pool_inv (lent_state (start_world 8192 16384) [])" "pl_size (w_pool (start_world 8192 16384)) = 8192"
    by (rule start_world_inv; simp)+
  have "status_text 200 ''OK'' = ''HTTP/1.1 200 OK'' @ crlf @ ''Server: cohttp/0.9.0'' @ crlf"
    by (simp add: status_text_def fmt_d_def dec.simps digit_chars)
  then show ?thesis
    using response_complete [OF inv(1) test_date _ refl, of 200 "''OK''" None "Some ''utf-8''" True "''Content-Length''" "''2''" "''hi''"] inv(2)
    by (simp add: content_type_text_def keep_alive_text_def crlf_def) blast
qed

subsection \<open>One header line\<close>

lemma header_cut:
  assumes "resp_inv w lent r" "rs_status r \<noteq> - 1"
    and "int (length (field @ '': '' @ val @ crlf)) = back_room w (rs_header r)"
  shows "\<exists>w'. resp_header w r field val = Inr (w', r) \<and>
    wrote_header w lent r (butlast (field @ '': '' @ val @ crlf) @ [CHR 0x00]) w'"
proof -
  define s where "s = field @ '': '' @ val @ crlf"
  let ?f = "\<lambda>io. rbind (print_at io 0 s) (\<lambda>(io1, n).
       if n < 0 \<or> n > iobuf_get_w_available io then Inl (too_large [] (iobuf_get_w_available io) n)
       else Inr (fst (iobuf_set_w_len io1 n), ()))"
  have ne: "0 < length s" by (simp add: s_def)
  have "\<exists>io'. ?f io = Inr (io', ()) \<and> appended io (butlast s @ [CHR 0x00]) io'"
    if io: "iobuf_ok io" "iobuf_get_w_available io = back_room w (rs_header r)" for io
  proof -
    have av: "iobuf_get_w_available io = int (length s)" using assms(3) io(2) by (simp add: s_def)
    have "iobuf_get_w_available io < 2 ^ 31" using io(1) iobuf_available(1) [OF io(1)] by (auto simp: iobuf_ok_def)
    then obtain io1 where 1: "print_at io 0 s = Inr (io1, int (length s))" "same_pos io io1"
        "pending io1 (take (length s - 1) s @ [CHR 0x00])"
      using print_cut [OF io(1), of s] av ne by auto
    have bl: "take (length s - 1) s = butlast s" by (simp add: butlast_conv_take)
    obtain io2 where "iobuf_set_w_len io1 (int (length (butlast s @ [CHR 0x00]))) = (io2, True)"
        "appended io (butlast s @ [CHR 0x00]) io2"
      using pending_appended [OF 1(3) [unfolded bl] 1(2)] by blast
    then show ?thesis using 1(1) av ne by auto
  qed
  from header_write [OF assms(1) this] show ?thesis using assms(2) by (auto simp: resp_header_def s_def)
qed

lemma header_throws:
  assumes "resp_inv w lent r" "rs_status r \<noteq> - 1"
    and "int (length (field @ '': '' @ val @ crlf)) > back_room w (rs_header r)" "length (field @ '': '' @ val @ crlf) < 2 ^ 31"
  shows "resp_header w r field val =
    Inl (too_large [] (back_room w (rs_header r)) (int (length (field @ '': '' @ val @ crlf))))"
proof -
  define s where "s = field @ '': '' @ val @ crlf"
  have ne: "rs_header r \<noteq> []" "cell_ok w (last (rs_header r))"
    using assms(1) last_in_set by (auto simp: resp_inv_def resp_buffers_def)
  then obtain io where io: "hp_cells (w_heap w) (ptr_addr (last (rs_header r))) = Some io" "iobuf_ok io"
    by (auto simp: cell_ok_def split: option.splits)
  have av: "iobuf_get_w_available io = back_room w (rs_header r)" using io(1) by (simp add: back_room_def)
  obtain io1 where "print_at io 0 s = Inr (io1, int (length s))"
    using print_cut [OF io(2), of s] av assms(3,4) by (auto simp: s_def)
  then show ?thesis using ne(1) io(1) av assms(2,3) by (simp add: resp_header_def with_back_def s_def)
qed

text \<open>C38: \<open>header(field, value)\<close> throws when no status was set and when the line is longer than the
  room left in the buffer; it writes the line when it is shorter; and when the line is exactly as
  long as the room its last byte is lost: the buffer then ends with the NUL of \<open>snprintf\<close> instead
  of the line feed.\<close>

theorem response_header_line:
  assumes "resp_inv w lent r" "line = field @ '': '' @ val @ crlf" "length line < 2 ^ 31"
    and "room = back_room w (rs_header r)"
  shows "if rs_status r = - 1 then resp_header w r field val = Inl no_status
    else if int (length line) > room then resp_header w r field val = Inl (too_large [] room (int (length line)))
    else \<exists>w'. resp_header w r field val = Inr (w', r) \<and> resp_inv w' lent r \<and> body_text w' r = body_text w r \<and>
      header_text w' r = header_text w r @ (if int (length line) < room then line else butlast line @ [CHR 0x00])"
proof -
  consider (unset) "rs_status r = - 1" | (throws) "rs_status r \<noteq> - 1" "int (length line) > room"
    | (fits) "rs_status r \<noteq> - 1" "int (length line) < room" | (cut) "rs_status r \<noteq> - 1" "int (length line) = room"
    by linarith
  then show ?thesis
  proof cases
    case unset
    then show ?thesis by (simp add: resp_header_def)
  next
    case throws
    then show ?thesis using header_throws [OF assms(1)] assms(2-4) by simp
  next
    case fits
    then show ?thesis using resp_header_ok [OF assms(1)] assms(2,4) by (fastforce simp: wrote_header_def)
  next
    case cut
    then show ?thesis using header_cut [OF assms(1)] assms(2,4) by (fastforce simp: wrote_header_def)
  qed
qed

lemma fresh_response:
  assumes "0 < n" "n < 2 ^ 31"
  obtains w r lent where "resp_make (start_world n 64) = Inr (w, r)" "resp_inv w lent r" "rs_status r = - 1"
    "back_room w (rs_header r) = n" "back_room w (rs_body r) = n" "body_text w r = []" "pl_size (w_pool w) = n"
    "length (rs_body r) = 1" "rs_cap r = 1"
proof -
  have inv: "pool_inv (lent_state (start_world n 64) [])" "pl_size (w_pool (start_world n 64)) = n"
    using assms by (auto intro: start_world_inv)
  obtain w r lent where r: "resp_make (start_world n 64) = Inr (w, r)" "resp_inv w lent r" "rs_status r = - 1"
    "back_room w (rs_header r) = n" "back_room w (rs_body r) = n" "body_text w r = []" "pl_size (w_pool w) = n"
    by (rule resp_make_ok [OF inv(1)]) (use inv(2) in auto)
  have "length (rs_body r) = 1" "rs_cap r = 1"
    using r(1) by (auto simp: resp_make_def rbind_eq_Inr grow_def)
  with r show thesis using that by blast
qed

theorem response_header_line_witness:
  "\<exists>w r. resp_make (start_world 16 64) = Inr (w, r) \<and> resp_header w r ''X'' ''1'' = Inl no_status"
proof -
  obtain w r lent where r: "resp_make (start_world 16 64) = Inr (w, r)" "resp_inv w lent r" "rs_status r = - 1"
    by (rule fresh_response [of 16]) simp_all
  then show ?thesis using response_header_line [OF r(2) refl _ refl, of "''X''" "''1''"] by (auto simp: crlf_def)
qed

subsection \<open>The body\<close>

lemma printf_second:
  assumes inv: "resp_inv w lent r" and no: "back_room w (rs_body r) < int (length s)" "int (length s) < 2 ^ 31"
    and ne: "int (length s) \<noteq> pl_size (w_pool w)"
  shows "\<exists>w' r' lent'. resp_printf w r s = Inr (w', r', int (length s)) \<and> resp_inv w' lent' r' \<and>
    header_text w' r' = header_text w r \<and>
    body_text w' r' = body_text w r @ (if int (length s) < pl_size (w_pool w) then s else [])"
proof -
  obtain w1 where w1: "wrote_body w lent r [] w1" "printf_loop w r s 0 = rbind (acquire w1) (\<lambda>(q, w2).
     if 0 + 1 < (2::nat) then printf_loop w2 (push_body r q) s (0 + 1) else Inr (w2, push_body r q, int (length s)))"
    using printf_no_room [OF inv no] by blast
  have inv1: "resp_inv w1 lent r" and t1: "header_text w1 r = header_text w r" "body_text w1 r = body_text w r"
    using w1(1) by (auto simp: wrote_body_def)
  have sz1: "pl_size (w_pool w1) = pl_size (w_pool w)" using w1(1) by (simp add: wrote_body_def)
  obtain q w2 where q: "acquire w1 = Inr (q, w2)" "resp_inv w2 (q # lent) (push_body r q)"
    "header_text w2 (push_body r q) = header_text w1 r" "body_text w2 (push_body r q) = body_text w1 r"
    "back_room w2 (rs_body (push_body r q)) = pl_size (w_pool w1)"
    by (rule push_body_ok [OF inv1])
  have step: "resp_printf w r s = printf_loop w2 (push_body r q) s 1"
    using w1(2) q(1) by (simp add: resp_printf_def)
  show ?thesis
  proof (cases "int (length s) < pl_size (w_pool w)")
    case True
    then show ?thesis
      using printf_fits [OF q(2), of s 1] q(3-5) t1 sz1 step by (fastforce simp: wrote_body_def)
  next
    case False
    then have "back_room w2 (rs_body (push_body r q)) < int (length s)" using ne q(5) sz1 by simp
    then obtain w3 where w3: "wrote_body w2 (q # lent) (push_body r q) [] w3"
        "printf_loop w2 (push_body r q) s 1 = rbind (acquire w3) (\<lambda>(u, w4). Inr (w4, push_body (push_body r q) u, int (length s)))"
      using printf_no_room [OF q(2) _ no(2), of 1] by auto
    have inv3: "resp_inv w3 (q # lent) (push_body r q)" using w3(1) by (simp add: wrote_body_def)
    obtain u w4 where u: "acquire w3 = Inr (u, w4)" "resp_inv w4 (u # q # lent) (push_body (push_body r q) u)"
      "header_text w4 (push_body (push_body r q) u) = header_text w3 (push_body r q)"
      "body_text w4 (push_body (push_body r q) u) = body_text w3 (push_body r q)"
      by (rule push_body_ok [OF inv3])
    show ?thesis
      using step w3 u q(3,4) t1 False by (auto simp: wrote_body_def intro!: exI [of _ "u # q # lent"])
  qed
qed

text \<open>\<open>printf\<close> returns the length of the formatted text. It appends the text to the body when
  it is shorter than the room left, or, in a fresh buffer, when it is shorter than a buffer; a
  longer text is dropped although its length is returned. Nothing else of the response changes.\<close>

theorem response_printf:
  assumes "resp_inv w lent r" "length s < 2 ^ 31"
    and "int (length s) \<noteq> back_room w (rs_body r)" "int (length s) \<noteq> pl_size (w_pool w)"
  shows "\<exists>w' r' lent'. resp_printf w r s = Inr (w', r', int (length s)) \<and> resp_inv w' lent' r' \<and>
    header_text w' r' = header_text w r \<and>
    body_text w' r' = body_text w r @
      (if int (length s) < back_room w (rs_body r) \<or> int (length s) < pl_size (w_pool w) then s else [])"
proof (cases "int (length s) < back_room w (rs_body r)")
  case True
  then show ?thesis
    using printf_fits [OF assms(1) True, of 0] by (fastforce simp: resp_printf_def wrote_body_def)
next
  case False
  then show ?thesis using printf_second [OF assms(1), of s] assms(2-4) by auto
qed

theorem response_printf_witness:
  "\<exists>w r w' r'. resp_make (start_world 4 64) = Inr (w, r) \<and> resp_printf w r ''hello'' = Inr (w', r', 5) \<and>
     body_text w' r' = []"
proof -
  obtain w r lent where r: "resp_make (start_world 4 64) = Inr (w, r)" "resp_inv w lent r" "rs_status r = - 1"
    "back_room w (rs_header r) = 4" "back_room w (rs_body r) = 4" "body_text w r = []" "pl_size (w_pool w) = 4"
    by (rule fresh_response [of 4]) simp_all
  have "\<exists>w' r' lent'. resp_printf w r ''hello'' = Inr (w', r', int (length ''hello'')) \<and> resp_inv w' lent' r' \<and>
    header_text w' r' = header_text w r \<and> body_text w' r' = body_text w r @
      (if int (length ''hello'') < back_room w (rs_body r) \<or> int (length ''hello'') < pl_size (w_pool w) then ''hello'' else [])"
    by (rule response_printf [OF r(2)]) (simp_all add: r)
  then show ?thesis using r by auto
qed

text \<open>When the text of \<open>printf\<close> is exactly as long as the room left, its last byte is replaced
  by the NUL of \<open>vsnprintf\<close>, because the code accepts a result equal to the limit.\<close>

theorem response_printf_exact:
  assumes "resp_inv w lent r" "int (length s) = back_room w (rs_body r)" "s \<noteq> []"
  shows "\<exists>w'. resp_printf w r s = Inr (w', r, int (length s)) \<and> resp_inv w' lent r \<and>
    body_text w' r = body_text w r @ butlast s @ [CHR 0x00]"
proof -
  let ?f = "\<lambda>io. rbind (print_at io 0 s) (\<lambda>(io1, k).
       if k > - 1 \<and> k \<le> iobuf_get_w_available io then Inr (fst (iobuf_set_w_len io1 k), (k, True))
       else Inr (io1, (k, False)))"
  have ne: "0 < length s" using assms(3) by simp
  have "\<exists>io'. ?f io = Inr (io', (int (length s), True)) \<and> appended io (butlast s @ [CHR 0x00]) io'"
    if io: "iobuf_ok io" "iobuf_get_w_available io = back_room w (rs_body r)" for io
  proof -
    have av: "iobuf_get_w_available io = int (length s)" using assms(2) io(2) by simp
    have "iobuf_get_w_available io < 2 ^ 31" using io(1) iobuf_available(1) [OF io(1)] by (auto simp: iobuf_ok_def)
    then obtain io1 where 1: "print_at io 0 s = Inr (io1, int (length s))" "same_pos io io1"
        "pending io1 (take (length s - 1) s @ [CHR 0x00])"
      using print_cut [OF io(1), of s] av ne by auto
    have bl: "take (length s - 1) s = butlast s" by (simp add: butlast_conv_take)
    obtain io2 where "iobuf_set_w_len io1 (int (length (butlast s @ [CHR 0x00]))) = (io2, True)"
        "appended io (butlast s @ [CHR 0x00]) io2"
      using pending_appended [OF 1(3) [unfolded bl] 1(2)] by blast
    then show ?thesis using 1(1) av ne by auto
  qed
  from body_write [OF assms(1) this] show ?thesis by (auto simp: resp_printf_def printf_loop.simps wrote_body_def)
qed

theorem response_printf_exact_witness:
  "\<exists>w r w'. resp_make (start_world 5 64) = Inr (w, r) \<and> resp_printf w r ''hello'' = Inr (w', r, 5) \<and>
     body_text w' r = ''hell'' @ [CHR 0x00]"
proof -
  obtain w r lent where r: "resp_make (start_world 5 64) = Inr (w, r)" "resp_inv w lent r" "rs_status r = - 1"
    "back_room w (rs_header r) = 5" "back_room w (rs_body r) = 5" "body_text w r = []" "pl_size (w_pool w) = 5"
    by (rule fresh_response [of 5]) simp_all
  have "\<exists>w'. resp_printf w r ''hello'' = Inr (w', r, int (length ''hello'')) \<and> resp_inv w' lent r \<and>
    body_text w' r = body_text w r @ butlast ''hello'' @ [CHR 0x00]"
    by (rule response_printf_exact [OF r(2)]) (simp_all add: r)
  then show ?thesis using r by auto
qed

text \<open>\<open>append\<close> copies a block that fits the last buffer of the body. For a longer block it
  fills that buffer, acquires another, and then, when the vector of buffers is full (as it is on a
  fresh response), uses the reference to its last element after \<open>push_back\<close> has moved it.\<close>

theorem response_append:
  assumes "resp_inv w lent r"
  shows "(if int (length buf) \<le> back_room w (rs_body r)
     then \<exists>w'. resp_append w r buf = Inr (w', r) \<and> resp_inv w' lent r \<and>
       body_text w' r = body_text w r @ buf \<and> header_text w' r = header_text w r
     else rs_cap r \<le> length (rs_body r) \<longrightarrow> resp_append w r buf = Inl Dangling_reference)"
  using append_fits [OF assms, of buf] append_overflow [OF assms, of buf] by (auto simp: wrote_body_def)

theorem response_append_witness:
  "\<exists>w r. resp_make (start_world 4 64) = Inr (w, r) \<and> resp_append w r ''hello'' = Inl Dangling_reference"
proof -
  obtain w r lent where r: "resp_make (start_world 4 64) = Inr (w, r)" "resp_inv w lent r" "rs_status r = - 1"
    "back_room w (rs_header r) = 4" "back_room w (rs_body r) = 4" "body_text w r = []" "pl_size (w_pool w) = 4"
    "length (rs_body r) = 1" "rs_cap r = 1"
    by (rule fresh_response [of 4]) simp_all
  then show ?thesis using response_append [OF r(2), of "''hello''"] by auto
qed

text \<open>\<open>reset\<close> returns every buffer of the response to the pool and sets the flags back, but it
  leaves the response without any buffer: the next \<open>status\<close> or \<open>printf\<close> calls \<open>back()\<close> on an empty
  vector.\<close>

theorem response_reset:
  assumes "resp_inv w lent r"
  shows "\<exists>w' r'. resp_reset w r = Inr (w', r') \<and>
    pool_inv (lent_state w' (filter (\<lambda>q. q \<notin> set (resp_buffers r)) lent)) \<and>
    resp_get_status r' = - 1 \<and> resp_is_keep_alive r' \<and> \<not> resp_iseom r' \<and> resp_buffers r' = [] \<and>
    resp_status t w' r' code msg = Inl Empty_back \<and> resp_printf w' r' s = Inl Empty_back"
proof -
  let ?r = "r\<lparr>rs_status := - 1, rs_alive := 1, rs_iseom := 0, rs_header := [], rs_body := []\<rparr>"
  obtain w' where w': "resp_reset w r = Inr (w', ?r)"
      "pool_inv (lent_state w' (filter (\<lambda>q. q \<notin> set (resp_buffers r)) lent))"
    using reset_ok [OF assms] by blast
  have "resp_status t w' ?r code msg = Inl Empty_back" "resp_printf w' ?r s = Inl Empty_back"
    by (simp_all add: resp_status_def with_back_def resp_printf_def printf_loop.simps)
  with w' show ?thesis
    by (intro exI [of _ w'] exI [of _ ?r])
      (simp add: resp_get_status_def resp_is_keep_alive_def resp_iseom_def resp_buffers_def)
qed

theorem response_reset_witness:
  "\<exists>w r w' r'. resp_make (start_world 16 64) = Inr (w, r) \<and> resp_reset w r = Inr (w', r') \<and>
     resp_printf w' r' ''x'' = Inl Empty_back"
proof -
  obtain w r lent where r: "resp_make (start_world 16 64) = Inr (w, r)" "resp_inv w lent r"
    by (rule fresh_response [of 16]) simp_all
  then show ?thesis using response_reset [OF r(2), of test_tm 200 "''OK''" "''x''"] by blast
qed

end
