(* ===== verification/Request.thy ===== *)
theory Request
  imports Slice "HOL-Library.Char_ord" "HOL-Library.Multiset"
begin

text \<open>
  The request record of \<^verbatim>\<open>src/src/request.hpp\<close> and \<^verbatim>\<open>src/src/request.cpp\<close>: its accessors,
  \<open>reset\<close>, the sorting of the header fields and the binary search by field name.

  The state of the HTTP parser (a library outside the repository) is the type parameter \<open>'p\<close>;
  the functions the code calls on it are the fields of \<open>http_parser_api\<close>, an argument of the
  operations. \<open>std::sort\<close> is an argument too, since it may order equal names in any way; its
  contract is the locale \<open>sort_by_name\<close>. Strings are compared bytewise, which is the
  lexicographic order of lists of characters.
\<close>

subsection \<open>The parser library\<close>

datatype http_errno = HPE_OK | HPE_CB_headers_complete | HPE_CB_message_complete | HPE_other nat

datatype http_method = HTTP_GET | HTTP_POST | HTTP_CONNECT | HTTP_other nat

datatype url_field = UF_SCHEMA | UF_HOST | UF_PORT | UF_PATH | UF_QUERY | UF_FRAGMENT | UF_USERINFO

record http_parser_url =
  hpu_field_set :: "url_field \<Rightarrow> bool"
  hpu_field_data :: "url_field \<Rightarrow> nat \<times> nat"
  hpu_port :: nat

record 'p http_parser_api =
  hp_init :: 'p
  hp_major :: "'p \<Rightarrow> nat"
  hp_minor :: "'p \<Rightarrow> nat"
  hp_method :: "'p \<Rightarrow> http_method"
  hp_errno :: "'p \<Rightarrow> http_errno"
  hp_set_errno :: "'p \<Rightarrow> http_errno \<Rightarrow> 'p"
  hp_should_keep_alive :: "'p \<Rightarrow> int"
  hp_parse_url :: "string \<Rightarrow> bool \<Rightarrow> http_parser_url"

subsection \<open>State\<close>

record parsed_url =
  pu_nport :: nat
  pu_schema :: slice
  pu_host :: slice
  pu_port :: slice
  pu_path :: slice
  pu_query :: slice
  pu_frag :: slice
  pu_user :: slice

text \<open>\<open>memset(&decurl_, 0, sizeof(decurl_))\<close>: every slice becomes the null slice.\<close>

definition url_zero :: parsed_url where
  "url_zero = \<lparr>pu_nport = 0, pu_schema = slice_default, pu_host = slice_default, pu_port = slice_default,
     pu_path = slice_default, pu_query = slice_default, pu_frag = slice_default, pu_user = slice_default\<rparr>"

type_synonym fields_t = "(string \<times> string) list"

text \<open>The address of the bytes of \<open>strurl_\<close> is \<open>rq_urldata\<close>.\<close>

record 'p http_request =
  rq_parsed :: 'p
  rq_strurl :: string
  rq_urldata :: nat
  rq_decurl :: parsed_url
  rq_fields :: fields_t
  rq_bodybf :: "slice list"
  rq_bodysz :: int
  rq_headers_completed :: bool
  rq_message_completed :: bool
  rq_state_field_value :: bool

definition req_make :: "'p http_parser_api \<Rightarrow> nat \<Rightarrow> 'p http_request" where
  "req_make api a = \<lparr>rq_parsed = hp_init api, rq_strurl = [], rq_urldata = a, rq_decurl = url_zero, rq_fields = [],
     rq_bodybf = [], rq_bodysz = 0, rq_headers_completed = False, rq_message_completed = False,
     rq_state_field_value = True\<rparr>"

definition req_reset :: "'p http_request \<Rightarrow> 'p http_request" where
  "req_reset r = r\<lparr>rq_headers_completed := False, rq_message_completed := False, rq_state_field_value := True,
     rq_strurl := [], rq_decurl := url_zero, rq_fields := [], rq_bodybf := [], rq_bodysz := 0\<rparr>"

definition req_surl :: "'p http_request \<Rightarrow> string" where
  "req_surl r = c_str (rq_strurl r)"

definition req_url :: "'p http_request \<Rightarrow> parsed_url" where
  "req_url r = rq_decurl r"

definition req_major :: "'p http_parser_api \<Rightarrow> 'p http_request \<Rightarrow> nat" where
  "req_major api r = hp_major api (rq_parsed r)"

definition req_minor :: "'p http_parser_api \<Rightarrow> 'p http_request \<Rightarrow> nat" where
  "req_minor api r = hp_minor api (rq_parsed r)"

definition req_method :: "'p http_parser_api \<Rightarrow> 'p http_request \<Rightarrow> http_method" where
  "req_method api r = hp_method api (rq_parsed r)"

definition req_keep_alive :: "'p http_parser_api \<Rightarrow> 'p http_request \<Rightarrow> bool" where
  "req_keep_alive api r \<longleftrightarrow> hp_should_keep_alive api (rq_parsed r) \<noteq> 0"

definition req_error :: "'p http_parser_api \<Rightarrow> 'p http_request \<Rightarrow> http_errno" where
  "req_error api r = hp_errno api (rq_parsed r)"

definition req_nfields :: "'p http_request \<Rightarrow> nat" where
  "req_nfields r = length (rq_fields r)"

definition req_bodysz :: "'p http_request \<Rightarrow> int" where
  "req_bodysz r = rq_bodysz r"

definition headers_completed :: "'p http_request \<Rightarrow> bool" where
  "headers_completed r = rq_headers_completed r"

definition message_completed :: "'p http_request \<Rightarrow> bool" where
  "message_completed r = rq_message_completed r"

subsection \<open>Header fields\<close>

definition string_pair_less :: "string \<times> string \<Rightarrow> string \<times> string \<Rightarrow> bool" where
  "string_pair_less a b \<longleftrightarrow> fst a < fst b"

definition sorthdr :: "(fields_t \<Rightarrow> fields_t) \<Rightarrow> 'p http_request \<Rightarrow> 'p http_request" where
  "sorthdr std_sort r = r\<lparr>rq_fields := std_sort (rq_fields r)\<rparr>"

definition req_field_at :: "'p http_request \<Rightarrow> nat \<Rightarrow> (string \<times> string) option" where
  "req_field_at r index = (if index \<ge> length (rq_fields r) then None else Some (rq_fields r ! index))"

text \<open>\<open>std::lower_bound\<close>: a binary search that halves the range \<open>[first, first + len)\<close>.\<close>

function lower_bound :: "('a \<Rightarrow> 'a \<Rightarrow> bool) \<Rightarrow> 'a list \<Rightarrow> 'a \<Rightarrow> nat \<Rightarrow> nat \<Rightarrow> nat" where
  "lower_bound cmp xs key first len = (if len = 0 then first
     else let half = len div 2 in
       if cmp (xs ! (first + half)) key then lower_bound cmp xs key (first + half + 1) (len - half - 1)
       else lower_bound cmp xs key first half)"
  by pat_completeness auto
termination
  by (relation "measure (\<lambda>(cmp, xs, key, first, len). len)") auto

declare lower_bound.simps [simp del]

definition req_field :: "'p http_request \<Rightarrow> string \<Rightarrow> string option" where
  "req_field r field = (let key = (field, []);
       it = lower_bound string_pair_less (rq_fields r) key 0 (length (rq_fields r)) in
     if it = length (rq_fields r) \<or> fst (rq_fields r ! it) \<noteq> fst key then None
     else Some (snd (rq_fields r ! it)))"

subsection \<open>Binary search\<close>

lemma lower_bound_step:
  "0 < len \<Longrightarrow> lower_bound cmp xs key first len = (if cmp (xs ! (first + len div 2)) key
     then lower_bound cmp xs key (first + len div 2 + 1) (len - len div 2 - 1)
     else lower_bound cmp xs key first (len div 2))"
  by (subst lower_bound.simps) (simp add: Let_def)

lemma lower_bound_spec:
  assumes "\<forall>i j. i \<le> j \<and> j < length xs \<and> cmp (xs ! j) key \<longrightarrow> cmp (xs ! i) key"
    and "first + len \<le> length xs" "\<forall>i < first. cmp (xs ! i) key"
    and "\<forall>i. first + len \<le> i \<and> i < length xs \<longrightarrow> \<not> cmp (xs ! i) key"
  shows "lower_bound cmp xs key first len \<le> length xs \<and>
    (\<forall>i < length xs. cmp (xs ! i) key \<longleftrightarrow> i < lower_bound cmp xs key first len)"
  using assms(2-)
proof (induction len arbitrary: first rule: less_induct)
  case (less len)
  let ?m = "first + len div 2"
  show ?case
  proof (cases "len = 0")
    case True
    then show ?thesis using less.prems by (simp add: lower_bound.simps) (meson not_le)
  next
    case False
    then have m: "0 < len" "?m < length xs" using less.prems(1) by auto
    show ?thesis
    proof (cases "cmp (xs ! ?m) key")
      case True
      then have low: "\<forall>i < ?m + 1. cmp (xs ! i) key" using assms(1) m(2) by (auto simp: less_Suc_eq_le)
      have len: "len - len div 2 - 1 < len" "?m + 1 + (len - len div 2 - 1) = first + len" using m(1) by auto
      have step: "lower_bound cmp xs key first len = lower_bound cmp xs key (?m + 1) (len - len div 2 - 1)"
        using lower_bound_step [OF m(1), of cmp xs key first] True by simp
      show ?thesis unfolding step by (rule less.IH [OF len(1)]) (use low len(2) less.prems in auto)
    next
      case no: False
      then have high: "\<forall>i. ?m \<le> i \<and> i < length xs \<longrightarrow> \<not> cmp (xs ! i) key" using assms(1) by blast
      have step: "lower_bound cmp xs key first len = lower_bound cmp xs key first (len div 2)"
        using lower_bound_step [OF m(1), of cmp xs key first] no by simp
      show ?thesis unfolding step by (rule less.IH) (use high m less.prems in auto)
    qed
  qed
qed

text \<open>What the lookups need of \<open>std::sort\<close>.\<close>

locale sort_by_name =
  fixes std_sort :: "fields_t \<Rightarrow> fields_t"
  assumes perm: "mset (std_sort xs) = mset xs"
    and sorted: "sorted (map fst (std_sort xs))"
begin

lemma lookup_sorted:
  assumes "rq_fields r = std_sort xs"
  shows "req_field r k = (if k \<in> fst ` set xs then
      Some (snd (hd (filter (\<lambda>f. fst f = k) (std_sort xs)))) else None)"
proof -
  let ?ys = "std_sort xs"
  define it where "it = lower_bound string_pair_less ?ys (k, []) 0 (length ?ys)"
  have mono: "fst (?ys ! i) \<le> fst (?ys ! j)" if "i \<le> j" "j < length ?ys" for i j
    using sorted_nth_mono [OF sorted, of i j xs] that by simp
  have less: "string_pair_less (?ys ! i) (k, []) \<longleftrightarrow> fst (?ys ! i) < k" for i by (simp add: string_pair_less_def)
  have "\<forall>i j. i \<le> j \<and> j < length ?ys \<and> string_pair_less (?ys ! j) (k, []) \<longrightarrow> string_pair_less (?ys ! i) (k, [])"
    unfolding less using mono le_less_trans by blast
  then have "it \<le> length ?ys \<and> (\<forall>i < length ?ys. string_pair_less (?ys ! i) (k, []) \<longleftrightarrow> i < it)"
    unfolding it_def by (rule lower_bound_spec) auto
  then have spec: "it \<le> length ?ys" "\<And>i. i < length ?ys \<Longrightarrow> fst (?ys ! i) < k \<longleftrightarrow> i < it"
    by (simp_all add: less)
  have eq: "req_field r k = (if it = length ?ys \<or> fst (?ys ! it) \<noteq> k then None else Some (snd (?ys ! it)))"
    by (simp add: req_field_def assms it_def Let_def)
  have set: "set ?ys = set xs" using perm [of xs] by (metis set_mset_mset)
  show ?thesis
  proof (cases "it < length ?ys \<and> fst (?ys ! it) = k")
    case True
    have "\<not> fst f = k" if "f \<in> set (take it ?ys)" for f
      using that spec(2) True by (auto simp: in_set_conv_nth) (metis less_irrefl less_trans)
    then have "filter (\<lambda>f. fst f = k) ?ys = ?ys ! it # filter (\<lambda>f. fst f = k) (drop (Suc it) ?ys)"
      using True by (subst id_take_nth_drop [of it ?ys]) (simp_all add: filter_empty_conv)
    moreover have "k \<in> fst ` set xs" using True set nth_mem by force
    ultimately show ?thesis using True eq by simp
  next
    case False
    have "k \<notin> fst ` set ?ys"
    proof
      assume "k \<in> fst ` set ?ys"
      then obtain j where j: "j < length ?ys" "fst (?ys ! j) = k" by (auto simp: in_set_conv_nth)
      then have "it \<le> j" using spec(2) [of j] by auto
      moreover have "\<not> fst (?ys ! it) < k" using spec(2) [of it] j calculation by auto
      ultimately show False using False mono [of it j] j by auto
    qed
    then show ?thesis using False eq spec(1) set by auto
  qed
qed

lemma lookup_unique:
  assumes "rq_fields r = std_sort xs" "distinct (map fst xs)"
  shows "req_field r k = map_of xs k"
proof -
  let ?ys = "std_sort xs"
  have set: "set ?ys = set xs" using perm [of xs] by (metis set_mset_mset)
  show ?thesis
  proof (cases "k \<in> fst ` set xs")
    case True
    then obtain v where v: "(k, v) \<in> set xs" by auto
    have "filter (\<lambda>f. fst f = k) ?ys \<noteq> []" using v set by (force simp: filter_empty_conv)
    then have "hd (filter (\<lambda>f. fst f = k) ?ys) \<in> set xs" "fst (hd (filter (\<lambda>f. fst f = k) ?ys)) = k"
      using hd_in_set set by fastforce+
    then have "hd (filter (\<lambda>f. fst f = k) ?ys) = (k, v)"
      using assms(2) v by (metis eq_key_imp_eq_value prod.collapse)
    then show ?thesis using lookup_sorted [OF assms(1)] True map_of_is_SomeI [OF assms(2) v] by simp
  next
    case False
    then show ?thesis using lookup_sorted [OF assms(1)] by (simp add: map_of_eq_None_iff [symmetric])
  qed
qed

end

text \<open>A stable sort by name satisfies the contract.\<close>

definition stable_sort :: "fields_t \<Rightarrow> fields_t" where
  "stable_sort xs = sort_key fst xs"

interpretation stable: sort_by_name stable_sort
  by unfold_locales (simp_all add: stable_sort_def)

subsection \<open>Properties\<close>

text \<open>C17: after \<open>sorthdr\<close> with any correct \<open>std::sort\<close>, \<open>operator[](field)\<close> returns a null pointer
  exactly for the names that are not among the fields; for a name that occurs it returns the value
  of a field with that very name (upper and lower case are different); and when no name occurs
  twice the lookup is the lookup of the original list.\<close>

theorem request_field_lookup:
  assumes "\<And>xs. mset (std_sort xs) = mset xs" "\<And>xs. sorted (map fst (std_sort xs))"
  shows "(case req_field (sorthdr std_sort r) k of
      None \<Rightarrow> k \<notin> fst ` set (rq_fields r)
    | Some v \<Rightarrow> (k, v) \<in> set (rq_fields r)) \<and>
    (distinct (map fst (rq_fields r)) \<longrightarrow> req_field (sorthdr std_sort r) k = map_of (rq_fields r) k)"
proof -
  have loc: "sort_by_name std_sort" by (rule sort_by_name.intro [OF assms])
  let ?ys = "std_sort (rq_fields r)"
  have f: "rq_fields (sorthdr std_sort r) = ?ys" by (simp add: sorthdr_def)
  note look = sort_by_name.lookup_sorted [OF loc f, of k]
  have set: "set ?ys = set (rq_fields r)" using assms(1) by (metis set_mset_mset)
  have "case req_field (sorthdr std_sort r) k of None \<Rightarrow> k \<notin> fst ` set (rq_fields r) | Some v \<Rightarrow> (k, v) \<in> set (rq_fields r)"
  proof (cases "k \<in> fst ` set (rq_fields r)")
    case True
    then have "filter (\<lambda>f. fst f = k) ?ys \<noteq> []" using set by (force simp: filter_empty_conv)
    then have "hd (filter (\<lambda>f. fst f = k) ?ys) \<in> {f \<in> set ?ys. fst f = k}" using hd_in_set by fastforce
    then have "(k, snd (hd (filter (\<lambda>f. fst f = k) ?ys))) \<in> set (rq_fields r)"
      unfolding set by (metis (mono_tags, lifting) mem_Collect_eq prod.collapse)
    then show ?thesis using True look by simp
  next
    case False
    then show ?thesis using look by simp
  qed
  then show ?thesis using sort_by_name.lookup_unique [OF loc f] by blast
qed

definition sample_api :: "http_errno http_parser_api" where
  "sample_api = \<lparr>hp_init = HPE_OK, hp_major = (\<lambda>_. 1), hp_minor = (\<lambda>_. 1), hp_method = (\<lambda>_. HTTP_GET),
     hp_errno = (\<lambda>p. p), hp_set_errno = (\<lambda>_ e. e), hp_should_keep_alive = (\<lambda>_. 1),
     hp_parse_url = (\<lambda>url _. \<lparr>hpu_field_set = (\<lambda>f. f = UF_PATH), hpu_field_data = (\<lambda>_. (0, length url)), hpu_port = 0\<rparr>)\<rparr>"

definition sample_request :: "http_errno http_request" where
  "sample_request = (req_make sample_api 0)\<lparr>rq_fields := [(''Host'', ''a''), (''Accept'', ''b'')]\<rparr>"

theorem request_field_lookup_witness:
  "req_field (sorthdr stable_sort sample_request) ''Host'' = Some ''a'' \<and>
   req_field (sorthdr stable_sort sample_request) ''host'' = None"
  using request_field_lookup [where std_sort = stable_sort and r = sample_request and k = "''Host''", OF stable.perm stable.sorted]
    request_field_lookup [where std_sort = stable_sort and r = sample_request and k = "''host''", OF stable.perm stable.sorted]
  by (simp add: sample_request_def)

end
