(* ===== verification/Modules.thy ===== *)
theory Modules
  imports Response_Props Request
begin

text \<open>
  The handlers (\<^verbatim>\<open>src/src/handler.hpp\<close>), their registry (\<^verbatim>\<open>src/src/modules.hpp\<close>,
  \<^verbatim>\<open>src/src/modules.cpp\<close>) and the two sample modules (\<^verbatim>\<open>src/src/modules/default.cpp\<close>,
  \<^verbatim>\<open>src/src/modules/hello.cpp\<close>).

  A handler is a record of its virtual functions. The registry is an \<open>unordered_map\<close> keyed by C
  strings with a case-insensitive hash and comparison; an entry is found when its key has the same
  hash and compares equal. The contract of such a map is the locale \<open>folded_map\<close>. The shared
  libraries that \<open>setup\<close> loads are an argument: each directory entry is a regular file or not,
  opens or not, has the symbol \<open>create_module\<close> or not, and creates a handler or not.
\<close>

unbundle bit_operations_syntax

subsection \<open>Handlers\<close>

definition HE_NONE :: nat where "HE_NONE = 0x00"
definition HE_PROCESS_INIT :: nat where "HE_PROCESS_INIT = 0x01"
definition HE_PROCESS_EXIT :: nat where "HE_PROCESS_EXIT = 0x02"
definition HE_CONNECT_INIT :: nat where "HE_CONNECT_INIT = 0x04"
definition HE_CONNECT_EXIT :: nat where "HE_CONNECT_EXIT = 0x08"
definition HE_REQUEST_HDR :: nat where "HE_REQUEST_HDR = 0x10"
definition HE_REQUEST_BODY :: nat where "HE_REQUEST_BODY = 0x20"

lemmas he_defs = HE_NONE_def HE_PROCESS_INIT_def HE_PROCESS_EXIT_def HE_CONNECT_INIT_def HE_CONNECT_EXIT_def
  HE_REQUEST_HDR_def HE_REQUEST_BODY_def

type_synonym conid_t = "64 word"
type_synonym txnid_t = "32 word"

text \<open>A callback on a request writes to the response. Its arguments are the numbers of the connection
  and of the transaction, the current time and the parser library.\<close>

type_synonym 'p on_request = "conid_t \<Rightarrow> txnid_t \<Rightarrow> tm \<Rightarrow> 'p http_parser_api \<Rightarrow> 'p http_request \<Rightarrow> world \<Rightarrow> http_response \<Rightarrow> (world \<times> http_response) res"

record 'p module_handler =
  mh_handle_events :: nat
  mh_path :: "string option"
  mh_name :: string
  mh_on_request_header :: "'p on_request"
  mh_on_request_body :: "'p on_request"

definition handles :: "'p module_handler \<Rightarrow> nat \<Rightarrow> bool" where
  "handles mh ev \<longleftrightarrow> mh_handle_events mh AND ev \<noteq> 0"

text \<open>The virtual functions of the base class do nothing.\<close>

definition ignore_request :: "'p on_request" where
  "ignore_request cid tid t api req w rsp = Inr (w, rsp)"

subsection \<open>The registry\<close>

definition schar :: "char \<Rightarrow> int" where
  "schar c = (let n = of_char c in if n < 128 then n else n - 256)"

definition mod_hash :: "string \<Rightarrow> 64 word" where
  "mod_hash k = foldl (\<lambda>r c. (r XOR word_of_int (schar (toupper c))) * fnv_prime) fnv_seed (c_str k)"

definition mod_comp :: "string \<Rightarrow> string \<Rightarrow> bool" where
  "mod_comp a b \<longleftrightarrow> strcasecmp (c_str a) (c_str b) = 0"

record 'h modules =
  md_default :: "'h option"
  md_modules :: "(string \<times> 'h) list"

definition mod_find :: "(string \<times> 'h) list \<Rightarrow> string \<Rightarrow> 'h option" where
  "mod_find ms path = map_option snd (List.find (\<lambda>(k, _). mod_hash k = mod_hash path \<and> mod_comp k path) ms)"

definition mod_insert :: "(string \<times> 'h) list \<Rightarrow> string \<Rightarrow> 'h \<Rightarrow> (string \<times> 'h) list" where
  "mod_insert ms path mh = ms @ [(c_str path, mh)]"

definition setup_handler :: "'h modules \<Rightarrow> string option \<Rightarrow> 'h \<Rightarrow> 'h modules \<times> bool" where
  "setup_handler md path mh = (case path of
       None \<Rightarrow> (md\<lparr>md_default := Some mh\<rparr>, True)
     | Some p \<Rightarrow> if mod_find (md_modules md) p \<noteq> None then (md, False)
         else (md\<lparr>md_modules := mod_insert (md_modules md) p mh\<rparr>, True))"

definition match_handler :: "'h modules \<Rightarrow> string option \<Rightarrow> 'h option" where
  "match_handler md path = (case path of
       None \<Rightarrow> md_default md
     | Some p \<Rightarrow> (case mod_find (md_modules md) p of Some mh \<Rightarrow> Some mh | None \<Rightarrow> md_default md))"

definition list_handler :: "'h modules \<Rightarrow> 'h list" where
  "list_handler md = map snd (md_modules md)"

text \<open>Loading the shared libraries of a directory. \<open>create\<close> is the function \<open>create_module\<close> of the
  library, if it has one, applied to the options and its part of the configuration.\<close>

record 'h lib_file =
  lf_regular :: bool
  lf_opens :: bool
  lf_create :: "('h option) option"

datatype 'h directory = Missing | Unreadable | Entries "'h lib_file list"

fun load_files :: "('h \<Rightarrow> string option) \<Rightarrow> 'h lib_file list \<Rightarrow> 'h modules \<Rightarrow> 'h modules" where
  "load_files path [] md = md"
| "load_files path (x # xs) md = load_files path xs (
     if \<not> lf_regular x then md
     else if \<not> lf_opens x then md
     else case lf_create x of None \<Rightarrow> md
       | Some None \<Rightarrow> md
       | Some (Some mh) \<Rightarrow> fst (setup_handler md (path mh) mh))"

text \<open>\<open>config\<close> is false when the configuration cannot be read: an exception is logged and nothing
  is loaded.\<close>

definition modules_setup :: "('h \<Rightarrow> string option) \<Rightarrow> bool \<Rightarrow> 'h directory \<Rightarrow> 'h modules \<Rightarrow> 'h modules" where
  "modules_setup path config dir md = (if \<not> config then md
     else case dir of Missing \<Rightarrow> md | Unreadable \<Rightarrow> md | Entries xs \<Rightarrow> load_files path xs md)"

subsection \<open>The sample modules\<close>

definition page_response :: "int \<Rightarrow> string \<Rightarrow> string \<Rightarrow> 'p on_request" where
  "page_response code message page cid tid t api req w rsp =
     rbind (resp_status t w rsp code message) (\<lambda>(w1, r1).
     rbind (resp_keep_alive w1 r1 (req_keep_alive api req)) (\<lambda>(w2, r2).
     rbind (resp_content_type w2 r2 (Some ''text/html'') None) (\<lambda>(w3, r3).
     rbind (resp_printf w3 r3 (page @ crlf)) (\<lambda>(w4, r4, n).
     rbind (resp_header_fmt w4 r4 ''Content-Length'' (fmt_d n)) (\<lambda>(w5, r5).
     resp_eom w5 r5)))))"

definition default_page :: string where
  "default_page = ''<html><body><h1>Not Found</h1></body></html>''"

definition default_on_request_header :: "'p on_request" where
  "default_on_request_header = page_response 404 ''Not Found'' default_page"

definition default_module :: "'p module_handler" where
  "default_module = \<lparr>mh_handle_events = HE_REQUEST_HDR, mh_path = None, mh_name = ''default'',
     mh_on_request_header = default_on_request_header, mh_on_request_body = ignore_request\<rparr>"

definition hello_page :: string where
  "hello_page = ''<html>world!</html>''"

definition hello_on_request_header :: "'p on_request" where
  "hello_on_request_header = page_response 200 ''OK'' hello_page"

definition hello_module :: "'p module_handler" where
  "hello_module = \<lparr>mh_handle_events = HE_REQUEST_HDR, mh_path = Some ''/hello'', mh_name = ''hello'',
     mh_on_request_header = hello_on_request_header, mh_on_request_body = ignore_request\<rparr>"

subsection \<open>Hash and comparison\<close>

text \<open>The name under which a key is filed: its C string in lower case.\<close>

definition canon :: "string \<Rightarrow> string" where
  "canon k = map tolower (c_str k)"

lemma c_str_no_nul: "CHR 0x00 \<notin> set (c_str s)"
  by (auto simp: c_str_def dest: set_takeWhileD)

lemma c_str_idem [simp]: "c_str (c_str s) = c_str s"
  by (simp add: c_str_def)

lemma mod_comp_canon: "mod_comp a b \<longleftrightarrow> canon a = canon b"
  by (simp add: mod_comp_def canon_def strcasecmp_0_iff c_str_no_nul)

lemma mod_hash_canon:
  assumes "canon a = canon b"
  shows "mod_hash a = mod_hash b"
proof -
  have up: "map toupper (map tolower xs) = map toupper xs" for xs by (simp add: toupper_tolower)
  have "map toupper (c_str a) = map toupper (c_str b)"
    using assms up [of "c_str a"] up [of "c_str b"] by (simp only: canon_def)
  then have "foldl (\<lambda>r c. (r XOR word_of_int (schar c)) * fnv_prime) fnv_seed (map toupper (c_str a)) =
    foldl (\<lambda>r c. (r XOR word_of_int (schar c)) * fnv_prime) fnv_seed (map toupper (c_str b))" by simp
  then show ?thesis by (simp add: mod_hash_def foldl_map)
qed

lemma mod_find_canon: "mod_find ms p = map_option snd (List.find (\<lambda>(k, _). canon k = canon p) ms)"
proof -
  have "mod_hash k = mod_hash p \<and> mod_comp k p \<longleftrightarrow> canon k = canon p" for k
    using mod_hash_canon [of k p] mod_comp_canon [of k p] by blast
  then show ?thesis by (simp only: mod_find_def)
qed

lemma find_append: "List.find P (xs @ ys) = (case List.find P xs of None \<Rightarrow> List.find P ys | Some x \<Rightarrow> Some x)"
  by (induction xs) auto

locale folded_map =
  fixes find :: "'m \<Rightarrow> string \<Rightarrow> 'h option"
    and insert :: "'m \<Rightarrow> string \<Rightarrow> 'h \<Rightarrow> 'm"
    and fold_key :: "string \<Rightarrow> string"
  assumes find_key: "fold_key p = fold_key q \<Longrightarrow> find m p = find m q"
    and find_insert: "find m p = None \<Longrightarrow> find (insert m p v) q = (if fold_key q = fold_key p then Some v else find m q)"
begin

text \<open>Registering an entry unless the key is taken.\<close>

definition register :: "'m \<Rightarrow> string \<times> 'h \<Rightarrow> 'm" where
  "register m e = (case e of (p, v) \<Rightarrow> if find m p \<noteq> None then m else insert m p v)"

lemma find_register:
  "find (register m (p, v)) q = (case find m q of Some u \<Rightarrow> Some u
     | None \<Rightarrow> if fold_key q = fold_key p then Some v else None)"
proof (cases "find m p")
  case None
  then show ?thesis using find_insert [OF None, of v q] find_key [of q p m] by (auto simp: register_def split: option.splits)
next
  case (Some u)
  then show ?thesis using find_key [of q p m] by (auto simp: register_def split: option.splits)
qed

lemma find_register_all:
  "find (foldl register m es) q = (case find m q of Some u \<Rightarrow> Some u
     | None \<Rightarrow> map_option snd (List.find (\<lambda>(p, _). fold_key p = fold_key q) es))"
proof (induction es arbitrary: m)
  case (Cons e es)
  obtain p v where e: "e = (p, v)" by (cases e)
  show ?case using Cons.IH [of "register m e"] find_register [of m p v q] by (auto simp: e eq_commute split: option.splits)
qed (auto split: option.splits)

end

interpretation mods: folded_map mod_find mod_insert canon
proof unfold_locales
  show "mod_find m p = mod_find m q" if "canon p = canon q" for p q and m :: "(string \<times> 'h) list"
    using that by (simp add: mod_find_canon)
  show "mod_find (mod_insert m p v) q = (if canon q = canon p then Some v else mod_find m q)"
    if "mod_find m p = None" for m :: "(string \<times> 'h) list" and p v q
  proof -
    have k: "canon (c_str p) = canon p" by (simp add: canon_def)
    show ?thesis
    proof (cases "canon q = canon p")
      case True
      then show ?thesis using that by (simp add: mod_find_canon mod_insert_def find_append k split: option.splits)
    next
      case False
      then show ?thesis by (auto simp: mod_find_canon mod_insert_def find_append k split: option.splits)
    qed
  qed
qed

subsection \<open>Loading and dispatch\<close>

text \<open>The handlers that the files of a directory create, in order.\<close>

fun created :: "'h lib_file list \<Rightarrow> 'h list" where
  "created [] = []"
| "created (x # xs) = (case lf_create x of Some (Some mh) \<Rightarrow> if lf_regular x \<and> lf_opens x then [mh] else [] | _ \<Rightarrow> []) @ created xs"

definition keyed :: "('h \<Rightarrow> string option) \<Rightarrow> 'h list \<Rightarrow> (string \<times> 'h) list" where
  "keyed path hs = map (\<lambda>h. (the (path h), h)) (filter (\<lambda>h. path h \<noteq> None) hs)"

definition defaults :: "('h \<Rightarrow> string option) \<Rightarrow> 'h list \<Rightarrow> 'h list" where
  "defaults path hs = filter (\<lambda>h. path h = None) hs"

lemma load_files_modules:
  "md_modules (load_files path xs md) = foldl mods.register (md_modules md) (keyed path (created xs))"
proof (induction path xs md rule: load_files.induct)
  case (2 path x xs md)
  then show ?case
    by (auto simp: keyed_def setup_handler_def mods.register_def split: option.splits)
qed (simp add: keyed_def)

lemma load_files_default:
  "md_default (load_files path xs md) = (if defaults path (created xs) = [] then md_default md else Some (last (defaults path (created xs))))"
proof (induction path xs md rule: load_files.induct)
  case (2 path x xs md)
  then show ?case
    by (auto simp: defaults_def setup_handler_def split: option.splits)
qed (simp add: defaults_def)

definition no_modules :: "'h modules" where
  "no_modules = \<lparr>md_default = None, md_modules = []\<rparr>"

subsection \<open>Properties of the registry\<close>

text \<open>The hash and the comparison of the registry fit together: the comparison is an equivalence,
  keys that compare equal have equal hashes, and so an entry is found exactly by the names that
  differ from its key in the case of letters only.\<close>

theorem modules_hash_consistent:
  "mod_comp a a \<and> (mod_comp a b \<longrightarrow> mod_comp b a \<and> mod_hash a = mod_hash b) \<and>
   (mod_comp a b \<and> mod_comp b c \<longrightarrow> mod_comp a c) \<and>
   mod_find ms p = map_option snd (List.find (\<lambda>(k, _). canon k = canon p) ms)"
  using mod_hash_canon [of a b] by (auto simp: mod_comp_canon mod_find_canon)

theorem modules_hash_consistent_witness:
  "mod_hash ''/Hello'' = mod_hash ''/hELLO''"
proof -
  have "mod_comp ''/Hello'' ''/hELLO''" by (simp add: mod_comp_def c_str_def tolower_def)
  then show ?thesis using modules_hash_consistent [of "''/Hello''" "''/hELLO''" "[]" "[]" "[]"] by blast
qed

text \<open>C18: after loading a directory of modules, a path is handled by the first module whose path
  equals it up to the case of letters; if there is none, or no path, by the last module without a
  path. The list of handlers, which is told about processes and connections, has no module
  without a path.\<close>

theorem modules_dispatch:
  "match_handler (modules_setup path True (Entries xs) no_modules) (Some q) =
     (case List.find (\<lambda>(k, _). canon k = canon q) (keyed path (created xs)) of
        Some (_, h) \<Rightarrow> Some h
      | None \<Rightarrow> match_handler (modules_setup path True (Entries xs) no_modules) None) \<and>
   match_handler (modules_setup path True (Entries xs) no_modules) None =
     (if defaults path (created xs) = [] then None else Some (last (defaults path (created xs)))) \<and>
   set (list_handler (modules_setup path True (Entries xs) no_modules)) \<subseteq> set (created xs) - set (defaults path (created xs))"
proof -
  let ?md = "load_files path xs no_modules"
  have find: "mod_find (md_modules ?md) q = map_option snd (List.find (\<lambda>(p, _). canon p = canon q) (keyed path (created xs)))" for q
    using mods.find_register_all [of "[]" "keyed path (created xs)" q]
    by (simp add: load_files_modules no_modules_def mod_find_def)
  have sub: "snd ` set (foldl mods.register ms es) \<subseteq> snd ` set ms \<union> snd ` set es" for ms and es :: "(string \<times> 'a) list"
  proof (induction es arbitrary: ms)
    case (Cons e es)
    have "snd ` set (mods.register ms e) \<subseteq> snd ` set ms \<union> {snd e}"
      by (cases e) (auto simp: mods.register_def mod_insert_def)
    then show ?case using Cons.IH [of "mods.register ms e"] unfolding foldl_Cons list.set image_insert by blast
  qed simp
  have "set (list_handler ?md) \<subseteq> set (created xs) - set (defaults path (created xs))"
    using sub [of "[]" "keyed path (created xs)"]
    by (auto simp: list_handler_def load_files_modules no_modules_def keyed_def defaults_def)
  moreover have "md_default (no_modules :: 'a modules) = None" by (simp add: no_modules_def)
  ultimately show ?thesis
    by (auto simp: modules_setup_def match_handler_def find load_files_default split: option.splits prod.splits)
qed

text \<open>\<open>setup_handler\<close> registers a handler unless the path is taken; it then returns false and
  leaves the registry as it was.\<close>

theorem modules_register:
  "setup_handler md (Some p) h = (md', ok) \<Longrightarrow>
    (ok \<longleftrightarrow> mod_find (md_modules md) p = None) \<and> (\<not> ok \<longrightarrow> md' = md) \<and>
    (ok \<longrightarrow> match_handler md' (Some q) = (if canon q = canon p then Some h else match_handler md (Some q)))"
  using mods.find_insert [of "md_modules md" p h q]
  by (auto simp: setup_handler_def match_handler_def split: if_splits option.splits)

theorem modules_register_witness:
  "match_handler (fst (setup_handler no_modules (Some ''/hello'') (7::nat))) (Some ''/Hello'') = Some 7"
proof -
  obtain md ok where s: "setup_handler no_modules (Some ''/hello'') (7::nat) = (md, ok)" by fastforce
  have "canon ''/Hello'' = canon ''/hello''" by code_simp
  then show ?thesis using modules_register [OF s, of "''/Hello''"] s by (simp add: no_modules_def mod_find_def)
qed

subsection \<open>Properties of the sample modules\<close>

lemma fmt_d_int: "fmt_d (int n) = dec n"
  by (simp add: fmt_d_def)

lemma page_response_ok:
  assumes inv: "resp_inv w lent r" and date: "date_text t = Inr d" and code: "code \<noteq> - 1"
    and start: "header_text w r = []" "body_text w r = []"
    and head: "head = status_text code msg @ d @ keep_alive_text (req_keep_alive api req) @
      content_type_text (Some ''text/html'') None @ ''Content-Length: '' @ fmt_d (int (length (page @ crlf))) @ crlf @ crlf"
    and room: "int (length head) < back_room w (rs_header r)" "int (length (page @ crlf)) < back_room w (rs_body r)"
  shows "\<exists>w' r'. page_response code msg page cid tid t api req w r = Inr (w', r') \<and> resp_inv w' lent r' \<and>
    texts w' (resp_buffers r') = head @ page @ crlf \<and> resp_get_status r' = code \<and>
    resp_is_keep_alive r' = req_keep_alive api req \<and> resp_iseom r' \<and> resp_buffers r' = resp_buffers r \<and>
    others_same w lent (resp_buffers r) w' \<and> w_pool w' = w_pool w"
proof -
  let ?ka = "req_keep_alive api req" and ?n = "int (length (page @ crlf))"
  let ?s = "status_text code msg @ d" and ?k = "keep_alive_text ?ka" and ?c = "content_type_text (Some ''text/html'') None"
    and ?h = "''Content-Length'' @ '': '' @ fmt_d ?n @ crlf"
  have inv_upd: "resp_inv w lent (r\<lparr>rs_status := x\<rparr>) = resp_inv w lent r"
    "resp_inv w lent (r\<lparr>rs_alive := x\<rparr>) = resp_inv w lent r" "resp_inv w lent (r\<lparr>rs_iseom := x\<rparr>) = resp_inv w lent r"
    for w lent x and r :: http_response
    by (simp_all add: resp_inv_def resp_buffers_def)
  note len = room(1) [unfolded head]
  obtain w1 where 1: "resp_status t w r code msg = Inr (w1, r\<lparr>rs_status := code\<rparr>)" "wrote_header w lent r ?s w1"
    using resp_status_ok [OF inv date, of code msg] len by auto
  let ?r = "r\<lparr>rs_status := code\<rparr>"
  let ?r2 = "?r\<lparr>rs_alive := (if ?ka then 1 else 0)\<rparr>"
  obtain w2 where 2: "resp_keep_alive w1 ?r ?ka = Inr (w2, ?r2)" "wrote_header w1 lent ?r ?k w2"
    using resp_keep_alive_ok [of w1 lent ?r ?ka] code 1(2) len by (auto simp: wrote_header_def inv_upd)
  obtain w3 where 3: "resp_content_type w2 ?r2 (Some ''text/html'') None = Inr (w3, ?r2)" "wrote_header w2 lent ?r2 ?c w3"
    using resp_content_type_ok [of w2 lent ?r2 "Some ''text/html''" None] code 1(2) 2(2) len by (auto simp: wrote_header_def inv_upd)
  obtain w4 where 4: "resp_printf w3 ?r2 (page @ crlf) = Inr (w4, ?r2, ?n)" "wrote_body w3 lent ?r2 (page @ crlf) w4"
    using printf_fits [of w3 lent ?r2 "page @ crlf" 0] 1(2) 2(2) 3(2) room(2) by (auto simp: wrote_header_def resp_printf_def)
  obtain w5 where 5: "resp_header_fmt w4 ?r2 ''Content-Length'' (fmt_d ?n) = Inr (w5, ?r2)" "wrote_header w4 lent ?r2 ?h w5"
    using resp_header_fmt_ok [of w4 lent ?r2 "''Content-Length''" "fmt_d ?n"] code 1(2) 2(2) 3(2) 4(2) len
    by (auto simp: wrote_header_def wrote_body_def)
  obtain w6 where 6: "resp_eom w5 ?r2 = Inr (w6, ?r2\<lparr>rs_iseom := 1\<rparr>)" "wrote_header w5 lent ?r2 crlf w6"
    using resp_eom_ok [of w5 lent ?r2] 1(2) 2(2) 3(2) 4(2) 5(2) len by (auto simp: wrote_header_def wrote_body_def)
  have "page_response code msg page cid tid t api req w r = Inr (w6, ?r2\<lparr>rs_iseom := 1\<rparr>)"
    by (simp add: page_response_def 1(1) 2(1) 3(1) 4(1) [simplified] 5(1) [simplified] 6(1))
  moreover have "texts w6 (resp_buffers (?r2\<lparr>rs_iseom := 1\<rparr>)) = head @ page @ crlf"
    using 1(2) 2(2) 3(2) 4(2) 5(2) 6(2) start unfolding head
    by (simp add: wrote_header_def wrote_body_def header_text_def body_text_def resp_buffers_def)
  moreover have "resp_inv w6 lent (?r2\<lparr>rs_iseom := 1\<rparr>)" using 6(2) by (simp add: wrote_header_def inv_upd)
  moreover have "others_same w lent (resp_buffers r) w6"
    using 1(2) 2(2) 3(2) 4(2) 5(2) 6(2) by (simp add: wrote_header_def wrote_body_def others_same_def resp_buffers_def)
  moreover have "w_pool w6 = w_pool w" using 1(2) 2(2) 3(2) 4(2) 5(2) 6(2) by (simp add: wrote_header_def wrote_body_def)
  ultimately show ?thesis by (auto simp: resp_get_status_def resp_is_keep_alive_def resp_iseom_def resp_buffers_def)
qed

definition page_head :: "string \<Rightarrow> string \<Rightarrow> bool \<Rightarrow> string \<Rightarrow> string" where
  "page_head line d alive page = line @ crlf @ ''Server: cohttp/0.9.0'' @ crlf @ d @ keep_alive_text alive @
     ''Content-Type: text/html'' @ crlf @ ''Content-Length: '' @ dec (length (page @ crlf)) @ crlf"

lemma page_response_start:
  assumes m: "resp_inv w lent r" "header_text w r = []" "body_text w r = []"
      "back_room w (rs_header r) = n" "back_room w (rs_body r) = n" and date: "date_text t = Inr d"
    and code: "code \<noteq> - 1" "status_text code msg = line @ crlf @ ''Server: cohttp/0.9.0'' @ crlf"
    and room: "int (length (page_head line d True page)) + 2 < n" "int (length page) + 2 < n"
  shows "\<exists>w' r'. page_response code msg page cid tid t api req w r = Inr (w', r') \<and> resp_inv w' lent r' \<and>
    texts w' (resp_buffers r') = page_head line d (req_keep_alive api req) page @ crlf @ page @ crlf \<and>
    resp_get_status r' = code \<and> resp_is_keep_alive r' = req_keep_alive api req \<and> resp_iseom r' \<and>
    resp_buffers r' = resp_buffers r \<and> others_same w lent (resp_buffers r) w' \<and> w_pool w' = w_pool w"
proof -
  define head where "head = status_text code msg @ d @ keep_alive_text (req_keep_alive api req) @
      content_type_text (Some ''text/html'') None @ ''Content-Length: '' @ fmt_d (int (length (page @ crlf))) @ crlf @ crlf"
  have h: "head = page_head line d (req_keep_alive api req) page @ crlf"
    unfolding head_def page_head_def code(2) fmt_d_int by (simp add: content_type_text_def)
  have "length (keep_alive_text (req_keep_alive api req)) \<le> length (keep_alive_text True)"
    by (simp add: keep_alive_text_def)
  then have "length (page_head line d (req_keep_alive api req) page) \<le> length (page_head line d True page)"
    by (simp add: page_head_def)
  then have "int (length head) < back_room w (rs_header r)"
    unfolding h m(4) using room(1) by (simp add: crlf_def)
  moreover have "int (length (page @ crlf)) < back_room w (rs_body r)" using room(2) m(5) by (simp add: crlf_def)
  ultimately show ?thesis
    using page_response_ok [OF m(1) date code(1) m(2,3) head_def, of cid tid] h by simp
qed

lemma page_response_fresh:
  assumes inv: "pool_inv (lent_state w0 lent0)" and make: "resp_make w0 = Inr (w, r)" and date: "date_text t = Inr d"
    and code: "code \<noteq> - 1" "status_text code msg = line @ crlf @ ''Server: cohttp/0.9.0'' @ crlf"
    and room: "int (length (page_head line d True page)) + 2 < pl_size (w_pool w0)" "int (length page) + 2 < pl_size (w_pool w0)"
  shows "\<exists>w' r'. page_response code msg page cid tid t api req w r = Inr (w', r') \<and>
    texts w' (resp_buffers r') = page_head line d (req_keep_alive api req) page @ crlf @ page @ crlf \<and>
    resp_get_status r' = code \<and> resp_is_keep_alive r' = req_keep_alive api req \<and> resp_iseom r'"
proof -
  obtain lent where m: "resp_inv w lent r" "header_text w r = []" "body_text w r = []"
      "back_room w (rs_header r) = pl_size (w_pool w0)" "back_room w (rs_body r) = pl_size (w_pool w0)"
    by (rule resp_make_ok [OF inv]) (use make in auto)
  show ?thesis using page_response_start [OF m date code room, of cid tid api req] by blast
qed

text \<open>The pages of the sample modules.\<close>

lemma default_page_facts:
  "status_text 404 ''Not Found'' = ''HTTP/1.1 404 Not Found'' @ crlf @ ''Server: cohttp/0.9.0'' @ crlf"
  "length (page_head ''HTTP/1.1 404 Not Found'' d True default_page) = 115 + length d" "length default_page = 44"
proof -
  show "status_text 404 ''Not Found'' = ''HTTP/1.1 404 Not Found'' @ crlf @ ''Server: cohttp/0.9.0'' @ crlf" by code_simp
  have len: "length (dec 46) = 2" "length default_page = 44" by code_simp+
  then show "length (page_head ''HTTP/1.1 404 Not Found'' d True default_page) = 115 + length d" "length default_page = 44"
    by (simp_all add: page_head_def keep_alive_text_def crlf_def)
qed

lemma hello_page_facts:
  "status_text 200 ''OK'' = ''HTTP/1.1 200 OK'' @ crlf @ ''Server: cohttp/0.9.0'' @ crlf"
  "length (page_head ''HTTP/1.1 200 OK'' d True hello_page) = 108 + length d" "length hello_page = 19"
proof -
  show "status_text 200 ''OK'' = ''HTTP/1.1 200 OK'' @ crlf @ ''Server: cohttp/0.9.0'' @ crlf" by code_simp
  have len: "length (dec 21) = 2" "length hello_page = 19" by code_simp+
  then show "length (page_head ''HTTP/1.1 200 OK'' d True hello_page) = 108 + length d" "length hello_page = 19"
    by (simp_all add: page_head_def keep_alive_text_def crlf_def)
qed

text \<open>The default module answers every request with a complete 404 response: status line,
  server and date, the connection header the request asks for, the content type, the length of the
  body in decimal, an empty line, and a body of exactly that length.\<close>

theorem default_module_response:
  assumes "pool_inv (lent_state w0 lent0)" "resp_make w0 = Inr (w, r)" "date_text t = Inr d"
    and "int (length d) + 200 < pl_size (w_pool w0)"
  shows "\<exists>w' r'. mh_on_request_header default_module cid tid t api req w r = Inr (w', r') \<and>
    texts w' (resp_buffers r') = ''HTTP/1.1 404 Not Found'' @ crlf @ ''Server: cohttp/0.9.0'' @ crlf @ d @
      keep_alive_text (req_keep_alive api req) @ ''Content-Type: text/html'' @ crlf @
      ''Content-Length: '' @ dec (length (default_page @ crlf)) @ crlf @ crlf @ default_page @ crlf \<and>
    resp_is_keep_alive r' = req_keep_alive api req \<and> resp_iseom r'"
  using page_response_fresh [OF assms(1-3) _ default_page_facts(1), of default_page cid tid api req] assms(4) default_page_facts(2,3)
  by (auto simp: default_module_def default_on_request_header_def page_head_def)

theorem default_module_response_witness:
  "\<exists>w r w' r'. resp_make (start_world 8192 16384) = Inr (w, r) \<and>
     mh_on_request_header default_module 1 0 test_tm sample_api sample_request w r = Inr (w', r') \<and> resp_is_keep_alive r' \<and> resp_iseom r'"
proof -
  have inv: "pool_inv (lent_state (start_world 8192 16384) [])" "pl_size (w_pool (start_world 8192 16384)) = 8192"
    by (rule start_world_inv; simp)+
  obtain w r where m: "resp_make (start_world 8192 16384) = Inr (w, r)" by (rule resp_make_ok [OF inv(1)])
  have "req_keep_alive sample_api sample_request" by (simp add: req_keep_alive_def sample_api_def)
  then show ?thesis
    using default_module_response [OF inv(1) m test_date, of 1 0 sample_api sample_request] inv(2) m by (auto simp: crlf_def)
qed

text \<open>The hello module answers with a complete 200 response of the same form.\<close>

theorem hello_module_response:
  assumes "pool_inv (lent_state w0 lent0)" "resp_make w0 = Inr (w, r)" "date_text t = Inr d"
    and "int (length d) + 200 < pl_size (w_pool w0)"
  shows "\<exists>w' r'. mh_on_request_header hello_module cid tid t api req w r = Inr (w', r') \<and>
    texts w' (resp_buffers r') = ''HTTP/1.1 200 OK'' @ crlf @ ''Server: cohttp/0.9.0'' @ crlf @ d @
      keep_alive_text (req_keep_alive api req) @ ''Content-Type: text/html'' @ crlf @
      ''Content-Length: '' @ dec (length (hello_page @ crlf)) @ crlf @ crlf @ hello_page @ crlf \<and>
    resp_is_keep_alive r' = req_keep_alive api req \<and> resp_iseom r'"
  using page_response_fresh [OF assms(1-3) _ hello_page_facts(1), of hello_page cid tid api req] assms(4) hello_page_facts(2,3)
  by (auto simp: hello_module_def hello_on_request_header_def page_head_def)

theorem hello_module_response_witness:
  "\<exists>w r w' r'. resp_make (start_world 8192 16384) = Inr (w, r) \<and>
     mh_on_request_header hello_module 1 0 test_tm sample_api sample_request w r = Inr (w', r') \<and> resp_is_keep_alive r' \<and> resp_iseom r'"
proof -
  have inv: "pool_inv (lent_state (start_world 8192 16384) [])" "pl_size (w_pool (start_world 8192 16384)) = 8192"
    by (rule start_world_inv; simp)+
  obtain w r where m: "resp_make (start_world 8192 16384) = Inr (w, r)" by (rule resp_make_ok [OF inv(1)])
  have "req_keep_alive sample_api sample_request" by (simp add: req_keep_alive_def sample_api_def)
  then show ?thesis
    using hello_module_response [OF inv(1) m test_date, of 1 0 sample_api sample_request] inv(2) m by (auto simp: crlf_def)
qed

end
