(* ===== verification/Options.thy ===== *)
theory Options
  imports Libc
begin

text \<open>
  The options of the service (\<^verbatim>\<open>src/src/server.hpp\<close>, \<open>http_service::options\<close>) and their reading from
  the configuration file (\<^verbatim>\<open>src/src/cohttp.cpp\<close>, \<open>load_config\<close>).

  The YAML library is an argument: loading a file, indexing a node with a key, testing whether a node
  is defined, and converting it. Each of these may throw. \<open>load_config\<close> assigns the options one after
  the other inside one \<open>try\<close> block, so an exception keeps what was assigned before.
\<close>

subsection \<open>Options\<close>

record cfg_memory =
  cm_iobuf_size :: size_t
  cm_iobuf_count :: size_t
  cm_max_header_size :: size_t
  cm_max_body_size :: size_t

record cfg_logger =
  cl_path :: string
  cl_cout :: bool

text \<open>Durations are in seconds.\<close>

record options =
  op_memory :: cfg_memory
  op_logger :: cfg_logger
  op_reuse_port :: int
  op_serve_port :: int
  op_process :: int
  op_timer_idle :: int
  op_timer_life :: int
  op_mod_path :: string

definition default_options :: options where
  "default_options = \<lparr>
     op_memory = \<lparr>cm_iobuf_size = 8192, cm_iobuf_count = 16384, cm_max_header_size = 8192,
       cm_max_body_size = 10 * 1024 * 1024\<rparr>,
     op_logger = \<lparr>cl_path = ''../log'', cl_cout = True\<rparr>,
     op_reuse_port = 0, op_serve_port = 80, op_process = 2, op_timer_idle = 5, op_timer_life = 60,
     op_mod_path = []\<rparr>"

subsection \<open>The YAML library\<close>

datatype yaml_exn = ParserException | BadFile | InvalidNode | BadConversion | BadSubscript | Other_exn nat

record 'y yaml_api =
  ya_load :: "string \<Rightarrow> yaml_exn + 'y"
  ya_index :: "'y \<Rightarrow> string \<Rightarrow> yaml_exn + 'y"
  ya_defined :: "'y \<Rightarrow> bool"
  ya_as_ushort :: "'y \<Rightarrow> yaml_exn + int"
  ya_as_int :: "'y \<Rightarrow> yaml_exn + int"
  ya_as_string :: "'y \<Rightarrow> yaml_exn + string"

subsection \<open>Reading the configuration\<close>

text \<open>A part of the \<open>try\<close> block: the options after it, and the exception it ended with.\<close>

type_synonym cfg_step = "options \<Rightarrow> options \<times> yaml_exn option"

definition and_then :: "cfg_step \<Rightarrow> cfg_step \<Rightarrow> cfg_step" where
  "and_then f g opt = (case f opt of (opt', None) \<Rightarrow> g opt' | (opt', Some e) \<Rightarrow> (opt', Some e))"

text \<open>\<open>if(node[key]) options.x = node[key].as<T>()\<close>.\<close>

definition assign :: "'y yaml_api \<Rightarrow> ('y \<Rightarrow> yaml_exn + 'v) \<Rightarrow> 'y \<Rightarrow> string \<Rightarrow> ('v \<Rightarrow> options \<Rightarrow> options) \<Rightarrow> cfg_step" where
  "assign api as node key upd opt = (case ya_index api node key of
       Inl e \<Rightarrow> (opt, Some e)
     | Inr n \<Rightarrow> if ya_defined api n
         then (case as n of Inl e \<Rightarrow> (opt, Some e) | Inr v \<Rightarrow> (upd v opt, None))
         else (opt, None))"

text \<open>\<open>const YAML::Node& section = config[key]\<close>.\<close>

definition with_section :: "'y yaml_api \<Rightarrow> 'y \<Rightarrow> string \<Rightarrow> ('y \<Rightarrow> cfg_step) \<Rightarrow> cfg_step" where
  "with_section api config key f opt = (case ya_index api config key of Inl e \<Rightarrow> (opt, Some e) | Inr n \<Rightarrow> f n opt)"

definition upd_memory :: "(cfg_memory \<Rightarrow> cfg_memory) \<Rightarrow> options \<Rightarrow> options" where
  "upd_memory f opt = opt\<lparr>op_memory := f (op_memory opt)\<rparr>"

definition upd_logger :: "(cfg_logger \<Rightarrow> cfg_logger) \<Rightarrow> options \<Rightarrow> options" where
  "upd_logger f opt = opt\<lparr>op_logger := f (op_logger opt)\<rparr>"

text \<open>\<open>as<int>() * 1024 * 1024\<close>, computed in \<open>int\<close>.\<close>

definition mega :: "int \<Rightarrow> size_t" where
  "mega v = size_of_int (cint (cint (v * 1024) * 1024))"

definition read_service :: "'y yaml_api \<Rightarrow> 'y \<Rightarrow> cfg_step" where
  "read_service api config =
     and_then (assign api (ya_as_ushort api) config ''ListenPort'' (\<lambda>v. op_serve_port_update (\<lambda>_. v)))
    (and_then (assign api (ya_as_string api) config ''ModulePath'' (\<lambda>v. op_mod_path_update (\<lambda>_. v)))
              (assign api (ya_as_int api) config ''CpuUsed'' (\<lambda>v. op_process_update (\<lambda>_. v))))"

definition read_connection :: "'y yaml_api \<Rightarrow> 'y \<Rightarrow> cfg_step" where
  "read_connection api connections =
     and_then (assign api (ya_as_int api) connections ''IdleTimer'' (\<lambda>v. op_timer_idle_update (\<lambda>_. v)))
    (and_then (assign api (ya_as_int api) connections ''LifeTimer'' (\<lambda>v. op_timer_life_update (\<lambda>_. v)))
    (and_then (assign api (ya_as_int api) connections ''MaxHeaderSize''
        (\<lambda>v. upd_memory (cm_max_header_size_update (\<lambda>_. size_of_int v))))
              (assign api (ya_as_int api) connections ''MaxBodySize''
        (\<lambda>v. upd_memory (cm_max_body_size_update (\<lambda>_. mega v))))))"

definition read_memory :: "'y yaml_api \<Rightarrow> 'y \<Rightarrow> cfg_step" where
  "read_memory api memory =
     and_then (assign api (ya_as_int api) memory ''ChunkSize'' (\<lambda>v. upd_memory (cm_iobuf_size_update (\<lambda>_. size_of_int v))))
              (assign api (ya_as_int api) memory ''ChunkCount'' (\<lambda>v. upd_memory (cm_iobuf_count_update (\<lambda>_. size_of_int v))))"

text \<open>The value of the key \<open>console\<close> is not looked at.\<close>

definition read_logger :: "'y yaml_api \<Rightarrow> 'y \<Rightarrow> cfg_step" where
  "read_logger api logger =
     and_then (assign api (ya_as_string api) logger ''Path'' (\<lambda>v. upd_logger (cl_path_update (\<lambda>_. v))))
              (assign api (\<lambda>_. Inr ()) logger ''console'' (\<lambda>_. upd_logger (cl_cout_update (\<lambda>_. True))))"

definition read_config :: "'y yaml_api \<Rightarrow> 'y \<Rightarrow> cfg_step" where
  "read_config api config =
     and_then (read_service api config)
    (and_then (with_section api config ''Connection'' (read_connection api))
    (and_then (with_section api config ''Memory'' (read_memory api))
              (with_section api config ''Logger'' (read_logger api))))"

text \<open>The exceptions with a handler: a message on \<open>stderr\<close>. Others leave the function.\<close>

definition caught :: "yaml_exn \<Rightarrow> bool" where
  "caught e \<longleftrightarrow> e = ParserException \<or> e = BadFile \<or> e = InvalidNode \<or> e = BadConversion"

definition load_config :: "'y yaml_api \<Rightarrow> string \<Rightarrow> yaml_exn + options" where
  "load_config api file = (
     let (opt, exn) = (case ya_load api file of Inl e \<Rightarrow> (default_options, Some e)
       | Inr config \<Rightarrow> read_config api config default_options)
     in case exn of None \<Rightarrow> Inr opt | Some e \<Rightarrow> if caught e then Inr opt else Inl e)"

subsection \<open>What a step leaves alone\<close>

text \<open>A predicate on the options that every assignment keeps.\<close>

definition keeps :: "(options \<Rightarrow> bool) \<Rightarrow> cfg_step \<Rightarrow> bool" where
  "keeps P f \<longleftrightarrow> (\<forall>opt. P opt \<longrightarrow> P (fst (f opt)))"

lemma keeps_and_then [intro]: "keeps P f \<Longrightarrow> keeps P g \<Longrightarrow> keeps P (and_then f g)"
  by (auto simp: keeps_def and_then_def split: prod.splits option.splits)

lemma keeps_assign [intro]: "(\<And>v opt. P opt \<Longrightarrow> P (upd v opt)) \<Longrightarrow> keeps P (assign api as node key upd)"
  by (auto simp: keeps_def assign_def split: sum.splits)

lemma keeps_with_section [intro]: "(\<And>n. keeps P (f n)) \<Longrightarrow> keeps P (with_section api config key f)"
  by (auto simp: keeps_def with_section_def split: sum.splits)

lemmas read_defs = read_config_def read_service_def read_connection_def read_memory_def read_logger_def

lemma read_config_keeps: "keeps (\<lambda>opt. cl_cout (op_logger opt) \<and> op_reuse_port opt = 0) (read_config api config)"
  unfolding read_defs
  by (intro keeps_and_then keeps_assign keeps_with_section) (auto simp: upd_memory_def upd_logger_def)

text \<open>The assignments that do not touch the limit on the body.\<close>

lemma body_keeps:
  "keeps (\<lambda>opt. cm_max_body_size (op_memory opt) = x) (read_service api config)"
  "keeps (\<lambda>opt. cm_max_body_size (op_memory opt) = x) (read_memory api config)"
  "keeps (\<lambda>opt. cm_max_body_size (op_memory opt) = x) (read_logger api config)"
  unfolding read_defs by (intro keeps_and_then keeps_assign; auto simp: upd_memory_def upd_logger_def)+

lemma and_then_reaches:
  "and_then f g opt = (opt', None) \<Longrightarrow> \<exists>mid. f opt = (mid, None) \<and> g mid = (opt', None)"
  by (auto simp: and_then_def split: prod.splits option.splits)

lemma keeps_run: "keeps P f \<Longrightarrow> f opt = (opt', exn) \<Longrightarrow> P opt \<Longrightarrow> P opt'"
  by (metis keeps_def fst_conv)

lemma mega_small:
  assumes "0 \<le> v" "v < 2048"
  shows "mega v = nat v * 1048576"
proof -
  have "cint (v * 1024) = v * 1024" using assms by (intro cint_id) simp_all
  moreover have "cint (v * 1024 * 1024) = v * 1048576" using assms by (subst cint_id) simp_all
  moreover have "size_of_int (v * 1048576) = nat v * 1048576"
    using assms by (subst size_of_int_nonneg) (simp_all add: nat_mult_distrib)
  ultimately show ?thesis by (simp add: mega_def)
qed

lemma mega_overflow:
  assumes "2048 \<le> v" "v < 4096"
  shows "2 ^ 63 \<le> mega v"
proof -
  have 1: "cint (v * 1024) = v * 1024" using assms by (intro cint_id) simp_all
  have "(v * 1048576 + 2 ^ 31 - 2 ^ 32) mod 2 ^ 32 = v * 1048576 + 2 ^ 31 - 2 ^ 32"
    using assms by (intro mod_pos_pos_trivial) simp_all
  then have "(v * 1048576 + 2 ^ 31) mod 2 ^ 32 = v * 1048576 + 2 ^ 31 - 2 ^ 32" by (simp only: minus_mod_self2)
  then have "cint (v * 1024 * 1024) = v * 1048576 - 2 ^ 32" by (simp add: cint_def mult.commute)
  moreover have "(v * 1048576 - 2 ^ 32 + 2 ^ 64) mod 2 ^ 64 = v * 1048576 - 2 ^ 32 + 2 ^ 64"
    using assms by (intro mod_pos_pos_trivial) simp_all
  then have "(v * 1048576 - 2 ^ 32) mod 2 ^ 64 = v * 1048576 - 2 ^ 32 + 2 ^ 64" by (simp only: mod_add_self2)
  ultimately show ?thesis using assms 1 by (simp add: mega_def size_of_int_def)
qed

text \<open>A YAML document as a tree, for the witnesses.\<close>

datatype ynode = Undefined | Num int | Str string | Node "(string \<times> ynode) list"

definition tree_yaml :: "ynode \<Rightarrow> ynode yaml_api" where
  "tree_yaml doc = \<lparr>ya_load = (\<lambda>file. if file = [] then Inl BadFile else Inr doc),
     ya_index = (\<lambda>n k. case n of Node kvs \<Rightarrow> (case map_of kvs k of Some v \<Rightarrow> Inr v | None \<Rightarrow> Inr Undefined)
       | Undefined \<Rightarrow> Inr Undefined | _ \<Rightarrow> Inl BadSubscript),
     ya_defined = (\<lambda>n. n \<noteq> Undefined),
     ya_as_ushort = (\<lambda>n. case n of Num v \<Rightarrow> if 0 \<le> v \<and> v < 65536 then Inr v else Inl BadConversion | _ \<Rightarrow> Inl BadConversion),
     ya_as_int = (\<lambda>n. case n of Num v \<Rightarrow> Inr v | _ \<Rightarrow> Inl BadConversion),
     ya_as_string = (\<lambda>n. case n of Str v \<Rightarrow> Inr v | _ \<Rightarrow> Inl BadConversion)\<rparr>"

definition sample_yaml :: ynode where
  "sample_yaml = Node [(''ListenPort'', Num 8080), (''Connection'', Node [(''IdleTimer'', Num 3), (''MaxBodySize'', Num 16)]),
     (''Logger'', Node [(''console'', Str ''false'')])]"

subsection \<open>Properties\<close>

text \<open>C35: whatever the configuration file holds, \<open>load_config\<close> either returns options or is left by an
  exception that has no handler. The options it returns always log to the console and never ask for
  \<open>SO_REUSEPORT\<close> (so no setting reaches the branch of \<open>main\<close> that needs it), and a file that cannot be
  loaded gives the default options.\<close>

theorem load_config_outcome:
  "(case load_config api file of
      Inl e \<Rightarrow> \<not> caught e
    | Inr opt \<Rightarrow> cl_cout (op_logger opt) \<and> op_reuse_port opt = 0) \<and>
   (\<forall>e. ya_load api file = Inl e \<and> caught e \<longrightarrow> load_config api file = Inr default_options)"
proof -
  obtain opt exn where r: "(case ya_load api file of Inl e \<Rightarrow> (default_options, Some e)
      | Inr config \<Rightarrow> read_config api config default_options) = (opt, exn)" by fastforce
  have "cl_cout (op_logger default_options) \<and> op_reuse_port default_options = 0" by (simp add: default_options_def)
  then have "cl_cout (op_logger opt) \<and> op_reuse_port opt = 0"
    using r keeps_run [OF read_config_keeps, of api _ default_options opt exn] by (auto split: sum.splits)
  then show ?thesis using r by (auto simp: load_config_def split: option.splits)
qed

theorem load_config_outcome_witness:
  "load_config (tree_yaml sample_yaml) [] = Inr default_options"
  using load_config_outcome [of "tree_yaml sample_yaml" "[]"] by (simp add: tree_yaml_def caught_def)



end
