(* ===== verification/Redis.thy ===== *)
theory Redis
  imports Modules Options
begin

text \<open>
  The redis module (\<^verbatim>\<open>src/src/modules/redis.hpp\<close>, \<^verbatim>\<open>src/src/modules/redis.cpp\<close>): the list of servers,
  the coroutine that forwards commands to one server, and the handler that stores and reads back one
  key per request.

  The tokenizer and the number conversion of Boost, the channels of the coroutine library and the
  client library of redis are arguments (\<open>token_lib\<close>, \<open>redis_lib\<close>). The contents of the channels, and
  everything else outside the module, are the state \<open>'w\<close>. A reply is a shared pointer that may be
  null, and its text may be a null pointer.
\<close>

unbundle bit_operations_syntax

subsection \<open>Types\<close>

record endpoint =
  ep_host :: string
  ep_port :: nat

record command =
  co_cid :: conid_t
  co_cmd :: "string list"

record redisReply =
  rr_type :: int
  rr_integer :: int
  rr_str :: "string option"

text \<open>The state of the module: \<open>rm_reply\<close> are the connections that have a channel for replies.\<close>

record redis_state =
  rm_config :: "endpoint list"
  rm_running :: bool
  rm_reply :: "conid_t set"

record token_lib =
  tk_split :: "string \<Rightarrow> string list"
  tk_port :: "string \<Rightarrow> nat option"

record ('c, 'w) redis_lib =
  rl_connect :: "string \<Rightarrow> nat \<Rightarrow> 'w \<Rightarrow> 'c option \<times> 'w"
  rl_err :: "'c \<Rightarrow> bool"
  rl_append :: "'c \<Rightarrow> string \<Rightarrow> 'w \<Rightarrow> 'c \<times> 'w"
  rl_get_reply :: "'c \<Rightarrow> 'w \<Rightarrow> redisReply option \<times> 'c \<times> 'w"
  rl_sleep :: "'w \<Rightarrow> 'w"
  rl_order_push :: "nat \<Rightarrow> command \<Rightarrow> 'w \<Rightarrow> bool \<times> 'w"
  rl_order_pop :: "nat \<Rightarrow> 'w \<Rightarrow> command \<times> 'w"
  rl_reply_new :: "conid_t \<Rightarrow> 'w \<Rightarrow> 'w"
  rl_reply_push :: "conid_t \<Rightarrow> redisReply option \<Rightarrow> 'w \<Rightarrow> 'w"
  rl_reply_pop :: "conid_t \<Rightarrow> 'w \<Rightarrow> redisReply option \<times> 'w"

subsection \<open>Construction\<close>

text \<open>An entry that is not a host and a port is logged and left out; an entry that is not a string
  throws.\<close>

fun parse_servers :: "token_lib \<Rightarrow> (yaml_exn + string) list \<Rightarrow> yaml_exn + endpoint list" where
  "parse_servers lib [] = Inr []"
| "parse_servers lib (s # ss) = (case s of Inl e \<Rightarrow> Inl e | Inr ep \<Rightarrow>
     (case parse_servers lib ss of Inl e \<Rightarrow> Inl e | Inr es \<Rightarrow>
       let ve = tk_split lib ep in
       if length ve \<noteq> 2 then Inr es
       else (case tk_port lib (ve ! 1) of None \<Rightarrow> Inr es | Some p \<Rightarrow> Inr (\<lparr>ep_host = ve ! 0, ep_port = p\<rparr> # es))))"

definition redis_make :: "token_lib \<Rightarrow> (yaml_exn + string) list option \<Rightarrow> yaml_exn + redis_state" where
  "redis_make lib servers = (case (case servers of None \<Rightarrow> Inr [] | Some ss \<Rightarrow> parse_servers lib ss) of
       Inl e \<Rightarrow> Inl e
     | Inr es \<Rightarrow> Inr \<lparr>rm_config = es, rm_running = True, rm_reply = {}\<rparr>)"

definition redis_handle_events :: nat where
  "redis_handle_events = HE_REQUEST_HDR OR HE_PROCESS_INIT OR HE_PROCESS_EXIT OR HE_CONNECT_INIT OR HE_CONNECT_EXIT"

subsection \<open>Connections\<close>

definition redis_on_connect_init :: "('c, 'w) redis_lib \<Rightarrow> conid_t \<Rightarrow> redis_state \<times> 'w \<Rightarrow> redis_state \<times> 'w" where
  "redis_on_connect_init lib cid = (\<lambda>(m, w). (m\<lparr>rm_reply := insert cid (rm_reply m)\<rparr>, rl_reply_new lib cid w))"

definition redis_on_connect_exit :: "conid_t \<Rightarrow> redis_state \<times> 'w \<Rightarrow> redis_state \<times> 'w" where
  "redis_on_connect_exit cid = (\<lambda>(m, w). (m\<lparr>rm_reply := rm_reply m - {cid}\<rparr>, w))"

subsection \<open>The coroutine of one server\<close>

datatype connection_state = Unknown | Connected | Disconnected

record 'c redis_worker =
  wk_state :: connection_state
  wk_context :: "'c option"

definition usable :: "('c, 'w) redis_lib \<Rightarrow> 'c option \<Rightarrow> bool" where
  "usable lib c \<longleftrightarrow> (case c of None \<Rightarrow> False | Some x \<Rightarrow> \<not> rl_err lib x)"

fun append_commands :: "('c, 'w) redis_lib \<Rightarrow> string list \<Rightarrow> 'c \<Rightarrow> 'w \<Rightarrow> 'c \<times> 'w" where
  "append_commands lib [] c w = (c, w)"
| "append_commands lib (x # xs) c w = (case rl_append lib c (c_str x) w of (c1, w1) \<Rightarrow> append_commands lib xs c1 w1)"

fun forward_replies :: "('c, 'w) redis_lib \<Rightarrow> conid_t \<Rightarrow> string list \<Rightarrow> 'c \<Rightarrow> 'w \<Rightarrow> 'c \<times> 'w" where
  "forward_replies lib cid [] c w = (c, w)"
| "forward_replies lib cid (x # xs) c w = (case rl_get_reply lib c w of (r, c1, w1) \<Rightarrow>
     forward_replies lib cid xs c1 (rl_reply_push lib cid r w1))"

text \<open>One round of the loop of the coroutine for server \<open>i\<close>.\<close>

definition worker_step :: "('c, 'w) redis_lib \<Rightarrow> nat \<Rightarrow> endpoint \<Rightarrow> redis_state \<Rightarrow> 'c redis_worker \<times> 'w \<Rightarrow> 'c redis_worker \<times> 'w" where
  "worker_step lib i ep m = (\<lambda>(wk, w). let
       (ctx, w1) = (if usable lib (wk_context wk) then (wk_context wk, w) else rl_connect lib (c_str (ep_host ep)) (ep_port ep) w)
     in case ctx of
         None \<Rightarrow> (\<lparr>wk_state = Disconnected, wk_context = ctx\<rparr>, rl_sleep lib w1)
       | Some c \<Rightarrow> if rl_err lib c then (\<lparr>wk_state = Disconnected, wk_context = ctx\<rparr>, rl_sleep lib w1)
           else let (cmd, w2) = rl_order_pop lib i w1 in
             if co_cid cmd \<notin> rm_reply m then (\<lparr>wk_state = Connected, wk_context = ctx\<rparr>, w2)
             else let (c1, w3) = append_commands lib (co_cmd cmd) c w2;
                      (c2, w4) = forward_replies lib (co_cid cmd) (co_cmd cmd) c1 w3
               in (\<lparr>wk_state = Connected, wk_context = Some c2\<rparr>, w4))"

subsection \<open>The handler\<close>

definition redis_key :: "conid_t \<Rightarrow> txnid_t \<Rightarrow> string" where
  "redis_key cid tid = dec (unat cid) @ ''_'' @ dec (unat tid)"

definition redis_command :: "conid_t \<Rightarrow> txnid_t \<Rightarrow> command" where
  "redis_command cid tid = \<lparr>co_cid = cid, co_cmd =
     [c_str (snprintf_text 128 (''SET key_'' @ redis_key cid tid @ '' '' @ redis_key cid tid)),
      c_str (snprintf_text 128 (''GET key_'' @ redis_key cid tid))]\<rparr>"

text \<open>Sending the commands and waiting for two replies.\<close>

definition redis_exchange :: "('c, 'w) redis_lib \<Rightarrow> conid_t \<Rightarrow> txnid_t \<Rightarrow> redis_state \<times> 'w
    \<Rightarrow> (redisReply option \<times> redisReply option) \<times> redis_state \<times> 'w" where
  "redis_exchange lib cid tid = (\<lambda>(m, w).
     if rm_config m = [] then ((None, None), m, w)
     else let (ok, w1) = rl_order_push lib (unat cid mod length (rm_config m)) (redis_command cid tid) w in
       if \<not> ok then ((None, None), m, w1)
       else let (r1, w2) = rl_reply_pop lib cid w1; (r2, w3) = rl_reply_pop lib cid w2
         in ((r1, r2), m\<lparr>rm_reply := insert cid (rm_reply m)\<rparr>, w3))"

text \<open>The line for one reply. A null text is passed to \<open>printf\<close> and \<open>strcmp\<close>.\<close>

definition reply_line :: "redisReply option \<Rightarrow> string res" where
  "reply_line r = (case r of
       None \<Rightarrow> Inr (''<html>null reply</html>'' @ crlf)
     | Some x \<Rightarrow> (case rr_str x of None \<Rightarrow> Inl Null_pointer
         | Some s \<Rightarrow> Inr (''<html>'' @ fmt_d (rr_type x) @ '', '' @ fmt_d (rr_integer x) @ '', '' @ c_str s @ ''</html>'' @ crlf)))"

definition compare_lines :: "conid_t \<Rightarrow> txnid_t \<Rightarrow> redisReply option \<Rightarrow> string list" where
  "compare_lines cid tid r2 = (case r2 of None \<Rightarrow> []
     | Some x \<Rightarrow> if c_str (snprintf_text 128 (redis_key cid tid)) \<noteq> c_str (the (rr_str x))
         then [''<html>not same</html>'' @ crlf] else [''<html>same</html>'' @ crlf])"

definition redis_lines :: "conid_t \<Rightarrow> txnid_t \<Rightarrow> redisReply option \<Rightarrow> redisReply option \<Rightarrow> string list res" where
  "redis_lines cid tid r1 r2 = rbind (reply_line r1) (\<lambda>l1. rbind (reply_line r2) (\<lambda>l2. Inr ([l1, l2] @ compare_lines cid tid r2)))"

text \<open>\<open>n = rsp->printf(...)\<close> and \<open>n += rsp->printf(...)\<close> for one line after the other.\<close>

fun print_lines :: "world \<Rightarrow> http_response \<Rightarrow> string list \<Rightarrow> int \<Rightarrow> (world \<times> http_response \<times> int) res" where
  "print_lines w rsp [] n = Inr (w, rsp, n)"
| "print_lines w rsp (l # ls) n = rbind (resp_printf w rsp l) (\<lambda>(w1, r1, k). print_lines w1 r1 ls (cint (n + k)))"

definition redis_answer :: "redisReply option \<Rightarrow> redisReply option \<Rightarrow> 'p on_request" where
  "redis_answer r1 r2 cid tid t api req w rsp =
     rbind (resp_status t w rsp 200 ''OK'') (\<lambda>(w1, p1).
     rbind (resp_keep_alive w1 p1 (req_keep_alive api req)) (\<lambda>(w2, p2).
     rbind (resp_content_type w2 p2 (Some ''text/html'') None) (\<lambda>(w3, p3).
     rbind (redis_lines cid tid r1 r2) (\<lambda>ls.
     rbind (print_lines w3 p3 ls 0) (\<lambda>(w4, p4, n).
     rbind (resp_header_fmt w4 p4 ''Content-Length'' (fmt_d n)) (\<lambda>(w5, p5).
     resp_eom w5 p5))))))"

text \<open>\<open>on_request_header\<close>, given what the exchange returned.\<close>

definition redis_on_request_header :: "('c, 'w) redis_lib \<Rightarrow> conid_t \<Rightarrow> txnid_t \<Rightarrow> tm \<Rightarrow> 'p http_parser_api \<Rightarrow> 'p http_request
    \<Rightarrow> world \<Rightarrow> http_response \<Rightarrow> redis_state \<times> 'w \<Rightarrow> (world \<times> http_response) res \<times> redis_state \<times> 'w" where
  "redis_on_request_header lib cid tid t api req w rsp mw = (case redis_exchange lib cid tid mw of
     ((r1, r2), mw') \<Rightarrow> (redis_answer r1 r2 cid tid t api req w rsp, mw'))"

definition redis_module :: "(conid_t \<Rightarrow> txnid_t \<Rightarrow> redisReply option \<times> redisReply option) \<Rightarrow> 'p module_handler" where
  "redis_module replies = \<lparr>mh_handle_events = redis_handle_events, mh_path = Some ''/redis'', mh_name = ''redis'',
     mh_on_request_header = (\<lambda>cid tid. case replies cid tid of (r1, r2) \<Rightarrow> redis_answer r1 r2 cid tid),
     mh_on_request_body = ignore_request\<rparr>"

subsection \<open>Lemmas\<close>

lemma print_lines_ok:
  assumes "resp_inv w lent r" "int (length (concat ls)) < back_room w (rs_body r)" "0 \<le> n" "n + int (length (concat ls)) < 2 ^ 31"
  shows "\<exists>w'. print_lines w r ls n = Inr (w', r, n + int (length (concat ls))) \<and> wrote_body w lent r (concat ls) w'"
  using assms
proof (induction ls arbitrary: w n)
  case Nil
  then show ?case by (simp add: wrote_body_def others_same_def)
next
  case (Cons l ls)
  obtain w1 where 1: "resp_printf w r l = Inr (w1, r, int (length l))" "wrote_body w lent r l w1"
    using printf_fits [of w lent r l 0] Cons.prems(1,2) by (auto simp: resp_printf_def)
  have "cint (n + int (length l)) = n + int (length l)" using Cons.prems(3,4) by (intro cint_id) simp_all
  moreover obtain w' where 2: "print_lines w1 r ls (n + int (length l)) = Inr (w', r, n + int (length l) + int (length (concat ls)))"
      "wrote_body w1 lent r (concat ls) w'"
    using Cons.IH [of w1 "n + int (length l)"] 1(2) Cons.prems by (auto simp: wrote_body_def)
  ultimately show ?case using 1 2 others_same_trans [of w lent "resp_buffers r" w1 w'] by (auto simp: wrote_body_def)
qed

lemma redis_lines_cases:
  "(\<exists>ls. redis_lines cid tid r1 r2 = Inr ls) \<or>
   (redis_lines cid tid r1 r2 = Inl Null_pointer \<and> (\<exists>x. (r1 = Some x \<or> r2 = Some x) \<and> rr_str x = None))"
  by (auto simp: redis_lines_def reply_line_def split: option.splits)

lemma redis_answer_start:
  assumes m: "resp_inv w lent r" "header_text w r = []" "body_text w r = []"
      "back_room w (rs_header r) = n" "back_room w (rs_body r) = n" and date: "date_text t = Inr d"
    and room: "int (length d) + 200 < n" "n < 2 ^ 31"
  obtains w3 r3 where
    "redis_answer r1 r2 cid tid t api req w r = rbind (redis_lines cid tid r1 r2) (\<lambda>ls.
       rbind (print_lines w3 r3 ls 0) (\<lambda>(w4, p4, k). rbind (resp_header_fmt w4 p4 ''Content-Length'' (fmt_d k)) (\<lambda>(w5, p5). resp_eom w5 p5)))"
    "resp_inv w3 lent r3" "rs_status r3 = 200" "body_text w3 r3 = []" "back_room w3 (rs_body r3) = n" "resp_is_keep_alive r3 = req_keep_alive api req"
    "header_text w3 r3 = ''HTTP/1.1 200 OK'' @ crlf @ ''Server: cohttp/0.9.0'' @ crlf @ d @ keep_alive_text (req_keep_alive api req) @ ''Content-Type: text/html'' @ crlf"
    "60 < back_room w3 (rs_header r3)"
proof -
  let ?ka = "req_keep_alive api req"
  let ?s = "status_text 200 ''OK'' @ d" and ?k = "keep_alive_text ?ka" and ?c = "content_type_text (Some ''text/html'') None"
  have st: "status_text 200 ''OK'' = ''HTTP/1.1 200 OK'' @ crlf @ ''Server: cohttp/0.9.0'' @ crlf" by (rule hello_page_facts(1))
  have len: "length (status_text 200 ''OK'') = 39" "length ?k \<le> 24" "length ?c = 25"
    by (simp_all add: st crlf_def keep_alive_text_def content_type_text_def)
  have inv_upd: "resp_inv w lent (r\<lparr>rs_status := x\<rparr>) = resp_inv w lent r" "resp_inv w lent (r\<lparr>rs_alive := x\<rparr>) = resp_inv w lent r"
    for w lent x and r :: http_response
    by (simp_all add: resp_inv_def resp_buffers_def)
  obtain w1 where 1: "resp_status t w r 200 ''OK'' = Inr (w1, r\<lparr>rs_status := 200\<rparr>)" "wrote_header w lent r ?s w1"
    using resp_status_ok [OF m(1) date, of 200 "''OK''"] m(4) len room by auto
  let ?r = "r\<lparr>rs_status := 200\<rparr>"
  let ?r2 = "?r\<lparr>rs_alive := (if ?ka then 1 else 0)\<rparr>"
  obtain w2 where 2: "resp_keep_alive w1 ?r ?ka = Inr (w2, ?r2)" "wrote_header w1 lent ?r ?k w2"
    using resp_keep_alive_ok [of w1 lent ?r ?ka] 1(2) m(4) len room by (auto simp: wrote_header_def inv_upd)
  obtain w3 where 3: "resp_content_type w2 ?r2 (Some ''text/html'') None = Inr (w3, ?r2)" "wrote_header w2 lent ?r2 ?c w3"
    using resp_content_type_ok [of w2 lent ?r2 "Some ''text/html''" None] 1(2) 2(2) m(4) len room by (auto simp: wrote_header_def inv_upd)
  show thesis
  proof (rule that [of w3 ?r2])
    show "header_text w3 ?r2 = ''HTTP/1.1 200 OK'' @ crlf @ ''Server: cohttp/0.9.0'' @ crlf @ d @ ?k @ ''Content-Type: text/html'' @ crlf"
      using 1(2) 2(2) 3(2) m(2) by (simp add: wrote_header_def header_text_def st content_type_text_def)
    show "60 < back_room w3 (rs_header ?r2)" using 1(2) 2(2) 3(2) m(4) len room by (simp add: wrote_header_def)
    show "body_text w3 ?r2 = []" using 1(2) 2(2) 3(2) m(3) by (simp add: wrote_header_def body_text_def)
  qed (use 1 2 3 m(5) in \<open>simp_all add: redis_answer_def wrote_header_def resp_is_keep_alive_def\<close>)
qed

subsection \<open>Properties of the page\<close>


definition ok_reply :: redisReply where
  "ok_reply = \<lparr>rr_type = 5, rr_integer = 0, rr_str = Some ''OK''\<rparr>"

definition value_reply :: "conid_t \<Rightarrow> txnid_t \<Rightarrow> redisReply" where
  "value_reply cid tid = \<lparr>rr_type = 1, rr_integer = 0, rr_str = Some (redis_key cid tid)\<rparr>"


subsection \<open>Properties of the exchange\<close>

text \<open>A library whose workers answer every command at once: \<open>q\<close> are the replies in the channel of each
  connection, first in first out.\<close>

definition prompt :: "('c, 'w) redis_lib \<Rightarrow> ('w \<Rightarrow> conid_t \<Rightarrow> redisReply option list) \<Rightarrow> bool" where
  "prompt lib q \<longleftrightarrow>
     (\<forall>i cid tid w. case rl_order_push lib i (redis_command cid tid) w of (ok, w') \<Rightarrow>
        ok \<and> q w' cid = q w cid @ [Some ok_reply, Some (value_reply cid tid)]) \<and>
     (\<forall>cid w. case rl_reply_pop lib cid w of (r, w') \<Rightarrow>
        (case q w cid of [] \<Rightarrow> r = None \<and> q w' cid = [] | x # xs \<Rightarrow> r = x \<and> q w' cid = xs))"

lemma redis_key_facts: "CHR 0x00 \<notin> set (redis_key cid tid)" "length (redis_key cid tid) \<le> 31"
proof -
  show "CHR 0x00 \<notin> set (redis_key cid tid)" using dec_no_nul by (simp add: redis_key_def)
  have "unat cid < 10 ^ Suc 19" "unat tid < 10 ^ Suc 9"
    using unsigned_less [of cid, where 'a = nat] unsigned_less [of tid, where 'a = nat] by simp_all
  then have "length (dec (unat cid)) \<le> 20" "length (dec (unat tid)) \<le> 10" using dec_length by fastforce+
  then show "length (redis_key cid tid) \<le> 31" by (simp add: redis_key_def)
qed

lemma redis_key_c_str: "c_str (snprintf_text 128 (redis_key cid tid)) = redis_key cid tid" "c_str (redis_key cid tid) = redis_key cid tid"
proof -
  show "c_str (snprintf_text 128 (redis_key cid tid)) = redis_key cid tid"
    using c_str_snprintf [of 128 "redis_key cid tid"] redis_key_facts [of cid tid] by simp
  show "c_str (redis_key cid tid) = redis_key cid tid"
    using redis_key_facts(1) [of cid tid] by (auto simp: c_str_def takeWhile_eq_all_conv)
qed

lemma redis_key_inj: "redis_key cid tid = redis_key cid tid' \<Longrightarrow> tid = tid'"
proof -
  assume "redis_key cid tid = redis_key cid tid'"
  then have "undec (dec (unat tid)) = undec (dec (unat tid'))" by (simp add: redis_key_def)
  then show "tid = tid'" by (simp only: undec_dec unsigned_word_eqI)
qed

lemma prompt_exchange:
  assumes "prompt lib q" "rm_config m \<noteq> []" "q w cid @ [Some ok_reply, Some (value_reply cid tid)] = a # b # rest"
  shows "\<exists>m' w'. redis_exchange lib cid tid (m, w) = ((a, b), m', w') \<and> q w' cid = rest"
proof -
  obtain ok w1 where 1: "rl_order_push lib (unat cid mod length (rm_config m)) (redis_command cid tid) w = (ok, w1)" by fastforce
  obtain r1 w2 where 2: "rl_reply_pop lib cid w1 = (r1, w2)" by fastforce
  obtain r2 w3 where 3: "rl_reply_pop lib cid w2 = (r2, w3)" by fastforce
  have "ok" "q w1 cid = a # b # rest" using assms(1,3) 1 unfolding prompt_def by (metis (mono_tags, lifting) case_prod_conv)+
  moreover from this have "r1 = a" "q w2 cid = b # rest"
    using assms(1) 2 unfolding prompt_def by (metis (mono_tags, lifting) case_prod_conv list.case(2))+
  moreover from this have "r2 = b" "q w3 cid = rest"
    using assms(1) 3 unfolding prompt_def by (metis (mono_tags, lifting) case_prod_conv list.case(2))+
  ultimately show ?thesis using assms(2) 1 2 3 by (simp add: redis_exchange_def Let_def)
qed


text \<open>A library with one list of replies per connection.\<close>

definition fifo_lib :: "(unit, conid_t \<Rightarrow> redisReply option list) redis_lib" where
  "fifo_lib = \<lparr>rl_connect = (\<lambda>_ _ w. (Some (), w)), rl_err = (\<lambda>_. False), rl_append = (\<lambda>c _ w. (c, w)), rl_get_reply = (\<lambda>c w. (None, c, w)),
     rl_sleep = (\<lambda>w. w),
     rl_order_push = (\<lambda>_ cmd w. (True, w(co_cid cmd := w (co_cid cmd) @ [Some ok_reply,
       Some \<lparr>rr_type = 1, rr_integer = 0, rr_str = Some (drop 8 (co_cmd cmd ! 1))\<rparr>]))),
     rl_order_pop = (\<lambda>_ w. (\<lparr>co_cid = 0, co_cmd = []\<rparr>, w)), rl_reply_new = (\<lambda>cid w. w(cid := [])),
     rl_reply_push = (\<lambda>cid r w. w(cid := w cid @ [r])),
     rl_reply_pop = (\<lambda>cid w. case w cid of [] \<Rightarrow> (None, w) | x # xs \<Rightarrow> (x, w(cid := xs)))\<rparr>"

lemma fifo_prompt: "prompt fifo_lib (\<lambda>w. w)"
proof -
  have "drop 8 (c_str (snprintf_text 128 (''GET key_'' @ redis_key cid tid))) = redis_key cid tid" for cid tid
    using c_str_snprintf [of 128 "''GET key_'' @ redis_key cid tid"] redis_key_facts [of cid tid] by simp
  then show ?thesis by (auto simp: prompt_def fifo_lib_def redis_command_def value_reply_def split: list.splits)
qed


end
