(* ===== verification/Codecs.thy ===== *)
theory Codecs
  imports Iobufs Request
begin

text \<open>
  The codec of \<^verbatim>\<open>src/src/codecs.hpp\<close> and \<^verbatim>\<open>src/src/codecs.cpp\<close>: the callbacks that build a request
  while the parser library runs over a buffer, and the loop that feeds the parser.

  The parser's \<open>http_parser_execute\<close> is an argument of the operations. It receives the callbacks
  (\<open>http_parser_settings\<close>), the memory, the request that owns the parser state, and the address and
  length of the input; it returns the request as the callbacks left it and the number of bytes it
  consumed. What the loop relies on is the predicate \<open>consumes\<close>; what the callbacks see is a list
  of events.
\<close>

subsection \<open>Callbacks\<close>

type_synonym 'p notify_cb = "'p http_request \<Rightarrow> 'p http_request \<times> int"
type_synonym 'p data_cb = "'p http_request \<Rightarrow> nat \<Rightarrow> nat \<Rightarrow> 'p http_request \<times> int"

record 'p http_parser_settings =
  on_message_begin :: "'p notify_cb"
  on_url :: "'p data_cb"
  on_header_field :: "'p data_cb"
  on_header_value :: "'p data_cb"
  on_headers_complete :: "'p notify_cb"
  on_body :: "'p data_cb"
  on_message_complete :: "'p notify_cb"

definition of_message_begin :: "'p notify_cb" where
  "of_message_begin r = (r, 0)"

text \<open>A component of the URL: a slice of the bytes of \<open>strurl_\<close>.\<close>

definition url_slice :: "'p http_request \<Rightarrow> http_parser_url \<Rightarrow> url_field \<Rightarrow> slice \<Rightarrow> slice" where
  "url_slice r hpu uf old = (if hpu_field_set hpu uf
     then slice_make (Some (rq_urldata r + fst (hpu_field_data hpu uf))) (int (snd (hpu_field_data hpu uf)))
     else old)"

definition of_headers_complete :: "'p http_parser_api \<Rightarrow> (fields_t \<Rightarrow> fields_t) \<Rightarrow> 'p notify_cb" where
  "of_headers_complete api std_sort r0 = (let
       r = sorthdr std_sort (r0\<lparr>rq_headers_completed := True\<rparr>);
       hpu = hp_parse_url api (rq_strurl r) (req_method api r = HTTP_CONNECT);
       u = rq_decurl r;
       u' = \<lparr>pu_nport = hpu_port hpu,
             pu_schema = url_slice r hpu UF_SCHEMA (pu_schema u),
             pu_host = url_slice r hpu UF_HOST (pu_host u),
             pu_port = url_slice r hpu UF_PORT (pu_port u),
             pu_path = url_slice r hpu UF_PATH (pu_path u),
             pu_query = url_slice r hpu UF_QUERY (pu_query u),
             pu_frag = url_slice r hpu UF_FRAGMENT (pu_frag u),
             pu_user = url_slice r hpu UF_USERINFO (pu_user u)\<rparr>
     in (r\<lparr>rq_decurl := u'\<rparr>, 100))"

definition of_message_complete :: "'p notify_cb" where
  "of_message_complete r = (r\<lparr>rq_message_completed := True\<rparr>, 100)"

text \<open>The bytes \<open>[at, at + length)\<close>.\<close>

definition bytes_at :: "mem \<Rightarrow> nat \<Rightarrow> nat \<Rightarrow> string" where
  "bytes_at m at n = map m [at..<at + n]"

definition of_url :: "mem \<Rightarrow> 'p data_cb" where
  "of_url m r at n = (r\<lparr>rq_strurl := rq_strurl r @ bytes_at m at n\<rparr>, 0)"

definition of_header_field :: "mem \<Rightarrow> 'p data_cb" where
  "of_header_field m r at n = (
     if rq_state_field_value r then
       (r\<lparr>rq_state_field_value := False, rq_fields := rq_fields r @ [(bytes_at m at n, [])]\<rparr>, 0)
     else if rq_fields r = [] then (r, 1)
     else (let (f, v) = last (rq_fields r) in
       (r\<lparr>rq_fields := butlast (rq_fields r) @ [(f @ bytes_at m at n, v)]\<rparr>, 0)))"

definition of_header_value :: "mem \<Rightarrow> 'p data_cb" where
  "of_header_value m r0 at n = (let r = r0\<lparr>rq_state_field_value := True\<rparr> in
     if rq_fields r = [] then (r, 1)
     else (let (f, v) = last (rq_fields r) in
       (r\<lparr>rq_fields := butlast (rq_fields r) @ [(f, v @ bytes_at m at n)]\<rparr>, 0)))"

definition of_body :: "'p data_cb" where
  "of_body r0 at n = (let r = r0\<lparr>rq_bodysz := rq_bodysz r0 + int n\<rparr> in
     if rq_bodybf r = [] then (r\<lparr>rq_bodybf := [slice_make (Some at) (int_of_size n)]\<rparr>, 0)
     else (let c = last (rq_bodybf r) in
       if (case slice_data c of Some a \<Rightarrow> a | None \<Rightarrow> 0) + slice_size c = at
       then (r\<lparr>rq_bodybf := butlast (rq_bodybf r) @ [slice_make (slice_data c) (int_of_size (sz (slice_size c + n)))]\<rparr>, 0)
       else (r\<lparr>rq_bodybf := rq_bodybf r @ [slice_make (Some at) (int_of_size n)]\<rparr>, 0)))"

definition codec_config :: "'p http_parser_api \<Rightarrow> (fields_t \<Rightarrow> fields_t) \<Rightarrow> mem \<Rightarrow> 'p http_parser_settings" where
  "codec_config api std_sort m = \<lparr>on_message_begin = of_message_begin, on_url = of_url m,
     on_header_field = of_header_field m, on_header_value = of_header_value m,
     on_headers_complete = of_headers_complete api std_sort, on_body = of_body,
     on_message_complete = of_message_complete\<rparr>"

subsection \<open>The parse loop\<close>

type_synonym 'p executor = "'p http_parser_settings \<Rightarrow> mem \<Rightarrow> 'p http_request \<Rightarrow> nat \<Rightarrow> nat \<Rightarrow> 'p http_request \<times> nat"

partial_function (option) parse_loop :: "'p http_parser_api \<Rightarrow> 'p executor \<Rightarrow> 'p http_parser_settings \<Rightarrow> mem \<Rightarrow> nat
    \<Rightarrow> iobuf \<Rightarrow> 'p http_request \<Rightarrow> (iobuf \<times> 'p http_request) option" where
  "parse_loop api exec cfg m base io r = (
     if iobuf_get_r_len io > 0 \<and> \<not> message_completed r \<and> req_error api r = HPE_OK
     then (let (r', nparsed) = exec cfg m r (base + nat (iobuf_get_r_buf io)) (size_of_int (iobuf_get_r_len io))
           in parse_loop api exec cfg m base (fst (iobuf_set_r_len io (int_of_size nparsed))) r')
     else Some (io, r))"

definition clear_cb_error :: "'p http_parser_api \<Rightarrow> 'p http_request \<Rightarrow> 'p http_request" where
  "clear_cb_error api r = (if req_error api r = HPE_CB_message_complete \<or> req_error api r = HPE_CB_headers_complete
     then r\<lparr>rq_parsed := hp_set_errno api (rq_parsed r) HPE_OK\<rparr> else r)"

definition codec_parse :: "'p http_parser_api \<Rightarrow> (fields_t \<Rightarrow> fields_t) \<Rightarrow> 'p executor \<Rightarrow> mem \<Rightarrow> nat
    \<Rightarrow> iobuf \<Rightarrow> 'p http_request \<Rightarrow> (iobuf \<times> 'p http_request) option" where
  "codec_parse api std_sort exec m base io r =
     map_option (\<lambda>(io', r'). (io', clear_cb_error api r')) (parse_loop api exec (codec_config api std_sort m) m base io r)"

subsection \<open>Events\<close>

text \<open>What the parser reports while it runs. It stops at the first callback that does not return 0.\<close>

datatype event = Message_begin | Url nat nat | Header_field nat nat | Header_value nat nat | Headers_complete
  | Body nat nat | Message_complete

fun deliver :: "'p http_parser_settings \<Rightarrow> event \<Rightarrow> 'p http_request \<Rightarrow> 'p http_request \<times> int" where
  "deliver cfg Message_begin r = on_message_begin cfg r"
| "deliver cfg (Url at n) r = on_url cfg r at n"
| "deliver cfg (Header_field at n) r = on_header_field cfg r at n"
| "deliver cfg (Header_value at n) r = on_header_value cfg r at n"
| "deliver cfg Headers_complete r = on_headers_complete cfg r"
| "deliver cfg (Body at n) r = on_body cfg r at n"
| "deliver cfg Message_complete r = on_message_complete cfg r"

fun deliver_all :: "'p http_parser_settings \<Rightarrow> event list \<Rightarrow> 'p http_request \<Rightarrow> 'p http_request \<times> int" where
  "deliver_all cfg [] r = (r, 0)"
| "deliver_all cfg (e # es) r = (let (r', rc) = deliver cfg e r in if rc \<noteq> 0 then (r', rc) else deliver_all cfg es r')"

lemma deliver_all_append:
  "deliver_all cfg (xs @ ys) r = (let (r', rc) = deliver_all cfg xs r in
     if rc \<noteq> 0 then (r', rc) else deliver_all cfg ys r')"
  by (induction xs arbitrary: r) (auto split: prod.splits simp: Let_def)

text \<open>Pieces of memory, and the events that report a header whose name and value arrive in any
  number of pieces.\<close>

definition pieces :: "mem \<Rightarrow> (nat \<times> nat) list \<Rightarrow> string" where
  "pieces m ps = concat (map (\<lambda>(at, n). bytes_at m at n) ps)"

lemma pieces_simps [simp]: "pieces m [] = []" "pieces m ((at, n) # ps) = bytes_at m at n @ pieces m ps"
  by (simp_all add: pieces_def)

fun header_events :: "((nat \<times> nat) list \<times> (nat \<times> nat) list) list \<Rightarrow> event list" where
  "header_events [] = []"
| "header_events ((ks, vs) # hs) = map (\<lambda>(at, n). Header_field at n) ks @ map (\<lambda>(at, n). Header_value at n) vs @ header_events hs"

definition header_ok :: "((nat \<times> nat) list \<times> (nat \<times> nat) list) list \<Rightarrow> bool" where
  "header_ok hs \<longleftrightarrow> list_all (\<lambda>(ks, vs). ks \<noteq> [] \<and> vs \<noteq> []) hs"

lemma deliver_config [simp]:
  "deliver (codec_config api srt m) (Header_field at n) = (\<lambda>r. of_header_field m r at n)"
  "deliver (codec_config api srt m) (Header_value at n) = (\<lambda>r. of_header_value m r at n)"
  "deliver (codec_config api srt m) (Url at n) = (\<lambda>r. of_url m r at n)"
  "deliver (codec_config api srt m) (Body at n) = (\<lambda>r. of_body r at n)"
  "deliver (codec_config api srt m) Headers_complete = of_headers_complete api srt"
  by (simp_all add: codec_config_def fun_eq_iff)

lemma more_field:
  assumes "\<not> rq_state_field_value r" "rq_fields r = fs @ [(k, v)]"
  shows "deliver_all (codec_config api srt m) (map (\<lambda>(at, n). Header_field at n) ps) r =
    (r\<lparr>rq_fields := fs @ [(k @ pieces m ps, v)]\<rparr>, 0)"
  using assms
proof (induction ps arbitrary: r k)
  case (Cons p ps)
  then show ?case by (cases p) (simp add: of_header_field_def)
qed simp

lemma more_value:
  assumes "rq_fields r = fs @ [(k, v)]"
  shows "deliver_all (codec_config api srt m) (map (\<lambda>(at, n). Header_value at n) (p # ps)) r =
    (r\<lparr>rq_state_field_value := True, rq_fields := fs @ [(k, v @ pieces m (p # ps))]\<rparr>, 0)"
  using assms
proof (induction ps arbitrary: r v p)
  case Nil
  then show ?case by (cases p) (simp add: of_header_value_def Let_def)
next
  case (Cons q ps)
  let ?r = "r\<lparr>rq_state_field_value := True, rq_fields := fs @ [(k, v @ pieces m [p])]\<rparr>"
  have "deliver_all (codec_config api srt m) (map (\<lambda>(at, n). Header_value at n) (p # q # ps)) r =
      deliver_all (codec_config api srt m) (map (\<lambda>(at, n). Header_value at n) (q # ps)) ?r"
    using Cons.prems by (cases p) (simp add: of_header_value_def Let_def)
  also have "\<dots> = (?r\<lparr>rq_state_field_value := True, rq_fields := fs @ [(k, (v @ pieces m [p]) @ pieces m (q # ps))]\<rparr>, 0)"
    by (rule Cons.IH) simp
  finally show ?case by (cases p) simp
qed

lemma one_header:
  assumes "rq_state_field_value r" "ks \<noteq> []" "vs \<noteq> []"
  shows "deliver_all (codec_config api srt m) (map (\<lambda>(at, n). Header_field at n) ks @ map (\<lambda>(at, n). Header_value at n) vs) r =
    (r\<lparr>rq_fields := rq_fields r @ [(pieces m ks, pieces m vs)]\<rparr>, 0)"
proof -
  obtain k ks' v vs' where s: "ks = k # ks'" "vs = v # vs'" using assms(2,3) by (cases ks; cases vs) auto
  obtain a n where k: "k = (a, n)" by (cases k)
  let ?r1 = "r\<lparr>rq_state_field_value := False, rq_fields := rq_fields r @ [(bytes_at m a n, [])]\<rparr>"
  let ?r2 = "?r1\<lparr>rq_fields := rq_fields r @ [(pieces m ks, [])]\<rparr>"
  have 1: "deliver_all (codec_config api srt m) (map (\<lambda>(at, n). Header_field at n) ks) r = (?r2, 0)"
    using more_field [of ?r1 "rq_fields r" "bytes_at m a n" "[]" api srt m ks'] assms(1)
    by (simp add: s k of_header_field_def)
  have 2: "deliver_all (codec_config api srt m) (map (\<lambda>(at, n). Header_value at n) vs) ?r2 =
      (?r2\<lparr>rq_state_field_value := True, rq_fields := rq_fields r @ [(pieces m ks, [] @ pieces m vs)]\<rparr>, 0)"
    unfolding s(2) by (rule more_value) simp
  have "?r2\<lparr>rq_state_field_value := True, rq_fields := rq_fields r @ [(pieces m ks, [] @ pieces m vs)]\<rparr> =
      r\<lparr>rq_fields := rq_fields r @ [(pieces m ks, pieces m vs)]\<rparr>"
    using assms(1) by (cases r) simp
  with 2 show ?thesis unfolding deliver_all_append 1 by simp
qed

lemma header_events_deliver:
  assumes "header_ok hs" "rq_state_field_value r"
  shows "deliver_all (codec_config api srt m) (header_events hs) r =
    (r\<lparr>rq_fields := rq_fields r @ map (\<lambda>(ks, vs). (pieces m ks, pieces m vs)) hs\<rparr>, 0)"
  using assms
proof (induction hs arbitrary: r)
  case (Cons h hs)
  obtain ks vs where h: "h = (ks, vs)" by (cases h)
  have ne: "ks \<noteq> []" "vs \<noteq> []" and ok: "header_ok hs" using Cons.prems(1) by (auto simp: h header_ok_def)
  let ?r = "r\<lparr>rq_fields := rq_fields r @ [(pieces m ks, pieces m vs)]\<rparr>"
  have "deliver_all (codec_config api srt m) (header_events (h # hs)) r = deliver_all (codec_config api srt m) (header_events hs) ?r"
    using one_header [OF Cons.prems(2) ne, of api srt m]
    by (simp add: h deliver_all_append [of _ "map _ ks @ map _ vs", simplified])
  then show ?case using Cons.IH [OF ok, of ?r] Cons.prems(2) by (simp add: h)
qed simp

subsection \<open>The body\<close>

text \<open>Slices the parser reports lie above the null page and are no longer than an \<open>int\<close> can count.\<close>

definition body_inv :: "mem \<Rightarrow> 'p http_request \<Rightarrow> string \<Rightarrow> bool" where
  "body_inv m r s \<longleftrightarrow> concat (map (slice_bytes m) (rq_bodybf r)) = s \<and> rq_bodysz r = int (length s) \<and>
     list_all (\<lambda>c. slice_ok c \<and> sl_buf c \<noteq> None) (rq_bodybf r)"

lemma slice_bytes_make: "slice_bytes m (slice_make (Some a) (int n)) = bytes_at m a n"
  by (simp add: slice_bytes_def slice_make_def bytes_at_def)

lemma bytes_at_add: "bytes_at m a (k + n) = bytes_at m a k @ bytes_at m (a + k) n"
  using upt_add_eq_append [of a "a + k" n] by (simp add: bytes_at_def add.assoc)

lemma of_body_inv:
  assumes inv: "body_inv m r s" and small: "length s + n < 2 ^ 31"
  shows "\<exists>r'. of_body r at n = (r', 0) \<and> body_inv m r' (s @ bytes_at m at n) \<and> rq_fields r' = rq_fields r"
proof (cases "rq_bodybf r = []")
  case True
  then show ?thesis using inv small
    by (auto simp: of_body_def body_inv_def slice_bytes_make slice_ok_def slice_make_def bytes_at_def slice_bytes_def)
next
  case False
  define c bs where "c = last (rq_bodybf r)" and "bs = butlast (rq_bodybf r)"
  have split: "rq_bodybf r = bs @ [c]" using False by (simp add: c_def bs_def)
  have c: "slice_ok c" "sl_buf c \<noteq> None" and bs: "list_all (\<lambda>c. slice_ok c \<and> sl_buf c \<noteq> None) bs"
    using inv by (auto simp: body_inv_def split)
  obtain a where a: "sl_buf c = Some a" using c(2) by blast
  have s: "s = concat (map (slice_bytes m) bs) @ bytes_at m a (nat (sl_len c))"
    using inv a by (simp add: body_inv_def split slice_bytes_def bytes_at_def)
  then have len: "nat (sl_len c) + n < 2 ^ 31" using small by (simp add: bytes_at_def)
  have size: "slice_size c = nat (sl_len c)" "slice_data c = Some a"
    using c(1) a by (simp_all add: slice_size_def slice_ok_def size_of_int_nonneg slice_data_def)
  have n: "int_of_size n = int n" "int_of_size (nat (sl_len c) + n) = int (nat (sl_len c) + n)" "sz (nat (sl_len c) + n) = nat (sl_len c) + n"
    using len by (simp_all add: size_max_def)
  show ?thesis
  proof (cases "a + nat (sl_len c) = at")
    case True
    have "bytes_at m a (nat (sl_len c)) @ bytes_at m at n = bytes_at m a (nat (sl_len c) + n)"
      using True bytes_at_add by simp
    then show ?thesis
      using inv True bs len s
      by (auto simp: of_body_def Let_def split size n body_inv_def slice_bytes_make bytes_at_def slice_make_def slice_ok_def
          slice_bytes_def nat_add_distrib)
  next
    case no: False
    then show ?thesis
      using inv bs c len s
      by (auto simp: of_body_def Let_def split size n body_inv_def slice_bytes_make bytes_at_def slice_make_def slice_ok_def
          slice_bytes_def)
  qed
qed

subsection \<open>The loop\<close>

text \<open>What the loop needs of \<open>http_parser_execute\<close>: it consumes at most what it is given, and
  something unless it reports an error.\<close>

definition consumes :: "'p http_parser_api \<Rightarrow> 'p executor \<Rightarrow> bool" where
  "consumes api exec \<longleftrightarrow> (\<forall>cfg m r at n. snd (exec cfg m r at n) \<le> n \<and>
     (0 < n \<longrightarrow> req_error api r = HPE_OK \<longrightarrow> req_error api (fst (exec cfg m r at n)) = HPE_OK \<longrightarrow>
       0 < snd (exec cfg m r at n)))"

definition stopped :: "'p http_parser_api \<Rightarrow> iobuf \<Rightarrow> 'p http_request \<Rightarrow> bool" where
  "stopped api io r \<longleftrightarrow> iobuf_get_r_len io \<le> 0 \<or> message_completed r \<or> req_error api r \<noteq> HPE_OK"

definition read_on :: "iobuf \<Rightarrow> iobuf \<Rightarrow> bool" where
  "read_on io io' \<longleftrightarrow> iobuf_ok io' \<and> io_rpos io \<le> io_rpos io' \<and> (\<exists>k. io' = io\<lparr>io_rpos := k\<rparr>)"

lemma read_on_trans: "read_on a b \<Longrightarrow> read_on b c \<Longrightarrow> read_on a c"
  by (auto simp: read_on_def)

lemma parse_loop_stop: "stopped api io r \<Longrightarrow> parse_loop api exec cfg m base io r = Some (io, r)"
  by (subst parse_loop.simps) (auto simp: stopped_def)

lemma exec_step:
  assumes ok: "iobuf_ok io" and c: "consumes api exec" and go: "\<not> stopped api io r"
    and x: "exec cfg m r (base + nat (iobuf_get_r_buf io)) (size_of_int (iobuf_get_r_len io)) = (r', n)"
  obtains io' where "iobuf_set_r_len io (int_of_size n) = (io', True)" "read_on io io'"
    "stopped api io' r' \<or> io_rpos io < io_rpos io'"
proof -
  note len = iobuf_available(2) [OF ok]
  have b: "0 \<le> io_rpos io" "io_rpos io \<le> io_wpos io" "io_wpos io < 2 ^ 31" using ok by (auto simp: iobuf_ok_def)
  have pos: "0 < iobuf_get_r_len io" "req_error api r = HPE_OK" using go by (auto simp: stopped_def)
  then have sz: "size_of_int (iobuf_get_r_len io) = nat (iobuf_get_r_len io)" "0 < nat (iobuf_get_r_len io)"
    using b len by (simp_all add: size_of_int_nonneg)
  have n: "n \<le> nat (iobuf_get_r_len io)" "req_error api r' = HPE_OK \<Longrightarrow> 0 < n"
    using c x sz pos unfolding consumes_def by (metis fst_conv snd_conv)+
  then have i: "int n \<le> iobuf_get_r_len io" "n < 2 ^ 31" using b len pos by simp_all
  have "iobuf_set_r_len io (int_of_size n) = (io\<lparr>io_rpos := io_rpos io + int n\<rparr>, True)"
    using i b len by (simp add: iobuf_set_r_len_eq [OF ok])
  moreover have "read_on io (io\<lparr>io_rpos := io_rpos io + int n\<rparr>)"
    using ok i len by (auto simp: read_on_def iobuf_ok_def)
  ultimately show thesis using that n(2) by (auto simp: stopped_def)
qed

lemma parse_loop_total:
  assumes "iobuf_ok io" "consumes api exec"
  shows "\<exists>io' r'. parse_loop api exec cfg m base io r = Some (io', r') \<and> read_on io io' \<and> stopped api io' r'"
  using assms(1)
proof (induction "nat (io_wpos io - io_rpos io)" arbitrary: io r rule: less_induct)
  case less
  show ?case
  proof (cases "stopped api io r")
    case True
    then show ?thesis using less.prems by (auto simp: parse_loop_stop read_on_def intro!: exI [of _ "io_rpos io"])
  next
    case False
    obtain r' n where x: "exec cfg m r (base + nat (iobuf_get_r_buf io)) (size_of_int (iobuf_get_r_len io)) = (r', n)" by fastforce
    obtain io' where io': "iobuf_set_r_len io (int_of_size n) = (io', True)" "read_on io io'"
        "stopped api io' r' \<or> io_rpos io < io_rpos io'"
      by (rule exec_step [OF less.prems assms(2) False x])
    have step: "parse_loop api exec cfg m base io r = parse_loop api exec cfg m base io' r'"
      using False x io'(1) by (subst parse_loop.simps) (simp add: stopped_def)
    show ?thesis
    proof (cases "stopped api io' r'")
      case True
      then show ?thesis using step io'(2) by (auto simp: parse_loop_stop)
    next
      case no: False
      then have "nat (io_wpos io' - io_rpos io') < nat (io_wpos io - io_rpos io)" "iobuf_ok io'"
        using io'(2,3) by (auto simp: read_on_def iobuf_ok_def)
      from less.hyps [OF this] show ?thesis using step read_on_trans [OF io'(2)] by metis
    qed
  qed
qed

text \<open>A parser that stops in one of the two callbacks that pause it has consumed something too.\<close>

definition goes_on :: "http_errno \<Rightarrow> bool" where
  "goes_on e \<longleftrightarrow> e = HPE_OK \<or> e = HPE_CB_message_complete \<or> e = HPE_CB_headers_complete"

definition advances :: "'p http_parser_api \<Rightarrow> 'p executor \<Rightarrow> bool" where
  "advances api exec \<longleftrightarrow> (\<forall>cfg m r at n. 0 < n \<longrightarrow> req_error api r = HPE_OK \<longrightarrow>
     goes_on (req_error api (fst (exec cfg m r at n))) \<longrightarrow> 0 < snd (exec cfg m r at n))"

lemma parse_loop_advances:
  assumes ok: "iobuf_ok io" and c: "consumes api exec" "advances api exec"
    and p: "parse_loop api exec cfg m base io r = Some (io', r')" "goes_on (req_error api r')"
  shows "io_rpos io < io_rpos io' \<or> (io' = io \<and> r' = r)"
proof (cases "stopped api io r")
  case True
  then show ?thesis using p(1) by (simp add: parse_loop_stop)
next
  case False
  obtain r1 n where x: "exec cfg m r (base + nat (iobuf_get_r_buf io)) (size_of_int (iobuf_get_r_len io)) = (r1, n)" by fastforce
  obtain io1 where io1: "iobuf_set_r_len io (int_of_size n) = (io1, True)" "read_on io io1" "stopped api io1 r1 \<or> io_rpos io < io_rpos io1"
    by (rule exec_step [OF ok c(1) False x])
  have step: "parse_loop api exec cfg m base io1 r1 = Some (io', r')"
    using p(1) False x io1(1) by (subst (asm) parse_loop.simps) (simp add: stopped_def)
  have ok1: "iobuf_ok io1" using io1(2) by (simp add: read_on_def)
  obtain io2 r2 where "parse_loop api exec cfg m base io1 r1 = Some (io2, r2)" "read_on io1 io2" using parse_loop_total [OF ok1 c(1)] by blast
  then have le: "io_rpos io1 \<le> io_rpos io'" using step by (simp add: read_on_def)
  show ?thesis
  proof (cases "io_rpos io < io_rpos io1")
    case True
    then show ?thesis using le by simp
  next
    case no: False
    then have "r' = r1" using step io1(3) by (simp add: parse_loop_stop)
    then have g: "goes_on (req_error api r1)" using p(2) by simp
    have len: "0 < iobuf_get_r_len io" "iobuf_get_r_len io < 2 ^ 31" "req_error api r = HPE_OK"
      using False iobuf_available(2) [OF ok] ok by (auto simp: stopped_def iobuf_ok_def)
    then have sz: "size_of_int (iobuf_get_r_len io) = nat (iobuf_get_r_len io)" by (simp add: size_of_int_nonneg)
    have "0 < n" "n \<le> nat (iobuf_get_r_len io)"
      using c len x g sz unfolding advances_def consumes_def by (metis fst_conv snd_conv zero_less_nat_eq)+
    moreover from this have "cint (io_rpos io + int n) = io_rpos io + int n"
      using iobuf_available(2) [OF ok] ok by (intro cint_id) (auto simp: iobuf_ok_def)
    ultimately show ?thesis using no io1(1) len by (auto simp: iobuf_set_r_len_def split: if_splits)
  qed
qed

lemma codec_parse_advances:
  assumes "iobuf_ok io" "consumes api exec" "advances api exec"
    and "codec_parse api srt exec m base io r = Some (io', r')" "req_error api r' = HPE_OK"
  shows "io_rpos io < io_rpos io' \<or> (io' = io \<and> r' = clear_cb_error api r)"
proof -
  obtain r1 where p: "parse_loop api exec (codec_config api srt m) m base io r = Some (io', r1)" "r' = clear_cb_error api r1"
    using assms(4) by (auto simp: codec_parse_def)
  have "goes_on (req_error api r1)" using assms(5) p(2) by (auto simp: goes_on_def clear_cb_error_def split: if_splits)
  then show ?thesis using parse_loop_advances [OF assms(1-3) p(1)] p(2) by blast
qed

subsection \<open>Properties\<close>



text \<open>The body is the concatenation of the pieces the parser reports, whether or not they are
  adjacent in memory: the slices of \<open>bodybf_\<close> hold these bytes in order and \<open>bodysz_\<close> is their
  number.\<close>

theorem codec_body_pieces:
  assumes "rq_bodybf r = []" "rq_bodysz r = 0" "length (pieces m ps) < 2 ^ 31"
  shows "\<exists>r'. deliver_all (codec_config api srt m) (map (\<lambda>(at, n). Body at n) ps) r = (r', 0) \<and>
    concat (map (slice_bytes m) (rq_bodybf r')) = pieces m ps \<and> req_bodysz r' = int (length (pieces m ps)) \<and>
    list_all slice_ok (rq_bodybf r') \<and> rq_fields r' = rq_fields r"
proof -
  have gen: "\<exists>r'. deliver_all (codec_config api srt m) (map (\<lambda>(at, n). Body at n) ps) r = (r', 0) \<and>
      body_inv m r' (s @ pieces m ps) \<and> rq_fields r' = rq_fields r"
    if "body_inv m r s" "length s + length (pieces m ps) < 2 ^ 31" for s
    using that
  proof (induction ps arbitrary: r s)
    case (Cons p ps)
    obtain at n where p: "p = (at, n)" by (cases p)
    obtain r1 where r1: "of_body r at n = (r1, 0)" "body_inv m r1 (s @ bytes_at m at n)" "rq_fields r1 = rq_fields r"
      using of_body_inv [OF Cons.prems(1), of n at] Cons.prems(2) by (auto simp: p bytes_at_def)
    then show ?case using Cons.IH [OF r1(2)] Cons.prems(2) by (auto simp: p)
  qed simp
  have "body_inv m r []" using assms by (simp add: body_inv_def)
  from gen [OF this] assms(3) show ?thesis by (auto simp: body_inv_def req_bodysz_def list_all_iff)
qed

theorem codec_body_pieces_witness:
  "\<exists>r'. deliver_all (codec_config sample_api stable_sort (mem_at 8 ''q=42'')) (map (\<lambda>(at, n). Body at n) [(8, 1), (9, 1), (10, 2)])
      (req_make sample_api 0) = (r', 0) \<and> concat (map (slice_bytes (mem_at 8 ''q=42'')) (rq_bodybf r')) = ''q=42'' \<and> req_bodysz r' = 4"
proof -
  let ?m = "mem_at 8 ''q=42''"
  have p: "pieces ?m [(8, 1), (9, 1), (10, 2)] = ''q=42''" by (simp add: bytes_at_def mem_at_def upt_rec)
  have "rq_bodybf (req_make sample_api 0) = []" "rq_bodysz (req_make sample_api 0) = 0" by (simp_all add: req_make_def)
  from codec_body_pieces [OF this, of ?m "[(8, 1), (9, 1), (10, 2)]" sample_api stable_sort, unfolded p]
  show ?thesis by auto
qed

text \<open>With a URL parser whose components lie inside the URL, each component of the decoded URL
  that is present is the corresponding part of the URL text, and the others keep their value.\<close>

theorem codec_url_parts:
  assumes "hpu = hp_parse_url api (rq_strurl r) (req_method api r = HTTP_CONNECT)"
    and "\<And>f. hpu_field_set hpu f \<Longrightarrow> fst (hpu_field_data hpu f) + snd (hpu_field_data hpu f) \<le> length (rq_strurl r)"
    and "bytes_at m (rq_urldata r) (length (rq_strurl r)) = rq_strurl r"
    and "of_headers_complete api srt r = (r', rc)"
    and "(f, sel) \<in> {(UF_SCHEMA, pu_schema), (UF_HOST, pu_host), (UF_PORT, pu_port), (UF_PATH, pu_path),
      (UF_QUERY, pu_query), (UF_FRAGMENT, pu_frag), (UF_USERINFO, pu_user)}"
  shows "if hpu_field_set hpu f
    then slice_bytes m (sel (req_url r')) = take (snd (hpu_field_data hpu f)) (drop (fst (hpu_field_data hpu f)) (rq_strurl r))
    else sel (req_url r') = sel (req_url r)"
proof -
  have meth: "req_method api (sorthdr srt (r\<lparr>rq_headers_completed := True\<rparr>)) = req_method api r"
    by (simp add: req_method_def sorthdr_def)
  have sel: "sel (req_url r') = url_slice r hpu f (sel (req_url r))"
    using assms(4,5) by (auto simp: of_headers_complete_def Let_def meth req_url_def assms(1) url_slice_def) (auto simp: sorthdr_def)
  have bytes: "slice_bytes m (slice_make (Some (rq_urldata r + i)) (int n)) = take n (drop i (rq_strurl r))"
    if "i + n \<le> length (rq_strurl r)" for i n
  proof -
    have "take n (drop i (bytes_at m (rq_urldata r) (length (rq_strurl r)))) = bytes_at m (rq_urldata r + i) n"
      using that by (simp add: bytes_at_def take_map drop_map take_upt drop_upt add.assoc)
    then show ?thesis by (simp add: slice_bytes_make assms(3))
  qed
  show ?thesis using assms(2) [of f] bytes by (simp add: sel url_slice_def)
qed

theorem codec_url_parts_witness:
  "slice_bytes (mem_at 8 ''/a'') (pu_path (req_url (fst (of_headers_complete sample_api stable_sort
     ((req_make sample_api 8)\<lparr>rq_strurl := ''/a''\<rparr>))))) = ''/a''"
proof -
  let ?r = "(req_make sample_api 8)\<lparr>rq_strurl := ''/a''\<rparr>"
  let ?u = "hp_parse_url sample_api (rq_strurl ?r) (req_method sample_api ?r = HTTP_CONNECT)"
  obtain r' rc where r': "of_headers_complete sample_api stable_sort ?r = (r', rc)" by fastforce
  have in_url: "\<And>f. hpu_field_set ?u f \<Longrightarrow> fst (hpu_field_data ?u f) + snd (hpu_field_data ?u f) \<le> length (rq_strurl ?r)"
    by (simp add: sample_api_def)
  have bytes: "bytes_at (mem_at 8 ''/a'') (rq_urldata ?r) (length (rq_strurl ?r)) = rq_strurl ?r"
    by (simp add: bytes_at_def mem_at_def req_make_def upt_rec)
  have "(UF_PATH, pu_path) \<in> {(UF_SCHEMA, pu_schema), (UF_HOST, pu_host), (UF_PORT, pu_port), (UF_PATH, pu_path),
      (UF_QUERY, pu_query), (UF_FRAGMENT, pu_frag), (UF_USERINFO, pu_user)}" by simp
  from codec_url_parts [OF refl in_url bytes r' this] have "slice_bytes (mem_at 8 ''/a'') (pu_path (req_url r')) = ''/a''" by (simp add: sample_api_def)
  then show ?thesis by (simp add: r')
qed


text \<open>A parser without headers: it reports everything as body of one message.\<close>

definition body_exec :: "http_errno executor" where
  "body_exec cfg m r at n = (fst (on_message_complete cfg (fst (on_body cfg r at n)))\<lparr>rq_parsed := HPE_CB_message_complete\<rparr>, n)"


end
