(* ===== verification/Semops.thy ===== *)
theory Semops
  imports Libc
begin

text \<open>
  The accept lock of \<^verbatim>\<open>src/src/semops.hpp\<close> and \<^verbatim>\<open>src/src/semops.cpp\<close>. The semaphores of the kernel
  are the type parameter \<open>'k\<close>, and the system calls the code makes are the fields of \<open>sem_api\<close>:
  each returns the new kernel state and its result, -1 for failure.

  The constructor declares a local variable with the name of the member, so the member keeps the
  value -1; the model has the two apart.
\<close>

subsection \<open>Definitions\<close>

record 'k sem_api =
  sys_semget :: "'k \<Rightarrow> 'k \<times> int"
  sys_semctl_setval :: "'k \<Rightarrow> int \<Rightarrow> int \<Rightarrow> 'k \<times> int"
  sys_semctl_rmid :: "'k \<Rightarrow> int \<Rightarrow> 'k \<times> int"
  sys_semop :: "'k \<Rightarrow> int \<Rightarrow> int \<Rightarrow> 'k \<times> int"

record semops =
  so_semid :: int

definition semops_make :: "'k sem_api \<Rightarrow> 'k \<Rightarrow> int \<Rightarrow> ('k \<times> semops) res" where
  "semops_make api k n = (let this = \<lparr>so_semid = - 1\<rparr>; (k1, semid) = sys_semget api k in
     if semid = - 1 then Inl (Runtime_error ''can't create semaphore for accept'')
     else let (k2, rc) = sys_semctl_setval api k1 semid n in
       if rc = - 1 then Inl (Runtime_error ''can't setval semaphore for accept'')
       else Inr (k2, this))"

definition semops_destroy :: "'k sem_api \<Rightarrow> 'k \<Rightarrow> semops \<Rightarrow> 'k \<times> semops" where
  "semops_destroy api k s = (if so_semid s \<noteq> - 1
     then (fst (sys_semctl_rmid api k (so_semid s)), s\<lparr>so_semid := - 1\<rparr>) else (k, s))"

definition semops_wait :: "'k sem_api \<Rightarrow> 'k \<Rightarrow> semops \<Rightarrow> 'k \<times> bool" where
  "semops_wait api k s = (let (k', rc) = sys_semop api k (so_semid s) (- 1) in (k', rc = 0))"

definition semops_wake :: "'k sem_api \<Rightarrow> 'k \<Rightarrow> semops \<Rightarrow> 'k" where
  "semops_wake api k s = fst (sys_semop api k (so_semid s) 1)"

subsection \<open>Properties\<close>

text \<open>C40: with a kernel that refuses operations on the identifier -1, a lock that was constructed
  never locks: \<open>wait\<close> returns false at once and changes nothing, for any number of processes, and
  the destructor leaves the semaphore in the kernel.\<close>

theorem semops_never_locks:
  assumes "semops_make api k n = Inr (k1, s)" "\<And>k op. sys_semop api k (- 1) op = (k, - 1)"
  shows "semops_wait api k2 s = (k2, False) \<and> semops_wake api k2 s = k2 \<and> semops_destroy api k2 s = (k2, s)"
proof -
  have "so_semid s = - 1" using assms(1) by (auto simp: semops_make_def Let_def split: prod.splits if_splits)
  then show ?thesis by (simp add: semops_wait_def semops_wake_def semops_destroy_def assms(2))
qed

text \<open>A kernel with one semaphore per identifier.\<close>

definition list_kernel :: "int list sem_api" where
  "list_kernel = \<lparr>sys_semget = (\<lambda>k. (k @ [0], int (length k))),
     sys_semctl_setval = (\<lambda>k i n. if 0 \<le> i \<and> nat i < length k then (k[nat i := n], 0) else (k, - 1)),
     sys_semctl_rmid = (\<lambda>k i. (k, 0)),
     sys_semop = (\<lambda>k i op. if 0 \<le> i \<and> nat i < length k then (k[nat i := k ! nat i + op], 0) else (k, - 1))\<rparr>"

theorem semops_never_locks_witness:
  "\<exists>k s. semops_make list_kernel [] 1 = Inr (k, s) \<and> k = [1] \<and> semops_wait list_kernel k s = (k, False)"
proof -
  have m: "semops_make list_kernel [] 1 = Inr ([1], \<lparr>so_semid = - 1\<rparr>)" by (simp add: semops_make_def list_kernel_def)
  have "\<And>k op. sys_semop list_kernel k (- 1) op = (k, - 1)" by (simp add: list_kernel_def)
  from semops_never_locks [OF m this] m show ?thesis by blast
qed

end
