(* ===== verification/Asio_Buffers.thy ===== *)
theory Asio_Buffers
  imports Slice
begin

text \<open>
  Buffers of the asio library the server writes its responses with (vendored under
  \<^verbatim>\<open>src/src/3rd/asio-1.10.8/include/asio\<close>): \<open>const_buffer\<close> and its arithmetic (\<^verbatim>\<open>buffer.hpp\<close>), the view
  \<open>consuming_buffers\<close> on a sequence of buffers of which a prefix has been transferred
  (\<^verbatim>\<open>detail/consuming_buffers.hpp\<close>), the native buffers of one system call
  (\<^verbatim>\<open>detail/buffer_sequence_adapter.hpp\<close>) and the completion conditions (\<^verbatim>\<open>completion_condition.hpp\<close>).

  An iterator into the underlying sequence is the list of the elements from there to the end.
  The lemmas describe every operation by its effect on the bytes the buffers stand for.
\<close>

subsection \<open>Buffers\<close>

record const_buffer =
  cb_data :: nat
  cb_size :: size_t

definition const_buffer_null :: const_buffer where
  "const_buffer_null = \<lparr>cb_data = 0, cb_size = 0\<rparr>"

definition buffer_size :: "const_buffer \<Rightarrow> size_t" where
  "buffer_size b = cb_size b"

definition buffer_sizes :: "const_buffer list \<Rightarrow> size_t" where
  "buffer_sizes bs = foldl (\<lambda>n b. sz (n + buffer_size b)) 0 bs"

definition buffer_plus :: "const_buffer \<Rightarrow> size_t \<Rightarrow> const_buffer" where
  "buffer_plus b start = (if start > buffer_size b then const_buffer_null
     else \<lparr>cb_data = cb_data b + start, cb_size = buffer_size b - start\<rparr>)"

definition buffer_limit :: "const_buffer \<Rightarrow> size_t \<Rightarrow> const_buffer" where
  "buffer_limit b max_size_in_bytes = \<lparr>cb_data = cb_data b,
     cb_size = (if buffer_size b < max_size_in_bytes then buffer_size b else max_size_in_bytes)\<rparr>"

text \<open>The bytes a buffer, or a sequence of buffers, stands for.\<close>

definition cb_bytes :: "mem \<Rightarrow> const_buffer \<Rightarrow> string" where
  "cb_bytes m b = map m [cb_data b..<cb_data b + cb_size b]"

definition cbs_bytes :: "mem \<Rightarrow> const_buffer list \<Rightarrow> string" where
  "cbs_bytes m bs = concat (map (cb_bytes m) bs)"

subsection \<open>A sequence of which a prefix is consumed\<close>

record consuming_buffers =
  cs_at_end :: bool
  cs_first :: const_buffer
  cs_remainder :: "const_buffer list"
  cs_max_size :: size_t

definition consuming_make :: "const_buffer list \<Rightarrow> consuming_buffers" where
  "consuming_make buffers = (case buffers of
       [] \<Rightarrow> \<lparr>cs_at_end = True, cs_first = const_buffer_null, cs_remainder = [], cs_max_size = size_max - 1\<rparr>
     | b # bs \<Rightarrow> \<lparr>cs_at_end = False, cs_first = b, cs_remainder = bs, cs_max_size = size_max - 1\<rparr>)"

definition cs_prepare :: "size_t \<Rightarrow> consuming_buffers \<Rightarrow> consuming_buffers" where
  "cs_prepare max_size c = c\<lparr>cs_max_size := max_size\<rparr>"

text \<open>\<open>if(begin_remainder_ == buffers_.end()) at_end_ = true; else first_ = *begin_remainder_++\<close>.\<close>

definition cs_advance :: "consuming_buffers \<Rightarrow> consuming_buffers" where
  "cs_advance c = (case cs_remainder c of
       [] \<Rightarrow> c\<lparr>cs_at_end := True\<rparr>
     | b # bs \<Rightarrow> c\<lparr>cs_first := b, cs_remainder := bs\<rparr>)"

text \<open>The number of buffers that are left.\<close>

definition cs_left :: "consuming_buffers \<Rightarrow> nat" where
  "cs_left c = (if cs_at_end c then 0 else Suc (length (cs_remainder c)))"

lemma cs_advance_left: "\<not> cs_at_end c \<Longrightarrow> cs_left (cs_advance c) < cs_left c"
  by (auto simp: cs_left_def cs_advance_def split: list.splits)

function consume_loop :: "size_t \<Rightarrow> consuming_buffers \<Rightarrow> consuming_buffers" where
  "consume_loop n c = (if n > 0 \<and> \<not> cs_at_end c
     then if buffer_size (cs_first c) \<le> n
       then consume_loop (n - buffer_size (cs_first c)) (cs_advance c)
       else consume_loop 0 (c\<lparr>cs_first := buffer_plus (cs_first c) n\<rparr>)
     else c)"
  by pat_completeness auto
termination
  by (relation "measures [\<lambda>(n, c). cs_left c, \<lambda>(n, c). n]")
    (auto simp: cs_advance_left, auto simp: cs_left_def)

function skip_empty :: "consuming_buffers \<Rightarrow> consuming_buffers" where
  "skip_empty c = (if \<not> cs_at_end c \<and> buffer_size (cs_first c) = 0 then skip_empty (cs_advance c) else c)"
  by pat_completeness auto
termination
  by (relation "measure cs_left") (auto simp: cs_advance_left)

declare consume_loop.simps [simp del]
declare skip_empty.simps [simp del]

definition cs_consume :: "size_t \<Rightarrow> consuming_buffers \<Rightarrow> consuming_buffers" where
  "cs_consume n c = skip_empty (consume_loop n c)"

subsection \<open>Its iterator\<close>

record consuming_buffers_iterator =
  ci_at_end :: bool
  ci_first :: const_buffer
  ci_remainder :: "const_buffer list"
  ci_offset :: size_t
  ci_max_size :: size_t

definition cs_begin :: "consuming_buffers \<Rightarrow> consuming_buffers_iterator" where
  "cs_begin c = \<lparr>ci_at_end = (if cs_max_size c > 0 then cs_at_end c else True),
     ci_first = buffer_limit (cs_first c) (cs_max_size c), ci_remainder = cs_remainder c,
     ci_offset = 0, ci_max_size = cs_max_size c\<rparr>"

definition ci_increment :: "consuming_buffers_iterator \<Rightarrow> consuming_buffers_iterator" where
  "ci_increment i = (if ci_at_end i then i
     else case ci_remainder i of
       [] \<Rightarrow> i\<lparr>ci_at_end := True\<rparr>
     | b # bs \<Rightarrow> if sz (ci_offset i + buffer_size (ci_first i)) \<ge> ci_max_size i then i\<lparr>ci_at_end := True\<rparr>
         else let off = sz (ci_offset i + buffer_size (ci_first i)) in
           i\<lparr>ci_offset := off, ci_first := buffer_limit b (ci_max_size i - off), ci_remainder := bs\<rparr>)"

text \<open>The buffers from an iterator to \<open>end()\<close>; two iterators at their end are equal.\<close>

function ci_list :: "consuming_buffers_iterator \<Rightarrow> const_buffer list" where
  "ci_list i = (if ci_at_end i then [] else ci_first i # ci_list (ci_increment i))"
  by pat_completeness auto
termination
  by (relation "measure (\<lambda>i. if ci_at_end i then 0 else Suc (length (ci_remainder i)))")
    (auto simp: ci_increment_def Let_def split: list.splits)

declare ci_list.simps [simp del]

definition cs_list :: "consuming_buffers \<Rightarrow> const_buffer list" where
  "cs_list c = ci_list (cs_begin c)"

subsection \<open>Native buffers\<close>

text \<open>At most 64 buffers per system call (\<open>max_iov_len\<close> is larger on Linux).\<close>

definition max_buffers :: nat where
  "max_buffers = 64"

record native_buffers =
  nb_buffers :: "const_buffer list"
  nb_total :: size_t

fun adapter_loop :: "const_buffer list \<Rightarrow> native_buffers \<Rightarrow> native_buffers" where
  "adapter_loop [] nb = nb"
| "adapter_loop (b # bs) nb = (if length (nb_buffers nb) < max_buffers
     then adapter_loop bs \<lparr>nb_buffers = nb_buffers nb @ [b], nb_total = sz (nb_total nb + buffer_size b)\<rparr>
     else nb)"

definition buffer_sequence_adapter :: "const_buffer list \<Rightarrow> native_buffers" where
  "buffer_sequence_adapter bs = adapter_loop bs \<lparr>nb_buffers = [], nb_total = 0\<rparr>"

definition nb_all_empty :: "native_buffers \<Rightarrow> bool" where
  "nb_all_empty nb \<longleftrightarrow> nb_total nb = 0"

subsection \<open>Completion conditions\<close>

definition default_max_transfer_size :: size_t where
  "default_max_transfer_size = 65536"

text \<open>A condition is given whether there was an error and the number of bytes so far.\<close>

definition adapt_bool_result :: "bool \<Rightarrow> size_t" where
  "adapt_bool_result result = (if result then 0 else default_max_transfer_size)"

definition transfer_all :: "bool \<Rightarrow> size_t \<Rightarrow> size_t" where
  "transfer_all err _ = (if err then 0 else default_max_transfer_size)"

definition transfer_at_least :: "size_t \<Rightarrow> bool \<Rightarrow> size_t \<Rightarrow> size_t" where
  "transfer_at_least minimum err bytes_transferred =
     (if err \<or> bytes_transferred \<ge> minimum then 0 else default_max_transfer_size)"

definition transfer_exactly :: "size_t \<Rightarrow> bool \<Rightarrow> size_t \<Rightarrow> size_t" where
  "transfer_exactly wanted err bytes_transferred =
     (if err \<or> bytes_transferred \<ge> wanted then 0
      else if wanted - bytes_transferred < default_max_transfer_size then wanted - bytes_transferred
      else default_max_transfer_size)"

subsection \<open>Bytes\<close>

lemma length_cb_bytes [simp]: "length (cb_bytes m b) = buffer_size b"
  by (simp add: cb_bytes_def buffer_size_def)

lemma cbs_bytes_simps [simp]: "cbs_bytes m [] = []" "cbs_bytes m (b # bs) = cb_bytes m b @ cbs_bytes m bs"
    "cbs_bytes m (bs @ cs) = cbs_bytes m bs @ cbs_bytes m cs"
  by (simp_all add: cbs_bytes_def)

lemma cb_bytes_null [simp]: "cb_bytes m const_buffer_null = []"
  by (simp add: cb_bytes_def const_buffer_null_def)

lemma cb_bytes_plus: "cb_bytes m (buffer_plus b n) = drop n (cb_bytes m b)"
proof (cases "n \<le> buffer_size b")
  case True
  then show ?thesis by (simp add: cb_bytes_def buffer_plus_def buffer_size_def drop_map drop_upt)
next
  case False
  then show ?thesis by (simp add: buffer_plus_def)
qed

lemma cb_bytes_limit: "cb_bytes m (buffer_limit b n) = take n (cb_bytes m b)"
  by (cases "buffer_size b < n") (simp_all add: cb_bytes_def buffer_limit_def buffer_size_def take_map)

lemma buffer_size_limit: "buffer_size (buffer_limit b n) = min (buffer_size b) n"
  by (simp add: buffer_limit_def buffer_size_def)

text \<open>What is left to transfer.\<close>

definition cs_bytes :: "mem \<Rightarrow> consuming_buffers \<Rightarrow> string" where
  "cs_bytes m c = (if cs_at_end c then [] else cbs_bytes m (cs_first c # cs_remainder c))"

lemma cs_bytes_make: "cs_bytes m (consuming_make bs) = cbs_bytes m bs"
  by (cases bs) (simp_all add: cs_bytes_def consuming_make_def)

lemma cs_bytes_prepare [simp]: "cs_bytes m (cs_prepare n c) = cs_bytes m c"
  by (simp add: cs_bytes_def cs_prepare_def)

lemma cs_bytes_advance: "\<not> cs_at_end c \<Longrightarrow> cs_bytes m (cs_advance c) = drop (buffer_size (cs_first c)) (cs_bytes m c)"
  by (auto simp: cs_bytes_def cs_advance_def split: list.splits)

lemma consume_loop_bytes: "cs_bytes m (consume_loop n c) = drop n (cs_bytes m c)"
proof (induction n c rule: consume_loop.induct)
  case (1 n c)
  show ?case
  proof (cases "n > 0 \<and> \<not> cs_at_end c")
    case True
    show ?thesis
    proof (cases "buffer_size (cs_first c) \<le> n")
      case le: True
      then show ?thesis using True 1(1) by (subst consume_loop.simps) (simp add: cs_bytes_advance add.commute)
    next
      case False
      have "cs_bytes m (c\<lparr>cs_first := buffer_plus (cs_first c) n\<rparr>) = drop n (cs_bytes m c)"
        using True False by (simp add: cs_bytes_def cb_bytes_plus)
      then show ?thesis using True False 1(2) by (subst consume_loop.simps) simp
    qed
  next
    case False
    then have "consume_loop n c = c" by (auto simp: consume_loop.simps [of n c])
    then show ?thesis using False by (cases "n = 0") (simp_all add: cs_bytes_def)
  qed
qed

lemma skip_empty_bytes: "cs_bytes m (skip_empty c) = cs_bytes m c"
proof (induction c rule: skip_empty.induct)
  case (1 c)
  then show ?case by (cases "\<not> cs_at_end c \<and> buffer_size (cs_first c) = 0")
      (auto simp: skip_empty.simps [of c] cs_bytes_advance)
qed

lemma skip_empty_first: "cs_at_end (skip_empty c) \<or> buffer_size (cs_first (skip_empty c)) \<noteq> 0"
proof (induction c rule: skip_empty.induct)
  case (1 c)
  then show ?case by (cases "\<not> cs_at_end c \<and> buffer_size (cs_first c) = 0") (auto simp: skip_empty.simps [of c])
qed

lemma cs_consume_bytes [simp]: "cs_bytes m (cs_consume n c) = drop n (cs_bytes m c)"
  by (simp add: cs_consume_def skip_empty_bytes consume_loop_bytes)

text \<open>After \<open>consume\<close> the view is at its end exactly when no byte is left.\<close>

lemma cs_consume_at_end: "cs_at_end (cs_consume n c) \<longleftrightarrow> drop n (cs_bytes m c) = []"
proof -
  let ?c = "cs_consume n c"
  have f: "cs_at_end ?c \<or> buffer_size (cs_first ?c) \<noteq> 0" using skip_empty_first by (simp add: cs_consume_def)
  have "length (cs_bytes m ?c) = 0 \<longleftrightarrow> cs_at_end ?c"
    using f length_cb_bytes [of m "cs_first ?c"] by (auto simp: cs_bytes_def simp del: length_cb_bytes)
  then show ?thesis using cs_consume_bytes [of m n c] by auto
qed

lemma ci_list_bytes:
  assumes "ci_offset i + buffer_size (ci_first i) \<le> ci_max_size i" "ci_max_size i < size_max" "\<not> ci_at_end i"
  shows "cbs_bytes m (ci_list i) =
    cb_bytes m (ci_first i) @ take (ci_max_size i - ci_offset i - buffer_size (ci_first i)) (cbs_bytes m (ci_remainder i))"
  using assms
proof (induction i rule: ci_list.induct)
  case (1 i)
  let ?n = "ci_offset i + buffer_size (ci_first i)"
  have n: "sz ?n = ?n" using 1(2,3) by simp
  show ?case
  proof (cases "ci_remainder i")
    case Nil
    then show ?thesis using 1(4) by (simp add: ci_list.simps [of i] ci_increment_def ci_list.simps [of "i\<lparr>ci_at_end := True\<rparr>"])
  next
    case (Cons b bs)
    show ?thesis
    proof (cases "?n \<ge> ci_max_size i")
      case True
      then have "take (ci_max_size i - ci_offset i - buffer_size (ci_first i)) (cbs_bytes m (ci_remainder i)) = []" by simp
      moreover have "ci_increment i = i\<lparr>ci_at_end := True\<rparr>" using True 1(4) Cons n by (simp add: ci_increment_def)
      ultimately show ?thesis using 1(4) by (simp add: ci_list.simps [of i] ci_list.simps [of "i\<lparr>ci_at_end := True\<rparr>"])
    next
      case False
      let ?j = "i\<lparr>ci_offset := ?n, ci_first := buffer_limit b (ci_max_size i - ?n), ci_remainder := bs\<rparr>"
      have j: "ci_increment i = ?j" using False 1(4) Cons n by (simp add: ci_increment_def Let_def)
      let ?s = "ci_max_size i - ?n"
      have "cbs_bytes m (ci_list ?j) = take ?s (cb_bytes m b) @ take (?s - min (buffer_size b) ?s) (cbs_bytes m bs)"
        using 1(1) [unfolded j] 1(2-4) False by (simp add: buffer_size_limit cb_bytes_limit)
      also have "\<dots> = take ?s (cb_bytes m b @ cbs_bytes m bs)" by (auto simp: min_def)
      finally show ?thesis using 1(4) Cons j by (simp add: ci_list.simps [of i])
    qed
  qed
qed

lemma cs_list_Nil: "cs_list c = [] \<longleftrightarrow> cs_max_size c = 0 \<or> cs_at_end c"
  by (auto simp: cs_list_def ci_list.simps [of "cs_begin c"]) (auto simp: cs_begin_def split: if_splits)

text \<open>Iterating over the view yields the first \<open>max_size\<close> bytes of what is left.\<close>

lemma cs_list_bytes:
  assumes "cs_max_size c < size_max"
  shows "cbs_bytes m (cs_list c) = take (cs_max_size c) (cs_bytes m c)"
proof (cases "cs_max_size c = 0 \<or> cs_at_end c")
  case True
  then show ?thesis using cs_list_Nil [of c] by (auto simp: cs_bytes_def)
next
  case False
  let ?i = "cs_begin c"
  have "cbs_bytes m (ci_list ?i) = cb_bytes m (ci_first ?i) @
      take (ci_max_size ?i - ci_offset ?i - buffer_size (ci_first ?i)) (cbs_bytes m (ci_remainder ?i))"
    using False assms by (intro ci_list_bytes) (simp_all add: cs_begin_def buffer_size_limit)
  then show ?thesis using False
    by (auto simp: cs_list_def cs_begin_def cs_bytes_def cb_bytes_limit buffer_size_limit min_def)
qed

text \<open>The native buffers hold the first 64 buffers.\<close>

lemma adapter_loop_eq:
  "nb_buffers (adapter_loop bs nb) = nb_buffers nb @ take (max_buffers - length (nb_buffers nb)) bs"
  by (induction bs nb rule: adapter_loop.induct) (auto simp: Suc_diff_Suc take_Cons')

lemma adapter_buffers [simp]: "nb_buffers (buffer_sequence_adapter bs) = take 64 bs"
  by (simp add: buffer_sequence_adapter_def adapter_loop_eq max_buffers_def)

lemma adapter_total:
  assumes "nb_total nb = length (cbs_bytes m (nb_buffers nb))" "length (cbs_bytes m (nb_buffers nb @ bs)) < size_max"
  shows "nb_total (adapter_loop bs nb) = length (cbs_bytes m (nb_buffers (adapter_loop bs nb)))"
  using assms by (induction bs nb rule: adapter_loop.induct) simp_all

lemma adapter_all_empty:
  assumes "length (cbs_bytes m bs) < size_max"
  shows "nb_all_empty (buffer_sequence_adapter bs) \<longleftrightarrow> cbs_bytes m (take 64 bs) = []"
  using adapter_total [of "\<lparr>nb_buffers = [], nb_total = 0\<rparr>" m bs] assms adapter_buffers [of bs]
  by (simp add: nb_all_empty_def buffer_sequence_adapter_def)

end
