(* ===== verification/Asio_Socket.thy ===== *)
theory Asio_Socket
  imports Asio_Buffers
begin

text \<open>
  The socket operations of asio the server uses, down to the system calls: \<open>socket_ops::send\<close>,
  \<open>recv\<close>, \<open>poll_read\<close>, \<open>poll_write\<close>, \<open>sync_send\<close> and \<open>sync_recv\<close>
  (\<^verbatim>\<open>detail/impl/socket_ops.ipp\<close>), \<open>write_some\<close> and \<open>read_some\<close>
  (\<^verbatim>\<open>detail/reactive_socket_service_base.hpp\<close>), and the composed operation \<open>write\<close>
  (\<^verbatim>\<open>impl/write.hpp\<close>), all under \<^verbatim>\<open>src/src/3rd/asio-1.10.8/include/asio\<close>.

  The kernel is an argument: the outcome of \<open>sendmsg\<close>, \<open>recvmsg\<close> and \<open>poll\<close> on a state of type
  \<open>'s\<close>. What the operations rely on are the predicates \<open>sends\<close> and \<open>receives\<close>: a successful
  \<open>sendmsg\<close> takes a non-empty prefix of what it is given, and a socket does not answer "try again"
  forever. Loops that may wait forever are partial functions; that they return is proved.
\<close>

subsection \<open>Kernel and sockets\<close>

datatype error_code = No_error | Would_block | Try_again | Eof | Bad_descriptor | Sys_error nat

record 's kernel =
  k_sendmsg :: "'s \<Rightarrow> string list \<Rightarrow> (error_code + nat) \<times> 's"
  k_recvmsg :: "'s \<Rightarrow> nat \<Rightarrow> (error_code + string) \<times> 's"
  k_poll_out :: "'s \<Rightarrow> (error_code + nat) \<times> 's"
  k_poll_in :: "'s \<Rightarrow> (error_code + nat) \<times> 's"
  k_shutdown :: "'s \<Rightarrow> 's"
  k_close :: "'s \<Rightarrow> 's"

record 's tcp_socket =
  so_valid :: bool
  so_stream_oriented :: bool
  so_user_set_non_blocking :: bool
  so_kernel :: 's

definition socket_send :: "'s kernel \<Rightarrow> 's tcp_socket \<Rightarrow> string list \<Rightarrow> (int \<times> error_code) \<times> 's tcp_socket" where
  "socket_send k s texts = (case k_sendmsg k (so_kernel s) texts of
       (Inl e, ks) \<Rightarrow> ((- 1, e), s\<lparr>so_kernel := ks\<rparr>)
     | (Inr n, ks) \<Rightarrow> ((int n, No_error), s\<lparr>so_kernel := ks\<rparr>))"

definition socket_recv :: "'s kernel \<Rightarrow> 's tcp_socket \<Rightarrow> nat \<Rightarrow> (int \<times> string \<times> error_code) \<times> 's tcp_socket" where
  "socket_recv k s n = (case k_recvmsg k (so_kernel s) n of
       (Inl e, ks) \<Rightarrow> ((- 1, [], e), s\<lparr>so_kernel := ks\<rparr>)
     | (Inr d, ks) \<Rightarrow> ((int (length d), d, No_error), s\<lparr>so_kernel := ks\<rparr>))"

text \<open>The calls below pass 0 for the state, so \<open>poll\<close> waits without a timeout.\<close>

definition poll_write :: "'s kernel \<Rightarrow> 's tcp_socket \<Rightarrow> (int \<times> error_code) \<times> 's tcp_socket" where
  "poll_write k s = (if \<not> so_valid s then ((- 1, Bad_descriptor), s)
     else case k_poll_out k (so_kernel s) of
       (Inl e, ks) \<Rightarrow> ((- 1, e), s\<lparr>so_kernel := ks\<rparr>)
     | (Inr n, ks) \<Rightarrow> ((int n, No_error), s\<lparr>so_kernel := ks\<rparr>))"

definition poll_read :: "'s kernel \<Rightarrow> 's tcp_socket \<Rightarrow> (int \<times> error_code) \<times> 's tcp_socket" where
  "poll_read k s = (if \<not> so_valid s then ((- 1, Bad_descriptor), s)
     else case k_poll_in k (so_kernel s) of
       (Inl e, ks) \<Rightarrow> ((- 1, e), s\<lparr>so_kernel := ks\<rparr>)
     | (Inr n, ks) \<Rightarrow> ((int n, No_error), s\<lparr>so_kernel := ks\<rparr>))"

subsection \<open>Synchronous transfers\<close>

partial_function (option) send_loop :: "'s kernel \<Rightarrow> 's tcp_socket \<Rightarrow> string list \<Rightarrow> ((nat \<times> error_code) \<times> 's tcp_socket) option" where
  "send_loop k s texts = (case socket_send k s texts of ((bytes, ec), s1) \<Rightarrow>
     if bytes \<ge> 0 then Some ((nat bytes, ec), s1)
     else if so_user_set_non_blocking s \<or> (ec \<noteq> Would_block \<and> ec \<noteq> Try_again) then Some ((0, ec), s1)
     else (case poll_write k s1 of ((r, ec'), s2) \<Rightarrow>
       if r < 0 then Some ((0, ec'), s2) else send_loop k s2 texts))"

definition sync_send :: "'s kernel \<Rightarrow> 's tcp_socket \<Rightarrow> string list \<Rightarrow> bool \<Rightarrow> ((nat \<times> error_code) \<times> 's tcp_socket) option" where
  "sync_send k s texts all_empty = (if \<not> so_valid s then Some ((0, Bad_descriptor), s)
     else if all_empty \<and> so_stream_oriented s then Some ((0, No_error), s)
     else send_loop k s texts)"

partial_function (option) recv_loop :: "'s kernel \<Rightarrow> 's tcp_socket \<Rightarrow> nat \<Rightarrow> ((string \<times> error_code) \<times> 's tcp_socket) option" where
  "recv_loop k s n = (case socket_recv k s n of ((bytes, d, ec), s1) \<Rightarrow>
     if bytes > 0 then Some ((d, ec), s1)
     else if so_stream_oriented s \<and> bytes = 0 then Some (([], Eof), s1)
     else if so_user_set_non_blocking s \<or> (ec \<noteq> Would_block \<and> ec \<noteq> Try_again) then Some (([], ec), s1)
     else (case poll_read k s1 of ((r, ec'), s2) \<Rightarrow>
       if r < 0 then Some (([], ec'), s2) else recv_loop k s2 n))"

definition sync_recv :: "'s kernel \<Rightarrow> 's tcp_socket \<Rightarrow> nat \<Rightarrow> bool \<Rightarrow> ((string \<times> error_code) \<times> 's tcp_socket) option" where
  "sync_recv k s n all_empty = (if \<not> so_valid s then Some (([], Bad_descriptor), s)
     else if all_empty \<and> so_stream_oriented s then Some (([], No_error), s)
     else recv_loop k s n)"

definition write_some :: "'s kernel \<Rightarrow> mem \<Rightarrow> 's tcp_socket \<Rightarrow> const_buffer list \<Rightarrow> ((nat \<times> error_code) \<times> 's tcp_socket) option" where
  "write_some k m s buffers = (let bufs = buffer_sequence_adapter buffers in
     sync_send k s (map (cb_bytes m) (nb_buffers bufs)) (nb_all_empty bufs))"

text \<open>Reading into one buffer of size \<open>n\<close>.\<close>

definition read_some :: "'s kernel \<Rightarrow> 's tcp_socket \<Rightarrow> nat \<Rightarrow> ((string \<times> error_code) \<times> 's tcp_socket) option" where
  "read_some k s n = sync_recv k s n (n = 0)"

subsection \<open>Composed write\<close>

partial_function (option) write_loop :: "'s kernel \<Rightarrow> (bool \<Rightarrow> size_t \<Rightarrow> size_t) \<Rightarrow> mem \<Rightarrow> consuming_buffers \<Rightarrow> 's tcp_socket
    \<Rightarrow> size_t \<Rightarrow> error_code \<Rightarrow> ((size_t \<times> error_code) \<times> 's tcp_socket) option" where
  "write_loop k cond m tmp s moved ec = (if ci_at_end (cs_begin tmp) then Some ((moved, ec), s)
     else (case write_some k m s (cs_list tmp) of
         None \<Rightarrow> None
       | Some ((n, ec'), s') \<Rightarrow>
           write_loop k cond m (cs_prepare (cond (ec' \<noteq> No_error) (sz (moved + n))) (cs_consume n tmp)) s'
             (sz (moved + n)) ec'))"

definition asio_write :: "'s kernel \<Rightarrow> (bool \<Rightarrow> size_t \<Rightarrow> size_t) \<Rightarrow> mem \<Rightarrow> 's tcp_socket \<Rightarrow> const_buffer list
    \<Rightarrow> ((size_t \<times> error_code) \<times> 's tcp_socket) option" where
  "asio_write k cond m s buffers =
     write_loop k cond m (cs_prepare (cond False 0) (consuming_make buffers)) s 0 No_error"

subsection \<open>What the kernel promises\<close>

text \<open>\<open>out\<close> is what the peer is sent, \<open>wait\<close> bounds how often in a row the socket may ask to try
  again, \<open>left\<close> how much the peer will still send.\<close>

definition again :: "error_code \<Rightarrow> bool" where
  "again e \<longleftrightarrow> e = Would_block \<or> e = Try_again"

definition sends :: "'s kernel \<Rightarrow> ('s \<Rightarrow> string) \<Rightarrow> ('s \<Rightarrow> nat) \<Rightarrow> bool" where
  "sends k out wait \<longleftrightarrow>
     (\<forall>s texts. case k_sendmsg k s texts of
         (Inr n, s') \<Rightarrow> n \<le> length (concat texts) \<and> (concat texts \<noteq> [] \<longrightarrow> 0 < n) \<and> out s' = out s @ take n (concat texts)
       | (Inl e, s') \<Rightarrow> e \<noteq> No_error \<and> out s' = out s \<and> (again e \<longrightarrow> wait s' < wait s)) \<and>
     (\<forall>s. case k_poll_out k s of
         (Inr n, s') \<Rightarrow> out s' = out s \<and> wait s' \<le> wait s
       | (Inl e, s') \<Rightarrow> e \<noteq> No_error \<and> out s' = out s)"

definition receives :: "'s kernel \<Rightarrow> ('s \<Rightarrow> string) \<Rightarrow> ('s \<Rightarrow> nat) \<Rightarrow> ('s \<Rightarrow> nat) \<Rightarrow> bool" where
  "receives k out left wait \<longleftrightarrow>
     (\<forall>s n. case k_recvmsg k s n of
         (Inr d, s') \<Rightarrow> length d \<le> n \<and> out s' = out s \<and> left s' \<le> left s \<and> (d \<noteq> [] \<longrightarrow> left s' < left s)
       | (Inl e, s') \<Rightarrow> e \<noteq> No_error \<and> out s' = out s \<and> left s' \<le> left s \<and> (again e \<longrightarrow> wait s' < wait s)) \<and>
     (\<forall>s. case k_poll_in k s of
         (Inr n, s') \<Rightarrow> out s' = out s \<and> left s' \<le> left s \<and> wait s' \<le> wait s
       | (Inl e, s') \<Rightarrow> e \<noteq> No_error \<and> out s' = out s \<and> left s' \<le> left s)"

text \<open>An operation changes only the kernel's part of a socket.\<close>

definition same_socket :: "'s tcp_socket \<Rightarrow> 's tcp_socket \<Rightarrow> bool" where
  "same_socket s s' \<longleftrightarrow> (\<exists>ks. s' = s\<lparr>so_kernel := ks\<rparr>)"

lemma same_socket_refl [simp]: "same_socket s s"
  unfolding same_socket_def by (rule exI [of _ "so_kernel s"]) simp

lemma same_socket_upd [simp]: "same_socket s (s\<lparr>so_kernel := ks\<rparr>)"
  by (auto simp: same_socket_def)

lemma same_socket_trans: "same_socket a b \<Longrightarrow> same_socket b c \<Longrightarrow> same_socket a c"
  by (auto simp: same_socket_def)

lemma sendsD:
  assumes "sends k out wait"
  shows "k_sendmsg k s texts = (Inr n, s') \<Longrightarrow> n \<le> length (concat texts) \<and> (concat texts \<noteq> [] \<longrightarrow> 0 < n) \<and>
      out s' = out s @ take n (concat texts)"
    and "k_sendmsg k s texts = (Inl e, s') \<Longrightarrow> e \<noteq> No_error \<and> out s' = out s \<and> (again e \<longrightarrow> wait s' < wait s)"
    and "k_poll_out k s = (Inr n, s') \<Longrightarrow> out s' = out s \<and> wait s' \<le> wait s"
    and "k_poll_out k s = (Inl e, s') \<Longrightarrow> e \<noteq> No_error \<and> out s' = out s"
  using assms unfolding sends_def by (metis (mono_tags, lifting) case_prod_conv sum.case)+

lemma receivesD:
  assumes "receives k out left wait"
  shows "k_recvmsg k s n = (Inr d, s') \<Longrightarrow> length d \<le> n \<and> out s' = out s \<and> left s' \<le> left s \<and> (d \<noteq> [] \<longrightarrow> left s' < left s)"
    and "k_recvmsg k s n = (Inl e, s') \<Longrightarrow> e \<noteq> No_error \<and> out s' = out s \<and> left s' \<le> left s \<and> (again e \<longrightarrow> wait s' < wait s)"
    and "k_poll_in k s = (Inr i, s') \<Longrightarrow> out s' = out s \<and> left s' \<le> left s \<and> wait s' \<le> wait s"
    and "k_poll_in k s = (Inl e, s') \<Longrightarrow> e \<noteq> No_error \<and> out s' = out s \<and> left s' \<le> left s"
  using assms unfolding receives_def by (metis (mono_tags, lifting) case_prod_conv sum.case)+

subsection \<open>The transfers return\<close>

definition sent :: "('s \<Rightarrow> string) \<Rightarrow> string \<Rightarrow> 's tcp_socket \<Rightarrow> nat \<Rightarrow> error_code \<Rightarrow> 's tcp_socket \<Rightarrow> bool" where
  "sent out txt s n ec s' \<longleftrightarrow> n \<le> length txt \<and> out (so_kernel s') = out (so_kernel s) @ take n txt \<and>
     (ec = No_error \<longrightarrow> txt \<noteq> [] \<longrightarrow> 0 < n) \<and> same_socket s s'"

lemma send_loop_total:
  assumes k: "sends k out wait"
  shows "\<exists>n ec s'. send_loop k s texts = Some ((n, ec), s') \<and> sent out (concat texts) s n ec s'"
proof (induction "wait (so_kernel s)" arbitrary: s rule: less_induct)
  case less
  obtain r ks where send: "k_sendmsg k (so_kernel s) texts = (r, ks)" by fastforce
  let ?s1 = "s\<lparr>so_kernel := ks\<rparr>"
  show ?case
  proof (cases r)
    case (Inr n)
    then have "send_loop k s texts = Some ((n, No_error), ?s1)" using send by (subst send_loop.simps) (simp add: socket_send_def)
    then show ?thesis using sendsD(1) [OF k, of _ texts n ks] send Inr by (auto simp: sent_def)
  next
    case (Inl e)
    note e = sendsD(2) [OF k, of "so_kernel s" texts e ks, OF send [unfolded Inl]]
    have step: "send_loop k s texts = (if so_user_set_non_blocking s \<or> \<not> again e then Some ((0, e), ?s1)
        else case poll_write k ?s1 of ((r, ec'), s2) \<Rightarrow> if r < 0 then Some ((0, ec'), s2) else send_loop k s2 texts)"
      using send Inl by (subst send_loop.simps) (simp add: socket_send_def again_def)
    show ?thesis
    proof (cases "so_user_set_non_blocking s \<or> \<not> again e")
      case True
      then show ?thesis using step e by (auto simp: sent_def)
    next
      case False
      obtain r2 ks2 where poll: "k_poll_out k ks = (r2, ks2)" by fastforce
      let ?s2 = "s\<lparr>so_kernel := ks2\<rparr>"
      show ?thesis
      proof (cases "so_valid s \<and> (\<exists>n. r2 = Inr n)")
        case True
        then obtain n where r2: "r2 = Inr n" by blast
        note p = sendsD(3) [OF k poll [unfolded r2]]
        have "wait (so_kernel ?s2) < wait (so_kernel s)" using e p False by simp
        then obtain n ec s' where IH: "send_loop k ?s2 texts = Some ((n, ec), s')" "sent out (concat texts) ?s2 n ec s'"
          using less by blast
        have "send_loop k s texts = send_loop k ?s2 texts" using step False True poll r2 by (simp add: poll_write_def)
        then show ?thesis using IH e p same_socket_trans [OF same_socket_upd [of s ks2]] by (auto simp: sent_def)
      next
        case no: False
        then show ?thesis using step False poll e sendsD(4) [OF k, of ks _ ks2]
          by (cases r2) (auto simp: poll_write_def sent_def)
      qed
    qed
  qed
qed

lemma write_some_total:
  assumes "sends k out wait" "length (cbs_bytes m bs) < size_max"
  shows "\<exists>n ec s'. write_some k m s bs = Some ((n, ec), s') \<and> sent out (cbs_bytes m (take 64 bs)) s n ec s'"
proof -
  let ?t = "map (cb_bytes m) (take 64 bs)"
  have c: "concat ?t = cbs_bytes m (take 64 bs)" by (simp add: cbs_bytes_def)
  have empty: "nb_all_empty (buffer_sequence_adapter bs) \<longleftrightarrow> cbs_bytes m (take 64 bs) = []" by (rule adapter_all_empty [OF assms(2)])
  show ?thesis
  proof (cases "so_valid s \<and> \<not> (nb_all_empty (buffer_sequence_adapter bs) \<and> so_stream_oriented s)")
    case True
    then show ?thesis using send_loop_total [OF assms(1), of s ?t] by (auto simp: write_some_def sync_send_def c Let_def)
  next
    case False
    then show ?thesis using empty by (auto simp: write_some_def sync_send_def sent_def Let_def)
  qed
qed

text \<open>The first 64 buffers of the view are a prefix of what is left; when they are empty, the first
  buffer is.\<close>

lemma cs_list_prefix:
  assumes "cs_max_size c < size_max"
  shows "\<exists>l. cbs_bytes m (take 64 (cs_list c)) = take l (cs_bytes m c)"
proof -
  have "cbs_bytes m (cs_list c) = cbs_bytes m (take 64 (cs_list c)) @ cbs_bytes m (drop 64 (cs_list c))"
    using cbs_bytes_simps(3) by (metis append_take_drop_id)
  then have "cbs_bytes m (take 64 (cs_list c)) = take (length (cbs_bytes m (take 64 (cs_list c)))) (cbs_bytes m (cs_list c))" by simp
  then show ?thesis using cs_list_bytes [OF assms, of m] by (metis take_take)
qed

lemma cs_list_empty_first:
  assumes "\<not> ci_at_end (cs_begin c)" "cbs_bytes m (take 64 (cs_list c)) = []"
  shows "\<not> cs_at_end c \<and> buffer_size (cs_first c) = 0"
proof -
  have "cs_list c = ci_first (cs_begin c) # ci_list (ci_increment (cs_begin c))"
    using assms(1) by (simp add: cs_list_def ci_list.simps [of "cs_begin c"])
  then have "cb_bytes m (ci_first (cs_begin c)) = []" using assms(2) by simp
  then have "buffer_size (ci_first (cs_begin c)) = 0" using length_cb_bytes [of m "ci_first (cs_begin c)"] by simp
  then show ?thesis using assms(1) by (auto simp: cs_begin_def buffer_size_limit split: if_splits)
qed

lemma skip_empty_left: "cs_left (skip_empty d) \<le> cs_left d"
proof (induction d rule: skip_empty.induct)
  case (1 d)
  then show ?case using cs_advance_left [of d]
    by (cases "\<not> cs_at_end d \<and> buffer_size (cs_first d) = 0") (auto simp: skip_empty.simps [of d])
qed

lemma consume_loop_left: "cs_left (consume_loop n c) \<le> cs_left c"
proof (induction n c rule: consume_loop.induct)
  case (1 n c)
  let ?go = "n > 0 \<and> \<not> cs_at_end c" and ?le = "buffer_size (cs_first c) \<le> n"
  show ?case
  proof (cases ?go)
    case True
    show ?thesis
    proof (cases ?le)
      case le: True
      then show ?thesis using True 1(1) cs_advance_left [of c] by (auto simp: consume_loop.simps [of n c])
    next
      case False
      then show ?thesis using True 1(2) by (simp add: consume_loop.simps [of n c]) (simp add: cs_left_def)
    qed
  next
    case False
    then have "consume_loop n c = c" by (auto simp: consume_loop.simps [of n c])
    then show ?thesis by simp
  qed
qed

lemma cs_consume_left: "cs_left (cs_consume n c) \<le> cs_left c"
  using skip_empty_left [of "consume_loop n c"] consume_loop_left [of n c] by (simp add: cs_consume_def)

lemma consume_empty_left:
  assumes "\<not> cs_at_end c" "buffer_size (cs_first c) = 0"
  shows "cs_left (cs_consume 0 c) < cs_left c"
proof -
  have "cs_consume 0 c = skip_empty (cs_advance c)"
    using assms by (simp add: cs_consume_def consume_loop.simps [of 0] skip_empty.simps [of c])
  then show ?thesis using skip_empty_left [of "cs_advance c"] cs_advance_left [OF assms(1)] by simp
qed

lemma write_loop_error:
  assumes "ec \<noteq> No_error"
  shows "write_loop k transfer_all m (cs_prepare (transfer_all (ec \<noteq> No_error) t) c) s t ec = Some ((t, ec), s)"
  using assms by (subst write_loop.simps) (simp add: cs_begin_def cs_prepare_def transfer_all_def)

text \<open>One \<open>write_some\<close> of a composed write sends a prefix of what is left, and leaves less to do.\<close>

lemma write_step:
  assumes k: "sends k out wait" and max: "cs_max_size c = 65536" and short: "length (cs_bytes m c) < size_max" and more: "\<not> ci_at_end (cs_begin c)"
  obtains n ec s1 where "write_some k m s (cs_list c) = Some ((n, ec), s1)" "n \<le> length (cs_bytes m c)"
    "out (so_kernel s1) = out (so_kernel s) @ take n (cs_bytes m c)" "same_socket s s1"
    "ec = No_error \<longrightarrow> length (cs_bytes m (cs_consume n c)) + cs_left (cs_consume n c) < length (cs_bytes m c) + cs_left c"
proof -
  let ?B = "cs_bytes m c"
  have max': "cs_max_size c < size_max" using max by (simp add: size_max_def)
  have lt: "length (cbs_bytes m (cs_list c)) < size_max" using cs_list_bytes [OF max', of m] short by simp
  obtain n ec s1 where w: "write_some k m s (cs_list c) = Some ((n, ec), s1)" "sent out (cbs_bytes m (take 64 (cs_list c))) s n ec s1"
    using write_some_total [OF k lt, of s] by blast
  obtain l where l: "cbs_bytes m (take 64 (cs_list c)) = take l ?B" using cs_list_prefix [OF max'] by blast
  have n: "n \<le> length ?B" "out (so_kernel s1) = out (so_kernel s) @ take n ?B" "same_socket s s1"
    using w(2) by (auto simp: sent_def l min_def split: if_splits)
  have "length (cs_bytes m (cs_consume n c)) + cs_left (cs_consume n c) < length ?B + cs_left c" if ok: "ec = No_error"
  proof (cases "take l ?B = []")
    case True
    then have "n = 0" using w(2) by (auto simp: sent_def l)
    then show ?thesis using consume_empty_left [of c] cs_list_empty_first [OF more, of m] True l by simp
  next
    case False
    then have "0 < n" using w(2) ok by (simp add: sent_def l)
    moreover have "cs_left (cs_consume n c) \<le> cs_left c" by (rule cs_consume_left)
    ultimately show ?thesis using n(1) by auto
  qed
  then show thesis using that [OF w(1) n] by blast
qed

lemma write_loop_all:
  assumes k: "sends k out wait" and "cs_max_size c = 65536" "moved + length (cs_bytes m c) < size_max"
  shows "\<exists>n ec s'. write_loop k transfer_all m c s moved No_error = Some ((moved + n, ec), s') \<and> n \<le> length (cs_bytes m c) \<and>
    out (so_kernel s') = out (so_kernel s) @ take n (cs_bytes m c) \<and> (ec = No_error \<longrightarrow> n = length (cs_bytes m c)) \<and> same_socket s s'"
  using assms(2-)
proof (induction "length (cs_bytes m c) + cs_left c" arbitrary: c s moved rule: less_induct)
  case less
  let ?B = "cs_bytes m c"
  show ?case
  proof (cases "ci_at_end (cs_begin c)")
    case True
    then have "?B = []" using less.prems(1) by (simp add: cs_begin_def cs_bytes_def)
    then show ?thesis using True by (subst write_loop.simps) (auto intro: exI [of _ 0])
  next
    case False
    obtain n ec s1 where w: "write_some k m s (cs_list c) = Some ((n, ec), s1)" and n: "n \<le> length ?B"
        "out (so_kernel s1) = out (so_kernel s) @ take n ?B" "same_socket s s1"
      and dec: "ec = No_error \<longrightarrow> length (cs_bytes m (cs_consume n c)) + cs_left (cs_consume n c) < length ?B + cs_left c"
      by (rule write_step [OF k less.prems(1) _ False, of m s]) (use less.prems(2) in auto)
    let ?c = "cs_prepare (transfer_all (ec \<noteq> No_error) (moved + n)) (cs_consume n c)"
    have step: "write_loop k transfer_all m c s moved No_error = write_loop k transfer_all m ?c s1 (moved + n) ec"
      using False w n(1) less.prems(2) by (subst write_loop.simps) simp
    show ?thesis
    proof (cases "ec = No_error")
      case no_error: True
      have B: "cs_bytes m ?c = drop n ?B" "cs_max_size ?c = 65536"
        by (simp_all add: no_error) (simp add: cs_prepare_def transfer_all_def default_max_transfer_size_def)
      have left: "cs_left ?c = cs_left (cs_consume n c)" by (simp add: cs_left_def cs_prepare_def)
      have "length (cs_bytes m ?c) + cs_left ?c < length ?B + cs_left c" using dec no_error left B(1) by simp
      then obtain n2 ec2 s2 where IH: "write_loop k transfer_all m ?c s1 (moved + n) No_error = Some ((moved + n + n2, ec2), s2)"
          "n2 \<le> length (drop n ?B)" "out (so_kernel s2) = out (so_kernel s1) @ take n2 (drop n ?B)"
          "ec2 = No_error \<longrightarrow> n2 = length (drop n ?B)" "same_socket s1 s2"
        using less.hyps [of ?c "moved + n" s1] B less.prems(2) n(1) by auto
      have "take n ?B @ take n2 (drop n ?B) = take (n + n2) ?B" by (simp add: take_add)
      then show ?thesis using step IH n no_error same_socket_trans [OF n(3) IH(5)]
        by (intro exI [of _ "n + n2"] exI [of _ ec2] exI [of _ s2]) (auto simp: add.assoc)
    next
      case error: False
      then have "write_loop k transfer_all m c s moved No_error = Some ((moved + n, ec), s1)"
        using step write_loop_error [OF error, of k m "moved + n"] by simp
      then show ?thesis using error n by auto
    qed
  qed
qed

lemma asio_write_total:
  assumes "sends k out wait" "length (cbs_bytes m bs) < size_max"
  shows "\<exists>n ec s'. asio_write k transfer_all m s bs = Some ((n, ec), s') \<and> n \<le> length (cbs_bytes m bs) \<and>
    out (so_kernel s') = out (so_kernel s) @ take n (cbs_bytes m bs) \<and> (ec = No_error \<longrightarrow> n = length (cbs_bytes m bs)) \<and> same_socket s s'"
proof -
  let ?c = "cs_prepare (transfer_all False 0) (consuming_make bs)"
  have "cs_max_size ?c = 65536" by (simp add: cs_prepare_def transfer_all_def default_max_transfer_size_def)
  from write_loop_all [OF assms(1) this, of 0 m s] show ?thesis
    using assms(2) by (simp add: asio_write_def cs_bytes_make)
qed

definition received :: "('s \<Rightarrow> string) \<Rightarrow> ('s \<Rightarrow> nat) \<Rightarrow> nat \<Rightarrow> 's tcp_socket \<Rightarrow> string \<Rightarrow> error_code \<Rightarrow> 's tcp_socket \<Rightarrow> bool" where
  "received out left n s d ec s' \<longleftrightarrow> length d \<le> n \<and> out (so_kernel s') = out (so_kernel s) \<and> same_socket s s' \<and>
     left (so_kernel s') \<le> left (so_kernel s) \<and> (d \<noteq> [] \<longrightarrow> left (so_kernel s') < left (so_kernel s)) \<and>
     (ec = No_error \<longrightarrow> 0 < n \<longrightarrow> so_stream_oriented s \<longrightarrow> d \<noteq> []) \<and> (ec \<noteq> No_error \<longrightarrow> d = [])"

lemma recv_loop_total:
  assumes k: "receives k out left wait" and stream: "so_stream_oriented s"
  shows "\<exists>d ec s'. recv_loop k s n = Some ((d, ec), s') \<and> received out left n s d ec s'"
  using stream
proof (induction "wait (so_kernel s)" arbitrary: s rule: less_induct)
  case less
  obtain r ks where recv: "k_recvmsg k (so_kernel s) n = (r, ks)" by fastforce
  let ?s1 = "s\<lparr>so_kernel := ks\<rparr>"
  show ?case
  proof (cases r)
    case (Inr d)
    then have "recv_loop k s n = Some ((d, if d = [] then Eof else No_error), ?s1)"
      using recv less.prems by (subst recv_loop.simps) (auto simp: socket_recv_def)
    then show ?thesis using receivesD(1) [OF k, of _ n d ks] recv Inr by (auto simp: received_def)
  next
    case (Inl e)
    note e = receivesD(2) [OF k, of "so_kernel s" n e ks, OF recv [unfolded Inl]]
    have step: "recv_loop k s n = (if so_user_set_non_blocking s \<or> \<not> again e then Some (([], e), ?s1)
        else case poll_read k ?s1 of ((r, ec'), s2) \<Rightarrow> if r < 0 then Some (([], ec'), s2) else recv_loop k s2 n)"
      using recv Inl by (subst recv_loop.simps) (simp add: socket_recv_def again_def)
    show ?thesis
    proof (cases "so_user_set_non_blocking s \<or> \<not> again e")
      case True
      then show ?thesis using step e by (auto simp: received_def)
    next
      case False
      obtain r2 ks2 where poll: "k_poll_in k ks = (r2, ks2)" by fastforce
      let ?s2 = "s\<lparr>so_kernel := ks2\<rparr>"
      show ?thesis
      proof (cases "so_valid s \<and> (\<exists>n. r2 = Inr n)")
        case True
        then obtain i where r2: "r2 = Inr i" by blast
        note p = receivesD(3) [OF k poll [unfolded r2]]
        have "wait (so_kernel ?s2) < wait (so_kernel s)" "so_stream_oriented ?s2" using e p False less.prems by simp_all
        then obtain d ec s' where IH: "recv_loop k ?s2 n = Some ((d, ec), s')" "received out left n ?s2 d ec s'"
          using less.hyps by blast
        have "recv_loop k s n = recv_loop k ?s2 n" using step False True poll r2 by (simp add: poll_read_def)
        then show ?thesis using IH e p same_socket_trans [OF same_socket_upd [of s ks2]] by (auto simp: received_def)
      next
        case no: False
        then show ?thesis using step False poll e receivesD(4) [OF k, of ks _ ks2]
          by (cases r2) (fastforce simp: poll_read_def received_def)+
      qed
    qed
  qed
qed

lemma read_some_total:
  assumes "receives k out left wait" "so_stream_oriented s"
  shows "\<exists>d ec s'. read_some k s n = Some ((d, ec), s') \<and> received out left n s d ec s'"
  using recv_loop_total [OF assms, of n] assms(2) by (auto simp: read_some_def sync_recv_def received_def)

text \<open>Sending does not make the peer send more than it would.\<close>

definition quiet :: "'s kernel \<Rightarrow> ('s \<Rightarrow> nat) \<Rightarrow> bool" where
  "quiet k left \<longleftrightarrow> (\<forall>s texts. left (snd (k_sendmsg k s texts)) \<le> left s) \<and> (\<forall>s. left (snd (k_poll_out k s)) \<le> left s)"

lemma socket_send_quiet: "quiet k left \<Longrightarrow> left (so_kernel (snd (socket_send k s texts))) \<le> left (so_kernel s)"
  unfolding quiet_def socket_send_def
  by (auto split: prod.splits sum.splits) (metis snd_conv)+

lemma poll_write_quiet: "quiet k left \<Longrightarrow> left (so_kernel (snd (poll_write k s))) \<le> left (so_kernel s)"
  unfolding quiet_def poll_write_def
  by (auto split: prod.splits sum.splits) (metis snd_conv)+

lemma send_loop_quiet:
  assumes "send_loop k s texts = Some (x, s')" "quiet k left"
  shows "left (so_kernel s') \<le> left (so_kernel s)"
proof -
  have "quiet k left \<longrightarrow> left (so_kernel (snd y)) \<le> left (so_kernel s)" if "send_loop k s texts = Some y" for y
    using that
  proof (rule send_loop.raw_induct [rotated], goal_cases)
    case (1 f k s texts y)
    obtain b ec s1 where s1: "socket_send k s texts = ((b, ec), s1)" by (metis prod.collapse)
    obtain r ec' s2 where s2: "poll_write k s1 = ((r, ec'), s2)" by (metis prod.collapse)
    show ?case
    proof
      assume q: "quiet k left"
      have le: "left (so_kernel s1) \<le> left (so_kernel s)" "left (so_kernel s2) \<le> left (so_kernel s1)"
        using socket_send_quiet [OF q, of s texts] poll_write_quiet [OF q, of s1] s1 s2 by simp_all
      show "left (so_kernel (snd y)) \<le> left (so_kernel s)"
        using 1(2) le 1(1) [of k s2 texts y] q s1 s2 by (auto split: if_splits)
    qed
  qed
  then show ?thesis using assms by fastforce
qed

lemma write_some_quiet:
  assumes "write_some k m s bs = Some (x, s')" "quiet k left"
  shows "left (so_kernel s') \<le> left (so_kernel s)"
  using assms send_loop_quiet [OF _ assms(2)] by (fastforce simp: write_some_def sync_send_def Let_def split: if_splits)

lemma write_loop_quiet:
  assumes "write_loop k cond m tmp s n ec = Some (x, s')" "quiet k left"
  shows "left (so_kernel s') \<le> left (so_kernel s)"
proof -
  have "quiet k left \<longrightarrow> left (so_kernel (snd y)) \<le> left (so_kernel s)" if "write_loop k cond m tmp s n ec = Some y" for y
    using that
  proof (rule write_loop.raw_induct [rotated], goal_cases)
    case (1 f k cond m tmp s n ec y)
    show ?case
    proof (cases "ci_at_end (cs_begin tmp)")
      case True
      then show ?thesis using 1(2) by auto
    next
      case False
      then obtain b ec1 s1 where w: "write_some k m s (cs_list tmp) = Some ((b, ec1), s1)"
        using 1(2) by (auto split: option.splits)
      have "left (so_kernel s1) \<le> left (so_kernel s)" if "quiet k left"
        by (rule write_some_quiet [OF w that])
      then show ?thesis using 1(2) 1(1) [of k cond m _ s1 _ _ y] False w by fastforce
    qed
  qed
  then show ?thesis using assms by fastforce
qed

lemma asio_write_quiet:
  "asio_write k cond m s bs = Some (x, s') \<Longrightarrow> quiet k left \<Longrightarrow> left (so_kernel s') \<le> left (so_kernel s)"
  unfolding asio_write_def by (rule write_loop_quiet)

text \<open>A kernel for the witnesses: it sends at most 5 bytes at a time and delivers given chunks.\<close>

type_synonym sample_net = "string \<times> string list"

definition sample_kernel :: "sample_net kernel" where
  "sample_kernel = \<lparr>
     k_sendmsg = (\<lambda>(out, cs) texts. let n = min 5 (length (concat texts)) in (Inr n, (out @ take n (concat texts), cs))),
     k_recvmsg = (\<lambda>(out, cs) n. case cs of [] \<Rightarrow> (Inr [], (out, []))
       | c # rest \<Rightarrow> (Inr (take n c), (out, if drop n c = [] then rest else drop n c # rest))),
     k_poll_out = (\<lambda>s. (Inr 1, s)), k_poll_in = (\<lambda>s. (Inr 1, s)), k_shutdown = (\<lambda>s. s), k_close = (\<lambda>s. s)\<rparr>"

definition sample_socket :: "string list \<Rightarrow> sample_net tcp_socket" where
  "sample_socket cs = \<lparr>so_valid = True, so_stream_oriented = True, so_user_set_non_blocking = False, so_kernel = ([], cs)\<rparr>"

lemma sample_sends: "sends sample_kernel fst (\<lambda>_. 0)"
  by (auto simp: sends_def sample_kernel_def Let_def)

lemma sample_receives: "receives sample_kernel fst (\<lambda>s. length (snd s) + length (concat (snd s))) (\<lambda>_. 0)"
  by (auto simp: receives_def sample_kernel_def split: list.splits)

lemma sample_quiet: "quiet sample_kernel (\<lambda>s. length (snd s) + length (concat (snd s)))"
  by (auto simp: quiet_def sample_kernel_def Let_def)

subsection \<open>Properties\<close>

text \<open>C8: \<open>write\<close> with \<open>transfer_all\<close> returns; the peer has then been sent, in order and without a gap,
  the first \<open>n\<close> bytes of the buffers, where \<open>n\<close> is the count it returns; and unless it reports an
  error these are all the bytes, however the kernel splits the transfer.\<close>

theorem asio_write_sends_all:
  assumes "sends k out wait" "length (cbs_bytes m bs) < size_max"
  shows "\<exists>n ec s'. asio_write k transfer_all m s bs = Some ((n, ec), s') \<and>
    out (so_kernel s') = out (so_kernel s) @ take n (cbs_bytes m bs) \<and> n \<le> length (cbs_bytes m bs) \<and>
    (ec = No_error \<longrightarrow> out (so_kernel s') = out (so_kernel s) @ cbs_bytes m bs)"
  using asio_write_total [OF assms, of s] by fastforce

theorem asio_write_sends_all_witness:
  "\<exists>n ec s'. asio_write sample_kernel transfer_all (mem_at 0 ''HTTP/1.1 200 OK'') (sample_socket [])
      [\<lparr>cb_data = 0, cb_size = 8\<rparr>, \<lparr>cb_data = 8, cb_size = 0\<rparr>, \<lparr>cb_data = 8, cb_size = 7\<rparr>] = Some ((n, ec), s') \<and>
    (ec = No_error \<longrightarrow> fst (so_kernel s') = ''HTTP/1.1 200 OK'')"
proof -
  let ?m = "mem_at 0 ''HTTP/1.1 200 OK''"
  let ?bs = "[\<lparr>cb_data = 0, cb_size = 8\<rparr>, \<lparr>cb_data = 8, cb_size = 0\<rparr>, \<lparr>cb_data = 8, cb_size = 7\<rparr>]"
  have b: "cbs_bytes ?m ?bs = ''HTTP/1.1 200 OK''" by (simp add: cb_bytes_def mem_at_def upt_rec)
  then have "length (cbs_bytes ?m ?bs) < size_max" by (simp add: size_max_def)
  from asio_write_sends_all [OF sample_sends this, of "sample_socket []"] show ?thesis
    unfolding b by (fastforce simp: sample_socket_def)
qed

end
