(* ===== verification/Server.thy ===== *)
theory Server
  imports Codecs Modules Options Semops Asio_Socket
begin

text \<open>
  The service and its connections (\<^verbatim>\<open>src/src/server.hpp\<close>, \<^verbatim>\<open>src/src/server.cpp\<close>).

  What the code calls outside the repository is in the record \<open>env\<close>: the parser library, \<open>std::sort\<close>,
  the clock, the kernel under the sockets, and the timers of the coroutine library (\<open>timer_api\<close>).
  The options and the registry of handlers are there too, since the connections only read them.

  One connection runs as one sequence of steps: the heap and the pool, the socket, the timers and
  the trace of the calls to handlers are its state. Loops that wait for the client are partial
  functions; that they return is proved in \<^verbatim>\<open>Server_Props\<close>.
\<close>

subsection \<open>Environment\<close>

datatype timer_cb = On_idle_expired conid_t | On_life_expired conid_t | On_time_tick

record 't timer_api =
  ta_add :: "'t \<Rightarrow> int \<Rightarrow> timer_cb \<Rightarrow> nat \<times> 't"
  ta_cancel :: "'t \<Rightarrow> nat \<Rightarrow> 't"

record ('p, 't, 's) env =
  en_api :: "'p http_parser_api"
  en_sort :: "fields_t \<Rightarrow> fields_t"
  en_exec :: "'p executor"
  en_gmtime :: tm
  en_urldata :: nat
  en_kernel :: "'s kernel"
  en_timer :: "'t timer_api"
  en_handlers :: "'p module_handler modules"
  en_option :: options

text \<open>Calls to handlers, with the name of the handler.\<close>

datatype call = On_process_init string | On_process_exit string
  | On_connect_init string conid_t | On_connect_exit string conid_t
  | On_request_header string conid_t txnid_t | On_request_body string conid_t txnid_t

definition notify :: "'p module_handler modules \<Rightarrow> nat \<Rightarrow> (string \<Rightarrow> call) \<Rightarrow> call list \<Rightarrow> call list" where
  "notify md ev f calls = calls @ map (\<lambda>mh. f (mh_name mh)) (filter (\<lambda>mh. handles mh ev) (list_handler md))"

subsection \<open>Connections and their timers\<close>

record ('t, 's) http_connection =
  hc_trans :: "'s tcp_socket"
  hc_connid :: conid_t
  hc_timer_idle :: "nat option"
  hc_timer_life :: "nat option"
  hc_world :: world
  hc_timers :: 't
  hc_calls :: "call list"

text \<open>The life timer is armed unless it is configured as -1; \<open>remote_endpoint\<close> throws when the peer
  is gone (\<open>peer\<close> is false).\<close>

definition conn_make :: "('p, 't, 's) env \<Rightarrow> bool \<Rightarrow> world \<Rightarrow> 's tcp_socket \<Rightarrow> 't \<Rightarrow> call list \<Rightarrow> conid_t
    \<Rightarrow> ('t, 's) http_connection res" where
  "conn_make e peer w s ts calls cid = (let
       calls1 = notify (en_handlers e) HE_CONNECT_INIT (\<lambda>n. On_connect_init n cid) calls in
     if \<not> peer then Inl (System_error ''remote_endpoint'')
     else let (life, ts1) = (if op_timer_life (en_option e) \<noteq> - 1
         then (case ta_add (en_timer e) ts (op_timer_life (en_option e)) (On_life_expired cid) of (i, ts') \<Rightarrow> (Some i, ts'))
         else (None, ts)) in
       Inr \<lparr>hc_trans = s, hc_connid = cid, hc_timer_idle = None, hc_timer_life = life, hc_world = w,
         hc_timers = ts1, hc_calls = calls1\<rparr>)"

definition pause_timer :: "('p, 't, 's) env \<Rightarrow> ('t, 's) http_connection \<Rightarrow> ('t, 's) http_connection" where
  "pause_timer e c = (case hc_timer_idle c of
       Some i \<Rightarrow> c\<lparr>hc_timers := ta_cancel (en_timer e) (hc_timers c) i\<rparr>
     | None \<Rightarrow> c)"

definition start_timer :: "('p, 't, 's) env \<Rightarrow> ('t, 's) http_connection \<Rightarrow> ('t, 's) http_connection" where
  "start_timer e c0 = (let c = pause_timer e c0;
       (i, ts) = ta_add (en_timer e) (hc_timers c) (op_timer_idle (en_option e)) (On_idle_expired (hc_connid c))
     in c\<lparr>hc_timer_idle := Some i, hc_timers := ts\<rparr>)"

definition clear_timer :: "('p, 't, 's) env \<Rightarrow> ('t, 's) http_connection \<Rightarrow> ('t, 's) http_connection" where
  "clear_timer e c = (let
       c1 = (case hc_timer_idle c of Some i \<Rightarrow>
           c\<lparr>hc_timers := ta_cancel (en_timer e) (hc_timers c) i, hc_timer_idle := None\<rparr> | None \<Rightarrow> c)
     in case hc_timer_life c1 of Some i \<Rightarrow>
           c1\<lparr>hc_timers := ta_cancel (en_timer e) (hc_timers c1) i, hc_timer_life := None\<rparr> | None \<Rightarrow> c1)"

definition shutdown_both :: "('p, 't, 's) env \<Rightarrow> 's tcp_socket \<Rightarrow> 's tcp_socket" where
  "shutdown_both e s = s\<lparr>so_kernel := k_shutdown (en_kernel e) (so_kernel s)\<rparr>"

definition on_idle_expired :: "('p, 't, 's) env \<Rightarrow> ('t, 's) http_connection \<Rightarrow> ('t, 's) http_connection" where
  "on_idle_expired e c = c\<lparr>hc_trans := shutdown_both e (hc_trans c), hc_timer_idle := None\<rparr>"

definition on_life_expired :: "('p, 't, 's) env \<Rightarrow> ('t, 's) http_connection \<Rightarrow> ('t, 's) http_connection" where
  "on_life_expired e c = c\<lparr>hc_trans := shutdown_both e (hc_trans c), hc_timer_life := None\<rparr>"

definition conn_destroy :: "('p, 't, 's) env \<Rightarrow> ('t, 's) http_connection \<Rightarrow> ('t, 's) http_connection" where
  "conn_destroy e c0 = (let c = clear_timer e c0 in
     c\<lparr>hc_trans := (hc_trans c)\<lparr>so_valid := False, so_kernel := k_close (en_kernel e) (so_kernel (hc_trans c))\<rparr>,
       hc_calls := notify (en_handlers e) HE_CONNECT_EXIT (\<lambda>n. On_connect_exit n (hc_connid c)) (hc_calls c)\<rparr>)"

subsection \<open>Receiving a request\<close>

text \<open>The bytes of a buffer follow its header of \<open>sizeof_iobuf\<close> bytes.\<close>

definition holds_addr :: "world \<Rightarrow> nat \<Rightarrow> iobuf_ptr \<Rightarrow> bool" where
  "holds_addr w a q \<longleftrightarrow> ptr_addr q + sizeof_iobuf \<le> a \<and> a < ptr_addr q + sizeof_iobuf + nat (pl_size (w_pool w))"

definition bufs_mem :: "world \<Rightarrow> iobuf_ptr list \<Rightarrow> mem" where
  "bufs_mem w ps a = (case List.find (holds_addr w a) ps of
       None \<Rightarrow> CHR 0x00
     | Some q \<Rightarrow> (case hp_cells (w_heap w) (ptr_addr q) of
           None \<Rightarrow> CHR 0x00
         | Some io \<Rightarrow> io_buff io ! (a - (ptr_addr q + sizeof_iobuf))))"

abbreviation hc_write_cell :: "('t, 's) http_connection \<Rightarrow> nat \<Rightarrow> iobuf \<Rightarrow> ('t, 's) http_connection" where
  "hc_write_cell c a io \<equiv> c\<lparr>hc_world := write_cell (hc_world c) a io\<rparr>"

text \<open>A new buffer when the last one is full.\<close>

definition more_room :: "('t, 's) http_connection \<Rightarrow> iobuf_ptr list \<Rightarrow> iobuf \<Rightarrow> (('t, 's) http_connection \<times> iobuf_ptr list) res" where
  "more_room c buf iov = (if iobuf_get_w_available iov \<le> 0
     then rbind (acquire (hc_world c)) (\<lambda>(q, w). Inr (c\<lparr>hc_world := w\<rparr>, buf @ [q]))
     else Inr (c, buf))"

text \<open>\<open>read_some\<close> into the free part of the last buffer. The result is the number of bytes, or
  nothing when there was an error or the end of the stream.\<close>

definition read_more :: "('p, 't, 's) env \<Rightarrow> ('t, 's) http_connection \<Rightarrow> iobuf_ptr list
    \<Rightarrow> (('t, 's) http_connection \<times> nat option) res option" where
  "read_more e c buf = (case hp_cells (w_heap (hc_world c)) (ptr_addr (last buf)) of
       None \<Rightarrow> Some (Inl Dangling_reference)
     | Some iov \<Rightarrow> (case read_some (en_kernel e) (hc_trans c) (size_of_int (iobuf_get_w_available iov)) of
           None \<Rightarrow> None
         | Some ((d, ec), s) \<Rightarrow>
             if ec \<noteq> No_error then Some (Inr (c\<lparr>hc_trans := s\<rparr>, None))
             else Some (rbind (memcpy (io_buff iov) (iobuf_get_w_buf iov) d) (\<lambda>b.
               Inr (hc_write_cell (c\<lparr>hc_trans := s\<rparr>) (ptr_addr (last buf))
                 (fst (iobuf_set_w_len (iov\<lparr>io_buff := b\<rparr>) (int_of_size (length d)))), Some (length d))))))"

text \<open>
  The loop that feeds the parser until \<open>completed\<close>; \<open>size\<close> counts the bytes read and \<open>limit\<close> bounds
  them. The result says whether the request is complete; otherwise the connection ends. The test at
  the end of the source's loop is the one just made: the request has not changed since.
\<close>

partial_function (option) request_loop :: "('p, 't, 's) env \<Rightarrow> ('p http_request \<Rightarrow> bool) \<Rightarrow> size_t \<Rightarrow> ('t, 's) http_connection
    \<Rightarrow> iobuf_ptr list \<Rightarrow> 'p http_request \<Rightarrow> int \<Rightarrow> (('t, 's) http_connection \<times> iobuf_ptr list \<times> 'p http_request \<times> bool) res option" where
  "request_loop e completed limit c buf req n = (
     case hp_cells (w_heap (hc_world c)) (ptr_addr (last buf)) of
       None \<Rightarrow> Some (Inl Dangling_reference)
     | Some iov \<Rightarrow> (case codec_parse (en_api e) (en_sort e) (en_exec e) (bufs_mem (hc_world c) buf)
           (ptr_addr (last buf) + sizeof_iobuf) iov req of
         None \<Rightarrow> None
       | Some (iov1, req1) \<Rightarrow>
           if req_error (en_api e) req1 \<noteq> HPE_OK
           then Some (Inr (hc_write_cell c (ptr_addr (last buf)) iov1, buf, req1, False))
           else if completed req1
           then Some (Inr (hc_write_cell c (ptr_addr (last buf)) iov1, buf, req1, True))
           else pbind (Some (more_room (hc_write_cell c (ptr_addr (last buf)) iov1) buf iov1)) (\<lambda>(c2, buf2).
             pbind (read_more e c2 buf2) (\<lambda>(c3, got). case got of
               None \<Rightarrow> Some (Inr (c3, buf2, req1, False))
             | Some k \<Rightarrow> if size_of_int (cint (n + int k)) > limit
                 then Some (Inr (c3, buf2, req1, False))
                 else request_loop e completed limit c3 buf2 req1 (cint (n + int k))))))"

definition header_loop :: "('p, 't, 's) env \<Rightarrow> ('t, 's) http_connection \<Rightarrow> iobuf_ptr list \<Rightarrow> 'p http_request
    \<Rightarrow> (('t, 's) http_connection \<times> iobuf_ptr list \<times> 'p http_request \<times> bool) res option" where
  "header_loop e c buf req = request_loop e headers_completed (cm_max_header_size (op_memory (en_option e))) c buf req 0"

definition body_loop :: "('p, 't, 's) env \<Rightarrow> ('t, 's) http_connection \<Rightarrow> iobuf_ptr list \<Rightarrow> 'p http_request
    \<Rightarrow> (('t, 's) http_connection \<times> iobuf_ptr list \<times> 'p http_request \<times> bool) res option" where
  "body_loop e c buf req = request_loop e message_completed (cm_max_body_size (op_memory (en_option e))) c buf req 0"

subsection \<open>Answering it\<close>

text \<open>\<open>request.url().path.data()\<close>: a null pointer, or the C string that starts at the path inside the
  URL. It ends where the URL ends, not where the path does.\<close>

definition path_data :: "'p http_request \<Rightarrow> string option" where
  "path_data req = map_option (\<lambda>a. c_str (drop (a - rq_urldata req) (rq_strurl req))) (slice_data (pu_path (req_url req)))"

definition call_handler :: "('p, 't, 's) env \<Rightarrow> 'p module_handler option \<Rightarrow> nat \<Rightarrow> ('p module_handler \<Rightarrow> 'p on_request)
    \<Rightarrow> (string \<Rightarrow> conid_t \<Rightarrow> txnid_t \<Rightarrow> call) \<Rightarrow> txnid_t \<Rightarrow> 'p http_request \<Rightarrow> ('t, 's) http_connection \<Rightarrow> http_response
    \<Rightarrow> (('t, 's) http_connection \<times> http_response) res" where
  "call_handler e mh ev sel tag txn req c rsp = (case mh of
       None \<Rightarrow> Inr (c, rsp)
     | Some h \<Rightarrow> if handles h ev
         then rbind (sel h (hc_connid c) txn (en_gmtime e) (en_api e) req (hc_world c) rsp) (\<lambda>(w, rsp').
           Inr (c\<lparr>hc_world := w, hc_calls := hc_calls c @ [tag (mh_name h) (hc_connid c) txn]\<rparr>, rsp'))
         else Inr (c, rsp))"

text \<open>The readable part of every buffer that has one.\<close>

fun out_buffers :: "world \<Rightarrow> iobuf_ptr list \<Rightarrow> const_buffer list res" where
  "out_buffers w [] = Inr []"
| "out_buffers w (q # qs) = (case hp_cells (w_heap w) (ptr_addr q) of
       None \<Rightarrow> Inl Dangling_reference
     | Some b \<Rightarrow> rbind (out_buffers w qs) (\<lambda>obs. Inr (if iobuf_get_r_len b > 0
         then \<lparr>cb_data = ptr_addr q + sizeof_iobuf + nat (iobuf_get_r_buf b), cb_size = size_of_int (iobuf_get_r_len b)\<rparr> # obs
         else obs)))"

definition send_response :: "('p, 't, 's) env \<Rightarrow> ('t, 's) http_connection \<Rightarrow> http_response
    \<Rightarrow> (('t, 's) http_connection \<times> size_t \<times> error_code) res option" where
  "send_response e c rsp = pbind (Some (out_buffers (hc_world c) (resp_buffers rsp))) (\<lambda>obs.
     map_option (\<lambda>((n, ec), s). Inr (c\<lparr>hc_trans := s\<rparr>, n, ec))
       (asio_write (en_kernel e) transfer_all (bufs_mem (hc_world c) (resp_buffers rsp)) (hc_trans c) obs))"

text \<open>Leaving \<open>process_request\<close> destroys the response and with it its buffers.\<close>

definition leave_request :: "('t, 's) http_connection \<Rightarrow> iobuf_ptr list \<Rightarrow> http_response \<Rightarrow> bool
    \<Rightarrow> (('t, 's) http_connection \<times> iobuf_ptr list \<times> bool) res" where
  "leave_request c buf rsp keep = rbind (drop_ptrs (hc_world c) (resp_buffers rsp) buf) (\<lambda>w.
     Inr (c\<lparr>hc_world := w\<rparr>, buf, keep))"

definition answer_request :: "('p, 't, 's) env \<Rightarrow> ('t, 's) http_connection \<Rightarrow> iobuf_ptr list \<Rightarrow> http_response
    \<Rightarrow> (('t, 's) http_connection \<times> iobuf_ptr list \<times> bool) res option" where
  "answer_request e c buf rsp = pbind (send_response e (start_timer e c) rsp) (\<lambda>(c1, bytes, ec).
     Some (leave_request (pause_timer e c1) buf rsp (ec = No_error \<and> resp_is_keep_alive rsp)))"

definition process_body :: "('p, 't, 's) env \<Rightarrow> 'p module_handler option \<Rightarrow> txnid_t \<Rightarrow> ('t, 's) http_connection \<Rightarrow> iobuf_ptr list
    \<Rightarrow> 'p http_request \<Rightarrow> http_response \<Rightarrow> (('t, 's) http_connection \<times> iobuf_ptr list \<times> bool) res option" where
  "process_body e mh txn c buf req rsp =
     pbind (body_loop e (start_timer e c) buf req) (\<lambda>(c1, buf1, req1, ok).
     if \<not> ok then Some (leave_request c1 buf1 rsp False)
     else pbind (Some (call_handler e mh HE_REQUEST_BODY mh_on_request_body On_request_body txn req1 (pause_timer e c1) rsp))
       (\<lambda>(c2, rsp2). answer_request e c2 buf1 rsp2))"

definition process_request :: "('p, 't, 's) env \<Rightarrow> ('t, 's) http_connection \<Rightarrow> iobuf_ptr list \<Rightarrow> txnid_t
    \<Rightarrow> (('t, 's) http_connection \<times> iobuf_ptr list \<times> bool) res option" where
  "process_request e c buf txn = (if buf = [] then Some (Inl Empty_back)
     else pbind (Some (resp_make (hc_world c))) (\<lambda>(w, rsp).
     pbind (header_loop e (start_timer e (c\<lparr>hc_world := w\<rparr>)) buf (req_make (en_api e) (en_urldata e))) (\<lambda>(c1, buf1, req1, ok).
     if \<not> ok then Some (leave_request c1 buf1 rsp False)
     else let mh = match_handler (en_handlers e) (path_data req1) in
       pbind (Some (call_handler e mh HE_REQUEST_HDR mh_on_request_header On_request_header txn req1 (pause_timer e c1) rsp))
         (\<lambda>(c2, rsp2). process_body e mh txn c2 buf1 req1 rsp2))))"

subsection \<open>The life of a connection\<close>

text \<open>Buffers at the front that are read completely go back to the pool.\<close>

fun release_front :: "world \<Rightarrow> iobuf_ptr list \<Rightarrow> (world \<times> iobuf_ptr list) res" where
  "release_front w [] = Inr (w, [])"
| "release_front w (q # qs) = (case hp_cells (w_heap w) (ptr_addr q) of
       None \<Rightarrow> Inl Dangling_reference
     | Some iov \<Rightarrow> if iobuf_get_r_len iov = 0
         then rbind (drop_ptrs w [q] qs) (\<lambda>w'. release_front w' qs)
         else Inr (w, q # qs))"

definition first_buffer :: "('t, 's) http_connection \<Rightarrow> iobuf_ptr list \<Rightarrow> (('t, 's) http_connection \<times> iobuf_ptr list) res" where
  "first_buffer c reqbuf = (if reqbuf = [] then rbind (acquire (hc_world c)) (\<lambda>(q, w). Inr (c\<lparr>hc_world := w\<rparr>, [q]))
     else Inr (c, reqbuf))"

partial_function (option) parse_requests :: "('p, 't, 's) env \<Rightarrow> ('t, 's) http_connection \<Rightarrow> iobuf_ptr list \<Rightarrow> txnid_t \<Rightarrow> bool
    \<Rightarrow> (('t, 's) http_connection \<times> iobuf_ptr list) res option" where
  "parse_requests e c reqbuf txn keep_alive = (if \<not> keep_alive then Some (Inr (c, reqbuf))
     else pbind (Some (first_buffer c reqbuf)) (\<lambda>(c1, buf1).
       pbind (process_request e c1 buf1 txn) (\<lambda>(c2, buf2, keep).
       pbind (Some (release_front (hc_world c2) buf2)) (\<lambda>(w, buf3).
       parse_requests e (c2\<lparr>hc_world := w\<rparr>) buf3 (txn + 1) keep))))"

text \<open>\<open>http_connection::parse\<close>: the list of buffers is destroyed at the end.\<close>

definition conn_parse :: "('p, 't, 's) env \<Rightarrow> ('t, 's) http_connection \<Rightarrow> (('t, 's) http_connection) res option" where
  "conn_parse e c = pbind (parse_requests e c [] 0 True) (\<lambda>(c1, reqbuf).
     Some (rbind (drop_ptrs (hc_world c1) reqbuf []) (\<lambda>w. Inr (c1\<lparr>hc_world := w\<rparr>))))"

subsection \<open>The service\<close>

text \<open>An accept fails, or yields a socket of which the peer may be gone already.\<close>

datatype 's accept_result = Accept_failed | Accepted "'s tcp_socket" bool

record ('t, 's, 'k) http_service =
  sv_run :: bool
  sv_world :: world
  sv_tik :: "nat option"
  sv_timers :: 't
  sv_conid :: "32 word"
  sv_calls :: "call list"
  sv_spawned :: "('t, 's) http_connection list"
  sv_sem :: 'k

definition service_setup :: "options \<Rightarrow> heap \<Rightarrow> 't \<Rightarrow> 'k \<Rightarrow> ('t, 's, 'k) http_service" where
  "service_setup opt h ts k = (let (h', p) = iobufs_make h (int_of_size (cm_iobuf_size (op_memory opt)))
       (int_of_size (cm_iobuf_count (op_memory opt))) in
     \<lparr>sv_run = True, sv_world = \<lparr>w_heap = h', w_pool = p\<rparr>, sv_tik = None, sv_timers = ts, sv_conid = 0,
       sv_calls = [], sv_spawned = [], sv_sem = k\<rparr>)"

definition time_tick :: "('p, 't, 's) env \<Rightarrow> ('t, 's, 'k) http_service \<Rightarrow> ('t, 's, 'k) http_service" where
  "time_tick e sv = (let (i, ts) = ta_add (en_timer e) (sv_timers sv) 1 On_time_tick in
     sv\<lparr>sv_tik := Some i, sv_timers := ts\<rparr>)"

definition service_stop :: "('t, 's, 'k) http_service \<Rightarrow> ('t, 's, 'k) http_service" where
  "service_stop sv = sv\<lparr>sv_run := False\<rparr>"

text \<open>\<open>connection_id | conid\<close>, where \<open>connection_id\<close> is the process id shifted by 32.\<close>

definition connection_id :: "int \<Rightarrow> 32 word \<Rightarrow> conid_t" where
  "connection_id pid conid = push_bit 32 (word_of_int pid) OR ucast conid"

definition accept_one :: "('p, 't, 's) env \<Rightarrow> 'k sem_api \<Rightarrow> semops \<Rightarrow> int \<Rightarrow> 's accept_result \<Rightarrow> ('t, 's, 'k) http_service
    \<Rightarrow> ('t, 's, 'k) http_service res" where
  "accept_one e sapi sem pid res sv0 = (let
       reuse = op_reuse_port (en_option e) = 0;
       k1 = (if reuse then fst (semops_wait sapi (sv_sem sv0) sem) else sv_sem sv0);
       k2 = (if reuse then semops_wake sapi k1 sem else k1);
       sv = sv0\<lparr>sv_sem := k2\<rparr>
     in case res of
          Accept_failed \<Rightarrow> Inr sv
        | Accepted s peer \<Rightarrow> (let conid = sv_conid sv + 1 in
            rbind (conn_make e peer (sv_world sv) s (sv_timers sv) (sv_calls sv) (connection_id pid conid)) (\<lambda>c.
              Inr (sv\<lparr>sv_conid := conid, sv_timers := hc_timers c, sv_calls := hc_calls c,
                sv_spawned := sv_spawned sv @ [c]\<rparr>))))"

text \<open>The loop of \<open>start\<close> over the results of \<open>accept\<close>, up to the moment \<open>run_\<close> is cleared.\<close>

fun accept_loop :: "('p, 't, 's) env \<Rightarrow> 'k sem_api \<Rightarrow> semops \<Rightarrow> int \<Rightarrow> 's accept_result list \<Rightarrow> ('t, 's, 'k) http_service
    \<Rightarrow> ('t, 's, 'k) http_service res" where
  "accept_loop e sapi sem pid [] sv = Inr (service_stop sv)"
| "accept_loop e sapi sem pid (r # rs) sv = (if sv_run sv
     then rbind (accept_one e sapi sem pid r sv) (accept_loop e sapi sem pid rs) else Inr sv)"

definition service_start :: "('p, 't, 's) env \<Rightarrow> 'k sem_api \<Rightarrow> semops \<Rightarrow> int \<Rightarrow> 's accept_result list \<Rightarrow> ('t, 's, 'k) http_service
    \<Rightarrow> ('t, 's, 'k) http_service res" where
  "service_start e sapi sem pid rs sv0 = (let sv = time_tick e sv0;
       sv1 = sv\<lparr>sv_calls := notify (en_handlers e) HE_PROCESS_INIT On_process_init (sv_calls sv)\<rparr>
     in rbind (accept_loop e sapi sem pid rs sv1) (\<lambda>sv2.
       Inr (sv2\<lparr>sv_calls := notify (en_handlers e) HE_PROCESS_INIT On_process_exit (sv_calls sv2)\<rparr>)))"

end
