(* ===== verification/Server_Props.thy ===== *)
theory Server_Props
  imports Server
begin

text \<open>
  Facts and properties of the service and its connections: what a connection sends and keeps, that
  the loops that wait for the client return, the bound on the memory a request can take, the timers,
  the numbers of connections, and the calls the handlers get.
\<close>

subsection \<open>Buffers in memory\<close>

lemma find_unique:
  assumes "x \<in> set xs" "P x" "\<And>y. y \<in> set xs \<Longrightarrow> P y \<Longrightarrow> y = x"
  shows "List.find P xs = Some x"
proof (cases "List.find P xs")
  case None
  then show ?thesis using assms(1,2) by (simp add: find_None_iff)
next
  case (Some y)
  then have "P y" "y \<in> set xs" by (auto simp: find_Some_iff)
  then show ?thesis using Some assms(3) by blast
qed

lemma bufs_mem_at:
  assumes inv: "pool_inv (lent_state w lent)" and sub: "set ps \<subseteq> set lent" and q: "q \<in> set ps"
    and io: "hp_cells (w_heap w) (ptr_addr q) = Some io" and i: "i < nat (pl_size (w_pool w))"
  shows "bufs_mem w ps (ptr_addr q + sizeof_iobuf + i) = io_buff io ! i"
proof -
  let ?a = "ptr_addr q + sizeof_iobuf + i"
  have "y = q" if "y \<in> set ps" "holds_addr w ?a y" for y
  proof (rule ccontr)
    assume "y \<noteq> q"
    then have "apart (w_pool w) (ptr_addr y) (ptr_addr q)"
      using lent_apart [OF inv, of y q] that(1) q sub by (auto simp: lent_state_def)
    then show False using that(2) i by (auto simp: apart_def holds_addr_def sizeof_iobuf_def)
  qed
  then have "List.find (holds_addr w ?a) ps = Some q"
    by (intro find_unique [OF q]) (use i in \<open>auto simp: holds_addr_def\<close>)
  then show ?thesis using io by (simp add: bufs_mem_def)
qed

lemma cell_bytes:
  assumes "pool_inv (lent_state w lent)" "set ps \<subseteq> set lent" "q \<in> set ps"
    and "hp_cells (w_heap w) (ptr_addr q) = Some io" "iobuf_ok io" "io_size io = pl_size (w_pool w)" "io_rpos io = 0"
  shows "cb_bytes (bufs_mem w ps) \<lparr>cb_data = ptr_addr q + sizeof_iobuf, cb_size = nat (io_wpos io)\<rparr> = io_written io"
proof -
  let ?n = "nat (io_wpos io)" and ?a = "ptr_addr q + sizeof_iobuf"
  have le: "?n \<le> nat (pl_size (w_pool w))" "?n \<le> length (io_buff io)" using assms(5,6) by (auto simp: iobuf_ok_def)
  have "map (bufs_mem w ps) [?a..<?a + ?n] = map (\<lambda>i. bufs_mem w ps (?a + i)) [0..<?n]"
    by (rule nth_equalityI) simp_all
  also have "\<dots> = map (\<lambda>i. io_buff io ! i) [0..<?n]"
    using le(1) bufs_mem_at [OF assms(1-4)] by (intro map_cong refl) auto
  also have "\<dots> = io_written io" using le(2) by (intro nth_equalityI) (simp_all add: io_written_def)
  finally show ?thesis by (simp add: cb_bytes_def)
qed

text \<open>The buffers of a response, as \<open>write\<close> gets them, hold the text of the response.\<close>

lemma out_buffers_text:
  assumes inv: "resp_inv w lent r" and sub: "set qs \<subseteq> set (resp_buffers r)"
  shows "\<exists>obs. out_buffers w qs = Inr obs \<and> cbs_bytes (bufs_mem w (resp_buffers r)) obs = texts w qs"
  using sub
proof (induction qs)
  case (Cons q qs)
  have p: "pool_inv (lent_state w lent)" "set (resp_buffers r) \<subseteq> set lent" and q: "q \<in> set (resp_buffers r)"
    using inv Cons.prems by (auto simp: resp_inv_def)
  then obtain io where io: "hp_cells (w_heap w) (ptr_addr q) = Some io" "iobuf_ok io" "io_size io = pl_size (w_pool w)" "io_rpos io = 0"
    using inv by (auto simp: resp_inv_def cell_ok_def split: option.splits)
  obtain obs where obs: "out_buffers w qs = Inr obs" "cbs_bytes (bufs_mem w (resp_buffers r)) obs = texts w qs"
    using Cons by auto
  have len: "iobuf_get_r_len io = io_wpos io" "0 \<le> io_wpos io" "io_wpos io < 2 ^ 31"
    using iobuf_available(2) [OF io(2)] io(2,4) by (auto simp: iobuf_ok_def)
  note cell = cell_bytes [OF p q io(1-4)]
  have "ptr_text w q = io_written io" using io(1) by (simp add: ptr_text_def)
  moreover have "io_written io = []" if "io_wpos io = 0" using that by (simp add: io_written_def)
  ultimately show ?case using obs io(1,4) len cell
    by (cases "io_wpos io > 0") (auto simp: iobuf_get_r_buf_def size_of_int_nonneg)
qed simp

subsection \<open>The buffers of a request\<close>

definition req_cell :: "world \<Rightarrow> iobuf_ptr \<Rightarrow> bool" where
  "req_cell w q \<longleftrightarrow> (case hp_cells (w_heap w) (ptr_addr q) of None \<Rightarrow> False
     | Some io \<Rightarrow> iobuf_ok io \<and> io_size io = pl_size (w_pool w))"

definition bufs_inv :: "world \<Rightarrow> iobuf_ptr list \<Rightarrow> iobuf_ptr list \<Rightarrow> bool" where
  "bufs_inv w lent buf \<longleftrightarrow> pool_inv (lent_state w lent) \<and> buf \<noteq> [] \<and> distinct buf \<and> set buf \<subseteq> set lent \<and>
     (\<forall>q \<in> set buf. req_cell w q)"

lemma req_cell_write: "req_cell (write_cell w a io) q \<longleftrightarrow>
    (if ptr_addr q = a then iobuf_ok io \<and> io_size io = pl_size (w_pool w) else req_cell w q)"
  by (simp add: req_cell_def split: option.splits)

lemma bufs_inv_last:
  assumes "bufs_inv w lent buf"
  obtains io where "hp_cells (w_heap w) (ptr_addr (last buf)) = Some io" "iobuf_ok io" "io_size io = pl_size (w_pool w)"
    "back_room w buf = iobuf_get_w_available io" "0 \<le> back_room w buf" "back_room w buf \<le> pl_size (w_pool w)"
proof -
  have "req_cell w (last buf)" using assms last_in_set by (auto simp: bufs_inv_def)
  then obtain io where io: "hp_cells (w_heap w) (ptr_addr (last buf)) = Some io" "iobuf_ok io" "io_size io = pl_size (w_pool w)"
    by (auto simp: req_cell_def split: option.splits)
  then show thesis using that [of io] iobuf_available(1) [OF io(2)] by (simp add: back_room_def iobuf_ok_def)
qed

lemma bufs_inv_write:
  assumes inv: "bufs_inv w lent buf" and q: "q \<in> set buf"
    and io: "hp_cells (w_heap w) (ptr_addr q) = Some io" and io': "iobuf_ok io'" "io_size io' = io_size io"
  shows "bufs_inv (write_cell w (ptr_addr q) io') lent buf" "others_same w lent buf (write_cell w (ptr_addr q) io')"
proof -
  have p: "pool_inv (lent_state w lent)" and ql: "q \<in> set lent" and sub: "set buf \<subseteq> set lent"
    and ok: "iobuf_ok io" "io_size io = pl_size (w_pool w)"
    using inv q io by (auto simp: bufs_inv_def req_cell_def)
  have "length (io_buff io') = length (io_buff io)" using io' ok by (simp add: iobuf_ok_def)
  then have "pool_inv (lent_state (write_cell w (ptr_addr q) io') lent)"
    using pool_inv_use [of "lent_state w lent" q io io'] p ql io by (simp add: lent_state_def write_cell_def)
  then show "bufs_inv (write_cell w (ptr_addr q) io') lent buf"
    using inv io' ok by (simp add: bufs_inv_def req_cell_write)
  show "others_same w lent buf (write_cell w (ptr_addr q) io')"
    using lent_addr_inj [OF p _ ql] q by (fastforce simp: others_same_def)
qed

lemma codec_parse_reads:
  assumes "iobuf_ok io" "consumes api exec"
  shows "\<exists>io' r'. codec_parse api srt exec m base io r = Some (io', r') \<and> read_on io io'"
  using parse_loop_total [OF assms, of "codec_config api srt m" m base r] by (auto simp: codec_parse_def)

lemma read_on_same: "read_on io io' \<Longrightarrow> iobuf_ok io' \<and> io_size io' = io_size io \<and> iobuf_get_w_available io' = iobuf_get_w_available io"
  by (auto simp: read_on_def iobuf_get_w_available_def)

lemma more_room_ok:
  assumes inv: "bufs_inv (hc_world c) lent buf" and io: "hp_cells (w_heap (hc_world c)) (ptr_addr (last buf)) = Some io"
  shows "\<exists>w new. more_room c buf io = Inr (c\<lparr>hc_world := w\<rparr>, buf @ new) \<and> bufs_inv w (new @ lent) (buf @ new) \<and>
    others_same (hc_world c) lent buf w \<and> pl_size (w_pool w) = pl_size (w_pool (hc_world c)) \<and> length new \<le> 1 \<and>
    (new = [] \<longrightarrow> back_room w buf = back_room (hc_world c) buf \<and> 0 < back_room w buf) \<and>
    (new \<noteq> [] \<longrightarrow> back_room (hc_world c) buf = 0 \<and> back_room w (buf @ new) = pl_size (w_pool w)) \<and> set new \<inter> set lent = {}"
proof -
  let ?w = "hc_world c"
  obtain io2 where io2: "hp_cells (w_heap ?w) (ptr_addr (last buf)) = Some io2" "back_room ?w buf = iobuf_get_w_available io2" "0 \<le> back_room ?w buf"
    by (rule bufs_inv_last [OF inv])
  then have room: "back_room ?w buf = iobuf_get_w_available io" using io by simp
  show ?thesis
  proof (cases "iobuf_get_w_available io \<le> 0")
    case False
    have "c\<lparr>hc_world := ?w\<rparr> = c" by simp
    then show ?thesis using False inv room by (intro exI [of _ ?w] exI [of _ "[]"]) (simp add: more_room_def)
  next
    case True
    have p: "pool_inv (lent_state ?w lent)" and sub: "set buf \<subseteq> set lent" using inv by (auto simp: bufs_inv_def)
    obtain q w where q: "acquire ?w = Inr (q, w)" "pool_inv (lent_state w (q # lent))" "q \<notin> set lent" "fresh_io w q"
        "pl_size (w_pool w) = pl_size (w_pool ?w)"
        "\<forall>r \<in> set lent. hp_cells (w_heap w) (ptr_addr r) = hp_cells (w_heap ?w) (ptr_addr r)"
      by (rule acquire_fresh [OF p])
    have "req_cell w r" if "r \<in> set buf" for r
    proof -
      have "r \<in> set lent" "req_cell ?w r" using that sub inv by (auto simp: bufs_inv_def)
      then show ?thesis using q(5,6) by (simp add: req_cell_def split: option.splits)
    qed
    moreover have "req_cell w q" using q(4) by (auto simp: fresh_io_def req_cell_def split: option.splits)
    moreover have "back_room w (buf @ [q]) = pl_size (w_pool w)"
      using q(4) by (auto simp: fresh_io_def back_room_def split: option.splits)
    ultimately show ?thesis using True q inv sub room io2(3)
      by (intro exI [of _ w] exI [of _ "[q]"]) (auto simp: more_room_def bufs_inv_def others_same_def)
  qed
qed

lemma read_more_ok:
  assumes inv: "bufs_inv (hc_world c) lent buf" and room: "0 < back_room (hc_world c) buf"
    and k: "receives (en_kernel e) out left wait" and stream: "so_stream_oriented (hc_trans c)"
  shows "\<exists>w s got. read_more e c buf = Some (Inr (c\<lparr>hc_world := w, hc_trans := s\<rparr>, got)) \<and> bufs_inv w lent buf \<and>
    others_same (hc_world c) lent buf w \<and> w_pool w = w_pool (hc_world c) \<and>
    out (so_kernel s) = out (so_kernel (hc_trans c)) \<and> same_socket (hc_trans c) s \<and> left (so_kernel s) \<le> left (so_kernel (hc_trans c)) \<and>
    (\<forall>n. got = Some n \<longrightarrow> 0 < n \<and> left (so_kernel s) < left (so_kernel (hc_trans c)) \<and>
      int n \<le> back_room (hc_world c) buf \<and> back_room w buf = back_room (hc_world c) buf - int n)"
proof -
  let ?w = "hc_world c" and ?s = "hc_trans c"
  obtain io where io: "hp_cells (w_heap ?w) (ptr_addr (last buf)) = Some io" "iobuf_ok io" "io_size io = pl_size (w_pool ?w)"
      "back_room ?w buf = iobuf_get_w_available io" "back_room ?w buf \<le> pl_size (w_pool ?w)"
    by (rule bufs_inv_last [OF inv])
  have small: "iobuf_get_w_available io < 2 ^ 31" using io(2-5) by (simp add: iobuf_ok_def)
  then have n: "size_of_int (iobuf_get_w_available io) = nat (iobuf_get_w_available io)" using room io(4) by (simp add: size_of_int_nonneg)
  obtain d ec s where r: "read_some (en_kernel e) ?s (nat (iobuf_get_w_available io)) = Some ((d, ec), s)"
      "received out left (nat (iobuf_get_w_available io)) ?s d ec s"
    using read_some_total [OF k stream] by blast
  show ?thesis
  proof (cases "ec = No_error")
    case False
    have "c\<lparr>hc_world := ?w, hc_trans := s\<rparr> = c\<lparr>hc_trans := s\<rparr>" by simp
    then show ?thesis using False r io(1) n inv
      by (intro exI [of _ ?w] exI [of _ s] exI [of _ None]) (simp add: read_more_def received_def)
  next
    case True
    have d: "int (length d) \<le> iobuf_get_w_available io" "d \<noteq> []" "left (so_kernel s) < left (so_kernel ?s)"
      using r(2) True stream room io(4) by (auto simp: received_def)
    obtain b io' where b: "memcpy (io_buff io) (iobuf_get_w_buf io) d = Inr b"
        "iobuf_set_w_len (io\<lparr>io_buff := b\<rparr>) (int (length d)) = (io', True)" "appended io d io'"
      by (rule memcpy_appended [OF io(2) d(1)])
    have ci: "int_of_size (length d) = int (length d)" using d(1) small by simp
    let ?w' = "write_cell ?w (ptr_addr (last buf)) io'"
    have "last buf \<in> set buf" using inv by (simp add: bufs_inv_def)
    note wr = bufs_inv_write [OF inv this io(1), of io']
    have "read_more e c buf = Some (Inr (c\<lparr>hc_world := ?w', hc_trans := s\<rparr>, Some (length d)))"
      using io(1) r(1) n True b ci by (simp add: read_more_def)
    moreover have "back_room ?w' buf = back_room ?w buf - int (length d)"
      using appended_available [OF b(3) io(2)] io(4) by (simp add: back_room_def)
    ultimately show ?thesis using wr b(3) d r(2) io(4)
      by (intro exI [of _ ?w'] exI [of _ s] exI [of _ "Some (length d)"]) (simp add: received_def appended_def)
  qed
qed

subsection \<open>The request loop returns\<close>

text \<open>What the loop leaves: only the buffers of the request, the socket's input and the pool change.\<close>

definition conn_frame :: "('s \<Rightarrow> string) \<Rightarrow> ('s \<Rightarrow> nat) \<Rightarrow> ('t, 's) http_connection \<Rightarrow> ('t, 's) http_connection \<Rightarrow> bool" where
  "conn_frame out left c c' \<longleftrightarrow> (\<exists>w s. c' = c\<lparr>hc_world := w, hc_trans := s\<rparr> \<and> same_socket (hc_trans c) s \<and>
     out (so_kernel s) = out (so_kernel (hc_trans c)) \<and> left (so_kernel s) \<le> left (so_kernel (hc_trans c)) \<and>
     pl_size (w_pool w) = pl_size (w_pool (hc_world c)))"

lemma conn_frame_trans: "conn_frame out left a b \<Longrightarrow> conn_frame out left b c \<Longrightarrow> conn_frame out left a c"
proof -
  assume "conn_frame out left a b" "conn_frame out left b c"
  then obtain w s v t where b: "b = a\<lparr>hc_world := w, hc_trans := s\<rparr>" "same_socket (hc_trans a) s"
      "out (so_kernel s) = out (so_kernel (hc_trans a))" "left (so_kernel s) \<le> left (so_kernel (hc_trans a))"
      "pl_size (w_pool w) = pl_size (w_pool (hc_world a))"
    and c: "c = b\<lparr>hc_world := v, hc_trans := t\<rparr>" "same_socket s t" "out (so_kernel t) = out (so_kernel s)"
      "left (so_kernel t) \<le> left (so_kernel s)" "pl_size (w_pool v) = pl_size (w_pool w)"
    by (auto simp: conn_frame_def)
  then show ?thesis unfolding conn_frame_def
    by (intro exI [of _ v] exI [of _ t]) (auto intro: same_socket_trans)
qed

lemma conn_frame_world [simp]: "pl_size (w_pool w) = pl_size (w_pool (hc_world c)) \<Longrightarrow> conn_frame out left c (c\<lparr>hc_world := w\<rparr>)"
  unfolding conn_frame_def by (rule exI [of _ w], rule exI [of _ "hc_trans c"]) simp

lemma conn_frame_stream: "conn_frame out left c c' \<Longrightarrow> so_stream_oriented (hc_trans c') = so_stream_oriented (hc_trans c)"
  by (auto simp: conn_frame_def same_socket_def)

lemma conn_frame_size: "conn_frame out left c c' \<Longrightarrow> pl_size (w_pool (hc_world c')) = pl_size (w_pool (hc_world c))"
  by (auto simp: conn_frame_def)

lemma conn_frame_left: "conn_frame out left c c' \<Longrightarrow> left (so_kernel (hc_trans c')) \<le> left (so_kernel (hc_trans c))"
  by (auto simp: conn_frame_def)

text \<open>The memory a request may take: \<open>n\<close> bytes were read, and the last buffer has some room left.\<close>

definition buffers_bound :: "size_t \<Rightarrow> int \<Rightarrow> world \<Rightarrow> iobuf_ptr list \<Rightarrow> iobuf_ptr list \<Rightarrow> bool" where
  "buffers_bound limit n w buf new \<longleftrightarrow> (let S = pl_size (w_pool w) in
     0 \<le> n \<and> n \<le> int limit \<and> int limit + S < 2 ^ 31 \<longrightarrow> int (length new) * S \<le> int limit - n + 2 * S - back_room w buf)"

text \<open>Progress: the peer has less to send, or nothing was received and less, or no more, of the last
  buffer is unread.\<close>

definition unread :: "world \<Rightarrow> iobuf_ptr list \<Rightarrow> nat" where
  "unread w buf = (case hp_cells (w_heap w) (ptr_addr (last buf)) of None \<Rightarrow> 0 | Some io \<Rightarrow> nat (io_wpos io - io_rpos io))"

definition onward :: "('s \<Rightarrow> nat) \<Rightarrow> bool \<Rightarrow> iobuf_ptr list \<Rightarrow> ('t, 's) http_connection \<Rightarrow> iobuf_ptr list \<Rightarrow> ('t, 's) http_connection \<Rightarrow> bool" where
  "onward left strict buf c new c' \<longleftrightarrow> left (so_kernel (hc_trans c')) < left (so_kernel (hc_trans c)) \<or>
     (left (so_kernel (hc_trans c')) \<le> left (so_kernel (hc_trans c)) \<and> new = [] \<and>
      (if strict then unread (hc_world c') buf < unread (hc_world c) buf else unread (hc_world c') buf \<le> unread (hc_world c) buf))"

lemma onward_trans:
  assumes "onward left p buf a new b" "onward left q (buf @ new) b new2 c"
  shows "onward left (p \<or> q) buf a (new @ new2) c"
  using assms by (auto simp: onward_def split: if_splits)

lemma unread_same:
  assumes "others_same w lent own w'" "buf \<noteq> []" "set buf \<subseteq> set lent" "set own \<inter> set buf = {}"
  shows "unread w' buf = unread w buf"
proof -
  have "last buf \<in> set buf" using assms(2) by simp
  then have "last buf \<in> set lent" "last buf \<notin> set own" using assms(3,4) by blast+
  then show ?thesis using assms(1) by (simp add: others_same_def unread_def)
qed

text \<open>A test that the request passes only after the parser was called.\<close>

definition needs_input :: "('p, 't, 's) env \<Rightarrow> ('p http_request \<Rightarrow> bool) \<Rightarrow> 'p http_request \<Rightarrow> bool" where
  "needs_input e completed req \<longleftrightarrow> advances (en_api e) (en_exec e) \<and> \<not> completed req \<and>
     (\<forall>r. completed (clear_cb_error (en_api e) r) = completed r)"

lemma others_same_step:
  assumes "others_same a lent buf b" "others_same b (new @ lent) (buf @ new) c" "set new \<inter> set lent = {}"
  shows "others_same a lent buf c"
  using assms by (auto simp: others_same_def)

lemma request_loop_step:
  assumes inv: "bufs_inv (hc_world c) lent buf" and c: "consumes (en_api e) (en_exec e)"
    and k: "receives (en_kernel e) out left wait" and stream: "so_stream_oriented (hc_trans c)"
    and S: "0 < pl_size (w_pool (hc_world c))"
  shows "\<exists>c1 new req1. bufs_inv (hc_world c1) (new @ lent) (buf @ new) \<and> others_same (hc_world c) lent buf (hc_world c1) \<and>
    conn_frame out left c c1 \<and> set new \<inter> set lent = {} \<and> length new \<le> 1 \<and>
    (request_loop e completed limit c buf req n = Some (Inr (c1, buf @ new, req1, False)) \<or>
     (new = [] \<and> completed req1 \<and> req_error (en_api e) req1 = HPE_OK \<and> onward left (needs_input e completed req) buf c [] c1 \<and>
       request_loop e completed limit c buf req n = Some (Inr (c1, buf, req1, True))) \<or>
     (\<exists>j. left (so_kernel (hc_trans c1)) < left (so_kernel (hc_trans c)) \<and> size_of_int (cint (n + int j)) \<le> limit \<and>
       int j \<le> pl_size (w_pool (hc_world c)) \<and>
       back_room (hc_world c1) (buf @ new) = (if new = [] then back_room (hc_world c) buf else pl_size (w_pool (hc_world c))) - int j \<and>
       (new \<noteq> [] \<longrightarrow> back_room (hc_world c) buf = 0) \<and>
       request_loop e completed limit c buf req n = request_loop e completed limit c1 (buf @ new) req1 (cint (n + int j))))"
proof -
  let ?w = "hc_world c"
  obtain io where io: "hp_cells (w_heap ?w) (ptr_addr (last buf)) = Some io" "iobuf_ok io" "io_size io = pl_size (w_pool ?w)"
      "back_room ?w buf = iobuf_get_w_available io"
    by (rule bufs_inv_last [OF inv])
  obtain io1 req1 where p: "codec_parse (en_api e) (en_sort e) (en_exec e) (bufs_mem ?w buf)
      (ptr_addr (last buf) + sizeof_iobuf) io req = Some (io1, req1)" "read_on io io1"
    using codec_parse_reads [OF io(2) c] by blast
  note io1 = read_on_same [OF p(2)]
  let ?w1 = "write_cell ?w (ptr_addr (last buf)) io1"
  let ?c1 = "c\<lparr>hc_world := ?w1\<rparr>"
  have l: "last buf \<in> set buf" using inv by (simp add: bufs_inv_def)
  have wr: "bufs_inv ?w1 lent buf" "others_same ?w lent buf ?w1"
    using bufs_inv_write [OF inv l io(1), of io1] io1 by simp_all
  have room1: "back_room ?w1 buf = back_room ?w buf" using io(4) io1 by (simp add: back_room_def)
  have f1: "conn_frame out left c ?c1" by simp
  have unfold: "request_loop e completed limit c buf req n = (if req_error (en_api e) req1 \<noteq> HPE_OK then Some (Inr (?c1, buf, req1, False))
      else if completed req1 then Some (Inr (?c1, buf, req1, True))
      else pbind (Some (more_room ?c1 buf io1)) (\<lambda>(c2, buf2). pbind (read_more e c2 buf2) (\<lambda>(c3, got). case got of
          None \<Rightarrow> Some (Inr (c3, buf2, req1, False))
        | Some k \<Rightarrow> if size_of_int (cint (n + int k)) > limit then Some (Inr (c3, buf2, req1, False))
            else request_loop e completed limit c3 buf2 req1 (cint (n + int k)))))"
    using io(1) p(1) by (subst request_loop.simps) simp
  have on: "onward left (needs_input e completed req) buf c [] ?c1" if "req_error (en_api e) req1 = HPE_OK" "completed req1"
  proof -
    have le: "io_rpos io \<le> io_rpos io1" "io_rpos io1 \<le> io_wpos io1" "io_wpos io1 = io_wpos io" using p(2) by (auto simp: read_on_def iobuf_ok_def)
    have "io_rpos io < io_rpos io1" if "needs_input e completed req"
      using codec_parse_advances [OF io(2) c _ p(1)] that \<open>req_error (en_api e) req1 = HPE_OK\<close> \<open>completed req1\<close>
      by (auto simp: needs_input_def)
    then show ?thesis using le io(1) by (auto simp: onward_def unread_def)
  qed
  show ?thesis
  proof (cases "req_error (en_api e) req1 \<noteq> HPE_OK \<or> completed req1")
    case True
    then show ?thesis using unfold wr f1 on by (intro exI [of _ ?c1] exI [of _ "[]"] exI [of _ req1]) auto
  next
    case False
    have "hp_cells (w_heap (hc_world ?c1)) (ptr_addr (last buf)) = Some io1" by simp
    then obtain w2 new where m: "more_room ?c1 buf io1 = Inr (c\<lparr>hc_world := w2\<rparr>, buf @ new)" "bufs_inv w2 (new @ lent) (buf @ new)"
        "others_same ?w1 lent buf w2" "pl_size (w_pool w2) = pl_size (w_pool ?w)" "length new \<le> 1"
        "new = [] \<longrightarrow> back_room w2 buf = back_room ?w buf \<and> 0 < back_room w2 buf"
        "new \<noteq> [] \<longrightarrow> back_room ?w buf = 0 \<and> back_room w2 (buf @ new) = pl_size (w_pool w2)" "set new \<inter> set lent = {}"
      using more_room_ok [of ?c1 lent buf io1] wr(1) room1 by auto
    let ?c2 = "c\<lparr>hc_world := w2\<rparr>"
    have pos: "0 < back_room (hc_world ?c2) (buf @ new)" using m(4,6,7) S by (cases "new = []") auto
    obtain w3 s got where r: "read_more e ?c2 (buf @ new) = Some (Inr (?c2\<lparr>hc_world := w3, hc_trans := s\<rparr>, got))"
        "bufs_inv w3 (new @ lent) (buf @ new)" "others_same w2 (new @ lent) (buf @ new) w3" "w_pool w3 = w_pool w2"
        "out (so_kernel s) = out (so_kernel (hc_trans c))" "same_socket (hc_trans c) s" "left (so_kernel s) \<le> left (so_kernel (hc_trans c))"
        "\<forall>n. got = Some n \<longrightarrow> 0 < n \<and> left (so_kernel s) < left (so_kernel (hc_trans c)) \<and>
          int n \<le> back_room w2 (buf @ new) \<and> back_room w3 (buf @ new) = back_room w2 (buf @ new) - int n"
      using read_more_ok [of ?c2 "new @ lent" "buf @ new" e out left wait, OF _ pos k] m(2) stream by auto
    let ?c3 = "c\<lparr>hc_world := w3, hc_trans := s\<rparr>"
    have frame: "conn_frame out left c ?c3" using r(4-7) m(4) unfolding conn_frame_def by (intro exI [of _ w3] exI [of _ s]) simp
    have same: "others_same ?w lent buf w3"
      using others_same_step [OF others_same_trans [OF wr(2) m(3)] r(3) m(8)] .
    have loop: "request_loop e completed limit c buf req n = (case got of
          None \<Rightarrow> Some (Inr (?c3, buf @ new, req1, False))
        | Some k \<Rightarrow> if size_of_int (cint (n + int k)) > limit then Some (Inr (?c3, buf @ new, req1, False))
            else request_loop e completed limit ?c3 (buf @ new) req1 (cint (n + int k)))"
      using unfold False m(1) r(1) by simp
    have le: "back_room w2 (buf @ new) \<le> pl_size (w_pool ?w)"
      by (rule bufs_inv_last [OF m(2)]) (use m(4) in simp)
    have room3: "back_room w2 (buf @ new) = (if new = [] then back_room ?w buf else pl_size (w_pool ?w))" using m(4,6,7) by auto
    show ?thesis
    proof (cases "\<exists>j. got = Some j \<and> size_of_int (cint (n + int j)) \<le> limit")
      case True
      then obtain j where j: "got = Some j" "size_of_int (cint (n + int j)) \<le> limit" by blast
      have "request_loop e completed limit c buf req n = request_loop e completed limit ?c3 (buf @ new) req1 (cint (n + int j))"
        using loop j by simp
      then show ?thesis using r(2,8) same frame m(5,7,8) j le room3
        by (intro exI [of _ ?c3] exI [of _ new] exI [of _ req1]) (auto intro!: exI [of _ j])
    next
      case no: False
      then have "request_loop e completed limit c buf req n = Some (Inr (?c3, buf @ new, req1, False))"
        using loop by (auto split: option.splits)
      then show ?thesis using r(2) same frame m(5,8) by (intro exI [of _ ?c3] exI [of _ new] exI [of _ req1]) auto
    qed
  qed
qed

lemma buffers_bound_step:
  assumes b: "buffers_bound limit (cint (n + int j)) w1 (buf @ new) new1"
    and S: "pl_size (w_pool w1) = pl_size (w_pool w)" "0 < pl_size (w_pool w)" and j: "int j \<le> pl_size (w_pool w)"
    and lim: "size_of_int (cint (n + int j)) \<le> limit" and len: "length new \<le> 1"
    and room: "back_room w1 (buf @ new) = (if new = [] then back_room w buf else pl_size (w_pool w)) - int j"
      "new \<noteq> [] \<longrightarrow> back_room w buf = 0"
  shows "buffers_bound limit n w buf (new @ new1)"
proof -
  let ?S = "pl_size (w_pool w)"
  have "int (length (new @ new1)) * ?S \<le> int limit - n + 2 * ?S - back_room w buf"
    if n: "0 \<le> n" "n \<le> int limit" "int limit + ?S < 2 ^ 31"
  proof -
    have c: "cint (n + int j) = n + int j" using n j by (intro cint_id) simp_all
    have "size_of_int (n + int j) = nat (n + int j)" using n j by (intro size_of_int_nonneg) simp_all
    then have le: "n + int j \<le> int limit" using lim c n(1) by (simp add: nat_le_iff)
    have IH: "int (length new1) * ?S \<le> int limit - (n + int j) + 2 * ?S - back_room w1 (buf @ new)"
      using b le n S by (simp add: buffers_bound_def Let_def c)
    show ?thesis
    proof (cases "new = []")
      case True
      then show ?thesis using IH room(1) by simp
    next
      case False
      then have "length new = 1" using len by (cases new) auto
      then show ?thesis using IH room False by (simp add: algebra_simps)
    qed
  qed
  then show ?thesis by (simp add: buffers_bound_def Let_def)
qed

lemma buffers_bound_stop:
  assumes inv: "bufs_inv w lent buf" and len: "length new \<le> 1"
  shows "buffers_bound limit n w buf new"
proof -
  have r: "back_room w buf \<le> pl_size (w_pool w)" "0 \<le> pl_size (w_pool w)" by (rule bufs_inv_last [OF inv], simp)+
  have "int (length new) * pl_size (w_pool w) \<le> pl_size (w_pool w)"
    using len r(2) by (cases new) auto
  then show ?thesis using r by (simp add: buffers_bound_def Let_def)
qed

lemma request_loop_total:
  assumes c: "consumes (en_api e) (en_exec e)" and k: "receives (en_kernel e) out left wait"
    and "bufs_inv (hc_world c) lent buf" "so_stream_oriented (hc_trans c)" "0 < pl_size (w_pool (hc_world c))"
  shows "\<exists>c' new req' ok. request_loop e completed limit c buf req n = Some (Inr (c', buf @ new, req', ok)) \<and>
    bufs_inv (hc_world c') (rev new @ lent) (buf @ new) \<and> others_same (hc_world c) lent buf (hc_world c') \<and> conn_frame out left c c' \<and>
    set new \<inter> set lent = {} \<and> (ok \<longrightarrow> completed req' \<and> req_error (en_api e) req' = HPE_OK) \<and>
    buffers_bound limit n (hc_world c) buf new \<and> (ok \<longrightarrow> onward left (needs_input e completed req) buf c new c')"
  using assms(3-)
proof (induction "left (so_kernel (hc_trans c))" arbitrary: c lent buf req n rule: less_induct)
  case less
  obtain c1 new req1 where st: "bufs_inv (hc_world c1) (new @ lent) (buf @ new)" "others_same (hc_world c) lent buf (hc_world c1)"
      "conn_frame out left c c1" "set new \<inter> set lent = {}" "length new \<le> 1"
    and cases: "request_loop e completed limit c buf req n = Some (Inr (c1, buf @ new, req1, False)) \<or>
     (new = [] \<and> completed req1 \<and> req_error (en_api e) req1 = HPE_OK \<and> onward left (needs_input e completed req) buf c [] c1 \<and>
       request_loop e completed limit c buf req n = Some (Inr (c1, buf, req1, True))) \<or>
     (\<exists>j. left (so_kernel (hc_trans c1)) < left (so_kernel (hc_trans c)) \<and> size_of_int (cint (n + int j)) \<le> limit \<and>
       int j \<le> pl_size (w_pool (hc_world c)) \<and>
       back_room (hc_world c1) (buf @ new) = (if new = [] then back_room (hc_world c) buf else pl_size (w_pool (hc_world c))) - int j \<and>
       (new \<noteq> [] \<longrightarrow> back_room (hc_world c) buf = 0) \<and>
       request_loop e completed limit c buf req n = request_loop e completed limit c1 (buf @ new) req1 (cint (n + int j)))"
    using request_loop_step [OF less.prems(1) c k less.prems(2,3), of completed limit req n] by blast
  have rv: "rev new = new" using st(5) by (cases new) auto
  note stop = buffers_bound_stop [OF less.prems(1) st(5), of limit n]
  from cases show ?case
  proof (elim disjE exE conjE)
    assume "request_loop e completed limit c buf req n = Some (Inr (c1, buf @ new, req1, False))"
    then show ?thesis using st(1-4) stop rv by (intro exI [of _ c1] exI [of _ new] exI [of _ req1] exI [of _ False]) simp
  next
    assume "new = []" "completed req1" "req_error (en_api e) req1 = HPE_OK" "onward left (needs_input e completed req) buf c [] c1"
      "request_loop e completed limit c buf req n = Some (Inr (c1, buf, req1, True))"
    then show ?thesis using st(1-4) stop by (intro exI [of _ c1] exI [of _ "[]"] exI [of _ req1] exI [of _ True]) simp
  next
    fix j
    assume j: "left (so_kernel (hc_trans c1)) < left (so_kernel (hc_trans c))" "size_of_int (cint (n + int j)) \<le> limit"
      "int j \<le> pl_size (w_pool (hc_world c))"
      "back_room (hc_world c1) (buf @ new) = (if new = [] then back_room (hc_world c) buf else pl_size (w_pool (hc_world c))) - int j"
      "new \<noteq> [] \<longrightarrow> back_room (hc_world c) buf = 0"
      "request_loop e completed limit c buf req n = request_loop e completed limit c1 (buf @ new) req1 (cint (n + int j))"
    have size: "pl_size (w_pool (hc_world c1)) = pl_size (w_pool (hc_world c))" by (rule conn_frame_size [OF st(3)])
    have "so_stream_oriented (hc_trans c1)" "0 < pl_size (w_pool (hc_world c1))"
      using less.prems(2,3) conn_frame_stream [OF st(3)] size by simp_all
    from less.hyps [OF j(1) st(1) this, of req1 "cint (n + int j)"]
    obtain c' new1 req' ok where IH: "request_loop e completed limit c1 (buf @ new) req1 (cint (n + int j)) = Some (Inr (c', (buf @ new) @ new1, req', ok))"
        "bufs_inv (hc_world c') (rev new1 @ new @ lent) ((buf @ new) @ new1)" "others_same (hc_world c1) (new @ lent) (buf @ new) (hc_world c')"
        "conn_frame out left c1 c'" "set new1 \<inter> set (new @ lent) = {}" "ok \<longrightarrow> completed req' \<and> req_error (en_api e) req' = HPE_OK"
        "buffers_bound limit (cint (n + int j)) (hc_world c1) (buf @ new) new1"
      by blast
    have "buffers_bound limit n (hc_world c) buf (new @ new1)"
      by (rule buffers_bound_step [OF IH(7) size less.prems(3) j(3,2) st(5) j(4,5)])
    moreover have "rev (new @ new1) @ lent = rev new1 @ new @ lent" using rv by simp
    moreover have "onward left (needs_input e completed req) buf c (new @ new1) c'"
      using j(1) conn_frame_left [OF IH(4)] by (simp add: onward_def)
    ultimately show ?thesis
      using j(6) IH others_same_step [OF st(2) IH(3) st(4)] conn_frame_trans [OF st(3) IH(4)] st(4)
      by (intro exI [of _ c'] exI [of _ "new @ new1"] exI [of _ req'] exI [of _ ok]) auto
  qed
qed

subsection \<open>What the steps of a connection leave alone\<close>

lemma timer_fields [simp]:
  "hc_world (pause_timer e c) = hc_world c" "hc_trans (pause_timer e c) = hc_trans c" "hc_connid (pause_timer e c) = hc_connid c"
  "hc_calls (pause_timer e c) = hc_calls c" "hc_world (start_timer e c) = hc_world c" "hc_trans (start_timer e c) = hc_trans c"
  "hc_connid (start_timer e c) = hc_connid c" "hc_calls (start_timer e c) = hc_calls c"
  by (auto simp: pause_timer_def start_timer_def Let_def split: option.splits prod.splits)

lemma conn_frame_socket:
  assumes "conn_frame out left c c'"
  shows "out (so_kernel (hc_trans c')) = out (so_kernel (hc_trans c))" "left (so_kernel (hc_trans c')) \<le> left (so_kernel (hc_trans c))"
    "same_socket (hc_trans c) (hc_trans c')"
  using assms by (auto simp: conn_frame_def)

lemma bufs_inv_frame:
  assumes inv: "bufs_inv w lent buf" and same: "others_same w lent own w'" "set own \<inter> set buf = {}"
    and p: "pool_inv (lent_state w' lent')" "set buf \<subseteq> set lent'" "pl_size (w_pool w') = pl_size (w_pool w)"
  shows "bufs_inv w' lent' buf"
proof -
  have "req_cell w' q" if "q \<in> set buf" for q
  proof -
    have "q \<in> set lent" "q \<notin> set own" "req_cell w q" using that inv same(2) by (auto simp: bufs_inv_def)
    then show ?thesis using same(1) p(3) by (simp add: req_cell_def others_same_def split: option.splits)
  qed
  then show ?thesis using inv p by (simp add: bufs_inv_def)
qed

lemma resp_inv_frame:
  assumes inv: "resp_inv w lent r" and same: "others_same w lent own w'" "set own \<inter> set (resp_buffers r) = {}"
    and p: "pool_inv (lent_state w' lent')" "set (resp_buffers r) \<subseteq> set lent'" "pl_size (w_pool w') = pl_size (w_pool w)"
  shows "resp_inv w' lent' r" "header_text w' r = header_text w r" "body_text w' r = body_text w r"
    "back_room w' (rs_header r) = back_room w (rs_header r)" "back_room w' (rs_body r) = back_room w (rs_body r)"
    "texts w' (resp_buffers r) = texts w (resp_buffers r)"
proof -
  have cell: "hp_cells (w_heap w') (ptr_addr q) = hp_cells (w_heap w) (ptr_addr q)" if "q \<in> set (resp_buffers r)" for q
  proof -
    have "q \<in> set lent" "q \<notin> set own" using that inv same(2) by (auto simp: resp_inv_def)
    then show ?thesis using same(1) by (simp add: others_same_def)
  qed
  then have "cell_ok w' q" if "q \<in> set (resp_buffers r)" for q
    using that inv p(3) by (auto simp: resp_inv_def cell_ok_def split: option.splits)
  then show "resp_inv w' lent' r" using inv p by (simp add: resp_inv_def)
  have sub: "set (rs_header r) \<subseteq> set (resp_buffers r)" "set (rs_body r) \<subseteq> set (resp_buffers r)" by (simp_all add: resp_buffers_def)
  have ne: "rs_header r \<noteq> []" "rs_body r \<noteq> []" using inv by (auto simp: resp_inv_def)
  show "header_text w' r = header_text w r" "body_text w' r = body_text w r" "texts w' (resp_buffers r) = texts w (resp_buffers r)"
    using cell sub by (auto simp: header_text_def body_text_def intro!: texts_cong)
  show "back_room w' (rs_header r) = back_room w (rs_header r)" "back_room w' (rs_body r) = back_room w (rs_body r)"
    using cell ne sub last_in_set by (simp_all add: back_room_def subset_iff)
qed

lemma drop_ptrs_frame:
  "drop_ptrs w qs keep = Inr w' \<Longrightarrow> pl_size (w_pool w') = pl_size (w_pool w) \<and>
    (\<forall>a. a \<notin> ptr_addr ` set qs \<longrightarrow> hp_cells (w_heap w') a = hp_cells (w_heap w) a)"
proof (induction w qs keep rule: drop_ptrs.induct)
  case (2 w q qs keep)
  show ?case
  proof (cases "q \<in> set qs \<or> q \<in> set keep")
    case True
    then show ?thesis using 2 by auto
  next
    case False
    obtain h p where d: "iobuf_delete (w_heap w) (w_pool w) q = Inr (h, p)" "drop_ptrs \<lparr>w_heap = h, w_pool = p\<rparr> qs keep = Inr w'"
      using 2(3) False by (auto simp: rbind_eq_Inr)
    then have "pl_size p = pl_size (w_pool w)" "\<forall>a. a \<noteq> ptr_addr q \<longrightarrow> hp_cells h a = hp_cells (w_heap w) a"
      by (auto simp: iobuf_delete_def rbind_eq_Inr iobufs_release_def Let_def split: deleter.splits if_splits)
    then show ?thesis using 2(2) [OF False] d(2) by auto
  qed
qed simp

lemma drop_ptrs_others:
  assumes "pool_inv (lent_state w lent)" "drop_ptrs w qs keep = Inr w'" "set qs \<subseteq> set lent"
  shows "others_same w lent qs w'"
  unfolding others_same_def
proof (intro ballI impI)
  fix q assume q: "q \<in> set lent" "q \<notin> set qs"
  then have "ptr_addr q \<notin> ptr_addr ` set qs" using lent_addr_inj [OF assms(1)] assms(3) by blast
  then show "hp_cells (w_heap w') (ptr_addr q) = hp_cells (w_heap w) (ptr_addr q)" using drop_ptrs_frame [OF assms(2)] by blast
qed

text \<open>The response is destroyed: its buffers go back, the others stay.\<close>

lemma leave_request_ok:
  assumes inv: "bufs_inv (hc_world c) lent buf" "distinct qs" "set qs \<subseteq> set lent" "set qs \<inter> set buf = {}"
    and qs: "qs = resp_buffers rsp"
  shows "\<exists>w. leave_request c buf rsp keep = Inr (c\<lparr>hc_world := w\<rparr>, buf, keep) \<and>
    bufs_inv w (filter (\<lambda>q. q \<notin> set qs) lent) buf \<and> others_same (hc_world c) lent qs w \<and>
    pl_size (w_pool w) = pl_size (w_pool (hc_world c))"
proof -
  have p: "pool_inv (lent_state (hc_world c) lent)" using inv(1) by (simp add: bufs_inv_def)
  obtain w where w: "drop_ptrs (hc_world c) qs buf = Inr w" "pool_inv (lent_state w (filter (\<lambda>q. q \<notin> set qs) lent))"
    using drop_ptrs_ok [OF p inv(2,3,4)] by blast
  have o: "others_same (hc_world c) lent qs w" by (rule drop_ptrs_others [OF p w(1) inv(3)])
  have sz: "pl_size (w_pool w) = pl_size (w_pool (hc_world c))" using drop_ptrs_frame [OF w(1)] by blast
  have "set buf \<subseteq> set (filter (\<lambda>q. q \<notin> set qs) lent)" using inv(1,4) by (auto simp: bufs_inv_def)
  then have "bufs_inv w (filter (\<lambda>q. q \<notin> set qs) lent) buf" by (rule bufs_inv_frame [OF inv(1) o inv(4) w(2) _ sz])
  then show ?thesis using w(1) o sz by (auto simp: leave_request_def qs)
qed

subsection \<open>Handlers that answer\<close>

text \<open>What a connection needs of a handler to send an answer: it wants the header of a request and not
  the body, and writes its reply to a fresh response without touching any other buffer.\<close>

locale answering_handler =
  fixes h :: "'p module_handler" and t :: tm and reply :: "bool \<Rightarrow> string" and room :: int
  assumes header_event: "handles h HE_REQUEST_HDR"
    and no_body_event: "\<not> handles h HE_REQUEST_BODY"
    and short: "length (reply b) < size_max"
    and answers: "resp_inv w lent r \<Longrightarrow> header_text w r = [] \<Longrightarrow> body_text w r = [] \<Longrightarrow>
      back_room w (rs_header r) = room \<Longrightarrow> back_room w (rs_body r) = room \<Longrightarrow>
      \<exists>w' r'. mh_on_request_header h cid tid t api req w r = Inr (w', r') \<and> resp_inv w' lent r' \<and>
        texts w' (resp_buffers r') = reply (req_keep_alive api req) \<and> resp_is_keep_alive r' = req_keep_alive api req \<and>
        resp_buffers r' = resp_buffers r \<and> others_same w lent (resp_buffers r) w' \<and> w_pool w' = w_pool w"
begin

lemma header_call:
  assumes t: "en_gmtime e = t" and r: "resp_inv (hc_world c) lent r" "header_text (hc_world c) r = []" "body_text (hc_world c) r = []"
    "back_room (hc_world c) (rs_header r) = room" "back_room (hc_world c) (rs_body r) = room"
  shows "\<exists>w' r'. call_handler e (Some h) HE_REQUEST_HDR mh_on_request_header On_request_header txn req c r =
      Inr (c\<lparr>hc_world := w', hc_calls := hc_calls c @ [On_request_header (mh_name h) (hc_connid c) txn]\<rparr>, r') \<and>
    resp_inv w' lent r' \<and> texts w' (resp_buffers r') = reply (req_keep_alive (en_api e) req) \<and>
    resp_is_keep_alive r' = req_keep_alive (en_api e) req \<and> resp_buffers r' = resp_buffers r \<and>
    others_same (hc_world c) lent (resp_buffers r) w' \<and> w_pool w' = w_pool (hc_world c)"
  using answers [OF r, where cid = "hc_connid c" and tid = txn and api = "en_api e" and req = req] header_event t by (auto simp: call_handler_def)

lemma body_call:
  "call_handler e (Some h) HE_REQUEST_BODY mh_on_request_body On_request_body txn req c r = Inr (c, r)"
  using no_body_event by (simp add: call_handler_def)

end

lemma page_answers:
  assumes d: "date_text t = Inr d" and code: "code \<noteq> - 1" "status_text code msg = line @ crlf @ ''Server: cohttp/0.9.0'' @ crlf"
    and room: "int (length (page_head line d True page)) + 2 < S" "int (length page) + 2 < S" "S < 2 ^ 31"
    and h: "mh_handle_events h = HE_REQUEST_HDR" "mh_on_request_header h = page_response code msg page"
  shows "answering_handler h t (\<lambda>alive. page_head line d alive page @ crlf @ page @ crlf) S"
proof
  show "handles h HE_REQUEST_HDR" "\<not> handles h HE_REQUEST_BODY" by (simp_all add: handles_def h he_defs)
  show "length (page_head line d b page @ crlf @ page @ crlf) < size_max" for b
  proof -
    have "length (page_head line d b page) \<le> length (page_head line d True page)" by (simp add: page_head_def keep_alive_text_def)
    then show ?thesis using room by (simp add: crlf_def size_max_def)
  qed
  show "\<exists>w' r'. mh_on_request_header h cid tid t api req w r = Inr (w', r') \<and> resp_inv w' lent r' \<and>
        texts w' (resp_buffers r') = page_head line d (req_keep_alive api req) page @ crlf @ page @ crlf \<and>
        resp_is_keep_alive r' = req_keep_alive api req \<and>
        resp_buffers r' = resp_buffers r \<and> others_same w lent (resp_buffers r) w' \<and> w_pool w' = w_pool w"
    if "resp_inv w lent r" "header_text w r = []" "body_text w r = []" "back_room w (rs_header r) = S" "back_room w (rs_body r) = S"
    for w lent r cid tid api req
    using page_response_start [OF that d code room(1,2), of cid tid api req] unfolding h(2) by blast
qed

definition default_reply :: "string \<Rightarrow> bool \<Rightarrow> string" where
  "default_reply d alive = page_head ''HTTP/1.1 404 Not Found'' d alive default_page @ crlf @ default_page @ crlf"

definition hello_reply :: "string \<Rightarrow> bool \<Rightarrow> string" where
  "hello_reply d alive = page_head ''HTTP/1.1 200 OK'' d alive hello_page @ crlf @ hello_page @ crlf"

lemma default_answers:
  assumes "date_text t = Inr d" "int (length d) + 200 < S" "S < 2 ^ 31"
  shows "answering_handler default_module t (default_reply d) S"
  unfolding default_reply_def [abs_def]
  by (rule page_answers [OF assms(1) _ default_page_facts(1)])
    (use assms(2,3) default_page_facts(2,3) in \<open>auto simp: default_module_def default_on_request_header_def\<close>)

lemma hello_answers:
  assumes "date_text t = Inr d" "int (length d) + 200 < S" "S < 2 ^ 31"
  shows "answering_handler hello_module t (hello_reply d) S"
  unfolding hello_reply_def [abs_def]
  by (rule page_answers [OF assms(1) _ hello_page_facts(1)])
    (use assms(2,3) hello_page_facts(2,3) in \<open>auto simp: hello_module_def hello_on_request_header_def\<close>)

text \<open>Both modules with the default buffer size.\<close>

interpretation default_404: answering_handler default_module test_tm "default_reply (''Date: Fri, 30 Sep 2016 09:05:00 GMT'' @ crlf)" 8192
  by (rule default_answers [OF test_date]) (simp_all add: crlf_def)

interpretation hello_200: answering_handler hello_module test_tm "hello_reply (''Date: Fri, 30 Sep 2016 09:05:00 GMT'' @ crlf)" 8192
  by (rule hello_answers [OF test_date]) (simp_all add: crlf_def)

subsection \<open>One request\<close>

lemma send_response_ok:
  assumes inv: "resp_inv (hc_world c) lent rsp" and short: "length (texts (hc_world c) (resp_buffers rsp)) < size_max"
    and k: "sends (en_kernel e) out wait"
  shows "\<exists>n ec s. send_response e c rsp = Some (Inr (c\<lparr>hc_trans := s\<rparr>, n, ec)) \<and> same_socket (hc_trans c) s \<and>
    out (so_kernel s) = out (so_kernel (hc_trans c)) @ take n (texts (hc_world c) (resp_buffers rsp)) \<and>
    (ec = No_error \<longrightarrow> n = length (texts (hc_world c) (resp_buffers rsp)))"
proof -
  obtain obs where obs: "out_buffers (hc_world c) (resp_buffers rsp) = Inr obs"
      "cbs_bytes (bufs_mem (hc_world c) (resp_buffers rsp)) obs = texts (hc_world c) (resp_buffers rsp)"
    using out_buffers_text [OF inv subset_refl] by blast
  obtain n ec s where "asio_write (en_kernel e) transfer_all (bufs_mem (hc_world c) (resp_buffers rsp)) (hc_trans c) obs = Some ((n, ec), s)"
      "out (so_kernel s) = out (so_kernel (hc_trans c)) @ take n (texts (hc_world c) (resp_buffers rsp))"
      "ec = No_error \<longrightarrow> n = length (texts (hc_world c) (resp_buffers rsp))" "same_socket (hc_trans c) s"
    using asio_write_total [OF k, of "bufs_mem (hc_world c) (resp_buffers rsp)" obs "hc_trans c"] short obs(2) by auto
  then show ?thesis using obs(1) by (auto simp: send_response_def)
qed

lemma send_response_quiet:
  assumes "send_response e c rsp = Some (Inr (c', n, ec))" "quiet (en_kernel e) left"
  shows "left (so_kernel (hc_trans c')) \<le> left (so_kernel (hc_trans c))"
  using assms asio_write_quiet [OF _ assms(2)] by (fastforce simp: send_response_def pbind_eq_Inr)

lemma stream_same: "same_socket s s' \<Longrightarrow> so_stream_oriented s' = so_stream_oriented s"
  by (auto simp: same_socket_def)

text \<open>The end of a request: the response is sent and destroyed.\<close>

lemma answer_request_ok:
  assumes inv: "resp_inv (hc_world c) lent rsp" "bufs_inv (hc_world c) lent buf" "set (resp_buffers rsp) \<inter> set buf = {}"
    and short: "length (texts (hc_world c) (resp_buffers rsp)) < size_max" and k: "sends (en_kernel e) out wait"
  shows "\<exists>c' n keep. answer_request e c buf rsp = Some (Inr (c', buf, keep)) \<and>
    bufs_inv (hc_world c') (filter (\<lambda>q. q \<notin> set (resp_buffers rsp)) lent) buf \<and>
    others_same (hc_world c) lent (resp_buffers rsp) (hc_world c') \<and> pl_size (w_pool (hc_world c')) = pl_size (w_pool (hc_world c)) \<and>
    same_socket (hc_trans c) (hc_trans c') \<and>
    out (so_kernel (hc_trans c')) = out (so_kernel (hc_trans c)) @ take n (texts (hc_world c) (resp_buffers rsp)) \<and>
    (keep \<longrightarrow> n = length (texts (hc_world c) (resp_buffers rsp)) \<and> resp_is_keep_alive rsp) \<and>
    (quiet (en_kernel e) left \<longrightarrow> onward left False buf c [] c')"
proof -
  let ?c = "start_timer e c"
  obtain n ec s where sr: "send_response e ?c rsp = Some (Inr (?c\<lparr>hc_trans := s\<rparr>, n, ec))" "same_socket (hc_trans c) s"
      "out (so_kernel s) = out (so_kernel (hc_trans c)) @ take n (texts (hc_world c) (resp_buffers rsp))"
      "ec = No_error \<longrightarrow> n = length (texts (hc_world c) (resp_buffers rsp))"
    using send_response_ok [of ?c lent rsp e out wait] inv(1) short k by auto
  let ?c1 = "pause_timer e (?c\<lparr>hc_trans := s\<rparr>)"
  have d: "distinct (resp_buffers rsp)" "set (resp_buffers rsp) \<subseteq> set lent" using inv(1) by (auto simp: resp_inv_def)
  obtain w where "leave_request ?c1 buf rsp (ec = No_error \<and> resp_is_keep_alive rsp) =
        Inr (?c1\<lparr>hc_world := w\<rparr>, buf, ec = No_error \<and> resp_is_keep_alive rsp)"
      "bufs_inv w (filter (\<lambda>q. q \<notin> set (resp_buffers rsp)) lent) buf" "others_same (hc_world c) lent (resp_buffers rsp) w"
      "pl_size (w_pool w) = pl_size (w_pool (hc_world c))"
    using leave_request_ok [of ?c1 lent buf "resp_buffers rsp" rsp "ec = No_error \<and> resp_is_keep_alive rsp"] inv(2,3) d by auto
  moreover have "buf \<noteq> []" "set buf \<subseteq> set lent" using inv(2) by (auto simp: bufs_inv_def)
  ultimately show ?thesis using sr send_response_quiet [OF sr(1), of left] inv(3) unread_same [of "hc_world c" lent "resp_buffers rsp" w buf]
    by (intro exI [of _ "?c1\<lparr>hc_world := w\<rparr>"] exI [of _ n] exI [of _ "ec = No_error \<and> resp_is_keep_alive rsp"])
      (simp add: answer_request_def onward_def)
qed

lemma process_body_ok:
  assumes h: "answering_handler h t reply S" and c: "consumes (en_api e) (en_exec e)"
    and k: "receives (en_kernel e) out left wait" "sends (en_kernel e) out wait"
    and inv: "resp_inv (hc_world c) lent rsp" "bufs_inv (hc_world c) lent buf" "set (resp_buffers rsp) \<inter> set buf = {}"
    and so: "so_stream_oriented (hc_trans c)" "0 < pl_size (w_pool (hc_world c))"
    and tx: "texts (hc_world c) (resp_buffers rsp) = reply alive" "resp_is_keep_alive rsp = alive"
  shows "\<exists>c' new n keep. process_body e (Some h) txn c buf req rsp = Some (Inr (c', buf @ new, keep)) \<and>
    bufs_inv (hc_world c') (filter (\<lambda>q. q \<notin> set (resp_buffers rsp)) (rev new @ lent)) (buf @ new) \<and> set new \<inter> set lent = {} \<and>
    others_same (hc_world c) lent (buf @ resp_buffers rsp) (hc_world c') \<and> pl_size (w_pool (hc_world c')) = pl_size (w_pool (hc_world c)) \<and>
    same_socket (hc_trans c) (hc_trans c') \<and>
    out (so_kernel (hc_trans c')) = out (so_kernel (hc_trans c)) @ take n (reply alive) \<and>
    (keep \<longrightarrow> n = length (reply alive) \<and> alive) \<and> buffers_bound (cm_max_body_size (op_memory (en_option e))) 0 (hc_world c) buf new \<and>
    (keep \<and> quiet (en_kernel e) left \<longrightarrow> onward left False buf c new c')"
proof -
  let ?c = "start_timer e c" and ?R = "resp_buffers rsp"
  note short = answering_handler.short [OF h] and body_call = answering_handler.body_call [OF h]
  obtain c1 new req1 ok where l: "body_loop e ?c buf req = Some (Inr (c1, buf @ new, req1, ok))"
      "bufs_inv (hc_world c1) (rev new @ lent) (buf @ new)" "others_same (hc_world c) lent buf (hc_world c1)"
      "conn_frame out left ?c c1" "set new \<inter> set lent = {}"
      "buffers_bound (cm_max_body_size (op_memory (en_option e))) 0 (hc_world c) buf new"
      "ok \<longrightarrow> onward left (needs_input e message_completed req) buf ?c new c1"
    using request_loop_total [OF c k(1), of ?c lent buf message_completed "cm_max_body_size (op_memory (en_option e))" req 0] inv(2) so
    unfolding body_loop_def by auto
  have size: "pl_size (w_pool (hc_world c1)) = pl_size (w_pool (hc_world c))" using conn_frame_size [OF l(4)] by simp
  have sub: "set ?R \<subseteq> set (rev new @ lent)" "set ?R \<inter> set (buf @ new) = {}" and d: "distinct ?R"
    using inv(1,3) l(5) by (auto simp: resp_inv_def)
  have p1: "pool_inv (lent_state (hc_world c1) (rev new @ lent))" using l(2) by (simp add: bufs_inv_def)
  have r1: "resp_inv (hc_world c1) (rev new @ lent) rsp" "texts (hc_world c1) ?R = reply alive"
    using resp_inv_frame [OF inv(1) l(3) _ p1 sub(1) size] inv(3) tx(1) by (auto simp: Int_commute)
  have sock: "same_socket (hc_trans c) (hc_trans c1)" "out (so_kernel (hc_trans c1)) = out (so_kernel (hc_trans c))"
    using conn_frame_socket [OF l(4)] by simp_all
  show ?thesis
  proof (cases ok)
    case False
    obtain w where w: "leave_request c1 (buf @ new) rsp False = Inr (c1\<lparr>hc_world := w\<rparr>, buf @ new, False)"
        "bufs_inv w (filter (\<lambda>q. q \<notin> set ?R) (rev new @ lent)) (buf @ new)" "others_same (hc_world c1) (rev new @ lent) ?R w"
        "pl_size (w_pool w) = pl_size (w_pool (hc_world c1))"
      using leave_request_ok [OF l(2) d sub refl] by blast
    have "others_same (hc_world c) lent (buf @ ?R) w" using l(3) w(3) by (auto simp: others_same_def)
    then show ?thesis using w l sock size False
      by (intro exI [of _ "c1\<lparr>hc_world := w\<rparr>"] exI [of _ new] exI [of _ 0] exI [of _ False]) (simp add: process_body_def)
  next
    case True
    let ?c2 = "pause_timer e c1"
    obtain c' n keep where a: "answer_request e ?c2 (buf @ new) rsp = Some (Inr (c', buf @ new, keep))"
        "bufs_inv (hc_world c') (filter (\<lambda>q. q \<notin> set ?R) (rev new @ lent)) (buf @ new)"
        "others_same (hc_world c1) (rev new @ lent) ?R (hc_world c')" "pl_size (w_pool (hc_world c')) = pl_size (w_pool (hc_world c1))"
        "same_socket (hc_trans c1) (hc_trans c')" "out (so_kernel (hc_trans c')) = out (so_kernel (hc_trans c1)) @ take n (reply alive)"
        "keep \<longrightarrow> n = length (reply alive) \<and> alive" "quiet (en_kernel e) left \<longrightarrow> onward left False (buf @ new) ?c2 [] c'"
      using answer_request_ok [of ?c2 "rev new @ lent" rsp "buf @ new" e out wait left] r1 l(2) sub(2) short k(2) tx(2) by auto
    have on: "onward left False buf c new c'" if "quiet (en_kernel e) left"
    proof -
      have "onward left (needs_input e message_completed req \<or> False) buf ?c (new @ []) c'"
        using l(7) True a(8) that by (intro onward_trans [of left _ buf ?c new c1]) (auto simp: onward_def)
      then show ?thesis by (auto simp: onward_def split: if_splits)
    qed
    have "others_same (hc_world c) lent (buf @ ?R) (hc_world c')" using l(3) a(3) by (auto simp: others_same_def)
    then show ?thesis using a l(1-6) sock size True on same_socket_trans [OF sock(1) a(5)]
      by (intro exI [of _ c'] exI [of _ new] exI [of _ n] exI [of _ keep]) (simp add: process_body_def body_call)
  qed
qed

text \<open>What a request may add to what the peer has been sent: nothing, or a prefix of the reply of the
  handler that the path of a completed header selects; all of it when the connection is kept.\<close>

definition answered :: "('p, 't, 's) env \<Rightarrow> ('p module_handler \<Rightarrow> bool \<Rightarrow> string) \<Rightarrow> string \<Rightarrow> string \<Rightarrow> bool \<Rightarrow> bool" where
  "answered e reply before after keep \<longleftrightarrow> (after = before \<and> \<not> keep) \<or>
     (\<exists>req h n. headers_completed req \<and> match_handler (en_handlers e) (path_data req) = Some h \<and>
       after = before @ take n (reply h (req_keep_alive (en_api e) req)) \<and>
       (keep \<longrightarrow> n = length (reply h (req_keep_alive (en_api e) req)) \<and> req_keep_alive (en_api e) req))"

text \<open>The number of buffers one phase of a request may add, for a limit and a buffer size that fit an
  \<open>int\<close> together.\<close>

definition loop_bound :: "size_t \<Rightarrow> int \<Rightarrow> nat \<Rightarrow> bool" where
  "loop_bound limit S n \<longleftrightarrow> (int limit + S < 2 ^ 31 \<longrightarrow> int n * S \<le> int limit + 2 * S)"

lemma loop_bound_start:
  assumes "buffers_bound limit 0 w buf new" "bufs_inv w lent buf" "pl_size (w_pool w) = S"
  shows "loop_bound limit S (length new)"
proof -
  have "0 \<le> back_room w buf" by (rule bufs_inv_last [OF assms(2)])
  then show ?thesis using assms(1,3) by (auto simp: loop_bound_def buffers_bound_def Let_def)
qed

abbreviation header_limit :: "('p, 't, 's) env \<Rightarrow> size_t" where
  "header_limit e \<equiv> cm_max_header_size (op_memory (en_option e))"

abbreviation body_limit :: "('p, 't, 's) env \<Rightarrow> size_t" where
  "body_limit e \<equiv> cm_max_body_size (op_memory (en_option e))"

text \<open>After the header: the handler is called, the body is received, the answer is sent.\<close>

lemma process_handler_ok:
  assumes h: "answering_handler h (en_gmtime e) reply S" and c: "consumes (en_api e) (en_exec e)"
    and k: "receives (en_kernel e) out left wait" "sends (en_kernel e) out wait"
    and r: "resp_inv (hc_world c) lent rsp" "header_text (hc_world c) rsp = []" "body_text (hc_world c) rsp = []"
      "back_room (hc_world c) (rs_header rsp) = S" "back_room (hc_world c) (rs_body rsp) = S"
    and b: "bufs_inv (hc_world c) lent buf" "set (resp_buffers rsp) \<inter> set buf = {}"
    and so: "so_stream_oriented (hc_trans c)" "pl_size (w_pool (hc_world c)) = S" "0 < S"
    and alive: "alive = req_keep_alive (en_api e) req"
  shows "\<exists>c' new n keep. pbind (Some (call_handler e (Some h) HE_REQUEST_HDR mh_on_request_header On_request_header txn req c rsp))
      (\<lambda>(c2, rsp2). process_body e (Some h) txn c2 buf req rsp2) = Some (Inr (c', buf @ new, keep)) \<and>
    bufs_inv (hc_world c') (filter (\<lambda>q. q \<notin> set (resp_buffers rsp)) (rev new @ lent)) (buf @ new) \<and> set new \<inter> set lent = {} \<and>
    others_same (hc_world c) lent (buf @ resp_buffers rsp) (hc_world c') \<and> pl_size (w_pool (hc_world c')) = S \<and>
    same_socket (hc_trans c) (hc_trans c') \<and> out (so_kernel (hc_trans c')) = out (so_kernel (hc_trans c)) @ take n (reply alive) \<and>
    (keep \<longrightarrow> n = length (reply alive) \<and> alive) \<and> loop_bound (body_limit e) S (length new) \<and>
    (keep \<and> quiet (en_kernel e) left \<longrightarrow> onward left False buf c new c')"
proof -
  let ?R = "resp_buffers rsp"
  obtain w2 rsp2 where hc: "call_handler e (Some h) HE_REQUEST_HDR mh_on_request_header On_request_header txn req c rsp =
        Inr (c\<lparr>hc_world := w2, hc_calls := hc_calls c @ [On_request_header (mh_name h) (hc_connid c) txn]\<rparr>, rsp2)"
      "resp_inv w2 lent rsp2" "texts w2 (resp_buffers rsp2) = reply alive" "resp_is_keep_alive rsp2 = alive"
      "resp_buffers rsp2 = ?R" "others_same (hc_world c) lent ?R w2" "w_pool w2 = w_pool (hc_world c)"
    using answering_handler.header_call [OF h refl r, of txn req] alive by auto
  let ?c2 = "c\<lparr>hc_world := w2, hc_calls := hc_calls c @ [On_request_header (mh_name h) (hc_connid c) txn]\<rparr>"
  have b2: "bufs_inv w2 lent buf"
    by (rule bufs_inv_frame [OF b(1) hc(6) b(2)]) (use hc(2,7) b(1) in \<open>auto simp: resp_inv_def bufs_inv_def\<close>)
  have sz: "pl_size (w_pool w2) = S" using hc(7) so(2) by simp
  obtain c' new n keep where t: "process_body e (Some h) txn ?c2 buf req rsp2 = Some (Inr (c', buf @ new, keep))"
      "bufs_inv (hc_world c') (filter (\<lambda>q. q \<notin> set ?R) (rev new @ lent)) (buf @ new)"
      "set new \<inter> set lent = {}" "others_same w2 lent (buf @ ?R) (hc_world c')"
      "pl_size (w_pool (hc_world c')) = S" "same_socket (hc_trans c) (hc_trans c')"
      "out (so_kernel (hc_trans c')) = out (so_kernel (hc_trans c)) @ take n (reply alive)"
      "keep \<longrightarrow> n = length (reply alive) \<and> alive" "buffers_bound (body_limit e) 0 w2 buf new"
      "keep \<and> quiet (en_kernel e) left \<longrightarrow> onward left False buf ?c2 new c'"
    using process_body_ok [OF h c k, of ?c2 lent rsp2 buf alive txn req] hc(2-5) b(2) b2 so sz by auto
  have "others_same (hc_world c) lent (buf @ ?R) (hc_world c')"
    using others_same_trans [OF others_same_mono [OF hc(6) subset_refl] t(4)] by simp
  moreover have "unread w2 buf = unread (hc_world c) buf"
    using b by (intro unread_same [OF hc(6)]) (auto simp: bufs_inv_def)
  then have "onward left False buf c new c' = onward left False buf ?c2 new c'" by (simp add: onward_def)
  ultimately show ?thesis using hc(1) t loop_bound_start [OF t(9) b2 sz]
    by (intro exI [of _ c'] exI [of _ new] exI [of _ n] exI [of _ keep]) simp
qed

lemma filter_out: "set xs \<inter> A = {} \<Longrightarrow> filter (\<lambda>q. q \<notin> A) xs = xs"
  by (auto simp: filter_id_conv)

text \<open>The buffers of a fresh response are apart from those that were lent before.\<close>

lemma fresh_resp_buffers:
  assumes "resp_inv w lent1 rsp" "lent1 = rs_body rsp @ rs_header rsp @ lent"
  shows "set (resp_buffers rsp) \<inter> set lent = {}"
    and "set xs \<inter> set lent1 = {} \<Longrightarrow> filter (\<lambda>q. q \<notin> set (resp_buffers rsp)) (xs @ lent1) = xs @ lent"
proof -
  let ?R = "resp_buffers rsp"
  have "pool_inv (lent_state w lent1)" using assms(1) by (simp add: resp_inv_def)
  then show dis: "set ?R \<inter> set lent = {}" using lent_distinct assms(2) by (fastforce simp: lent_state_def resp_buffers_def)
  assume "set xs \<inter> set lent1 = {}"
  then have "filter (\<lambda>q. q \<notin> set ?R) xs = xs" "filter (\<lambda>q. q \<notin> set ?R) lent = lent"
    using dis assms(2) by (intro filter_out; auto simp: resp_buffers_def)+
  then show "filter (\<lambda>q. q \<notin> set ?R) (xs @ lent1) = xs @ lent" by (simp add: assms(2) resp_buffers_def)
qed

lemma process_request_total:
  assumes c: "consumes (en_api e) (en_exec e)" and k: "receives (en_kernel e) out left wait" "sends (en_kernel e) out wait"
    and inv: "bufs_inv (hc_world c) lent buf" and so: "so_stream_oriented (hc_trans c)"
    and S: "pl_size (w_pool (hc_world c)) = S" "0 < S"
    and h: "\<And>key. \<exists>h. match_handler (en_handlers e) key = Some h \<and> answering_handler h (en_gmtime e) (reply h) S"
  shows "\<exists>c' new1 new2 keep. process_request e c buf txn = Some (Inr (c', buf @ new1 @ new2, keep)) \<and>
    bufs_inv (hc_world c') (rev (new1 @ new2) @ lent) (buf @ new1 @ new2) \<and> set (new1 @ new2) \<inter> set lent = {} \<and>
    others_same (hc_world c) lent buf (hc_world c') \<and> pl_size (w_pool (hc_world c')) = S \<and> same_socket (hc_trans c) (hc_trans c') \<and>
    answered e reply (out (so_kernel (hc_trans c))) (out (so_kernel (hc_trans c'))) keep \<and>
    loop_bound (header_limit e) S (length new1) \<and> (new2 = [] \<or> loop_bound (body_limit e) S (length new2)) \<and>
    (keep \<and> quiet (en_kernel e) left \<and> advances (en_api e) (en_exec e) \<longrightarrow> onward left True buf c (new1 @ new2) c')"
proof -
  have p: "pool_inv (lent_state (hc_world c) lent)" and ne: "buf \<noteq> []" and bl: "set buf \<subseteq> set lent" using inv by (auto simp: bufs_inv_def)
  obtain w rsp lent1 where m: "resp_make (hc_world c) = Inr (w, rsp)" "resp_inv w lent1 rsp" "header_text w rsp = []" "body_text w rsp = []"
      "back_room w (rs_header rsp) = S" "back_room w (rs_body rsp) = S" "pl_size (w_pool w) = S"
      "lent1 = rs_body rsp @ rs_header rsp @ lent" "others_same (hc_world c) lent [] w"
    by (rule resp_make_ok [OF p]) (use S in auto)
  let ?R = "resp_buffers rsp"
  note dis = fresh_resp_buffers(1) [OF m(2,8)] and gone = fresh_resp_buffers(2) [OF m(2,8)]
  have b1: "bufs_inv w lent1 buf" by (rule bufs_inv_frame [OF inv m(9)]) (use m(2,7,8) bl S in \<open>auto simp: resp_inv_def\<close>)
  let ?c = "start_timer e (c\<lparr>hc_world := w\<rparr>)" and ?req = "req_make (en_api e) (en_urldata e)"
  obtain c1 new1 req1 ok where l: "header_loop e ?c buf ?req = Some (Inr (c1, buf @ new1, req1, ok))"
      "bufs_inv (hc_world c1) (rev new1 @ lent1) (buf @ new1)" "others_same w lent1 buf (hc_world c1)" "conn_frame out left ?c c1"
      "set new1 \<inter> set lent1 = {}" "ok \<longrightarrow> headers_completed req1" "buffers_bound (header_limit e) 0 w buf new1"
      "ok \<longrightarrow> onward left (needs_input e headers_completed ?req) buf ?c new1 c1"
    using request_loop_total [OF c k(1), of ?c lent1 buf headers_completed "header_limit e" ?req 0] b1 so S(2) m(7)
    unfolding header_loop_def by auto
  have size: "pl_size (w_pool (hc_world c1)) = S" "pl_size (w_pool (hc_world c1)) = pl_size (w_pool w)"
    using conn_frame_size [OF l(4)] m(7) by simp_all
  have sock: "same_socket (hc_trans c) (hc_trans c1)" "out (so_kernel (hc_trans c1)) = out (so_kernel (hc_trans c))"
    using conn_frame_socket [OF l(4)] by simp_all
  have sub: "set ?R \<subseteq> set (rev new1 @ lent1)" "set ?R \<inter> set (buf @ new1) = {}" "distinct ?R"
    using m(2,8) l(5) dis bl by (auto simp: resp_inv_def resp_buffers_def)
  have same: "others_same (hc_world c) lent buf w'" if "others_same (hc_world c1) (rev new1 @ lent1) ((buf @ new1) @ ?R) w'" for w'
    using m(8,9) l(3,5) dis that by (auto simp: others_same_def disjoint_iff)
  note bound = loop_bound_start [OF l(7) b1 m(7)]
  show ?thesis
  proof (cases ok)
    case False
    obtain w' where w': "leave_request c1 (buf @ new1) rsp False = Inr (c1\<lparr>hc_world := w'\<rparr>, buf @ new1, False)"
        "bufs_inv w' (filter (\<lambda>q. q \<notin> set ?R) (rev new1 @ lent1)) (buf @ new1)" "others_same (hc_world c1) (rev new1 @ lent1) ?R w'"
        "pl_size (w_pool w') = S"
      using leave_request_ok [OF l(2) sub(3,1,2) refl] size(1) by auto
    have "others_same (hc_world c) lent buf w'" by (rule same, rule others_same_mono [OF w'(3)]) auto
    then show ?thesis using w' l(1,5) sock False m(1,8) ne gone [of "rev new1"] bound
      by (intro exI [of _ "c1\<lparr>hc_world := w'\<rparr>"] exI [of _ new1] exI [of _ "[]"] exI [of _ False]) (auto simp: process_request_def answered_def)
  next
    case True
    obtain h' where h': "match_handler (en_handlers e) (path_data req1) = Some h'" "answering_handler h' (en_gmtime e) (reply h') S"
      using h by blast
    have "pool_inv (lent_state (hc_world c1) (rev new1 @ lent1))" "set buf \<inter> set ?R = {}" using l(2) sub(2) by (auto simp: bufs_inv_def)
    note f = resp_inv_frame [OF m(2) l(3) this(2,1) sub(1) size(2)]
    obtain c' new2 n keep where t: "pbind (Some (call_handler e (Some h') HE_REQUEST_HDR mh_on_request_header On_request_header txn req1 (pause_timer e c1) rsp))
          (\<lambda>(c2, rsp2). process_body e (Some h') txn c2 (buf @ new1) req1 rsp2) = Some (Inr (c', (buf @ new1) @ new2, keep))"
        "bufs_inv (hc_world c') (filter (\<lambda>q. q \<notin> set ?R) (rev new2 @ rev new1 @ lent1)) ((buf @ new1) @ new2)"
        "set new2 \<inter> set (rev new1 @ lent1) = {}" "others_same (hc_world c1) (rev new1 @ lent1) ((buf @ new1) @ ?R) (hc_world c')"
        "pl_size (w_pool (hc_world c')) = S" "same_socket (hc_trans c1) (hc_trans c')"
        "out (so_kernel (hc_trans c')) = out (so_kernel (hc_trans c1)) @ take n (reply h' (req_keep_alive (en_api e) req1))"
        "keep \<longrightarrow> n = length (reply h' (req_keep_alive (en_api e) req1)) \<and> req_keep_alive (en_api e) req1"
        "loop_bound (body_limit e) S (length new2)"
        "keep \<and> quiet (en_kernel e) left \<longrightarrow> onward left False (buf @ new1) (pause_timer e c1) new2 c'"
      using process_handler_ok [OF h'(2) c k, of "pause_timer e c1" "rev new1 @ lent1" rsp "buf @ new1" _ req1 txn]
        f m(3-6) l(2) sub(2) so S size stream_same [OF sock(1)] by auto
    have "filter (\<lambda>q. q \<notin> set ?R) (rev new2 @ rev new1 @ lent1) = rev (new1 @ new2) @ lent"
      using gone [of "rev (new1 @ new2)"] l(5) t(3) by auto
    moreover have "process_request e c buf txn = Some (Inr (c', buf @ new1 @ new2, keep))"
      using ne m(1) l(1) True h'(1) t(1) by (simp add: process_request_def Let_def)
    moreover have "answered e reply (out (so_kernel (hc_trans c))) (out (so_kernel (hc_trans c'))) keep"
      using h'(1) l(6) True t(7,8) sock(2) unfolding answered_def by (intro disjI2) auto
    moreover have "set (new1 @ new2) \<inter> set lent = {}" using l(5) t(3) m(8) by auto
    moreover have "onward left True buf c (new1 @ new2) c'" if "keep" "quiet (en_kernel e) left" "advances (en_api e) (en_exec e)"
    proof -
      have "needs_input e headers_completed ?req" using that(3)
        by (simp add: needs_input_def clear_cb_error_def headers_completed_def req_make_def)
      moreover have "onward left False (buf @ new1) c1 new2 c'" using t(10) that by (simp add: onward_def)
      moreover have "unread w buf = unread (hc_world c) buf"
        using bl ne by (intro unread_same [OF m(9)]) auto
      ultimately show ?thesis using l(8) True onward_trans [of left True buf ?c new1 c1 False new2 c'] by (simp add: onward_def)
    qed
    ultimately show ?thesis using t(2,5,9) bound same [OF t(4)] same_socket_trans [OF sock(1) t(6)]
      by (intro exI [of _ c'] exI [of _ new1] exI [of _ new2] exI [of _ keep]) simp
  qed
qed

end
