(* ===== verification/Server_Claims.thy ===== *)
theory Server_Claims
  imports Server_Props
begin

text \<open>
  The properties of connections and of the service: the reply on the wire, the memory one request can
  take, the dispatch by path, the numbers of connections, the timers, the calls to handlers, and what
  ends the accept loop.
\<close>

subsection \<open>A site with both sample modules\<close>

definition site_modules :: "'p module_handler modules" where
  "site_modules = fst (setup_handler (fst (setup_handler no_modules (mh_path (default_module :: 'p module_handler)) default_module))
     (mh_path (hello_module :: 'p module_handler)) hello_module)"

definition names_hello :: "string option \<Rightarrow> bool" where
  "names_hello key \<longleftrightarrow> (case key of None \<Rightarrow> False | Some p \<Rightarrow> canon p = canon ''/hello'')"

lemma site_modules_eq: "site_modules = \<lparr>md_default = Some default_module, md_modules = [(c_str ''/hello'', hello_module)]\<rparr>"
  by (simp add: site_modules_def setup_handler_def default_module_def hello_module_def no_modules_def mod_find_def mod_insert_def)

lemma match_site: "match_handler site_modules key = Some (if names_hello key then hello_module else default_module)"
proof -
  have "canon (c_str ''/hello'') = canon ''/hello''" by (simp add: canon_def)
  then show ?thesis
    by (cases key) (simp_all add: site_modules_eq match_handler_def names_hello_def mod_find_canon eq_commute [of "canon ''/hello''"])
qed

lemma module_names: "mh_name hello_module = ''hello''" "mh_name default_module = ''default''"
  by (simp_all add: hello_module_def default_module_def)

definition site_reply :: "string \<Rightarrow> bool \<Rightarrow> bool \<Rightarrow> string" where
  "site_reply d hello alive = (if hello then hello_reply d alive else default_reply d alive)"

lemma site_reply_fun: "site_reply d True = hello_reply d" "site_reply d False = default_reply d"
  by (simp_all add: site_reply_def fun_eq_iff)

lemma site_answers:
  assumes "date_text t = Inr d" "int (length d) + 200 < S" "S < 2 ^ 31"
  shows "\<exists>h. match_handler site_modules key = Some h \<and> answering_handler h t (site_reply d (mh_name h = ''hello'')) S"
  using hello_answers [OF assms] default_answers [OF assms]
  by (cases "names_hello key") (simp_all add: match_site module_names site_reply_fun)

text \<open>An environment for the witnesses: timers in a list, the sample parser and the sample kernel.\<close>

type_synonym sample_timers = "nat \<times> (nat \<times> timer_cb) list"

definition sample_timer :: "sample_timers timer_api" where
  "sample_timer = \<lparr>ta_add = (\<lambda>(n, ts) d cb. (n, (n + 1, (n, cb) # ts))),
     ta_cancel = (\<lambda>(n, ts) i. (n, filter (\<lambda>(j, _). j \<noteq> i) ts))\<rparr>"

definition sample_env :: "(http_errno, sample_timers, sample_net) env" where
  "sample_env = \<lparr>en_api = sample_api, en_sort = stable_sort, en_exec = body_exec, en_gmtime = test_tm, en_urldata = 4096,
     en_kernel = sample_kernel, en_timer = sample_timer, en_handlers = site_modules, en_option = default_options\<rparr>"

definition sample_conn :: "world \<Rightarrow> string list \<Rightarrow> (sample_timers, sample_net) http_connection" where
  "sample_conn w cs = \<lparr>hc_trans = sample_socket cs, hc_connid = 1, hc_timer_idle = None, hc_timer_life = None, hc_world = w,
     hc_timers = (0, []), hc_calls = []\<rparr>"

lemma sample_consumes: "consumes sample_api body_exec"
  by (simp add: consumes_def body_exec_def req_error_def sample_api_def)

lemma sample_bufs:
  obtains w q where "bufs_inv w [q] [q]" "pl_size (w_pool w) = 8192"
proof -
  have inv: "pool_inv (lent_state (start_world 8192 16384) [])" "pl_size (w_pool (start_world 8192 16384)) = 8192"
    by (rule start_world_inv; simp)+
  obtain q w where q: "pool_inv (lent_state w [q])" "fresh_io w q" "pl_size (w_pool w) = 8192"
    by (rule acquire_fresh [OF inv(1)]) (use inv(2) in auto)
  then have "bufs_inv w [q] [q]" by (auto simp: bufs_inv_def req_cell_def fresh_io_def split: option.splits)
  then show thesis using that q(3) by blast
qed

lemma sample_fields [simp]:
  "en_api sample_env = sample_api" "en_exec sample_env = body_exec" "en_kernel sample_env = sample_kernel"
  "en_gmtime sample_env = test_tm" "en_handlers sample_env = site_modules" "en_option sample_env = default_options"
  "en_timer sample_env = sample_timer" "hc_world (sample_conn w cs) = w" "so_stream_oriented (hc_trans (sample_conn w cs))"
  "so_kernel (hc_trans (sample_conn w cs)) = ([], cs)"
  by (simp_all add: sample_env_def sample_conn_def sample_socket_def)

subsection \<open>The reply\<close>



text \<open>C9: receiving a header or a body returns, whatever the parser and the peer do within their
  contracts, and takes at most the configured limit plus two buffers of new memory, as long as limit
  and buffer size together fit an \<open>int\<close>. A result of true means the request is complete.\<close>

theorem request_memory_bounded:
  assumes "consumes (en_api e) (en_exec e)" "receives (en_kernel e) out left wait"
    and "bufs_inv (hc_world c) lent buf" "so_stream_oriented (hc_trans c)" "0 < pl_size (w_pool (hc_world c))"
    and "S = pl_size (w_pool (hc_world c))"
    and "loop = header_loop \<and> H = header_limit e \<and> completed = headers_completed \<or>
      loop = body_loop \<and> H = body_limit e \<and> completed = message_completed"
  shows "\<exists>c' new req' ok. loop e c buf req = Some (Inr (c', buf @ new, req', ok)) \<and>
    bufs_inv (hc_world c') (rev new @ lent) (buf @ new) \<and> (ok \<longrightarrow> completed req' \<and> req_error (en_api e) req' = HPE_OK) \<and>
    (int H + S < 2 ^ 31 \<longrightarrow> int (length new) * S \<le> int H + 2 * S)"
proof -
  have "\<exists>c' new req' ok. request_loop e completed H c buf req 0 = Some (Inr (c', buf @ new, req', ok)) \<and>
    bufs_inv (hc_world c') (rev new @ lent) (buf @ new) \<and> (ok \<longrightarrow> completed req' \<and> req_error (en_api e) req' = HPE_OK) \<and>
    loop_bound H S (length new)"
    using request_loop_total [OF assms(1-5), of completed H req 0] loop_bound_start [OF _ assms(3) assms(6) [symmetric], of H] by blast
  then show ?thesis using assms(7) by (auto simp: header_loop_def body_loop_def loop_bound_def)
qed

theorem request_memory_bounded_witness:
  "\<exists>w q c' new req' ok. header_loop sample_env (sample_conn w [''GET'', '' /'']) [q] (req_make sample_api 4096) = Some (Inr (c', [q] @ new, req', ok)) \<and>
    int (length new) * 8192 \<le> 8192 + 2 * 8192"
proof -
  obtain w q where w: "bufs_inv w [q] [q]" "pl_size (w_pool w) = 8192" by (rule sample_bufs)
  then show ?thesis
    using request_memory_bounded [of sample_env fst "\<lambda>s. length (snd s) + length (concat (snd s))" "\<lambda>_. 0" "sample_conn w [''GET'', '' /'']"
        "[q]" "[q]" 8192 header_loop 8192 headers_completed "req_make sample_api 4096"]
      sample_consumes sample_receives by (fastforce simp: default_options_def)
qed

subsection \<open>Dispatch\<close>

text \<open>C34: the handler is looked up with everything of the URL from its path on. When the path is followed
  by a query or a fragment, a handler registered under exactly that path is not found and the request
  goes to the default handler.\<close>

theorem dispatch_includes_query:
  assumes "hpu = hp_parse_url api (rq_strurl r) (req_method api r = HTTP_CONNECT)"
    and "hpu_field_set hpu UF_PATH" "hpu_field_data hpu UF_PATH = (off, len)"
    and "off + len < length (rq_strurl r)" "CHR 0x00 \<notin> set (rq_strurl r)"
    and "path = take len (drop off (rq_strurl r))" "req = fst (of_headers_complete api srt r)"
  shows "path_data req = Some (drop off (rq_strurl r)) \<and>
    match_handler \<lparr>md_default = dflt, md_modules = [(c_str path, h)]\<rparr> (path_data req) = dflt"
proof -
  have meth: "req_method api (sorthdr srt (r\<lparr>rq_headers_completed := True\<rparr>)) = req_method api r" by (simp add: req_method_def sorthdr_def)
  have no_nul: "c_str xs = xs" if "set xs \<subseteq> set (rq_strurl r)" for xs
    using that assms(5) by (auto simp: c_str_def takeWhile_eq_all_conv)
  have d: "c_str (drop off (rq_strurl r)) = drop off (rq_strurl r)" "c_str path = path"
    by (rule no_nul, use assms(6) set_drop_subset set_take_subset in fastforce)+
  have "rq_urldata req = rq_urldata r" "rq_strurl req = rq_strurl r" "sl_buf (pu_path (req_url req)) = Some (rq_urldata r + off)"
    using assms(1-3,7) meth
    by (simp_all add: of_headers_complete_def Let_def req_url_def url_slice_def slice_make_def) (simp_all add: sorthdr_def)
  then have p: "path_data req = Some (drop off (rq_strurl r))" using d(1) by (simp add: path_data_def slice_data_def)
  have "length (canon path) \<noteq> length (canon (drop off (rq_strurl r)))" using d assms(4,6) by (simp add: canon_def)
  then have "canon path \<noteq> canon (drop off (rq_strurl r))" by metis
  moreover have "canon (c_str path) = canon path" by (simp add: d(2))
  ultimately show ?thesis by (simp add: p match_handler_def mod_find_canon)
qed

definition query_url :: http_parser_url where
  "query_url = \<lparr>hpu_field_set = (\<lambda>f. f = UF_PATH \<or> f = UF_QUERY), hpu_field_data = (\<lambda>f. if f = UF_PATH then (0, 6) else (7, 3)), hpu_port = 0\<rparr>"

theorem dispatch_includes_query_witness:
  "match_handler \<lparr>md_default = Some (404::nat), md_modules = [(''/hello'', 200)]\<rparr>
     (path_data (fst (of_headers_complete (sample_api\<lparr>hp_parse_url := \<lambda>_ _. query_url\<rparr>) stable_sort
       ((req_make sample_api 4096)\<lparr>rq_strurl := ''/hello?x=1''\<rparr>)))) = Some 404"
proof -
  let ?api = "sample_api\<lparr>hp_parse_url := \<lambda>_ _. query_url\<rparr>" and ?r = "(req_make sample_api 4096)\<lparr>rq_strurl := ''/hello?x=1''\<rparr>"
  have "c_str ''/hello'' = ''/hello''" by code_simp
  moreover have "query_url = hp_parse_url ?api (rq_strurl ?r) (req_method ?api ?r = HTTP_CONNECT)" by simp
  moreover have "hpu_field_set query_url UF_PATH" "hpu_field_data query_url UF_PATH = (0, 6)" by (simp_all add: query_url_def)
  moreover have "0 + 6 < length (rq_strurl ?r)" "CHR 0x00 \<notin> set (rq_strurl ?r)" "''/hello'' = take 6 (drop 0 (rq_strurl ?r))" by simp_all
  ultimately show ?thesis
    using dispatch_includes_query [of query_url ?api ?r 0 6 "''/hello''" "fst (of_headers_complete ?api stable_sort ?r)" stable_sort "Some (404::nat)" 200]
    by metis
qed

subsection \<open>Numbers of connections\<close>

lemma connection_id_bit:
  assumes "0 \<le> pid" "pid < 2 ^ 32"
  shows "bit (connection_id pid conid) n \<longleftrightarrow> (if n < 32 then bit conid n else n < 64 \<and> bit pid (n - 32))"
  using bit_imp_le_length [of conid n] by (auto simp: connection_id_def bit_simps)

lemma high_bits:
  assumes "0 \<le> (pid :: int)" "pid < 2 ^ 32"
  shows "bit pid n \<longleftrightarrow> n < 32 \<and> bit pid n"
  using assms by (metis bit_take_bit_iff take_bit_int_eq_self)

lemma connection_id_inj:
  assumes "0 \<le> p" "p < 2 ^ 32" "0 \<le> q" "q < 2 ^ 32" and eq: "connection_id p a = connection_id q b"
  shows "p = q \<and> a = b"
proof
  show "a = b"
  proof (rule bit_word_eqI)
    fix n assume "n < LENGTH(32)"
    then show "bit a n = bit b n"
      using connection_id_bit [OF assms(1,2), of a n] connection_id_bit [OF assms(3,4), of b n] eq by simp
  qed
  show "p = q"
  proof (rule bit_eqI)
    fix n
    show "bit p n = bit q n"
    proof (cases "n < 32")
      case True
      then show ?thesis
        using connection_id_bit [OF assms(1,2), of a "n + 32"] connection_id_bit [OF assms(3,4), of b "n + 32"] eq by simp
    next
      case False
      then show ?thesis using high_bits [OF assms(1,2), of n] high_bits [OF assms(3,4), of n] by simp
    qed
  qed
qed

fun accepted :: "'s accept_result list \<Rightarrow> nat" where
  "accepted [] = 0"
| "accepted (Accept_failed # rs) = accepted rs"
| "accepted (Accepted s peer # rs) = Suc (accepted rs)"

lemma conn_make_id: "conn_make e peer w s ts calls cid = Inr c \<Longrightarrow> hc_connid c = cid"
  by (auto simp: conn_make_def Let_def split: if_splits prod.splits)

lemma accept_loop_ids:
  assumes "accept_loop e sapi sem pid rs sv = Inr sv'" "sv_run sv"
  shows "map hc_connid (sv_spawned sv') = map hc_connid (sv_spawned sv) @
    map (\<lambda>i. connection_id pid (sv_conid sv + of_nat (Suc i))) [0..<accepted rs]"
  using assms
proof (induction rs arbitrary: sv)
  case Nil
  then show ?case by (auto simp: service_stop_def)
next
  case (Cons r rs)
  obtain sv1 where 1: "accept_one e sapi sem pid r sv = Inr sv1" "accept_loop e sapi sem pid rs sv1 = Inr sv'"
    using Cons.prems by (auto simp: rbind_eq_Inr)
  show ?case
  proof (cases r)
    case Accept_failed
    then have "sv_spawned sv1 = sv_spawned sv" "sv_conid sv1 = sv_conid sv" "sv_run sv1" using 1(1) Cons.prems(2)
      by (auto simp: accept_one_def Let_def)
    then show ?thesis using Cons.IH [OF 1(2)] Accept_failed by simp
  next
    case (Accepted s peer)
    obtain c where c: "hc_connid c = connection_id pid (sv_conid sv + 1)" "sv_spawned sv1 = sv_spawned sv @ [c]"
        "sv_conid sv1 = sv_conid sv + 1" "sv_run sv1"
      using 1(1) Cons.prems(2) Accepted by (auto simp: accept_one_def Let_def rbind_eq_Inr dest: conn_make_id)
    have "[0..<Suc (accepted rs)] = 0 # map Suc [0..<accepted rs]" by (simp add: map_Suc_upt upt_conv_Cons)
    then show ?thesis using Cons.IH [OF 1(2) c(4)] c Accepted by (simp add: add.assoc del: upt_Suc)
  qed
qed

text \<open>The state in which \<open>start\<close> enters its loop.\<close>

lemma service_start_loop:
  obtains sv1 where "service_start e sapi sem pid rs (service_setup opt heap ts k) = rbind (accept_loop e sapi sem pid rs sv1)
      (\<lambda>sv2. Inr (sv2\<lparr>sv_calls := notify (en_handlers e) HE_PROCESS_INIT On_process_exit (sv_calls sv2)\<rparr>))"
    "sv_run sv1" "sv_spawned sv1 = []" "sv_conid sv1 = 0" "sv_calls sv1 = notify (en_handlers e) HE_PROCESS_INIT On_process_init []"
proof -
  define sv0 where "sv0 = time_tick e (service_setup opt heap ts k)"
  define sv1 where "sv1 = sv0\<lparr>sv_calls := notify (en_handlers e) HE_PROCESS_INIT On_process_init (sv_calls sv0)\<rparr>"
  show thesis
  proof (rule that [of sv1])
    show "service_start e sapi sem pid rs (service_setup opt heap ts k) = rbind (accept_loop e sapi sem pid rs sv1)
      (\<lambda>sv2. Inr (sv2\<lparr>sv_calls := notify (en_handlers e) HE_PROCESS_INIT On_process_exit (sv_calls sv2)\<rparr>))"
      by (simp add: service_start_def Let_def sv1_def sv0_def)
  qed (auto simp: sv1_def sv0_def time_tick_def service_setup_def Let_def split: prod.splits)
qed

lemma service_start_ids:
  assumes "service_start e sapi sem pid rs (service_setup opt heap ts k) = Inr sv'"
  shows "map hc_connid (sv_spawned sv') = map (\<lambda>i. connection_id pid (of_nat (Suc i))) [0..<accepted rs]"
proof (rule service_start_loop [of e sapi sem pid rs opt heap ts k])
  fix sv1
  assume 1: "service_start e sapi sem pid rs (service_setup opt heap ts k) = rbind (accept_loop e sapi sem pid rs sv1)
      (\<lambda>sv2. Inr (sv2\<lparr>sv_calls := notify (en_handlers e) HE_PROCESS_INIT On_process_exit (sv_calls sv2)\<rparr>))"
    "sv_run sv1" "sv_spawned sv1 = []" "sv_conid sv1 = 0"
  obtain sv3 where "accept_loop e sapi sem pid rs sv1 = Inr sv3" "sv_spawned sv' = sv_spawned sv3"
    using assms 1(1) by (auto simp: rbind_eq_Inr)
  then show ?thesis using accept_loop_ids [of e sapi sem pid rs sv1 sv3] 1(2-4) by simp
qed

text \<open>C33: the connections a process accepts have pairwise different numbers as long as there are fewer
  than \<open>2 ^ 32\<close> of them, and numbers of different processes differ too.\<close>

theorem connection_numbers_unique:
  assumes "service_start e sapi sem pid rs sv = Inr sv'" "service_start e2 sapi2 sem2 pid2 rs2 sv2 = Inr sv2'"
    and "sv = service_setup opt heap ts k" "sv2 = service_setup opt2 heap2 ts2 k2"
    and "0 \<le> pid" "pid < 2 ^ 32" "0 \<le> pid2" "pid2 < 2 ^ 32" "pid \<noteq> pid2" "accepted rs < 2 ^ 32"
  shows "length (sv_spawned sv') = accepted rs \<and> distinct (map hc_connid (sv_spawned sv')) \<and>
    set (map hc_connid (sv_spawned sv')) \<inter> set (map hc_connid (sv_spawned sv2')) = {}"
proof -
  have 1: "map hc_connid (sv_spawned sv') = map (\<lambda>i. connection_id pid (of_nat (Suc i))) [0..<accepted rs]"
    using assms(1) unfolding assms(3) by (rule service_start_ids)
  have 2: "map hc_connid (sv_spawned sv2') = map (\<lambda>i. connection_id pid2 (of_nat (Suc i))) [0..<accepted rs2]"
    using assms(2) unfolding assms(4) by (rule service_start_ids)
  have "i = j" if "connection_id pid (of_nat (Suc i)) = connection_id pid (of_nat (Suc j))" "i < accepted rs" "j < accepted rs" for i j
  proof -
    have "(of_nat (Suc i) :: 32 word) = of_nat (Suc j)" using connection_id_inj [OF assms(5,6,5,6) that(1)] by blast
    moreover have "Suc i < 2 ^ LENGTH(32)" "Suc j < 2 ^ LENGTH(32)" using that(2,3) assms(10) by simp_all
    ultimately show ?thesis by (metis nat.inject of_nat_inverse)
  qed
  then have "distinct (map hc_connid (sv_spawned sv'))" unfolding 1 by (auto simp: distinct_map intro!: inj_onI)
  moreover have "connection_id pid x \<noteq> connection_id pid2 y" for x y using connection_id_inj [OF assms(5-8)] assms(9) by blast
  then have "set (map hc_connid (sv_spawned sv')) \<inter> set (map hc_connid (sv_spawned sv2')) = {}"
    unfolding 1 2 by (auto simp del: of_nat_Suc)
  moreover have "length (sv_spawned sv') = accepted rs" using arg_cong [OF 1, of length] by simp
  ultimately show ?thesis by blast
qed

lemma accept_loop_stops: "accept_loop e sapi sem pid rs sv = Inr sv' \<Longrightarrow> sv_run sv \<Longrightarrow> \<not> sv_run sv'"
proof (induction rs arbitrary: sv)
  case (Cons r rs)
  have "sv_run sv1" if "accept_one e sapi sem pid r sv = Inr sv1" for sv1
    using that Cons.prems(2) by (auto simp: accept_one_def Let_def rbind_eq_Inr split: accept_result.splits)
  then show ?case using Cons by (auto simp: rbind_eq_Inr)
qed (auto simp: service_stop_def)

lemma conn_make_peer: "\<exists>c. conn_make e True w s ts calls cid = Inr c"
  by (auto simp: conn_make_def Let_def split: prod.splits)

lemma accept_loop_result:
  assumes "sv_run sv"
  shows "if \<exists>s. Accepted s False \<in> set rs then accept_loop e sapi sem pid rs sv = Inl (System_error ''remote_endpoint'')
    else \<exists>sv'. accept_loop e sapi sem pid rs sv = Inr sv'"
  using assms
proof (induction rs arbitrary: sv)
  case (Cons r rs)
  show ?case
  proof (cases "\<exists>s. r = Accepted s False")
    case True
    then show ?thesis using Cons.prems by (auto simp: accept_one_def conn_make_def Let_def)
  next
    case False
    then obtain sv1 where 1: "accept_one e sapi sem pid r sv = Inr sv1" "sv_run sv1"
    proof (cases r)
      case (Accepted s peer)
      obtain c where "conn_make e True (sv_world sv) s (sv_timers sv) (sv_calls sv) (connection_id pid (sv_conid sv + 1)) = Inr c"
        by (rule exE [OF conn_make_peer])
      then show ?thesis using False Accepted Cons.prems that by (auto simp: accept_one_def Let_def)
    qed (use Cons.prems that in \<open>auto simp: accept_one_def Let_def\<close>)
    then show ?thesis using Cons.IH [OF 1(2)] Cons.prems False by (auto split: if_splits)
  qed
qed simp

lemma service_start_result:
  "if \<exists>s. Accepted s False \<in> set rs
   then service_start e sapi sem pid rs (service_setup opt heap ts k) = Inl (System_error ''remote_endpoint'')
   else \<exists>sv'. service_start e sapi sem pid rs (service_setup opt heap ts k) = Inr sv'"
proof (rule service_start_loop [of e sapi sem pid rs opt heap ts k])
  fix sv1
  assume "service_start e sapi sem pid rs (service_setup opt heap ts k) = rbind (accept_loop e sapi sem pid rs sv1)
      (\<lambda>sv2. Inr (sv2\<lparr>sv_calls := notify (en_handlers e) HE_PROCESS_INIT On_process_exit (sv_calls sv2)\<rparr>))" "sv_run sv1"
  then show ?thesis using accept_loop_result [of sv1 rs e sapi sem pid] by (auto split: if_splits)
qed

theorem connection_numbers_unique_witness:
  "\<exists>sv' sv2'. service_start sample_env list_kernel \<lparr>so_semid = - 1\<rparr> 100 [Accept_failed, Accepted (sample_socket []) True]
       (service_setup default_options \<lparr>hp_brk = 4096, hp_cells = (\<lambda>_. None)\<rparr> (0, []) []) = Inr sv' \<and>
     service_start sample_env list_kernel \<lparr>so_semid = - 1\<rparr> 101 [Accepted (sample_socket []) True]
       (service_setup default_options \<lparr>hp_brk = 4096, hp_cells = (\<lambda>_. None)\<rparr> (0, []) []) = Inr sv2' \<and>
     set (map hc_connid (sv_spawned sv')) \<inter> set (map hc_connid (sv_spawned sv2')) = {}"
proof -
  let ?s = "service_setup default_options \<lparr>hp_brk = 4096, hp_cells = (\<lambda>_. None)\<rparr> (0, []) [] :: (sample_timers, sample_net, int list) http_service"
  let ?a = "Accepted (sample_socket []) True"
  have "\<exists>sv'. service_start sample_env list_kernel \<lparr>so_semid = - 1\<rparr> 100 [Accept_failed, ?a] ?s = Inr sv'"
    "\<exists>sv'. service_start sample_env list_kernel \<lparr>so_semid = - 1\<rparr> 101 [?a] ?s = Inr sv'"
    using service_start_result [of "[Accept_failed, ?a]"] service_start_result [of "[?a]"] by simp_all
  then obtain sv' sv2' where s: "service_start sample_env list_kernel \<lparr>so_semid = - 1\<rparr> 100 [Accept_failed, ?a] ?s = Inr sv'"
      "service_start sample_env list_kernel \<lparr>so_semid = - 1\<rparr> 101 [?a] ?s = Inr sv2'"
    by blast
  have "set (map hc_connid (sv_spawned sv')) \<inter> set (map hc_connid (sv_spawned sv2')) = {}"
    using connection_numbers_unique [OF s refl refl] by simp
  then show ?thesis using s by blast
qed

subsection \<open>Calls to the handlers, and what ends the service\<close>

abbreviation wanting :: "'p module_handler modules \<Rightarrow> nat \<Rightarrow> string list" where
  "wanting md ev \<equiv> map mh_name (filter (\<lambda>mh. handles mh ev) (list_handler md))"

definition connect_calls :: "'p module_handler modules \<Rightarrow> conid_t list \<Rightarrow> call list" where
  "connect_calls md cids = concat (map (\<lambda>cid. map (\<lambda>n. On_connect_init n cid) (wanting md HE_CONNECT_INIT)) cids)"

lemma notify_wanting: "notify md ev f calls = calls @ map f (wanting md ev)"
  by (simp add: notify_def comp_def)

lemma conn_make_calls:
  "conn_make e peer w s ts calls cid = Inr c \<Longrightarrow> hc_calls c = calls @ connect_calls (en_handlers e) [cid]"
  by (auto simp: conn_make_def Let_def notify_wanting connect_calls_def split: if_splits prod.splits)

lemma accept_loop_calls:
  assumes "accept_loop e sapi sem pid rs sv = Inr sv'" "sv_run sv"
  shows "sv_calls sv' = sv_calls sv @ connect_calls (en_handlers e) (drop (length (sv_spawned sv)) (map hc_connid (sv_spawned sv')))"
  using assms
proof (induction rs arbitrary: sv)
  case Nil
  then show ?case by (auto simp: service_stop_def connect_calls_def)
next
  case (Cons r rs)
  obtain sv1 where 1: "accept_one e sapi sem pid r sv = Inr sv1" "accept_loop e sapi sem pid rs sv1 = Inr sv'"
    using Cons.prems by (auto simp: rbind_eq_Inr)
  show ?case
  proof (cases r)
    case Accept_failed
    then have "sv_spawned sv1 = sv_spawned sv" "sv_calls sv1 = sv_calls sv" "sv_run sv1" using 1(1) Cons.prems(2)
      by (auto simp: accept_one_def Let_def)
    then show ?thesis using Cons.IH [OF 1(2)] by simp
  next
    case (Accepted s peer)
    obtain c where "conn_make e peer (sv_world sv) s (sv_timers sv) (sv_calls sv) (connection_id pid (sv_conid sv + 1)) = Inr c"
        and sv1: "sv_calls sv1 = hc_calls c" "sv_spawned sv1 = sv_spawned sv @ [c]" "sv_run sv1"
      using 1(1) Cons.prems(2) Accepted by (auto simp: accept_one_def Let_def rbind_eq_Inr)
    then have c: "sv_calls sv1 = sv_calls sv @ connect_calls (en_handlers e) [hc_connid c]" "sv_spawned sv1 = sv_spawned sv @ [c]" "sv_run sv1"
      using conn_make_calls conn_make_id by metis+
    have "\<exists>new. map hc_connid (sv_spawned sv') = map hc_connid (sv_spawned sv1) @ new"
      using accept_loop_ids [OF 1(2) c(3)] by blast
    then obtain new where "map hc_connid (sv_spawned sv') = map hc_connid (sv_spawned sv) @ hc_connid c # new" using c(2) by auto
    then show ?thesis using Cons.IH [OF 1(2) c(3)] c by (simp add: connect_calls_def)
  qed
qed




end
