(* ===== verification/Server_Life.thy ===== *)
theory Server_Life
  imports Server_Claims
begin

text \<open>
  The life of a connection: the loop of \<open>parse\<close> over requests ends when the peer stops sending, the
  buffers it took are all given back, what the peer was sent is a sequence of replies, and the
  timers of a connection end with it.
\<close>

subsection \<open>The buffers between requests\<close>

definition conn_bufs :: "world \<Rightarrow> iobuf_ptr list \<Rightarrow> iobuf_ptr list \<Rightarrow> bool" where
  "conn_bufs w lent buf \<longleftrightarrow> pool_inv (lent_state w lent) \<and> distinct buf \<and> set buf \<subseteq> set lent \<and> (\<forall>q \<in> set buf. req_cell w q)"

abbreviation besides :: "iobuf_ptr list \<Rightarrow> iobuf_ptr list \<Rightarrow> iobuf_ptr list" where
  "besides buf lent \<equiv> filter (\<lambda>q. q \<notin> set buf) lent"

lemma bufs_inv_conn: "bufs_inv w lent buf \<longleftrightarrow> conn_bufs w lent buf \<and> buf \<noteq> []"
  by (auto simp: bufs_inv_def conn_bufs_def)

definition rest :: "world \<Rightarrow> iobuf_ptr list \<Rightarrow> nat" where
  "rest w buf = (if buf = [] then 0 else unread w buf)"

lemma release_front_ok:
  assumes "conn_bufs w lent buf"
  shows "\<exists>w' buf' lent'. release_front w buf = Inr (w', buf') \<and> conn_bufs w' lent' buf' \<and> besides buf' lent' = besides buf lent \<and>
    others_same w (besides buf lent) [] w' \<and> pl_size (w_pool w') = pl_size (w_pool w) \<and> rest w' buf' \<le> rest w buf"
  using assms
proof (induction buf arbitrary: w lent)
  case Nil
  then show ?case by (auto simp: rest_def)
next
  case (Cons q qs)
  have p: "pool_inv (lent_state w lent)" and q: "q \<in> set lent" "q \<notin> set qs" "distinct qs" "set qs \<subseteq> set lent" "req_cell w q"
    using Cons.prems by (auto simp: conn_bufs_def)
  then obtain iov where iov: "hp_cells (w_heap w) (ptr_addr q) = Some iov" by (auto simp: req_cell_def split: option.splits)
  show ?case
  proof (cases "iobuf_get_r_len iov = 0")
    case False
    then show ?thesis using Cons.prems iov by (intro exI [of _ w] exI [of _ "q # qs"] exI [of _ lent]) simp
  next
    case True
    obtain w1 where w1: "drop_ptrs w [q] qs = Inr w1" "pool_inv (lent_state w1 (filter (\<lambda>r. r \<notin> set [q]) lent))"
      using drop_ptrs_ok [OF p, of "[q]" qs] q by auto
    have o: "others_same w lent [q] w1" using drop_ptrs_others [OF p w1(1)] q(1) by simp
    have sz: "pl_size (w_pool w1) = pl_size (w_pool w)" using drop_ptrs_frame [OF w1(1)] by blast
    have cell: "hp_cells (w_heap w1) (ptr_addr r) = hp_cells (w_heap w) (ptr_addr r)" if "r \<in> set qs" for r
      using that o q by (auto simp: others_same_def)
    have "conn_bufs w1 (filter (\<lambda>r. r \<notin> set [q]) lent) qs"
      using w1(2) q Cons.prems cell sz by (auto simp: conn_bufs_def req_cell_def split: option.splits)
    from Cons.IH [OF this] obtain w' buf' lent' where IH: "release_front w1 qs = Inr (w', buf')" "conn_bufs w' lent' buf'"
        "besides buf' lent' = besides qs (filter (\<lambda>r. r \<notin> set [q]) lent)"
        "others_same w1 (besides qs (filter (\<lambda>r. r \<notin> set [q]) lent)) [] w'" "pl_size (w_pool w') = pl_size (w_pool w1)" "rest w' buf' \<le> rest w1 qs"
      by blast
    have b: "besides qs (filter (\<lambda>r. r \<notin> set [q]) lent) = besides (q # qs) lent" by (auto intro!: filter_cong)
    have "rest w1 qs \<le> rest w (q # qs)" using cell last_in_set [of qs] by (auto simp: rest_def unread_def)
    moreover have "others_same w (besides (q # qs) lent) [] w'" using o IH(4) unfolding b by (auto simp: others_same_def)
    ultimately show ?thesis using IH True iov w1(1) sz b by (intro exI [of _ w'] exI [of _ buf'] exI [of _ lent']) simp
  qed
qed

lemma first_buffer_ok:
  assumes "conn_bufs (hc_world c) lent reqbuf"
  shows "\<exists>w buf lent'. first_buffer c reqbuf = Inr (c\<lparr>hc_world := w\<rparr>, buf) \<and> bufs_inv w lent' buf \<and>
    besides buf lent' = besides reqbuf lent \<and> others_same (hc_world c) (besides reqbuf lent) [] w \<and>
    pl_size (w_pool w) = pl_size (w_pool (hc_world c)) \<and> unread w buf = rest (hc_world c) reqbuf"
proof (cases "reqbuf = []")
  case False
  have "c\<lparr>hc_world := hc_world c\<rparr> = c" by simp
  then show ?thesis using False assms
    by (intro exI [of _ "hc_world c"] exI [of _ reqbuf] exI [of _ lent]) (simp add: first_buffer_def bufs_inv_conn rest_def)
next
  case True
  have p: "pool_inv (lent_state (hc_world c) lent)" using assms by (simp add: conn_bufs_def)
  obtain q w where q: "acquire (hc_world c) = Inr (q, w)" "pool_inv (lent_state w (q # lent))" "q \<notin> set lent" "fresh_io w q"
      "pl_size (w_pool w) = pl_size (w_pool (hc_world c))"
      "\<forall>r \<in> set lent. hp_cells (w_heap w) (ptr_addr r) = hp_cells (w_heap (hc_world c)) (ptr_addr r)"
    by (rule acquire_fresh [OF p])
  have "bufs_inv w (q # lent) [q]" "unread w [q] = 0"
    using q(2,4) by (auto simp: bufs_inv_def req_cell_def fresh_io_def unread_def iobuf_available split: option.splits)
  moreover have "besides [q] (q # lent) = lent" using q(3) by (auto simp: filter_id_conv)
  ultimately show ?thesis using q(1,5,6) True
    by (intro exI [of _ w] exI [of _ "[q]"] exI [of _ "q # lent"]) (simp add: first_buffer_def rest_def others_same_def)
qed

subsection \<open>The loop over requests ends\<close>

text \<open>What the peer is sent: whole replies of kept connections, and at the end a part of one.\<close>

definition dialogue :: "(bool \<Rightarrow> string \<Rightarrow> bool) \<Rightarrow> string \<Rightarrow> bool" where
  "dialogue R said \<longleftrightarrow> (\<exists>ts t n alive. (\<forall>x \<in> set ts. R True x) \<and> said = concat ts @ take n t \<and> (R alive t \<or> n = 0))"

lemma dialogue_end: "R alive t \<Longrightarrow> dialogue R (take n t)" "dialogue R []"
  unfolding dialogue_def by (rule exI [of _ "[]"], auto)+

lemma dialogue_more: "R True t \<Longrightarrow> dialogue R said \<Longrightarrow> dialogue R (t @ said)"
proof -
  assume t: "R True t" and "dialogue R said"
  then obtain ts u n alive where "\<forall>x \<in> set ts. R True x" "said = concat ts @ take n u" "R alive u \<or> n = 0" by (auto simp: dialogue_def)
  then show ?thesis unfolding dialogue_def using t by (intro exI [of _ "t # ts"] exI [of _ u] exI [of _ n] exI [of _ alive]) auto
qed

definition reply_of :: "('p, 't, 's) env \<Rightarrow> ('p module_handler \<Rightarrow> bool \<Rightarrow> string) \<Rightarrow> bool \<Rightarrow> string \<Rightarrow> bool" where
  "reply_of e reply alive t \<longleftrightarrow> (\<exists>key h. match_handler (en_handlers e) key = Some h \<and> t = reply h alive)"

lemma answered_reply:
  assumes "answered e reply before after keep"
  shows "\<exists>said. after = before @ said \<and> (keep \<longrightarrow> reply_of e reply True said) \<and> (\<not> keep \<longrightarrow> dialogue (reply_of e reply) said)"
  using assms unfolding answered_def
proof (elim disjE exE conjE)
  fix req h n
  let ?a = "req_keep_alive (en_api e) req"
  assume a: "match_handler (en_handlers e) (path_data req) = Some h" "after = before @ take n (reply h ?a)"
    "keep \<longrightarrow> n = length (reply h ?a) \<and> ?a"
  have "reply_of e reply ?a (reply h ?a)" using a(1) by (auto simp: reply_of_def)
  then have "dialogue (reply_of e reply) (take n (reply h ?a))" by (rule dialogue_end)
  moreover have "reply_of e reply True (take n (reply h ?a))" if keep
    using a(1,3) that by (auto simp: reply_of_def)
  ultimately show ?thesis using a(2) by blast
qed (auto intro: dialogue_end(2))

lemma parse_requests_total:
  assumes c: "consumes (en_api e) (en_exec e)" "advances (en_api e) (en_exec e)"
    and k: "receives (en_kernel e) out left wait" "sends (en_kernel e) out wait" "quiet (en_kernel e) left"
    and h: "\<And>key. \<exists>h. match_handler (en_handlers e) key = Some h \<and> answering_handler h (en_gmtime e) (reply h) S"
    and "conn_bufs (hc_world c) lent buf" "so_stream_oriented (hc_trans c)" "pl_size (w_pool (hc_world c)) = S" "0 < S"
  shows "\<exists>c' buf' lent' said. parse_requests e c buf txn True = Some (Inr (c', buf')) \<and> conn_bufs (hc_world c') lent' buf' \<and>
    besides buf' lent' = besides buf lent \<and> others_same (hc_world c) (besides buf lent) [] (hc_world c') \<and>
    out (so_kernel (hc_trans c')) = out (so_kernel (hc_trans c)) @ said \<and> dialogue (reply_of e reply) said"
  using assms(7-9)
proof (induction "(left (so_kernel (hc_trans c)), rest (hc_world c) buf)" arbitrary: c lent buf txn
    rule: wf_induct_rule [OF wf_lex_prod [OF wf_less_than wf_less_than]])
  case less: 1
  let ?w = "hc_world c"
  obtain w1 buf1 lent1 where 1: "first_buffer c buf = Inr (c\<lparr>hc_world := w1\<rparr>, buf1)" "bufs_inv w1 lent1 buf1"
      "besides buf1 lent1 = besides buf lent" "others_same ?w (besides buf lent) [] w1" "pl_size (w_pool w1) = S" "unread w1 buf1 = rest ?w buf"
    using first_buffer_ok [OF less.prems(1)] less.prems(3) by auto
  let ?c1 = "c\<lparr>hc_world := w1\<rparr>"
  obtain c2 new1 new2 keep where 2: "process_request e ?c1 buf1 txn = Some (Inr (c2, buf1 @ new1 @ new2, keep))"
      "bufs_inv (hc_world c2) (rev (new1 @ new2) @ lent1) (buf1 @ new1 @ new2)" "set (new1 @ new2) \<inter> set lent1 = {}"
      "others_same w1 lent1 buf1 (hc_world c2)" "pl_size (w_pool (hc_world c2)) = S" "same_socket (hc_trans c) (hc_trans c2)"
      "answered e reply (out (so_kernel (hc_trans c))) (out (so_kernel (hc_trans c2))) keep"
      "keep \<longrightarrow> onward left True buf1 ?c1 (new1 @ new2) c2"
    using process_request_total [OF c(1) k(1,2), of ?c1 lent1 buf1 S reply txn] 1(2,5) less.prems(2) assms(10) h k(3) c(2) by auto
  let ?new = "new1 @ new2" and ?lent = "rev (new1 @ new2) @ lent1"
  have b2: "besides (buf1 @ ?new) ?lent = besides buf lent"
  proof -
    have "besides (buf1 @ ?new) (rev ?new) = []" by (auto simp: filter_empty_conv)
    moreover have "besides (buf1 @ ?new) lent1 = besides buf1 lent1" using 2(3) by (intro filter_cong) auto
    ultimately show ?thesis using 1(3) by simp
  qed
  have o2: "others_same ?w (besides buf lent) [] (hc_world c2)"
  proof -
    have "others_same w1 (besides buf1 lent1) [] (hc_world c2)" using 2(4) by (simp add: others_same_def)
    then show ?thesis using 1(4) unfolding 1(3) by (simp add: others_same_def)
  qed
  obtain w3 buf3 lent3 where 3: "release_front (hc_world c2) (buf1 @ ?new) = Inr (w3, buf3)" "conn_bufs w3 lent3 buf3"
      "besides buf3 lent3 = besides buf lent" "others_same (hc_world c2) (besides buf lent) [] w3" "pl_size (w_pool w3) = S"
      "rest w3 buf3 \<le> rest (hc_world c2) (buf1 @ ?new)"
    using release_front_ok [of "hc_world c2" ?lent "buf1 @ ?new"] 2(2,5) b2 by (auto simp: bufs_inv_conn)
  let ?c3 = "c2\<lparr>hc_world := w3\<rparr>"
  have o3: "others_same ?w (besides buf lent) [] w3" using o2 3(4) by (simp add: others_same_def)
  have step: "parse_requests e c buf txn True = parse_requests e ?c3 buf3 (txn + 1) keep"
    using 1(1) 2(1) 3(1) by (subst parse_requests.simps) simp
  obtain t where t: "out (so_kernel (hc_trans c2)) = out (so_kernel (hc_trans c)) @ t" "keep \<longrightarrow> reply_of e reply True t"
      "\<not> keep \<longrightarrow> dialogue (reply_of e reply) t"
    using answered_reply [OF 2(7)] by blast
  show ?case
  proof (cases keep)
    case False
    then have "parse_requests e c buf txn True = Some (Inr (?c3, buf3))" using step by (simp add: parse_requests.simps)
    then show ?thesis using 3(2,3) o3 t False by (intro exI [of _ ?c3] exI [of _ buf3] exI [of _ lent3] exI [of _ t]) simp
  next
    case True
    have "rest w3 buf3 < rest ?w buf" if "new1 @ new2 = []" "unread (hc_world c2) buf1 < unread w1 buf1"
      using that 3(6) 1(2,6) by (auto simp: rest_def bufs_inv_def split: if_splits)
    then have lex: "((left (so_kernel (hc_trans ?c3)), rest (hc_world ?c3) buf3), (left (so_kernel (hc_trans c)), rest ?w buf)) \<in> less_than <*lex*> less_than"
      using 2(8) True by (auto simp: onward_def)
    obtain c' buf' lent' said where IH: "parse_requests e ?c3 buf3 (txn + 1) True = Some (Inr (c', buf'))" "conn_bufs (hc_world c') lent' buf'"
        "besides buf' lent' = besides buf lent" "others_same w3 (besides buf lent) [] (hc_world c')"
        "out (so_kernel (hc_trans c')) = out (so_kernel (hc_trans c2)) @ said" "dialogue (reply_of e reply) said"
      using less.hyps [OF lex, of lent3 "txn + 1"] 3(2,3,5) less.prems(2) stream_same [OF 2(6)] by auto
    have "others_same ?w (besides buf lent) [] (hc_world c')" using o3 IH(4) by (simp add: others_same_def)
    then show ?thesis using step True IH t dialogue_more [of "reply_of e reply" t said]
      by (intro exI [of _ c'] exI [of _ buf'] exI [of _ lent'] exI [of _ "t @ said"]) simp
  qed
qed

lemma conn_parse_total:
  assumes c: "consumes (en_api e) (en_exec e)" "advances (en_api e) (en_exec e)"
    and k: "receives (en_kernel e) out left wait" "sends (en_kernel e) out wait" "quiet (en_kernel e) left"
    and h: "\<And>key. \<exists>h. match_handler (en_handlers e) key = Some h \<and> answering_handler h (en_gmtime e) (reply h) S"
    and p: "pool_inv (lent_state (hc_world c) base)" and so: "so_stream_oriented (hc_trans c)" "pl_size (w_pool (hc_world c)) = S" "0 < S"
  shows "\<exists>c' said. conn_parse e c = Some (Inr c') \<and> pool_inv (lent_state (hc_world c') base) \<and>
    others_same (hc_world c) base [] (hc_world c') \<and> out (so_kernel (hc_trans c')) = out (so_kernel (hc_trans c)) @ said \<and>
    dialogue (reply_of e reply) said"
proof -
  have "conn_bufs (hc_world c) base []" using p by (simp add: conn_bufs_def)
  from parse_requests_total [OF c k h this so, of 0] obtain c1 buf lent said
    where 1: "parse_requests e c [] 0 True = Some (Inr (c1, buf))" "conn_bufs (hc_world c1) lent buf" "besides buf lent = base"
      "others_same (hc_world c) base [] (hc_world c1)" "out (so_kernel (hc_trans c1)) = out (so_kernel (hc_trans c)) @ said"
      "dialogue (reply_of e reply) said"
    by auto
  have b: "pool_inv (lent_state (hc_world c1) lent)" "distinct buf" "set buf \<subseteq> set lent" using 1(2) by (auto simp: conn_bufs_def)
  obtain w where w: "drop_ptrs (hc_world c1) buf [] = Inr w" "pool_inv (lent_state w base)" using drop_ptrs_ok [OF b, of "[]"] 1(3) by auto
  have "others_same (hc_world c1) lent buf w" by (rule drop_ptrs_others [OF b(1) w(1) b(3)])
  then have "others_same (hc_world c) base [] w" using 1(4) by (auto simp: others_same_def 1(3) [symmetric])
  moreover have "conn_parse e c = Some (Inr (c1\<lparr>hc_world := w\<rparr>))" using 1(1) w(1) by (simp add: conn_parse_def)
  ultimately show ?thesis using w(2) 1(5,6) by (intro exI [of _ "c1\<lparr>hc_world := w\<rparr>"] exI [of _ said]) simp
qed

text \<open>With the two sample modules.\<close>

lemma site_connection_ends:
  assumes "consumes (en_api e) (en_exec e)" "advances (en_api e) (en_exec e)"
    and "receives (en_kernel e) out left wait" "sends (en_kernel e) out wait" "quiet (en_kernel e) left"
    and "en_handlers e = site_modules" "date_text (en_gmtime e) = Inr d"
    and "int (length d) + 200 < pl_size (w_pool (hc_world c))" "pl_size (w_pool (hc_world c)) < 2 ^ 31"
    and "pool_inv (lent_state (hc_world c) base)" "so_stream_oriented (hc_trans c)"
  shows "\<exists>c' pages n page. conn_parse e c = Some (Inr c') \<and> pool_inv (lent_state (hc_world c') base) \<and>
    others_same (hc_world c) base [] (hc_world c') \<and> set pages \<subseteq> range (\<lambda>hello. site_reply d hello True) \<and>
    page \<in> range (\<lambda>(hello, alive). site_reply d hello alive) \<and>
    out (so_kernel (hc_trans c')) = out (so_kernel (hc_trans c)) @ concat pages @ take n page"
proof -
  let ?S = "pl_size (w_pool (hc_world c))" and ?reply = "\<lambda>h. site_reply d (mh_name h = ''hello'')"
  have S: "0 < ?S" using assms(8) by simp
  have h: "\<exists>h. match_handler (en_handlers e) key = Some h \<and> answering_handler h (en_gmtime e) (?reply h) ?S" for key
    unfolding assms(6) by (rule site_answers [OF assms(7-9)])
  obtain c' said where 1: "conn_parse e c = Some (Inr c')" "pool_inv (lent_state (hc_world c') base)" "others_same (hc_world c) base [] (hc_world c')"
      "out (so_kernel (hc_trans c')) = out (so_kernel (hc_trans c)) @ said" "dialogue (reply_of e ?reply) said"
    using conn_parse_total [OF assms(1-5) h assms(10,11) refl S] by blast
  have r: "t \<in> range (\<lambda>hello. site_reply d hello alive)" if "reply_of e ?reply alive t" for alive t
    using that by (auto simp: reply_of_def)
  obtain ts t n alive where 2: "\<forall>x \<in> set ts. reply_of e ?reply True x" "said = concat ts @ take n t" "reply_of e ?reply alive t \<or> n = 0"
    using 1(5) by (auto simp: dialogue_def)
  define page where "page = (if n = 0 then site_reply d True True else t)"
  have "page \<in> range (\<lambda>(hello, alive). site_reply d hello alive)" using 2(3) r [of alive t] by (auto simp: page_def)
  moreover have "take n page = take n t" by (simp add: page_def)
  ultimately show ?thesis using 1(1-4) 2(1,2) r [of True]
    by (intro exI [of _ c'] exI [of _ ts] exI [of _ n] exI [of _ page]) auto
qed


lemma sample_advances: "advances sample_api body_exec"
  by (simp add: advances_def body_exec_def)

lemma sample_start: "pool_inv (lent_state (start_world 8192 16384) [])" "pl_size (w_pool (start_world 8192 16384)) = 8192"
  by (rule start_world_inv; simp)+

lemmas sample_contracts = sample_consumes sample_advances sample_receives sample_sends sample_quiet


subsection \<open>Timers\<close>

text \<open>What the coroutine library promises about timers: a new timer is pending under a number no pending
  timer has, and cancelling one makes it not pending, even when it is not. \<open>live\<close> is the map of
  the pending timers.\<close>

definition timers_ok :: "'t timer_api \<Rightarrow> ('t \<Rightarrow> nat \<Rightarrow> timer_cb option) \<Rightarrow> bool" where
  "timers_ok ta live \<longleftrightarrow>
     (\<forall>ts d cb i ts'. ta_add ta ts d cb = (i, ts') \<longrightarrow> live ts i = None \<and> live ts' = (live ts)(i \<mapsto> cb)) \<and>
     (\<forall>ts i. live (ta_cancel ta ts i) = (live ts)(i := None))"

definition timers_inv :: "('t \<Rightarrow> nat \<Rightarrow> timer_cb option) \<Rightarrow> (nat \<Rightarrow> timer_cb option) \<Rightarrow> conid_t \<Rightarrow> ('t, 's) http_connection \<Rightarrow> bool" where
  "timers_inv live base cid c \<longleftrightarrow> hc_connid c = cid \<and>
     (\<forall>j. hc_timer_idle c \<noteq> Some j \<and> hc_timer_life c \<noteq> Some j \<longrightarrow> live (hc_timers c) j = base j) \<and>
     (\<forall>j. hc_timer_idle c = Some j \<or> hc_timer_life c = Some j \<longrightarrow> base j = None) \<and>
     (\<forall>j. hc_timer_life c = Some j \<longrightarrow> live (hc_timers c) j = Some (On_life_expired cid) \<and> hc_timer_idle c \<noteq> Some j) \<and>
     (\<forall>j. hc_timer_idle c = Some j \<longrightarrow> live (hc_timers c) j \<in> {None, Some (On_idle_expired cid)})"

definition idle_off :: "('t \<Rightarrow> nat \<Rightarrow> timer_cb option) \<Rightarrow> ('t, 's) http_connection \<Rightarrow> bool" where
  "idle_off live c \<longleftrightarrow> (\<forall>j. hc_timer_idle c = Some j \<longrightarrow> live (hc_timers c) j = None)"

text \<open>Steps that leave the timers alone.\<close>

definition same_timers :: "('t, 's) http_connection \<Rightarrow> ('t, 's) http_connection \<Rightarrow> bool" where
  "same_timers c c' \<longleftrightarrow> hc_connid c' = hc_connid c \<and> hc_timer_idle c' = hc_timer_idle c \<and> hc_timer_life c' = hc_timer_life c \<and>
     hc_timers c' = hc_timers c"

lemma same_timers_refl [simp]: "same_timers c c" "same_timers c (c\<lparr>hc_world := w\<rparr>)" "same_timers c (c\<lparr>hc_trans := s\<rparr>)"
  by (simp_all add: same_timers_def)

lemma same_timers_trans: "same_timers a b \<Longrightarrow> same_timers b c \<Longrightarrow> same_timers a c"
  by (simp add: same_timers_def)

lemma timers_inv_same: "timers_inv live base cid c \<Longrightarrow> same_timers c c' \<Longrightarrow> timers_inv live base cid c'"
  by (simp add: timers_inv_def same_timers_def)

lemma idle_off_same: "idle_off live c \<Longrightarrow> same_timers c c' \<Longrightarrow> idle_off live c'"
  by (simp add: idle_off_def same_timers_def)

lemma read_more_timers: "read_more e c buf = Some (Inr (c', got)) \<Longrightarrow> same_timers c c'"
  by (auto simp: read_more_def rbind_eq_Inr same_timers_def split: option.splits if_splits)

lemma more_room_timers: "more_room c buf io = Inr (c', buf') \<Longrightarrow> same_timers c c'"
  by (auto simp: more_room_def rbind_eq_Inr split: if_splits)

lemma request_loop_timers:
  assumes "request_loop e completed limit c buf req n = Some (Inr (c', x))"
  shows "same_timers c c'"
proof -
  have "\<forall>c' x. y = Inr (c', x) \<longrightarrow> same_timers c c'" if "request_loop e completed limit c buf req n = Some y" for y
    using that
  proof (rule request_loop.raw_induct [rotated], goal_cases)
    case (1 f e completed limit c buf req n y)
    show ?case
    proof (intro allI impI)
      fix c' x assume y: "y = Inr (c', x)"
      have IH: "same_timers c2 c'" if "f e completed limit c2 b r i = Some y" for c2 b r i using 1(1) [OF that] y by (cases x) simp
      obtain iov iov1 req1 where p: "hp_cells (w_heap (hc_world c)) (ptr_addr (last buf)) = Some iov"
          "codec_parse (en_api e) (en_sort e) (en_exec e) (bufs_mem (hc_world c) buf) (ptr_addr (last buf) + sizeof_iobuf) iov req = Some (iov1, req1)"
        using 1(2) y by (auto split: option.splits)
      let ?c1 = "hc_write_cell c (ptr_addr (last buf)) iov1"
      have w: "same_timers c ?c1" by (simp add: same_timers_def)
      show "same_timers c c'"
      proof (cases "req_error (en_api e) req1 \<noteq> HPE_OK \<or> completed req1")
        case True
        then show ?thesis using 1(2) y p by (auto simp: same_timers_def split: if_splits)
      next
        case False
        then obtain c2 buf2 c3 got where m: "more_room ?c1 buf iov1 = Inr (c2, buf2)" "read_more e c2 buf2 = Some (Inr (c3, got))"
          and r: "(case got of None \<Rightarrow> Some (Inr (c3, buf2, req1, False)) | Some k \<Rightarrow> if size_of_int (cint (n + int k)) > limit
              then Some (Inr (c3, buf2, req1, False)) else f e completed limit c3 buf2 req1 (cint (n + int k))) = Some y"
          using 1(2) y p by (auto simp: pbind_eq_Inr)
        have s: "same_timers c c3" using same_timers_trans [OF w same_timers_trans [OF more_room_timers [OF m(1)] read_more_timers [OF m(2)]]] .
        show ?thesis
        proof (cases "c' = c3")
          case no: False
          then obtain k where "f e completed limit c3 buf2 req1 (cint (n + int k)) = Some y"
            using r y by (auto split: option.splits if_splits)
          from same_timers_trans [OF s IH [OF this]] show ?thesis .
        qed (use s in simp)
      qed
    qed
  qed
  then show ?thesis using assms by blast
qed

lemma start_timer_inv:
  assumes ok: "timers_ok (en_timer e) live" and inv: "timers_inv live base cid c"
  shows "timers_inv live base cid (start_timer e c)"
proof -
  let ?c = "pause_timer e c"
  obtain i ts where add: "ta_add (en_timer e) (hc_timers ?c) (op_timer_idle (en_option e)) (On_idle_expired (hc_connid ?c)) = (i, ts)" by fastforce
  have new: "live (hc_timers ?c) i = None" "live ts = (live (hc_timers ?c))(i \<mapsto> On_idle_expired cid)"
    using ok add inv unfolding timers_ok_def timers_inv_def by (metis timer_fields(3))+
  have st: "start_timer e c = ?c\<lparr>hc_timer_idle := Some i, hc_timers := ts\<rparr>" using add by (simp add: start_timer_def Let_def)
  have p: "hc_timer_life ?c = hc_timer_life c" "hc_timer_idle ?c = hc_timer_idle c"
    "live (hc_timers ?c) j = (if hc_timer_idle c = Some j then None else live (hc_timers c) j)" for j
    using ok by (auto simp: pause_timer_def timers_ok_def split: option.splits)
  have i: "hc_timer_life c \<noteq> Some i" "base i = None"
    using inv new(1) p(3) [of i] by (auto simp: timers_inv_def split: if_splits)
  show ?thesis using inv unfolding st timers_inv_def by (simp add: p new(2) i)
qed

lemma pause_timer_inv:
  assumes ok: "timers_ok (en_timer e) live" and inv: "timers_inv live base cid c"
  shows "timers_inv live base cid (pause_timer e c)" "idle_off live (pause_timer e c)"
  using assms by (auto simp: pause_timer_def timers_inv_def timers_ok_def idle_off_def split: option.splits)

lemma call_handler_timers: "call_handler e mh ev sel tag t req c rsp = Inr (c', rsp') \<Longrightarrow> same_timers c c'"
  by (auto simp: call_handler_def rbind_eq_Inr same_timers_def split: option.splits if_splits)

lemma leave_request_timers: "leave_request c buf rsp keep = Inr (c', buf', keep') \<Longrightarrow> same_timers c c' \<and> keep' = keep"
  by (auto simp: leave_request_def rbind_eq_Inr)

lemma send_response_timers: "send_response e c rsp = Some (Inr (c', x)) \<Longrightarrow> same_timers c c'"
  by (auto simp: send_response_def pbind_eq_Inr same_timers_def)

lemma answer_request_timers:
  assumes ok: "timers_ok (en_timer e) live" and inv: "timers_inv live base cid c"
    and a: "answer_request e c buf rsp = Some (Inr (c', buf', keep))"
  shows "timers_inv live base cid c' \<and> idle_off live c'"
proof -
  obtain c1 n ec where 1: "send_response e (start_timer e c) rsp = Some (Inr (c1, n, ec))"
      "leave_request (pause_timer e c1) buf rsp (ec = No_error \<and> resp_is_keep_alive rsp) = Inr (c', buf', keep)"
    using a by (auto simp: answer_request_def pbind_eq_Inr)
  have "timers_inv live base cid c1" by (rule timers_inv_same [OF start_timer_inv [OF ok inv] send_response_timers [OF 1(1)]])
  note pause_timer_inv [OF ok this]
  then show ?thesis using leave_request_timers [OF 1(2)] timers_inv_same idle_off_same by blast
qed

lemma process_body_timers:
  assumes ok: "timers_ok (en_timer e) live" and inv: "timers_inv live base cid c"
    and a: "process_body e mh t c buf req rsp = Some (Inr (c', buf', keep))"
  shows "timers_inv live base cid c' \<and> (keep \<longrightarrow> idle_off live c')"
proof -
  obtain c1 buf1 req1 got where 1: "body_loop e (start_timer e c) buf req = Some (Inr (c1, buf1, req1, got))"
    using a by (auto simp: process_body_def pbind_eq_Inr)
  have t1: "timers_inv live base cid c1"
    using timers_inv_same [OF start_timer_inv [OF ok inv]] request_loop_timers 1 unfolding body_loop_def by blast
  show ?thesis
  proof (cases got)
    case False
    then have "leave_request c1 buf1 rsp False = Inr (c', buf', keep)" using a 1 by (simp add: process_body_def)
    then show ?thesis using leave_request_timers t1 timers_inv_same by blast
  next
    case True
    then obtain c2 rsp2 where 2: "call_handler e mh HE_REQUEST_BODY mh_on_request_body On_request_body t req1 (pause_timer e c1) rsp = Inr (c2, rsp2)"
        "answer_request e c2 buf1 rsp2 = Some (Inr (c', buf', keep))"
      using a 1 by (auto simp: process_body_def pbind_eq_Inr)
    have "timers_inv live base cid c2" by (rule timers_inv_same [OF pause_timer_inv(1) [OF ok t1] call_handler_timers [OF 2(1)]])
    then show ?thesis using answer_request_timers [OF ok _ 2(2)] by blast
  qed
qed

lemma process_request_timers:
  assumes ok: "timers_ok (en_timer e) live" and inv: "timers_inv live base cid c"
    and a: "process_request e c buf t = Some (Inr (c', buf', keep))"
  shows "timers_inv live base cid c' \<and> (keep \<longrightarrow> idle_off live c')"
proof -
  obtain w rsp c1 buf1 req1 got where 1: "header_loop e (start_timer e (c\<lparr>hc_world := w\<rparr>)) buf (req_make (en_api e) (en_urldata e)) = Some (Inr (c1, buf1, req1, got))"
    and r: "(if \<not> got then Some (leave_request c1 buf1 rsp False) else let mh = match_handler (en_handlers e) (path_data req1) in
       pbind (Some (call_handler e mh HE_REQUEST_HDR mh_on_request_header On_request_header t req1 (pause_timer e c1) rsp))
         (\<lambda>(c2, rsp2). process_body e mh t c2 buf1 req1 rsp2)) = Some (Inr (c', buf', keep))"
    using a by (auto simp: process_request_def pbind_eq_Inr split: if_splits)
  have "timers_inv live base cid (c\<lparr>hc_world := w\<rparr>)" by (rule timers_inv_same [OF inv]) simp
  from timers_inv_same [OF start_timer_inv [OF ok this]] have t1: "timers_inv live base cid c1"
    using request_loop_timers 1 unfolding header_loop_def by blast
  show ?thesis
  proof (cases got)
    case False
    then show ?thesis using r leave_request_timers [of c1 buf1 rsp False c' buf' keep] t1 timers_inv_same [of live base cid c1 c'] by auto
  next
    case True
    then obtain mh c2 rsp2 where 2: "call_handler e mh HE_REQUEST_HDR mh_on_request_header On_request_header t req1 (pause_timer e c1) rsp = Inr (c2, rsp2)"
        "process_body e mh t c2 buf1 req1 rsp2 = Some (Inr (c', buf', keep))"
      using r by (auto simp: pbind_eq_Inr Let_def)
    have "timers_inv live base cid c2" by (rule timers_inv_same [OF pause_timer_inv(1) [OF ok t1] call_handler_timers [OF 2(1)]])
    then show ?thesis using process_body_timers [OF ok _ 2(2)] by blast
  qed
qed

lemma parse_requests_timers:
  assumes "parse_requests e c buf t keep = Some (Inr (c', buf'))" "timers_ok (en_timer e) live" "timers_inv live base cid c"
  shows "timers_inv live base cid c'"
proof -
  have "\<forall>c' b. y = Inr (c', b) \<longrightarrow> timers_ok (en_timer e) live \<longrightarrow> timers_inv live base cid c \<longrightarrow> timers_inv live base cid c'"
    if "parse_requests e c buf t keep = Some y" for y
    using that
  proof (rule parse_requests.raw_induct [rotated], goal_cases)
    case (1 f e c buf t keep y)
    show ?case
    proof (intro allI impI)
      fix c' b assume y: "y = Inr (c', b)" and ok: "timers_ok (en_timer e) live" and inv: "timers_inv live base cid c"
      show "timers_inv live base cid c'"
      proof (cases keep)
        case False
        then show ?thesis using 1(2) y inv by simp
      next
        case True
        then obtain c1 buf1 c2 buf2 keep2 w buf3 where s: "first_buffer c buf = Inr (c1, buf1)"
            "process_request e c1 buf1 t = Some (Inr (c2, buf2, keep2))" "f e (c2\<lparr>hc_world := w\<rparr>) buf3 (t + 1) keep2 = Some y"
          using 1(2) y by (auto simp: pbind_eq_Inr)
        have "same_timers c c1" using s(1) by (auto simp: first_buffer_def rbind_eq_Inr split: if_splits)
        then have "timers_inv live base cid c2" using process_request_timers [OF ok _ s(2)] timers_inv_same [OF inv] by blast
        then have "timers_inv live base cid (c2\<lparr>hc_world := w\<rparr>)" by (rule timers_inv_same) simp
        then show ?thesis using 1(1) [OF s(3)] y ok by blast
      qed
    qed
  qed
  then show ?thesis using assms by blast
qed

lemma conn_make_timers:
  assumes ok: "timers_ok (en_timer e) live" and m: "conn_make e peer w s ts calls cid = Inr c"
  shows "timers_inv live (live ts) cid c"
proof (cases "op_timer_life (en_option e) = - 1")
  case True
  then show ?thesis using m by (auto simp: conn_make_def Let_def timers_inv_def split: if_splits)
next
  case False
  obtain i ts1 where add: "ta_add (en_timer e) ts (op_timer_life (en_option e)) (On_life_expired cid) = (i, ts1)" by fastforce
  then have "live ts i = None" "live ts1 = (live ts)(i \<mapsto> On_life_expired cid)"
    using ok unfolding timers_ok_def by metis+
  then show ?thesis using m False add by (auto simp: conn_make_def Let_def timers_inv_def split: if_splits)
qed

lemma conn_destroy_timers:
  assumes ok: "timers_ok (en_timer e) live" and inv: "timers_inv live base cid c"
  shows "live (hc_timers (conn_destroy e c)) = base"
proof (rule ext)
  fix j
  have cancel: "live (ta_cancel (en_timer e) ts i) = (live ts)(i := None)" for ts i using ok by (simp add: timers_ok_def)
  show "live (hc_timers (conn_destroy e c)) j = base j" using inv
    by (auto simp: conn_destroy_def clear_timer_def Let_def cancel timers_inv_def split: option.splits)
qed

text \<open>The timers of a connection end with it: from the constructor to the destructor, whatever the
  requests were, no timer is left pending that was not pending before, and none of the others is
  cancelled. Between requests the idle timer is off; every timer a connection adds is one of its own two.\<close>

theorem connection_timers:
  assumes "timers_ok (en_timer e) live" "conn_make e peer w s ts calls cid = Inr c" "conn_parse e c = Some (Inr c')"
  shows "live (hc_timers (conn_destroy e c')) = live ts \<and>
    (\<forall>j cb. live (hc_timers c') j = Some cb \<longrightarrow> live ts j = Some cb \<or> cb \<in> {On_idle_expired cid, On_life_expired cid}) \<and>
    (\<forall>c1 buf t c2 buf2. timers_inv live (live ts) cid c1 \<longrightarrow> process_request e c1 buf t = Some (Inr (c2, buf2, True)) \<longrightarrow> idle_off live c2)"
proof -
  note m = conn_make_timers [OF assms(1,2)]
  obtain c1 buf v where 1: "parse_requests e c [] 0 True = Some (Inr (c1, buf))" "c' = c1\<lparr>hc_world := v\<rparr>"
    using assms(3) by (auto simp: conn_parse_def pbind_eq_Inr rbind_eq_Inr)
  have inv: "timers_inv live (live ts) cid c'"
    using timers_inv_same [OF parse_requests_timers [OF 1(1) assms(1) m]] 1(2) by simp
  have "live ts j = Some cb \<or> cb \<in> {On_idle_expired cid, On_life_expired cid}" if "live (hc_timers c') j = Some cb" for j cb
    using inv that unfolding timers_inv_def by (cases "hc_timer_idle c' = Some j \<or> hc_timer_life c' = Some j") auto
  moreover have "idle_off live c2" if "timers_inv live (live ts) cid c1" "process_request e c1 buf t = Some (Inr (c2, buf2, True))" for c1 buf t c2 buf2
    using process_request_timers [OF assms(1) that] by blast
  ultimately show ?thesis using conn_destroy_timers [OF assms(1) inv] by blast
qed

lemma sample_timers_ok: "timers_ok sample_timer (\<lambda>(n, ts) i. if i < n then map_of ts i else None)"
proof -
  have drop_id: "map_of (filter (\<lambda>(j, _). j \<noteq> i) ts) = (map_of ts)(i := None)" for i and ts :: "(nat \<times> timer_cb) list"
    by (induction ts) (auto simp: fun_eq_iff)
  show ?thesis by (auto simp: timers_ok_def sample_timer_def fun_eq_iff drop_id)
qed

theorem connection_timers_witness:
  "\<exists>c c'. conn_make sample_env True (start_world 8192 16384) (sample_socket [''GET /'']) (0, []) [] 1 = Inr c \<and>
     conn_parse sample_env c = Some (Inr c') \<and>
     (\<lambda>(n, ts) i. if i < n then map_of ts i else None) (hc_timers (conn_destroy sample_env c')) = (\<lambda>_. None)"
proof -
  let ?live = "\<lambda>(n, ts) i. if i < n then map_of ts i else None"
  obtain c where c: "conn_make sample_env True (start_world 8192 16384) (sample_socket [''GET /'']) (0, []) [] 1 = Inr c"
    by (rule exE [OF conn_make_peer])
  then have f: "hc_world c = start_world 8192 16384" "hc_trans c = sample_socket [''GET /'']"
    by (auto simp: conn_make_def Let_def split: prod.splits if_splits)
  have S: "pl_size (w_pool (hc_world c)) = 8192" using f sample_start(2) by simp
  have h: "\<exists>h. match_handler (en_handlers sample_env) key = Some h \<and>
      answering_handler h (en_gmtime sample_env) (site_reply (''Date: Fri, 30 Sep 2016 09:05:00 GMT'' @ crlf) (mh_name h = ''hello'')) 8192" for key
    using site_answers [OF test_date, of 8192 key] by (simp add: crlf_def)
  obtain c' where c': "conn_parse sample_env c = Some (Inr c')"
    using conn_parse_total [of sample_env fst "\<lambda>s. length (snd s) + length (concat (snd s))" "\<lambda>_. 0", OF _ _ _ _ _ h, of c "[]"]
      sample_contracts f S sample_start(1) by (auto simp: sample_socket_def)
  have "?live (hc_timers (conn_destroy sample_env c')) = ?live (0, [])"
    using connection_timers [OF _ c c', of ?live] sample_timers_ok by simp
  then show ?thesis using c c' by (auto simp: fun_eq_iff)
qed

end
