(* ===== verification/Cohttp.thy ===== *)
theory Cohttp
  imports Server_Life
begin

text \<open>
  The program (\<^verbatim>\<open>src/src/cohttp.cpp\<close>, \<^verbatim>\<open>src/src/cohttp.hpp\<close>): the log file, \<open>main\<close>, the fork of the
  workers and their supervision.

  What the operating system answers is in the record \<open>main_os\<close>. A process is named by the list of
  the loop counters at which its ancestors and it were forked. The child of \<open>do_fork\<close> serves in
  \<open>RunLoop\<close> and never returns, or its setup throws and it returns to the caller like its parent.
\<close>

subsection \<open>Log files\<close>

datatype sink = File_sink string | Console_sink

record logger =
  lg_name :: string
  lg_sinks :: "sink list"

text \<open>\<open>snprintf(name, 64, "%s/cohttpd-%d", file, getpid())\<close>.\<close>

definition log_name :: "string \<Rightarrow> int \<Rightarrow> string" where
  "log_name file pid = c_str (snprintf_text 64 (c_str file @ ''/cohttpd-'' @ fmt_d pid))"

text \<open>\<open>mkdir\<close> says whether \<open>create_directory\<close> succeeds.\<close>

definition initlog :: "(string \<Rightarrow> bool) \<Rightarrow> int \<Rightarrow> string \<Rightarrow> bool \<Rightarrow> logger res" where
  "initlog mkdir pid file enable_console = (if \<not> mkdir file then Inl (System_error ''create_directory'')
     else Inr \<lparr>lg_name = log_name file pid,
       lg_sinks = File_sink (log_name file pid) # (if enable_console then [Console_sink] else [])\<rparr>)"

subsection \<open>Forking the workers\<close>

type_synonym proc = "nat list"

datatype child_fate = Serves | Throws

datatype fork_result = Fork_failed | Forked child_fate

datatype role = Master | Worker

text \<open>The processes that stay in \<open>do_fork\<close>, and those that return from it.\<close>

definition do_fork :: "fork_result \<Rightarrow> proc \<Rightarrow> nat \<Rightarrow> proc list \<times> proc list" where
  "do_fork r me i = (case r of
       Fork_failed \<Rightarrow> ([], [me])
     | Forked Serves \<Rightarrow> ([me @ [i]], [me])
     | Forked Throws \<Rightarrow> ([], [me, me @ [i]]))"

text \<open>The loop over \<open>do_fork\<close> with \<open>k\<close> rounds left, for every process that runs it: the workers, and the
  processes that leave the loop.\<close>

fun fork_loop :: "(proc \<Rightarrow> nat \<Rightarrow> fork_result) \<Rightarrow> nat \<Rightarrow> nat \<Rightarrow> proc \<Rightarrow> proc list \<times> proc list" where
  "fork_loop f i 0 me = ([], [me])"
| "fork_loop f i (Suc k) me = (let (serving, back) = do_fork (f me i) me i;
       outs = map (\<lambda>p. fork_loop f (Suc i) k p) back
     in (serving @ concat (map fst outs), concat (map snd outs)))"

subsection \<open>The child\<close>

text \<open>What a child of \<open>do_fork\<close> runs: the modules are loaded, the service is set up with a pool of its
  own and started.\<close>

definition child_env :: "('p, 't, 's) env \<Rightarrow> options \<Rightarrow> bool \<Rightarrow> 'p module_handler directory \<Rightarrow> ('p, 't, 's) env" where
  "child_env e opt config dir = e\<lparr>en_handlers := modules_setup mh_path config dir no_modules, en_option := opt\<rparr>"

definition child_run :: "('p, 't, 's) env \<Rightarrow> 'k sem_api \<Rightarrow> semops \<Rightarrow> options \<Rightarrow> bool \<Rightarrow> 'p module_handler directory \<Rightarrow> int
    \<Rightarrow> heap \<Rightarrow> 't \<Rightarrow> 'k \<Rightarrow> 's accept_result list \<Rightarrow> ('t, 's, 'k) http_service res" where
  "child_run e sapi sem opt config dir pid h ts k rs =
     service_start (child_env e opt config dir) sapi sem pid rs (service_setup opt h ts k)"

subsection \<open>The main program\<close>

record main_os =
  os_mkdir :: "string \<Rightarrow> bool"
  os_pid :: int
  os_open :: bool
  os_getsockopt_reuseport :: "int option"
  os_setsockopt_reuseport :: bool
  os_bind :: "int \<Rightarrow> bool"
  os_listen :: bool
  os_fork :: "proc \<Rightarrow> nat \<Rightarrow> fork_result"

definition reuse_port_setup :: "main_os \<Rightarrow> options \<Rightarrow> options" where
  "reuse_port_setup os opt = (if op_reuse_port opt \<noteq> 0
     then (case os_getsockopt_reuseport os of
         None \<Rightarrow> opt\<lparr>op_reuse_port := 0\<rparr>
       | Some v \<Rightarrow> if os_setsockopt_reuseport os then opt\<lparr>op_reuse_port := 1\<rparr> else opt\<lparr>op_reuse_port := 0\<rparr>)
     else opt)"

datatype main_exn = Yaml_exn yaml_exn | Exn error

datatype main_result = Uncaught main_exn | Return_0 | Running "(proc \<times> role) list"

text \<open>Without an argument \<open>argv[1]\<close> is a null pointer. Only errors of \<open>bind\<close>, \<open>listen\<close> and what follows are
  caught; those of the configuration, the log, the semaphore and \<open>open\<close> are not. The setting of the
  limit on file handles and of \<open>TCP_FASTOPEN\<close> may fail without any effect on the rest.\<close>

definition main_cohttp :: "'y yaml_api \<Rightarrow> main_os \<Rightarrow> 'k sem_api \<Rightarrow> 'k \<Rightarrow> string option \<Rightarrow> main_result" where
  "main_cohttp api os sapi k argv1 = (case argv1 of None \<Rightarrow> Uncaught (Exn Null_pointer) | Some config \<Rightarrow>
     (case load_config api config of Inl x \<Rightarrow> Uncaught (Yaml_exn x) | Inr opt0 \<Rightarrow>
     (case initlog (os_mkdir os) (os_pid os) (cl_path (op_logger opt0)) (cl_cout (op_logger opt0)) of Inl x \<Rightarrow> Uncaught (Exn x) | Inr clog \<Rightarrow>
     (case semops_make sapi k 1 of Inl x \<Rightarrow> Uncaught (Exn x) | Inr (k1, sem) \<Rightarrow>
     if \<not> os_open os then Uncaught (Exn (System_error ''open''))
     else let opt = reuse_port_setup os opt0 in
       if \<not> os_bind os (op_serve_port opt) \<or> \<not> os_listen os then Return_0
       else let (workers, masters) = fork_loop (os_fork os) 0 (nat (op_process opt)) [] in
         Running (map (\<lambda>p. (p, Worker)) workers @ map (\<lambda>p. (p, Master)) masters)))))"

subsection \<open>Supervision\<close>

text \<open>The children of the master: running ones, and exited ones it has not waited for.\<close>

record supervisor =
  sp_workers :: "nat list"
  sp_exited :: "nat list"

text \<open>\<open>waitpid(-1, NULL, WNOHANG)\<close>.\<close>

definition waitpid_nohang :: "supervisor \<Rightarrow> int \<times> supervisor" where
  "waitpid_nohang s = (case sp_exited s of
       [] \<Rightarrow> (if sp_workers s = [] then - 1 else 0, s)
     | p # ps \<Rightarrow> (int p, s\<lparr>sp_exited := ps\<rparr>))"

function reap_loop :: "supervisor \<Rightarrow> nat \<Rightarrow> supervisor \<times> nat" where
  "reap_loop s found = (let (pid, s') = waitpid_nohang s in if pid > 0 then reap_loop s' (Suc found) else (s', found))"
  by pat_completeness auto
termination
  by (relation "measure (\<lambda>(s, _). length (sp_exited s))") (auto simp: waitpid_nohang_def split: list.splits if_splits)

declare reap_loop.simps [simp del]

text \<open>\<open>fork\<close> returns the number of the child to the master, or -1.\<close>

fun refork_loop :: "(nat \<Rightarrow> int) \<Rightarrow> nat \<Rightarrow> nat \<Rightarrow> supervisor \<Rightarrow> supervisor" where
  "refork_loop rc i 0 s = s"
| "refork_loop rc i (Suc k) s = refork_loop rc (Suc i) k
     (if rc i > 0 then s\<lparr>sp_workers := sp_workers s @ [nat (rc i)]\<rparr> else s)"

definition check_alive :: "(nat \<Rightarrow> int) \<Rightarrow> supervisor \<Rightarrow> supervisor" where
  "check_alive rc s = (let (s1, found) = reap_loop s 0 in refork_loop rc 0 found s1)"

text \<open>Workers exit at any time; the timer runs \<open>check\<close> every five seconds.\<close>

inductive sup_step :: "supervisor \<Rightarrow> supervisor \<Rightarrow> bool" where
  worker_exits: "p \<in> set (sp_workers s) \<Longrightarrow> sup_step s (s\<lparr>sp_workers := remove1 p (sp_workers s), sp_exited := sp_exited s @ [p]\<rparr>)"
| checks: "sup_step s (check_alive rc s)"

inductive_cases sup_stepE: "sup_step s s'"

definition sup_ok :: "supervisor \<Rightarrow> bool" where
  "sup_ok s \<longleftrightarrow> 0 \<notin> set (sp_workers s) \<and> 0 \<notin> set (sp_exited s)"

abbreviation children :: "supervisor \<Rightarrow> nat" where
  "children s \<equiv> length (sp_workers s) + length (sp_exited s)"

subsection \<open>Lemmas on supervision\<close>

lemma reap_loop_all: "0 \<notin> set (sp_exited s) \<Longrightarrow> reap_loop s n = (s\<lparr>sp_exited := []\<rparr>, n + length (sp_exited s))"
proof (induction s n rule: reap_loop.induct)
  case (1 s n)
  show ?case
  proof (cases "sp_exited s")
    case Nil
    have "s\<lparr>sp_exited := []\<rparr> = s" using Nil by simp
    then show ?thesis using Nil by (subst reap_loop.simps) (simp add: waitpid_nohang_def)
  next
    case (Cons p ps)
    then have "waitpid_nohang s = (int p, s\<lparr>sp_exited := ps\<rparr>)" "0 < int p" using 1(2) by (auto simp: waitpid_nohang_def)
    then show ?thesis using 1(1) [of "(int p, s\<lparr>sp_exited := ps\<rparr>)" "int p" "s\<lparr>sp_exited := ps\<rparr>"] 1(2) Cons
      by (subst reap_loop.simps) simp
  qed
qed

lemma refork_loop_workers:
  "sp_exited (refork_loop rc i k s) = sp_exited s \<and> sp_workers (refork_loop rc i k s) = sp_workers s @
     map (\<lambda>j. nat (rc j)) (filter (\<lambda>j. rc j > 0) [i..<i + k])"
proof (induction rc i k s rule: refork_loop.induct)
  case (2 rc i k s)
  have "[i..<i + Suc k] = i # [Suc i..<Suc i + k]" by (simp add: upt_conv_Cons)
  then show ?case using 2 by (simp del: upt_Suc)
qed simp

lemma check_alive_eq:
  assumes "sup_ok s"
  shows "sp_exited (check_alive rc s) = [] \<and> sp_workers (check_alive rc s) = sp_workers s @
    map (\<lambda>j. nat (rc j)) (filter (\<lambda>j. rc j > 0) [0..<length (sp_exited s)])"
proof -
  have "reap_loop s 0 = (s\<lparr>sp_exited := []\<rparr>, length (sp_exited s))" using reap_loop_all [of s 0] assms by (simp add: sup_ok_def)
  then show ?thesis using refork_loop_workers [of rc 0 "length (sp_exited s)" "s\<lparr>sp_exited := []\<rparr>"] by (simp add: check_alive_def)
qed

lemma sup_step_ok: "sup_step s s' \<Longrightarrow> sup_ok s \<Longrightarrow> sup_ok s' \<and> children s' \<le> children s"
proof (erule sup_stepE)
  fix p
  assume "sup_ok s" "p \<in> set (sp_workers s)" "s' = s\<lparr>sp_workers := remove1 p (sp_workers s), sp_exited := sp_exited s @ [p]\<rparr>"
  moreover from this have "0 < length (sp_workers s)" "0 < p" by (cases "sp_workers s", auto simp: sup_ok_def intro: gr0I)
  ultimately show ?thesis by (auto simp: sup_ok_def length_remove1 dest: notin_set_remove1)
next
  fix rc
  assume s: "sup_ok s" "s' = check_alive rc s"
  have "length (filter (\<lambda>j. rc j > 0) [0..<length (sp_exited s)]) \<le> length (sp_exited s)"
    using length_filter_le [of "\<lambda>j. rc j > 0" "[0..<length (sp_exited s)]"] by simp
  then show ?thesis using check_alive_eq [OF s(1), of rc] s by (auto simp: sup_ok_def)
qed

subsection \<open>Properties\<close>

text \<open>C28: supervision. From any state, the number of children, running or waiting to be reaped, never
  grows, so a worker whose replacement could not be forked is lost for good. When no \<open>fork\<close> fails,
  \<open>check\<close> leaves nothing to reap and exactly as many running workers as there were children before.\<close>

theorem supervisor_workers:
  assumes "sup_step\<^sup>*\<^sup>* s s'" "sup_ok s"
  shows "children s' \<le> children s \<and> sp_exited (check_alive rc s') = [] \<and>
    ((\<forall>i. 0 < rc i) \<longrightarrow> length (sp_workers (check_alive rc s')) = children s')"
proof -
  have ok: "sup_ok s' \<and> children s' \<le> children s" using assms
    by (induction rule: rtranclp_induct) (use sup_step_ok order_trans in blast)+
  then show ?thesis using check_alive_eq [of s' rc] by simp
qed

theorem supervisor_workers_witness:
  "\<exists>s'. sup_step\<^sup>*\<^sup>* \<lparr>sp_workers = [7, 8], sp_exited = []\<rparr> s' \<and> sp_exited s' = [8] \<and>
    length (sp_workers (check_alive (\<lambda>i. 100 + int i) s')) = 2"
proof -
  let ?s = "\<lparr>sp_workers = [7, 8], sp_exited = []\<rparr>" and ?s' = "\<lparr>sp_workers = [7], sp_exited = [8]\<rparr>"
  have st: "sup_step ?s ?s'" using worker_exits [of 8 ?s] by simp
  have "sup_ok ?s" by (simp add: sup_ok_def)
  from supervisor_workers [OF r_into_rtranclp [of sup_step, OF st] this, of "\<lambda>i. 100 + int i"]
  have "length (sp_workers (check_alive (\<lambda>i. 100 + int i) ?s')) = 2" by simp
  then show ?thesis using st by (intro exI [of _ ?s']) auto
qed

subsection \<open>The processes\<close>

lemma fork_loop_serves:
  assumes "\<And>p i. f p i = Forked Serves"
  shows "fork_loop f i k me = (map (\<lambda>j. me @ [j]) [i..<i + k], [me])"
proof (induction k arbitrary: i)
  case (Suc k)
  have "[i..<i + Suc k] = i # [Suc i..<Suc i + k]" by (simp add: upt_conv_Cons)
  then show ?case using Suc by (simp add: assms do_fork_def del: upt_Suc)
qed simp

lemma fork_loop_throws:
  assumes "\<And>p i. f p i = Forked Throws"
  shows "fst (fork_loop f i k me) = [] \<and> length (snd (fork_loop f i k me)) = 2 ^ k"
  by (induction k arbitrary: i me) (simp_all add: assms do_fork_def)

lemma reuse_port_off: "op_reuse_port opt = 0 \<Longrightarrow> reuse_port_setup os opt = opt"
  by (simp add: reuse_port_setup_def)

lemma load_config_reuse: "load_config api file = Inr opt \<Longrightarrow> op_reuse_port opt = 0"
proof -
  obtain opt1 exn where r: "(case ya_load api file of Inl e \<Rightarrow> (default_options, Some e)
      | Inr config \<Rightarrow> read_config api config default_options) = (opt1, exn)" by fastforce
  have "cl_cout (op_logger default_options) \<and> op_reuse_port default_options = 0" by (simp add: default_options_def)
  then have "op_reuse_port opt1 = 0"
    using r keeps_run [OF read_config_keeps, of api _ default_options opt1 exn] by (auto split: sum.splits)
  then show "op_reuse_port opt = 0" if "load_config api file = Inr opt"
    using r that by (auto simp: load_config_def split: option.splits if_splits)
qed

text \<open>C27: the processes of a server that has bound its port. When every child serves there are exactly
  the configured workers, each forked by the one master. When the setup of every child throws, each
  child goes on in the loop that forked it: there are \<open>2 ^ n\<close> processes for \<open>n\<close> configured workers,
  all of them masters and none serving. The options are those of the configuration file.\<close>

theorem prefork_processes:
  assumes "main_cohttp api os sapi k (Some config) = Running ps" "load_config api config = Inr opt"
  shows "((\<forall>p i. os_fork os p i = Forked Serves) \<longrightarrow>
      ps = map (\<lambda>i. ([i], Worker)) [0..<nat (op_process opt)] @ [([], Master)]) \<and>
    ((\<forall>p i. os_fork os p i = Forked Throws) \<longrightarrow> length ps = 2 ^ nat (op_process opt) \<and> snd ` set ps = {Master}) \<and>
    reuse_port_setup os opt = opt"
proof -
  let ?n = "nat (op_process opt)"
  have same: "reuse_port_setup os opt = opt" by (rule reuse_port_off [OF load_config_reuse [OF assms(2)]])
  obtain ws ms where f: "fork_loop (os_fork os) 0 ?n [] = (ws, ms)" by fastforce
  then have ps: "ps = map (\<lambda>p. (p, Worker)) ws @ map (\<lambda>p. (p, Master)) ms"
    using assms same by (auto simp: main_cohttp_def Let_def split: sum.splits prod.splits if_splits)
  have "ps = map (\<lambda>i. ([i], Worker)) [0..<?n] @ [([], Master)]" if "\<forall>p i. os_fork os p i = Forked Serves"
    using fork_loop_serves [of "os_fork os" 0 ?n "[]"] that f ps by simp
  moreover have "length ps = 2 ^ ?n \<and> snd ` set ps = {Master}" if "\<forall>p i. os_fork os p i = Forked Throws"
  proof -
    have w: "ws = []" "length ms = 2 ^ ?n" using fork_loop_throws [of "os_fork os" 0 ?n "[]"] that f by simp_all
    then have "ms \<noteq> []" by auto
    then have "(\<lambda>p. Master) ` set ms = {Master}" by (simp add: image_constant_conv)
    then show ?thesis using w ps by (simp add: image_image)
  qed
  ultimately show ?thesis using same by blast
qed

definition sample_os :: "child_fate \<Rightarrow> main_os" where
  "sample_os fate = \<lparr>os_mkdir = (\<lambda>_. True), os_pid = 100, os_open = True, os_getsockopt_reuseport = None, os_setsockopt_reuseport = False,
     os_bind = (\<lambda>_. True), os_listen = True, os_fork = (\<lambda>_ _. Forked fate)\<rparr>"

theorem prefork_processes_witness:
  "main_cohttp (tree_yaml sample_yaml) (sample_os Serves) list_kernel [] (Some []) = Running [([0], Worker), ([1], Worker), ([], Master)] \<and>
   (\<exists>ps. main_cohttp (tree_yaml sample_yaml) (sample_os Throws) list_kernel [] (Some []) = Running ps \<and> length ps = 4)"
proof -
  have l: "load_config (tree_yaml sample_yaml) [] = Inr default_options"
    by (simp add: load_config_def tree_yaml_def caught_def)
  have "\<exists>ps. main_cohttp (tree_yaml sample_yaml) (sample_os fate) list_kernel [] (Some []) = Running ps" for fate
    by (simp add: main_cohttp_def l sample_os_def initlog_def semops_make_def list_kernel_def Let_def split: prod.splits)
  then obtain ps qs where r: "main_cohttp (tree_yaml sample_yaml) (sample_os Serves) list_kernel [] (Some []) = Running ps"
      "main_cohttp (tree_yaml sample_yaml) (sample_os Throws) list_kernel [] (Some []) = Running qs" by metis
  have n: "nat (op_process default_options) = 2" by (simp add: default_options_def)
  have "[0..<2] = [0::nat, 1]" by (simp add: upt_rec)
  then have "ps = [([0], Worker), ([1], Worker), ([], Master)]"
    using prefork_processes [OF r(1) l] n by (simp add: sample_os_def)
  moreover have "length qs = 4" using prefork_processes [OF r(2) l] n by (simp add: sample_os_def)
  ultimately show ?thesis using r by blast
qed

subsection \<open>Names of log files\<close>

lemma log_name_text: "0 \<le> pid \<Longrightarrow> log_name file pid = take 63 (c_str file @ ''/cohttpd-'' @ dec (nat pid))"
  using c_str_snprintf [of 64 "c_str file @ ''/cohttpd-'' @ dec (nat pid)"] c_str_no_nul dec_no_nul [of "nat pid"]
  by (simp add: log_name_def fmt_d_def)

text \<open>Every process has a log file of its own as long as the path of the log directory has at most 44
  characters; from 63 characters on the number of the process is cut off and all processes write to
  the same file.\<close>

theorem log_files_distinct:
  assumes "initlog mkdir p file con = Inr a" "initlog mkdir q file con = Inr b" "0 \<le> p" "p < 2 ^ 31" "0 \<le> q" "q < 2 ^ 31"
  shows "(length (c_str file) \<le> 44 \<longrightarrow> lg_name a = lg_name b \<longrightarrow> p = q) \<and>
    (63 \<le> length (c_str file) \<longrightarrow> lg_name a = lg_name b)"
proof -
  have n: "lg_name a = take 63 (c_str file @ ''/cohttpd-'' @ dec (nat p))" "lg_name b = take 63 (c_str file @ ''/cohttpd-'' @ dec (nat q))"
    using assms log_name_text by (auto simp: initlog_def split: if_splits)
  have "nat p < 10 ^ Suc 9" "nat q < 10 ^ Suc 9" using assms(3-6) by (simp_all add: nat_less_iff)
  then have len: "length (dec (nat p)) \<le> 10" "length (dec (nat q)) \<le> 10" using dec_length by fastforce+
  have "p = q" if short: "length (c_str file) \<le> 44" and eq: "lg_name a = lg_name b"
  proof -
    have "dec (nat p) = dec (nat q)" using eq short len by (simp add: n)
    then have "nat p = nat q" using undec_dec by metis
    then show ?thesis using assms(3,5) by simp
  qed
  then show ?thesis by (auto simp: n)
qed

theorem log_files_distinct_witness:
  "lg_name (projr (initlog (\<lambda>_. True) 7 (replicate 63 CHR ''x'') True)) = lg_name (projr (initlog (\<lambda>_. True) 8 (replicate 63 CHR ''x'') True))"
proof -
  let ?f = "replicate 63 CHR ''x''"
  have l: "length (c_str ?f) = 63" by (simp add: c_str_def)
  obtain a b where i: "initlog (\<lambda>_. True) 7 ?f True = Inr a" "initlog (\<lambda>_. True) 8 ?f True = Inr b" by (simp add: initlog_def)
  have "lg_name a = lg_name b" using log_files_distinct [OF i] l by simp
  then show ?thesis by (simp only: i sum.sel)
qed

subsection \<open>The modules of a child\<close>

text \<open>A directory with the libraries of the two sample modules, in either order.\<close>

lemma site_directory:
  assumes "created xs = [default_module, hello_module] \<or> created xs = [hello_module, default_module]"
  shows "modules_setup mh_path True (Entries xs) no_modules = site_modules"
proof -
  have p: "mh_path (default_module :: 'a module_handler) = None" "mh_path (hello_module :: 'a module_handler) = Some ''/hello''"
    by (simp_all add: default_module_def hello_module_def)
  have k: "keyed mh_path (created xs) = [(''/hello'', hello_module)]" "defaults mh_path (created xs) = [default_module]"
    using assms p by (auto simp: keyed_def defaults_def)
  have "md_modules (load_files mh_path xs no_modules) = [(c_str ''/hello'', hello_module)]"
    using load_files_modules [of mh_path xs no_modules] k by (simp add: mods.register_def mod_find_def mod_insert_def no_modules_def)
  moreover have "md_default (load_files mh_path xs no_modules) = Some default_module" using load_files_default [of mh_path xs no_modules] k by simp
  ultimately show ?thesis by (simp add: modules_setup_def site_modules_eq)
qed

end
