(* ===== verification/Coroutines.thy ===== *)
theory Coroutines
  imports Server_Life
begin

text \<open>
  The connections of a worker as coroutines (\<^verbatim>\<open>src/src/server.cpp\<close>). Every connection is a coroutine
  (\<open>go std::bind(&http_connection::parse, connection)\<close>), and all of them share the pool of buffers, the
  timers and the handlers. A coroutine gives way only where it waits for its socket: in \<open>read_some\<close>
  and in every \<open>write_some\<close> of \<open>write\<close>.

  A suspended coroutine is a \<open>point\<close> of \<open>parse\<close> and \<open>process_request\<close> with the variables that are live
  there, and \<open>resume\<close> runs it to the next point. The head of the loop of \<open>parse\<close> is a point too, where
  a new coroutine starts; so is the end of \<open>write\<close>. That the code does not give way there only means
  that the model has more interleavings. One coroutine that runs alone does what \<open>conn_parse\<close> and the
  destructor do (\<open>coroutine_alone\<close>).
\<close>

subsection \<open>Points\<close>

datatype 'p phase = Header | Body "'p module_handler option"

datatype 'p point =
    Starting "iobuf_ptr list" txnid_t
  | Reading "'p phase" "iobuf_ptr list" "'p http_request" http_response int txnid_t
  | Writing "iobuf_ptr list" http_response consuming_buffers size_t error_code txnid_t
  | Ended

text \<open>The buffers a suspended coroutine holds.\<close>

fun point_bufs :: "'p point \<Rightarrow> iobuf_ptr list" where
  "point_bufs (Starting buf txn) = buf"
| "point_bufs (Reading ph buf req rsp n txn) = buf @ resp_buffers rsp"
| "point_bufs (Writing buf rsp tmp moved ec txn) = buf @ resp_buffers rsp"
| "point_bufs Ended = []"

subsection \<open>From one point to the next\<close>

text \<open>\<open>process_request\<close> returns \<open>keep\<close>: the buffers that are read are released, and the loop of \<open>parse\<close>
  goes on, or the list of buffers and then the connection are destroyed.\<close>

definition leave_parse :: "('p, 't, 's) env \<Rightarrow> ('t, 's) http_connection \<Rightarrow> iobuf_ptr list \<Rightarrow> http_response \<Rightarrow> bool \<Rightarrow> txnid_t
    \<Rightarrow> (('t, 's) http_connection \<times> 'p point) res" where
  "leave_parse e c buf rsp keep txn = rbind (leave_request c buf rsp keep) (\<lambda>(c1, buf1, keep1).
     rbind (release_front (hc_world c1) buf1) (\<lambda>(w, buf2).
     if keep1 then Inr (c1\<lparr>hc_world := w\<rparr>, Starting buf2 (txn + 1))
     else rbind (drop_ptrs w buf2 []) (\<lambda>w'. Inr (conn_destroy e (c1\<lparr>hc_world := w'\<rparr>), Ended))))"

text \<open>The loop of \<open>process_request\<close> from its head to the call of \<open>read_some\<close>; \<open>continue\<close> is what follows the
  loop.\<close>

definition feed :: "('p, 't, 's) env \<Rightarrow> ('p http_request \<Rightarrow> bool) \<Rightarrow>
    (('t, 's) http_connection \<Rightarrow> iobuf_ptr list \<Rightarrow> 'p http_request \<Rightarrow> (('t, 's) http_connection \<times> 'p point) res option) \<Rightarrow>
    'p phase \<Rightarrow> ('t, 's) http_connection \<Rightarrow> iobuf_ptr list \<Rightarrow> 'p http_request \<Rightarrow> http_response \<Rightarrow> int \<Rightarrow> txnid_t
    \<Rightarrow> (('t, 's) http_connection \<times> 'p point) res option" where
  "feed e completed continue ph c buf req rsp n txn = (
     case hp_cells (w_heap (hc_world c)) (ptr_addr (last buf)) of
       None \<Rightarrow> Some (Inl Dangling_reference)
     | Some iov \<Rightarrow> (case codec_parse (en_api e) (en_sort e) (en_exec e) (bufs_mem (hc_world c) buf)
           (ptr_addr (last buf) + sizeof_iobuf) iov req of
         None \<Rightarrow> None
       | Some (iov1, req1) \<Rightarrow> (let c1 = hc_write_cell c (ptr_addr (last buf)) iov1 in
           if req_error (en_api e) req1 \<noteq> HPE_OK then Some (leave_parse e c1 buf rsp False txn)
           else if completed req1 then continue c1 buf req1
           else Some (rbind (more_room c1 buf iov1) (\<lambda>(c2, buf2). Inr (c2, Reading ph buf2 req1 rsp n txn))))))"

text \<open>The message is complete: the handler gets the body, and the buffers of the response are prepared
  for \<open>write\<close>.\<close>

definition message_received :: "('p, 't, 's) env \<Rightarrow> 'p module_handler option \<Rightarrow> http_response \<Rightarrow> txnid_t \<Rightarrow> ('t, 's) http_connection
    \<Rightarrow> iobuf_ptr list \<Rightarrow> 'p http_request \<Rightarrow> (('t, 's) http_connection \<times> 'p point) res option" where
  "message_received e mh rsp txn c buf req =
     pbind (Some (call_handler e mh HE_REQUEST_BODY mh_on_request_body On_request_body txn req (pause_timer e c) rsp)) (\<lambda>(c2, rsp2).
     let c3 = start_timer e c2 in Some (rbind (out_buffers (hc_world c3) (resp_buffers rsp2)) (\<lambda>obs.
       Inr (c3, Writing buf rsp2 (cs_prepare (transfer_all False 0) (consuming_make obs)) 0 No_error txn))))"

definition feed_body :: "('p, 't, 's) env \<Rightarrow> 'p module_handler option \<Rightarrow> ('t, 's) http_connection \<Rightarrow> iobuf_ptr list \<Rightarrow> 'p http_request
    \<Rightarrow> http_response \<Rightarrow> int \<Rightarrow> txnid_t \<Rightarrow> (('t, 's) http_connection \<times> 'p point) res option" where
  "feed_body e mh c buf req rsp n txn =
     feed e message_completed (message_received e mh rsp txn) (Body mh) c buf req rsp n txn"

text \<open>The header is complete: the handler that the path selects gets it.\<close>

definition header_received :: "('p, 't, 's) env \<Rightarrow> http_response \<Rightarrow> txnid_t \<Rightarrow> ('t, 's) http_connection
    \<Rightarrow> iobuf_ptr list \<Rightarrow> 'p http_request \<Rightarrow> (('t, 's) http_connection \<times> 'p point) res option" where
  "header_received e rsp txn c buf req = (let mh = match_handler (en_handlers e) (path_data req) in
     pbind (Some (call_handler e mh HE_REQUEST_HDR mh_on_request_header On_request_header txn req (pause_timer e c) rsp)) (\<lambda>(c2, rsp2).
     feed_body e mh (start_timer e c2) buf req rsp2 0 txn))"

definition feed_header :: "('p, 't, 's) env \<Rightarrow> ('t, 's) http_connection \<Rightarrow> iobuf_ptr list \<Rightarrow> 'p http_request
    \<Rightarrow> http_response \<Rightarrow> int \<Rightarrow> txnid_t \<Rightarrow> (('t, 's) http_connection \<times> 'p point) res option" where
  "feed_header e c buf req rsp n txn =
     feed e headers_completed (header_received e rsp txn) Header c buf req rsp n txn"

fun feed_phase :: "('p, 't, 's) env \<Rightarrow> 'p phase \<Rightarrow> ('t, 's) http_connection \<Rightarrow> iobuf_ptr list \<Rightarrow> 'p http_request
    \<Rightarrow> http_response \<Rightarrow> int \<Rightarrow> txnid_t \<Rightarrow> (('t, 's) http_connection \<times> 'p point) res option" where
  "feed_phase e Header = feed_header e"
| "feed_phase e (Body mh) = feed_body e mh"

fun phase_limit :: "('p, 't, 's) env \<Rightarrow> 'p phase \<Rightarrow> size_t" where
  "phase_limit e Header = header_limit e"
| "phase_limit e (Body mh) = body_limit e"

text \<open>\<open>process_request\<close> up to its first wait.\<close>

definition start_request :: "('p, 't, 's) env \<Rightarrow> ('t, 's) http_connection \<Rightarrow> iobuf_ptr list \<Rightarrow> txnid_t
    \<Rightarrow> (('t, 's) http_connection \<times> 'p point) res option" where
  "start_request e c reqbuf txn = pbind (Some (first_buffer c reqbuf)) (\<lambda>(c1, buf).
     pbind (Some (resp_make (hc_world c1))) (\<lambda>(w, rsp).
     feed_header e (start_timer e (c1\<lparr>hc_world := w\<rparr>)) buf (req_make (en_api e) (en_urldata e)) rsp 0 txn))"

definition resume_read :: "('p, 't, 's) env \<Rightarrow> 'p phase \<Rightarrow> ('t, 's) http_connection \<Rightarrow> iobuf_ptr list \<Rightarrow> 'p http_request
    \<Rightarrow> http_response \<Rightarrow> int \<Rightarrow> txnid_t \<Rightarrow> (('t, 's) http_connection \<times> 'p point) res option" where
  "resume_read e ph c buf req rsp n txn = pbind (read_more e c buf) (\<lambda>(c1, got). case got of
       None \<Rightarrow> Some (leave_parse e c1 buf rsp False txn)
     | Some k \<Rightarrow> if size_of_int (cint (n + int k)) > phase_limit e ph then Some (leave_parse e c1 buf rsp False txn)
         else feed_phase e ph c1 buf req rsp (cint (n + int k)) txn)"

definition resume_write :: "('p, 't, 's) env \<Rightarrow> ('t, 's) http_connection \<Rightarrow> iobuf_ptr list \<Rightarrow> http_response \<Rightarrow> consuming_buffers
    \<Rightarrow> size_t \<Rightarrow> error_code \<Rightarrow> txnid_t \<Rightarrow> (('t, 's) http_connection \<times> 'p point) res option" where
  "resume_write e c buf rsp tmp moved ec txn = (if ci_at_end (cs_begin tmp)
     then Some (leave_parse e (pause_timer e c) buf rsp (ec = No_error \<and> resp_is_keep_alive rsp) txn)
     else (case write_some (en_kernel e) (bufs_mem (hc_world c) (resp_buffers rsp)) (hc_trans c) (cs_list tmp) of
         None \<Rightarrow> None
       | Some ((n, ec'), s) \<Rightarrow> Some (Inr (c\<lparr>hc_trans := s\<rparr>, Writing buf rsp
           (cs_prepare (transfer_all (ec' \<noteq> No_error) (sz (moved + n))) (cs_consume n tmp)) (sz (moved + n)) ec' txn))))"

fun resume :: "('p, 't, 's) env \<Rightarrow> ('t, 's) http_connection \<Rightarrow> 'p point \<Rightarrow> (('t, 's) http_connection \<times> 'p point) res option" where
  "resume e c (Starting buf txn) = start_request e c buf txn"
| "resume e c (Reading ph buf req rsp n txn) = resume_read e ph c buf req rsp n txn"
| "resume e c (Writing buf rsp tmp moved ec txn) = resume_write e c buf rsp tmp moved ec txn"
| "resume e c Ended = Some (Inr (c, Ended))"

text \<open>A coroutine that is never interrupted.\<close>

partial_function (option) run_alone :: "('p, 't, 's) env \<Rightarrow> ('t, 's) http_connection \<Rightarrow> 'p point \<Rightarrow> ('t, 's) http_connection res option" where
  "run_alone e c pt = (if pt = Ended then Some (Inr c)
     else pbind (resume e c pt) (\<lambda>(c1, pt1). run_alone e c1 pt1))"

subsection \<open>A coroutine alone is the sequential program\<close>

text \<open>What the sequential program still has to do at a point.\<close>

definition finish :: "('p, 't, 's) env \<Rightarrow> (('t, 's) http_connection \<times> iobuf_ptr list) res option \<Rightarrow> ('t, 's) http_connection res option" where
  "finish e r = pbind r (\<lambda>(c, reqbuf). Some (rbind (drop_ptrs (hc_world c) reqbuf []) (\<lambda>w. Inr (conn_destroy e (c\<lparr>hc_world := w\<rparr>)))))"

definition after_request :: "('p, 't, 's) env \<Rightarrow> txnid_t \<Rightarrow> (('t, 's) http_connection \<times> iobuf_ptr list \<times> bool) res option
    \<Rightarrow> ('t, 's) http_connection res option" where
  "after_request e txn r = pbind r (\<lambda>(c, buf, keep). pbind (Some (release_front (hc_world c) buf)) (\<lambda>(w, buf1).
     finish e (parse_requests e (c\<lparr>hc_world := w\<rparr>) buf1 (txn + 1) keep)))"

definition after_body :: "('p, 't, 's) env \<Rightarrow> 'p module_handler option \<Rightarrow> txnid_t \<Rightarrow> http_response
    \<Rightarrow> (('t, 's) http_connection \<times> iobuf_ptr list \<times> 'p http_request \<times> bool) res option \<Rightarrow> (('t, 's) http_connection \<times> iobuf_ptr list \<times> bool) res option" where
  "after_body e mh txn rsp r = pbind r (\<lambda>(c1, buf1, req1, ok).
     if \<not> ok then Some (leave_request c1 buf1 rsp False)
     else pbind (Some (call_handler e mh HE_REQUEST_BODY mh_on_request_body On_request_body txn req1 (pause_timer e c1) rsp))
       (\<lambda>(c2, rsp2). answer_request e c2 buf1 rsp2))"

definition after_header :: "('p, 't, 's) env \<Rightarrow> txnid_t \<Rightarrow> http_response
    \<Rightarrow> (('t, 's) http_connection \<times> iobuf_ptr list \<times> 'p http_request \<times> bool) res option \<Rightarrow> (('t, 's) http_connection \<times> iobuf_ptr list \<times> bool) res option" where
  "after_header e txn rsp r = pbind r (\<lambda>(c1, buf1, req1, ok).
     if \<not> ok then Some (leave_request c1 buf1 rsp False)
     else let mh = match_handler (en_handlers e) (path_data req1) in
       pbind (Some (call_handler e mh HE_REQUEST_HDR mh_on_request_header On_request_header txn req1 (pause_timer e c1) rsp))
         (\<lambda>(c2, rsp2). process_body e mh txn c2 buf1 req1 rsp2))"

fun phase_completed :: "'p phase \<Rightarrow> 'p http_request \<Rightarrow> bool" where
  "phase_completed Header = headers_completed"
| "phase_completed (Body mh) = message_completed"

fun after_phase :: "('p, 't, 's) env \<Rightarrow> 'p phase \<Rightarrow> txnid_t \<Rightarrow> http_response
    \<Rightarrow> (('t, 's) http_connection \<times> iobuf_ptr list \<times> 'p http_request \<times> bool) res option \<Rightarrow> (('t, 's) http_connection \<times> iobuf_ptr list \<times> bool) res option" where
  "after_phase e Header = after_header e"
| "after_phase e (Body mh) = after_body e mh"

definition after_write :: "('p, 't, 's) env \<Rightarrow> ('t, 's) http_connection \<Rightarrow> iobuf_ptr list \<Rightarrow> http_response
    \<Rightarrow> ((size_t \<times> error_code) \<times> 's tcp_socket) option \<Rightarrow> (('t, 's) http_connection \<times> iobuf_ptr list \<times> bool) res option" where
  "after_write e c buf rsp = map_option (\<lambda>((n, ec), s).
     leave_request (pause_timer e (c\<lparr>hc_trans := s\<rparr>)) buf rsp (ec = No_error \<and> resp_is_keep_alive rsp))"

fun remaining :: "('p, 't, 's) env \<Rightarrow> ('t, 's) http_connection \<Rightarrow> 'p point \<Rightarrow> ('t, 's) http_connection res option" where
  "remaining e c (Starting buf txn) = finish e (parse_requests e c buf txn True)"
| "remaining e c (Reading ph buf req rsp n txn) = after_request e txn (after_phase e ph txn rsp
     (pbind (read_more e c buf) (\<lambda>(c3, got). case got of
        None \<Rightarrow> Some (Inr (c3, buf, req, False))
      | Some k \<Rightarrow> if size_of_int (cint (n + int k)) > phase_limit e ph then Some (Inr (c3, buf, req, False))
          else request_loop e (phase_completed ph) (phase_limit e ph) c3 buf req (cint (n + int k)))))"
| "remaining e c (Writing buf rsp tmp moved ec txn) = after_request e txn (after_write e c buf rsp
     (write_loop (en_kernel e) transfer_all (bufs_mem (hc_world c) (resp_buffers rsp)) tmp (hc_trans c) moved ec))"
| "remaining e c Ended = Some (Inr c)"

lemma pbind_assoc: "pbind (pbind r f) g = pbind r (\<lambda>x. pbind (f x) g)"
  by (auto simp: pbind_def split: Option.bind_splits sum.splits)

lemma pbind_Some_rbind: "pbind (Some (rbind r f)) g = pbind (Some r) (\<lambda>x. pbind (Some (f x)) g)"
  by (cases r) simp_all

abbreviation proceed :: "('p, 't, 's) env \<Rightarrow> ('t, 's) http_connection \<times> 'p point \<Rightarrow> ('t, 's) http_connection res option" where
  "proceed e \<equiv> \<lambda>(c, pt). remaining e c pt"

lemma leave_parse_remaining:
  "pbind (Some (leave_parse e c buf rsp keep txn)) (proceed e) = after_request e txn (Some (leave_request c buf rsp keep))"
proof (cases "leave_request c buf rsp keep")
  case (Inr r)
  obtain c1 buf1 keep1 where r: "r = (c1, buf1, keep1)" by (cases r)
  show ?thesis
  proof (cases "release_front (hc_world c1) buf1")
    case (Inr x)
    obtain w buf2 where x: "x = (w, buf2)" by (cases x)
    show ?thesis using \<open>leave_request c buf rsp keep = Inr r\<close> r Inr x
      by (cases "drop_ptrs w buf2 []") (auto simp: leave_parse_def after_request_def finish_def parse_requests.simps)
  qed (use Inr r in \<open>simp add: leave_parse_def after_request_def\<close>)
qed (simp add: leave_parse_def after_request_def)

lemma after_phase_bind: "after_phase e ph txn rsp (pbind r f) = pbind r (\<lambda>x. after_phase e ph txn rsp (f x))"
  by (cases ph) (simp_all add: after_header_def after_body_def pbind_assoc)

lemma after_phase_left [simp]: "after_phase e ph txn rsp (Some (Inr (c, buf, req, False))) = Some (leave_request c buf rsp False)"
  "after_phase e ph txn rsp (Some (Inl x)) = Some (Inl x)" "after_phase e ph txn rsp None = None"
  by (cases ph; simp add: after_header_def after_body_def)+

lemma after_request_bind: "after_request e txn (pbind r f) = pbind r (\<lambda>x. after_request e txn (f x))"
  by (simp add: after_request_def pbind_assoc)

lemma after_request_simps [simp]: "after_request e txn None = None" "after_request e txn (Some (Inl x)) = Some (Inl x)"
  by (simp_all add: after_request_def)

lemma feed_remaining:
  assumes cont: "\<And>c buf req. pbind (continue c buf req) (proceed e) = after_request e txn (after_phase e ph txn rsp (Some (Inr (c, buf, req, True))))"
  shows "pbind (feed e (phase_completed ph) continue ph c buf req rsp n txn) (proceed e) =
    after_request e txn (after_phase e ph txn rsp (request_loop e (phase_completed ph) (phase_limit e ph) c buf req n))"
proof (cases "hp_cells (w_heap (hc_world c)) (ptr_addr (last buf))")
  case None
  then show ?thesis by (subst request_loop.simps) (simp add: feed_def)
next
  case (Some iov)
  show ?thesis
  proof (cases "codec_parse (en_api e) (en_sort e) (en_exec e) (bufs_mem (hc_world c) buf) (ptr_addr (last buf) + sizeof_iobuf) iov req")
    case None
    then show ?thesis using Some by (subst request_loop.simps) (simp add: feed_def)
  next
    case p: (Some x)
    obtain iov1 req1 where x: "x = (iov1, req1)" by (cases x)
    let ?c1 = "hc_write_cell c (ptr_addr (last buf)) iov1"
    show ?thesis
    proof (cases "req_error (en_api e) req1 \<noteq> HPE_OK \<or> phase_completed ph req1")
      case True
      then show ?thesis using Some p x by (subst request_loop.simps) (auto simp: feed_def Let_def leave_parse_remaining cont)
    next
      case False
      then have f: "feed e (phase_completed ph) continue ph c buf req rsp n txn =
          Some (rbind (more_room ?c1 buf iov1) (\<lambda>(c2, buf2). Inr (c2, Reading ph buf2 req1 rsp n txn)))"
        using Some p x by (simp add: feed_def Let_def)
      show ?thesis unfolding f using Some p x False
        by (subst request_loop.simps) (cases "more_room ?c1 buf iov1", auto simp: after_phase_bind after_request_bind split: prod.splits)
    qed
  qed
qed

lemma answer_request_write:
  "answer_request e c buf rsp = pbind (Some (out_buffers (hc_world c) (resp_buffers rsp))) (\<lambda>obs. after_write e (start_timer e c) buf rsp
     (asio_write (en_kernel e) transfer_all (bufs_mem (hc_world c) (resp_buffers rsp)) (hc_trans c) obs))"
proof (cases "out_buffers (hc_world c) (resp_buffers rsp)")
  case (Inr obs)
  then show ?thesis
    by (cases "asio_write (en_kernel e) transfer_all (bufs_mem (hc_world c) (resp_buffers rsp)) (hc_trans c) obs")
      (auto simp: answer_request_def send_response_def after_write_def)
qed (simp add: answer_request_def send_response_def)

lemma feed_body_remaining:
  "pbind (feed_body e mh c buf req rsp n txn) (proceed e) =
    after_request e txn (after_body e mh txn rsp (request_loop e message_completed (body_limit e) c buf req n))"
proof -
  have "pbind (message_received e mh rsp txn c buf req) (proceed e) = after_request e txn (after_phase e (Body mh) txn rsp (Some (Inr (c, buf, req, True))))"
    for c buf req
    by (cases "call_handler e mh HE_REQUEST_BODY mh_on_request_body On_request_body txn req (pause_timer e c) rsp")
      (auto simp: message_received_def after_body_def answer_request_write asio_write_def Let_def pbind_Some_rbind after_request_bind)
  then show ?thesis using feed_remaining [of "message_received e mh rsp txn" e txn "Body mh" rsp c buf req n] by (simp add: feed_body_def)
qed

lemma process_body_after: "process_body e mh txn c buf req rsp = after_body e mh txn rsp (body_loop e (start_timer e c) buf req)"
  by (simp add: process_body_def after_body_def)

lemma feed_header_remaining:
  "pbind (feed_header e c buf req rsp n txn) (proceed e) =
    after_request e txn (after_header e txn rsp (request_loop e headers_completed (header_limit e) c buf req n))"
proof -
  have "pbind (header_received e rsp txn c buf req) (proceed e) = after_request e txn (after_phase e Header txn rsp (Some (Inr (c, buf, req, True))))"
    for c buf req
    by (cases "call_handler e (match_handler (en_handlers e) (path_data req)) HE_REQUEST_HDR mh_on_request_header On_request_header txn req (pause_timer e c) rsp")
      (auto simp: header_received_def after_header_def Let_def feed_body_remaining process_body_after body_loop_def)
  then show ?thesis using feed_remaining [of "header_received e rsp txn" e txn Header rsp c buf req n] by (simp add: feed_header_def)
qed

lemma feed_phase_remaining:
  "pbind (feed_phase e ph c buf req rsp n txn) (proceed e) =
    after_request e txn (after_phase e ph txn rsp (request_loop e (phase_completed ph) (phase_limit e ph) c buf req n))"
  by (cases ph) (simp_all add: feed_header_remaining feed_body_remaining)

lemma first_buffer_nonempty: "first_buffer c buf = Inr (c1, buf1) \<Longrightarrow> buf1 \<noteq> []"
  by (auto simp: first_buffer_def rbind_eq_Inr split: if_splits)

lemma start_request_remaining: "pbind (start_request e c buf txn) (proceed e) = finish e (parse_requests e c buf txn True)"
proof (cases "first_buffer c buf")
  case (Inl x)
  then show ?thesis by (subst parse_requests.simps) (simp add: start_request_def finish_def)
next
  case (Inr y)
  obtain c1 buf1 where y: "y = (c1, buf1)" by (cases y)
  then have ne: "buf1 \<noteq> []" using Inr first_buffer_nonempty by blast
  have "finish e (parse_requests e c buf txn True) = after_request e txn (process_request e c1 buf1 txn)"
    using Inr y by (subst parse_requests.simps) (auto simp: finish_def after_request_def pbind_assoc intro!: arg_cong2 [where f = pbind] ext)
  also have "process_request e c1 buf1 txn = pbind (Some (resp_make (hc_world c1))) (\<lambda>(w, rsp). after_header e txn rsp
      (header_loop e (start_timer e (c1\<lparr>hc_world := w\<rparr>)) buf1 (req_make (en_api e) (en_urldata e))))"
    using ne by (simp add: process_request_def after_header_def)
  finally show ?thesis using Inr y
    by (cases "resp_make (hc_world c1)") (auto simp: start_request_def feed_header_remaining header_loop_def)
qed

lemma remaining_step: "remaining e c pt = pbind (resume e c pt) (proceed e)"
proof (cases pt)
  case (Starting buf txn)
  then show ?thesis by (simp add: start_request_remaining)
next
  case (Reading ph buf req rsp n txn)
  have "pbind (resume_read e ph c buf req rsp n txn) (proceed e) = remaining e c pt"
    unfolding Reading by (auto simp: resume_read_def pbind_assoc after_phase_bind after_request_bind leave_parse_remaining feed_phase_remaining
        split: option.splits intro!: arg_cong2 [where f = pbind] ext)
  then show ?thesis using Reading by simp
next
  case (Writing buf rsp tmp moved ec txn)
  have "pbind (resume_write e c buf rsp tmp moved ec txn) (proceed e) = remaining e c pt"
  proof (cases "ci_at_end (cs_begin tmp)")
    case True
    then show ?thesis unfolding Writing resume_write_def using leave_parse_remaining [of e "pause_timer e c" buf rsp _ txn]
      by (subst remaining.simps, subst write_loop.simps) (simp add: after_write_def)
  next
    case False
    then show ?thesis unfolding Writing resume_write_def
      by (subst remaining.simps, subst write_loop.simps) (auto simp: after_write_def split: option.splits)
  qed
  then show ?thesis using Writing by simp
qed simp

lemma run_alone_step: "run_alone e c pt = pbind (resume e c pt) (\<lambda>(c1, pt1). run_alone e c1 pt1)"
  by (cases "pt = Ended") (simp_all add: run_alone.simps [of e c pt] run_alone.simps [of e c Ended])

lemma run_alone_sound:
  assumes "run_alone e c pt = Some y"
  shows "remaining e c pt = Some y"
  using assms
proof (rule run_alone.raw_induct [rotated], goal_cases)
  case (1 f e c pt y)
  show ?case
  proof (cases "pt = Ended")
    case True
    then show ?thesis using 1(2) by simp
  next
    case False
    then obtain r where r: "resume e c pt = Some r" using 1(2) by (cases "resume e c pt") simp_all
    show ?thesis using 1(1) 1(2) False r by (cases r) (auto simp: remaining_step [of e c pt])
  qed
qed

text \<open>Conversely, when the sequential program returns, so does the coroutine.\<close>

abbreviation run_on :: "('p, 't, 's) env \<Rightarrow> ('t, 's) http_connection \<times> 'p point \<Rightarrow> ('t, 's) http_connection res option" where
  "run_on e \<equiv> \<lambda>(c, pt). run_alone e c pt"

definition run_leave :: "('p, 't, 's) env \<Rightarrow> txnid_t \<Rightarrow> (('t, 's) http_connection \<times> iobuf_ptr list \<times> bool) res \<Rightarrow> ('t, 's) http_connection res option" where
  "run_leave e txn r = pbind (Some r) (\<lambda>(c, buf, keep). pbind (Some (release_front (hc_world c) buf)) (\<lambda>(w, buf1).
     if keep then run_alone e (c\<lparr>hc_world := w\<rparr>) (Starting buf1 (txn + 1)) else finish e (Some (Inr (c\<lparr>hc_world := w\<rparr>, buf1)))))"

lemma run_alone_Ended [simp]: "run_alone e c Ended = Some (Inr c)"
  by (simp add: run_alone.simps)

lemma leave_parse_run: "pbind (Some (leave_parse e c buf rsp keep txn)) (run_on e) = run_leave e txn (leave_request c buf rsp keep)"
proof (cases "leave_request c buf rsp keep")
  case (Inr r)
  obtain c1 buf1 keep1 where r: "r = (c1, buf1, keep1)" by (cases r)
  show ?thesis
  proof (cases "release_front (hc_world c1) buf1")
    case (Inr x)
    obtain w buf2 where x: "x = (w, buf2)" by (cases x)
    show ?thesis using \<open>leave_request c buf rsp keep = Inr r\<close> r Inr x
      by (cases "drop_ptrs w buf2 []") (auto simp: leave_parse_def run_leave_def finish_def)
  qed (use Inr r in \<open>simp add: leave_parse_def run_leave_def\<close>)
qed (simp add: leave_parse_def run_leave_def)

lemma write_runs:
  fixes e :: "('p, 't, 's) env"
  assumes "write_loop (en_kernel e) transfer_all (bufs_mem (hc_world c) (resp_buffers rsp)) tmp (hc_trans c) moved ec = Some ((n, ec'), s)"
  shows "run_alone e c (Writing buf rsp tmp moved ec txn) =
    run_leave e txn (leave_request (pause_timer e (c\<lparr>hc_trans := s\<rparr>)) buf rsp (ec' = No_error \<and> resp_is_keep_alive rsp))"
proof -
  have "\<forall>c. k = en_kernel e \<and> cond = transfer_all \<and> m = bufs_mem (hc_world c) (resp_buffers rsp) \<and> hc_trans c = t \<longrightarrow>
      run_alone e c (Writing buf rsp tmp moved ec txn) =
      run_leave e txn (leave_request (pause_timer e (c\<lparr>hc_trans := snd y\<rparr>)) buf rsp (snd (fst y) = No_error \<and> resp_is_keep_alive rsp))"
    if "write_loop k cond m tmp t moved ec = Some y" for k cond m tmp t moved ec y
    using that
  proof (rule write_loop.raw_induct [rotated], goal_cases)
    case (1 f k cond m tmp t moved ec y)
    show ?case
    proof (intro allI impI, elim conjE)
      fix c :: "('t, 's) http_connection"
      assume eq: "k = en_kernel e" "cond = transfer_all" "m = bufs_mem (hc_world c) (resp_buffers rsp)" "hc_trans c = t"
      show "run_alone e c (Writing buf rsp tmp moved ec txn) =
        run_leave e txn (leave_request (pause_timer e (c\<lparr>hc_trans := snd y\<rparr>)) buf rsp (snd (fst y) = No_error \<and> resp_is_keep_alive rsp))"
      proof (cases "ci_at_end (cs_begin tmp)")
        case True
        then have "y = ((moved, ec), hc_trans c)" using 1(2) eq(4) by simp
        then show ?thesis using True leave_parse_run [of e "pause_timer e c" buf rsp _ txn]
          by (subst run_alone_step) (simp add: resume_write_def)
      next
        case False
        then obtain i ec1 s1 where w: "write_some k m t (cs_list tmp) = Some ((i, ec1), s1)"
          using 1(2) by (auto split: option.splits)
        then have "f k cond m (cs_prepare (cond (ec1 \<noteq> No_error) (sz (moved + i))) (cs_consume i tmp)) s1 (sz (moved + i)) ec1 = Some y"
          using 1(2) False by simp
        from 1(1) [OF this, rule_format, of "c\<lparr>hc_trans := s1\<rparr>"] show ?thesis using False w eq
          by (subst run_alone_step) (simp add: resume_write_def)
      qed
    qed
  qed
  from this [OF assms] show ?thesis by simp
qed

lemma request_runs:
  assumes "request_loop e (phase_completed ph) (phase_limit e ph) c buf req n = Some y"
    and cont: "\<And>c buf req n. feed_phase e ph c buf req rsp n txn = feed e (phase_completed ph) continue ph c buf req rsp n txn"
  shows "pbind (feed_phase e ph c buf req rsp n txn) (run_on e) = pbind (Some y) (\<lambda>(c1, buf1, req1, ok).
    if ok then pbind (continue c1 buf1 req1) (run_on e) else run_leave e txn (leave_request c1 buf1 rsp False))"
proof -
  have "d = e \<and> comp = phase_completed ph \<and> limit = phase_limit e ph \<longrightarrow>
      pbind (feed_phase e ph c buf req rsp n txn) (run_on e) = pbind (Some y) (\<lambda>(c1, buf1, req1, ok).
      if ok then pbind (continue c1 buf1 req1) (run_on e) else run_leave e txn (leave_request c1 buf1 rsp False))"
    if "request_loop d comp limit c buf req n = Some y" for d comp limit c buf req n y
    using that
  proof (rule request_loop.raw_induct [rotated], goal_cases)
    case (1 f d comp limit c buf req n y)
    show ?case
    proof (intro impI, elim conjE)
      assume eq: "d = e" "comp = phase_completed ph" "limit = phase_limit e ph"
      show "pbind (feed_phase e ph c buf req rsp n txn) (run_on e) = pbind (Some y) (\<lambda>(c1, buf1, req1, ok).
        if ok then pbind (continue c1 buf1 req1) (run_on e) else run_leave e txn (leave_request c1 buf1 rsp False))"
      proof (cases "hp_cells (w_heap (hc_world c)) (ptr_addr (last buf))")
        case None
        then show ?thesis using 1(2) by (auto simp: cont feed_def)
      next
        case (Some iov)
        then obtain iov1 req1 where p: "codec_parse (en_api e) (en_sort e) (en_exec e) (bufs_mem (hc_world c) buf)
            (ptr_addr (last buf) + sizeof_iobuf) iov req = Some (iov1, req1)"
          using 1(2) eq(1) by (auto split: option.splits)
        let ?c1 = "hc_write_cell c (ptr_addr (last buf)) iov1"
        show ?thesis
        proof (cases "req_error (en_api e) req1 \<noteq> HPE_OK \<or> phase_completed ph req1 \<or> (\<exists>x. more_room ?c1 buf iov1 = Inl x)")
          case True
          then show ?thesis using 1(2) Some p eq
            by (auto simp: cont feed_def leave_parse_run Let_def split: if_splits)
        next
          case False
          then obtain c2 buf2 where m: "more_room ?c1 buf iov1 = Inr (c2, buf2)" by (cases "more_room ?c1 buf iov1") auto
          have "pbind (feed_phase e ph c buf req rsp n txn) (run_on e) = run_alone e c2 (Reading ph buf2 req1 rsp n txn)"
            using False Some p m by (simp add: cont feed_def Let_def)
          also have "\<dots> = pbind (resume_read e ph c2 buf2 req1 rsp n txn) (run_on e)" by (subst run_alone_step) simp
          also have "\<dots> = pbind (Some y) (\<lambda>(c1, buf1, req1, ok).
              if ok then pbind (continue c1 buf1 req1) (run_on e) else run_leave e txn (leave_request c1 buf1 rsp False))"
          proof (cases "read_more e c2 buf2")
            case None
            then show ?thesis using 1(2) False Some p eq m by simp
          next
            case r: (Some z)
            have y: "pbind (Some z) (\<lambda>(c3, got). case got of None \<Rightarrow> Some (Inr (c3, buf2, req1, False))
               | Some k \<Rightarrow> if size_of_int (cint (n + int k)) > phase_limit e ph then Some (Inr (c3, buf2, req1, False))
                 else f e (phase_completed ph) (phase_limit e ph) c3 buf2 req1 (cint (n + int k))) = Some y"
              using 1(2) [unfolded eq] False Some p m r by simp
            have IH: "pbind (feed_phase e ph c3 buf2 req1 rsp i txn) (run_on e) = pbind (Some y) (\<lambda>(c1, buf1, req1, ok).
                if ok then pbind (continue c1 buf1 req1) (run_on e) else run_leave e txn (leave_request c1 buf1 rsp False))"
              if "f e (phase_completed ph) (phase_limit e ph) c3 buf2 req1 i = Some y" for c3 i
              using 1(1) [OF that] by simp
            show ?thesis using y IH r
              by (cases z) (auto simp: resume_read_def leave_parse_run split: option.splits if_splits)
          qed
          finally show ?thesis .
        qed
      qed
    qed
  qed
  then show ?thesis using assms(1) by blast
qed

lemma body_runs:
  assumes "after_body e mh txn rsp (request_loop e message_completed (body_limit e) c buf req n) = Some z"
  shows "pbind (feed_body e mh c buf req rsp n txn) (run_on e) = run_leave e txn z"
proof -
  obtain y where y: "request_loop e message_completed (body_limit e) c buf req n = Some y"
    using assms by (cases "request_loop e message_completed (body_limit e) c buf req n") (auto simp: after_body_def)
  have run: "pbind (feed_body e mh c buf req rsp n txn) (run_on e) = pbind (Some y) (\<lambda>(c1, buf1, req1, ok).
      if ok then pbind (message_received e mh rsp txn c1 buf1 req1) (run_on e) else run_leave e txn (leave_request c1 buf1 rsp False))"
    using request_runs [of e "Body mh" c buf req n y rsp txn "message_received e mh rsp txn"] y by (simp add: feed_body_def)
  have "pbind (message_received e mh rsp txn c1 buf1 req1) (run_on e) = run_leave e txn z"
    if ans: "pbind (Some (call_handler e mh HE_REQUEST_BODY mh_on_request_body On_request_body txn req1 (pause_timer e c1) rsp))
       (\<lambda>(c2, rsp2). answer_request e c2 buf1 rsp2) = Some z" for c1 buf1 req1
  proof (cases "call_handler e mh HE_REQUEST_BODY mh_on_request_body On_request_body txn req1 (pause_timer e c1) rsp")
    case (Inl x)
    then show ?thesis using ans by (auto simp: message_received_def run_leave_def)
  next
    case (Inr v)
    obtain c2 rsp2 where v: "v = (c2, rsp2)" by (cases v)
    show ?thesis
    proof (cases "out_buffers (hc_world c2) (resp_buffers rsp2)")
      case Inl
      then show ?thesis using ans Inr v \<open>call_handler e mh HE_REQUEST_BODY mh_on_request_body On_request_body txn req1 (pause_timer e c1) rsp = Inr v\<close>
        by (auto simp: message_received_def run_leave_def answer_request_write Let_def)
    next
      case obs: (Inr obs)
      let ?c3 = "start_timer e c2"
      obtain m ec s where w: "asio_write (en_kernel e) transfer_all (bufs_mem (hc_world ?c3) (resp_buffers rsp2)) (hc_trans ?c3) obs = Some ((m, ec), s)"
          "z = leave_request (pause_timer e (?c3\<lparr>hc_trans := s\<rparr>)) buf1 rsp2 (ec = No_error \<and> resp_is_keep_alive rsp2)"
        using ans Inr v obs by (auto simp: answer_request_write after_write_def)
      show ?thesis using write_runs [OF w(1) [unfolded asio_write_def], of buf1 txn] w(2) Inr v obs
        by (simp add: message_received_def Let_def)
    qed
  qed
  then show ?thesis unfolding run using assms y by (cases y) (auto simp: after_body_def run_leave_def)
qed

lemma header_runs:
  assumes "after_header e txn rsp (request_loop e headers_completed (header_limit e) c buf req n) = Some z"
  shows "pbind (feed_header e c buf req rsp n txn) (run_on e) = run_leave e txn z"
proof -
  obtain y where y: "request_loop e headers_completed (header_limit e) c buf req n = Some y"
    using assms by (cases "request_loop e headers_completed (header_limit e) c buf req n") (auto simp: after_header_def)
  have run: "pbind (feed_header e c buf req rsp n txn) (run_on e) = pbind (Some y) (\<lambda>(c1, buf1, req1, ok).
      if ok then pbind (header_received e rsp txn c1 buf1 req1) (run_on e) else run_leave e txn (leave_request c1 buf1 rsp False))"
    using request_runs [of e Header c buf req n y rsp txn "header_received e rsp txn"] y by (simp add: feed_header_def)
  have "pbind (header_received e rsp txn c1 buf1 req1) (run_on e) = run_leave e txn z"
    if "after_header e txn rsp (Some (Inr (c1, buf1, req1, True))) = Some z" for c1 buf1 req1
  proof (cases "call_handler e (match_handler (en_handlers e) (path_data req1)) HE_REQUEST_HDR mh_on_request_header On_request_header txn req1 (pause_timer e c1) rsp")
    case (Inl x)
    then show ?thesis using that by (auto simp: header_received_def after_header_def run_leave_def)
  next
    case (Inr v)
    then show ?thesis using that
      by (cases v) (auto simp: header_received_def after_header_def process_body_after body_loop_def Let_def intro!: body_runs)
  qed
  then show ?thesis unfolding run using assms y by (cases y) (auto simp: after_header_def run_leave_def)
qed

lemma parse_requests_runs:
  assumes "parse_requests e c buf txn keep = Some y"
  shows "if keep then run_alone e c (Starting buf txn) = finish e (Some y) else y = Inr (c, buf)"
  using assms
proof (rule parse_requests.raw_induct [rotated], goal_cases)
  case (1 f e c buf txn keep y)
  show ?case
  proof (cases keep)
    case False
    then show ?thesis using 1(2) by simp
  next
    case True
    have "run_alone e c (Starting buf txn) = finish e (Some y)"
    proof (cases "first_buffer c buf")
      case (Inl x)
      then have "y = Inl x" using 1(2) \<open>keep\<close> by simp
      then show ?thesis using Inl by (subst run_alone_step) (simp add: start_request_def finish_def)
    next
      case (Inr v)
      obtain c1 buf1 where v: "v = (c1, buf1)" by (cases v)
      then have ne: "buf1 \<noteq> []" using Inr first_buffer_nonempty by blast
      obtain z where z: "process_request e c1 buf1 txn = Some z" using 1(2) \<open>keep\<close> Inr v by (cases "process_request e c1 buf1 txn") auto
      have "run_alone e c (Starting buf txn) = run_leave e txn z"
      proof (cases "resp_make (hc_world c1)")
        case Inl
        then show ?thesis using z ne Inr v by (subst run_alone_step) (auto simp: start_request_def process_request_def run_leave_def)
      next
        case r: (Inr u)
        obtain w rsp where u: "u = (w, rsp)" by (cases u)
        have "after_header e txn rsp (request_loop e headers_completed (header_limit e) (start_timer e (c1\<lparr>hc_world := w\<rparr>)) buf1
            (req_make (en_api e) (en_urldata e)) 0) = Some z"
          using z ne r u by (simp add: process_request_def after_header_def header_loop_def)
        from header_runs [OF this] show ?thesis using Inr v r u by (subst run_alone_step) (simp add: start_request_def)
      qed
      also have "\<dots> = finish e (Some y)"
      proof (cases z)
        case Inl
        then show ?thesis using 1(2) \<open>keep\<close> Inr v z by (auto simp: run_leave_def finish_def)
      next
        case zr: (Inr q)
        obtain c2 buf2 keep2 where q: "q = (c2, buf2, keep2)" by (cases q)
        show ?thesis
        proof (cases "release_front (hc_world c2) buf2")
          case Inl
          then show ?thesis using 1(2) \<open>keep\<close> Inr v z zr q by (auto simp: run_leave_def finish_def)
        next
          case (Inr p)
          obtain w buf3 where p: "p = (w, buf3)" by (cases p)
          have f: "f e (c2\<lparr>hc_world := w\<rparr>) buf3 (txn + 1) keep2 = Some y"
            using 1(2) \<open>keep\<close> \<open>first_buffer c buf = Inr v\<close> v z zr q Inr p by simp
          show ?thesis using 1(1) [OF f] zr q Inr p by (simp add: run_leave_def split: if_splits)
        qed
      qed
      finally show ?thesis .
    qed
    then show ?thesis using True by simp
  qed
qed


end
