(* ===== verification/Coroutine_Inv.thy ===== *)
theory Coroutine_Inv
  imports Coroutines
begin

text \<open>
  What a coroutine keeps while it runs from one point to the next: its own buffers and its response
  are in order, those of the others are not touched, what its peer was sent is a sequence of replies,
  and it comes nearer to its end.
\<close>

subsection \<open>The state of a suspended coroutine\<close>

definition own_bufs :: "world \<Rightarrow> iobuf_ptr list \<Rightarrow> iobuf_ptr list \<Rightarrow> http_response \<Rightarrow> bool" where
  "own_bufs w lent buf rsp \<longleftrightarrow> bufs_inv w lent buf \<and> resp_inv w lent rsp \<and> set (resp_buffers rsp) \<inter> set buf = {}"

definition fresh_resp :: "int \<Rightarrow> world \<Rightarrow> http_response \<Rightarrow> bool" where
  "fresh_resp S w rsp \<longleftrightarrow> header_text w rsp = [] \<and> body_text w rsp = [] \<and> back_room w (rs_header rsp) = S \<and> back_room w (rs_body rsp) = S"

text \<open>The handler has written its reply.\<close>

definition replied :: "('p, 't, 's) env \<Rightarrow> ('p module_handler \<Rightarrow> bool \<Rightarrow> string) \<Rightarrow> int \<Rightarrow> world \<Rightarrow> http_response \<Rightarrow> 'p module_handler option \<Rightarrow> bool" where
  "replied e reply S w rsp mh \<longleftrightarrow> (\<exists>h key. mh = Some h \<and> match_handler (en_handlers e) key = Some h \<and>
     answering_handler h (en_gmtime e) (reply h) S \<and> texts w (resp_buffers rsp) = reply h (resp_is_keep_alive rsp))"

fun phase_inv :: "('p, 't, 's) env \<Rightarrow> ('p module_handler \<Rightarrow> bool \<Rightarrow> string) \<Rightarrow> int \<Rightarrow> world \<Rightarrow> http_response \<Rightarrow> 'p phase \<Rightarrow> bool" where
  "phase_inv e reply S w rsp Header \<longleftrightarrow> fresh_resp S w rsp"
| "phase_inv e reply S w rsp (Body mh) \<longleftrightarrow> replied e reply S w rsp mh"

definition writing_inv :: "('p, 't, 's) env \<Rightarrow> ('p module_handler \<Rightarrow> bool \<Rightarrow> string) \<Rightarrow> world \<Rightarrow> http_response \<Rightarrow> consuming_buffers \<Rightarrow> size_t \<Rightarrow> error_code \<Rightarrow> bool" where
  "writing_inv e reply w rsp tmp moved ec \<longleftrightarrow> (let R = resp_buffers rsp; t = texts w R in
     reply_of e reply (resp_is_keep_alive rsp) t \<and> length t < size_max \<and> moved \<le> length t \<and>
     (if ec = No_error then cs_max_size tmp = 65536 \<and> cs_bytes (bufs_mem w R) tmp = drop moved t else ci_at_end (cs_begin tmp)))"

fun point_inv :: "('p, 't, 's) env \<Rightarrow> ('p module_handler \<Rightarrow> bool \<Rightarrow> string) \<Rightarrow> int \<Rightarrow> world \<Rightarrow> iobuf_ptr list \<Rightarrow> 'p point \<Rightarrow> bool" where
  "point_inv e reply S w lent (Starting buf txn) \<longleftrightarrow> conn_bufs w lent buf"
| "point_inv e reply S w lent (Reading ph buf req rsp n txn) \<longleftrightarrow>
     own_bufs w lent buf rsp \<and> 0 < back_room w buf \<and> phase_inv e reply S w rsp ph"
| "point_inv e reply S w lent (Writing buf rsp tmp moved ec txn) \<longleftrightarrow>
     own_bufs w lent buf rsp \<and> writing_inv e reply w rsp tmp moved ec"
| "point_inv e reply S w lent Ended \<longleftrightarrow> True"

text \<open>What the peer was sent: whole replies, and the part of the present one that is written.\<close>

definition spoken :: "('p, 't, 's) env \<Rightarrow> ('p module_handler \<Rightarrow> bool \<Rightarrow> string) \<Rightarrow> string \<Rightarrow> bool" where
  "spoken e reply txt \<longleftrightarrow> (\<exists>ts. (\<forall>x \<in> set ts. reply_of e reply True x) \<and> txt = concat ts)"

fun point_said :: "('p, 't, 's) env \<Rightarrow> ('p module_handler \<Rightarrow> bool \<Rightarrow> string) \<Rightarrow> world \<Rightarrow> 'p point \<Rightarrow> string \<Rightarrow> bool" where
  "point_said e reply w (Starting buf txn) txt \<longleftrightarrow> spoken e reply txt"
| "point_said e reply w (Reading ph buf req rsp n txn) txt \<longleftrightarrow> spoken e reply txt"
| "point_said e reply w (Writing buf rsp tmp moved ec txn) txt \<longleftrightarrow>
     (\<exists>before. spoken e reply before \<and> txt = before @ take moved (texts w (resp_buffers rsp)))"
| "point_said e reply w Ended txt \<longleftrightarrow> dialogue (reply_of e reply) txt"

lemma spoken_dialogue: "spoken e reply txt \<Longrightarrow> reply_of e reply alive t \<Longrightarrow> dialogue (reply_of e reply) (txt @ take n t)"
  unfolding spoken_def dialogue_def by blast

lemma spoken_end: "spoken e reply txt \<Longrightarrow> dialogue (reply_of e reply) txt"
  unfolding spoken_def dialogue_def by (metis append_Nil2 take0 take_0)

lemma spoken_more: "spoken e reply txt \<Longrightarrow> reply_of e reply True t \<Longrightarrow> spoken e reply (txt @ t)"
proof -
  assume "spoken e reply txt" and t: "reply_of e reply True t"
  then obtain ts where "\<forall>x \<in> set ts. reply_of e reply True x" "txt = concat ts" by (auto simp: spoken_def)
  then show ?thesis using t unfolding spoken_def by (intro exI [of _ "ts @ [t]"]) auto
qed

lemma spoken_Nil [simp]: "spoken e reply []"
  unfolding spoken_def by (rule exI [of _ "[]"]) simp

subsection \<open>Progress\<close>

text \<open>How far a coroutine is from its end: what its peer has still to send, what is unread in its last
  buffer, what is to be written, and which timers may still fire.\<close>

fun read_rank :: "world \<Rightarrow> 'p point \<Rightarrow> nat" where
  "read_rank w (Starting buf txn) = 2 * rest w buf + 1"
| "read_rank w (Writing buf rsp tmp moved ec txn) = 2 * unread w buf + 2"
| "read_rank w _ = 0"

fun write_rank :: "'p point \<Rightarrow> nat" where
  "write_rank (Writing buf rsp tmp moved ec txn) =
     (if ec = No_error then Suc (length (cs_bytes (\<lambda>_. CHR 0x00) tmp) + cs_left tmp) else 0)"
| "write_rank _ = 0"

definition armed :: "('t, 's) http_connection \<Rightarrow> nat" where
  "armed c = (if hc_timer_idle c = None then 0 else 1) + (if hc_timer_life c = None then 0 else 1)"

definition distance :: "('s \<Rightarrow> nat) \<Rightarrow> world \<Rightarrow> ('t, 's) http_connection \<Rightarrow> 'p point \<Rightarrow> nat \<times> nat \<times> nat \<times> nat" where
  "distance left w c pt = (if pt = Ended then 0 else Suc (left (so_kernel (hc_trans c))), read_rank w pt, write_rank pt, armed c)"

definition nearer :: "((nat \<times> nat \<times> nat \<times> nat) \<times> (nat \<times> nat \<times> nat \<times> nat)) set" where
  "nearer = less_than <*lex*> less_than <*lex*> less_than <*lex*> less_than"

lemma wf_nearer: "wf nearer"
  unfolding nearer_def by (intro wf_lex_prod wf_less_than)

subsection \<open>What a step leaves to the others\<close>

text \<open>A coroutine that held \<open>H\<close> of the lent buffers holds \<open>H'\<close> of those lent now.\<close>

definition spares :: "iobuf_ptr list \<Rightarrow> iobuf_ptr list \<Rightarrow> ('t, 's) http_connection \<Rightarrow> iobuf_ptr list \<Rightarrow> iobuf_ptr list \<Rightarrow> ('t, 's) http_connection \<Rightarrow> bool" where
  "spares lent H c lent' H' c' \<longleftrightarrow> set lent' - set H' = set lent - set H \<and> set H' \<subseteq> set lent' \<and>
     (\<forall>q \<in> set lent - set H. hp_cells (w_heap (hc_world c')) (ptr_addr q) = hp_cells (w_heap (hc_world c)) (ptr_addr q)) \<and>
     pl_size (w_pool (hc_world c')) = pl_size (w_pool (hc_world c)) \<and>
     so_stream_oriented (hc_trans c') = so_stream_oriented (hc_trans c) \<and> hc_connid c' = hc_connid c"

lemma spares_trans: "spares lent H c lent1 H1 c1 \<Longrightarrow> spares lent1 H1 c1 lent2 H2 c2 \<Longrightarrow> spares lent H c lent2 H2 c2"
  by (simp add: spares_def)

lemma spares_refl: "set H \<subseteq> set lent \<Longrightarrow> spares lent H c lent H c"
  by (simp add: spares_def)

lemma sparesI:
  assumes "others_same (hc_world c) lent H (hc_world c')" "set new \<inter> set lent = {}" "set lent' = set new \<union> set lent"
    and "set H \<subseteq> set lent" "set H' = set H \<union> set new" "pl_size (w_pool (hc_world c')) = pl_size (w_pool (hc_world c))"
    and "so_stream_oriented (hc_trans c') = so_stream_oriented (hc_trans c)" "hc_connid c' = hc_connid c"
  shows "spares lent H c lent' H' c'"
  using assms by (auto simp: spares_def others_same_def)

lemma own_bufsD:
  assumes "own_bufs w lent buf rsp"
  shows "bufs_inv w lent buf" "resp_inv w lent rsp" "set (resp_buffers rsp) \<inter> set buf = {}" "set (buf @ resp_buffers rsp) \<subseteq> set lent"
    "distinct (resp_buffers rsp)" "set (resp_buffers rsp) \<subseteq> set lent" "pool_inv (lent_state w lent)" "buf \<noteq> []" "set buf \<subseteq> set lent"
  using assms by (auto simp: own_bufs_def bufs_inv_def resp_inv_def)

text \<open>Only the buffers of the request change.\<close>

lemma own_bufs_frame:
  assumes own: "own_bufs w lent buf rsp" and same: "others_same w lent buf w'"
    and inv: "bufs_inv w' (new @ lent) (buf @ new)" "set new \<inter> set lent = {}" "pl_size (w_pool w') = pl_size (w_pool w)"
  shows "own_bufs w' (new @ lent) (buf @ new) rsp" "phase_inv e reply S w rsp ph \<Longrightarrow> phase_inv e reply S w' rsp ph"
proof -
  note o = own_bufsD [OF own]
  have p: "pool_inv (lent_state w' (new @ lent))" using inv(1) by (simp add: bufs_inv_def)
  have d: "set buf \<inter> set (resp_buffers rsp) = {}" "set (resp_buffers rsp) \<subseteq> set (new @ lent)" using o(3,6) by auto
  note f = resp_inv_frame [OF o(2) same d(1) p d(2) inv(3)]
  show "own_bufs w' (new @ lent) (buf @ new) rsp" using f(1) inv o by (auto simp: own_bufs_def)
  show "phase_inv e reply S w' rsp ph" if "phase_inv e reply S w rsp ph"
    using that f by (cases ph) (simp_all add: fresh_resp_def replied_def)
qed

subsection \<open>From point to point\<close>

lemma destroy_fields [simp]:
  "hc_world (conn_destroy e c) = hc_world c" "hc_connid (conn_destroy e c) = hc_connid c"
  "so_kernel (hc_trans (conn_destroy e c)) = k_close (en_kernel e) (so_kernel (hc_trans c))"
  "so_stream_oriented (hc_trans (conn_destroy e c)) = so_stream_oriented (hc_trans c)"
  by (auto simp: conn_destroy_def clear_timer_def Let_def split: option.splits)

text \<open>Leaving \<open>process_request\<close>.\<close>

lemma leave_parse_ok:
  assumes own: "own_bufs (hc_world c) lent buf rsp"
  shows "\<exists>c' pt' lent'. leave_parse e c buf rsp keep txn = Inr (c', pt') \<and> spares lent (buf @ resp_buffers rsp) c lent' (point_bufs pt') c' \<and>
    pool_inv (lent_state (hc_world c') lent') \<and> point_inv e reply S (hc_world c') lent' pt' \<and>
    so_kernel (hc_trans c') = (if keep then so_kernel (hc_trans c) else k_close (en_kernel e) (so_kernel (hc_trans c))) \<and>
    (if keep then \<exists>b t. pt' = Starting b t \<and> rest (hc_world c') b \<le> unread (hc_world c) buf else pt' = Ended)"
proof -
  note o = own_bufsD [OF own]
  let ?w = "hc_world c" and ?R = "resp_buffers rsp"
  obtain w1 where l: "leave_request c buf rsp keep = Inr (c\<lparr>hc_world := w1\<rparr>, buf, keep)" "bufs_inv w1 (filter (\<lambda>q. q \<notin> set ?R) lent) buf"
      "others_same ?w lent ?R w1" "pl_size (w_pool w1) = pl_size (w_pool ?w)"
    using leave_request_ok [OF o(1,5,6,3) refl] by blast
  let ?lent1 = "filter (\<lambda>q. q \<notin> set ?R) lent"
  have "conn_bufs w1 ?lent1 buf" using l(2) by (simp add: bufs_inv_conn)
  from release_front_ok [OF this] obtain w2 buf2 lent2 where r: "release_front w1 buf = Inr (w2, buf2)" "conn_bufs w2 lent2 buf2"
      "besides buf2 lent2 = besides buf ?lent1" "others_same w1 (besides buf ?lent1) [] w2" "pl_size (w_pool w2) = pl_size (w_pool w1)"
      "rest w2 buf2 \<le> rest w1 buf"
    by blast
  have others: "hp_cells (w_heap w2) (ptr_addr q) = hp_cells (w_heap ?w) (ptr_addr q)" if "q \<in> set lent - set (buf @ ?R)" for q
    using that l(3) r(4) by (auto simp: others_same_def)
  have bes: "set lent2 - set buf2 = set lent - set (buf @ ?R)" using arg_cong [OF r(3), of set] by auto
  have b2: "pool_inv (lent_state w2 lent2)" "distinct buf2" "set buf2 \<subseteq> set lent2" using r(2) by (auto simp: conn_bufs_def)
  have sz: "pl_size (w_pool w2) = pl_size (w_pool ?w)" using r(5) l(4) by simp
  show ?thesis
  proof (cases keep)
    case True
    have "unread w1 buf = unread ?w buf" using o(3,8,9) by (intro unread_same [OF l(3)]) auto
    then have "rest w2 buf2 \<le> unread ?w buf" using r(6) o(8) by (simp add: rest_def)
    then show ?thesis using True l(1) r(1,2) b2 bes others sz
      by (intro exI [of _ "c\<lparr>hc_world := w2\<rparr>"] exI [of _ "Starting buf2 (txn + 1)"] exI [of _ lent2]) (auto simp: leave_parse_def spares_def)
  next
    case False
    obtain w3 where d: "drop_ptrs w2 buf2 [] = Inr w3" "pool_inv (lent_state w3 (besides buf2 lent2))"
      using drop_ptrs_ok [OF b2, of "[]"] by auto
    have "others_same w2 lent2 buf2 w3" by (rule drop_ptrs_others [OF b2(1) d(1) b2(3)])
    then have "hp_cells (w_heap w3) (ptr_addr q) = hp_cells (w_heap ?w) (ptr_addr q)" if "q \<in> set lent - set (buf @ ?R)" for q
      using that others [OF that] bes by (auto simp: others_same_def)
    moreover have "pl_size (w_pool w3) = pl_size (w_pool w2)" using drop_ptrs_frame [OF d(1)] by blast
    moreover have "set (besides buf2 lent2) = set lent - set (buf @ ?R)" using bes by auto
    ultimately show ?thesis using False l(1) r(1) d bes sz
      by (intro exI [of _ "conn_destroy e (c\<lparr>hc_world := w3\<rparr>)"] exI [of _ Ended] exI [of _ "besides buf2 lent2"]) (auto simp: leave_parse_def spares_def)
  qed
qed

text \<open>The loop of \<open>process_request\<close> until it waits: the coroutine leaves, the phase is complete, or it reads.\<close>

lemma feed_cases:
  assumes own: "own_bufs (hc_world c) lent buf rsp" and cons: "consumes (en_api e) (en_exec e)" and S: "0 < pl_size (w_pool (hc_world c))"
  obtains (leave) w where "feed e completed continue ph c buf req rsp n txn = Some (leave_parse e (c\<lparr>hc_world := w\<rparr>) buf rsp False txn)"
      "bufs_inv w lent buf" "others_same (hc_world c) lent buf w" "pl_size (w_pool w) = pl_size (w_pool (hc_world c))"
  | (complete) w req1 where "feed e completed continue ph c buf req rsp n txn = continue (c\<lparr>hc_world := w\<rparr>) buf req1"
      "bufs_inv w lent buf" "others_same (hc_world c) lent buf w" "pl_size (w_pool w) = pl_size (w_pool (hc_world c))" "completed req1"
      "unread w buf \<le> unread (hc_world c) buf" "needs_input e completed req \<Longrightarrow> unread w buf < unread (hc_world c) buf"
  | (wait) w new req1 where "feed e completed continue ph c buf req rsp n txn = Some (Inr (c\<lparr>hc_world := w\<rparr>, Reading ph (buf @ new) req1 rsp n txn))"
      "bufs_inv w (new @ lent) (buf @ new)" "others_same (hc_world c) lent buf w" "pl_size (w_pool w) = pl_size (w_pool (hc_world c))"
      "set new \<inter> set lent = {}" "0 < back_room w (buf @ new)"
proof -
  let ?w = "hc_world c"
  note o = own_bufsD [OF own]
  obtain io where io: "hp_cells (w_heap ?w) (ptr_addr (last buf)) = Some io" "iobuf_ok io" "io_size io = pl_size (w_pool ?w)"
      "back_room ?w buf = iobuf_get_w_available io"
    by (rule bufs_inv_last [OF o(1)])
  obtain io1 req1 where p: "codec_parse (en_api e) (en_sort e) (en_exec e) (bufs_mem ?w buf)
      (ptr_addr (last buf) + sizeof_iobuf) io req = Some (io1, req1)" "read_on io io1"
    using codec_parse_reads [OF io(2) cons] by blast
  note io1 = read_on_same [OF p(2)]
  let ?w1 = "write_cell ?w (ptr_addr (last buf)) io1"
  let ?c1 = "c\<lparr>hc_world := ?w1\<rparr>"
  have l: "last buf \<in> set buf" using o(8) by simp
  have wr: "bufs_inv ?w1 lent buf" "others_same ?w lent buf ?w1" using bufs_inv_write [OF o(1) l io(1), of io1] io1 by simp_all
  have unfold: "feed e completed continue ph c buf req rsp n txn = (if req_error (en_api e) req1 \<noteq> HPE_OK then Some (leave_parse e ?c1 buf rsp False txn)
      else if completed req1 then continue ?c1 buf req1
      else Some (rbind (more_room ?c1 buf io1) (\<lambda>(c2, buf2). Inr (c2, Reading ph buf2 req1 rsp n txn))))"
    using io(1) p(1) by (simp add: feed_def Let_def)
  have le: "io_rpos io \<le> io_rpos io1" "io_rpos io1 \<le> io_wpos io1" "io_wpos io1 = io_wpos io" using p(2) by (auto simp: read_on_def iobuf_ok_def)
  show thesis
  proof (cases "req_error (en_api e) req1 \<noteq> HPE_OK")
    case True
    then show ?thesis using leave [of ?w1] unfold wr by simp
  next
    case ok: False
    show ?thesis
    proof (cases "completed req1")
      case True
      have "io_rpos io < io_rpos io1" if "needs_input e completed req"
        using codec_parse_advances [OF io(2) cons _ p(1)] that ok True by (auto simp: needs_input_def)
      then have "unread ?w1 buf \<le> unread ?w buf" "needs_input e completed req \<longrightarrow> unread ?w1 buf < unread ?w buf"
        using le io(1) by (auto simp: unread_def)
      then show ?thesis using complete [of ?w1 req1] unfold wr True ok by simp
    next
      case False
      have cell: "hp_cells (w_heap (hc_world ?c1)) (ptr_addr (last buf)) = Some io1" by simp
      have inv1: "bufs_inv (hc_world ?c1) lent buf" using wr(1) by simp
      obtain w2 new where m: "more_room ?c1 buf io1 = Inr (?c1\<lparr>hc_world := w2\<rparr>, buf @ new)" "bufs_inv w2 (new @ lent) (buf @ new)"
          "others_same ?w1 lent buf w2" "pl_size (w_pool w2) = pl_size (w_pool ?w)"
          "new = [] \<longrightarrow> 0 < back_room w2 buf" "new \<noteq> [] \<longrightarrow> back_room w2 (buf @ new) = pl_size (w_pool w2)" "set new \<inter> set lent = {}"
        using more_room_ok [OF inv1 cell] by auto
      have "0 < back_room w2 (buf @ new)" using m(4-6) S by (cases "new = []") auto
      then show ?thesis using wait [of w2 new req1] unfold ok False m others_same_trans [OF wr(2) m(3)] by simp
    qed
  qed
qed

subsection \<open>Where a running coroutine stops\<close>

text \<open>Closing and shutting down a socket sends nothing and makes the peer send no more.\<close>

definition hangs_up :: "'s kernel \<Rightarrow> ('s \<Rightarrow> string) \<Rightarrow> ('s \<Rightarrow> nat) \<Rightarrow> bool" where
  "hangs_up k out left \<longleftrightarrow> (\<forall>s. out (k_shutdown k s) = out s \<and> left (k_shutdown k s) \<le> left s \<and> out (k_close k s) = out s)"

text \<open>A point where nothing of a reply is written yet.\<close>

fun silent :: "'p point \<Rightarrow> bool" where
  "silent (Starting buf txn) = True"
| "silent (Reading ph buf req rsp n txn) = True"
| "silent (Writing buf rsp tmp moved ec txn) \<longleftrightarrow> moved = 0"
| "silent Ended = True"

text \<open>A coroutine with the buffers \<open>H\<close> that runs without an operation of the socket stops at a point.\<close>

definition lands :: "('p, 't, 's) env \<Rightarrow> ('p module_handler \<Rightarrow> bool \<Rightarrow> string) \<Rightarrow> int \<Rightarrow> ('s \<Rightarrow> string) \<Rightarrow> iobuf_ptr list \<Rightarrow> iobuf_ptr list \<Rightarrow> nat
    \<Rightarrow> ('t, 's) http_connection \<Rightarrow> ('t, 's) http_connection \<Rightarrow> 'p point \<Rightarrow> bool" where
  "lands e reply S out lent H r c c' pt' \<longleftrightarrow>
     (\<exists>lent'. spares lent H c lent' (point_bufs pt') c' \<and> pool_inv (lent_state (hc_world c') lent') \<and> point_inv e reply S (hc_world c') lent' pt') \<and>
     out (so_kernel (hc_trans c')) = out (so_kernel (hc_trans c)) \<and> (pt' \<noteq> Ended \<longrightarrow> so_kernel (hc_trans c') = so_kernel (hc_trans c)) \<and>
     silent pt' \<and> read_rank (hc_world c') pt' \<le> r"

lemma lands_after:
  assumes "spares lent H c lent1 H1 c1" "so_kernel (hc_trans c1) = so_kernel (hc_trans c)" "lands e reply S out lent1 H1 r1 c1 c' pt'" "r1 \<le> r"
  shows "lands e reply S out lent H r c c' pt'"
  using assms spares_trans [OF assms(1)] unfolding lands_def by force

lemma lands_said:
  assumes "lands e reply S out lent H r c c' pt'" "spoken e reply (out (so_kernel (hc_trans c)))"
  shows "point_said e reply (hc_world c') pt' (out (so_kernel (hc_trans c')))"
  using assms by (cases pt') (auto simp: lands_def spoken_end)

locale serving =
  fixes e :: "('p, 't, 's) env" and reply :: "'p module_handler \<Rightarrow> bool \<Rightarrow> string" and S :: int
    and out :: "'s \<Rightarrow> string" and left :: "'s \<Rightarrow> nat" and wait :: "'s \<Rightarrow> nat"
  assumes consumes: "consumes (en_api e) (en_exec e)" and advances: "advances (en_api e) (en_exec e)"
    and receives: "receives (en_kernel e) out left wait" and sends: "sends (en_kernel e) out wait"
    and quiet: "quiet (en_kernel e) left" and hangs_up: "hangs_up (en_kernel e) out left"
    and handlers: "\<And>key. \<exists>h. match_handler (en_handlers e) key = Some h \<and> answering_handler h (en_gmtime e) (reply h) S"
    and room: "0 < S"
begin

lemma leave_lands:
  assumes "own_bufs (hc_world c) lent buf rsp"
  shows "\<exists>c'. leave_parse e c buf rsp False txn = Inr (c', Ended) \<and> lands e reply S out lent (buf @ resp_buffers rsp) 0 c c' Ended"
  using leave_parse_ok [OF assms, of e False txn reply S] hangs_up by (auto simp: lands_def hangs_up_def)

lemma wait_lands:
  assumes own: "own_bufs (hc_world c) lent buf rsp" and ph: "phase_inv e reply S (hc_world c) rsp ph"
    and w: "bufs_inv w (new @ lent) (buf @ new)" "others_same (hc_world c) lent buf w" "pl_size (w_pool w) = pl_size (w_pool (hc_world c))"
      "set new \<inter> set lent = {}" "0 < back_room w (buf @ new)"
  shows "lands e reply S out lent (buf @ resp_buffers rsp) 0 c (c\<lparr>hc_world := w\<rparr>) (Reading ph (buf @ new) req rsp n txn)"
proof -
  note f = own_bufs_frame [OF own w(2,1,4,3)]
  have "spares lent (buf @ resp_buffers rsp) c (new @ lent) ((buf @ new) @ resp_buffers rsp) (c\<lparr>hc_world := w\<rparr>)"
    using w(2,3,4) own_bufsD(4) [OF own] by (intro sparesI [where new = new]) (auto simp: others_same_def)
  then show ?thesis using f ph w(5) own_bufsD(7) [OF f(1)] unfolding lands_def by (intro conjI exI [of _ "new @ lent"]) auto
qed

lemma message_lands:
  assumes own: "own_bufs (hc_world c) lent buf rsp" and r: "replied e reply S (hc_world c) rsp mh"
  shows "\<exists>c' tmp. message_received e mh rsp txn c buf req = Some (Inr (c', Writing buf rsp tmp 0 No_error txn)) \<and>
    lands e reply S out lent (buf @ resp_buffers rsp) (2 * unread (hc_world c) buf + 2) c c' (Writing buf rsp tmp 0 No_error txn)"
proof -
  note o = own_bufsD [OF own]
  let ?R = "resp_buffers rsp" and ?w = "hc_world c"
  obtain h key where h: "mh = Some h" "match_handler (en_handlers e) key = Some h" "answering_handler h (en_gmtime e) (reply h) S"
      "texts ?w ?R = reply h (resp_is_keep_alive rsp)"
    using r by (auto simp: replied_def)
  obtain obs where obs: "out_buffers ?w ?R = Inr obs" "cbs_bytes (bufs_mem ?w ?R) obs = texts ?w ?R"
    using out_buffers_text [OF o(2) subset_refl] by blast
  let ?c = "start_timer e (pause_timer e c)" and ?tmp = "cs_prepare (transfer_all False 0) (consuming_make obs)"
  have "message_received e mh rsp txn c buf req = Some (Inr (?c, Writing buf rsp ?tmp 0 No_error txn))"
    using obs(1) by (simp add: message_received_def h(1) answering_handler.body_call [OF h(3)])
  moreover have "writing_inv e reply ?w rsp ?tmp 0 No_error"
  proof -
    have "reply_of e reply (resp_is_keep_alive rsp) (texts ?w ?R)" using h(2,4) by (auto simp: reply_of_def)
    moreover have "length (texts ?w ?R) < size_max" using answering_handler.short [OF h(3)] h(4) by simp
    ultimately show ?thesis using obs(2)
      by (simp add: writing_inv_def Let_def cs_bytes_make) (simp add: cs_prepare_def transfer_all_def default_max_transfer_size_def)
  qed
  moreover have "spares lent (buf @ ?R) c lent (buf @ ?R) ?c" using o(4) by (simp add: spares_def)
  ultimately show ?thesis using own o(7) unfolding lands_def
    by (intro exI [of _ ?c] exI [of _ ?tmp]) auto
qed

lemma feed_lands:
  assumes own: "own_bufs (hc_world c) lent buf rsp" and ph: "phase_inv e reply S (hc_world c) rsp ph" and S: "pl_size (w_pool (hc_world c)) = S"
    and cont: "\<And>w req1. own_bufs w lent buf rsp \<Longrightarrow> phase_inv e reply S w rsp ph \<Longrightarrow> pl_size (w_pool w) = S \<Longrightarrow>
      unread w buf \<le> unread (hc_world c) buf \<Longrightarrow> (needs_input e completed req \<Longrightarrow> unread w buf < unread (hc_world c) buf) \<Longrightarrow>
      \<exists>c' pt'. continue (c\<lparr>hc_world := w\<rparr>) buf req1 = Some (Inr (c', pt')) \<and>
        lands e reply S out lent (buf @ resp_buffers rsp) r (c\<lparr>hc_world := w\<rparr>) c' pt'"
  shows "\<exists>c' pt'. feed e completed continue ph c buf req rsp n txn = Some (Inr (c', pt')) \<and>
    lands e reply S out lent (buf @ resp_buffers rsp) r c c' pt'"
proof -
  let ?H = "buf @ resp_buffers rsp" and ?feed = "feed e completed continue ph c buf req rsp n txn"
  have pos: "0 < pl_size (w_pool (hc_world c))" using S room by simp
  have mid: "own_bufs w lent buf rsp" "spares lent ?H c lent ?H (c\<lparr>hc_world := w\<rparr>)" "phase_inv e reply S w rsp ph"
    if "bufs_inv w lent buf" "others_same (hc_world c) lent buf w" "pl_size (w_pool w) = pl_size (w_pool (hc_world c))" for w
    using own_bufs_frame(1) [OF own that(2), of "[]"] own_bufs_frame(2) [OF own that(2), of "[]" e reply S ph] that ph own_bufsD(4) [OF own]
    by (auto intro!: sparesI [where new = "[]"] simp: others_same_def)
  show ?thesis
  proof (rule feed_cases [OF own consumes pos, of completed continue ph req n txn])
    fix w assume w: "?feed = Some (leave_parse e (c\<lparr>hc_world := w\<rparr>) buf rsp False txn)"
      "bufs_inv w lent buf" "others_same (hc_world c) lent buf w" "pl_size (w_pool w) = pl_size (w_pool (hc_world c))"
    note m = mid [OF w(2-4)]
    obtain c' where l: "leave_parse e (c\<lparr>hc_world := w\<rparr>) buf rsp False txn = Inr (c', Ended)" "lands e reply S out lent ?H 0 (c\<lparr>hc_world := w\<rparr>) c' Ended"
      using leave_lands [of "c\<lparr>hc_world := w\<rparr>" lent buf rsp txn] m(1) by auto
    have "lands e reply S out lent ?H r c c' Ended" by (rule lands_after [OF m(2) _ l(2)]) simp_all
    then show ?thesis using w(1) l(1) by simp
  next
    fix w req1 assume w: "?feed = continue (c\<lparr>hc_world := w\<rparr>) buf req1"
      "bufs_inv w lent buf" "others_same (hc_world c) lent buf w" "pl_size (w_pool w) = pl_size (w_pool (hc_world c))"
      "unread w buf \<le> unread (hc_world c) buf" "needs_input e completed req \<Longrightarrow> unread w buf < unread (hc_world c) buf"
    note m = mid [OF w(2-4)]
    have "pl_size (w_pool w) = S" using w(4) S by simp
    from cont [OF m(1,3) this w(5,6)] obtain c' pt' where l: "continue (c\<lparr>hc_world := w\<rparr>) buf req1 = Some (Inr (c', pt'))"
        "lands e reply S out lent ?H r (c\<lparr>hc_world := w\<rparr>) c' pt'"
      by blast
    have "lands e reply S out lent ?H r c c' pt'" by (rule lands_after [OF m(2) _ l(2)]) simp_all
    then show ?thesis using w(1) l(1) by simp
  next
    fix w new req1 assume w: "?feed = Some (Inr (c\<lparr>hc_world := w\<rparr>, Reading ph (buf @ new) req1 rsp n txn))"
      "bufs_inv w (new @ lent) (buf @ new)" "others_same (hc_world c) lent buf w" "pl_size (w_pool w) = pl_size (w_pool (hc_world c))"
      "set new \<inter> set lent = {}" "0 < back_room w (buf @ new)"
    show ?thesis using w(1) wait_lands [OF own ph w(2-6), of req1 n txn] by (simp add: lands_def)
  qed
qed

lemma feed_body_lands:
  assumes own: "own_bufs (hc_world c) lent buf rsp" and r: "replied e reply S (hc_world c) rsp mh" and S: "pl_size (w_pool (hc_world c)) = S"
    and b: "2 * unread (hc_world c) buf + 2 \<le> b"
  shows "\<exists>c' pt'. feed_body e mh c buf req rsp n txn = Some (Inr (c', pt')) \<and> lands e reply S out lent (buf @ resp_buffers rsp) b c c' pt'"
  unfolding feed_body_def
proof (rule feed_lands [OF own _ S])
  fix w req1 assume w: "own_bufs w lent buf rsp" "phase_inv e reply S w rsp (Body mh)" "unread w buf \<le> unread (hc_world c) buf"
  obtain c' tmp where l: "message_received e mh rsp txn (c\<lparr>hc_world := w\<rparr>) buf req1 = Some (Inr (c', Writing buf rsp tmp 0 No_error txn))"
      "lands e reply S out lent (buf @ resp_buffers rsp) (2 * unread w buf + 2) (c\<lparr>hc_world := w\<rparr>) c' (Writing buf rsp tmp 0 No_error txn)"
    using message_lands [of "c\<lparr>hc_world := w\<rparr>" lent buf rsp mh txn req1] w(1,2) by auto
  then show "\<exists>c' pt'. message_received e mh rsp txn (c\<lparr>hc_world := w\<rparr>) buf req1 = Some (Inr (c', pt')) \<and>
      lands e reply S out lent (buf @ resp_buffers rsp) b (c\<lparr>hc_world := w\<rparr>) c' pt'"
    using w(3) b by (auto simp: lands_def)
qed (use r in simp)

lemma header_lands:
  assumes own: "own_bufs (hc_world c) lent buf rsp" and fresh: "fresh_resp S (hc_world c) rsp" and S: "pl_size (w_pool (hc_world c)) = S"
    and b: "2 * unread (hc_world c) buf + 2 \<le> b"
  shows "\<exists>c' pt'. header_received e rsp txn c buf req = Some (Inr (c', pt')) \<and> lands e reply S out lent (buf @ resp_buffers rsp) b c c' pt'"
proof -
  note o = own_bufsD [OF own]
  let ?R = "resp_buffers rsp" and ?mh = "match_handler (en_handlers e) (path_data req)" and ?c = "pause_timer e c"
  let ?alive = "req_keep_alive (en_api e) req"
  obtain h where h: "?mh = Some h" "answering_handler h (en_gmtime e) (reply h) S" using handlers by blast
  obtain w rsp2 where w: "call_handler e (Some h) HE_REQUEST_HDR mh_on_request_header On_request_header txn req ?c rsp =
        Inr (?c\<lparr>hc_world := w, hc_calls := hc_calls ?c @ [On_request_header (mh_name h) (hc_connid ?c) txn]\<rparr>, rsp2)"
      "resp_inv w lent rsp2" "texts w (resp_buffers rsp2) = reply h ?alive" "resp_is_keep_alive rsp2 = ?alive" "resp_buffers rsp2 = ?R"
      "others_same (hc_world c) lent ?R w" "w_pool w = w_pool (hc_world c)"
    using answering_handler.header_call [OF h(2) refl, of ?c lent rsp txn req] o(2) fresh by (auto simp: fresh_resp_def)
  let ?c2 = "start_timer e (?c\<lparr>hc_world := w, hc_calls := hc_calls ?c @ [On_request_header (mh_name h) (hc_connid ?c) txn]\<rparr>)"
  have "bufs_inv w lent buf"
    by (rule bufs_inv_frame [OF o(1) w(6) o(3)]) (use w(2,7) o(9) in \<open>auto simp: resp_inv_def\<close>)
  then have own2: "own_bufs (hc_world ?c2) lent buf rsp2" using w(2,5) o(3) by (simp add: own_bufs_def)
  have rep: "replied e reply S (hc_world ?c2) rsp2 (Some h)" using h w(3,4) by (auto simp: replied_def)
  have "unread w buf = unread (hc_world c) buf" using o(3,8,9) by (intro unread_same [OF w(6)]) auto
  then have b2: "2 * unread (hc_world ?c2) buf + 2 \<le> b" using b by simp
  obtain c' pt' where l: "feed_body e (Some h) ?c2 buf req rsp2 0 txn = Some (Inr (c', pt'))" "lands e reply S out lent (buf @ ?R) b ?c2 c' pt'"
    using feed_body_lands [OF own2 rep _ b2, of req 0 txn] S w(5,7) by auto
  have "spares lent (buf @ ?R) c lent (buf @ ?R) ?c2"
    using w(6,7) o(4) by (intro sparesI [where new = "[]"]) (auto simp: others_same_def)
  from lands_after [OF this _ l(2) order_refl] have "lands e reply S out lent (buf @ ?R) b c c' pt'" by simp
  then show ?thesis using l(1) w(1) h(1) by (simp add: header_received_def Let_def)
qed

lemma feed_header_lands:
  assumes own: "own_bufs (hc_world c) lent buf rsp" and fresh: "fresh_resp S (hc_world c) rsp" and S: "pl_size (w_pool (hc_world c)) = S"
    and b: "2 * unread (hc_world c) buf + (if needs_input e headers_completed req then 0 else 2) \<le> b"
  shows "\<exists>c' pt'. feed_header e c buf req rsp n txn = Some (Inr (c', pt')) \<and> lands e reply S out lent (buf @ resp_buffers rsp) b c c' pt'"
  unfolding feed_header_def
proof (rule feed_lands [OF own _ S])
  fix w req1 assume w: "own_bufs w lent buf rsp" "phase_inv e reply S w rsp Header" "pl_size (w_pool w) = S" "unread w buf \<le> unread (hc_world c) buf"
    "needs_input e headers_completed req \<Longrightarrow> unread w buf < unread (hc_world c) buf"
  have "2 * unread w buf + 2 \<le> b" using w(4,5) b by (cases "needs_input e headers_completed req") auto
  then show "\<exists>c' pt'. header_received e rsp txn (c\<lparr>hc_world := w\<rparr>) buf req1 = Some (Inr (c', pt')) \<and>
      lands e reply S out lent (buf @ resp_buffers rsp) b (c\<lparr>hc_world := w\<rparr>) c' pt'"
    using header_lands [of "c\<lparr>hc_world := w\<rparr>" lent buf rsp b txn req1] w(1-3) by simp
qed (use fresh in simp)

lemma feed_phase_lands:
  assumes "own_bufs (hc_world c) lent buf rsp" "phase_inv e reply S (hc_world c) rsp ph" "pl_size (w_pool (hc_world c)) = S"
  shows "\<exists>c' pt'. feed_phase e ph c buf req rsp n txn = Some (Inr (c', pt')) \<and>
    lands e reply S out lent (buf @ resp_buffers rsp) (2 * unread (hc_world c) buf + 2) c c' pt'"
proof (cases ph)
  case Header
  then show ?thesis using feed_header_lands [OF assms(1) _ assms(3)] assms(2) by simp
next
  case (Body mh)
  then show ?thesis using feed_body_lands [OF assms(1) _ assms(3) order_refl] assms(2) by simp
qed

lemma start_request_lands:
  assumes inv: "conn_bufs (hc_world c) lent reqbuf" and S: "pl_size (w_pool (hc_world c)) = S"
  shows "\<exists>c' pt'. start_request e c reqbuf txn = Some (Inr (c', pt')) \<and> lands e reply S out lent reqbuf (2 * rest (hc_world c) reqbuf) c c' pt'"
proof -
  obtain w buf lent1 where 1: "first_buffer c reqbuf = Inr (c\<lparr>hc_world := w\<rparr>, buf)" "bufs_inv w lent1 buf" "besides buf lent1 = besides reqbuf lent"
      "others_same (hc_world c) (besides reqbuf lent) [] w" "pl_size (w_pool w) = S" "unread w buf = rest (hc_world c) reqbuf"
    using first_buffer_ok [OF inv] S by auto
  have b: "pool_inv (lent_state w lent1)" "buf \<noteq> []" "set buf \<subseteq> set lent1" using 1(2) by (auto simp: bufs_inv_def)
  obtain w2 rsp lent2 where m: "resp_make w = Inr (w2, rsp)" "resp_inv w2 lent2 rsp" "header_text w2 rsp = []" "body_text w2 rsp = []"
      "back_room w2 (rs_header rsp) = S" "back_room w2 (rs_body rsp) = S" "pl_size (w_pool w2) = S"
      "lent2 = rs_body rsp @ rs_header rsp @ lent1" "others_same w lent1 [] w2"
    by (rule resp_make_ok [OF b(1)]) (use 1(5) in auto)
  let ?c2 = "start_timer e (c\<lparr>hc_world := w2\<rparr>)" and ?R = "resp_buffers rsp" and ?req = "req_make (en_api e) (en_urldata e)"
  have R: "set lent2 = set ?R \<union> set lent1" "set ?R \<inter> set lent1 = {}"
    using m(8) fresh_resp_buffers(1) [OF m(2,8)] by (auto simp: resp_buffers_def)
  have "bufs_inv w2 lent2 buf" by (rule bufs_inv_frame [OF 1(2) m(9)]) (use m(2,7) R b(3) 1(5) in \<open>auto simp: resp_inv_def\<close>)
  then have own: "own_bufs (hc_world ?c2) lent2 buf rsp" using m(2) R b(3) by (auto simp: own_bufs_def)
  have fresh: "fresh_resp S (hc_world ?c2) rsp" using m(3-6) by (simp add: fresh_resp_def)
  have "set (besides buf lent1) = set (besides reqbuf lent)" using 1(3) by simp
  then have "spares lent reqbuf c lent1 buf (c\<lparr>hc_world := w\<rparr>)" using 1(4,5) b(3) S by (auto simp: spares_def others_same_def)
  moreover have "spares lent1 buf (c\<lparr>hc_world := w\<rparr>) lent2 (buf @ ?R) ?c2"
    using m(7,9) R b(3) 1(5) by (intro sparesI [where new = ?R]) (auto simp: others_same_def)
  ultimately have k: "spares lent reqbuf c lent2 (buf @ ?R) ?c2" by (rule spares_trans)
  have u: "unread w2 buf = rest (hc_world c) reqbuf" using unread_same [OF m(9) b(2,3)] 1(6) by simp
  have "needs_input e headers_completed ?req" using advances
    by (simp add: needs_input_def clear_cb_error_def headers_completed_def req_make_def)
  then obtain c' pt' where l: "feed_header e ?c2 buf ?req rsp 0 txn = Some (Inr (c', pt'))"
      "lands e reply S out lent2 (buf @ ?R) (2 * rest (hc_world c) reqbuf) ?c2 c' pt'"
    using feed_header_lands [OF own fresh, of ?req "2 * rest (hc_world c) reqbuf" 0 txn] m(7) u by auto
  have "lands e reply S out lent reqbuf (2 * rest (hc_world c) reqbuf) c c' pt'" by (rule lands_after [OF k _ l(2)]) simp_all
  then show ?thesis using 1(1) m(1) l(1) by (simp add: start_request_def)
qed

end

text \<open>What \<open>resume\<close> achieves.\<close>

definition moves_on :: "('p, 't, 's) env \<Rightarrow> ('p module_handler \<Rightarrow> bool \<Rightarrow> string) \<Rightarrow> int \<Rightarrow> ('s \<Rightarrow> string) \<Rightarrow> ('s \<Rightarrow> nat) \<Rightarrow> iobuf_ptr list
    \<Rightarrow> ('t, 's) http_connection \<Rightarrow> 'p point \<Rightarrow> ('t, 's) http_connection \<Rightarrow> 'p point \<Rightarrow> bool" where
  "moves_on e reply S out left lent c pt c' pt' \<longleftrightarrow>
     (\<exists>lent'. spares lent (point_bufs pt) c lent' (point_bufs pt') c' \<and> pool_inv (lent_state (hc_world c') lent') \<and>
       point_inv e reply S (hc_world c') lent' pt') \<and>
     (point_said e reply (hc_world c) pt (out (so_kernel (hc_trans c))) \<longrightarrow> point_said e reply (hc_world c') pt' (out (so_kernel (hc_trans c')))) \<and>
     (distance left (hc_world c') c' pt', distance left (hc_world c) c pt) \<in> nearer"

lemma cs_bytes_length: "length (cs_bytes m c) = length (cs_bytes m' c)"
  by (simp add: cs_bytes_def cbs_bytes_def length_concat o_def)

context serving
begin

lemma resume_start:
  assumes "conn_bufs (hc_world c) lent buf" "pl_size (w_pool (hc_world c)) = S"
  shows "\<exists>c' pt'. resume e c (Starting buf txn) = Some (Inr (c', pt')) \<and> moves_on e reply S out left lent c (Starting buf txn) c' pt'"
proof -
  obtain c' pt' where l: "start_request e c buf txn = Some (Inr (c', pt'))" "lands e reply S out lent buf (2 * rest (hc_world c) buf) c c' pt'"
    using start_request_lands [OF assms] by blast
  have "(distance left (hc_world c') c' pt', distance left (hc_world c) c (Starting buf txn)) \<in> nearer"
    using l(2) by (auto simp: distance_def nearer_def lands_def)
  then show ?thesis using l lands_said [OF l(2)] by (auto simp: moves_on_def lands_def)
qed

lemma resume_reading:
  assumes own: "own_bufs (hc_world c) lent buf rsp" and r: "0 < back_room (hc_world c) buf" "phase_inv e reply S (hc_world c) rsp ph"
    and S: "pl_size (w_pool (hc_world c)) = S" "so_stream_oriented (hc_trans c)"
  shows "\<exists>c' pt'. resume e c (Reading ph buf req rsp n txn) = Some (Inr (c', pt')) \<and>
    moves_on e reply S out left lent c (Reading ph buf req rsp n txn) c' pt'"
proof -
  let ?H = "buf @ resp_buffers rsp"
  note o = own_bufsD [OF own]
  obtain w s got where g: "read_more e c buf = Some (Inr (c\<lparr>hc_world := w, hc_trans := s\<rparr>, got))" "bufs_inv w lent buf"
      "others_same (hc_world c) lent buf w" "w_pool w = w_pool (hc_world c)" "out (so_kernel s) = out (so_kernel (hc_trans c))"
      "same_socket (hc_trans c) s" "left (so_kernel s) \<le> left (so_kernel (hc_trans c))"
      "\<forall>n. got = Some n \<longrightarrow> left (so_kernel s) < left (so_kernel (hc_trans c))"
    using read_more_ok [OF o(1) r(1) receives S(2)] by blast
  let ?c = "c\<lparr>hc_world := w, hc_trans := s\<rparr>"
  have own1: "own_bufs (hc_world ?c) lent buf rsp" and ph1: "phase_inv e reply S (hc_world ?c) rsp ph" and S1: "pl_size (w_pool (hc_world ?c)) = S"
    using own_bufs_frame(1) [OF own g(3), of "[]"] own_bufs_frame(2) [OF own g(3), of "[]" e reply S ph] g(2,4) r(2) S(1) by simp_all
  have k: "spares lent ?H c lent ?H ?c"
    using g(3,4) o(4) stream_same [OF g(6)] by (intro sparesI [where new = "[]"]) (auto simp: others_same_def)
  have go: "moves_on e reply S out left lent c (Reading ph buf req rsp n txn) c' pt'"
    if l: "lands e reply S out lent ?H b ?c c' pt'" and near: "got \<noteq> None \<or> pt' = Ended" for c' pt' b
  proof -
    have "(distance left (hc_world c') c' pt', distance left (hc_world c) c (Reading ph buf req rsp n txn)) \<in> nearer"
      using l near g(8) by (auto simp: distance_def nearer_def lands_def)
    moreover have "spoken e reply (out (so_kernel (hc_trans c))) \<longrightarrow> point_said e reply (hc_world c') pt' (out (so_kernel (hc_trans c')))"
      using lands_said [OF l] g(5) by simp
    ultimately show ?thesis using l spares_trans [OF k] unfolding moves_on_def lands_def by force
  qed
  show ?thesis
  proof (cases "\<exists>k. got = Some k \<and> \<not> phase_limit e ph < size_of_int (cint (n + int k))")
    case True
    then obtain j where j: "got = Some j" "\<not> phase_limit e ph < size_of_int (cint (n + int j))" by blast
    obtain c' pt' where l: "feed_phase e ph ?c buf req rsp (cint (n + int j)) txn = Some (Inr (c', pt'))"
        "lands e reply S out lent ?H (2 * unread (hc_world ?c) buf + 2) ?c c' pt'"
      using feed_phase_lands [OF own1 ph1 S1] by blast
    then show ?thesis using g(1) j go [OF l(2)] by (simp add: resume_read_def)
  next
    case False
    obtain c' where l: "leave_parse e ?c buf rsp False txn = Inr (c', Ended)" "lands e reply S out lent ?H 0 ?c c' Ended"
      using leave_lands [OF own1] by blast
    then have "resume_read e ph c buf req rsp n txn = Some (Inr (c', Ended))" using g(1) False by (auto simp: resume_read_def split: option.splits)
    then show ?thesis using go [OF l(2)] by simp
  qed
qed

lemma resume_written:
  assumes own: "own_bufs (hc_world c) lent buf rsp" and inv: "writing_inv e reply (hc_world c) rsp tmp moved ec" and at_end: "ci_at_end (cs_begin tmp)"
  shows "\<exists>c' pt'. resume e c (Writing buf rsp tmp moved ec txn) = Some (Inr (c', pt')) \<and>
    moves_on e reply S out left lent c (Writing buf rsp tmp moved ec txn) c' pt'"
proof -
  let ?t = "texts (hc_world c) (resp_buffers rsp)" and ?keep = "ec = No_error \<and> resp_is_keep_alive rsp" and ?pt = "Writing buf rsp tmp moved ec txn"
  have t: "reply_of e reply (resp_is_keep_alive rsp) ?t" "moved \<le> length ?t" using inv by (auto simp: writing_inv_def Let_def)
  have all: "take moved ?t = ?t" if ?keep
  proof -
    have "cs_bytes (bufs_mem (hc_world c) (resp_buffers rsp)) tmp = []" "cs_bytes (bufs_mem (hc_world c) (resp_buffers rsp)) tmp = drop moved ?t"
      using that inv at_end by (auto simp: writing_inv_def Let_def cs_begin_def cs_bytes_def split: if_splits)
    then show ?thesis by simp
  qed
  have own1: "own_bufs (hc_world (pause_timer e c)) lent buf rsp" using own by simp
  obtain c' pt' lent' where l: "leave_parse e (pause_timer e c) buf rsp ?keep txn = Inr (c', pt')"
      "spares lent (buf @ resp_buffers rsp) (pause_timer e c) lent' (point_bufs pt') c'"
      "pool_inv (lent_state (hc_world c') lent')" "point_inv e reply S (hc_world c') lent' pt'"
      "so_kernel (hc_trans c') = (if ?keep then so_kernel (hc_trans c) else k_close (en_kernel e) (so_kernel (hc_trans c)))"
      "if ?keep then \<exists>b u. pt' = Starting b u \<and> rest (hc_world c') b \<le> unread (hc_world c) buf else pt' = Ended"
    using leave_parse_ok [OF own1, of e ?keep txn reply S] unfolding timer_fields by blast
  have k: "spares lent (point_bufs ?pt) c lent' (point_bufs pt') c'" using l(2) by (simp add: spares_def)
  have near: "(distance left (hc_world c') c' pt', distance left (hc_world c) c ?pt) \<in> nearer"
    using l(5,6) by (cases ?keep) (auto simp: distance_def nearer_def)
  have said: "point_said e reply (hc_world c') pt' (out (so_kernel (hc_trans c')))"
    if before: "spoken e reply before" and "out (so_kernel (hc_trans c)) = before @ take moved ?t" for before
  proof (cases ?keep)
    case True
    then have "reply_of e reply True ?t" using t(1) by simp
    then show ?thesis using True l(5,6) all that spoken_more [OF before] by auto
  next
    case False
    then have "out (so_kernel (hc_trans c')) = out (so_kernel (hc_trans c))" using l(5) hangs_up by (auto simp: hangs_up_def)
    then show ?thesis using False l(6) that spoken_dialogue [OF before t(1), of moved] by simp
  qed
  have "resume e c ?pt = Some (Inr (c', pt'))" using l(1) at_end by (simp add: resume_write_def)
  then show ?thesis using k l(3,4) near said by (auto simp: moves_on_def)
qed

lemma resume_writing:
  assumes own: "own_bufs (hc_world c) lent buf rsp" and inv: "writing_inv e reply (hc_world c) rsp tmp moved ec" and more: "\<not> ci_at_end (cs_begin tmp)"
  shows "\<exists>c' pt'. resume e c (Writing buf rsp tmp moved ec txn) = Some (Inr (c', pt')) \<and>
    moves_on e reply S out left lent c (Writing buf rsp tmp moved ec txn) c' pt'"
proof -
  let ?R = "resp_buffers rsp" and ?w = "hc_world c" and ?pt = "Writing buf rsp tmp moved ec txn"
  let ?t = "texts ?w ?R" and ?m = "bufs_mem ?w ?R"
  have t: "reply_of e reply (resp_is_keep_alive rsp) ?t" "length ?t < size_max" "moved \<le> length ?t" "ec = No_error"
      "cs_max_size tmp = 65536" "cs_bytes ?m tmp = drop moved ?t"
    using inv more by (auto simp: writing_inv_def Let_def split: if_splits)
  obtain n ec1 s where w: "write_some (en_kernel e) ?m (hc_trans c) (cs_list tmp) = Some ((n, ec1), s)" "n \<le> length (drop moved ?t)"
      "out (so_kernel s) = out (so_kernel (hc_trans c)) @ take n (drop moved ?t)" "same_socket (hc_trans c) s"
      "ec1 = No_error \<longrightarrow> length (cs_bytes ?m (cs_consume n tmp)) + cs_left (cs_consume n tmp) < length (cs_bytes ?m tmp) + cs_left tmp"
    by (rule write_step [OF sends t(5) _ more, of ?m "hc_trans c"]) (use t(2,6) in auto)
  let ?tmp = "cs_prepare (transfer_all (ec1 \<noteq> No_error) (moved + n)) (cs_consume n tmp)"
  let ?c = "c\<lparr>hc_trans := s\<rparr>" and ?pt' = "Writing buf rsp ?tmp (moved + n) ec1 txn"
  have lt: "moved + n < size_max" using w(2) t(2,3) by simp
  then have r: "resume e c ?pt = Some (Inr (?c, ?pt'))" using w(1) more by (simp add: resume_write_def)
  have b: "cs_bytes m ?tmp = drop n (cs_bytes m tmp)" "cs_left ?tmp = cs_left (cs_consume n tmp)" for m
    by simp (simp add: cs_left_def cs_prepare_def)
  have "writing_inv e reply ?w rsp ?tmp (moved + n) ec1"
  proof (cases "ec1 = No_error")
    case True
    then have "cs_max_size ?tmp = 65536" by (simp add: cs_prepare_def transfer_all_def default_max_transfer_size_def)
    then show ?thesis using True t w(2) b(1) [of ?m] by (simp add: writing_inv_def Let_def add.commute)
  next
    case False
    then show ?thesis using t w(2) by (simp add: writing_inv_def Let_def) (simp add: cs_begin_def cs_prepare_def transfer_all_def)
  qed
  moreover have "spares lent (point_bufs ?pt) c lent (point_bufs ?pt') ?c" using own_bufsD(4) [OF own] stream_same [OF w(4)] by (simp add: spares_def)
  moreover have "(distance left ?w ?c ?pt', distance left ?w c ?pt) \<in> nearer"
  proof -
    have "left (so_kernel s) \<le> left (so_kernel (hc_trans c))" by (rule write_some_quiet [OF w(1) quiet])
    moreover have "write_rank ?pt' < write_rank ?pt" using w(5) t(4) b cs_bytes_length [of "\<lambda>_. CHR 0x00" tmp ?m] by auto
    ultimately show ?thesis by (auto simp: distance_def nearer_def simp del: write_rank.simps)
  qed
  moreover have "take moved ?t @ take n (drop moved ?t) = take (moved + n) ?t" by (simp add: take_add)
  then have "point_said e reply ?w ?pt (out (so_kernel (hc_trans c))) \<longrightarrow> point_said e reply ?w ?pt' (out (so_kernel s))"
    using w(3) by auto
  ultimately show ?thesis unfolding r moves_on_def using own own_bufsD(7) [OF own]
    by (intro exI [of _ ?c] exI [of _ ?pt'] conjI exI [of _ lent]) simp_all
qed

text \<open>A coroutine that is not at its end can always be resumed; it keeps its invariant, leaves the buffers
  of the others alone and comes nearer to its end.\<close>

lemma resume_ok:
  assumes "point_inv e reply S (hc_world c) lent pt" "pl_size (w_pool (hc_world c)) = S" "so_stream_oriented (hc_trans c)" "pt \<noteq> Ended"
  shows "\<exists>c' pt'. resume e c pt = Some (Inr (c', pt')) \<and> moves_on e reply S out left lent c pt c' pt'"
proof (cases pt)
  case (Starting buf txn)
  then show ?thesis using resume_start assms by simp
next
  case (Reading ph buf req rsp n txn)
  then show ?thesis using resume_reading assms by simp
next
  case (Writing buf rsp tmp moved ec txn)
  then show ?thesis using resume_written [of c lent buf rsp tmp moved ec txn] resume_writing [of c lent buf rsp tmp moved ec txn] assms(1)
    by (cases "ci_at_end (cs_begin tmp)") simp_all
qed (use assms in simp)

end

end
