(* ===== verification/Worker.thy ===== *)
theory Worker
  imports Coroutine_Inv
begin

text \<open>
  A worker process with all its coroutines (\<^verbatim>\<open>src/src/server.cpp\<close>): the loop of \<open>http_service::start\<close> that
  accepts connections, one coroutine for every connection, and the callbacks of the timers. They share
  the pool, the timers and the handlers of the service, and one of them runs at a time, up to its next
  wait. A step of the worker is one of these runs; the scheduler of the coroutine library may take
  them in any order.

  A connection keeps its own fields in \<open>sv_spawned\<close>; the shared ones are those of the service, copied in
  before a run and out after it.
\<close>

subsection \<open>Steps\<close>

record ('p, 't, 's, 'k) worker =
  wk_service :: "('t, 's, 'k) http_service"
  wk_accepting :: bool
  wk_points :: "'p point list"

definition shared_in :: "('t, 's, 'k) http_service \<Rightarrow> ('t, 's) http_connection \<Rightarrow> ('t, 's) http_connection" where
  "shared_in sv c = c\<lparr>hc_world := sv_world sv, hc_timers := sv_timers sv, hc_calls := sv_calls sv\<rparr>"

definition shared_out :: "nat \<Rightarrow> ('t, 's) http_connection \<Rightarrow> ('t, 's, 'k) http_service \<Rightarrow> ('t, 's, 'k) http_service" where
  "shared_out i c sv = sv\<lparr>sv_world := hc_world c, sv_timers := hc_timers c, sv_calls := hc_calls c, sv_spawned := (sv_spawned sv)[i := c]\<rparr>"

text \<open>\<open>start\<close> up to its first \<open>accept\<close>.\<close>

definition worker_start :: "('p, 't, 's) env \<Rightarrow> ('t, 's, 'k) http_service \<Rightarrow> ('p, 't, 's, 'k) worker" where
  "worker_start e sv0 = (let sv = time_tick e sv0 in
     \<lparr>wk_service = sv\<lparr>sv_calls := notify (en_handlers e) HE_PROCESS_INIT On_process_init (sv_calls sv)\<rparr>, wk_accepting = True, wk_points = []\<rparr>)"

text \<open>An \<open>accept\<close> returns: a coroutine is started for the connection, and the loop goes on when \<open>run_\<close> is
  still set. Otherwise \<open>start\<close> returns.\<close>

definition worker_accept :: "('p, 't, 's) env \<Rightarrow> 'k sem_api \<Rightarrow> semops \<Rightarrow> int \<Rightarrow> 's accept_result \<Rightarrow> ('p, 't, 's, 'k) worker
    \<Rightarrow> ('p, 't, 's, 'k) worker res" where
  "worker_accept e sapi sem pid r wk = rbind (accept_one e sapi sem pid r (wk_service wk)) (\<lambda>sv. Inr (wk\<lparr>
     wk_service := (if sv_run sv then sv else sv\<lparr>sv_calls := notify (en_handlers e) HE_PROCESS_INIT On_process_exit (sv_calls sv)\<rparr>),
     wk_accepting := sv_run sv,
     wk_points := wk_points wk @ replicate (length (sv_spawned sv) - length (wk_points wk)) (Starting [] 0)\<rparr>))"

definition worker_resume :: "('p, 't, 's) env \<Rightarrow> nat \<Rightarrow> ('p, 't, 's, 'k) worker \<Rightarrow> ('p, 't, 's, 'k) worker res option" where
  "worker_resume e i wk = (let sv = wk_service wk in
     pbind (resume e (shared_in sv (sv_spawned sv ! i)) (wk_points wk ! i)) (\<lambda>(c, pt).
       Some (Inr (wk\<lparr>wk_service := shared_out i c sv, wk_points := (wk_points wk)[i := pt]\<rparr>))))"

text \<open>A timer expires: the library takes it out (\<open>expire\<close>) and calls its function.\<close>

definition worker_callback :: "nat \<Rightarrow> 't \<Rightarrow> (('t, 's) http_connection \<Rightarrow> ('t, 's) http_connection) \<Rightarrow> ('p, 't, 's, 'k) worker
    \<Rightarrow> ('p, 't, 's, 'k) worker" where
  "worker_callback i ts f wk = (let sv = (wk_service wk)\<lparr>sv_timers := ts\<rparr> in
     wk\<lparr>wk_service := shared_out i (f (shared_in sv (sv_spawned sv ! i))) sv\<rparr>)"

datatype 's worker_event = Accept "'s accept_result" | Resume nat | Idle_expires nat | Life_expires nat | Tick | Stop

fun acceptable :: "('s tcp_socket \<Rightarrow> bool) \<Rightarrow> 's accept_result \<Rightarrow> bool" where
  "acceptable fresh Accept_failed = True"
| "acceptable fresh (Accepted s peer) = fresh s"

inductive worker_moves :: "('p, 't, 's) env \<Rightarrow> 'k sem_api \<Rightarrow> semops \<Rightarrow> int \<Rightarrow> ('s tcp_socket \<Rightarrow> bool) \<Rightarrow> ('t \<Rightarrow> nat \<Rightarrow> timer_cb option)
    \<Rightarrow> ('t \<Rightarrow> nat \<Rightarrow> 't) \<Rightarrow> ('p, 't, 's, 'k) worker \<Rightarrow> 's worker_event \<Rightarrow> ('p, 't, 's, 'k) worker \<Rightarrow> bool"
  for e sapi sem pid fresh live expire where
  step_accept: "wk_accepting wk \<Longrightarrow> acceptable fresh r \<Longrightarrow> worker_accept e sapi sem pid r wk = Inr wk' \<Longrightarrow>
    worker_moves e sapi sem pid fresh live expire wk (Accept r) wk'"
| step_resume: "i < length (wk_points wk) \<Longrightarrow> wk_points wk ! i \<noteq> Ended \<Longrightarrow> worker_resume e i wk = Some (Inr wk') \<Longrightarrow>
    worker_moves e sapi sem pid fresh live expire wk (Resume i) wk'"
| step_idle: "i < length (wk_points wk) \<Longrightarrow> c = sv_spawned (wk_service wk) ! i \<Longrightarrow> ts = sv_timers (wk_service wk) \<Longrightarrow>
    hc_timer_idle c = Some t \<Longrightarrow> live ts t = Some (On_idle_expired (hc_connid c)) \<Longrightarrow>
    worker_moves e sapi sem pid fresh live expire wk (Idle_expires i) (worker_callback i (expire ts t) (on_idle_expired e) wk)"
| step_life: "i < length (wk_points wk) \<Longrightarrow> c = sv_spawned (wk_service wk) ! i \<Longrightarrow> ts = sv_timers (wk_service wk) \<Longrightarrow>
    hc_timer_life c = Some t \<Longrightarrow> live ts t = Some (On_life_expired (hc_connid c)) \<Longrightarrow>
    worker_moves e sapi sem pid fresh live expire wk (Life_expires i) (worker_callback i (expire ts t) (on_life_expired e) wk)"
| step_tick: "sv = wk_service wk \<Longrightarrow> sv_tik sv = Some t \<Longrightarrow> live (sv_timers sv) t = Some On_time_tick \<Longrightarrow>
    worker_moves e sapi sem pid fresh live expire wk Tick (wk\<lparr>wk_service := time_tick e (sv\<lparr>sv_timers := expire (sv_timers sv) t\<rparr>)\<rparr>)"
| step_stop: "worker_moves e sapi sem pid fresh live expire wk Stop (wk\<lparr>wk_service := service_stop (wk_service wk)\<rparr>)"

text \<open>The states that some sequence of events leads to.\<close>

inductive worker_reaches :: "('p, 't, 's) env \<Rightarrow> 'k sem_api \<Rightarrow> semops \<Rightarrow> int \<Rightarrow> ('s tcp_socket \<Rightarrow> bool) \<Rightarrow> ('t \<Rightarrow> nat \<Rightarrow> timer_cb option)
    \<Rightarrow> ('t \<Rightarrow> nat \<Rightarrow> 't) \<Rightarrow> ('t, 's, 'k) http_service \<Rightarrow> ('p, 't, 's, 'k) worker \<Rightarrow> bool"
  for e sapi sem pid fresh live expire sv0 where
  reaches_start: "worker_reaches e sapi sem pid fresh live expire sv0 (worker_start e sv0)"
| reaches_step: "worker_reaches e sapi sem pid fresh live expire sv0 wk \<Longrightarrow> worker_moves e sapi sem pid fresh live expire wk ev wk' \<Longrightarrow>
    worker_reaches e sapi sem pid fresh live expire sv0 wk'"

subsection \<open>The invariant of the buffers\<close>

definition worker_inv :: "('p, 't, 's) env \<Rightarrow> ('p module_handler \<Rightarrow> bool \<Rightarrow> string) \<Rightarrow> int \<Rightarrow> ('s \<Rightarrow> string) \<Rightarrow> ('p, 't, 's, 'k) worker \<Rightarrow> bool" where
  "worker_inv e reply S out wk \<longleftrightarrow> (let w = sv_world (wk_service wk); cs = sv_spawned (wk_service wk); pts = wk_points wk in
     length cs = length pts \<and> pl_size (w_pool w) = S \<and>
     (\<forall>i < length pts. \<forall>j < length pts. i \<noteq> j \<longrightarrow> set (point_bufs (pts ! i)) \<inter> set (point_bufs (pts ! j)) = {}) \<and>
     (\<exists>lent. pool_inv (lent_state w lent) \<and> set lent = (\<Union>pt \<in> set pts. set (point_bufs pt)) \<and> (\<forall>pt \<in> set pts. point_inv e reply S w lent pt)) \<and>
     (\<forall>i < length pts. so_stream_oriented (hc_trans (cs ! i)) \<and> point_said e reply w (pts ! i) (out (so_kernel (hc_trans (cs ! i))))))"

lemma bufs_mem_same:
  assumes "\<And>q. q \<in> set ps \<Longrightarrow> hp_cells (w_heap w') (ptr_addr q) = hp_cells (w_heap w) (ptr_addr q)" "pl_size (w_pool w') = pl_size (w_pool w)"
  shows "bufs_mem w' ps = bufs_mem w ps"
proof
  fix a
  have h: "holds_addr w' a = holds_addr w a" by (rule ext) (simp add: holds_addr_def assms(2))
  show "bufs_mem w' ps a = bufs_mem w ps a"
  proof (cases "List.find (holds_addr w a) ps")
    case (Some q)
    then have "q \<in> set ps" by (auto simp: find_Some_iff)
    then show ?thesis using Some assms(1) by (simp add: bufs_mem_def h)
  qed (simp add: bufs_mem_def h)
qed

text \<open>A suspended coroutine is not affected by what the others do to their buffers.\<close>

lemma point_frame:
  assumes inv: "point_inv e reply S w lent pt"
    and cells: "\<And>q. q \<in> set (point_bufs pt) \<Longrightarrow> hp_cells (w_heap w') (ptr_addr q) = hp_cells (w_heap w) (ptr_addr q)"
    and p: "pool_inv (lent_state w' lent')" "set (point_bufs pt) \<subseteq> set lent'" "pl_size (w_pool w') = pl_size (w_pool w)"
  shows "point_inv e reply S w' lent' pt" "point_said e reply w' pt txt = point_said e reply w pt txt" "read_rank w' pt = read_rank w pt"
proof -
  let ?o = "filter (\<lambda>q. q \<notin> set (point_bufs pt)) lent"
  have same: "others_same w lent ?o w'" using cells by (auto simp: others_same_def)
  have own: "own_bufs w' lent' buf rsp" "phase_inv e reply S w rsp ph \<Longrightarrow> phase_inv e reply S w' rsp ph"
      "texts w' (resp_buffers rsp) = texts w (resp_buffers rsp)" "back_room w' buf = back_room w buf" "unread w' buf = unread w buf"
      "bufs_mem w' (resp_buffers rsp) = bufs_mem w (resp_buffers rsp)"
    if o: "own_bufs w lent buf rsp" and b: "point_bufs pt = buf @ resp_buffers rsp" for buf rsp ph
  proof -
    note d = own_bufsD [OF o]
    have "set ?o \<inter> set (resp_buffers rsp) = {}" "set ?o \<inter> set buf = {}" "set (resp_buffers rsp) \<subseteq> set lent'" "set buf \<subseteq> set lent'" using b p(2) by auto
    note f = resp_inv_frame [OF d(2) same this(1) p(1) this(3) p(3)] and g = bufs_inv_frame [OF d(1) same this(2) p(1) this(4) p(3)]
    show "own_bufs w' lent' buf rsp" using f(1) g d(3) by (simp add: own_bufs_def)
    show "phase_inv e reply S w' rsp ph" if "phase_inv e reply S w rsp ph" using that f by (cases ph) (simp_all add: fresh_resp_def replied_def)
    show "texts w' (resp_buffers rsp) = texts w (resp_buffers rsp)" by (rule f(6))
    have l: "hp_cells (w_heap w') (ptr_addr (last buf)) = hp_cells (w_heap w) (ptr_addr (last buf))" using d(8) b by (intro cells) simp
    then show "back_room w' buf = back_room w buf" "unread w' buf = unread w buf" by (simp_all add: back_room_def unread_def)
    show "bufs_mem w' (resp_buffers rsp) = bufs_mem w (resp_buffers rsp)" using b by (intro bufs_mem_same cells p(3)) simp
  qed
  have start: "conn_bufs w' lent' buf" "rest w' buf = rest w buf" if "conn_bufs w lent buf" "point_bufs pt = buf" for buf
    using that p cells last_in_set [of buf]
    by (auto simp: conn_bufs_def req_cell_def rest_def unread_def split: option.splits)
  have "point_inv e reply S w' lent' pt \<and> point_said e reply w' pt txt = point_said e reply w pt txt \<and> read_rank w' pt = read_rank w pt"
  proof (cases pt)
    case (Starting buf txn)
    then show ?thesis using inv start [of buf] by simp
  next
    case (Reading ph buf req rsp n txn)
    then have o: "own_bufs w lent buf rsp" "point_bufs pt = buf @ resp_buffers rsp" using inv by simp_all
    show ?thesis using Reading inv own(1,4) [OF o] own(2) [OF o, of ph] by simp
  next
    case (Writing buf rsp tmp moved ec txn)
    then have o: "own_bufs w lent buf rsp" "point_bufs pt = buf @ resp_buffers rsp" using inv by simp_all
    have "writing_inv e reply w' rsp tmp moved ec = writing_inv e reply w rsp tmp moved ec"
      by (simp only: writing_inv_def own(3,6) [OF o] Let_def)
    then show ?thesis using Writing inv own(1,3,5) [OF o] by simp
  qed simp
  then show "point_inv e reply S w' lent' pt" "point_said e reply w' pt txt = point_said e reply w pt txt" "read_rank w' pt = read_rank w pt"
    by blast+
qed

text \<open>How far the coroutines are from their ends.\<close>

definition worker_distance :: "('s \<Rightarrow> nat) \<Rightarrow> ('p, 't, 's, 'k) worker \<Rightarrow> (nat \<times> nat \<times> nat \<times> nat) list" where
  "worker_distance left wk = map2 (distance left (sv_world (wk_service wk))) (sv_spawned (wk_service wk)) (wk_points wk)"

lemma shared_in_fields [simp]:
  "hc_world (shared_in sv c) = sv_world sv" "hc_trans (shared_in sv c) = hc_trans c" "hc_timers (shared_in sv c) = sv_timers sv"
  "hc_connid (shared_in sv c) = hc_connid c" "hc_timer_idle (shared_in sv c) = hc_timer_idle c" "hc_timer_life (shared_in sv c) = hc_timer_life c"
  "distance left w (shared_in sv c) pt = distance left w c pt"
  by (simp_all add: shared_in_def distance_def armed_def)

lemma shared_out_fields [simp]:
  "sv_world (shared_out i c sv) = hc_world c" "sv_timers (shared_out i c sv) = hc_timers c" "sv_spawned (shared_out i c sv) = (sv_spawned sv)[i := c]"
  "sv_tik (shared_out i c sv) = sv_tik sv"
  by (simp_all add: shared_out_def)

lemma distance_update:
  assumes len: "length (sv_spawned (wk_service wk)) = length (wk_points wk)" and i: "i < length (wk_points wk)"
    and wk': "sv_spawned (wk_service wk') = (sv_spawned (wk_service wk))[i := c']" "wk_points wk' = (wk_points wk)[i := pt']"
    and same: "\<And>j. j < length (wk_points wk) \<Longrightarrow> j \<noteq> i \<Longrightarrow>
      read_rank (sv_world (wk_service wk')) (wk_points wk ! j) = read_rank (sv_world (wk_service wk)) (wk_points wk ! j)"
    and near: "(distance left (sv_world (wk_service wk')) c' pt', distance left (sv_world (wk_service wk)) (sv_spawned (wk_service wk) ! i) (wk_points wk ! i)) \<in> nearer"
  shows "(worker_distance left wk', worker_distance left wk) \<in> listrel1 nearer"
proof -
  let ?d = "distance left (sv_world (wk_service wk)) (sv_spawned (wk_service wk) ! i) (wk_points wk ! i)"
  have "worker_distance left wk = (worker_distance left wk')[i := ?d]"
    using same len i by (intro nth_equalityI) (auto simp: worker_distance_def wk' nth_list_update distance_def)
  moreover have "worker_distance left wk' ! i = distance left (sv_world (wk_service wk')) c' pt'" "i < length (worker_distance left wk')"
    using i len by (simp_all add: worker_distance_def wk')
  ultimately show ?thesis using near unfolding listrel1_iff_update by metis
qed

text \<open>One of a list of disjoint sets is replaced by another that is apart from the rest.\<close>

lemma disjoint_update:
  assumes dis: "\<And>j k. j < length xs \<Longrightarrow> k < length xs \<Longrightarrow> j \<noteq> k \<Longrightarrow> b (xs ! j) \<inter> b (xs ! k) = {}"
    and new: "\<And>k. k < length xs \<Longrightarrow> k \<noteq> i \<Longrightarrow> b x \<inter> b (xs ! k) = {}" and jk: "j < length xs" "k < length xs" "j \<noteq> k"
  shows "b (xs[i := x] ! j) \<inter> b (xs[i := x] ! k) = {}"
proof -
  consider "j = i" "k \<noteq> i" | "k = i" "j \<noteq> i" | "j \<noteq> i" "k \<noteq> i" using jk(3) by blast
  then show ?thesis using jk new [of j] new [of k] dis [OF jk] by cases (simp_all add: Int_commute)
qed

lemma union_update:
  assumes i: "i < length xs" and dis: "\<And>k. k < length xs \<Longrightarrow> k \<noteq> i \<Longrightarrow> b (xs ! k) \<inter> b (xs ! i) = {}"
  shows "\<Union>(b ` set (xs[i := x])) = b x \<union> (\<Union>(b ` set xs) - b (xs ! i))"
proof -
  have U: "\<Union>(b ` set ys) = (\<Union>j < length ys. b (ys ! j))" for ys by (auto simp: set_conv_nth [of ys])
  have "(\<Union>j < length xs. b (xs[i := x] ! j)) = b x \<union> (\<Union>j \<in> {..<length xs} - {i}. b (xs ! j))"
    using i by (auto simp: nth_list_update split: if_splits)
  moreover have "(\<Union>j \<in> {..<length xs} - {i}. b (xs ! j)) = (\<Union>j < length xs. b (xs ! j)) - b (xs ! i)" using dis by auto
  ultimately show ?thesis unfolding U by simp
qed

context serving
begin

lemma worker_resume_ok:
  fixes wk :: "('p, 't, 's, 'k) worker"
  assumes inv: "worker_inv e reply S out wk" and i: "i < length (wk_points wk)" "wk_points wk ! i \<noteq> Ended"
  shows "\<exists>wk'. worker_resume e i wk = Some (Inr wk') \<and> worker_inv e reply S out wk' \<and>
    (worker_distance left wk', worker_distance left wk) \<in> listrel1 nearer"
proof -
  let ?sv = "wk_service wk" and ?pts = "wk_points wk"
  let ?w = "sv_world ?sv" and ?cs = "sv_spawned ?sv" and ?pt = "?pts ! i"
  let ?c = "shared_in ?sv (?cs ! i)"
  obtain lent where v: "length ?cs = length ?pts" "pl_size (w_pool ?w) = S" "pool_inv (lent_state ?w lent)"
      "set lent = (\<Union>pt \<in> set ?pts. set (point_bufs pt))"
    and pinv: "\<And>j. j < length ?pts \<Longrightarrow> point_inv e reply S ?w lent (?pts ! j)"
    and dis: "\<And>j k. j < length ?pts \<Longrightarrow> k < length ?pts \<Longrightarrow> j \<noteq> k \<Longrightarrow> set (point_bufs (?pts ! j)) \<inter> set (point_bufs (?pts ! k)) = {}"
    and st: "\<And>j. j < length ?pts \<Longrightarrow> so_stream_oriented (hc_trans (?cs ! j)) \<and> point_said e reply ?w (?pts ! j) (out (so_kernel (hc_trans (?cs ! j))))"
    using inv by (auto simp: worker_inv_def Let_def)
  obtain c' pt' where r: "resume e ?c ?pt = Some (Inr (c', pt'))" "moves_on e reply S out left lent ?c ?pt c' pt'"
    using resume_ok [of ?c lent ?pt] pinv [OF i(1)] v(2) st [OF i(1)] i(2) by auto
  obtain lent' where m: "spares lent (point_bufs ?pt) ?c lent' (point_bufs pt') c'" "pool_inv (lent_state (hc_world c') lent')"
      "point_inv e reply S (hc_world c') lent' pt'"
    using r(2) by (auto simp: moves_on_def)
  have sp: "set lent' - set (point_bufs pt') = set lent - set (point_bufs ?pt)" "set (point_bufs pt') \<subseteq> set lent'"
      "pl_size (w_pool (hc_world c')) = S" "so_stream_oriented (hc_trans c')"
      "\<forall>q \<in> set lent - set (point_bufs ?pt). hp_cells (w_heap (hc_world c')) (ptr_addr q) = hp_cells (w_heap ?w) (ptr_addr q)"
    using m(1) v(2) st [OF i(1)] by (simp_all add: spares_def)
  have others: "set (point_bufs (?pts ! j)) \<subseteq> set lent - set (point_bufs ?pt)" if "j < length ?pts" "j \<noteq> i" for j
    using that v(4) dis [OF that(1) i(1) that(2)] nth_mem [OF that(1)] by blast
  have frame: "point_inv e reply S (hc_world c') lent' (?pts ! j)"
      "point_said e reply (hc_world c') (?pts ! j) u = point_said e reply ?w (?pts ! j) u" "read_rank (hc_world c') (?pts ! j) = read_rank ?w (?pts ! j)"
    if "j < length ?pts" "j \<noteq> i" for j u
    using others [OF that] sp v(2)
    by (intro point_frame [OF pinv [OF that(1)] _ m(2)]; auto)+
  let ?pts' = "?pts[i := pt']" and ?cs' = "?cs[i := c']"
  let ?wk = "wk\<lparr>wk_service := shared_out i c' ?sv, wk_points := ?pts'\<rparr>"
  have new: "set (point_bufs pt') \<inter> set (point_bufs (?pts ! k)) = {}" if "k < length ?pts" "k \<noteq> i" for k
    using others [OF that] sp(1) by blast
  note dis' = disjoint_update [where b = "\<lambda>pt. set (point_bufs pt)", OF dis new]
  have "(\<Union>pt \<in> set ?pts'. set (point_bufs pt)) = set (point_bufs pt') \<union> (set lent - set (point_bufs ?pt))"
    unfolding v(4) using dis i(1) by (intro union_update) auto
  then have lent': "set lent' = (\<Union>pt \<in> set ?pts'. set (point_bufs pt))" using sp(1,2) by auto
  have "worker_inv e reply S out ?wk"
  proof -
    have "point_inv e reply S (hc_world c') lent' pt" if pt: "pt \<in> set ?pts'" for pt
    proof -
      obtain j where j: "j < length ?pts" "pt = ?pts' ! j" using pt unfolding in_set_conv_nth by auto
      show ?thesis using m(3) frame(1) [OF j(1)] j by (cases "j = i") simp_all
    qed
    moreover have "so_stream_oriented (hc_trans (?cs' ! j)) \<and> point_said e reply (hc_world c') (?pts' ! j) (out (so_kernel (hc_trans (?cs' ! j))))"
      if "j < length ?pts" for j
      using that st [OF that] st [OF i(1)] sp(4) r(2) frame(2) [OF that] v(1) by (cases "j = i") (simp_all add: moves_on_def)
    ultimately show ?thesis using v(1) sp(3) dis' lent' m(2) unfolding worker_inv_def Let_def
      by (simp add: exI [of _ lent'])
  qed
  moreover have "(worker_distance left ?wk, worker_distance left wk) \<in> listrel1 nearer"
  proof -
    have "(distance left (hc_world c') c' pt', distance left ?w (?cs ! i) ?pt) \<in> nearer" using r(2) by (simp add: moves_on_def)
    then show ?thesis using v(1) i(1) frame(3) by (intro distance_update) simp_all
  qed
  moreover have "worker_resume e i wk = Some (Inr ?wk)" using r(1) by (simp add: worker_resume_def Let_def)
  ultimately show ?thesis by blast
qed

end

text \<open>Steps that leave the buffers and the points alone.\<close>

lemma accept_one_cases:
  assumes "accept_one e sapi sem pid r sv = Inr sv'"
  obtains "sv_world sv' = sv_world sv" "sv_timers sv' = sv_timers sv" "sv_tik sv' = sv_tik sv" "sv_run sv' = sv_run sv" "sv_spawned sv' = sv_spawned sv"
  | s peer cid c where "r = Accepted s peer" "conn_make e peer (sv_world sv) s (sv_timers sv) (sv_calls sv) cid = Inr c"
      "sv_world sv' = sv_world sv" "sv_timers sv' = hc_timers c" "sv_tik sv' = sv_tik sv" "sv_run sv' = sv_run sv" "sv_spawned sv' = sv_spawned sv @ [c]"
  using assms by (cases r) (auto simp: accept_one_def Let_def rbind_eq_Inr)

lemma conn_make_fields:
  assumes "conn_make e peer w s ts calls cid = Inr c"
  shows "hc_trans c = s" "hc_connid c = cid" "hc_timer_idle c = None" "hc_world c = w"
  using assms by (auto simp: conn_make_def Let_def split: if_splits prod.splits)

lemma worker_accept_inv:
  assumes inv: "worker_inv e reply S out wk" and r: "acceptable fresh r" and a: "worker_accept e sapi sem pid r wk = Inr wk'"
    and fresh: "\<And>s. fresh s \<Longrightarrow> so_stream_oriented s \<and> out (so_kernel s) = []"
  shows "worker_inv e reply S out wk'"
proof -
  obtain sv where a1: "accept_one e sapi sem pid r (wk_service wk) = Inr sv"
    and wk': "sv_world (wk_service wk') = sv_world sv" "sv_spawned (wk_service wk') = sv_spawned sv"
      "wk_points wk' = wk_points wk @ replicate (length (sv_spawned sv) - length (wk_points wk)) (Starting [] 0)"
    using a by (auto simp: worker_accept_def rbind_eq_Inr)
  have len: "length (sv_spawned (wk_service wk)) = length (wk_points wk)" using inv by (simp add: worker_inv_def Let_def)
  show ?thesis
  proof (rule accept_one_cases [OF a1])
    assume "sv_world sv = sv_world (wk_service wk)" "sv_spawned sv = sv_spawned (wk_service wk)"
    then show ?thesis using inv wk' len by (simp add: worker_inv_def)
  next
    fix s peer cid c assume c: "r = Accepted s peer" "conn_make e peer (sv_world (wk_service wk)) s (sv_timers (wk_service wk)) (sv_calls (wk_service wk)) cid = Inr c"
      "sv_world sv = sv_world (wk_service wk)" "sv_spawned sv = sv_spawned (wk_service wk) @ [c]"
    have s: "hc_trans c = s" "so_stream_oriented s" "out (so_kernel s) = []" using conn_make_fields(1) [OF c(2)] fresh r c(1) by simp_all
    have pts: "wk_points wk' = wk_points wk @ [Starting [] 0]" using wk'(3) c(4) len by simp
    obtain lent where "pool_inv (lent_state (sv_world (wk_service wk)) lent)" using inv by (auto simp: worker_inv_def Let_def)
    then have "conn_bufs (sv_world (wk_service wk)) l []" if "pool_inv (lent_state (sv_world (wk_service wk)) l)" for l
      using that by (simp add: conn_bufs_def)
    then show ?thesis using inv s unfolding worker_inv_def Let_def wk' c(3,4) pts
      by (auto simp: nth_append less_Suc_eq)
  qed
qed

lemma worker_callback_inv:
  assumes inv: "worker_inv e reply S out wk" and i: "i < length (wk_points wk)"
    and f: "\<And>c. hc_world (f c) = hc_world c \<and> out (so_kernel (hc_trans (f c))) = out (so_kernel (hc_trans c)) \<and>
      so_stream_oriented (hc_trans (f c)) = so_stream_oriented (hc_trans c)"
  shows "worker_inv e reply S out (worker_callback i ts f wk)"
proof -
  show ?thesis using inv i f unfolding worker_inv_def worker_callback_def Let_def
    by (auto simp: nth_list_update)
qed

lemma worker_same_inv:
  "sv_world (wk_service wk') = sv_world (wk_service wk) \<Longrightarrow> sv_spawned (wk_service wk') = sv_spawned (wk_service wk) \<Longrightarrow>
    wk_points wk' = wk_points wk \<Longrightarrow> worker_inv e reply S out wk' = worker_inv e reply S out wk"
  by (simp add: worker_inv_def)

lemma time_tick_fields [simp]: "sv_world (time_tick e sv) = sv_world sv" "sv_spawned (time_tick e sv) = sv_spawned sv"
  by (simp_all add: time_tick_def Let_def split: prod.splits)

text \<open>The events of connections that are there: one of them runs, or one of its timers expires.\<close>

definition worker_busy :: "('p, 't, 's) env \<Rightarrow> 'k sem_api \<Rightarrow> semops \<Rightarrow> int \<Rightarrow> ('s tcp_socket \<Rightarrow> bool) \<Rightarrow> ('t \<Rightarrow> nat \<Rightarrow> timer_cb option)
    \<Rightarrow> ('t \<Rightarrow> nat \<Rightarrow> 't) \<Rightarrow> ('p, 't, 's, 'k) worker \<Rightarrow> ('p, 't, 's, 'k) worker \<Rightarrow> bool" where
  "worker_busy e sapi sem pid fresh live expire wk wk' \<longleftrightarrow>
     (\<exists>i. worker_moves e sapi sem pid fresh live expire wk (Resume i) wk' \<or> worker_moves e sapi sem pid fresh live expire wk (Idle_expires i) wk' \<or>
       worker_moves e sapi sem pid fresh live expire wk (Life_expires i) wk')"

lemma callback_distance:
  assumes len: "length (sv_spawned (wk_service wk)) = length (wk_points wk)" and i: "i < length (wk_points wk)"
    and f: "\<And>c. hc_world (f c) = hc_world c" "\<And>c. left (so_kernel (hc_trans (f c))) \<le> left (so_kernel (hc_trans c))"
      "armed (f (shared_in ((wk_service wk)\<lparr>sv_timers := ts\<rparr>) (sv_spawned (wk_service wk) ! i))) < armed (sv_spawned (wk_service wk) ! i)"
  shows "(worker_distance left (worker_callback i ts f wk), worker_distance left wk) \<in> listrel1 nearer"
proof -
  let ?sv = "(wk_service wk)\<lparr>sv_timers := ts\<rparr>" and ?wk = "worker_callback i ts f wk" and ?w = "sv_world (wk_service wk)"
  let ?c = "sv_spawned (wk_service wk) ! i" and ?pt = "wk_points wk ! i"
  let ?c' = "f (shared_in ?sv ?c)"
  have "(distance left ?w ?c' ?pt, distance left ?w ?c ?pt) \<in> nearer"
    using f(2) [of "shared_in ?sv ?c"] f(3) by (auto simp: distance_def nearer_def)
  then show ?thesis using len i f(1) by (intro distance_update [where pt' = ?pt]) (simp_all add: worker_callback_def Let_def)
qed

context serving
begin

lemma expired_fields:
  "hc_world (on_idle_expired e c) = hc_world c" "hc_world (on_life_expired e c) = hc_world c"
  "out (so_kernel (hc_trans (on_idle_expired e c))) = out (so_kernel (hc_trans c))" "out (so_kernel (hc_trans (on_life_expired e c))) = out (so_kernel (hc_trans c))"
  "left (so_kernel (hc_trans (on_idle_expired e c))) \<le> left (so_kernel (hc_trans c))" "left (so_kernel (hc_trans (on_life_expired e c))) \<le> left (so_kernel (hc_trans c))"
  "so_stream_oriented (hc_trans (on_idle_expired e c)) = so_stream_oriented (hc_trans c)"
  "so_stream_oriented (hc_trans (on_life_expired e c)) = so_stream_oriented (hc_trans c)"
  using hangs_up by (simp_all add: on_idle_expired_def on_life_expired_def shutdown_both_def hangs_up_def)

lemma worker_moves_inv:
  assumes "worker_moves e sapi sem pid fresh live expire wk ev wk'" "worker_inv e reply S out wk"
    and fresh: "\<And>s. fresh s \<Longrightarrow> so_stream_oriented s \<and> out (so_kernel s) = []"
  shows "worker_inv e reply S out wk'"
  using assms(1)
proof (cases rule: worker_moves.cases)
  case (step_accept r)
  then show ?thesis using worker_accept_inv [OF assms(2) _ _ fresh] by blast
next
  case (step_resume i)
  then show ?thesis using worker_resume_ok [OF assms(2)] by fastforce
next
  case (step_idle i c ts t)
  then show ?thesis using worker_callback_inv [OF assms(2)] expired_fields by simp
next
  case (step_life i c ts t)
  then show ?thesis using worker_callback_inv [OF assms(2)] expired_fields by simp
next
  case (step_tick sv t)
  then show ?thesis using assms(2) worker_same_inv [of wk' wk e reply S out] by simp
next
  case step_stop
  then show ?thesis using assms(2) worker_same_inv [of wk' wk e reply S out] by (simp add: service_stop_def)
qed

lemma worker_busy_nearer:
  fixes wk :: "('p, 't, 's, 'k) worker"
  assumes inv: "worker_inv e reply S out wk" and busy: "worker_busy e sapi sem pid fresh live expire wk wk'"
  shows "(worker_distance left wk', worker_distance left wk) \<in> listrel1 nearer"
proof -
  have len: "length (sv_spawned (wk_service wk)) = length (wk_points wk)" using inv by (simp add: worker_inv_def Let_def)
  obtain i ev where "worker_moves e sapi sem pid fresh live expire wk ev wk'" and ev: "ev \<in> {Resume i, Idle_expires i, Life_expires i}"
    using busy by (auto simp: worker_busy_def)
  then show ?thesis
  proof (cases rule: worker_moves.cases)
    case (step_resume i)
    then show ?thesis using worker_resume_ok [OF inv] by fastforce
  next
    case (step_idle i c ts t)
    then have "armed (on_idle_expired e (shared_in sv c)) < armed c" for sv :: "('t, 's, 'k) http_service"
      by (simp add: armed_def on_idle_expired_def)
    then show ?thesis using step_idle by (auto intro!: callback_distance [OF len] simp: expired_fields)
  next
    case (step_life i c ts t)
    then have "armed (on_life_expired e (shared_in sv c)) < armed c" for sv :: "('t, 's, 'k) http_service"
      by (simp add: armed_def on_life_expired_def)
    then show ?thesis using step_life by (auto intro!: callback_distance [OF len] simp: expired_fields)
  qed (use ev in auto)
qed

end

end
