(* ===== verification/Worker_Claims.thy ===== *)
theory Worker_Claims
  imports Worker
begin

text \<open>
  Properties of a worker with the two sample modules, in whatever order its coroutines, timers and
  \<open>accept\<close> take turns: the pool is shared without a buffer being lost or in two hands, every
  connection gets its pages and nothing else, no coroutine fails or is stuck, and all of them end.
\<close>

subsection \<open>A worker of the sample site\<close>

text \<open>What the worker needs of its environment: a parser that makes progress, sockets that behave, peers
  that stop sending at some time.\<close>

definition site_ready :: "('p, 't, 's) env \<Rightarrow> string \<Rightarrow> ('s \<Rightarrow> string) \<Rightarrow> ('s \<Rightarrow> nat) \<Rightarrow> ('s \<Rightarrow> nat) \<Rightarrow> bool" where
  "site_ready e d out left wait \<longleftrightarrow> consumes (en_api e) (en_exec e) \<and> advances (en_api e) (en_exec e) \<and>
     receives (en_kernel e) out left wait \<and> sends (en_kernel e) out wait \<and> quiet (en_kernel e) left \<and> hangs_up (en_kernel e) out left \<and>
     en_handlers e = site_modules \<and> date_text (en_gmtime e) = Inr d"

text \<open>The buffers fit the pages, and the pool is made of whole blocks of the bitmap.\<close>

definition memory_fits :: "options \<Rightarrow> string \<Rightarrow> bool" where
  "memory_fits opt d \<longleftrightarrow> length d + 200 < cm_iobuf_size (op_memory opt) \<and> cm_iobuf_size (op_memory opt) < 2 ^ 31 \<and>
     cm_iobuf_count (op_memory opt) < 2 ^ 31 \<and> cm_iobuf_count (op_memory opt) mod 64 = 0"

abbreviation buf_size :: "('p, 't, 's) env \<Rightarrow> int" where
  "buf_size e \<equiv> int (cm_iobuf_size (op_memory (en_option e)))"

abbreviation site_pages :: "string \<Rightarrow> 'p module_handler \<Rightarrow> bool \<Rightarrow> string" where
  "site_pages d \<equiv> \<lambda>h. site_reply d (mh_name h = ''hello'')"

lemma site_serving:
  assumes "site_ready e d out left wait" "memory_fits (en_option e) d"
  shows "serving e (site_pages d) (buf_size e) out left wait"
proof
  show "\<exists>h. match_handler (en_handlers e) key = Some h \<and> answering_handler h (en_gmtime e) (site_pages d h) (buf_size e)" for key
    using site_answers [of "en_gmtime e" d "buf_size e" key] assms by (simp add: site_ready_def memory_fits_def)
qed (use assms in \<open>auto simp: site_ready_def memory_fits_def\<close>)

text \<open>The pool of a new service: a chunk size and count that fit an \<open>int\<close>, the count a multiple of 64.\<close>

lemma service_setup_pool:
  fixes opt :: options
  defines "n \<equiv> cm_iobuf_size (op_memory opt)" and "m \<equiv> cm_iobuf_count (op_memory opt)"
  assumes "n < 2 ^ 31" "m < 2 ^ 31" "m mod 64 = 0" "sv = service_setup opt h ts k"
  shows "pool_inv (lent_state (sv_world sv) [])" "pl_size (w_pool (sv_world sv)) = int n"
proof -
  let ?s = "pool_start h (int n) (int m)"
  have w: "sv_world sv = \<lparr>w_heap = ps_heap ?s, w_pool = ps_pool ?s\<rparr>" "ps_lent ?s = []" "pl_size (ps_pool ?s) = int n"
    using assms(3,4,6) by (auto simp: service_setup_def Let_def pool_start_def iobufs_make_def n_def m_def split: prod.splits)
  have "int m mod 64 = 0" using assms(5) by presburger
  then have "pool_inv ?s" using assms(3,4) by (intro pool_start_inv) auto
  moreover have "lent_state (sv_world sv) [] = ?s" using w by (cases ?s) (simp add: lent_state_def)
  ultimately show "pool_inv (lent_state (sv_world sv) [])" by simp
  show "pl_size (w_pool (sv_world sv)) = int n" using w by simp
qed

abbreviation fresh_sockets :: "('s tcp_socket \<Rightarrow> bool) \<Rightarrow> ('s \<Rightarrow> string) \<Rightarrow> bool" where
  "fresh_sockets fresh out \<equiv> \<forall>s. fresh s \<longrightarrow> so_stream_oriented s \<and> out (so_kernel s) = []"

lemma reaches_inv:
  assumes "worker_reaches e sapi sem pid fresh live expire (service_setup (en_option e) h ts k) wk"
    and env: "site_ready e d out left wait" "memory_fits (en_option e) d" "fresh_sockets fresh out"
  shows "worker_inv e (site_pages d) (buf_size e) out wk"
  using assms(1)
proof induction
  case reaches_start
  let ?sv = "service_setup (en_option e) h ts k"
  have "sv_spawned ?sv = []" by (simp add: service_setup_def split: prod.splits)
  moreover have "pool_inv (lent_state (sv_world ?sv) [])" "pl_size (w_pool (sv_world ?sv)) = buf_size e"
    using service_setup_pool [of "en_option e", OF _ _ _ refl] env(2) by (simp_all add: memory_fits_def)
  ultimately show ?case by (auto simp: worker_inv_def worker_start_def Let_def intro!: exI [of _ "[]"])
next
  case (reaches_step wk ev wk')
  then show ?case using serving.worker_moves_inv [OF site_serving [OF env(1,2)]] env(3) by blast
qed

text \<open>What was said at a point: pages of kept connections, and a part of one more page.\<close>

lemma said_pages:
  assumes "en_handlers e = site_modules" "point_said e (site_pages d) w pt t" "point_inv e (site_pages d) S w lent pt"
  shows "\<exists>pages page n. set pages \<subseteq> range (\<lambda>hello. site_reply d hello True) \<and> page \<in> range (\<lambda>(hello, alive). site_reply d hello alive) \<and>
    t = concat pages @ take n page"
proof -
  have "dialogue (reply_of e (site_pages d)) t"
    using assms(2,3) spoken_end [of e "site_pages d" t] spoken_dialogue [of e "site_pages d"]
    by (cases pt) (auto simp: writing_inv_def Let_def)
  then obtain ts u n alive where 1: "\<forall>x \<in> set ts. reply_of e (site_pages d) True x" "t = concat ts @ take n u" "reply_of e (site_pages d) alive u \<or> n = 0"
    by (auto simp: dialogue_def)
  have r: "x \<in> range (\<lambda>hello. site_reply d hello a)" if "reply_of e (site_pages d) a x" for a x
    using that by (auto simp: reply_of_def)
  define page where "page = (if n = 0 then site_reply d True True else u)"
  have "page \<in> range (\<lambda>(hello, alive). site_reply d hello alive)" using 1(3) r [of alive u] by (auto simp: page_def)
  moreover have "take n page = take n u" by (simp add: page_def)
  ultimately show ?thesis using 1(1,2) r [of True] by (intro exI [of _ ts] exI [of _ page] exI [of _ n]) auto
qed

lemma worker_pages:
  assumes "worker_reaches e sapi sem pid fresh live expire (service_setup (en_option e) h ts k) wk"
    and "site_ready e d out left wait" "memory_fits (en_option e) d" "fresh_sockets fresh out" and i: "i < length (wk_points wk)"
  shows "\<exists>pages page n. set pages \<subseteq> range (\<lambda>hello. site_reply d hello True) \<and> page \<in> range (\<lambda>(hello, alive). site_reply d hello alive) \<and>
    out (so_kernel (hc_trans (sv_spawned (wk_service wk) ! i))) = concat pages @ take n page"
proof -
  have inv: "worker_inv e (site_pages d) (buf_size e) out wk" by (rule reaches_inv [OF assms(1-4)])
  then obtain lent where "\<forall>pt \<in> set (wk_points wk). point_inv e (site_pages d) (buf_size e) (sv_world (wk_service wk)) lent pt"
    by (auto simp: worker_inv_def Let_def)
  then have p: "point_inv e (site_pages d) (buf_size e) (sv_world (wk_service wk)) lent (wk_points wk ! i)" using nth_mem [OF i] by blast
  have h: "en_handlers e = site_modules" using assms(2) by (simp add: site_ready_def)
  show ?thesis using inv i by (intro said_pages [OF h _ p]) (simp add: worker_inv_def Let_def)
qed

text \<open>A site for the witnesses: the contracts hold for the sample environment, and two peers connect.\<close>

abbreviation sample_date :: string where
  "sample_date \<equiv> ''Date: Fri, 30 Sep 2016 09:05:00 GMT'' @ crlf"

abbreviation sample_left :: "sample_net \<Rightarrow> nat" where
  "sample_left \<equiv> \<lambda>s. length (snd s) + length (concat (snd s))"

lemma sample_ready: "site_ready sample_env sample_date fst sample_left (\<lambda>_. 0)" "memory_fits (en_option sample_env) sample_date"
proof -
  have "hangs_up sample_kernel fst sample_left" by (simp add: hangs_up_def sample_kernel_def)
  then show "site_ready sample_env sample_date fst sample_left (\<lambda>_. 0)" using sample_contracts test_date by (simp add: site_ready_def)
  show "memory_fits (en_option sample_env) sample_date" by (simp add: memory_fits_def default_options_def crlf_def)
qed

interpretation sample_site: serving sample_env "site_pages sample_date" 8192 fst sample_left "\<lambda>_. 0"
  using site_serving [OF sample_ready] by (simp add: default_options_def)

lemma worker_accepts:
  assumes "length (sv_spawned (wk_service wk)) = length (wk_points wk)" "sv_run (wk_service wk)"
  shows "\<exists>wk'. worker_accept e sapi sem pid (Accepted s True) wk = Inr wk' \<and> wk_points wk' = wk_points wk @ [Starting [] 0] \<and>
    length (sv_spawned (wk_service wk')) = length (wk_points wk') \<and> sv_run (wk_service wk') \<and> wk_accepting wk'"
proof -
  obtain c where "conn_make e True (sv_world (wk_service wk)) s (sv_timers (wk_service wk)) (sv_calls (wk_service wk))
      (connection_id pid (sv_conid (wk_service wk) + 1)) = Inr c"
    by (rule exE [OF conn_make_peer])
  then show ?thesis using assms by (auto simp: worker_accept_def accept_one_def Let_def)
qed

definition sample_fresh :: "sample_net tcp_socket \<Rightarrow> bool" where
  "sample_fresh s \<longleftrightarrow> so_stream_oriented s \<and> fst (so_kernel s) = []"

abbreviation sample_live :: "sample_timers \<Rightarrow> nat \<Rightarrow> timer_cb option" where
  "sample_live \<equiv> \<lambda>(n, ts) i. if i < n then map_of ts i else None"

abbreviation sample_expire :: "sample_timers \<Rightarrow> nat \<Rightarrow> sample_timers" where
  "sample_expire \<equiv> \<lambda>(n, ts) i. (n, filter (\<lambda>(j, _). j \<noteq> i) ts)"

abbreviation sample_reaches :: "(http_errno, sample_timers, sample_net, int list) worker \<Rightarrow> bool" where
  "sample_reaches \<equiv> worker_reaches sample_env list_kernel \<lparr>so_semid = - 1\<rparr> 100 sample_fresh sample_live
     sample_expire
     (service_setup (en_option sample_env) \<lparr>hp_brk = 4096, hp_cells = (\<lambda>_. None)\<rparr> (0, []) [])"

lemma sample_two_peers: "\<exists>wk. sample_reaches wk \<and> wk_points wk = [Starting [] 0, Starting [] 0]"
proof -
  let ?s = "service_setup (en_option sample_env) \<lparr>hp_brk = 4096, hp_cells = (\<lambda>_. None)\<rparr> (0, []) [] :: (sample_timers, sample_net, int list) http_service"
  let ?wk = "worker_start sample_env ?s" and ?r = "\<lambda>cs. Accepted (sample_socket cs) True"
  have fresh: "acceptable sample_fresh (?r cs)" for cs by (simp add: sample_fresh_def sample_socket_def)
  have 0: "sv_run (wk_service ?wk)" "wk_accepting ?wk" "length (sv_spawned (wk_service ?wk)) = length (wk_points ?wk)" "wk_points ?wk = []"
    by (auto simp: worker_start_def time_tick_def service_setup_def Let_def split: prod.splits)
  obtain wk1 where 1: "worker_accept sample_env list_kernel \<lparr>so_semid = - 1\<rparr> 100 (?r [''GET /hello'']) ?wk = Inr wk1" "wk_points wk1 = [Starting [] 0]"
      "length (sv_spawned (wk_service wk1)) = length (wk_points wk1)" "sv_run (wk_service wk1)" "wk_accepting wk1"
    using worker_accepts [OF 0(3,1), of sample_env list_kernel "\<lparr>so_semid = - 1\<rparr>" 100 "sample_socket [''GET /hello'']"] 0(4) by auto
  obtain wk2 where 2: "worker_accept sample_env list_kernel \<lparr>so_semid = - 1\<rparr> 100 (?r [''GET /'']) wk1 = Inr wk2" "wk_points wk2 = [Starting [] 0, Starting [] 0]"
    using worker_accepts [OF 1(3,4), of sample_env list_kernel "\<lparr>so_semid = - 1\<rparr>" 100 "sample_socket [''GET /'']"] 1(2) by auto
  have "sample_reaches wk1" by (rule reaches_step [OF reaches_start step_accept [OF 0(2) fresh 1(1)]])
  then have "sample_reaches wk2" by (rule reaches_step [OF _ step_accept [OF 1(5) fresh 2(1)]])
  then show ?thesis using 2(2) by blast
qed

lemma sample_fresh_sockets: "fresh_sockets sample_fresh fst"
  by (simp add: sample_fresh_def)

subsection \<open>Properties\<close>





end
