(* ===== verification/Worker_Timers.thy ===== *)
theory Worker_Timers
  imports Worker_Claims
begin

text \<open>
  The timers of a worker. The callbacks of a connection are bound to its address (\<open>this\<close>), so a timer
  that is pending when the connection is gone would be called on freed memory. Whatever order the
  coroutines run in, every pending timer is that of a connection that is there, or the tick of the
  service.

  A timer is named by a handle that stays valid as long as it is held (\<open>co_timer_id\<close> is a shared
  pointer), so the library does not give a new timer the name of one that was given out before. The
  connections rely on it: \<open>pause_timer\<close> keeps the name of the timer it has cancelled and the next
  \<open>start_timer\<close> cancels it again.
\<close>

subsection \<open>What the timer library promises\<close>

definition timers_unique :: "'t timer_api \<Rightarrow> ('t \<Rightarrow> nat \<Rightarrow> timer_cb option) \<Rightarrow> ('t \<Rightarrow> nat set) \<Rightarrow> ('t \<Rightarrow> nat \<Rightarrow> 't) \<Rightarrow> bool" where
  "timers_unique ta live used expire \<longleftrightarrow> timers_ok ta live \<and> (\<forall>ts i. live (expire ts i) = (live ts)(i := None)) \<and>
     (\<forall>ts d cb i ts'. ta_add ta ts d cb = (i, ts') \<longrightarrow> i \<notin> used ts \<and> used ts' = insert i (used ts)) \<and>
     (\<forall>ts i. used (ta_cancel ta ts i) = used ts \<and> used (expire ts i) = used ts)"

lemma timers_uniqueD:
  assumes "timers_unique ta live used expire"
  shows "timers_ok ta live" "live (expire ts i) = (live ts)(i := None)" "used (expire ts i) = used ts" "used (ta_cancel ta ts i) = used ts"
    "ta_add ta ts d cb = (i, ts') \<Longrightarrow> i \<notin> used ts" "ta_add ta ts d cb = (i, ts') \<Longrightarrow> used ts' = insert i (used ts)"
    "ta_add ta ts d cb = (i, ts') \<Longrightarrow> live ts' = (live ts)(i \<mapsto> cb)" "live (ta_cancel ta ts i) = (live ts)(i := None)"
  using assms unfolding timers_unique_def timers_ok_def by blast+

definition timer_ids :: "('t, 's) http_connection \<Rightarrow> nat set" where
  "timer_ids c = {j. hc_timer_idle c = Some j \<or> hc_timer_life c = Some j}"

subsection \<open>A run of a coroutine minds its own timers\<close>

definition minds :: "('t \<Rightarrow> nat \<Rightarrow> timer_cb option) \<Rightarrow> ('t \<Rightarrow> nat set) \<Rightarrow> ('t, 's) http_connection \<Rightarrow> ('t, 's) http_connection \<Rightarrow> bool" where
  "minds live used c c' \<longleftrightarrow> (\<forall>base cid. timers_inv live base cid c \<longrightarrow> timers_inv live base cid c') \<and>
     used (hc_timers c) \<subseteq> used (hc_timers c') \<and> timer_ids c' \<subseteq> timer_ids c \<union> (used (hc_timers c') - used (hc_timers c)) \<and>
     (timer_ids c \<subseteq> used (hc_timers c) \<longrightarrow> timer_ids c' \<subseteq> used (hc_timers c'))"

lemma minds_trans: "minds live used a b \<Longrightarrow> minds live used b c \<Longrightarrow> minds live used a c"
  unfolding minds_def by blast

lemma minds_same: "same_timers c c' \<Longrightarrow> minds live used c c'"
  by (auto simp: minds_def same_timers_def timers_inv_def timer_ids_def)

lemma minds_refl [simp]: "minds live used c c"
  by (rule minds_same) simp

text \<open>The outcome of a run: a coroutine that has ended has no timers.\<close>

definition minds_end :: "('t \<Rightarrow> nat \<Rightarrow> timer_cb option) \<Rightarrow> ('t \<Rightarrow> nat set) \<Rightarrow> ('t, 's) http_connection \<Rightarrow> ('t, 's) http_connection \<times> 'p point \<Rightarrow> bool" where
  "minds_end live used c r \<longleftrightarrow> minds live used c (fst r) \<and> (snd r = Ended \<longrightarrow> timer_ids (fst r) = {})"

lemma minds_after: "minds live used a b \<Longrightarrow> minds_end live used b r \<Longrightarrow> minds_end live used a r"
  by (auto simp: minds_end_def intro: minds_trans)

locale timer_library =
  fixes e :: "('p, 't, 's) env" and live :: "'t \<Rightarrow> nat \<Rightarrow> timer_cb option" and used :: "'t \<Rightarrow> nat set" and expire :: "'t \<Rightarrow> nat \<Rightarrow> 't"
  assumes timers: "timers_unique (en_timer e) live used expire"
begin

lemmas timer_facts = timers_uniqueD [OF timers]

lemma pause_minds: "minds live used c (pause_timer e c)"
  using pause_timer_inv(1) [OF timer_facts(1)]
  by (auto simp: minds_def pause_timer_def timer_ids_def timer_facts(4) split: option.splits)

lemma start_minds: "minds live used c (start_timer e c)"
proof -
  let ?c = "pause_timer e c"
  obtain i ts where add: "ta_add (en_timer e) (hc_timers ?c) (op_timer_idle (en_option e)) (On_idle_expired (hc_connid ?c)) = (i, ts)" by fastforce
  then have st: "start_timer e c = ?c\<lparr>hc_timer_idle := Some i, hc_timers := ts\<rparr>" by (simp add: start_timer_def Let_def)
  have u: "used (hc_timers ?c) = used (hc_timers c)" "hc_timer_life ?c = hc_timer_life c"
    by (auto simp: pause_timer_def timer_facts(4) split: option.splits)
  have "timer_ids (start_timer e c) \<subseteq> insert i (timer_ids c)" unfolding st by (auto simp: timer_ids_def u(2))
  moreover have "i \<notin> used (hc_timers c)" "used ts = insert i (used (hc_timers c))" using timer_facts(5,6) [OF add] u(1) by simp_all
  moreover have "hc_timers (start_timer e c) = ts" by (simp add: st)
  ultimately show ?thesis using start_timer_inv [OF timer_facts(1)] unfolding minds_def by auto
qed

lemma destroy_minds: "minds_end live used c (conn_destroy e c, Ended)"
proof -
  have t: "hc_timer_idle (conn_destroy e c) = None" "hc_timer_life (conn_destroy e c) = None" "used (hc_timers (conn_destroy e c)) = used (hc_timers c)"
    by (auto simp: conn_destroy_def clear_timer_def Let_def timer_facts(4) split: option.splits)
  have "timers_inv live base cid (conn_destroy e c)" if "timers_inv live base cid c" for base cid
    using conn_destroy_timers [OF timer_facts(1) that] that by (simp add: timers_inv_def t)
  then show ?thesis using t by (simp add: minds_end_def minds_def timer_ids_def)
qed

lemma leave_parse_minds:
  assumes "leave_parse e c buf rsp keep t = Inr r"
  shows "minds_end live used c r"
proof -
  obtain c1 buf1 keep1 w buf2 where l: "leave_request c buf rsp keep = Inr (c1, buf1, keep1)"
    and r: "(if keep1 then Inr (c1\<lparr>hc_world := w\<rparr>, Starting buf2 (t + 1)) else rbind (drop_ptrs w buf2 []) (\<lambda>w'. Inr (conn_destroy e (c1\<lparr>hc_world := w'\<rparr>), Ended))) = Inr r"
    using assms by (auto simp: leave_parse_def rbind_eq_Inr)
  have s: "same_timers c c1" using leave_request_timers [OF l] by blast
  show ?thesis
  proof (cases keep1)
    case True
    have "same_timers c (c1\<lparr>hc_world := w\<rparr>)" by (rule same_timers_trans [OF s]) simp
    then show ?thesis using r True minds_same [of c] by (auto simp: minds_end_def)
  next
    case False
    then obtain w' where r: "r = (conn_destroy e (c1\<lparr>hc_world := w'\<rparr>), Ended)" using r by (auto simp: rbind_eq_Inr)
    have "same_timers c (c1\<lparr>hc_world := w'\<rparr>)" by (rule same_timers_trans [OF s]) simp
    then show ?thesis unfolding r by (rule minds_after [OF minds_same destroy_minds])
  qed
qed

lemma feed_minds:
  assumes f: "feed e completed continue ph c buf req rsp n t = Some (Inr r)"
    and cont: "\<And>c1 buf1 req1. continue c1 buf1 req1 = Some (Inr r) \<Longrightarrow> minds_end live used c1 r"
  shows "minds_end live used c r"
proof -
  obtain iov iov1 req1 where p: "hp_cells (w_heap (hc_world c)) (ptr_addr (last buf)) = Some iov"
      "codec_parse (en_api e) (en_sort e) (en_exec e) (bufs_mem (hc_world c) buf) (ptr_addr (last buf) + sizeof_iobuf) iov req = Some (iov1, req1)"
    using f by (auto simp: feed_def split: option.splits)
  let ?c = "hc_write_cell c (ptr_addr (last buf)) iov1"
  have w: "minds live used c ?c" by (rule minds_same) simp
  consider "leave_parse e ?c buf rsp False t = Inr r" | "continue ?c buf req1 = Some (Inr r)"
    | c2 buf2 where "more_room ?c buf iov1 = Inr (c2, buf2)" "r = (c2, Reading ph buf2 req1 rsp n t)"
    using f p by (auto simp: feed_def Let_def rbind_eq_Inr split: if_splits)
  then have "minds_end live used ?c r"
  proof cases
    case 1
    then show ?thesis by (rule leave_parse_minds)
  next
    case 2
    then show ?thesis by (rule cont)
  next
    case 3
    then show ?thesis using minds_same [OF more_room_timers [OF 3(1)]] by (simp add: minds_end_def)
  qed
  then show ?thesis by (rule minds_after [OF w])
qed

lemma feed_body_minds:
  assumes "feed_body e mh c buf req rsp n t = Some (Inr r)"
  shows "minds_end live used c r"
  using assms unfolding feed_body_def
proof (rule feed_minds)
  fix c1 buf1 req1 assume "message_received e mh rsp t c1 buf1 req1 = Some (Inr r)"
  then obtain c2 rsp2 where h: "call_handler e mh HE_REQUEST_BODY mh_on_request_body On_request_body t req1 (pause_timer e c1) rsp = Inr (c2, rsp2)"
    and r: "fst r = start_timer e c2" "snd r \<noteq> Ended"
    by (auto simp: message_received_def pbind_eq_Inr rbind_eq_Inr Let_def)
  have "minds live used c1 (start_timer e c2)"
    using minds_trans [OF pause_minds minds_trans [OF minds_same [OF call_handler_timers [OF h]] start_minds]] .
  then show "minds_end live used c1 r" using r by (simp add: minds_end_def)
qed

lemma feed_header_minds:
  assumes "feed_header e c buf req rsp n t = Some (Inr r)"
  shows "minds_end live used c r"
  using assms unfolding feed_header_def
proof (rule feed_minds)
  fix c1 buf1 req1 assume "header_received e rsp t c1 buf1 req1 = Some (Inr r)"
  then obtain mh c2 rsp2 where h: "call_handler e mh HE_REQUEST_HDR mh_on_request_header On_request_header t req1 (pause_timer e c1) rsp = Inr (c2, rsp2)"
      "feed_body e mh (start_timer e c2) buf1 req1 rsp2 0 t = Some (Inr r)"
    by (auto simp: header_received_def pbind_eq_Inr Let_def)
  have "minds live used c1 (start_timer e c2)"
    using minds_trans [OF pause_minds minds_trans [OF minds_same [OF call_handler_timers [OF h(1)]] start_minds]] .
  then show "minds_end live used c1 r" by (rule minds_after [OF _ feed_body_minds [OF h(2)]])
qed

lemma resume_minds:
  assumes "resume e c pt = Some (Inr r)" "pt \<noteq> Ended"
  shows "minds_end live used c r"
proof (cases pt)
  case (Starting buf t)
  then obtain c1 buf1 w rsp where s: "first_buffer c buf = Inr (c1, buf1)"
      "feed_header e (start_timer e (c1\<lparr>hc_world := w\<rparr>)) buf1 (req_make (en_api e) (en_urldata e)) rsp 0 t = Some (Inr r)"
    using assms(1) by (auto simp: start_request_def pbind_eq_Inr)
  have "same_timers c (c1\<lparr>hc_world := w\<rparr>)" using s(1) by (auto simp: first_buffer_def rbind_eq_Inr same_timers_def split: if_splits)
  then show ?thesis by (rule minds_after [OF minds_trans [OF minds_same start_minds] feed_header_minds [OF s(2)]])
next
  case (Reading ph buf req rsp n t)
  then obtain c1 got where g: "read_more e c buf = Some (Inr (c1, got))"
    and r: "leave_parse e c1 buf rsp False t = Inr r \<or> (\<exists>i. feed_phase e ph c1 buf req rsp i t = Some (Inr r))"
    using assms(1) by (auto simp: resume_read_def pbind_eq_Inr split: option.splits if_splits)
  have "minds_end live used c1 r" using r by (cases ph) (auto intro: leave_parse_minds feed_header_minds feed_body_minds)
  then show ?thesis by (rule minds_after [OF minds_same [OF read_more_timers [OF g]]])
next
  case (Writing buf rsp tmp moved ec t)
  show ?thesis
  proof (cases "ci_at_end (cs_begin tmp)")
    case True
    then have "leave_parse e (pause_timer e c) buf rsp (ec = No_error \<and> resp_is_keep_alive rsp) t = Inr r"
      using assms(1) Writing by (simp add: resume_write_def)
    then show ?thesis by (rule minds_after [OF pause_minds leave_parse_minds])
  next
    case False
    then obtain s where "fst r = c\<lparr>hc_trans := s\<rparr>" "snd r \<noteq> Ended"
      using assms(1) Writing by (auto simp: resume_write_def split: option.splits)
    then show ?thesis by (simp add: minds_end_def minds_same)
  qed
qed (use assms(2) in simp)

end

subsection \<open>The timers of all connections\<close>

text \<open>The timers of one connection among those of the service.\<close>

definition owns_timers :: "(nat \<Rightarrow> timer_cb option) \<Rightarrow> ('t, 's) http_connection \<Rightarrow> bool" where
  "owns_timers l c \<longleftrightarrow> (\<forall>j. hc_timer_life c = Some j \<longrightarrow> l j = Some (On_life_expired (hc_connid c)) \<and> hc_timer_idle c \<noteq> Some j) \<and>
     (\<forall>j. hc_timer_idle c = Some j \<longrightarrow> l j \<in> {None, Some (On_idle_expired (hc_connid c))})"

definition timers_shared :: "('t \<Rightarrow> nat \<Rightarrow> timer_cb option) \<Rightarrow> ('t \<Rightarrow> nat set) \<Rightarrow> 't \<Rightarrow> nat option \<Rightarrow> ('t, 's) http_connection list \<Rightarrow> bool" where
  "timers_shared live used ts tik cs \<longleftrightarrow>
     (\<forall>i < length cs. timer_ids (cs ! i) \<subseteq> used ts \<and> owns_timers (live ts) (cs ! i)) \<and>
     (\<forall>i < length cs. \<forall>j < length cs. i \<noteq> j \<longrightarrow> timer_ids (cs ! i) \<inter> timer_ids (cs ! j) = {}) \<and>
     (\<exists>t \<in> used ts. tik = Some t \<and> live ts t = Some On_time_tick \<and> (\<forall>i < length cs. t \<notin> timer_ids (cs ! i))) \<and>
     (\<forall>j cb. live ts j = Some cb \<longrightarrow> tik = Some j \<or> (\<exists>i < length cs. j \<in> timer_ids (cs ! i)))"

definition worker_timers :: "('t \<Rightarrow> nat \<Rightarrow> timer_cb option) \<Rightarrow> ('t \<Rightarrow> nat set) \<Rightarrow> ('p, 't, 's, 'k) worker \<Rightarrow> bool" where
  "worker_timers live used wk \<longleftrightarrow> length (sv_spawned (wk_service wk)) = length (wk_points wk) \<and>
     (\<forall>i < length (wk_points wk). wk_points wk ! i = Ended \<longrightarrow> timer_ids (sv_spawned (wk_service wk) ! i) = {}) \<and>
     timers_shared live used (sv_timers (wk_service wk)) (sv_tik (wk_service wk)) (sv_spawned (wk_service wk))"

lemma owns_timers_cong: "(\<And>j. j \<in> timer_ids c \<Longrightarrow> l' j = l j) \<Longrightarrow> owns_timers l' c = owns_timers l c"
  by (auto simp: owns_timers_def timer_ids_def)

text \<open>One connection changes its timers, and the names it adds are new.\<close>

lemma timers_shared_update:
  assumes s: "timers_shared live used ts tik cs" and i: "i < length cs"
    and new: "used ts \<subseteq> used ts'" "timer_ids c' \<subseteq> timer_ids (cs ! i) \<union> (used ts' - used ts)" "timer_ids c' \<subseteq> used ts'"
    and own: "owns_timers (live ts') c'"
    and rest: "\<And>j. j \<notin> timer_ids c' \<Longrightarrow> live ts' j = (if j \<in> timer_ids (cs ! i) then None else live ts j)"
  shows "timers_shared live used ts' tik (cs[i := c'])"
proof -
  have u: "timer_ids (cs ! k) \<subseteq> used ts" "owns_timers (live ts) (cs ! k)" if "k < length cs" for k using s that by (auto simp: timers_shared_def)
  have dis: "timer_ids (cs ! j) \<inter> timer_ids (cs ! k) = {}" if "j < length cs" "k < length cs" "j \<noteq> k" for j k using s that by (simp add: timers_shared_def)
  obtain t where t: "t \<in> used ts" "tik = Some t" "live ts t = Some On_time_tick" "\<And>k. k < length cs \<Longrightarrow> t \<notin> timer_ids (cs ! k)"
    using s by (auto simp: timers_shared_def)
  have apart: "timer_ids (cs ! k) \<inter> timer_ids c' = {}" if "k < length cs" "k \<noteq> i" for k
    using new(2) u(1) [OF that(1)] dis [OF that(1) i that(2)] by blast
  have same: "live ts' j = live ts j" if "j \<in> timer_ids (cs ! k)" "k < length cs" "k \<noteq> i" for j k
  proof -
    have "j \<notin> timer_ids c'" "j \<notin> timer_ids (cs ! i)" using apart [OF that(2,3)] dis [OF that(2) i that(3)] that(1) by blast+
    then show ?thesis using rest by simp
  qed
  have t': "t \<notin> timer_ids c'" using new(2) t(1) t(4) [OF i] by blast
  then have "live ts' t = Some On_time_tick" using rest [of t] t(3) t(4) [OF i] by simp
  moreover have "timer_ids (cs[i := c'] ! k) \<subseteq> used ts' \<and> owns_timers (live ts') (cs[i := c'] ! k)" if "k < length cs" for k
  proof (cases "k = i")
    case True
    then show ?thesis using i new(3) own by simp
  next
    case False
    then show ?thesis using u [OF that] new(1) owns_timers_cong [of "cs ! k" "live ts'" "live ts"] same [OF _ that False] by auto
  qed
  moreover have "timer_ids (cs[i := c'] ! j) \<inter> timer_ids (cs[i := c'] ! k) = {}" if "j < length cs" "k < length cs" "j \<noteq> k" for j k
    using that apart [of j] apart [of k] dis [OF that] i by (cases "j = i"; cases "k = i") (simp_all add: Int_commute)
  moreover have "tik = Some j \<or> (\<exists>k < length cs. j \<in> timer_ids (cs[i := c'] ! k))" if j: "live ts' j = Some cb" for j cb
  proof (cases "j \<in> timer_ids c'")
    case True
    then show ?thesis using i by (intro disjI2 exI [of _ i]) simp
  next
    case False
    then have l: "live ts j = Some cb" "j \<notin> timer_ids (cs ! i)" using rest [OF False] j by (simp_all split: if_splits)
    then consider "tik = Some j" | k where "k < length cs" "j \<in> timer_ids (cs ! k)" using s by (auto simp: timers_shared_def)
    then show ?thesis
    proof cases
      case (2 k)
      then have "k \<noteq> i" using l(2) by auto
      then show ?thesis using 2 by (intro disjI2 exI [of _ k]) simp
    qed simp
  qed
  moreover have "t \<notin> timer_ids (cs[i := c'] ! k)" if "k < length cs" for k using t' t(4) that by (cases "k = i") simp_all
  ultimately show ?thesis unfolding timers_shared_def length_list_update using t(1,2) new(1) by blast
qed

lemma timers_shared_append:
  assumes s: "timers_shared live used ts tik cs" and new: "used ts \<subseteq> used ts'" "timer_ids c \<subseteq> used ts' - used ts" "owns_timers (live ts') c"
    and rest: "\<And>j. j \<notin> timer_ids c \<Longrightarrow> live ts' j = live ts j"
  shows "timers_shared live used ts' tik (cs @ [c])"
proof -
  have u: "timer_ids (cs ! k) \<subseteq> used ts" "owns_timers (live ts) (cs ! k)" if "k < length cs" for k using s that by (auto simp: timers_shared_def)
  have dis: "timer_ids (cs ! j) \<inter> timer_ids (cs ! k) = {}" if "j < length cs" "k < length cs" "j \<noteq> k" for j k using s that by (simp add: timers_shared_def)
  obtain t where t: "t \<in> used ts" "tik = Some t" "live ts t = Some On_time_tick" "\<And>k. k < length cs \<Longrightarrow> t \<notin> timer_ids (cs ! k)"
    using s by (auto simp: timers_shared_def)
  have t': "t \<notin> timer_ids c" "live ts' t = Some On_time_tick" using new(2) t(1,3) rest [of t] by auto
  have apart: "timer_ids (cs ! k) \<inter> timer_ids c = {}" if "k < length cs" for k using new(2) u(1) [OF that] by blast
  have "timer_ids ((cs @ [c]) ! k) \<subseteq> used ts' \<and> owns_timers (live ts') ((cs @ [c]) ! k)" if "k < Suc (length cs)" for k
  proof (cases "k = length cs")
    case True
    then show ?thesis using new by auto
  next
    case False
    then have k: "k < length cs" using that by simp
    have "live ts' j = live ts j" if "j \<in> timer_ids (cs ! k)" for j using rest [of j] apart [OF k] that by blast
    then show ?thesis using k u [OF k] new(1) owns_timers_cong [of "cs ! k" "live ts'" "live ts"] by (auto simp: nth_append)
  qed
  moreover have "timer_ids ((cs @ [c]) ! j) \<inter> timer_ids ((cs @ [c]) ! k) = {}" if "j < Suc (length cs)" "k < Suc (length cs)" "j \<noteq> k" for j k
    using that apart [of j] apart [of k] dis [of j k] by (cases "j = length cs"; cases "k = length cs") (simp_all add: nth_append Int_commute)
  moreover have "tik = Some j \<or> (\<exists>k < Suc (length cs). j \<in> timer_ids ((cs @ [c]) ! k))" if j: "live ts' j = Some cb" for j cb
  proof (cases "j \<in> timer_ids c")
    case True
    then show ?thesis by (intro disjI2 exI [of _ "length cs"]) simp
  next
    case False
    then have "live ts j = Some cb" using rest [OF False] j by simp
    then consider "tik = Some j" | k where "k < length cs" "j \<in> timer_ids (cs ! k)" using s by (auto simp: timers_shared_def)
    then show ?thesis
    proof cases
      case (2 k)
      then show ?thesis by (intro disjI2 exI [of _ k]) (simp add: nth_append)
    qed simp
  qed
  moreover have "t \<notin> timer_ids ((cs @ [c]) ! k)" if "k < Suc (length cs)" for k
    using t'(1) t(4) that by (cases "k = length cs") (simp_all add: nth_append)
  ultimately show ?thesis unfolding timers_shared_def length_append_singleton using t(1,2) t'(2) new(1) by blast
qed

context timer_library
begin

lemma resume_shared:
  assumes s: "timers_shared live used ts tik cs" and i: "i < length cs"
    and c: "hc_timers c = ts" "hc_connid c = hc_connid (cs ! i)" "hc_timer_idle c = hc_timer_idle (cs ! i)" "hc_timer_life c = hc_timer_life (cs ! i)"
    and m: "minds live used c c'"
  shows "timers_shared live used (hc_timers c') tik (cs[i := c'])"
proof -
  let ?base = "\<lambda>j. if j \<in> timer_ids c then None else live ts j"
  have ids: "timer_ids c = timer_ids (cs ! i)" using c by (simp add: timer_ids_def)
  have o: "owns_timers (live ts) (cs ! i)" "timer_ids (cs ! i) \<subseteq> used ts" using s i by (auto simp: timers_shared_def)
  then have "timers_inv live ?base (hc_connid c) c" unfolding timers_inv_def owns_timers_def using c by (auto simp: timer_ids_def)
  then have t: "timers_inv live ?base (hc_connid c) c'" using m by (simp add: minds_def)
  have "owns_timers (live (hc_timers c')) c'" using t by (auto simp: timers_inv_def owns_timers_def)
  moreover have "live (hc_timers c') j = (if j \<in> timer_ids (cs ! i) then None else live ts j)" if "j \<notin> timer_ids c'" for j
    using t that by (simp add: timers_inv_def ids) (simp add: timer_ids_def)
  ultimately show ?thesis using m o(2) c(1) by (intro timers_shared_update [OF s i]) (auto simp: minds_def ids)
qed

lemma expired_shared:
  assumes s: "timers_shared live used ts tik cs" and i: "i < length cs" and t: "t \<in> timer_ids (cs ! i)"
    and c: "timer_ids c = timer_ids (cs ! i) - {t}" "hc_connid c = hc_connid (cs ! i)"
      "hc_timer_idle c \<in> {None, hc_timer_idle (cs ! i)}" "hc_timer_life c \<in> {None, hc_timer_life (cs ! i)}"
  shows "timers_shared live used (expire ts t) tik (cs[i := c])"
proof -
  have o: "owns_timers (live ts) (cs ! i)" "timer_ids (cs ! i) \<subseteq> used ts" using s i by (auto simp: timers_shared_def)
  have no: "t \<notin> timer_ids c" using c(1) by simp
  have "owns_timers (live ts) c" using o(1) c(2-4) by (auto simp: owns_timers_def dest!: sym [of "Some _"])
  then have "owns_timers (live (expire ts t)) c"
    by (subst owns_timers_cong [of c _ "live ts"]) (use no in \<open>auto simp: timer_facts(2)\<close>)
  moreover have "live (expire ts t) j = (if j \<in> timer_ids (cs ! i) then None else live ts j)" if "j \<notin> timer_ids c" for j
    using that t unfolding c(1) by (cases "j = t") (simp_all add: timer_facts(2))
  moreover have "timer_ids c \<subseteq> timer_ids (cs ! i)" using c(1) by blast
  ultimately show ?thesis using o(2) by (intro timers_shared_update [OF s i]) (auto simp: timer_facts(3))
qed

lemma conn_make_shared:
  assumes s: "timers_shared live used ts tik cs" and m: "conn_make e peer w so ts calls cid = Inr c"
  shows "timers_shared live used (hc_timers c) tik (cs @ [c])"
proof (cases "op_timer_life (en_option e) = - 1")
  case True
  then have "hc_timers c = ts" "timer_ids c = {}" using m by (auto simp: conn_make_def Let_def timer_ids_def split: if_splits)
  then show ?thesis by (intro timers_shared_append [OF s]) (auto simp: owns_timers_def timer_ids_def)
next
  case False
  obtain i ts1 where add: "ta_add (en_timer e) ts (op_timer_life (en_option e)) (On_life_expired cid) = (i, ts1)" by fastforce
  then have c: "hc_timers c = ts1" "hc_timer_idle c = None" "hc_timer_life c = Some i" "hc_connid c = cid"
    using m False by (auto simp: conn_make_def Let_def split: if_splits)
  then have ids: "timer_ids c = {i}" by (auto simp: timer_ids_def)
  show ?thesis unfolding c(1) using timer_facts(5-7) [OF add]
    by (intro timers_shared_append [OF s]) (auto simp: ids owns_timers_def c)
qed

lemma tick_shared:
  assumes s: "timers_shared live used ts (Some t) cs" and add: "ta_add (en_timer e) (expire ts t) d On_time_tick = (i, ts')"
  shows "timers_shared live used ts' (Some i) cs"
proof -
  note f = timer_facts(5-7) [OF add, unfolded timer_facts(2,3)]
  have u: "timer_ids (cs ! k) \<subseteq> used ts" "owns_timers (live ts) (cs ! k)" "t \<notin> timer_ids (cs ! k)" if "k < length cs" for k
    using s that by (auto simp: timers_shared_def)
  have "owns_timers (live ts') (cs ! k)" if "k < length cs" for k
    by (subst owns_timers_cong [of "cs ! k" _ "live ts"]) (use u [OF that] f in auto)
  then show ?thesis using s f u unfolding timers_shared_def by (auto split: if_splits)
qed

lemma worker_accept_timers:
  assumes inv: "worker_timers live used wk" and "worker_accept e sapi sem pid r wk = Inr wk'"
  shows "worker_timers live used wk'"
proof -
  let ?sv = "wk_service wk" and ?pts = "wk_points wk"
  have len: "length (sv_spawned ?sv) = length ?pts" and s: "timers_shared live used (sv_timers ?sv) (sv_tik ?sv) (sv_spawned ?sv)"
    and ended: "\<And>k. k < length ?pts \<Longrightarrow> ?pts ! k = Ended \<Longrightarrow> timer_ids (sv_spawned ?sv ! k) = {}"
    using inv by (auto simp: worker_timers_def)
  obtain sv where a: "accept_one e sapi sem pid r ?sv = Inr sv" and wk': "sv_timers (wk_service wk') = sv_timers sv" "sv_tik (wk_service wk') = sv_tik sv"
      "sv_spawned (wk_service wk') = sv_spawned sv" "wk_points wk' = ?pts @ replicate (length (sv_spawned sv) - length ?pts) (Starting [] 0)"
    using assms(2) by (auto simp: worker_accept_def rbind_eq_Inr)
  show ?thesis
  proof (rule accept_one_cases [OF a])
    assume "sv_timers sv = sv_timers ?sv" "sv_tik sv = sv_tik ?sv" "sv_spawned sv = sv_spawned ?sv"
    then show ?thesis using inv wk' len by (simp add: worker_timers_def)
  next
    fix so peer cid c assume c: "conn_make e peer (sv_world ?sv) so (sv_timers ?sv) (sv_calls ?sv) cid = Inr c"
      "sv_timers sv = hc_timers c" "sv_tik sv = sv_tik ?sv" "sv_spawned sv = sv_spawned ?sv @ [c]"
    have p: "wk_points wk' = ?pts @ [Starting [] 0]" using wk'(4) c(4) len by simp
    have "timer_ids (sv_spawned (wk_service wk') ! k) = {}" if "k < length (wk_points wk')" "wk_points wk' ! k = Ended" for k
      using that ended [of k] len unfolding p wk'(3) c(4) by (cases "k = length ?pts") (auto simp: nth_append)
    then show ?thesis unfolding worker_timers_def using conn_make_shared [OF s c(1)] len wk' c p by simp
  qed
qed

lemma worker_resume_timers:
  assumes inv: "worker_timers live used wk" and i: "i < length (wk_points wk)" "wk_points wk ! i \<noteq> Ended" and w: "worker_resume e i wk = Some (Inr wk')"
  shows "worker_timers live used wk'"
proof -
  let ?sv = "wk_service wk" and ?pts = "wk_points wk"
  obtain c' pt' where r: "resume e (shared_in ?sv (sv_spawned ?sv ! i)) (?pts ! i) = Some (Inr (c', pt'))"
      "wk' = wk\<lparr>wk_service := shared_out i c' ?sv, wk_points := ?pts[i := pt']\<rparr>"
    using w by (auto simp: worker_resume_def Let_def pbind_eq_Inr)
  have m: "minds live used (shared_in ?sv (sv_spawned ?sv ! i)) c'" "pt' = Ended \<longrightarrow> timer_ids c' = {}"
    using resume_minds [OF r(1) i(2)] by (simp_all add: minds_end_def)
  have "timers_shared live used (hc_timers c') (sv_tik ?sv) ((sv_spawned ?sv)[i := c'])"
    using inv i(1) by (intro resume_shared [OF _ _ _ _ _ _ m(1)]) (simp_all add: worker_timers_def)
  moreover have "timer_ids ((sv_spawned ?sv)[i := c'] ! k) = {}" if "k < length ?pts" "?pts[i := pt'] ! k = Ended" for k
    using that m(2) inv by (cases "k = i") (auto simp: worker_timers_def)
  ultimately show ?thesis using r(2) inv by (simp add: worker_timers_def)
qed

lemma worker_callback_timers:
  assumes inv: "worker_timers live used wk" and i: "i < length (wk_points wk)"
    and c: "c = sv_spawned (wk_service wk) ! i" "t \<in> timer_ids c" "ts = expire (sv_timers (wk_service wk)) t"
      "c' = f (shared_in ((wk_service wk)\<lparr>sv_timers := ts\<rparr>) c)" "timer_ids c' = timer_ids c - {t}" "hc_timers c' = ts" "hc_connid c' = hc_connid c"
      "hc_timer_idle c' \<in> {None, hc_timer_idle c}" "hc_timer_life c' \<in> {None, hc_timer_life c}"
  shows "worker_timers live used (worker_callback i ts f wk)"
proof -
  let ?sv = "wk_service wk" and ?pts = "wk_points wk"
  have "timers_shared live used ts (sv_tik ?sv) ((sv_spawned ?sv)[i := c'])"
    unfolding c(3) using inv i c by (intro expired_shared) (simp_all add: worker_timers_def)
  moreover have "timer_ids ((sv_spawned ?sv)[i := c'] ! k) = {}" if "k < length ?pts" "?pts ! k = Ended" for k
    using inv c(1,5) that i by (cases "k = i") (auto simp: worker_timers_def)
  ultimately show ?thesis using inv i c(1,4,6) by (simp add: worker_timers_def worker_callback_def Let_def)
qed

lemma worker_moves_timers:
  assumes "worker_moves e sapi sem pid fresh live expire wk ev wk'" and inv: "worker_timers live used wk"
  shows "worker_timers live used wk'"
proof -
  have o: "owns_timers (live (sv_timers (wk_service wk))) (sv_spawned (wk_service wk) ! i)" if "i < length (wk_points wk)" for i
    using inv that by (simp add: worker_timers_def timers_shared_def)
  from assms(1) show ?thesis
  proof (cases rule: worker_moves.cases)
    case (step_accept r)
    then show ?thesis using worker_accept_timers [OF inv] by blast
  next
    case (step_resume i)
    then show ?thesis using worker_resume_timers [OF inv] by blast
  next
    case (step_idle i c ts t)
    then show ?thesis using o [of i] by (auto intro!: worker_callback_timers [OF inv, of i] simp: timer_ids_def on_idle_expired_def owns_timers_def)
  next
    case (step_life i c ts t)
    then show ?thesis using o [of i] by (auto intro!: worker_callback_timers [OF inv, of i] simp: timer_ids_def on_life_expired_def owns_timers_def)
  next
    case (step_tick sv t)
    obtain j ts' where add: "ta_add (en_timer e) (expire (sv_timers sv) t) 1 On_time_tick = (j, ts')" by fastforce
    have "timers_shared live used (sv_timers sv) (Some t) (sv_spawned sv)" using inv step_tick by (simp add: worker_timers_def)
    from tick_shared [OF this add] show ?thesis using step_tick add inv by (simp add: worker_timers_def time_tick_def)
  next
    case step_stop
    then show ?thesis using inv by (simp add: worker_timers_def service_stop_def)
  qed
qed

lemma worker_start_timers:
  assumes "live ts = (\<lambda>_. None)" "sv = service_setup opt h ts k"
  shows "worker_timers live used (worker_start e sv)"
proof -
  obtain i ts' where add: "ta_add (en_timer e) ts 1 On_time_tick = (i, ts')" by fastforce
  have "sv_timers sv = ts" "sv_spawned sv = []" using assms(2) by (simp_all add: service_setup_def Let_def split: prod.splits)
  then show ?thesis using timer_facts(5-7) [OF add] add assms(1)
    by (auto simp: worker_timers_def worker_start_def time_tick_def Let_def timers_shared_def split: if_splits)
qed

lemma reaches_timers:
  assumes "worker_reaches e sapi sem pid fresh live expire (service_setup opt h ts k) wk" "live ts = (\<lambda>_. None)"
  shows "worker_timers live used wk"
  using assms(1) by induction (auto intro: worker_start_timers [OF assms(2) refl] worker_moves_timers)

end

subsection \<open>Properties\<close>

text \<open>C4: no timer outlives its connection. Whatever order the coroutines of a worker, the callbacks and
  \<open>accept\<close> run in, every pending timer is the tick of the service or one of the two timers of a
  connection whose coroutine has not ended, with the callback of that connection; so a callback is
  never called on a connection that is destroyed. No two connections have a timer in common, so
  none cancels a timer of another; the tick is always pending; and when all coroutines have
  ended, nothing else is.\<close>

theorem worker_timers_owned:
  assumes "timers_unique (en_timer e) live used expire" "live ts = (\<lambda>_. None)"
    and "worker_reaches e sapi sem pid fresh live expire (service_setup opt h ts k) wk"
  shows "let cs = sv_spawned (wk_service wk); now = live (sv_timers (wk_service wk)) in
    (\<forall>j cb. now j = Some cb \<longrightarrow> sv_tik (wk_service wk) = Some j \<and> cb = On_time_tick \<or>
      (\<exists>i < length cs. wk_points wk ! i \<noteq> Ended \<and>
        (hc_timer_idle (cs ! i) = Some j \<and> cb = On_idle_expired (hc_connid (cs ! i)) \<or>
         hc_timer_life (cs ! i) = Some j \<and> cb = On_life_expired (hc_connid (cs ! i))))) \<and>
    (\<forall>i < length cs. \<forall>j < length cs. i \<noteq> j \<longrightarrow> timer_ids (cs ! i) \<inter> timer_ids (cs ! j) = {}) \<and>
    (\<exists>t. sv_tik (wk_service wk) = Some t \<and> now t = Some On_time_tick)"
proof -
  let ?cs = "sv_spawned (wk_service wk)" and ?ts = "sv_timers (wk_service wk)" and ?tik = "sv_tik (wk_service wk)"
  have inv: "worker_timers live used wk"
    by (rule timer_library.reaches_timers [OF _ assms(3,2)]) (simp add: timer_library_def assms(1))
  then have len: "length ?cs = length (wk_points wk)" and s: "timers_shared live used ?ts ?tik ?cs"
    and ended: "\<And>i. i < length ?cs \<Longrightarrow> wk_points wk ! i = Ended \<Longrightarrow> timer_ids (?cs ! i) = {}"
    by (auto simp: worker_timers_def)
  have o: "owns_timers (live ?ts) (?cs ! i)" if "i < length ?cs" for i using s that by (simp add: timers_shared_def)
  obtain t where t: "?tik = Some t" "live ?ts t = Some On_time_tick" using s by (auto simp: timers_shared_def)
  have "?tik = Some j \<and> cb = On_time_tick \<or> (\<exists>i < length ?cs. wk_points wk ! i \<noteq> Ended \<and>
        (hc_timer_idle (?cs ! i) = Some j \<and> cb = On_idle_expired (hc_connid (?cs ! i)) \<or>
         hc_timer_life (?cs ! i) = Some j \<and> cb = On_life_expired (hc_connid (?cs ! i))))" if l: "live ?ts j = Some cb" for j cb
  proof (cases "?tik = Some j")
    case True
    then show ?thesis using t l by simp
  next
    case False
    then obtain i where i: "i < length ?cs" "j \<in> timer_ids (?cs ! i)" using s l by (auto simp: timers_shared_def)
    then have "wk_points wk ! i \<noteq> Ended" using ended by blast
    then show ?thesis using i o [OF i(1)] l by (intro disjI2 exI [of _ i]) (auto simp: owns_timers_def timer_ids_def)
  qed
  moreover have "\<forall>i < length ?cs. \<forall>j < length ?cs. i \<noteq> j \<longrightarrow> timer_ids (?cs ! i) \<inter> timer_ids (?cs ! j) = {}" using s by (simp add: timers_shared_def)
  ultimately show ?thesis unfolding Let_def using t by blast
qed

lemma sample_timers_unique:
  "timers_unique (en_timer sample_env) sample_live (\<lambda>(n, ts). {..<n}) sample_expire"
proof -
  have drop_id: "map_of (filter (\<lambda>(j, _). j \<noteq> i) ts) = (map_of ts)(i := None)" for i and ts :: "(nat \<times> timer_cb) list"
    by (induction ts) (auto simp: fun_eq_iff)
  show ?thesis unfolding timers_unique_def using sample_timers_ok
    by (auto simp: sample_timer_def fun_eq_iff drop_id)
qed

interpretation sample_timers: timer_library sample_env sample_live "\<lambda>(n, ts). {..<n}"
    sample_expire
  by unfold_locales (rule sample_timers_unique)

theorem worker_timers_owned_witness:
  "\<exists>wk t. sample_reaches wk \<and> wk_points wk = [Starting [] 0, Starting [] 0] \<and> sv_tik (wk_service wk) = Some t"
proof -
  obtain wk where wk: "sample_reaches wk" "wk_points wk = [Starting [] 0, Starting [] 0]" using sample_two_peers by blast
  have "sample_live (0 :: nat, [] :: (nat \<times> timer_cb) list) = (\<lambda>_. None)" by (simp add: fun_eq_iff)
  from worker_timers_owned [OF sample_timers_unique this wk(1)] show ?thesis using wk unfolding Let_def by blast
qed

end
