(* ===== verification/Op_Queue.thy ===== *)
theory Op_Queue
  imports Prelude
begin

text \<open>
  The intrusive queue of operations of the vendored asio (\<^verbatim>\<open>asio/detail/op_queue.hpp\<close>), which the timers
  of its reactor use. An operation has one link; the links of all operations are the store \<open>links\<close>, and
  0 is the null pointer. What the queue promises to its clients is the locale \<open>linked_fifo\<close>.
\<close>

subsection \<open>Definitions\<close>

type_synonym links = "nat \<Rightarrow> nat"

record op_queue =
  oq_front :: nat
  oq_back :: nat

definition oq_make :: op_queue where
  "oq_make = \<lparr>oq_front = 0, oq_back = 0\<rparr>"

definition oq_empty :: "op_queue \<Rightarrow> bool" where
  "oq_empty q \<longleftrightarrow> oq_front q = 0"

definition oq_pop :: "links \<Rightarrow> op_queue \<Rightarrow> links \<times> op_queue" where
  "oq_pop l q = (if oq_front q \<noteq> 0
     then let tmp = oq_front q; f = l tmp in (l(tmp := 0), \<lparr>oq_front = f, oq_back = (if f = 0 then 0 else oq_back q)\<rparr>)
     else (l, q))"

definition oq_push :: "links \<Rightarrow> op_queue \<Rightarrow> nat \<Rightarrow> links \<times> op_queue" where
  "oq_push l q h = (let l1 = l(h := 0) in
     if oq_back q \<noteq> 0 then (l1(oq_back q := h), q\<lparr>oq_back := h\<rparr>)
     else (l1, \<lparr>oq_front = h, oq_back = h\<rparr>))"

text \<open>\<open>push(op_queue<OtherOperation>& q)\<close>: all operations of the other queue, which is then empty.\<close>

definition oq_push_all :: "links \<Rightarrow> op_queue \<Rightarrow> op_queue \<Rightarrow> links \<times> op_queue \<times> op_queue" where
  "oq_push_all l q other = (if oq_front other \<noteq> 0
     then (if oq_back q \<noteq> 0 then l(oq_back q := oq_front other) else l,
           \<lparr>oq_front = (if oq_back q \<noteq> 0 then oq_front q else oq_front other), oq_back = oq_back other\<rparr>,
           \<lparr>oq_front = 0, oq_back = 0\<rparr>)
     else (l, q, other))"

text \<open>The destructor, with the operations it destroys. It would not end on a cycle of links.\<close>

partial_function (option) oq_destroy :: "links \<Rightarrow> op_queue \<Rightarrow> nat list option" where
  "oq_destroy l q = (if oq_front q = 0 then Some []
     else case oq_pop l q of (l', q') \<Rightarrow> Option.bind (oq_destroy l' q') (\<lambda>xs. Some (oq_front q # xs)))"

subsection \<open>The queue as a list\<close>

fun chain :: "links \<Rightarrow> nat list \<Rightarrow> bool" where
  "chain l [] \<longleftrightarrow> True"
| "chain l [x] \<longleftrightarrow> l x = 0"
| "chain l (x # y # zs) \<longleftrightarrow> l x = y \<and> chain l (y # zs)"

definition queue_of :: "links \<Rightarrow> op_queue \<Rightarrow> nat list \<Rightarrow> bool" where
  "queue_of l q xs \<longleftrightarrow> chain l xs \<and> distinct xs \<and> 0 \<notin> set xs \<and>
     oq_front q = (if xs = [] then 0 else hd xs) \<and> oq_back q = (if xs = [] then 0 else last xs)"

lemma chain_other: "x \<notin> set xs \<Longrightarrow> chain (l(x := y)) xs = chain l xs"
  by (induction l xs rule: chain.induct) auto

lemma chain_append: "chain l xs \<Longrightarrow> chain l ys \<Longrightarrow> distinct (xs @ ys) \<Longrightarrow> xs \<noteq> [] \<Longrightarrow> ys \<noteq> [] \<Longrightarrow> chain (l(last xs := hd ys)) (xs @ ys)"
proof (induction l xs rule: chain.induct)
  case (2 l x)
  then show ?case by (cases ys) (auto simp: chain_other simp del: fun_upd_apply, simp)
next
  case (3 l x y zs)
  then have "x \<noteq> last (y # zs)" by auto
  then show ?case using 3 by simp
qed simp

lemma queue_of_other: "queue_of l q xs \<Longrightarrow> x \<notin> set xs \<Longrightarrow> queue_of (l(x := y)) q xs"
  by (simp add: queue_of_def chain_other)

lemma chain_cong: "(\<And>x. x \<in> set xs \<Longrightarrow> l' x = l x) \<Longrightarrow> chain l xs \<Longrightarrow> chain l' xs"
  by (induction l xs rule: chain.induct) auto

lemma queue_of_cong: "(\<And>x. x \<in> set xs \<Longrightarrow> l' x = l x) \<Longrightarrow> queue_of l q xs \<Longrightarrow> queue_of l' q xs"
  using chain_cong [of xs l' l] by (simp add: queue_of_def)

lemma queue_of_Nil: "queue_of l q [] \<longleftrightarrow> q = oq_make"
  by (cases q) (auto simp: queue_of_def oq_make_def)

lemma queue_of_empty: "queue_of l q xs \<Longrightarrow> oq_empty q \<longleftrightarrow> xs = []"
  by (cases xs) (auto simp: queue_of_def oq_empty_def)

lemma queue_of_back: "queue_of l q xs \<Longrightarrow> oq_back q = 0 \<longleftrightarrow> xs = []"
  using last_in_set [of xs] unfolding queue_of_def by (metis (full_types))

lemma oq_pop_Cons:
  assumes "queue_of l q (x # xs)" "oq_pop l q = (l', q')"
  shows "queue_of l' q' xs" "l' = l(x := 0)"
proof -
  have x: "oq_front q = x" "x \<noteq> 0" "x \<notin> set xs" using assms(1) by (auto simp: queue_of_def)
  have n: "l x = (if xs = [] then 0 else hd xs)" "chain l xs" using assms(1) by (cases xs; simp add: queue_of_def)+
  show "l' = l(x := 0)" using assms(2) x by (simp add: oq_pop_def Let_def)
  moreover have "q' = \<lparr>oq_front = l x, oq_back = (if l x = 0 then 0 else oq_back q)\<rparr>" using assms(2) x by (simp add: oq_pop_def Let_def)
  moreover have "hd xs \<noteq> 0" if "xs \<noteq> []" using that assms(1) by (cases xs) (auto simp: queue_of_def)
  ultimately show "queue_of l' q' xs" using assms(1) x n by (auto simp: queue_of_def chain_other)
qed

lemma oq_push_snoc:
  assumes "queue_of l q xs" "x \<notin> set xs" "x \<noteq> 0" "oq_push l q x = (l', q')"
  shows "queue_of l' q' (xs @ [x])"
proof (cases "xs = []")
  case True
  then show ?thesis using assms by (auto simp: queue_of_def oq_push_def)
next
  case False
  have c: "chain (l(x := 0)) xs" using assms(1,2) by (simp add: queue_of_def chain_other)
  have "chain ((l(x := 0))(last xs := hd [x])) (xs @ [x])"
    by (rule chain_append) (use c False assms(1,2) in \<open>auto simp: queue_of_def\<close>)
  then show ?thesis using assms queue_of_back [OF assms(1)] False by (auto simp: queue_of_def oq_push_def)
qed

lemma oq_push_all_append:
  assumes "queue_of l q xs" "queue_of l other ys" "set xs \<inter> set ys = {}" "oq_push_all l q other = (l', q', other')"
  shows "queue_of l' q' (xs @ ys) \<and> queue_of l' other' []"
proof -
  note e = queue_of_empty [OF assms(2)] queue_of_back [OF assms(1)]
  show ?thesis
  proof (cases "xs = [] \<or> ys = []")
    case True
    then show ?thesis using assms e by (auto simp: oq_push_all_def queue_of_def oq_empty_def)
  next
    case False
    have "chain (l(last xs := hd ys)) (xs @ ys)"
      by (rule chain_append) (use assms(1-3) False in \<open>auto simp: queue_of_def\<close>)
    then show ?thesis using assms e False by (auto simp: oq_push_all_def queue_of_def oq_empty_def)
  qed
qed

text \<open>The other queues in the same memory.\<close>

lemma oq_push_links:
  assumes "queue_of l q xs" "oq_push l q x = (l', q')"
  shows "y \<noteq> x \<Longrightarrow> y \<notin> set xs \<Longrightarrow> l' y = l y"
proof -
  have "oq_back q = (if xs = [] then 0 else last xs)" using assms(1) by (simp add: queue_of_def)
  then have "l' = l(x := 0) \<or> xs \<noteq> [] \<and> l' = (l(x := 0))(last xs := x)" using assms(2) by (auto simp: oq_push_def Let_def split: if_splits)
  then show "y \<noteq> x \<Longrightarrow> y \<notin> set xs \<Longrightarrow> l' y = l y" using last_in_set [of xs] by auto
qed

lemma oq_push_all_links:
  assumes "queue_of l q xs" "oq_push_all l q other = (l', q', other')"
  shows "y \<notin> set xs \<Longrightarrow> l' y = l y"
proof -
  have "oq_back q = (if xs = [] then 0 else last xs)" using assms(1) by (simp add: queue_of_def)
  then have "l' = l \<or> xs \<noteq> [] \<and> l' = l(last xs := oq_front other)" using assms(2) by (auto simp: oq_push_all_def split: if_splits)
  then show "y \<notin> set xs \<Longrightarrow> l' y = l y" using last_in_set [of xs] by auto
qed

lemma oq_push_frame:
  assumes "queue_of l q xs" "oq_push l q x = (l', q')" "queue_of l p zs" "x \<notin> set zs" "set xs \<inter> set zs = {}"
  shows "queue_of l' p zs"
  by (rule queue_of_cong [OF oq_push_links [OF assms(1,2)] assms(3)]) (use assms(4,5) in auto)

lemma oq_push_all_frame:
  assumes "queue_of l q xs" "oq_push_all l q other = (l', q', other')" "queue_of l p zs" "set xs \<inter> set zs = {}"
  shows "queue_of l' p zs"
  by (rule queue_of_cong [OF oq_push_all_links [OF assms(1,2)] assms(3)]) (use assms(4) in auto)

lemma oq_destroy_all: "queue_of l q xs \<Longrightarrow> oq_destroy l q = Some xs"
proof (induction xs arbitrary: l q)
  case Nil
  then show ?case by (subst oq_destroy.simps) (simp add: queue_of_def)
next
  case (Cons x xs)
  obtain l' q' where p: "oq_pop l q = (l', q')" by fastforce
  have "oq_front q = x" "x \<noteq> 0" using Cons.prems by (auto simp: queue_of_def)
  then show ?case using p Cons.IH [OF oq_pop_Cons(1) [OF Cons.prems p]] by (subst oq_destroy.simps) simp
qed

subsection \<open>What clients rely on\<close>

locale linked_fifo =
  fixes holds :: "'s \<Rightarrow> 'q \<Rightarrow> nat list \<Rightarrow> bool"
    and front :: "'q \<Rightarrow> nat"
    and push :: "'s \<Rightarrow> 'q \<Rightarrow> nat \<Rightarrow> 's \<times> 'q"
    and pop :: "'s \<Rightarrow> 'q \<Rightarrow> 's \<times> 'q"
  assumes front_null: "holds s q [] \<Longrightarrow> front q = 0"
    and front_first: "holds s q (x # xs) \<Longrightarrow> front q = x \<and> x \<noteq> 0"
    and push_last: "holds s q xs \<Longrightarrow> x \<notin> set xs \<Longrightarrow> x \<noteq> 0 \<Longrightarrow> push s q x = (s', q') \<Longrightarrow> holds s' q' (xs @ [x])"
    and pop_first: "holds s q (x # xs) \<Longrightarrow> pop s q = (s', q') \<Longrightarrow> holds s' q' xs"
begin

fun take_out :: "nat \<Rightarrow> 's \<Rightarrow> 'q \<Rightarrow> nat list \<times> 's \<times> 'q" where
  "take_out 0 s q = ([], s, q)"
| "take_out (Suc n) s q = (if front q = 0 then ([], s, q)
     else case pop s q of (s1, q1) \<Rightarrow> case take_out n s1 q1 of (xs, s2, q2) \<Rightarrow> (front q # xs, s2, q2))"

lemma take_out_order: "holds s q xs \<Longrightarrow> \<exists>s' q'. take_out n s q = (take n xs, s', q') \<and> holds s' q' (drop n xs)"
proof (induction n arbitrary: s q xs)
  case (Suc n)
  show ?case
  proof (cases xs)
    case Nil
    then show ?thesis using front_null Suc.prems by simp
  next
    case (Cons x ys)
    obtain s1 q1 where p: "pop s q = (s1, q1)" by fastforce
    have f: "front q = x" "x \<noteq> 0" using front_first Suc.prems Cons by auto
    obtain s' q' where "take_out n s1 q1 = (take n ys, s', q')" "holds s' q' (drop n ys)"
      using Suc.IH [OF pop_first [OF Suc.prems [unfolded Cons] p]] by blast
    then show ?thesis using f p Cons by simp
  qed
qed simp

fun put_in :: "nat list \<Rightarrow> 's \<Rightarrow> 'q \<Rightarrow> 's \<times> 'q" where
  "put_in [] s q = (s, q)"
| "put_in (x # xs) s q = (case push s q x of (s1, q1) \<Rightarrow> put_in xs s1 q1)"

lemma put_in_order: "holds s q ys \<Longrightarrow> distinct (ys @ xs) \<Longrightarrow> 0 \<notin> set xs \<Longrightarrow> put_in xs s q = (s', q') \<Longrightarrow> holds s' q' (ys @ xs)"
proof (induction xs arbitrary: s q ys)
  case (Cons x xs)
  obtain s1 q1 where p: "push s q x = (s1, q1)" by fastforce
  have "holds s1 q1 (ys @ [x])" by (rule push_last [OF Cons.prems(1) _ _ p]) (use Cons.prems(2,3) in auto)
  then show ?case using Cons.IH [of s1 q1 "ys @ [x]"] Cons.prems p by simp
qed simp

end

interpretation ops: linked_fifo queue_of oq_front oq_push oq_pop
proof
  show "queue_of s q [] \<Longrightarrow> oq_front q = 0" for s q by (simp add: queue_of_def)
  show "queue_of s q (x # xs) \<Longrightarrow> oq_front q = x \<and> x \<noteq> 0" for s q x xs by (auto simp: queue_of_def)
qed (fact oq_push_snoc, fact oq_pop_Cons(1))

lemma put_in_frame:
  "queue_of l q zs \<Longrightarrow> set vs \<inter> set zs = {} \<Longrightarrow> set us \<inter> set zs = {} \<Longrightarrow> distinct (vs @ us) \<Longrightarrow> 0 \<notin> set us \<Longrightarrow>
    queue_of l p vs \<Longrightarrow> ops.put_in us l p = (l', p') \<Longrightarrow> queue_of l' q zs"
proof (induction us arbitrary: l p vs)
  case (Cons u us)
  obtain l1 p1 where p: "oq_push l p u = (l1, p1)" by fastforce
  have "queue_of l1 q zs" by (rule oq_push_frame [OF Cons.prems(6) p Cons.prems(1)]) (use Cons.prems(2,3) in auto)
  moreover have "queue_of l1 p1 (vs @ [u])" by (rule oq_push_snoc [OF Cons.prems(6) _ _ p]) (use Cons.prems(4,5) in auto)
  ultimately show ?case using Cons.IH [of l1 "vs @ [u]" p1] Cons.prems p by simp
qed simp

subsection \<open>Properties\<close>

text \<open>The intrusive queue is a queue. Operations pushed one after the other onto a new queue come out in
  that order, and the rest stays; one queue pushed onto another leaves the first empty and the second
  with all operations in order; the destructor destroys every operation once, in order, and ends.\<close>

theorem op_queue_fifo:
  assumes "distinct (xs @ ys)" "0 \<notin> set (xs @ ys)" "ops.put_in xs l oq_make = (l1, q)" "ops.put_in ys l1 oq_make = (l2, r)"
    and "oq_push_all l2 q r = (l3, q', r')"
  shows "oq_destroy l3 q' = Some (xs @ ys) \<and> oq_empty r' \<and>
    (\<exists>l4 q4. ops.take_out n l3 q' = (take n (xs @ ys), l4, q4) \<and> queue_of l4 q4 (drop n (xs @ ys)))"
proof -
  have nil: "queue_of m oq_make []" for m by (simp add: queue_of_Nil)
  have q: "queue_of l1 q xs" using ops.put_in_order [OF nil _ _ assms(3)] assms(1,2) by simp
  have r: "queue_of l2 r ys" using ops.put_in_order [OF nil _ _ assms(4)] assms(1,2) by simp
  have "queue_of l2 q xs" by (rule put_in_frame [OF q _ _ _ _ nil assms(4)]) (use assms(1,2) in auto)
  then have "queue_of l3 q' (xs @ ys)" "queue_of l3 r' []"
    using oq_push_all_append [OF _ r _ assms(5)] assms(1) by auto
  then show ?thesis using oq_destroy_all ops.take_out_order queue_of_empty by blast
qed

theorem op_queue_fifo_witness:
  "\<exists>l q. ops.put_in [3, 1, 2] (\<lambda>_. 0) oq_make = (l, q) \<and> fst (ops.take_out 2 l q) = [3, 1]"
proof -
  obtain l1 q where 1: "ops.put_in [3, 1, 2] (\<lambda>_. 0) oq_make = (l1, q)" by fastforce
  obtain l3 q' r' where 3: "oq_push_all l1 q oq_make = (l3, q', r')" by (metis prod.collapse)
  have "l3 = l1" "q' = q" using 3 by (simp_all add: oq_push_all_def oq_make_def)
  then show ?thesis using op_queue_fifo [of "[3, 1, 2]" "[]" "\<lambda>_. 0" l1 q l1 oq_make l3 q' r' 2] 1 3 by auto
qed

end
