(* ===== verification/Object_Pool.thy ===== *)
theory Object_Pool
  imports Op_Queue
begin

text \<open>
  The pool of objects of the vendored asio (\<^verbatim>\<open>asio/detail/object_pool.hpp\<close>), in which the reactor keeps the states
  of its descriptors: a doubly linked list of the objects in use and a list of the ones that can be used
  again. Objects are addresses, 0 is the null pointer; the address of an object that \<open>new\<close> creates is an
  argument.
\<close>

subsection \<open>Definitions\<close>

record object_pool =
  op_live_list :: nat
  op_free_list :: nat
  op_next :: "nat \<Rightarrow> nat"
  op_prev :: "nat \<Rightarrow> nat"

definition pool_make :: object_pool where
  "pool_make = \<lparr>op_live_list = 0, op_free_list = 0, op_next = (\<lambda>_. 0), op_prev = (\<lambda>_. 0)\<rparr>"

text \<open>The object, whether it is a new one, and the pool.\<close>

definition pool_alloc :: "nat \<Rightarrow> object_pool \<Rightarrow> nat \<times> bool \<times> object_pool" where
  "pool_alloc new p = (let o1 = (if op_free_list p \<noteq> 0 then op_free_list p else new);
       p1 = (if op_free_list p \<noteq> 0 then p\<lparr>op_free_list := op_next p (op_free_list p)\<rparr> else p);
       p2 = p1\<lparr>op_next := (op_next p1)(o1 := op_live_list p1), op_prev := (op_prev p1)(o1 := 0)\<rparr>;
       p3 = (if op_live_list p2 \<noteq> 0 then p2\<lparr>op_prev := (op_prev p2)(op_live_list p2 := o1)\<rparr> else p2)
     in (o1, op_free_list p = 0, p3\<lparr>op_live_list := o1\<rparr>))"

definition pool_free :: "nat \<Rightarrow> object_pool \<Rightarrow> object_pool" where
  "pool_free x p = (let p1 = (if op_live_list p = x then p\<lparr>op_live_list := op_next p x\<rparr> else p);
       p2 = (if op_prev p1 x \<noteq> 0 then p1\<lparr>op_next := (op_next p1)(op_prev p1 x := op_next p1 x)\<rparr> else p1);
       p3 = (if op_next p2 x \<noteq> 0 then p2\<lparr>op_prev := (op_prev p2)(op_next p2 x := op_prev p2 x)\<rparr> else p2)
     in p3\<lparr>op_next := (op_next p3)(x := op_free_list p3), op_prev := (op_prev p3)(x := 0), op_free_list := x\<rparr>)"

text \<open>The objects a destructor's loop destroys.\<close>

partial_function (option) destroy_list :: "(nat \<Rightarrow> nat) \<Rightarrow> nat \<Rightarrow> nat list option" where
  "destroy_list nxt l = (if l = 0 then Some [] else Option.bind (destroy_list nxt (nxt l)) (\<lambda>xs. Some (l # xs)))"

definition pool_destroy :: "object_pool \<Rightarrow> nat list option" where
  "pool_destroy p = Option.bind (destroy_list (op_next p) (op_live_list p)) (\<lambda>xs.
     Option.bind (destroy_list (op_next p) (op_free_list p)) (\<lambda>ys. Some (xs @ ys)))"

subsection \<open>The two lists\<close>

definition head_of :: "nat list \<Rightarrow> nat" where
  "head_of xs = (case xs of [] \<Rightarrow> 0 | x # _ \<Rightarrow> x)"

fun forth :: "(nat \<Rightarrow> nat) \<Rightarrow> nat list \<Rightarrow> nat \<Rightarrow> bool" where
  "forth nxt [] e \<longleftrightarrow> True"
| "forth nxt (x # xs) e \<longleftrightarrow> nxt x = (case xs of [] \<Rightarrow> e | y # _ \<Rightarrow> y) \<and> forth nxt xs e"

fun backward :: "(nat \<Rightarrow> nat) \<Rightarrow> nat \<Rightarrow> nat list \<Rightarrow> bool" where
  "backward prv b [] \<longleftrightarrow> True"
| "backward prv b (x # xs) \<longleftrightarrow> prv x = b \<and> backward prv x xs"

definition pool_of :: "object_pool \<Rightarrow> nat list \<Rightarrow> nat list \<Rightarrow> bool" where
  "pool_of p live free \<longleftrightarrow> distinct (live @ free) \<and> 0 \<notin> set (live @ free) \<and>
     op_live_list p = head_of live \<and> op_free_list p = head_of free \<and>
     forth (op_next p) live 0 \<and> forth (op_next p) free 0 \<and> backward (op_prev p) 0 live"

lemma forth_other [simp]: "x \<notin> set xs \<Longrightarrow> forth (f(x := y)) xs e = forth f xs e"
  by (induction xs) auto

lemma backward_other [simp]: "x \<notin> set xs \<Longrightarrow> backward (f(x := y)) b xs = backward f b xs"
  by (induction xs arbitrary: b) auto

lemma forth_append: "forth f (xs @ ys) e = (forth f xs (if ys = [] then e else hd ys) \<and> forth f ys e)"
  by (induction xs) (auto split: list.splits)

lemma backward_append: "backward f b (xs @ ys) = (backward f b xs \<and> backward f (if xs = [] then b else last xs) ys)"
  by (induction xs arbitrary: b) auto

lemma forth_relink: "forth f xs e \<Longrightarrow> distinct xs \<Longrightarrow> xs \<noteq> [] \<Longrightarrow> forth (f(last xs := e')) xs e'"
proof (induction xs)
  case (Cons x xs)
  show ?case
  proof (cases xs)
    case (Cons y zs)
    then have "last xs \<noteq> x" using Cons.prems(2) last_in_set [of xs] by auto
    then show ?thesis using Cons Cons.IH Cons.prems by simp
  qed simp
qed simp

lemma backward_relink: "backward f b ys \<Longrightarrow> distinct ys \<Longrightarrow> ys \<noteq> [] \<Longrightarrow> backward (f(hd ys := b')) b' ys"
  by (cases ys) auto

lemma pool_of_make: "pool_of pool_make [] []"
  by (simp add: pool_of_def pool_make_def head_of_def)

lemma pool_alloc_lists:
  assumes "pool_of p live free" "free = [] \<longrightarrow> new \<noteq> 0 \<and> new \<notin> set live" "pool_alloc new p = (x, created, p')"
  shows "x = (if free = [] then new else hd free)" "created = (free = [])" "pool_of p' (x # live) (tl free)"
proof -
  have f: "op_free_list p = 0 \<longleftrightarrow> free = []" using assms(1) by (cases free) (auto simp: pool_of_def head_of_def)
  show x: "x = (if free = [] then new else hd free)" using assms(1,3) f
    by (cases free) (auto simp: pool_of_def head_of_def pool_alloc_def Let_def)
  show "created = (free = [])" using assms(3) f by (auto simp: pool_alloc_def Let_def)
  have n: "x \<noteq> 0" "x \<notin> set live" "x \<notin> set (tl free)" using assms(1,2) x by (cases free; auto simp: pool_of_def)+
  have t: "forth (op_next p) (tl free) 0" "free \<noteq> [] \<Longrightarrow> op_next p (hd free) = head_of (tl free)"
    using assms(1) by (cases free; auto simp: pool_of_def head_of_def)+
  show "pool_of p' (x # live) (tl free)"
  proof (cases live)
    case Nil
    then show ?thesis using assms f x n t by (cases free) (auto simp: pool_of_def pool_alloc_def Let_def head_of_def)
  next
    case (Cons a as)
    then show ?thesis using assms f x n t by (cases free) (auto simp: pool_of_def pool_alloc_def Let_def head_of_def)
  qed
qed

lemma pool_free_lists:
  assumes "pool_of p (ys @ x # zs) free"
  shows "pool_of (pool_free x p) (ys @ zs) (x # free)"
proof -
  note a = assms [unfolded pool_of_def forth_append backward_append]
  have x: "op_next p x = head_of zs" "op_prev p x = (if ys = [] then 0 else last ys)"
    using a by (auto simp: head_of_def split: list.splits)
  have l: "op_live_list p = x \<longleftrightarrow> ys = []" using a by (cases ys) (auto simp: head_of_def)
  have "last ys \<noteq> 0 \<and> last ys \<noteq> x \<and> last ys \<notin> set zs \<and> last ys \<notin> set free" if "ys \<noteq> []"
    using last_in_set [OF that] a by auto
  moreover have "hd zs \<noteq> 0 \<and> hd zs \<noteq> x \<and> hd zs \<notin> set ys" if "zs \<noteq> []" using hd_in_set [OF that] a by auto
  ultimately have n: "ys \<noteq> [] \<Longrightarrow> last ys \<noteq> 0 \<and> last ys \<noteq> x \<and> last ys \<notin> set zs \<and> last ys \<notin> set free"
    "zs \<noteq> [] \<Longrightarrow> hd zs \<noteq> 0 \<and> hd zs \<noteq> x \<and> hd zs \<notin> set ys" by auto
  let ?p = "if ys = [] then 0 else last ys"
  let ?next = "if ys = [] then op_next p else (op_next p)(last ys := head_of zs)"
  let ?prev = "if zs = [] then op_prev p else (op_prev p)(hd zs := ?p)"
  have z: "head_of zs = (if zs = [] then 0 else hd zs)" by (simp add: head_of_def split: list.splits)
  have r: "pool_free x p = \<lparr>op_live_list = (if ys = [] then head_of zs else op_live_list p), op_free_list = x,
      op_next = ?next(x := op_free_list p), op_prev = ?prev(x := 0)\<rparr>"
    using x l n z by (cases p; cases "ys = []"; cases "zs = []") (simp_all add: pool_free_def Let_def)
  have d: "x \<notin> set ys" "x \<notin> set zs" "x \<notin> set free" "distinct ys" "distinct zs" using a by auto
  have f: "forth ?next ys (head_of zs)" using forth_relink [of "op_next p" ys x "head_of zs"] a d by (cases "ys = []") auto
  have g: "forth ?next zs 0" "forth ?next free 0" using a n by (cases "ys = []"; auto split: list.splits)+
  have b: "backward ?prev ?p zs" using backward_relink [of "op_prev p" x zs ?p] a d by (cases "zs = []") auto
  have c: "backward ?prev 0 ys" using a n by (cases "zs = []") auto
  have "op_live_list p = head_of (ys @ zs)" if "ys \<noteq> []" using a that by (cases ys) (auto simp: head_of_def)
  moreover have "forth (?next(x := op_free_list p)) (ys @ zs) 0" using f g(1) d z by (simp add: forth_append)
  moreover have "forth (?next(x := op_free_list p)) (x # free) 0" using g(2) d a by (simp add: head_of_def)
  moreover have "backward (?prev(x := 0)) 0 (ys @ zs)" using b c d by (simp add: backward_append)
  moreover have "distinct ((ys @ zs) @ x # free) \<and> 0 \<notin> set ((ys @ zs) @ x # free)" using a by auto
  ultimately show ?thesis unfolding pool_of_def r by (cases "ys = []") (simp_all add: head_of_def [of "_ # _"])
qed

lemma destroy_list_all: "forth nxt xs 0 \<Longrightarrow> 0 \<notin> set xs \<Longrightarrow> destroy_list nxt (head_of xs) = Some xs"
proof (induction xs)
  case Nil
  then show ?case by (subst destroy_list.simps) (simp add: head_of_def)
next
  case (Cons x xs)
  then have "nxt x = head_of xs" by (simp add: head_of_def)
  then show ?case using Cons by (subst destroy_list.simps) (simp add: head_of_def)
qed

subsection \<open>What clients rely on\<close>

locale object_recycler =
  fixes holds :: "'p \<Rightarrow> nat list \<Rightarrow> nat list \<Rightarrow> bool"
    and alloc :: "nat \<Rightarrow> 'p \<Rightarrow> nat \<times> bool \<times> 'p"
    and release :: "nat \<Rightarrow> 'p \<Rightarrow> 'p"
  assumes holds_apart: "holds p live free \<Longrightarrow> distinct (live @ free) \<and> 0 \<notin> set (live @ free)"
    and alloc_next: "holds p live free \<Longrightarrow> free = [] \<longrightarrow> new \<noteq> 0 \<and> new \<notin> set live \<Longrightarrow> alloc new p = (x, created, p') \<Longrightarrow>
      x = (if free = [] then new else hd free) \<and> created = (free = []) \<and> holds p' (x # live) (tl free)"
    and release_at: "holds p (ys @ x # zs) free \<Longrightarrow> holds (release x p) (ys @ zs) (x # free)"
begin

lemma alloc_new:
  assumes "holds p live free" "new \<noteq> 0" "new \<notin> set live" "alloc new p = (x, created, p')"
  shows "x \<notin> set live" "x \<noteq> 0" "\<exists>free'. holds p' (x # live) free'"
  using alloc_next [OF assms(1) _ assms(4)] holds_apart [of p' "x # live"] assms(2,3) by auto

lemma release_live:
  assumes "holds p live free" "x \<in> set live"
  shows "holds (release x p) (remove1 x live) (x # free)"
proof -
  obtain ys zs where "live = ys @ x # zs" "x \<notin> set ys" using assms(2) by (meson split_list_first)
  then show ?thesis using release_at [of p ys x zs free] assms(1) by (simp add: remove1_append)
qed

text \<open>The object released last is the next one handed out.\<close>

lemma release_alloc:
  assumes "holds p live free" "x \<in> set live" "alloc new (release x p) = (x', created, p')"
  shows "x' = x \<and> \<not> created \<and> holds p' (x # remove1 x live) free"
  using alloc_next [OF release_live [OF assms(1,2)] _ assms(3)] by auto

end

interpretation recycled: object_recycler pool_of pool_alloc pool_free
proof
  show "pool_of p live free \<Longrightarrow> distinct (live @ free) \<and> 0 \<notin> set (live @ free)" for p live free by (simp add: pool_of_def)
  show "x = (if free = [] then new else hd free) \<and> created = (free = []) \<and> pool_of p' (x # live) (tl free)"
    if "pool_of p live free" "free = [] \<longrightarrow> new \<noteq> 0 \<and> new \<notin> set live" "pool_alloc new p = (x, created, p')" for p live free new x created p'
    using pool_alloc_lists [OF that] by simp
qed (fact pool_free_lists)

end
