(* ===== verification/Socket_Control.thy ===== *)
theory Socket_Control
  imports Prelude "HOL-Library.Signed_Division"
begin

text \<open>
  The control operations on sockets of the vendored asio (\<^verbatim>\<open>asio/detail/impl/socket_ops.ipp\<close>, the branches of
  Linux): opening, binding, listening, accepting, connecting, options, blocking modes and closing.

  The system calls are the record \<open>sys\<close>; each returns its result and the value of \<open>errno\<close>, which is cleared
  before. An error code is an \<open>errno\<close> value, 0 for success; the one error of asio's own that occurs,
  \<open>already_open\<close>, is a negative number here. The bits a socket object keeps besides its
  descriptor are the 8-bit \<open>state_type\<close>. The value of an option is a list of C integers. What is
  assumed of the system calls is stated with each group of lemmas.
\<close>

subsection \<open>System calls and state bits\<close>

type_synonym errno = int
type_synonym state_type = "8 word"

definition EBADF :: errno where "EBADF = 9"
definition EINTR :: errno where "EINTR = 4"
definition EAGAIN :: errno where "EAGAIN = 11"
definition EINVAL :: errno where "EINVAL = 22"
definition already_open :: errno where "already_open = - 1"
definition EPROTO :: errno where "EPROTO = 71"
definition ECONNABORTED :: errno where "ECONNABORTED = 103"
definition ENOBUFS :: errno where "ENOBUFS = 105"
definition EINPROGRESS :: errno where "EINPROGRESS = 115"

definition user_set_non_blocking :: state_type where "user_set_non_blocking = 1"
definition internal_non_blocking :: state_type where "internal_non_blocking = 2"
definition non_blocking :: state_type where "non_blocking = user_set_non_blocking OR internal_non_blocking"
definition enable_connection_aborted :: state_type where "enable_connection_aborted = 4"
definition user_set_linger :: state_type where "user_set_linger = 8"
definition stream_oriented :: state_type where "stream_oriented = 16"
definition datagram_oriented :: state_type where "datagram_oriented = 32"
definition possible_dup :: state_type where "possible_dup = 64"

definition invalid_socket :: int where "invalid_socket = - 1"
definition socket_error_retval :: int where "socket_error_retval = - 1"
definition custom_socket_option_level :: int where "custom_socket_option_level = - 1525678080"
definition enable_connection_aborted_option :: int where "enable_connection_aborted_option = 1"
definition always_fail_option :: int where "always_fail_option = 2"

definition SOL_SOCKET :: int where "SOL_SOCKET = 1"
definition SO_ERROR :: int where "SO_ERROR = 4"
definition SO_SNDBUF :: int where "SO_SNDBUF = 7"
definition SO_RCVBUF :: int where "SO_RCVBUF = 8"
definition SO_LINGER :: int where "SO_LINGER = 13"
definition FIONBIO :: int where "FIONBIO = 21537"

record ('s, 'a) sys =
  sys_socket :: "int \<Rightarrow> int \<Rightarrow> int \<Rightarrow> 's \<Rightarrow> (int \<times> errno) \<times> 's"
  sys_bind :: "int \<Rightarrow> 'a \<Rightarrow> 's \<Rightarrow> (int \<times> errno) \<times> 's"
  sys_listen :: "int \<Rightarrow> int \<Rightarrow> 's \<Rightarrow> (int \<times> errno) \<times> 's"
  sys_accept :: "int \<Rightarrow> 's \<Rightarrow> (int \<times> 'a \<times> errno) \<times> 's"
  sys_connect :: "int \<Rightarrow> 'a \<Rightarrow> 's \<Rightarrow> (int \<times> errno) \<times> 's"
  sys_shutdown :: "int \<Rightarrow> int \<Rightarrow> 's \<Rightarrow> (int \<times> errno) \<times> 's"
  sys_close :: "int \<Rightarrow> 's \<Rightarrow> (int \<times> errno) \<times> 's"
  sys_ioctl :: "int \<Rightarrow> int \<Rightarrow> int \<Rightarrow> 's \<Rightarrow> (int \<times> errno) \<times> 's"
  sys_setsockopt :: "int \<Rightarrow> int \<Rightarrow> int \<Rightarrow> int list \<Rightarrow> 's \<Rightarrow> (int \<times> errno) \<times> 's"
  sys_getsockopt :: "int \<Rightarrow> int \<Rightarrow> int \<Rightarrow> int list \<Rightarrow> 's \<Rightarrow> (int \<times> int list \<times> errno) \<times> 's"
  sys_poll_in :: "int \<Rightarrow> int \<Rightarrow> 's \<Rightarrow> (int \<times> errno) \<times> 's"
  sys_poll_out :: "int \<Rightarrow> int \<Rightarrow> 's \<Rightarrow> (int \<times> errno) \<times> 's"
  sys_getpeername :: "int \<Rightarrow> 's \<Rightarrow> (int \<times> 'a \<times> errno) \<times> 's"
  sys_getsockname :: "int \<Rightarrow> 's \<Rightarrow> (int \<times> 'a \<times> errno) \<times> 's"
  sys_epoll_ctl :: "int \<Rightarrow> int \<Rightarrow> 32 word \<Rightarrow> nat \<Rightarrow> 's \<Rightarrow> (int \<times> errno) \<times> 's"

text \<open>The common shape of the wrappers: fail on an invalid descriptor, otherwise call and reset the error code
  on success.\<close>

definition wrapped :: "int \<Rightarrow> ('s \<Rightarrow> (int \<times> errno) \<times> 's) \<Rightarrow> 's \<Rightarrow> (int \<times> errno) \<times> 's" where
  "wrapped s call w = (if s = invalid_socket then ((socket_error_retval, EBADF), w)
     else case call w of ((result, ec), w1) \<Rightarrow> ((result, if result = 0 then 0 else ec), w1))"

subsection \<open>Opening and connecting\<close>

definition so_socket :: "('s, 'a) sys \<Rightarrow> int \<Rightarrow> int \<Rightarrow> int \<Rightarrow> 's \<Rightarrow> (int \<times> errno) \<times> 's" where
  "so_socket y af type protocol w = (case sys_socket y af type protocol w of ((s, ec), w1) \<Rightarrow> ((s, if s \<ge> 0 then 0 else ec), w1))"

definition so_bind :: "('s, 'a) sys \<Rightarrow> int \<Rightarrow> 'a \<Rightarrow> 's \<Rightarrow> (int \<times> errno) \<times> 's" where
  "so_bind y s addr = wrapped s (sys_bind y s addr)"

definition so_listen :: "('s, 'a) sys \<Rightarrow> int \<Rightarrow> int \<Rightarrow> 's \<Rightarrow> (int \<times> errno) \<times> 's" where
  "so_listen y s backlog = wrapped s (sys_listen y s backlog)"

definition so_shutdown :: "('s, 'a) sys \<Rightarrow> int \<Rightarrow> int \<Rightarrow> 's \<Rightarrow> (int \<times> errno) \<times> 's" where
  "so_shutdown y s what = wrapped s (sys_shutdown y s what)"

definition so_connect :: "('s, 'a) sys \<Rightarrow> int \<Rightarrow> 'a \<Rightarrow> 's \<Rightarrow> (int \<times> errno) \<times> 's" where
  "so_connect y s addr w = (case wrapped s (sys_connect y s addr) w of ((result, ec), w1) \<Rightarrow>
     ((result, if result \<noteq> 0 \<and> ec = EAGAIN then ENOBUFS else ec), w1))"

definition poll_connect :: "('s, 'a) sys \<Rightarrow> int \<Rightarrow> 's \<Rightarrow> (int \<times> errno) \<times> 's" where
  "poll_connect y s w = (if s = invalid_socket then ((socket_error_retval, EBADF), w)
     else case sys_poll_out y s (- 1) w of ((result, ec), w1) \<Rightarrow> ((result, if result \<ge> 0 then 0 else ec), w1))"

definition so_poll_read :: "('s, 'a) sys \<Rightarrow> int \<Rightarrow> state_type \<Rightarrow> 's \<Rightarrow> (int \<times> errno) \<times> 's" where
  "so_poll_read y s st w = (if s = invalid_socket then ((socket_error_retval, EBADF), w)
     else let timeout = (if st AND user_set_non_blocking \<noteq> 0 then 0 else - 1) in
       case sys_poll_in y s timeout w of ((result, ec), w1) \<Rightarrow>
         ((result, if result = 0 then (if st AND user_set_non_blocking \<noteq> 0 then EAGAIN else 0)
                   else if result > 0 then 0 else ec), w1))"

definition so_getpeername :: "('s, 'a) sys \<Rightarrow> int \<Rightarrow> 's \<Rightarrow> (int \<times> 'a option \<times> errno) \<times> 's" where
  "so_getpeername y s w = (if s = invalid_socket then ((socket_error_retval, None, EBADF), w)
     else case sys_getpeername y s w of ((result, addr, ec), w1) \<Rightarrow> ((result, Some addr, if result = 0 then 0 else ec), w1))"

definition so_getsockname :: "('s, 'a) sys \<Rightarrow> int \<Rightarrow> 's \<Rightarrow> (int \<times> 'a option \<times> errno) \<times> 's" where
  "so_getsockname y s w = (if s = invalid_socket then ((socket_error_retval, None, EBADF), w)
     else case sys_getsockname y s w of ((result, addr, ec), w1) \<Rightarrow> ((result, Some addr, if result = 0 then 0 else ec), w1))"

subsection \<open>Options\<close>

definition so_setsockopt :: "('s, 'a) sys \<Rightarrow> int \<Rightarrow> state_type \<Rightarrow> int \<Rightarrow> int \<Rightarrow> int list \<Rightarrow> 's \<Rightarrow> (int \<times> errno) \<times> state_type \<times> 's" where
  "so_setsockopt y s st level optname optval w = (if s = invalid_socket then ((socket_error_retval, EBADF), st, w)
     else if level = custom_socket_option_level \<and> optname = always_fail_option then ((socket_error_retval, EINVAL), st, w)
     else if level = custom_socket_option_level \<and> optname = enable_connection_aborted_option
     then if length optval \<noteq> 1 then ((socket_error_retval, EINVAL), st, w)
       else ((0, 0), if optval ! 0 \<noteq> 0 then st OR enable_connection_aborted else st AND NOT enable_connection_aborted, w)
     else let st1 = (if level = SOL_SOCKET \<and> optname = SO_LINGER then st OR user_set_linger else st) in
       case sys_setsockopt y s level optname optval w of ((result, ec), w1) \<Rightarrow>
         ((result, if result = 0 then 0 else ec), st1, w1))"

text \<open>The argument gives the room for the value, the result is what it holds afterwards.\<close>

definition so_getsockopt :: "('s, 'a) sys \<Rightarrow> int \<Rightarrow> state_type \<Rightarrow> int \<Rightarrow> int \<Rightarrow> int list \<Rightarrow> 's \<Rightarrow> (int \<times> int list \<times> errno) \<times> 's" where
  "so_getsockopt y s st level optname optval w = (if s = invalid_socket then ((socket_error_retval, optval, EBADF), w)
     else if level = custom_socket_option_level \<and> optname = always_fail_option then ((socket_error_retval, optval, EINVAL), w)
     else if level = custom_socket_option_level \<and> optname = enable_connection_aborted_option
     then if length optval \<noteq> 1 then ((socket_error_retval, optval, EINVAL), w)
       else ((0, [if st AND enable_connection_aborted \<noteq> 0 then 1 else 0], 0), w)
     else case sys_getsockopt y s level optname optval w of ((result, v, ec), w1) \<Rightarrow>
       let v1 = (if result = 0 \<and> level = SOL_SOCKET \<and> length v = 1 \<and> (optname = SO_SNDBUF \<or> optname = SO_RCVBUF)
           then [v ! 0 sdiv 2] else v)
       in ((result, v1, if result = 0 then 0 else ec), w1))"

text \<open>The integer behind a pointer, which is 0 before the call.\<close>

definition int_at :: "int list \<Rightarrow> int" where
  "int_at v = (case v of [] \<Rightarrow> 0 | x # _ \<Rightarrow> x)"

definition so_sync_connect :: "('s, 'a) sys \<Rightarrow> int \<Rightarrow> 'a \<Rightarrow> 's \<Rightarrow> errno \<times> 's" where
  "so_sync_connect y s addr w = (case so_connect y s addr w of ((result, ec), w1) \<Rightarrow>
     if ec \<noteq> EINPROGRESS \<and> ec \<noteq> EAGAIN then (ec, w1)
     else case poll_connect y s w1 of ((r, ec1), w2) \<Rightarrow>
       if r < 0 then (ec1, w2)
       else case so_getsockopt y s 0 SOL_SOCKET SO_ERROR [0] w2 of ((g, v, ec2), w3) \<Rightarrow>
         if g = socket_error_retval then (ec2, w3) else (int_at v, w3))"

text \<open>\<open>None\<close> is a connection still in progress.\<close>

definition so_non_blocking_connect :: "('s, 'a) sys \<Rightarrow> int \<Rightarrow> 's \<Rightarrow> errno option \<times> 's" where
  "so_non_blocking_connect y s w = (case sys_poll_out y s 0 w of ((ready, e), w1) \<Rightarrow>
     if ready = 0 then (None, w1)
     else case so_getsockopt y s 0 SOL_SOCKET SO_ERROR [0] w1 of ((g, v, ec1), w2) \<Rightarrow>
       if g = 0 then (Some (if int_at v \<noteq> 0 then int_at v else 0), w2) else (Some ec1, w2))"

subsection \<open>Accepting\<close>

definition so_accept :: "('s, 'a) sys \<Rightarrow> int \<Rightarrow> 's \<Rightarrow> (int \<times> 'a option \<times> errno) \<times> 's" where
  "so_accept y s w = (if s = invalid_socket then ((invalid_socket, None, EBADF), w)
     else case sys_accept y s w of ((new_s, addr, ec), w1) \<Rightarrow>
       if new_s = invalid_socket then ((new_s, Some addr, ec), w1) else ((new_s, Some addr, 0), w1))"

partial_function (option) so_sync_accept :: "('s, 'a) sys \<Rightarrow> int \<Rightarrow> state_type \<Rightarrow> 's \<Rightarrow> ((int \<times> errno) \<times> 's) option" where
  "so_sync_accept y s st w = (case so_accept y s w of ((new_s, addr, ec), w1) \<Rightarrow>
     if new_s \<noteq> invalid_socket then Some ((new_s, ec), w1)
     else if (if ec = EAGAIN then st AND user_set_non_blocking \<noteq> 0
              else if ec = ECONNABORTED \<or> ec = EPROTO then st AND enable_connection_aborted \<noteq> 0 else True)
     then Some ((invalid_socket, ec), w1)
     else case so_poll_read y s 0 w1 of ((r, ec1), w2) \<Rightarrow>
       if r < 0 then Some ((invalid_socket, ec1), w2) else so_sync_accept y s st w2)"

text \<open>The result says whether the operation is complete.\<close>

partial_function (option) so_non_blocking_accept :: "('s, 'a) sys \<Rightarrow> int \<Rightarrow> state_type \<Rightarrow> 's \<Rightarrow> (bool \<times> (int \<times> errno) \<times> 's) option" where
  "so_non_blocking_accept y s st w = (case so_accept y s w of ((new_s, addr, ec), w1) \<Rightarrow>
     if new_s \<noteq> invalid_socket then Some (True, (new_s, ec), w1)
     else if ec = EINTR then so_non_blocking_accept y s st w1
     else if (if ec = EAGAIN then st AND user_set_non_blocking \<noteq> 0
              else if ec = ECONNABORTED \<or> ec = EPROTO then st AND enable_connection_aborted \<noteq> 0 else True)
     then Some (True, (new_s, ec), w1)
     else Some (False, (new_s, ec), w1))"

subsection \<open>Blocking modes and closing\<close>

definition set_user_non_blocking :: "('s, 'a) sys \<Rightarrow> int \<Rightarrow> state_type \<Rightarrow> bool \<Rightarrow> 's \<Rightarrow> (bool \<times> errno) \<times> state_type \<times> 's" where
  "set_user_non_blocking y s st value w = (if s = invalid_socket then ((False, EBADF), st, w)
     else case sys_ioctl y s FIONBIO (if value then 1 else 0) w of ((result, ec), w1) \<Rightarrow>
       if result \<ge> 0
       then ((True, 0), if value then st OR user_set_non_blocking else st AND NOT (user_set_non_blocking OR internal_non_blocking), w1)
       else ((False, ec), st, w1))"

definition set_internal_non_blocking :: "('s, 'a) sys \<Rightarrow> int \<Rightarrow> state_type \<Rightarrow> bool \<Rightarrow> 's \<Rightarrow> (bool \<times> errno) \<times> state_type \<times> 's" where
  "set_internal_non_blocking y s st value w = (if s = invalid_socket then ((False, EBADF), st, w)
     else if \<not> value \<and> st AND user_set_non_blocking \<noteq> 0 then ((False, EINVAL), st, w)
     else case sys_ioctl y s FIONBIO (if value then 1 else 0) w of ((result, ec), w1) \<Rightarrow>
       if result \<ge> 0 then ((True, 0), if value then st OR internal_non_blocking else st AND NOT internal_non_blocking, w1)
       else ((False, ec), st, w1))"

definition so_ioctl :: "('s, 'a) sys \<Rightarrow> int \<Rightarrow> state_type \<Rightarrow> int \<Rightarrow> int \<Rightarrow> 's \<Rightarrow> (int \<times> errno) \<times> state_type \<times> 's" where
  "so_ioctl y s st cmd arg w = (if s = invalid_socket then ((socket_error_retval, EBADF), st, w)
     else case sys_ioctl y s cmd arg w of ((result, ec), w1) \<Rightarrow>
       if result \<ge> 0
       then ((result, 0),
         if cmd = FIONBIO then (if arg \<noteq> 0 then st OR user_set_non_blocking else st AND NOT (user_set_non_blocking OR internal_non_blocking)) else st, w1)
       else ((result, ec), st, w1))"

definition so_close :: "('s, 'a) sys \<Rightarrow> int \<Rightarrow> state_type \<Rightarrow> bool \<Rightarrow> 's \<Rightarrow> (int \<times> errno) \<times> state_type \<times> 's" where
  "so_close y s st destruction w = (if s \<noteq> invalid_socket
     then let (st1, w1) = (if destruction \<and> st AND user_set_linger \<noteq> 0 then snd (so_setsockopt y s st SOL_SOCKET SO_LINGER [0, 0] w) else (st, w))
       in case sys_close y s w1 of ((result, ec), w2) \<Rightarrow>
         if result \<noteq> 0 \<and> ec = EAGAIN
         then (case sys_close y s (snd (sys_ioctl y s FIONBIO 0 w2)) of ((result1, ec1), w3) \<Rightarrow>
           ((result1, if result1 = 0 then 0 else ec1), st1 AND NOT non_blocking, w3))
         else ((result, if result = 0 then 0 else ec), st1, w2)
     else ((0, 0), st, w))"

subsection \<open>The state bits\<close>

lemma state_bits:
  "(st AND user_set_non_blocking \<noteq> 0) = bit st 0" "(st AND internal_non_blocking \<noteq> 0) = bit st 1"
  "(st AND non_blocking \<noteq> 0) = (bit st 0 \<or> bit st 1)" "(st AND enable_connection_aborted \<noteq> 0) = bit st 2"
  "(st AND user_set_linger \<noteq> 0) = bit st 3"
proof -
  have b: "(st AND m \<noteq> 0) = (\<exists>n < 8. bit st n \<and> bit m n)" for m :: state_type
    by (auto simp: bit_eq_iff bit_and_iff dest: bit_imp_le_length)
  have "(\<exists>n < 8. P n) = (P 0 \<or> P 1 \<or> P 2 \<or> P 3 \<or> P 4 \<or> P 5 \<or> P 6 \<or> P (7::nat))" for P
    by (auto simp: less_Suc_eq eval_nat_numeral)
  note e = b this
  show "(st AND user_set_non_blocking \<noteq> 0) = bit st 0" unfolding e by (simp add: user_set_non_blocking_def bit_1_iff)
  show "(st AND internal_non_blocking \<noteq> 0) = bit st 1" unfolding e by (simp add: internal_non_blocking_def)
  show "(st AND non_blocking \<noteq> 0) = (bit st 0 \<or> bit st 1)"
    unfolding e by (simp add: non_blocking_def user_set_non_blocking_def internal_non_blocking_def)
  show "(st AND enable_connection_aborted \<noteq> 0) = bit st 2" unfolding e by (simp add: enable_connection_aborted_def)
  show "(st AND user_set_linger \<noteq> 0) = bit st 3" unfolding e by (simp add: user_set_linger_def)
qed

lemma state_masks:
  "bit user_set_non_blocking n = (n = 0)" "bit internal_non_blocking n = (n = 1)" "bit non_blocking n = (n = 0 \<or> n = 1)"
  "bit enable_connection_aborted n = (n = 2)" "bit user_set_linger n = (n = 3)"
proof -
  show u: "bit user_set_non_blocking n = (n = 0)" by (simp add: user_set_non_blocking_def bit_1_iff)
  have e: "bit ((2::state_type) ^ k) n = (n = k)" if "k < 8" for k using that by (auto simp: bit_exp_iff)
  show i: "bit internal_non_blocking n = (n = 1)" using e [of 1] by (simp add: internal_non_blocking_def)
  show "bit non_blocking n = (n = 0 \<or> n = 1)" by (simp add: non_blocking_def bit_or_iff u i)
  show "bit enable_connection_aborted n = (n = 2)" using e [of 2] by (simp add: enable_connection_aborted_def)
  show "bit user_set_linger n = (n = 3)" using e [of 3] by (simp add: user_set_linger_def)
qed

lemmas state_bit_simps = state_bits state_masks bit_or_iff bit_and_iff bit_not_iff

subsection \<open>What is assumed of the kernel\<close>

text \<open>\<open>nb s\<close> is the flag \<open>O_NONBLOCK\<close> of the descriptor \<open>s\<close>: \<open>FIONBIO\<close> sets it, on success, and nothing else does.\<close>

definition fd_modes :: "('s, 'a) sys \<Rightarrow> (int \<Rightarrow> 's \<Rightarrow> bool) \<Rightarrow> bool" where
  "fd_modes y nb \<longleftrightarrow>
     (\<forall>s cmd arg w t result ec w1. sys_ioctl y s cmd arg w = ((result, ec), w1) \<longrightarrow>
        nb t w1 = (if t = s \<and> cmd = FIONBIO \<and> result \<ge> 0 then arg \<noteq> 0 else nb t w)) \<and>
     (\<forall>s level optname optval w t. nb t (snd (sys_setsockopt y s level optname optval w)) = nb t w)"

lemma fd_modes_ioctl:
  assumes "fd_modes y nb" "sys_ioctl y s cmd arg w = ((result, ec), w1)"
  shows "nb t w1 = (if t = s \<and> cmd = FIONBIO \<and> result \<ge> 0 then arg \<noteq> 0 else nb t w)"
  using assms unfolding fd_modes_def by blast

lemma fd_modes_setsockopt: "fd_modes y nb \<Longrightarrow> sys_setsockopt y s level optname optval w = (r, w1) \<Longrightarrow> nb t w1 = nb t w"
  unfolding fd_modes_def by (metis snd_conv)

subsection \<open>Requests on one socket\<close>

datatype control = User_non_blocking bool | Internal_non_blocking bool | Io_control int int | Set_option int int "int list"

text \<open>A request with whether it succeeded.\<close>

fun control_step :: "('s, 'a) sys \<Rightarrow> int \<Rightarrow> control \<Rightarrow> state_type \<Rightarrow> 's \<Rightarrow> bool \<times> state_type \<times> 's" where
  "control_step y s (User_non_blocking b) st w = (case set_user_non_blocking y s st b w of ((r, ec), st1, w1) \<Rightarrow> (r, st1, w1))"
| "control_step y s (Internal_non_blocking b) st w = (case set_internal_non_blocking y s st b w of ((r, ec), st1, w1) \<Rightarrow> (r, st1, w1))"
| "control_step y s (Io_control cmd arg) st w = (case so_ioctl y s st cmd arg w of ((r, ec), st1, w1) \<Rightarrow> (0 \<le> r, st1, w1))"
| "control_step y s (Set_option level optname optval) st w =
     (case so_setsockopt y s st level optname optval w of ((r, ec), st1, w1) \<Rightarrow> (r = 0, st1, w1))"

fun control_steps :: "('s, 'a) sys \<Rightarrow> int \<Rightarrow> control list \<Rightarrow> state_type \<Rightarrow> 's \<Rightarrow> bool list \<times> state_type \<times> 's" where
  "control_steps y s [] st w = ([], st, w)"
| "control_steps y s (c # cs) st w = (case control_step y s c st w of (r, st1, w1) \<Rightarrow>
     case control_steps y s cs st1 w1 of (rs, st2, w2) \<Rightarrow> (r # rs, st2, w2))"

text \<open>The mode the user has asked for last with success.\<close>

fun user_mode :: "bool \<Rightarrow> (control \<times> bool) list \<Rightarrow> bool" where
  "user_mode m [] = m"
| "user_mode m ((User_non_blocking b, True) # cs) = user_mode b cs"
| "user_mode m ((Io_control cmd arg, True) # cs) = user_mode (if cmd = FIONBIO then arg \<noteq> 0 else m) cs"
| "user_mode m (c # cs) = user_mode m cs"

definition in_mode :: "(int \<Rightarrow> 's \<Rightarrow> bool) \<Rightarrow> int \<Rightarrow> state_type \<Rightarrow> 's \<Rightarrow> bool" where
  "in_mode nb s st w \<longleftrightarrow> (nb s w \<longleftrightarrow> st AND non_blocking \<noteq> 0)"

lemma control_step_mode:
  assumes "fd_modes y nb" "in_mode nb s st w" "control_step y s c st w = (r, st1, w1)"
  shows "in_mode nb s st1 w1 \<and> (st1 AND user_set_non_blocking \<noteq> 0) = user_mode (st AND user_set_non_blocking \<noteq> 0) [(c, r)] \<and>
    (\<forall>n. 4 \<le> n \<and> n < 8 \<longrightarrow> bit st1 n = bit st n) \<and> (t \<noteq> s \<longrightarrow> nb t w1 = nb t w)"
proof (cases c)
  case (User_non_blocking b)
  then show ?thesis using assms fd_modes_ioctl [OF assms(1), of s FIONBIO "if b then 1 else 0" w]
    by (auto simp: in_mode_def set_user_non_blocking_def state_bit_simps split: if_splits prod.splits)
next
  case (Internal_non_blocking b)
  then show ?thesis using assms fd_modes_ioctl [OF assms(1), of s FIONBIO "if b then 1 else 0" w]
    by (auto simp: in_mode_def set_internal_non_blocking_def state_bit_simps split: if_splits prod.splits)
next
  case (Io_control cmd arg)
  then show ?thesis using assms fd_modes_ioctl [OF assms(1), of s cmd arg w]
    by (auto simp: in_mode_def so_ioctl_def socket_error_retval_def state_bit_simps split: if_splits prod.splits)
next
  case (Set_option level optname optval)
  then show ?thesis using assms fd_modes_setsockopt [OF assms(1), of s level optname optval w]
    by (auto simp: in_mode_def so_setsockopt_def socket_error_retval_def Let_def state_bit_simps split: if_splits prod.splits)
qed

lemma user_mode_Cons: "user_mode m (c # cs) = user_mode (user_mode m [c]) cs"
  by (cases "(m, c # cs)" rule: user_mode.cases) auto

lemma control_steps_mode:
  "fd_modes y nb \<Longrightarrow> in_mode nb s st w \<Longrightarrow> control_steps y s cs st w = (rs, st1, w1) \<Longrightarrow>
    in_mode nb s st1 w1 \<and> (st1 AND user_set_non_blocking \<noteq> 0) = user_mode (st AND user_set_non_blocking \<noteq> 0) (zip cs rs) \<and>
    length rs = length cs \<and> (\<forall>n. 4 \<le> n \<and> n < 8 \<longrightarrow> bit st1 n = bit st n) \<and> (t \<noteq> s \<longrightarrow> nb t w1 = nb t w)"
proof (induction cs arbitrary: st w rs)
  case (Cons c cs)
  obtain r st2 w2 where c: "control_step y s c st w = (r, st2, w2)" by (metis prod_cases3)
  obtain rs' where cs: "control_steps y s cs st2 w2 = (rs', st1, w1)" "rs = r # rs'"
    using Cons.prems(3) c by (auto split: prod.splits)
  note step = control_step_mode [OF Cons.prems(1,2) c, of t]
  have "user_mode m (zip (c # cs) rs) = user_mode (user_mode m [(c, r)]) (zip cs rs')" for m
    using user_mode_Cons [of m "(c, r)" "zip cs rs'"] by (simp add: cs(2))
  then show ?case using step Cons.IH [OF Cons.prems(1) _ cs(1)] cs(2) by (simp del: user_mode.simps)
qed simp

subsection \<open>A small kernel\<close>

text \<open>A kernel on which the assumptions hold. A script says what the next calls of \<open>accept\<close> find, with the error of the
  call of \<open>poll\<close> that follows; a connection is the error 0. Closing a descriptor may answer "try again" in
  non-blocking mode, and \<open>epoll\<close> may have room for a limited number of descriptors.\<close>

lemma foldr_max: "a \<le> foldr max xs (a :: int) \<and> (\<forall>x \<in> set xs. x \<le> foldr max xs a)"
  by (induction xs) auto

record small_state =
  sk_open :: "int list"
  sk_nb :: "int list"
  sk_script :: "(errno \<times> errno) list"
  sk_poll :: errno
  sk_sticky :: bool
  sk_epoll :: nat

definition sk_ok :: "int \<Rightarrow> small_state \<Rightarrow> (int \<times> errno) \<times> small_state" where
  "sk_ok s w = (if s \<in> set (sk_open w) then ((0, 0), w) else ((- 1, EBADF), w))"

definition sk_fresh :: "small_state \<Rightarrow> int" where
  "sk_fresh w = 1 + foldr max (sk_open w) 2"

definition sk_new :: "small_state \<Rightarrow> small_state" where
  "sk_new w = w\<lparr>sk_open := sk_fresh w # sk_open w, sk_nb := removeAll (sk_fresh w) (sk_nb w)\<rparr>"

definition small_kernel :: "(small_state, nat) sys" where
  "small_kernel = \<lparr>sys_socket = (\<lambda>af type protocol w. ((sk_fresh w, 0), sk_new w)),
     sys_bind = (\<lambda>s addr. sk_ok s), sys_listen = (\<lambda>s backlog. sk_ok s),
     sys_accept = (\<lambda>s w. case sk_script w of [] \<Rightarrow> ((- 1, 0, EAGAIN), w)
       | (e, p) # rest \<Rightarrow> let w1 = w\<lparr>sk_script := rest, sk_poll := p\<rparr> in
           if e = 0 then ((sk_fresh w, 0, 0), sk_new w1) else ((- 1, 0, e), w1)),
     sys_connect = (\<lambda>s addr. sk_ok s), sys_shutdown = (\<lambda>s what. sk_ok s),
     sys_close = (\<lambda>s w. if s \<notin> set (sk_open w) then ((- 1, EBADF), w)
       else if sk_sticky w \<and> s \<in> set (sk_nb w) then ((- 1, EAGAIN), w)
       else ((0, 0), w\<lparr>sk_open := removeAll s (sk_open w), sk_nb := removeAll s (sk_nb w)\<rparr>)),
     sys_ioctl = (\<lambda>s cmd arg w. if s \<notin> set (sk_open w) then ((- 1, EBADF), w)
       else if cmd = FIONBIO then ((0, 0), w\<lparr>sk_nb := (if arg \<noteq> 0 then s # sk_nb w else removeAll s (sk_nb w))\<rparr>) else ((- 1, EINVAL), w)),
     sys_setsockopt = (\<lambda>s level optname optval. sk_ok s),
     sys_getsockopt = (\<lambda>s level optname optval w. ((0, optval, 0), w)),
     sys_poll_in = (\<lambda>s timeout w. ((if sk_poll w = 0 then 1 else - 1, sk_poll w), w)),
     sys_poll_out = (\<lambda>s timeout w. ((1, 0), w)),
     sys_getpeername = (\<lambda>s w. ((0, 0, 0), w)), sys_getsockname = (\<lambda>s w. ((0, 0, 0), w)),
     sys_epoll_ctl = (\<lambda>c s events d w. if sk_epoll w = 0 then ((- 1, ENOBUFS), w) else ((0, 0), w\<lparr>sk_epoll := sk_epoll w - 1\<rparr>))\<rparr>"

definition small_start :: small_state where
  "small_start = \<lparr>sk_open = [], sk_nb = [], sk_script = [(ECONNABORTED, 0), (EAGAIN, 0), (0, 0)], sk_poll = 0,
     sk_sticky = True, sk_epoll = 2\<rparr>"

lemma small_modes: "fd_modes small_kernel (\<lambda>s w. s \<in> set (sk_nb w))"
  by (auto simp: fd_modes_def small_kernel_def sk_ok_def split: if_splits)

subsection \<open>Properties\<close>

text \<open>C25: The blocking mode a socket object believes in is the mode of its descriptor. Whatever the user and the
  library ask for, and whichever of the requests fail, the flag \<open>O_NONBLOCK\<close> of the descriptor is set exactly if one of the two
  bits of the state is; the user's bit is the mode the user asked for last with success, so the library never
  takes a socket out of the non-blocking mode the user has set; the bits for the kind of socket and the other
  descriptors are left alone.\<close>

theorem blocking_mode_agrees:
  assumes "fd_modes y nb" "in_mode nb s st w" "control_steps y s cs st w = (rs, st1, w1)"
  shows "in_mode nb s st1 w1 \<and>
    (st1 AND user_set_non_blocking \<noteq> 0) = user_mode (st AND user_set_non_blocking \<noteq> 0) (zip cs rs) \<and>
    length rs = length cs \<and> drop_bit 4 st1 = drop_bit 4 st \<and> (\<forall>t. t \<noteq> s \<longrightarrow> nb t w1 = nb t w)"
proof -
  note c = control_steps_mode [OF assms]
  have "bit (drop_bit 4 st1) n = bit (drop_bit 4 st) n" for n
  proof (cases "n + 4 < 8")
    case True
    then show ?thesis using c by (simp add: bit_drop_bit_eq add.commute)
  next
    case False
    then show ?thesis by (auto simp: bit_drop_bit_eq dest: bit_imp_le_length)
  qed
  then show ?thesis using c by (auto intro: bit_eqI)
qed

theorem blocking_mode_agrees_witness:
  "\<exists>st w. control_steps small_kernel 3 [User_non_blocking True, Internal_non_blocking False, Internal_non_blocking True, Io_control FIONBIO 0]
      stream_oriented (small_start\<lparr>sk_open := [3]\<rparr>) = ([True, False, True, True], st, w) \<and> in_mode (\<lambda>s w. s \<in> set (sk_nb w)) 3 st w \<and>
    st AND user_set_non_blocking = 0"
proof -
  let ?cs = "[User_non_blocking True, Internal_non_blocking False, Internal_non_blocking True, Io_control FIONBIO 0]"
  let ?w = "small_start\<lparr>sk_open := [3]\<rparr>"
  have m: "in_mode (\<lambda>s w. s \<in> set (sk_nb w)) 3 stream_oriented ?w"
    by (simp add: in_mode_def stream_oriented_def non_blocking_def user_set_non_blocking_def internal_non_blocking_def small_start_def)
  obtain rs st w where c: "control_steps small_kernel 3 ?cs stream_oriented ?w = (rs, st, w)" by (metis prod_cases3)
  then have "rs = [True, False, True, True]"
    by (auto simp: set_user_non_blocking_def set_internal_non_blocking_def so_ioctl_def small_kernel_def small_start_def invalid_socket_def
        stream_oriented_def user_set_non_blocking_def split: prod.splits if_splits)
  then show ?thesis using blocking_mode_agrees [OF small_modes m c] c by simp
qed

end
