(* ===== verification/Epoll_Reactor.thy ===== *)
theory Epoll_Reactor
  imports Object_Pool Socket_Control "HOL-Library.Multiset"
begin

text \<open>
  The descriptors of the epoll reactor of the vendored asio (\<^verbatim>\<open>asio/detail/epoll_reactor.hpp\<close>,
  \<^verbatim>\<open>asio/detail/impl/epoll_reactor.ipp\<close>): registration, the queues of waiting operations, cancelling, removal,
  and the dispatch of events.

  The state has the pool of descriptor states with their contents, the links of all operations, the error
  code of each, the operations posted to the scheduler and those invoked by a descriptor itself, and
  the count of outstanding work. What an operation does when it is tried is the argument \<open>perform\<close>: it
  returns whether the operation is complete, with its error code. An operation posted for a thread of
  the scheduler is counted as posted, whichever of the scheduler's queues holds it. Locks have no
  effect here.
\<close>

subsection \<open>State\<close>

definition ECANCELED :: errno where "ECANCELED = 125"

definition EPOLLIN :: "32 word" where "EPOLLIN = 1"
definition EPOLLPRI :: "32 word" where "EPOLLPRI = 2"
definition EPOLLOUT :: "32 word" where "EPOLLOUT = 4"
definition EPOLLERR :: "32 word" where "EPOLLERR = 8"
definition EPOLLHUP :: "32 word" where "EPOLLHUP = 16"
definition EPOLLET :: "32 word" where "EPOLLET = 2147483648"

definition EPOLL_CTL_ADD :: int where "EPOLL_CTL_ADD = 1"
definition EPOLL_CTL_DEL :: int where "EPOLL_CTL_DEL = 2"
definition EPOLL_CTL_MOD :: int where "EPOLL_CTL_MOD = 3"

definition read_op :: nat where "read_op = 0"
definition write_op :: nat where "write_op = 1"
definition connect_op :: nat where "connect_op = 1"
definition except_op :: nat where "except_op = 2"

record descriptor_state =
  ds_descriptor :: int
  ds_events :: "32 word"
  ds_shutdown :: bool
  ds_queue :: "nat \<Rightarrow> op_queue"

definition ds_new :: descriptor_state where
  "ds_new = \<lparr>ds_descriptor = 0, ds_events = 0, ds_shutdown = False, ds_queue = (\<lambda>_. oq_make)\<rparr>"

record reactor =
  rx_pool :: object_pool
  rx_data :: "nat \<Rightarrow> descriptor_state"
  rx_links :: links
  rx_ec :: "nat \<Rightarrow> errno"
  rx_posted :: op_queue
  rx_invoked :: "nat list"
  rx_work :: int

definition rx_make :: reactor where
  "rx_make = \<lparr>rx_pool = pool_make, rx_data = (\<lambda>_. ds_new), rx_links = (\<lambda>_. 0), rx_ec = (\<lambda>_. 0), rx_posted = oq_make,
     rx_invoked = [], rx_work = 0\<rparr>"

definition upd_desc :: "nat \<Rightarrow> (descriptor_state \<Rightarrow> descriptor_state) \<Rightarrow> reactor \<Rightarrow> reactor" where
  "upd_desc d f rx = rx\<lparr>rx_data := (rx_data rx)(d := f (rx_data rx d))\<rparr>"

definition set_queue :: "nat \<Rightarrow> nat \<Rightarrow> op_queue \<Rightarrow> reactor \<Rightarrow> reactor" where
  "set_queue d i q = upd_desc d (\<lambda>x. x\<lparr>ds_queue := (ds_queue x)(i := q)\<rparr>)"

subsection \<open>The scheduler\<close>

definition rx_post_immediate :: "nat \<Rightarrow> reactor \<Rightarrow> reactor" where
  "rx_post_immediate h rx = (case oq_push (rx_links rx) (rx_posted rx) h of (l, q) \<Rightarrow>
     rx\<lparr>rx_work := rx_work rx + 1, rx_links := l, rx_posted := q\<rparr>)"

definition rx_post_deferred :: "op_queue \<Rightarrow> reactor \<Rightarrow> reactor" where
  "rx_post_deferred ops rx = (if \<not> oq_empty ops
     then case oq_push_all (rx_links rx) (rx_posted rx) ops of (l, q, r) \<Rightarrow> rx\<lparr>rx_links := l, rx_posted := q\<rparr>
     else rx)"

subsection \<open>Registration\<close>

definition allocate_descriptor_state :: "nat \<Rightarrow> reactor \<Rightarrow> nat \<times> reactor" where
  "allocate_descriptor_state new rx = (case pool_alloc new (rx_pool rx) of (d, created, p) \<Rightarrow>
     (d, rx\<lparr>rx_pool := p, rx_data := (if created then (rx_data rx)(d := ds_new) else rx_data rx)\<rparr>))"

definition register_descriptor :: "('s, 'a) sys \<Rightarrow> nat \<Rightarrow> int \<Rightarrow> reactor \<Rightarrow> 's \<Rightarrow> errno \<times> nat \<times> reactor \<times> 's" where
  "register_descriptor y new descriptor rx w = (case allocate_descriptor_state new rx of (d, rx1) \<Rightarrow>
     let ev = EPOLLIN OR EPOLLERR OR EPOLLHUP OR EPOLLPRI OR EPOLLET;
       rx2 = upd_desc d (\<lambda>x. x\<lparr>ds_descriptor := descriptor, ds_shutdown := False, ds_events := ev\<rparr>) rx1
     in case sys_epoll_ctl y EPOLL_CTL_ADD descriptor ev d w of ((result, e), w1) \<Rightarrow>
       (if result \<noteq> 0 then e else 0, d, rx2, w1))"

subsection \<open>Starting an operation\<close>

definition rx_start_op :: "('s, 'a) sys \<Rightarrow> (nat \<Rightarrow> 's \<Rightarrow> (bool \<times> errno) \<times> 's) \<Rightarrow> nat \<Rightarrow> int \<Rightarrow> nat \<Rightarrow> nat \<Rightarrow> bool \<Rightarrow> reactor \<Rightarrow> 's
    \<Rightarrow> reactor \<times> 's" where
  "rx_start_op y perform op_type descriptor d h allow_speculative rx w =
     (if d = 0 then (rx_post_immediate h (rx\<lparr>rx_ec := (rx_ec rx)(h := EBADF)\<rparr>), w)
      else if ds_shutdown (rx_data rx d) then (rx_post_immediate h rx, w)
      else let enqueue = (\<lambda>rx w. case oq_push (rx_links rx) (ds_queue (rx_data rx d) op_type) h of (l, q) \<Rightarrow>
          ((set_queue d op_type q rx)\<lparr>rx_links := l, rx_work := rx_work rx + 1\<rparr>, w)) in
        if oq_empty (ds_queue (rx_data rx d) op_type)
        then if allow_speculative \<and> (op_type \<noteq> read_op \<or> oq_empty (ds_queue (rx_data rx d) except_op))
          then case perform h w of ((ok, e), w1) \<Rightarrow>
            let rx1 = rx\<lparr>rx_ec := (rx_ec rx)(h := e)\<rparr> in
            if ok then (rx_post_immediate h rx1, w1)
            else if op_type = write_op \<and> ds_events (rx_data rx d) AND EPOLLOUT = 0
            then let ev = ds_events (rx_data rx d) OR EPOLLOUT in
              case sys_epoll_ctl y EPOLL_CTL_MOD descriptor ev d w1 of ((result, e1), w2) \<Rightarrow>
                if result = 0 then enqueue (upd_desc d (\<lambda>x. x\<lparr>ds_events := ds_events x OR ev\<rparr>) rx1) w2
                else (rx_post_immediate h (rx1\<lparr>rx_ec := (rx_ec rx1)(h := e1)\<rparr>), w2)
            else enqueue rx1 w1
          else let rx1 = (if op_type = write_op then upd_desc d (\<lambda>x. x\<lparr>ds_events := ds_events x OR EPOLLOUT\<rparr>) rx else rx) in
            enqueue rx1 (snd (sys_epoll_ctl y EPOLL_CTL_MOD descriptor (ds_events (rx_data rx1 d)) d w))
        else enqueue rx w)"

subsection \<open>Cancelling and removal\<close>

text \<open>The loop that aborts the operations of one queue.\<close>

partial_function (option) abort_queue :: "links \<Rightarrow> (nat \<Rightarrow> errno) \<Rightarrow> op_queue \<Rightarrow> op_queue \<Rightarrow> (links \<times> (nat \<Rightarrow> errno) \<times> op_queue \<times> op_queue) option" where
  "abort_queue l ec q ops = (if oq_front q = 0 then Some (l, ec, q, ops)
     else case oq_pop l q of (l1, q1) \<Rightarrow> case oq_push l1 ops (oq_front q) of (l2, ops1) \<Rightarrow>
       abort_queue l2 (ec(oq_front q := ECANCELED)) q1 ops1)"

fun abort_queues :: "nat list \<Rightarrow> nat \<Rightarrow> op_queue \<Rightarrow> reactor \<Rightarrow> (op_queue \<times> reactor) option" where
  "abort_queues [] d ops rx = Some (ops, rx)"
| "abort_queues (i # is) d ops rx = Option.bind (abort_queue (rx_links rx) (rx_ec rx) (ds_queue (rx_data rx d) i) ops) (\<lambda>(l, ec, q, ops1).
     abort_queues is d ops1 ((set_queue d i q rx)\<lparr>rx_links := l, rx_ec := ec\<rparr>))"

definition cancel_ops :: "nat \<Rightarrow> reactor \<Rightarrow> reactor option" where
  "cancel_ops d rx = (if d = 0 then Some rx
     else Option.bind (abort_queues [0, 1, 2] d oq_make rx) (\<lambda>(ops, rx1). Some (rx_post_deferred ops rx1)))"

text \<open>The second result is the pointer to the descriptor state afterwards.\<close>

definition deregister_descriptor :: "('s, 'a) sys \<Rightarrow> int \<Rightarrow> nat \<Rightarrow> bool \<Rightarrow> reactor \<Rightarrow> 's \<Rightarrow> (nat \<times> reactor \<times> 's) option" where
  "deregister_descriptor y descriptor d closing rx w = (if d = 0 \<or> ds_shutdown (rx_data rx d) then Some (d, rx, w)
     else let w1 = (if closing then w else snd (sys_epoll_ctl y EPOLL_CTL_DEL descriptor 0 0 w)) in
       Option.bind (abort_queues [0, 1, 2] d oq_make rx) (\<lambda>(ops, rx1).
         let rx2 = upd_desc d (\<lambda>x. x\<lparr>ds_descriptor := - 1, ds_shutdown := True\<rparr>) rx1;
           rx3 = rx2\<lparr>rx_pool := pool_free d (rx_pool rx2)\<rparr>
         in Some (0, rx_post_deferred ops rx3, w1)))"

subsection \<open>Events\<close>

partial_function (option) perform_queue :: "(nat \<Rightarrow> 's \<Rightarrow> (bool \<times> errno) \<times> 's) \<Rightarrow> links \<Rightarrow> (nat \<Rightarrow> errno) \<Rightarrow> op_queue \<Rightarrow> op_queue \<Rightarrow> 's
    \<Rightarrow> (links \<times> (nat \<Rightarrow> errno) \<times> op_queue \<times> op_queue \<times> 's) option" where
  "perform_queue perform l ec q ops w = (if oq_front q = 0 then Some (l, ec, q, ops, w)
     else case perform (oq_front q) w of ((ok, e), w1) \<Rightarrow>
       if \<not> ok then Some (l, ec(oq_front q := e), q, ops, w1)
       else case oq_pop l q of (l1, q1) \<Rightarrow> case oq_push l1 ops (oq_front q) of (l2, ops1) \<Rightarrow>
         perform_queue perform l2 (ec(oq_front q := e)) q1 ops1 w1)"

definition op_flag :: "nat \<Rightarrow> 32 word" where
  "op_flag j = [EPOLLIN, EPOLLOUT, EPOLLPRI] ! j"

fun perform_queues :: "(nat \<Rightarrow> 's \<Rightarrow> (bool \<times> errno) \<times> 's) \<Rightarrow> 32 word \<Rightarrow> nat list \<Rightarrow> nat \<Rightarrow> op_queue \<Rightarrow> reactor \<Rightarrow> 's
    \<Rightarrow> (op_queue \<times> reactor \<times> 's) option" where
  "perform_queues perform events [] d ops rx w = Some (ops, rx, w)"
| "perform_queues perform events (j # js) d ops rx w =
     (if events AND (op_flag j OR EPOLLERR OR EPOLLHUP) \<noteq> 0
      then Option.bind (perform_queue perform (rx_links rx) (rx_ec rx) (ds_queue (rx_data rx d) j) ops w) (\<lambda>(l, ec, q, ops1, w1).
        perform_queues perform events js d ops1 ((set_queue d j q rx)\<lparr>rx_links := l, rx_ec := ec\<rparr>) w1)
      else perform_queues perform events js d ops rx w)"

text \<open>\<open>do_complete\<close> with \<open>perform_io\<close> and its clean-up: the first operation is invoked, the others are posted;
  without any, the count of work is corrected.\<close>

definition descriptor_event :: "(nat \<Rightarrow> 's \<Rightarrow> (bool \<times> errno) \<times> 's) \<Rightarrow> 32 word \<Rightarrow> nat \<Rightarrow> reactor \<Rightarrow> 's \<Rightarrow> (reactor \<times> 's) option" where
  "descriptor_event perform events d rx w = Option.bind (perform_queues perform events [2, 1, 0] d oq_make rx w) (\<lambda>(ops, rx1, w1).
     let first = oq_front ops in case oq_pop (rx_links rx1) ops of (l, ops1) \<Rightarrow>
       let rx2 = rx1\<lparr>rx_links := l\<rparr> in
       if first \<noteq> 0 then Some ((rx_post_deferred ops1 rx2)\<lparr>rx_invoked := rx_invoked rx2 @ [first]\<rparr>, w1)
       else Some (rx2\<lparr>rx_work := rx_work rx2 + 1\<rparr>, w1))"

subsection \<open>Loops over one queue\<close>

lemma move_front:
  assumes "queue_of l q (x # xs)" "queue_of l p ys" "set (x # xs) \<inter> set ys = {}" "oq_pop l q = (l1, q1)" "oq_push l1 p x = (l2, p1)"
  shows "queue_of l2 q1 xs" "queue_of l2 p1 (ys @ [x])" "z \<notin> set (x # xs) \<union> set ys \<Longrightarrow> l2 z = l z" "oq_front q = x" "x \<noteq> 0"
proof -
  note f = ops.front_first [OF assms(1)]
  show "oq_front q = x" "x \<noteq> 0" using f by simp_all
  have 1: "queue_of l1 q1 xs" "l1 = l(x := 0)" by (rule oq_pop_Cons [OF assms(1,4)])+
  have d: "x \<notin> set xs" "x \<notin> set ys" using assms(1,3) by (auto simp: queue_of_def)
  have 2: "queue_of l1 p ys" unfolding 1(2) by (rule queue_of_other [OF assms(2) d(2)])
  show "queue_of l2 p1 (ys @ [x])" using oq_push_snoc [OF 2 d(2) _ assms(5)] f by simp
  show "queue_of l2 q1 xs" using oq_push_frame [OF 2 assms(5) 1(1) d(1)] assms(3) by auto
  show "z \<notin> set (x # xs) \<union> set ys \<Longrightarrow> l2 z = l z" using oq_push_links [OF 2 assms(5), of z] 1(2) by simp
qed

lemma abort_queue_all:
  "queue_of l q xs \<Longrightarrow> queue_of l p ys \<Longrightarrow> set xs \<inter> set ys = {} \<Longrightarrow>
    \<exists>l' q' p'. abort_queue l ec q p = Some (l', \<lambda>z. if z \<in> set xs then ECANCELED else ec z, q', p') \<and>
      queue_of l' q' [] \<and> queue_of l' p' (ys @ xs) \<and> (\<forall>z. z \<notin> set xs \<union> set ys \<longrightarrow> l' z = l z)"
proof (induction xs arbitrary: l ec q p ys)
  case Nil
  then show ?case using ops.front_null by (subst abort_queue.simps) simp
next
  case (Cons x xs)
  obtain l1 q1 where a: "oq_pop l q = (l1, q1)" by fastforce
  obtain l2 p1 where b: "oq_push l1 p x = (l2, p1)" by fastforce
  note m = move_front [OF Cons.prems a b]
  have d: "set xs \<inter> set (ys @ [x]) = {}" using Cons.prems by (auto simp: queue_of_def)
  obtain l' q' p' where ih: "abort_queue l2 (ec(x := ECANCELED)) q1 p1 = Some (l', \<lambda>z. if z \<in> set xs then ECANCELED else (ec(x := ECANCELED)) z, q', p')"
    "queue_of l' q' []" "queue_of l' p' ((ys @ [x]) @ xs)" "\<forall>z. z \<notin> set xs \<union> set (ys @ [x]) \<longrightarrow> l' z = l2 z"
    using Cons.IH [OF m(1,2) d, of "ec(x := ECANCELED)"] by blast
  have e: "(\<lambda>z. if z \<in> set xs then ECANCELED else (ec(x := ECANCELED)) z) = (\<lambda>z. if z \<in> set (x # xs) then ECANCELED else ec z)" by auto
  have "abort_queue l ec q p = Some (l', \<lambda>z. if z \<in> set (x # xs) then ECANCELED else ec z, q', p')"
    using ih(1) m(4,5) a b unfolding e by (subst abort_queue.simps) simp
  then show ?case using ih m(3) by auto
qed

lemma perform_queue_prefix:
  "queue_of l q xs \<Longrightarrow> queue_of l p ys \<Longrightarrow> set xs \<inter> set ys = {} \<Longrightarrow>
    \<exists>us vs l' ec' q' p' w'. xs = us @ vs \<and> perform_queue perform l ec q p w = Some (l', ec', q', p', w') \<and>
      queue_of l' q' vs \<and> queue_of l' p' (ys @ us) \<and> (\<forall>z. z \<notin> set xs \<union> set ys \<longrightarrow> l' z = l z) \<and> (\<forall>z. z \<notin> set xs \<longrightarrow> ec' z = ec z)"
proof (induction xs arbitrary: l ec q p ys w)
  case Nil
  have "perform_queue perform l ec q p w = Some (l, ec, q, p, w)"
    using ops.front_null [OF Nil.prems(1)] by (subst perform_queue.simps) simp
  then show ?case using Nil.prems by auto
next
  case (Cons x xs)
  obtain ok e w1 where r: "perform x w = ((ok, e), w1)" by (metis prod.collapse)
  obtain l1 q1 where a: "oq_pop l q = (l1, q1)" by fastforce
  obtain l2 p1 where b: "oq_push l1 p x = (l2, p1)" by fastforce
  note m = move_front [OF Cons.prems a b]
  show ?case
  proof (cases ok)
    case False
    then have "perform_queue perform l ec q p w = Some (l, ec(x := e), q, p, w1)"
      using m(4,5) r by (subst perform_queue.simps) simp
    then show ?thesis using Cons.prems by (intro exI [of _ "[]"] exI [of _ "x # xs"]) auto
  next
    case True
    have d: "set xs \<inter> set (ys @ [x]) = {}" using Cons.prems by (auto simp: queue_of_def)
    obtain us vs l' ec' q' p' w' where ih: "xs = us @ vs" "perform_queue perform l2 (ec(x := e)) q1 p1 w1 = Some (l', ec', q', p', w')"
      "queue_of l' q' vs" "queue_of l' p' ((ys @ [x]) @ us)" "\<forall>z. z \<notin> set xs \<union> set (ys @ [x]) \<longrightarrow> l' z = l2 z"
      "\<forall>z. z \<notin> set xs \<longrightarrow> ec' z = (ec(x := e)) z"
      using Cons.IH [OF m(1,2) d, of "ec(x := e)" w1] by metis
    have "perform_queue perform l ec q p w = Some (l', ec', q', p', w')"
      using ih(2) m(4,5) True r a b by (subst perform_queue.simps) simp
    then show ?thesis using ih m(3) by (intro exI [of _ "x # us"] exI [of _ vs]) auto
  qed
qed

subsection \<open>All queues together\<close>

text \<open>The queue \<open>i\<close> of the state \<open>d\<close> holds \<open>A d i\<close>, the scheduler has \<open>os\<close>, and a local queue \<open>p\<close> has \<open>ns\<close>.\<close>

definition apart :: "(nat \<Rightarrow> nat \<Rightarrow> nat list) \<Rightarrow> nat list \<Rightarrow> nat list \<Rightarrow> bool" where
  "apart A os ns \<longleftrightarrow> (\<forall>d i e j. (d, i) \<noteq> (e, j) \<longrightarrow> set (A d i) \<inter> set (A e j) = {}) \<and>
     (\<forall>d i. set (A d i) \<inter> (set os \<union> set ns) = {}) \<and> set os \<inter> set ns = {}"

definition rx_queues :: "reactor \<Rightarrow> (nat \<Rightarrow> nat \<Rightarrow> nat list) \<Rightarrow> nat list \<Rightarrow> op_queue \<Rightarrow> nat list \<Rightarrow> bool" where
  "rx_queues rx A os p ns \<longleftrightarrow> (\<forall>d i. queue_of (rx_links rx) (ds_queue (rx_data rx d) i) (A d i)) \<and>
     queue_of (rx_links rx) (rx_posted rx) os \<and> queue_of (rx_links rx) p ns \<and> apart A os ns"

text \<open>Everything but the queues, the links and the error codes.\<close>

definition same_registry :: "reactor \<Rightarrow> reactor \<Rightarrow> bool" where
  "same_registry rx rx' \<longleftrightarrow> rx_pool rx' = rx_pool rx \<and> rx_invoked rx' = rx_invoked rx \<and>
     (\<forall>d. ds_shutdown (rx_data rx' d) = ds_shutdown (rx_data rx d) \<and> ds_descriptor (rx_data rx' d) = ds_descriptor (rx_data rx d))"

lemma same_registry_refl [simp]: "same_registry rx rx"
  by (simp add: same_registry_def)

lemma same_registry_trans: "same_registry a b \<Longrightarrow> same_registry b c \<Longrightarrow> same_registry a c"
  by (simp add: same_registry_def)

lemma set_queue_registry [simp]: "same_registry rx ((set_queue d i q rx)\<lparr>rx_links := l, rx_ec := ec\<rparr>)"
  by (simp add: same_registry_def set_queue_def upd_desc_def)

lemma apartD:
  assumes "apart A os ns"
  shows "(d, i) \<noteq> (e, j) \<Longrightarrow> set (A d i) \<inter> set (A e j) = {}" "set (A d i) \<inter> set os = {}" "set (A d i) \<inter> set ns = {}" "set os \<inter> set ns = {}"
  using assms unfolding apart_def by blast+

lemma apart_move:
  assumes "apart A os ns" "A d i = us @ vs" "distinct (A d i)"
  shows "apart (A(d := (A d)(i := vs))) os (ns @ us)"
proof -
  have B: "set ((A(d := (A d)(i := vs))) e j) = (if (e, j) = (d, i) then set (A d i) - set us else set (A e j))" for e j
    using assms(2,3) by auto
  have "set us \<subseteq> set (A d i)" using assms(2) by auto
  then show ?thesis unfolding apart_def B using apartD [OF assms(1)] by (auto simp: B split: if_splits) blast+
qed

lemma queues_move:
  assumes "rx_queues rx A os p ns" "A d i = us @ vs" "queue_of l q vs" "queue_of l p' (ns @ us)"
    and "\<forall>z. z \<notin> set (A d i) \<union> set ns \<longrightarrow> l z = rx_links rx z"
  shows "rx_queues ((set_queue d i q rx)\<lparr>rx_links := l, rx_ec := ec\<rparr>) (A(d := (A d)(i := vs))) os p' (ns @ us)"
proof -
  note a = apartD [OF assms(1) [unfolded rx_queues_def, THEN conjunct2, THEN conjunct2, THEN conjunct2]]
  note q = assms(1) [unfolded rx_queues_def]
  have frame: "queue_of l r zs" if "queue_of (rx_links rx) r zs" "set zs \<inter> (set (A d i) \<union> set ns) = {}" for r zs
    by (rule queue_of_cong [OF _ that(1)]) (use assms(5) that(2) in blast)
  have "distinct (A d i)" using q by (auto simp: queue_of_def)
  then have "apart (A(d := (A d)(i := vs))) os (ns @ us)" using apart_move [of A os ns d i us vs] assms(2) q by blast
  moreover have "queue_of l (rx_posted rx) os" using frame q a(2,4) by blast
  moreover have "queue_of l (ds_queue (rx_data rx e) j) (A e j)" if "(e, j) \<noteq> (d, i)" for e j
    using frame [of "ds_queue (rx_data rx e) j" "A e j"] q a(1) [OF that] a(3) by blast
  ultimately show ?thesis using assms(3,4) by (auto simp: rx_queues_def set_queue_def upd_desc_def)
qed

lemma abort_queues_all:
  "rx_queues rx A os p ns \<Longrightarrow> distinct is \<Longrightarrow>
    \<exists>p' rx'. abort_queues is d p rx = Some (p', rx') \<and> same_registry rx rx' \<and>
      rx_queues rx' (A(d := \<lambda>i. if i \<in> set is then [] else A d i)) os p' (ns @ concat (map (A d) is)) \<and>
      rx_ec rx' = (\<lambda>z. if z \<in> set (concat (map (A d) is)) then ECANCELED else rx_ec rx z)"
proof (induction "is" arbitrary: rx A p ns)
  case (Cons i "is")
  note q = Cons.prems(1) [unfolded rx_queues_def]
  have "set (A d i) \<inter> set ns = {}" using apartD(3) q by blast
  then obtain l q' p1 where a: "abort_queue (rx_links rx) (rx_ec rx) (ds_queue (rx_data rx d) i) p =
      Some (l, \<lambda>z. if z \<in> set (A d i) then ECANCELED else rx_ec rx z, q', p1)"
    "queue_of l q' []" "queue_of l p1 (ns @ A d i)" "\<forall>z. z \<notin> set (A d i) \<union> set ns \<longrightarrow> l z = rx_links rx z"
    using abort_queue_all [of "rx_links rx" "ds_queue (rx_data rx d) i" "A d i" p ns "rx_ec rx"] q by blast
  let ?ec = "\<lambda>z. if z \<in> set (A d i) then ECANCELED else rx_ec rx z"
  let ?rx = "(set_queue d i q' rx)\<lparr>rx_links := l, rx_ec := ?ec\<rparr>" and ?A = "A(d := (A d)(i := []))"
  have r: "rx_queues ?rx ?A os p1 (ns @ A d i)" by (rule queues_move [OF Cons.prems(1) _ a(2,3,4)]) simp
  have "distinct is" using Cons.prems(2) by simp
  then obtain p' rx' where ih: "abort_queues is d p1 ?rx = Some (p', rx')" "same_registry ?rx rx'"
    "rx_queues rx' (?A(d := \<lambda>j. if j \<in> set is then [] else ?A d j)) os p' ((ns @ A d i) @ concat (map (?A d) is))"
    "rx_ec rx' = (\<lambda>z. if z \<in> set (concat (map (?A d) is)) then ECANCELED else rx_ec ?rx z)"
    using Cons.IH [OF r] by blast
  have A: "?A(d := \<lambda>j. if j \<in> set is then [] else ?A d j) = A(d := \<lambda>j. if j \<in> set (i # is) then [] else A d j)" by (auto intro!: ext)
  have m: "map (?A d) is = map (A d) is" using Cons.prems(2) by auto
  have "rx_ec rx' = (\<lambda>z. if z \<in> set (concat (map (A d) (i # is))) then ECANCELED else rx_ec rx z)"
    unfolding ih(4) m by auto
  moreover have "same_registry rx rx'" by (rule same_registry_trans [OF set_queue_registry ih(2)])
  moreover have "abort_queues (i # is) d p rx = Some (p', rx')" using a(1) ih(1) by simp
  ultimately show ?case using ih(3) unfolding A m by (simp del: fun_upd_apply)
qed (auto simp: fun_upd_def)

text \<open>Trying operations takes some from the front of the queues of one descriptor.\<close>

definition fewer :: "nat \<Rightarrow> (nat \<Rightarrow> nat \<Rightarrow> nat list) \<Rightarrow> (nat \<Rightarrow> nat \<Rightarrow> nat list) \<Rightarrow> nat list \<Rightarrow> bool" where
  "fewer d A A' ms \<longleftrightarrow> (\<forall>e. e \<noteq> d \<longrightarrow> A' e = A e) \<and> (\<forall>i. set (A' d i) \<subseteq> set (A d i)) \<and>
     set ms \<union> (\<Union>i. set (A' d i)) = (\<Union>i. set (A d i))"

lemma fewer_refl: "fewer d A A []"
  by (simp add: fewer_def)

lemma fewer_trans: "fewer d A B us \<Longrightarrow> fewer d B C vs \<Longrightarrow> fewer d A C (us @ vs)"
  unfolding fewer_def by (simp add: Un_assoc) (meson subset_trans)

lemma fewer_move:
  assumes "A d i = us @ vs"
  shows "fewer d A (A(d := (A d)(i := vs))) us"
proof -
  have "x \<in> set us \<union> (\<Union>j. set (if j = i then vs else A d j)) \<longleftrightarrow> x \<in> (\<Union>j. set (A d j))" for x
  proof (cases "x \<in> set (A d i)")
    case True
    then have "x \<in> set us \<or> x \<in> set (if i = i then vs else A d i)" using assms by simp
    then show ?thesis using True by blast
  next
    case False
    then show ?thesis using assms by (auto split: if_splits) (metis False)
  qed
  then show ?thesis unfolding fewer_def using assms by (auto simp: fun_upd_def)
qed

lemma perform_queues_some:
  "rx_queues rx A os p ns \<Longrightarrow>
    \<exists>p' rx' w' A' ms. perform_queues perform events js d p rx w = Some (p', rx', w') \<and> same_registry rx rx' \<and>
      rx_queues rx' A' os p' (ns @ ms) \<and> fewer d A A' ms"
proof (induction js arbitrary: rx A p ns w)
  case Nil
  then show ?case using fewer_refl by (auto intro!: exI [of _ A] exI [of _ "[]"])
next
  case (Cons j js)
  show ?case
  proof (cases "events AND (op_flag j OR EPOLLERR OR EPOLLHUP) \<noteq> 0")
    case True
    note q = Cons.prems(1) [unfolded rx_queues_def]
    have "set (A d j) \<inter> set ns = {}" using apartD(3) q by blast
    then obtain us vs l ec q' p1 w1 where a: "A d j = us @ vs"
      "perform_queue perform (rx_links rx) (rx_ec rx) (ds_queue (rx_data rx d) j) p w = Some (l, ec, q', p1, w1)"
      "queue_of l q' vs" "queue_of l p1 (ns @ us)" "\<forall>z. z \<notin> set (A d j) \<union> set ns \<longrightarrow> l z = rx_links rx z"
      using perform_queue_prefix [of "rx_links rx" "ds_queue (rx_data rx d) j" "A d j" p ns perform "rx_ec rx" w] q by metis
    let ?rx = "(set_queue d j q' rx)\<lparr>rx_links := l, rx_ec := ec\<rparr>" and ?A = "A(d := (A d)(j := vs))"
    obtain p' rx' w' A' ms where ih: "perform_queues perform events js d p1 ?rx w1 = Some (p', rx', w')" "same_registry ?rx rx'"
      "rx_queues rx' A' os p' ((ns @ us) @ ms)" "fewer d ?A A' ms"
      using Cons.IH [OF queues_move [OF Cons.prems a(1,3,4,5), of ec]] by blast
    have "same_registry rx rx'" by (rule same_registry_trans [OF set_queue_registry ih(2)])
    moreover have "fewer d A A' (us @ ms)" by (rule fewer_trans [OF fewer_move [of A d j us vs, OF a(1)] ih(4)])
    moreover have "perform_queues perform events (j # js) d p rx w = Some (p', rx', w')" using True a(2) ih(1) by simp
    ultimately show ?thesis using ih(3) by (metis append_assoc)
  next
    case False
    then show ?thesis using Cons.IH [OF Cons.prems] by simp
  qed
qed

lemma post_deferred_queues:
  assumes "rx_queues rx A os p ns"
  shows "rx_queues (rx_post_deferred p rx) A (os @ ns) oq_make [] \<and> same_registry rx (rx_post_deferred p rx) \<and>
    rx_data (rx_post_deferred p rx) = rx_data rx \<and> rx_ec (rx_post_deferred p rx) = rx_ec rx"
proof -
  note q = assms [unfolded rx_queues_def]
  note a = apartD [OF q [THEN conjunct2, THEN conjunct2, THEN conjunct2]]
  show ?thesis
  proof (cases "oq_empty p")
    case True
    then have "ns = []" using queue_of_empty q by blast
    then show ?thesis using True q by (auto simp: rx_post_deferred_def rx_queues_def queue_of_Nil)
  next
    case False
    obtain l r p' where b: "oq_push_all (rx_links rx) (rx_posted rx) p = (l, r, p')" by (metis prod_cases3)
    have "queue_of l r (os @ ns)" using oq_push_all_append [OF _ _ a(4) b] q by blast
    moreover have "queue_of l (ds_queue (rx_data rx d) i) (A d i)" for d i
      using oq_push_all_frame [OF _ b, of os "ds_queue (rx_data rx d) i" "A d i"] q a(2) [of d i] by blast
    moreover have "apart A (os @ ns) []" using q a by (auto simp: apart_def)
    ultimately show ?thesis using False b by (simp add: rx_post_deferred_def rx_queues_def queue_of_Nil same_registry_def)
  qed
qed

lemma post_immediate_queues:
  assumes "rx_queues rx A os oq_make []" "h \<noteq> 0" "h \<notin> set os" "\<And>d i. h \<notin> set (A d i)"
  shows "rx_queues (rx_post_immediate h rx) A (os @ [h]) oq_make [] \<and> same_registry rx (rx_post_immediate h rx)"
proof -
  note q = assms(1) [unfolded rx_queues_def]
  note a = apartD [OF q [THEN conjunct2, THEN conjunct2, THEN conjunct2]]
  obtain l r where b: "oq_push (rx_links rx) (rx_posted rx) h = (l, r)" by fastforce
  have "queue_of l r (os @ [h])" using oq_push_snoc [OF _ assms(3,2) b] q by blast
  moreover have "queue_of l (ds_queue (rx_data rx d) i) (A d i)" for d i
    using oq_push_frame [OF _ b, of os "ds_queue (rx_data rx d) i" "A d i"] q a(2) [of d i] assms(4) by blast
  moreover have "apart A (os @ [h]) []" using q a assms(3,4) by (auto simp: apart_def)
  ultimately show ?thesis using b by (simp add: rx_post_immediate_def rx_queues_def queue_of_Nil same_registry_def)
qed

lemma rx_queues_upd [simp]:
  "rx_queues (rx\<lparr>rx_ec := ec\<rparr>) A os p ns = rx_queues rx A os p ns"
  "rx_queues (rx\<lparr>rx_work := n\<rparr>) A os p ns = rx_queues rx A os p ns"
  "rx_queues (rx\<lparr>rx_pool := o1\<rparr>) A os p ns = rx_queues rx A os p ns"
  "rx_queues (rx\<lparr>rx_invoked := xs\<rparr>) A os p ns = rx_queues rx A os p ns"
  "(\<And>x. ds_queue (f x) = ds_queue x) \<Longrightarrow> rx_queues (upd_desc d f rx) A os p ns = rx_queues rx A os p ns"
  by (auto simp: rx_queues_def upd_desc_def)

lemma same_registry_upd [simp]:
  "same_registry rx (rx1\<lparr>rx_ec := ec\<rparr>) = same_registry rx rx1" "same_registry rx (rx1\<lparr>rx_work := n\<rparr>) = same_registry rx rx1"
  "same_registry rx (rx1\<lparr>rx_links := l\<rparr>) = same_registry rx rx1"
  "(\<And>x. ds_shutdown (f x) = ds_shutdown x \<and> ds_descriptor (f x) = ds_descriptor x) \<Longrightarrow> same_registry rx (upd_desc d f rx1) = same_registry rx rx1"
  "same_registry rx (set_queue d i q rx1) = same_registry rx rx1"
  by (auto simp: same_registry_def upd_desc_def set_queue_def)

lemma enqueue_queues:
  assumes "rx_queues rx A os oq_make []" "h \<noteq> 0" "h \<notin> set os" "\<And>d i. h \<notin> set (A d i)"
    and "oq_push (rx_links rx) (ds_queue (rx_data rx d) t) h = (l, q)"
  shows "rx_queues ((set_queue d t q rx)\<lparr>rx_links := l, rx_work := n\<rparr>) (A(d := (A d)(t := A d t @ [h]))) os oq_make []"
proof -
  note q = assms(1) [unfolded rx_queues_def]
  note a = apartD [OF q [THEN conjunct2, THEN conjunct2, THEN conjunct2]]
  let ?A = "A(d := (A d)(t := A d t @ [h]))"
  have "queue_of l q (A d t @ [h])" using oq_push_snoc [OF _ assms(4,2,5)] q by blast
  moreover have "queue_of l (ds_queue (rx_data rx e) j) (A e j)" if "(e, j) \<noteq> (d, t)" for e j
    using oq_push_frame [OF _ assms(5), of "A d t" "ds_queue (rx_data rx e) j" "A e j"] q a(1) [OF that] assms(4) by blast
  moreover have "queue_of l (rx_posted rx) os"
    using oq_push_frame [OF _ assms(5), of "A d t" "rx_posted rx" os] q a(2) assms(3) by blast
  moreover have "apart ?A os []"
  proof -
    have B: "set (?A e j) = (if (e, j) = (d, t) then insert h (set (A d t)) else set (A e j))" for e j by auto
    show ?thesis unfolding apart_def B using a assms(3,4) by (auto simp: B split: if_splits)
  qed
  ultimately show ?thesis by (auto simp: rx_queues_def set_queue_def upd_desc_def queue_of_Nil)
qed

text \<open>A started operation is posted or waits at the end of its queue.\<close>

definition taken :: "reactor \<Rightarrow> (nat \<Rightarrow> nat \<Rightarrow> nat list) \<Rightarrow> nat list \<Rightarrow> nat \<Rightarrow> nat \<Rightarrow> nat \<Rightarrow> reactor \<Rightarrow> bool" where
  "taken rx A os d t h rx1 \<longleftrightarrow> same_registry rx rx1 \<and>
     (rx_queues rx1 A (os @ [h]) oq_make [] \<or> d \<noteq> 0 \<and> \<not> ds_shutdown (rx_data rx d) \<and> rx_queues rx1 (A(d := (A d)(t := A d t @ [h]))) os oq_make [])"

lemma taken_post:
  assumes "rx_queues rx' A os oq_make []" "same_registry rx rx'" "h \<noteq> 0" "h \<notin> set os" "\<And>d i. h \<notin> set (A d i)"
  shows "taken rx A os d t h (rx_post_immediate h rx')"
  using post_immediate_queues [OF assms(1,3-5)] same_registry_trans [OF assms(2)] by (auto simp: taken_def)

lemma taken_enqueue:
  assumes "rx_queues rx' A os oq_make []" "same_registry rx rx'" "h \<noteq> 0" "h \<notin> set os" "\<And>d i. h \<notin> set (A d i)"
    and "d \<noteq> 0" "\<not> ds_shutdown (rx_data rx d)" "oq_push (rx_links rx') (ds_queue (rx_data rx' d) t) h = (l, q)"
  shows "taken rx A os d t h ((set_queue d t q rx')\<lparr>rx_links := l, rx_work := n\<rparr>)"
  using enqueue_queues [OF assms(1,3-5,8)] assms(2,6,7) by (simp add: taken_def del: fun_upd_apply)

lemma start_op_taken:
  assumes "rx_queues rx A os oq_make []" "h \<noteq> 0" "h \<notin> set os" "\<And>d i. h \<notin> set (A d i)"
    and "rx_start_op y perform t fd d h spec rx w = (rx1, w1)"
  shows "taken rx A os d t h rx1"
  using assms(5,1-4) unfolding rx_start_op_def Let_def
  by (auto intro!: taken_post taken_enqueue split: if_splits prod.splits)

subsection \<open>Runs of the reactor\<close>

text \<open>\<open>hs\<close> are the descriptor states handed out and not yet given back, \<open>started\<close> the operations started so far. An
  event may arrive for a state that was given back.\<close>

inductive rx_run :: "('s, 'a) sys \<Rightarrow> (nat \<Rightarrow> 's \<Rightarrow> (bool \<times> errno) \<times> 's) \<Rightarrow> nat list \<Rightarrow> nat list \<Rightarrow> reactor \<Rightarrow> 's \<Rightarrow> bool"
  for y :: "('s, 'a) sys" and perform :: "nat \<Rightarrow> 's \<Rightarrow> (bool \<times> errno) \<times> 's" where
  rx_new: "rx_run y perform [] [] rx_make w"
| rx_register: "rx_run y perform hs started rx w \<Longrightarrow> new \<noteq> 0 \<Longrightarrow> new \<notin> set hs \<Longrightarrow>
    register_descriptor y new fd rx w = (e, d, rx1, w1) \<Longrightarrow> rx_run y perform (d # hs) started rx1 w1"
| rx_start: "rx_run y perform hs started rx w \<Longrightarrow> d \<in> set (0 # hs) \<Longrightarrow> t < 3 \<Longrightarrow> h \<noteq> 0 \<Longrightarrow> h \<notin> set started \<Longrightarrow>
    rx_start_op y perform t fd d h spec rx w = (rx1, w1) \<Longrightarrow> rx_run y perform hs (started @ [h]) rx1 w1"
| rx_cancel: "rx_run y perform hs started rx w \<Longrightarrow> d \<in> set (0 # hs) \<Longrightarrow> cancel_ops d rx = Some rx1 \<Longrightarrow> rx_run y perform hs started rx1 w"
| rx_deregister: "rx_run y perform hs started rx w \<Longrightarrow> d \<in> set hs \<Longrightarrow>
    deregister_descriptor y fd d closing rx w = Some (d', rx1, w1) \<Longrightarrow> rx_run y perform (remove1 d hs) started rx1 w1"
| rx_event: "rx_run y perform hs started rx w \<Longrightarrow> descriptor_event perform events d rx w = Some (rx1, w1) \<Longrightarrow> rx_run y perform hs started rx1 w1"

definition waiting_ops :: "(nat \<Rightarrow> nat \<Rightarrow> nat list) \<Rightarrow> nat set" where
  "waiting_ops A = (\<Union>d. \<Union>i. set (A d i))"

definition rx_inv :: "reactor \<Rightarrow> nat list \<Rightarrow> (nat \<Rightarrow> nat \<Rightarrow> nat list) \<Rightarrow> nat list \<Rightarrow> nat list \<Rightarrow> bool" where
  "rx_inv rx hs A os started \<longleftrightarrow> rx_queues rx A os oq_make [] \<and> (\<exists>free. pool_of (rx_pool rx) hs free) \<and>
     (\<forall>d i. d \<notin> set hs \<or> 3 \<le> i \<longrightarrow> A d i = []) \<and> (\<forall>d. d \<in> set hs \<longrightarrow> \<not> ds_shutdown (rx_data rx d)) \<and>
     distinct started \<and> distinct (rx_invoked rx) \<and> set started = set (rx_invoked rx) \<union> set os \<union> waiting_ops A \<and>
     set (rx_invoked rx) \<inter> (set os \<union> waiting_ops A) = {}"

lemma rx_inv_make: "rx_inv rx_make [] (\<lambda>_ _. []) [] []"
  using pool_of_make by (auto simp: rx_inv_def rx_make_def rx_queues_def ds_new_def queue_of_Nil apart_def waiting_ops_def)

lemma register_inv:
  assumes "rx_inv rx hs A os started" "new \<noteq> 0" "new \<notin> set hs" "register_descriptor y new fd rx w = (e, d, rx1, w1)"
  shows "rx_inv rx1 (d # hs) A os started" "d \<notin> set hs" "d \<noteq> 0" "ds_descriptor (rx_data rx1 d) = fd"
    "c \<noteq> d \<Longrightarrow> rx_data rx1 c = rx_data rx c"
proof -
  obtain free where p: "pool_of (rx_pool rx) hs free" using assms(1) by (auto simp: rx_inv_def)
  obtain x created p' where a: "pool_alloc new (rx_pool rx) = (x, created, p')" by (metis prod_cases3)
  note l = recycled.alloc_new [OF p assms(2,3) a]
  have r: "d = x" "rx_pool rx1 = p'" "rx_links rx1 = rx_links rx" "rx_posted rx1 = rx_posted rx" "rx_invoked rx1 = rx_invoked rx"
    "rx_data rx1 = (rx_data rx)(x := (if created then ds_new else rx_data rx x)\<lparr>ds_descriptor := fd, ds_shutdown := False,
       ds_events := EPOLLIN OR EPOLLERR OR EPOLLHUP OR EPOLLPRI OR EPOLLET\<rparr>)"
    using assms(4) a by (auto simp: register_descriptor_def allocate_descriptor_state_def upd_desc_def Let_def split: prod.splits)
  have P: "\<exists>free. pool_of p' (d # hs) free" using l(3) r(1) by simp
  show d: "d \<notin> set hs" "d \<noteq> 0" using l(1,2) r(1) by simp_all
  show "ds_descriptor (rx_data rx1 d) = fd" "c \<noteq> d \<Longrightarrow> rx_data rx1 c = rx_data rx c" using r by simp_all
  have e: "A d i = []" for i using assms(1) d by (simp add: rx_inv_def)
  have "ds_queue (rx_data rx1 c) = (if c = d \<and> created then (\<lambda>_. oq_make) else ds_queue (rx_data rx c))" for c
    using r by (simp add: ds_new_def)
  then have "rx_queues rx1 A os oq_make []"
    using assms(1) r(3,4) e by (auto simp: rx_inv_def rx_queues_def queue_of_Nil)
  moreover have "\<not> ds_shutdown (rx_data rx1 c)" if "c \<in> set (d # hs)" for c using that assms(1) r by (auto simp: rx_inv_def)
  ultimately show "rx_inv rx1 (d # hs) A os started" using assms(1) P r(2,5) unfolding rx_inv_def by auto
qed

lemma start_inv:
  assumes "rx_inv rx hs A os started" "d \<in> set (0 # hs)" "t < 3" "h \<noteq> 0" "h \<notin> set started"
    and "rx_start_op y perform t fd d h spec rx w = (rx1, w1)"
  shows "\<exists>A' os'. rx_inv rx1 hs A' os' (started @ [h])"
proof -
  note i = assms(1) [unfolded rx_inv_def]
  have h: "h \<notin> set os" "h \<notin> set (A d i)" for d i using i assms(5) by (auto simp: waiting_ops_def)
  have n: "h \<notin> set (rx_invoked rx)" using i assms(5) by auto
  have t: "taken rx A os d t h rx1" by (rule start_op_taken [OF _ assms(4) _ _ assms(6)]) (use i h in blast)+
  then have s: "rx_pool rx1 = rx_pool rx" "rx_invoked rx1 = rx_invoked rx" "ds_shutdown (rx_data rx1 c) = ds_shutdown (rx_data rx c)" for c
    by (simp_all add: taken_def same_registry_def)
  show ?thesis
  proof (cases "rx_queues rx1 A (os @ [h]) oq_make []")
    case True
    then show ?thesis using i n assms(5) s by (intro exI [of _ A] exI [of _ "os @ [h]"]) (auto simp: rx_inv_def)
  next
    case False
    let ?A = "A(d := (A d)(t := A d t @ [h]))"
    have q: "rx_queues rx1 ?A os oq_make []" "d \<noteq> 0" using t False by (simp_all add: taken_def del: fun_upd_apply)
    have "set (?A e j) = (if (e, j) = (d, t) then insert h (set (A e j)) else set (A e j))" for e j by auto
    then have "x \<in> set (?A e j) \<longleftrightarrow> x \<in> set (A e j) \<or> x = h \<and> e = d \<and> j = t" for x e j by auto
    then have "waiting_ops ?A = insert h (waiting_ops A)" unfolding waiting_ops_def by blast
    moreover have "\<forall>e j. e \<notin> set hs \<or> 3 \<le> j \<longrightarrow> ?A e j = []" using i assms(2,3) q(2) by auto
    ultimately show ?thesis using i n assms(5) s q(1)
      by (intro exI [of _ ?A] exI [of _ os]) (auto simp: rx_inv_def simp del: fun_upd_apply)
  qed
qed

text \<open>Moving operations from the queues of one descriptor to the scheduler.\<close>

lemma fewer_waiting:
  assumes "fewer d A A' ms"
  shows "waiting_ops A = set ms \<union> waiting_ops A'" "A e j = [] \<Longrightarrow> A' e j = []"
proof -
  note f = assms [unfolded fewer_def]
  have m: "(\<Union>j. set (A e j)) = (\<Union>j. set (A' e j)) \<union> (if e = d then set ms else {})" for e using f by auto
  show "waiting_ops A = set ms \<union> waiting_ops A'" unfolding waiting_ops_def m by (auto split: if_splits)
  have "set (A' e j) \<subseteq> set (A e j)" using f by (cases "e = d") auto
  then show "A e j = [] \<Longrightarrow> A' e j = []" by simp
qed

lemma moved_inv:
  assumes "rx_inv rx hs A os started" "rx_queues rx1 A' (os @ ms) oq_make []" "fewer d A A' ms" "same_registry rx rx1"
  shows "rx_inv rx1 hs A' (os @ ms) started"
  using assms(1,2,4) fewer_waiting [OF assms(3)] unfolding rx_inv_def same_registry_def by auto

lemma aborted_fewer: "(\<forall>i. 3 \<le> i \<longrightarrow> A d i = []) \<Longrightarrow> fewer d A (A(d := \<lambda>i. if i \<in> set [0, 1, 2] then [] else A d i)) (concat (map (A d) [0, 1, 2]))"
proof -
  assume a: "\<forall>i. 3 \<le> i \<longrightarrow> A d i = []"
  have "(\<Union>i. set (A d i)) = set (A d 0) \<union> set (A d 1) \<union> set (A d 2)"
  proof -
    have "x \<in> set (A d i) \<Longrightarrow> i = 0 \<or> i = 1 \<or> i = 2" for x i using a by (metis One_nat_def Suc_1 empty_iff list.set(1) not_less_eq_eq numeral_3_eq_3 le_zero_eq le_SucE)
    then show ?thesis by blast
  qed
  moreover have "(if i \<in> set [0, 1, 2] then [] else A d i) = []" for i using a by (cases "i < 3") (auto simp: less_Suc_eq numeral_3_eq_3)
  ultimately show ?thesis unfolding fewer_def by (auto simp: fun_upd_def)
qed

declare abort_queues.simps [simp del] perform_queues.simps [simp del]

definition desc_ops :: "(nat \<Rightarrow> nat \<Rightarrow> nat list) \<Rightarrow> nat \<Rightarrow> nat list" where
  "desc_ops A d = concat (map (A d) [0, 1, 2])"

definition cleared :: "nat \<Rightarrow> (nat \<Rightarrow> nat \<Rightarrow> nat list) \<Rightarrow> nat \<Rightarrow> nat \<Rightarrow> nat list" where
  "cleared d A = A(d := \<lambda>_. [])"

lemma abort_inv:
  assumes "rx_inv rx hs A os started"
  shows "\<exists>p rx1. abort_queues [0, 1, 2] d oq_make rx = Some (p, rx1) \<and> same_registry rx (rx_post_deferred p rx1) \<and>
    rx_inv (rx_post_deferred p rx1) hs (cleared d A) (os @ desc_ops A d) started \<and>
    (\<forall>z. rx_ec (rx_post_deferred p rx1) z = (if \<exists>i. z \<in> set (A d i) then ECANCELED else rx_ec rx z))"
proof -
  note i = assms [unfolded rx_inv_def]
  let ?A = "A(d := \<lambda>i. if i \<in> set [0, 1, 2] then [] else A d i)" and ?ms = "concat (map (A d) [0, 1, 2])"
  have z: "\<forall>i. 3 \<le> i \<longrightarrow> A d i = []" using i by blast
  have e: "?A = A(d := \<lambda>_. [])" using z by (auto intro!: ext simp: not_less_eq_eq numeral_3_eq_3 numeral_2_eq_2)
  note f = aborted_fewer [of A d, OF z]
  obtain p rx1 where a: "abort_queues [0, 1, 2] d oq_make rx = Some (p, rx1)" "same_registry rx rx1"
    "rx_queues rx1 ?A os p ([] @ ?ms)" "rx_ec rx1 = (\<lambda>z. if z \<in> set ?ms then ECANCELED else rx_ec rx z)"
    using abort_queues_all [of rx A os oq_make "[]" "[0, 1, 2]" d] i by auto
  note q = post_deferred_queues [OF a(3)]
  have s: "same_registry rx (rx_post_deferred p rx1)" using same_registry_trans [OF a(2)] q by blast
  have "rx_inv (rx_post_deferred p rx1) hs ?A (os @ ?ms) started"
    by (rule moved_inv [OF assms _ f s]) (use q in simp)
  moreover have "z \<in> set ?ms \<longleftrightarrow> (\<exists>i. z \<in> set (A d i))" for z using f unfolding fewer_def e by auto
  ultimately show ?thesis using a(1,4) q s unfolding e cleared_def desc_ops_def by auto
qed

lemma cancel_inv:
  assumes "rx_inv rx hs A os started" "d \<noteq> 0"
  shows "\<exists>rx1. cancel_ops d rx = Some rx1 \<and> same_registry rx rx1 \<and>
    rx_inv rx1 hs (cleared d A) (os @ desc_ops A d) started"
  using abort_inv [OF assms(1), of d] assms(2) by (auto simp: cancel_ops_def)

lemma deferred_pool: "rx_post_deferred p (rx\<lparr>rx_pool := o1\<rparr>) = (rx_post_deferred p rx)\<lparr>rx_pool := o1\<rparr>"
  "rx_post_deferred p (upd_desc d f rx) = upd_desc d f (rx_post_deferred p rx)"
  by (auto simp: rx_post_deferred_def upd_desc_def split: prod.splits)

lemma deregister_inv:
  assumes "rx_inv rx hs A os started" "d \<in> set hs"
  shows "\<exists>rx1 w1. deregister_descriptor y fd d closing rx w = Some (0, rx1, w1) \<and>
    w1 = (if closing then w else snd (sys_epoll_ctl y EPOLL_CTL_DEL fd 0 0 w)) \<and>
    rx_inv rx1 (remove1 d hs) (cleared d A) (os @ desc_ops A d) started \<and>
    (\<forall>c. c \<noteq> d \<longrightarrow> ds_descriptor (rx_data rx1 c) = ds_descriptor (rx_data rx c)) \<and>
    (\<forall>z. rx_ec rx1 z = (if \<exists>i. z \<in> set (A d i) then ECANCELED else rx_ec rx z))"
proof -
  obtain free where p: "pool_of (rx_pool rx) hs free" using assms(1) by (auto simp: rx_inv_def)
  have d: "d \<noteq> 0" "\<not> ds_shutdown (rx_data rx d)" using assms p by (auto simp: rx_inv_def pool_of_def)
  obtain q rx1 where a: "abort_queues [0, 1, 2] d oq_make rx = Some (q, rx1)" "same_registry rx (rx_post_deferred q rx1)"
    "rx_inv (rx_post_deferred q rx1) hs (cleared d A) (os @ desc_ops A d) started"
    "\<forall>z. rx_ec (rx_post_deferred q rx1) z = (if \<exists>i. z \<in> set (A d i) then ECANCELED else rx_ec rx z)"
    using abort_inv [OF assms(1), of d] by blast
  let ?f = "\<lambda>x. x\<lparr>ds_descriptor := - 1, ds_shutdown := True\<rparr>" and ?r = "rx_post_deferred q rx1"
  let ?rx = "(upd_desc d ?f ?r)\<lparr>rx_pool := pool_free d (rx_pool rx1)\<rparr>"
  have r: "deregister_descriptor y fd d closing rx w = Some (0, ?rx, if closing then w else snd (sys_epoll_ctl y EPOLL_CTL_DEL fd 0 0 w))"
    using a(1) d by (simp add: deregister_descriptor_def Let_def deferred_pool upd_desc_def [of d ?f rx1])
  have "rx_pool rx1 = rx_pool rx" using a(2) by (auto simp: same_registry_def rx_post_deferred_def split: if_splits prod.splits)
  then have "pool_of (rx_pool ?rx) (remove1 d hs) (d # free)" using recycled.release_live [OF p assms(2)] by simp
  moreover have "set (remove1 d hs) = set hs - {d}" using p by (auto simp: pool_of_def)
  moreover have "cleared d A e i = []" if "e \<notin> set hs - {d} \<or> 3 \<le> i" for e i using that assms(1) by (auto simp: cleared_def rx_inv_def)
  moreover have "rx_queues ?rx (cleared d A) (os @ desc_ops A d) oq_make []" using a(3) by (simp add: rx_inv_def)
  ultimately have "rx_inv ?rx (remove1 d hs) (cleared d A) (os @ desc_ops A d) started"
    using a(3) unfolding rx_inv_def by (auto simp: upd_desc_def [of d ?f ?r])
  then show ?thesis using r a(2,4) by (simp add: same_registry_def upd_desc_def)
qed

lemma event_inv:
  assumes "rx_inv rx hs A os started"
  shows "\<exists>rx1 w1 A' os'. descriptor_event perform events d rx w = Some (rx1, w1) \<and> rx_inv rx1 hs A' os' started"
proof -
  have q: "rx_queues rx A os oq_make []" using assms by (simp add: rx_inv_def)
  obtain p rx1 w1 A' ms where a: "perform_queues perform events [2, 1, 0] d oq_make rx w = Some (p, rx1, w1)" "same_registry rx rx1"
    "rx_queues rx1 A' os p ([] @ ms)" "fewer d A A' ms" using perform_queues_some [OF q, of perform events "[2, 1, 0]" d w] by blast
  obtain l p1 where b: "oq_pop (rx_links rx1) p = (l, p1)" by fastforce
  show ?thesis
  proof (cases ms)
    case Nil
    then have "p = oq_make" using a(3) by (simp add: rx_queues_def queue_of_Nil)
    then have "l = rx_links rx1" "oq_front p = 0" using b by (auto simp: oq_make_def oq_pop_def)
    then have "descriptor_event perform events d rx w = Some (rx1\<lparr>rx_work := rx_work rx1 + 1\<rparr>, w1)"
      using a(1) b by (simp add: descriptor_event_def Let_def)
    moreover have "rx_inv rx1 hs A' (os @ []) started"
      by (rule moved_inv [OF assms _ a(4) [unfolded Nil] a(2)]) (use a(3) Nil \<open>p = oq_make\<close> in simp)
    then have "rx_inv (rx1\<lparr>rx_work := rx_work rx1 + 1\<rparr>) hs A' os started" by (simp add: rx_inv_def)
    ultimately show ?thesis by blast
  next
    case (Cons m ns)
    note qs = a(3) [unfolded rx_queues_def Cons append_Nil]
    note ap = apartD [OF qs [THEN conjunct2, THEN conjunct2, THEN conjunct2]]
    have m: "oq_front p = m" "m \<noteq> 0" using ops.front_first qs by auto
    have pop: "queue_of l p1 ns" "l = (rx_links rx1)(m := 0)" using oq_pop_Cons [OF _ b, of m ns] qs by blast+
    let ?rx2 = "rx1\<lparr>rx_links := l\<rparr>"
    have "\<And>e i. m \<notin> set (A' e i)" "m \<notin> set os" using ap(3,4) by auto
    then have "rx_queues ?rx2 A' os p1 ns"
      using qs pop queue_of_other [of "rx_links rx1" _ _ m 0] by (auto simp: rx_queues_def apart_def)
    note pd = post_deferred_queues [OF this]
    let ?rx3 = "(rx_post_deferred p1 ?rx2)\<lparr>rx_invoked := rx_invoked rx1 @ [m]\<rparr>"
    have "descriptor_event perform events d rx w = Some (?rx3, w1)" using a(1) b m by (simp add: descriptor_event_def Let_def)
    moreover have "rx_inv ?rx3 hs A' (os @ ns) started"
    proof -
      note i = assms [unfolded rx_inv_def]
      have r: "same_registry rx (rx_post_deferred p1 ?rx2)" using same_registry_trans [of rx ?rx2] a(2) pd by simp
      have "m \<notin> set ns" using qs by (auto simp: queue_of_def)
      moreover have "m \<notin> waiting_ops A'" "m \<notin> set os" using \<open>m \<notin> set os\<close> \<open>\<And>e i. m \<notin> set (A' e i)\<close> by (auto simp: waiting_ops_def)
      moreover have w: "waiting_ops A = insert m (set ns) \<union> waiting_ops A'" using fewer_waiting(1) [OF a(4)] Cons by simp
      moreover have "\<forall>e j. e \<notin> set hs \<or> 3 \<le> j \<longrightarrow> A' e j = []" using i fewer_waiting(2) [OF a(4)] by blast
      moreover have "rx_queues ?rx3 A' (os @ ns) oq_make []" using pd by simp
      moreover have "rx_invoked rx1 = rx_invoked rx" "rx_pool ?rx3 = rx_pool rx" "ds_shutdown (rx_data ?rx3 c) = ds_shutdown (rx_data rx c)" for c
        using a(2) r by (simp_all add: same_registry_def)
      ultimately show ?thesis using i unfolding rx_inv_def by simp blast
    qed
    ultimately show ?thesis by blast
  qed
qed

lemma rx_run_inv: "rx_run y perform hs started rx w \<Longrightarrow> \<exists>A os. rx_inv rx hs A os started"
proof (induction rule: rx_run.induct)
  case (rx_register hs started rx w new fd e d rx1 w1)
  then show ?case using register_inv(1) [OF _ rx_register.hyps(2-4)] by blast
next
  case (rx_start hs started rx w d t h fd spec rx1 w1)
  then show ?case using start_inv [OF _ rx_start.hyps(2-6)] by blast
next
  case (rx_cancel hs started rx w d rx1)
  then obtain A os where i: "rx_inv rx hs A os started" by blast
  show ?case
  proof (cases "d = 0")
    case True
    then show ?thesis using i rx_cancel.hyps by (auto simp: cancel_ops_def)
  next
    case False
    then show ?thesis using cancel_inv [OF i] rx_cancel.hyps by (metis option.inject)
  qed
next
  case (rx_deregister hs started rx w d fd closing d' rx1 w1)
  then obtain A os where i: "rx_inv rx hs A os started" by blast
  then show ?case using deregister_inv [OF i rx_deregister.hyps(2), of y fd closing w] rx_deregister.hyps(3) by auto
next
  case (rx_event hs started rx w events d rx1 w1)
  then obtain A os where i: "rx_inv rx hs A os started" by blast
  then show ?case using event_inv [OF i, of perform events d w] rx_event.hyps(2) by auto
qed (use rx_inv_make in blast)

text \<open>The operations that wait in the queues of the given states.\<close>

lemma rx_inv_mset:
  assumes "rx_inv rx hs A os started"
  shows "mset started = mset (rx_invoked rx @ os @ concat (map (desc_ops A) hs))"
proof -
  note i = assms [unfolded rx_inv_def rx_queues_def]
  have h: "distinct hs" using i by (auto simp: pool_of_def)
  have ap: "apart A os []" using i by blast
  have q: "distinct (A d j)" for d j using i by (simp add: queue_of_def)
  have dd: "distinct (desc_ops A d)" for d
    using apartD(1) [OF ap, of d 0 d 1] apartD(1) [OF ap, of d 0 d 2] apartD(1) [OF ap, of d 1 d 2] q by (auto simp: desc_ops_def)
  have sd: "set (desc_ops A d) = (\<Union>j. set (A d j))" for d
  proof -
    have "A d j = []" if "3 \<le> j" for j using i that by blast
    then show ?thesis using aborted_fewer [of A d] unfolding fewer_def desc_ops_def by (auto split: if_splits)
  qed
  have "set (desc_ops A d) \<inter> set (desc_ops A e) = {}" if "d \<noteq> e" for d e unfolding sd using apartD(1) [OF ap, where d = d and e = e] that by fastforce
  then have dc: "distinct (concat (map (desc_ops A) hs))" using h dd
    by (induction hs) (auto, metis disjoint_iff)
  have sc: "set (concat (map (desc_ops A) hs)) = waiting_ops A"
  proof -
    have "(\<Union>j. set (A d j)) = {}" if "d \<notin> set hs" for d using i that by simp
    then have "waiting_ops A = (\<Union>d \<in> set hs. \<Union>j. set (A d j))" unfolding waiting_ops_def by blast
    then show ?thesis by (simp add: sd)
  qed
  have "set os \<inter> waiting_ops A = {}" using apartD(2) [OF ap] by (auto simp: waiting_ops_def)
  moreover have "distinct os" using i by (simp add: queue_of_def)
  ultimately have "distinct (rx_invoked rx @ os @ concat (map (desc_ops A) hs))" using i dc sc by auto
  then show ?thesis using i sc by (subst set_eq_iff_mset_eq_distinct [symmetric]) auto
qed

subsection \<open>Properties\<close>

text \<open>C21: Every operation is completed once. After any registrations, starts, cancellations, removals and events on a new
  reactor, each started operation was invoked, is posted to the scheduler, or waits in a queue of a
  registered descriptor, exactly one of them and only once. Cancelling and events always return. Removing a
  descriptor returns, posts all operations that wait for it, in order, with the error code for an aborted
  operation, and forgets the descriptor.\<close>

theorem reactor_ops_once:
  assumes "rx_run y perform hs started rx w"
  shows "\<exists>A os. queue_of (rx_links rx) (rx_posted rx) os \<and> (\<forall>d i. queue_of (rx_links rx) (ds_queue (rx_data rx d) i) (A d i)) \<and>
    distinct started \<and> mset started = mset (rx_invoked rx @ os @ concat (map (desc_ops A) hs)) \<and>
    (\<forall>d. cancel_ops d rx \<noteq> None) \<and> (\<forall>events d. descriptor_event perform events d rx w \<noteq> None) \<and>
    (\<forall>d \<in> set hs. \<exists>rx1 w1. deregister_descriptor y fd d closing rx w = Some (0, rx1, w1) \<and>
       queue_of (rx_links rx1) (rx_posted rx1) (os @ desc_ops A d) \<and> (\<forall>h \<in> set (desc_ops A d). rx_ec rx1 h = ECANCELED))"
proof -
  obtain A os where i: "rx_inv rx hs A os started" using rx_run_inv [OF assms] by blast
  have "cancel_ops d rx \<noteq> None" for d using cancel_inv [OF i, of d] by (cases "d = 0") (auto simp: cancel_ops_def)
  moreover have "descriptor_event perform events d rx w \<noteq> None" for events d using event_inv [OF i, of perform events d w] by auto
  moreover have "\<exists>rx1 w1. deregister_descriptor y fd d closing rx w = Some (0, rx1, w1) \<and>
      queue_of (rx_links rx1) (rx_posted rx1) (os @ desc_ops A d) \<and> (\<forall>h \<in> set (desc_ops A d). rx_ec rx1 h = ECANCELED)"
    if d: "d \<in> set hs" for d
  proof -
    have "\<exists>j. h \<in> set (A d j)" if "h \<in> set (desc_ops A d)" for h using that by (auto simp: desc_ops_def)
    then show ?thesis using deregister_inv [OF i d, of y fd closing w] by (auto simp: rx_inv_def rx_queues_def)
  qed
  moreover have "queue_of (rx_links rx) (rx_posted rx) os" "queue_of (rx_links rx) (ds_queue (rx_data rx d) j) (A d j)" "distinct started" for d j
    using i by (simp_all add: rx_inv_def rx_queues_def)
  ultimately show ?thesis using rx_inv_mset [OF i] by (intro exI [of _ A] exI [of _ os]) blast
qed

theorem reactor_ops_once_witness:
  "\<exists>rx w. rx_run small_kernel (\<lambda>h w. ((False, 0), w)) [7] [3] rx w \<and>
    (\<exists>A os rx1 w1. mset [3] = mset (rx_invoked rx @ os @ desc_ops A 7) \<and>
      deregister_descriptor small_kernel 5 7 True rx w = Some (0, rx1, w1) \<and> queue_of (rx_links rx1) (rx_posted rx1) (os @ desc_ops A 7))"
proof -
  let ?perform = "\<lambda>h (w :: small_state). ((False, 0 :: errno), w)"
  obtain e d rx1 w1 where a: "register_descriptor small_kernel 7 5 rx_make small_start = (e, d, rx1, w1)" by (metis prod_cases4)
  have d: "d = 7" using a by (auto simp: register_descriptor_def allocate_descriptor_state_def pool_alloc_def pool_make_def rx_make_def Let_def split: prod.splits)
  have 1: "rx_run small_kernel ?perform [7] [] rx1 w1" using rx_register [OF rx_new _ _ a, of ?perform] d by simp
  obtain rx w where b: "rx_start_op small_kernel ?perform read_op 5 7 3 True rx1 w1 = (rx, w)" by fastforce
  have "rx_run small_kernel ?perform [7] ([] @ [3]) rx w" by (rule rx_start [OF 1 _ _ _ _ b]) (simp_all add: read_op_def)
  then have r: "rx_run small_kernel ?perform [7] [3] rx w" by simp
  show ?thesis using reactor_ops_once [OF r, of 5 True] r by simp blast
qed

end
