(* ===== verification/Socket_Service.thy ===== *)
theory Socket_Service
  imports Epoll_Reactor
begin

text \<open>
  Socket objects of the vendored asio: \<open>reactive_socket_service_base\<close> and the synchronous accept of
  \<open>reactive_socket_service\<close> (\<^verbatim>\<open>asio/detail/impl/reactive_socket_service_base.ipp\<close>, \<^verbatim>\<open>asio/detail/reactive_socket_service.hpp\<close>),
  on the socket operations and the epoll reactor. The server opens its acceptor, accepts each connection into
  a socket object and closes it through them.

  A socket object has a descriptor, its state bits and a pointer to the reactor's state of the descriptor,
  which is not initialised by the constructor. The address of a new descriptor state is an argument of the
  operations that register one. What is assumed of the kernel is the predicate \<open>fd_table\<close>.
\<close>

subsection \<open>Definitions\<close>

definition SOCK_STREAM :: int where "SOCK_STREAM = 1"
definition SOCK_DGRAM :: int where "SOCK_DGRAM = 2"

record sock_impl =
  si_socket :: int
  si_state :: state_type
  si_data :: nat

definition sv_construct :: "sock_impl \<Rightarrow> sock_impl" where
  "sv_construct impl = impl\<lparr>si_socket := invalid_socket, si_state := 0\<rparr>"

definition sv_is_open :: "sock_impl \<Rightarrow> bool" where
  "sv_is_open impl \<longleftrightarrow> si_socket impl \<noteq> invalid_socket"

text \<open>The new object and the one it was moved from.\<close>

definition base_move_construct :: "sock_impl \<Rightarrow> sock_impl \<Rightarrow> sock_impl \<times> sock_impl" where
  "base_move_construct impl other =
     (impl\<lparr>si_socket := si_socket other, si_state := si_state other, si_data := si_data other\<rparr>,
      other\<lparr>si_socket := invalid_socket, si_state := 0, si_data := 0\<rparr>)"

text \<open>The destructor of \<open>socket_holder\<close>.\<close>

definition holder_destroy :: "('s, 'a) sys \<Rightarrow> int \<Rightarrow> 's \<Rightarrow> 's" where
  "holder_destroy y s w = (if s \<noteq> invalid_socket then snd (snd (so_close y s 0 True w)) else w)"

definition sv_destroy :: "('s, 'a) sys \<Rightarrow> sock_impl \<Rightarrow> reactor \<Rightarrow> 's \<Rightarrow> (sock_impl \<times> reactor \<times> 's) option" where
  "sv_destroy y impl rx w = (if si_socket impl \<noteq> invalid_socket
     then Option.bind (deregister_descriptor y (si_socket impl) (si_data impl) (si_state impl AND possible_dup = 0) rx w) (\<lambda>(d, rx1, w1).
       case so_close y (si_socket impl) (si_state impl) True w1 of (r, st, w2) \<Rightarrow> Some (impl\<lparr>si_data := d, si_state := st\<rparr>, rx1, w2))
     else Some (impl, rx, w))"

definition base_move_assign :: "('s, 'a) sys \<Rightarrow> sock_impl \<Rightarrow> sock_impl \<Rightarrow> reactor \<Rightarrow> 's \<Rightarrow> (sock_impl \<times> sock_impl \<times> reactor \<times> 's) option" where
  "base_move_assign y impl other rx w = Option.bind (sv_destroy y impl rx w) (\<lambda>(impl1, rx1, w1).
     case base_move_construct impl1 other of (impl2, other1) \<Rightarrow> Some (impl2, other1, rx1, w1))"

definition sv_close :: "('s, 'a) sys \<Rightarrow> sock_impl \<Rightarrow> reactor \<Rightarrow> 's \<Rightarrow> (errno \<times> sock_impl \<times> reactor \<times> 's) option" where
  "sv_close y impl rx w = Option.bind
     (if sv_is_open impl then deregister_descriptor y (si_socket impl) (si_data impl) (si_state impl AND possible_dup = 0) rx w
      else Some (si_data impl, rx, w)) (\<lambda>(d, rx1, w1).
     case so_close y (si_socket impl) (si_state impl) False w1 of ((result, ec), st, w2) \<Rightarrow>
       Some (ec, sv_construct (impl\<lparr>si_data := d, si_state := st\<rparr>), rx1, w2))"

definition sv_cancel :: "sock_impl \<Rightarrow> reactor \<Rightarrow> (errno \<times> reactor) option" where
  "sv_cancel impl rx = (if \<not> sv_is_open impl then Some (EBADF, rx)
     else Option.bind (cancel_ops (si_data impl) rx) (\<lambda>rx1. Some (0, rx1)))"

definition type_state :: "int \<Rightarrow> state_type" where
  "type_state type = (if type = SOCK_STREAM then stream_oriented else if type = SOCK_DGRAM then datagram_oriented else 0)"

definition do_open :: "('s, 'a) sys \<Rightarrow> int \<Rightarrow> int \<Rightarrow> int \<Rightarrow> nat \<Rightarrow> sock_impl \<Rightarrow> reactor \<Rightarrow> 's \<Rightarrow> errno \<times> sock_impl \<times> reactor \<times> 's" where
  "do_open y af type protocol new impl rx w = (if sv_is_open impl then (already_open, impl, rx, w)
     else case so_socket y af type protocol w of ((s, ec), w1) \<Rightarrow>
       if s = invalid_socket then (ec, impl, rx, w1)
       else case register_descriptor y new s rx w1 of (err, d, rx1, w2) \<Rightarrow>
         let impl1 = impl\<lparr>si_data := d\<rparr> in
         if err \<noteq> 0 then (err, impl1, rx1, holder_destroy y s w2)
         else (0, impl1\<lparr>si_socket := s, si_state := type_state type\<rparr>, rx1, w2))"

definition do_assign :: "('s, 'a) sys \<Rightarrow> int \<Rightarrow> int \<Rightarrow> nat \<Rightarrow> sock_impl \<Rightarrow> reactor \<Rightarrow> 's \<Rightarrow> errno \<times> sock_impl \<times> reactor \<times> 's" where
  "do_assign y type native_socket new impl rx w = (if sv_is_open impl then (already_open, impl, rx, w)
     else case register_descriptor y new native_socket rx w of (err, d, rx1, w1) \<Rightarrow>
       let impl1 = impl\<lparr>si_data := d\<rparr> in
       if err \<noteq> 0 then (err, impl1, rx1, w1)
       else (0, impl1\<lparr>si_socket := native_socket, si_state := type_state type OR possible_dup\<rparr>, rx1, w1))"

text \<open>\<open>accept\<close> of an acceptor into a socket object; the type is that of the acceptor's protocol.\<close>

definition sv_accept :: "('s, 'a) sys \<Rightarrow> int \<Rightarrow> nat \<Rightarrow> sock_impl \<Rightarrow> sock_impl \<Rightarrow> reactor \<Rightarrow> 's \<Rightarrow> (errno \<times> sock_impl \<times> reactor \<times> 's) option" where
  "sv_accept y type new impl peer rx w = (if sv_is_open peer then Some (already_open, peer, rx, w)
     else Option.bind (so_sync_accept y (si_socket impl) (si_state impl) w) (\<lambda>((s, ec), w1).
       if s \<noteq> invalid_socket
       then case do_assign y type s new peer rx w1 of (ec1, peer1, rx1, w2) \<Rightarrow>
         Some (ec1, peer1, rx1, if ec1 = 0 then w2 else holder_destroy y s w2)
       else Some (ec, peer, rx, w1)))"

subsection \<open>Asynchronous operations\<close>

definition sv_start_op :: "('s, 'a) sys \<Rightarrow> (nat \<Rightarrow> 's \<Rightarrow> (bool \<times> errno) \<times> 's) \<Rightarrow> nat \<Rightarrow> nat \<Rightarrow> bool \<Rightarrow> bool \<Rightarrow> bool \<Rightarrow> sock_impl \<Rightarrow> reactor \<Rightarrow> 's
    \<Rightarrow> sock_impl \<times> reactor \<times> 's" where
  "sv_start_op y perform op_type h is_continuation is_non_blocking noop impl rx w =
     (if noop then (impl, rx_post_immediate h rx, w)
      else if si_state impl AND non_blocking \<noteq> 0
      then (case rx_start_op y perform op_type (si_socket impl) (si_data impl) h is_non_blocking rx w of (rx1, w1) \<Rightarrow> (impl, rx1, w1))
      else case set_internal_non_blocking y (si_socket impl) (si_state impl) True w of ((ok, ec), st, w1) \<Rightarrow>
        let impl1 = impl\<lparr>si_state := st\<rparr>; rx1 = rx\<lparr>rx_ec := (rx_ec rx)(h := ec)\<rparr> in
        if ok then (case rx_start_op y perform op_type (si_socket impl) (si_data impl) h is_non_blocking rx1 w1 of (rx2, w2) \<Rightarrow> (impl1, rx2, w2))
        else (impl1, rx_post_immediate h rx1, w1))"

text \<open>The arguments are in the order of the source.\<close>

definition sv_start_accept_op :: "('s, 'a) sys \<Rightarrow> (nat \<Rightarrow> 's \<Rightarrow> (bool \<times> errno) \<times> 's) \<Rightarrow> nat \<Rightarrow> bool \<Rightarrow> bool \<Rightarrow> sock_impl \<Rightarrow> reactor \<Rightarrow> 's
    \<Rightarrow> sock_impl \<times> reactor \<times> 's" where
  "sv_start_accept_op y perform h is_continuation peer_is_open impl rx w =
     (if \<not> peer_is_open then sv_start_op y perform read_op h True is_continuation False impl rx w
      else (impl, rx_post_immediate h (rx\<lparr>rx_ec := (rx_ec rx)(h := already_open)\<rparr>), w))"

definition sv_start_connect_op :: "('s, 'a) sys \<Rightarrow> (nat \<Rightarrow> 's \<Rightarrow> (bool \<times> errno) \<times> 's) \<Rightarrow> nat \<Rightarrow> 'a \<Rightarrow> sock_impl \<Rightarrow> reactor \<Rightarrow> 's
    \<Rightarrow> sock_impl \<times> reactor \<times> 's" where
  "sv_start_connect_op y perform h addr impl rx w =
     (case (if si_state impl AND non_blocking \<noteq> 0 then ((True, rx_ec rx h), si_state impl, w)
            else set_internal_non_blocking y (si_socket impl) (si_state impl) True w) of ((ok, ec), st, w1) \<Rightarrow>
      let impl1 = impl\<lparr>si_state := st\<rparr>; rx1 = rx\<lparr>rx_ec := (rx_ec rx)(h := ec)\<rparr> in
      if ok then (case so_connect y (si_socket impl) addr w1 of ((result, ec1), w2) \<Rightarrow>
          if result \<noteq> 0 \<and> (ec1 = EINPROGRESS \<or> ec1 = EAGAIN)
          then (case rx_start_op y perform connect_op (si_socket impl) (si_data impl) h False (rx1\<lparr>rx_ec := (rx_ec rx1)(h := 0)\<rparr>) w2 of
            (rx2, w3) \<Rightarrow> (impl1, rx2, w3))
          else (impl1, rx_post_immediate h (rx1\<lparr>rx_ec := (rx_ec rx1)(h := ec1)\<rparr>), w2))
      else (impl1, rx_post_immediate h rx1, w1))"

subsection \<open>What is assumed of the kernel\<close>

text \<open>\<open>opened\<close> are the open descriptors and \<open>nb\<close> their flags \<open>O_NONBLOCK\<close>: a new descriptor is one that was not open, in blocking
  mode; \<open>close\<close> frees the descriptor whatever it returns, except for "try again" in non-blocking mode; setting the mode of an
  open descriptor succeeds; the other calls leave the table alone.\<close>

definition keeps_table :: "('s \<Rightarrow> int set) \<Rightarrow> (int \<Rightarrow> 's \<Rightarrow> bool) \<Rightarrow> 's \<Rightarrow> 's \<Rightarrow> bool" where
  "keeps_table opened nb w w1 \<longleftrightarrow> opened w1 = opened w \<and> (\<forall>t. nb t w1 = nb t w)"

definition new_descriptor :: "('s \<Rightarrow> int set) \<Rightarrow> (int \<Rightarrow> 's \<Rightarrow> bool) \<Rightarrow> int \<Rightarrow> 's \<Rightarrow> 's \<Rightarrow> bool" where
  "new_descriptor opened nb s w w1 \<longleftrightarrow> (if s = invalid_socket then keeps_table opened nb w w1
     else 0 \<le> s \<and> s \<notin> opened w \<and> opened w1 = insert s (opened w) \<and> (\<forall>t. nb t w1 = (t \<noteq> s \<and> nb t w)))"

definition fd_table :: "('s, 'a) sys \<Rightarrow> ('s \<Rightarrow> int set) \<Rightarrow> (int \<Rightarrow> 's \<Rightarrow> bool) \<Rightarrow> bool" where
  "fd_table y opened nb \<longleftrightarrow> fd_modes y nb \<and>
     (\<forall>af type protocol w s e w1. sys_socket y af type protocol w = ((s, e), w1) \<longrightarrow> new_descriptor opened nb s w w1) \<and>
     (\<forall>l w s a e w1. sys_accept y l w = ((s, a, e), w1) \<longrightarrow> new_descriptor opened nb s w w1) \<and>
     (\<forall>s w r e w1. sys_close y s w = ((r, e), w1) \<longrightarrow>
        (if r \<noteq> 0 \<and> e = EAGAIN then nb s w \<and> keeps_table opened nb w w1
         else opened w1 = opened w - {s} \<and> (\<forall>t. t \<noteq> s \<longrightarrow> nb t w1 = nb t w))) \<and>
     (\<forall>s cmd arg w r e w1. sys_ioctl y s cmd arg w = ((r, e), w1) \<longrightarrow> opened w1 = opened w \<and> (s \<in> opened w \<and> cmd = FIONBIO \<longrightarrow> 0 \<le> r)) \<and>
     (\<forall>s level optname optval w. opened (snd (sys_setsockopt y s level optname optval w)) = opened w) \<and>
     (\<forall>s timeout w. keeps_table opened nb w (snd (sys_poll_in y s timeout w))) \<and>
     (\<forall>c s ev d w. keeps_table opened nb w (snd (sys_epoll_ctl y c s ev d w)))"

lemma fd_tableD:
  assumes "fd_table y opened nb"
  shows "fd_modes y nb" "sys_socket y af type protocol w = ((s, e), w1) \<Longrightarrow> new_descriptor opened nb s w w1"
    "sys_accept y l w = ((s, a, e), w1) \<Longrightarrow> new_descriptor opened nb s w w1"
    "sys_close y s w = ((r, e), w1) \<Longrightarrow> (if r \<noteq> 0 \<and> e = EAGAIN then nb s w \<and> keeps_table opened nb w w1
      else opened w1 = opened w - {s} \<and> (\<forall>t. t \<noteq> s \<longrightarrow> nb t w1 = nb t w))"
    "sys_ioctl y s cmd arg w = ((r, e), w1) \<Longrightarrow> opened w1 = opened w \<and> (s \<in> opened w \<and> cmd = FIONBIO \<longrightarrow> 0 \<le> r)"
    "keeps_table opened nb w (snd (sys_setsockopt y s level optname optval w))"
    "keeps_table opened nb w (snd (sys_poll_in y s timeout w))"
    "keeps_table opened nb w (snd (sys_epoll_ctl y c s ev d w))"
proof -
  note f = assms [unfolded fd_table_def]
  note t = f [THEN conjunct2]
  show "fd_modes y nb" using f by blast
  show "sys_socket y af type protocol w = ((s, e), w1) \<Longrightarrow> new_descriptor opened nb s w w1"
    using t [THEN conjunct1] by blast
  show "sys_accept y l w = ((s, a, e), w1) \<Longrightarrow> new_descriptor opened nb s w w1"
    using t [THEN conjunct2, THEN conjunct1] by blast
  show "sys_close y s w = ((r, e), w1) \<Longrightarrow> (if r \<noteq> 0 \<and> e = EAGAIN then nb s w \<and> keeps_table opened nb w w1
      else opened w1 = opened w - {s} \<and> (\<forall>t. t \<noteq> s \<longrightarrow> nb t w1 = nb t w))" using f by presburger
  show "sys_ioctl y s cmd arg w = ((r, e), w1) \<Longrightarrow> opened w1 = opened w \<and> (s \<in> opened w \<and> cmd = FIONBIO \<longrightarrow> 0 \<le> r)"
    using t [THEN conjunct2, THEN conjunct2, THEN conjunct2, THEN conjunct1] by blast
  have "nb u (snd (sys_setsockopt y s level optname optval w)) = nb u w" for u
    using fd_modes_setsockopt [OF f [THEN conjunct1], of s level optname optval w "fst (sys_setsockopt y s level optname optval w)"] by simp
  then show "keeps_table opened nb w (snd (sys_setsockopt y s level optname optval w))" using f by (simp add: keeps_table_def)
  show "keeps_table opened nb w (snd (sys_poll_in y s timeout w))" using f by blast
  show "keeps_table opened nb w (snd (sys_epoll_ctl y c s ev d w))" using f by blast
qed

lemma keeps_table_trans: "keeps_table opened nb a b \<Longrightarrow> keeps_table opened nb b c \<Longrightarrow> keeps_table opened nb a c"
  by (simp add: keeps_table_def)

lemma new_descriptor_before: "keeps_table opened nb a b \<Longrightarrow> new_descriptor opened nb s b c \<Longrightarrow> new_descriptor opened nb s a c"
  by (auto simp: new_descriptor_def keeps_table_def split: if_splits)

lemma new_descriptor_after: "new_descriptor opened nb s a b \<Longrightarrow> keeps_table opened nb b c \<Longrightarrow> new_descriptor opened nb s a c"
  by (auto simp: new_descriptor_def keeps_table_def split: if_splits)

subsection \<open>Closing and accepting\<close>

lemma so_close_closes:
  assumes f: "fd_table y opened nb" and "s \<in> opened w" "s \<noteq> invalid_socket" "so_close y s st destruction w = (r, st1, w1)"
  shows "opened w1 = opened w - {s} \<and> (\<forall>t. t \<noteq> s \<longrightarrow> nb t w1 = nb t w)"
proof -
  let ?w = "if destruction \<and> st AND user_set_linger \<noteq> 0 then snd (sys_setsockopt y s SOL_SOCKET SO_LINGER [0, 0] w) else w"
  have k: "keeps_table opened nb w ?w" using fd_tableD(6) [OF f] by (simp add: keeps_table_def)
  obtain c e w2 where c: "sys_close y s ?w = ((c, e), w2)" by (metis prod.collapse)
  have l: "snd (snd (so_setsockopt y s st SOL_SOCKET SO_LINGER [0, 0] w)) = snd (sys_setsockopt y s SOL_SOCKET SO_LINGER [0, 0] w)"
    using assms(3) by (auto simp: so_setsockopt_def SOL_SOCKET_def custom_socket_option_level_def Let_def split: prod.splits)
  show ?thesis
  proof (cases "c \<noteq> 0 \<and> e = EAGAIN")
    case False
    then have "w1 = w2" using assms(3,4) c l by (auto simp: so_close_def Let_def split: prod.splits if_splits)
    then show ?thesis using fd_tableD(4) [OF f c] False k by (simp add: keeps_table_def)
  next
    case True
    obtain i e2 w3 where i: "sys_ioctl y s FIONBIO 0 w2 = ((i, e2), w3)" by (metis prod.collapse)
    obtain c4 e4 w4 where d: "sys_close y s w3 = ((c4, e4), w4)" by (metis prod.collapse)
    have "w1 = w4" using assms(3,4) c l True i d by (auto simp: so_close_def Let_def split: prod.splits if_splits)
    have k2: "keeps_table opened nb w w2" using fd_tableD(4) [OF f c] True keeps_table_trans [OF k] by simp
    then have o3: "opened w3 = opened w" "0 \<le> i" using fd_tableD(5) [OF f i] assms(2) by (auto simp: keeps_table_def)
    then have n3: "nb t w3 = (t \<noteq> s \<and> nb t w)" for t using fd_modes_ioctl [OF fd_tableD(1) [OF f] i, of t] k2 by (auto simp: keeps_table_def)
    show ?thesis using fd_tableD(4) [OF f d] n3 o3 \<open>w1 = w4\<close> by (auto split: if_splits)
  qed
qed

lemma so_accept_new: "fd_table y opened nb \<Longrightarrow> so_accept y l w = ((s, a, e), w1) \<Longrightarrow> new_descriptor opened nb s w w1"
  using fd_tableD(3) [of y opened nb l w] by (auto simp: so_accept_def new_descriptor_def keeps_table_def split: if_splits prod.splits)

lemma so_poll_read_keeps: "fd_table y opened nb \<Longrightarrow> keeps_table opened nb w (snd (so_poll_read y s st w))"
  using fd_tableD(7) [of y opened nb w s] by (auto simp: so_poll_read_def Let_def keeps_table_def split: prod.splits) (metis snd_conv)+

lemma sync_accept_new:
  assumes "so_sync_accept y l st w = Some z" "fd_table y opened nb"
  shows "new_descriptor opened nb (fst (fst z)) w (snd z)"
proof -
  have "fd_table y opened nb \<longrightarrow> new_descriptor opened nb (fst (fst z)) w (snd z)"
    using assms(1)
  proof (rule so_sync_accept.raw_induct [rotated], goal_cases)
    case (1 g y l st w z)
    show ?case
    proof
      assume f: "fd_table y opened nb"
      obtain s a e w1 where c: "so_accept y l w = ((s, a, e), w1)" by (metis prod_cases4 prod.collapse)
      obtain r e2 w2 where p: "so_poll_read y l 0 w1 = ((r, e2), w2)" by (metis prod.collapse)
      have n: "new_descriptor opened nb s w w1" by (rule so_accept_new [OF f c])
      have k: "keeps_table opened nb w1 w2" using so_poll_read_keeps [OF f, of w1 l 0] p by simp
      show "new_descriptor opened nb (fst (fst z)) w (snd z)"
      proof (cases "z = ((s, e), w1)")
        case False
        then have s: "s = invalid_socket" and z: "z = ((invalid_socket, e2), w2) \<or> g y l st w2 = Some z"
          using 1(2) c p by (auto split: if_splits)
        then have "keeps_table opened nb w w2" using n k keeps_table_trans by (auto simp: new_descriptor_def)
        moreover have "new_descriptor opened nb (fst (fst z)) w2 (snd z)" if "g y l st w2 = Some z" using 1(1) [OF that] f by blast
        ultimately show ?thesis using z new_descriptor_before by (auto simp: new_descriptor_def [of _ _ invalid_socket])
      qed (use n in simp)
    qed
  qed
  then show ?thesis using assms(2) by blast
qed

subsection \<open>Socket objects and descriptors\<close>

text \<open>Registering changes nothing of the table; a registration that fails leaves its descriptor state in use.\<close>

lemma register_keeps: "fd_table y opened nb \<Longrightarrow> register_descriptor y new s rx w = (e, d, rx1, w1) \<Longrightarrow> keeps_table opened nb w w1"
  using fd_tableD(8) [of y opened nb w EPOLL_CTL_ADD s] by (auto simp: register_descriptor_def Let_def split: prod.splits) (metis snd_conv)

lemma holder_destroy_closes:
  assumes "fd_table y opened nb" "s \<in> opened w" "s \<noteq> invalid_socket"
  shows "opened (holder_destroy y s w) = opened w - {s} \<and> (\<forall>t. t \<noteq> s \<longrightarrow> nb t (holder_destroy y s w) = nb t w)"
proof -
  obtain r st1 w1 where c: "so_close y s 0 True w = (r, st1, w1)" by (metis prod_cases3)
  then show ?thesis using so_close_closes [OF assms c] assms(3) by (simp add: holder_destroy_def)
qed

lemma deregister_keeps:
  assumes "fd_table y opened nb" "deregister_descriptor y s d closing rx w = Some (d1, rx1, w1)"
  shows "keeps_table opened nb w w1"
  using assms(2) fd_tableD(8) [OF assms(1), of w EPOLL_CTL_DEL s 0 0]
  by (auto simp: deregister_descriptor_def Let_def keeps_table_def split: if_splits bind_splits)

text \<open>The objects \<open>T\<close>, the reactor and the kernel fit together: each open object has a descriptor of its own that is open, in
  the mode the object believes in, with a state of its own in the reactor; all other open descriptors are those of
  \<open>base\<close>, which were open before; \<open>n\<close> states of the reactor belong to no object.\<close>

definition open_in :: "(nat \<rightharpoonup> sock_impl) \<Rightarrow> nat set" where
  "open_in T = {i. \<exists>im. T i = Some im \<and> sv_is_open im}"

definition sock_of :: "(nat \<rightharpoonup> sock_impl) \<Rightarrow> nat \<Rightarrow> int" where "sock_of T i = si_socket (the (T i))"
definition data_of :: "(nat \<rightharpoonup> sock_impl) \<Rightarrow> nat \<Rightarrow> nat" where "data_of T i = si_data (the (T i))"

definition sv_inv :: "('s \<Rightarrow> int set) \<Rightarrow> (int \<Rightarrow> 's \<Rightarrow> bool) \<Rightarrow> int set \<Rightarrow> nat \<Rightarrow> (nat \<rightharpoonup> sock_impl) \<Rightarrow> reactor \<Rightarrow> 's \<Rightarrow> nat list \<Rightarrow> bool" where
  "sv_inv opened nb base n T rx w hs \<longleftrightarrow>
     inj_on (sock_of T) (open_in T) \<and> opened w = base \<union> sock_of T ` open_in T \<and> base \<inter> sock_of T ` open_in T = {} \<and>
     (\<forall>i. i \<in> open_in T \<longrightarrow> in_mode nb (sock_of T i) (si_state (the (T i))) w) \<and>
     (\<exists>A os started. rx_inv rx hs A os started) \<and> inj_on (data_of T) (open_in T) \<and> data_of T ` open_in T \<subseteq> set hs \<and>
     (\<forall>i. i \<in> open_in T \<longrightarrow> ds_descriptor (rx_data rx (data_of T i)) = sock_of T i) \<and>
     finite (open_in T) \<and> length hs = card (open_in T) + n"

lemma open_in_upd:
  "open_in (T(i \<mapsto> im)) = (if sv_is_open im then insert i (open_in T) else open_in T - {i})"
  "open_in (T(i := None)) = open_in T - {i}"
  by (auto simp: open_in_def split: if_splits)

lemma of_upd [simp]:
  "sock_of (T(i := x)) j = (if j = i then si_socket (the x) else sock_of T j)"
  "data_of (T(i := x)) j = (if j = i then si_data (the x) else data_of T j)"
  by (auto simp: sock_of_def data_of_def)

lemma mode_frame: "(\<forall>t. t \<noteq> s \<longrightarrow> nb t w1 = nb t w) \<Longrightarrow> r \<noteq> s \<Longrightarrow> in_mode nb r st w1 = in_mode nb r st w"
  by (simp add: in_mode_def)

lemma upd_outside:
  assumes "i \<notin> M"
  shows "inj_on (sock_of (T(i := x))) M = inj_on (sock_of T) M" "inj_on (data_of (T(i := x))) M = inj_on (data_of T) M"
    "sock_of (T(i := x)) ` M = sock_of T ` M" "data_of (T(i := x)) ` M = data_of T ` M"
proof -
  have e: "sock_of (T(i := x)) j = sock_of T j" "data_of (T(i := x)) j = data_of T j" if "j \<in> M" for j using that assms by auto
  show "inj_on (sock_of (T(i := x))) M = inj_on (sock_of T) M" by (rule inj_on_cong) (rule e(1))
  show "inj_on (data_of (T(i := x))) M = inj_on (data_of T) M" by (rule inj_on_cong) (rule e(2))
  show "sock_of (T(i := x)) ` M = sock_of T ` M" "data_of (T(i := x)) ` M = data_of T ` M" using e by (auto simp del: of_upd)
qed

text \<open>An object gets a new descriptor.\<close>

lemma inv_gain:
  assumes "sv_inv opened nb base n T rx w hs" "i \<notin> open_in T" "new_descriptor opened nb (si_socket im) w w1" "sv_is_open im"
    and "rx_inv rx1 (si_data im # hs) A os started" "si_data im \<notin> set hs" "ds_descriptor (rx_data rx1 (si_data im)) = si_socket im"
    and "\<And>c. c \<noteq> si_data im \<Longrightarrow> rx_data rx1 c = rx_data rx c" "si_state im AND non_blocking = 0"
  shows "sv_inv opened nb base n (T(i \<mapsto> im)) rx1 w1 (si_data im # hs)"
proof -
  note v = assms(1) [unfolded sv_inv_def]
  let ?s = "si_socket im" and ?O = "open_in T"
  have n: "?s \<notin> opened w" "opened w1 = insert ?s (opened w)" "\<forall>t. nb t w1 = (t \<noteq> ?s \<and> nb t w)"
    using assms(3,4) by (simp_all add: new_descriptor_def sv_is_open_def)
  have o: "open_in (T(i \<mapsto> im)) = insert i ?O" using assms(4) by (simp add: open_in_upd)
  have ne: "j \<noteq> i" if "j \<in> ?O" for j using that assms(2) by blast
  have ow: "opened w = base \<union> sock_of T ` ?O" and dh: "data_of T ` ?O \<subseteq> set hs" using v by blast+
  have "?s \<notin> sock_of T ` ?O" "si_data im \<notin> data_of T ` ?O" using ow n(1) dh assms(6) by auto
  have sn: "sock_of T j \<noteq> ?s" "data_of T j \<noteq> si_data im" if "j \<in> ?O" for j
  proof -
    have "sock_of T j \<in> opened w" "data_of T j \<in> set hs" using that ow dh by auto
    then show "sock_of T j \<noteq> ?s" "data_of T j \<noteq> si_data im" using n(1) assms(6) by metis+
  qed
  note im1 = upd_outside [OF assms(2), of T "Some im"]
  have "inj_on (sock_of (T(i \<mapsto> im))) (insert i ?O)" "inj_on (data_of (T(i \<mapsto> im))) (insert i ?O)"
    using v assms(2) \<open>?s \<notin> sock_of T ` ?O\<close> \<open>si_data im \<notin> data_of T ` ?O\<close> by (auto simp: im1 simp del: fun_upd_apply)
  moreover have "in_mode nb (sock_of (T(i \<mapsto> im)) j) (si_state (the ((T(i \<mapsto> im)) j))) w1" if "j \<in> insert i ?O" for j
  proof (cases "j = i")
    case True
    then show ?thesis using n(3) assms(9) by (simp add: in_mode_def)
  next
    case False
    then show ?thesis using that v sn(1) [of j] n(3) by (auto simp: in_mode_def)
  qed
  moreover have "ds_descriptor (rx_data rx1 (data_of (T(i \<mapsto> im)) j)) = sock_of (T(i \<mapsto> im)) j" if "j \<in> insert i ?O" for j
    using that assms(7,8) v sn(2) [of j] by auto
  moreover have "opened w1 = base \<union> sock_of (T(i \<mapsto> im)) ` insert i ?O" "base \<inter> sock_of (T(i \<mapsto> im)) ` insert i ?O = {}"
    using v n(1,2) im1 by auto
  ultimately show ?thesis unfolding sv_inv_def o using v assms(2,5) im1 by auto
qed

text \<open>An object loses its descriptor.\<close>

lemma inv_lose:
  assumes "sv_inv opened nb base n T rx w hs" "i \<in> open_in T" "d = data_of T i" "s = sock_of T i"
    and "opened w1 = opened w - {s}" "\<forall>t. t \<noteq> s \<longrightarrow> nb t w1 = nb t w" "rx_inv rx1 (remove1 d hs) A os started"
    and "\<forall>c. c \<noteq> d \<longrightarrow> ds_descriptor (rx_data rx1 c) = ds_descriptor (rx_data rx c)" "case x of None \<Rightarrow> True | Some im \<Rightarrow> \<not> sv_is_open im"
  shows "sv_inv opened nb base n (T(i := x)) rx1 w1 (remove1 d hs)"
proof -
  note v = assms(1) [unfolded sv_inv_def]
  let ?O = "open_in T - {i}"
  have o: "open_in (T(i := x)) = ?O" using assms(9) by (cases x) (simp_all add: open_in_upd)
  have sn: "sock_of T j \<noteq> s \<and> data_of T j \<noteq> d" if "j \<in> ?O" for j using that v assms(2,3,4) by (auto simp: inj_on_def)
  have eq: "sock_of (T(i := x)) j = sock_of T j" "data_of (T(i := x)) j = data_of T j" "(T(i := x)) j = T j" if "j \<in> ?O" for j using that by auto
  have S: "sock_of (T(i := x)) ` ?O = sock_of T ` open_in T - {s}" using sn assms(2,4) by auto
  have h: "distinct hs" "d \<in> set hs" using v assms(2,3) by (auto simp: rx_inv_def pool_of_def)
  have D: "data_of (T(i := x)) ` ?O \<subseteq> set (remove1 d hs)" using v sn eq(2) h by auto
  have "inj_on (sock_of (T(i := x))) ?O" "inj_on (data_of (T(i := x))) ?O" using v unfolding inj_on_def by auto
  moreover have "in_mode nb (sock_of (T(i := x)) j) (si_state (the ((T(i := x)) j))) w1" if "j \<in> ?O" for j
    using mode_frame [OF assms(6), of "sock_of T j"] sn [OF that] v that by auto
  moreover have "ds_descriptor (rx_data rx1 (data_of (T(i := x)) j)) = sock_of (T(i := x)) j" if "j \<in> ?O" for j
    using assms(8) sn [OF that] v that by auto
  moreover have "s \<in> sock_of T ` open_in T" using assms(2,4) by blast
  then have "opened w1 = base \<union> sock_of (T(i := x)) ` ?O" "base \<inter> sock_of (T(i := x)) ` ?O = {}" unfolding S assms(5) using v by auto
  moreover have "length (remove1 d hs) = card ?O + n"
  proof -
    have "length hs = card (open_in T) + n" "finite (open_in T)" using v by blast+
    then show ?thesis using h(2) assms(2) card_Suc_Diff1 [of "open_in T" i] by (simp add: length_remove1)
  qed
  ultimately show ?thesis unfolding sv_inv_def o using v assms(7) D by auto
qed

text \<open>A registration failed; an object without a descriptor changes.\<close>

lemma inv_leak:
  assumes "sv_inv opened nb base n T rx w hs" "i \<notin> open_in T" "\<not> sv_is_open im" "opened w1 = opened w" "\<forall>t. t \<in> opened w \<longrightarrow> nb t w1 = nb t w"
    and "rx_inv rx1 (d # hs) A os started" "d \<notin> set hs" "\<And>c. c \<noteq> d \<Longrightarrow> rx_data rx1 c = rx_data rx c"
  shows "sv_inv opened nb base (Suc n) (T(i \<mapsto> im)) rx1 w1 (d # hs)"
proof -
  note v = assms(1) [unfolded sv_inv_def]
  have o: "open_in (T(i \<mapsto> im)) = open_in T" using assms(2,3) by (simp add: open_in_upd)
  have eq: "sock_of (T(i \<mapsto> im)) j = sock_of T j" "data_of (T(i \<mapsto> im)) j = data_of T j" "(T(i \<mapsto> im)) j = T j"
    if "j \<in> open_in T" for j using that assms(2) by auto
  note im1 = upd_outside [OF assms(2), of T "Some im"]
  have "inj_on (sock_of (T(i \<mapsto> im))) (open_in T)" "inj_on (data_of (T(i \<mapsto> im))) (open_in T)" using v unfolding im1 by blast+
  moreover have m: "in_mode nb (sock_of (T(i \<mapsto> im)) j) (si_state (the ((T(i \<mapsto> im)) j))) w1"
      "ds_descriptor (rx_data rx1 (data_of (T(i \<mapsto> im)) j)) = sock_of (T(i \<mapsto> im)) j" if "j \<in> open_in T" for j
  proof -
    have "sock_of T j \<in> opened w" "data_of T j \<noteq> d" using that v assms(7) by auto
    then show "in_mode nb (sock_of (T(i \<mapsto> im)) j) (si_state (the ((T(i \<mapsto> im)) j))) w1"
      "ds_descriptor (rx_data rx1 (data_of (T(i \<mapsto> im)) j)) = sock_of (T(i \<mapsto> im)) j"
      unfolding eq [OF that] using assms(5,8) v that by (auto simp: in_mode_def)
  qed
  moreover have "\<exists>A os started. rx_inv rx1 (d # hs) A os started" using assms(6) by blast
  moreover have "data_of T ` open_in T \<subseteq> set (d # hs)" using v by auto
  ultimately show ?thesis unfolding sv_inv_def o im1 using v assms(4) by (simp del: of_upd fun_upd_apply)
qed

text \<open>Nothing but the kernel's other state, or an object without a descriptor, changes.\<close>

lemma inv_idle:
  assumes "sv_inv opened nb base n T rx w hs" "i \<notin> open_in T" "case x of None \<Rightarrow> True | Some im \<Rightarrow> \<not> sv_is_open im" "keeps_table opened nb w w1"
  shows "sv_inv opened nb base n (T(i := x)) rx w1 hs"
proof -
  note v = assms(1) [unfolded sv_inv_def]
  have o: "open_in (T(i := x)) = open_in T" using assms(2,3) by (cases x) (simp_all add: open_in_upd)
  have eq: "sock_of (T(i := x)) j = sock_of T j" "data_of (T(i := x)) j = data_of T j" "(T(i := x)) j = T j"
    if "j \<in> open_in T" for j using that assms(2) by auto
  note im1 = upd_outside [OF assms(2), of T x]
  have "inj_on (sock_of (T(i := x))) (open_in T)" "inj_on (data_of (T(i := x))) (open_in T)" using v unfolding im1 by blast+
  moreover have m: "in_mode nb (sock_of (T(i := x)) j) (si_state (the ((T(i := x)) j))) w1"
      "ds_descriptor (rx_data rx (data_of (T(i := x)) j)) = sock_of (T(i := x)) j" if "j \<in> open_in T" for j
    unfolding eq [OF that] using v that assms(4) by (auto simp: in_mode_def keeps_table_def)
  ultimately show ?thesis unfolding sv_inv_def o im1 using v assms(4) by (simp add: keeps_table_def del: of_upd)
qed

text \<open>The state bits of an object change with the mode of its descriptor.\<close>

lemma inv_mode:
  assumes "sv_inv opened nb base n T rx w hs" "T i = Some im" "sv_is_open im" "opened w1 = opened w" "\<forall>t. t \<noteq> si_socket im \<longrightarrow> nb t w1 = nb t w"
    and "in_mode nb (si_socket im) st w1"
  shows "sv_inv opened nb base n (T(i \<mapsto> im\<lparr>si_state := st\<rparr>)) rx w1 hs"
proof -
  note v = assms(1) [unfolded sv_inv_def]
  let ?T = "T(i \<mapsto> im\<lparr>si_state := st\<rparr>)"
  have i: "i \<in> open_in T" using assms(2,3) by (auto simp: open_in_def)
  have o: "open_in ?T = open_in T" using i assms(3) by (auto simp: open_in_upd sv_is_open_def)
  have eq: "sock_of ?T = sock_of T" "data_of ?T = data_of T" using assms(2) by (auto simp: sock_of_def data_of_def)
  have "in_mode nb (sock_of T j) (si_state (the (?T j))) w1" if "j \<in> open_in T" for j
  proof (cases "j = i")
    case True
    then show ?thesis using assms(2,6) by (simp add: sock_of_def)
  next
    case False
    then have "sock_of T j \<noteq> sock_of T i" using v that i by (auto simp: inj_on_def)
    then have "sock_of T j \<noteq> si_socket im" using assms(2) by (simp add: sock_of_def)
    then show ?thesis using False v that assms(5) by (auto simp: in_mode_def)
  qed
  then show ?thesis unfolding sv_inv_def o eq using v assms(4) by (simp del: of_upd fun_upd_apply)
qed

text \<open>An object changes its place.\<close>

lemma inv_move:
  assumes "sv_inv opened nb base n T rx w hs" "T i = Some other" "i \<noteq> j" "j \<notin> open_in T" "base_move_construct im other = (im1, other1)"
  shows "sv_inv opened nb base n (T(i \<mapsto> other1, j \<mapsto> im1)) rx w hs"
proof (cases "sv_is_open other")
  case False
  have c: "\<not> sv_is_open other1" "\<not> sv_is_open im1" using False assms(5) by (auto simp: base_move_construct_def sv_is_open_def)
  have i: "i \<notin> open_in T" using False assms(2) by (simp add: open_in_def)
  have k: "keeps_table opened nb w w" by (simp add: keeps_table_def)
  have "sv_inv opened nb base n (T(i \<mapsto> other1)) rx w hs" by (rule inv_idle [OF assms(1) i _ k]) (simp add: c)
  then show ?thesis by (rule inv_idle [OF _ _ _ k]) (use assms(4) c in \<open>simp_all add: open_in_upd\<close>)
next
  case True
  note v = assms(1) [unfolded sv_inv_def]
  let ?T = "T(i \<mapsto> other1, j \<mapsto> im1)" and ?R = "open_in T - {i}"
  have f: "si_socket im1 = sock_of T i" "si_data im1 = data_of T i" "si_state im1 = si_state (the (T i))" "\<not> sv_is_open other1" "sv_is_open im1"
    using True assms(2,5) by (auto simp: base_move_construct_def sv_is_open_def sock_of_def data_of_def)
  have i: "i \<in> open_in T" using True assms(2) by (simp add: open_in_def)
  have o: "open_in ?T = insert j ?R" using f assms(3,4) by (auto simp: open_in_upd)
  have eq: "sock_of ?T k = sock_of T k" "data_of ?T k = data_of T k" "?T k = T k" if "k \<in> ?R" for k using that assms(4) by auto
  have g: "sock_of ?T j = sock_of T i" "data_of ?T j = data_of T i" "the (?T j) = im1" using f by auto
  have E: "sock_of ?T ` ?R = sock_of T ` ?R" "data_of ?T ` ?R = data_of T ` ?R" by (rule image_cong [OF refl], rule eq, assumption)+
  have "sock_of T ` open_in T = insert (sock_of T i) (sock_of T ` ?R)" "data_of T ` open_in T = insert (data_of T i) (data_of T ` ?R)"
    using i by blast+
  then have S: "sock_of ?T ` insert j ?R = sock_of T ` open_in T" "data_of ?T ` insert j ?R = data_of T ` open_in T"
    unfolding image_insert g E by simp_all
  have "inj_on (sock_of T) ?R" "inj_on (data_of T) ?R" "sock_of T i \<notin> sock_of T ` ?R" "data_of T i \<notin> data_of T ` ?R"
    using v i by (auto simp: inj_on_def)
  moreover have "inj_on (sock_of ?T) ?R = inj_on (sock_of T) ?R" by (rule inj_on_cong) (rule eq(1))
  moreover have "inj_on (data_of ?T) ?R = inj_on (data_of T) ?R" by (rule inj_on_cong) (rule eq(2))
  moreover have "sock_of ?T ` (?R - {j}) \<subseteq> sock_of T ` ?R" "data_of ?T ` (?R - {j}) \<subseteq> data_of T ` ?R" using eq by auto
  ultimately have "inj_on (sock_of ?T) (insert j ?R)" "inj_on (data_of ?T) (insert j ?R)"
    unfolding inj_on_insert g by blast+
  moreover have "in_mode nb (sock_of ?T k) (si_state (the (?T k))) w" "ds_descriptor (rx_data rx (data_of ?T k)) = sock_of ?T k" if "k \<in> insert j ?R" for k
  proof -
    have "k = j \<or> k \<in> ?R" using that by blast
    then show "in_mode nb (sock_of ?T k) (si_state (the (?T k))) w" "ds_descriptor (rx_data rx (data_of ?T k)) = sock_of ?T k"
      using v i f eq(1,2,3) [of k] g by (auto simp del: of_upd fun_upd_apply)
  qed
  moreover have "card (insert j ?R) = card (open_in T)" "finite (insert j ?R)"
    using v i assms(4) card_Suc_Diff1 [of "open_in T" i] by simp_all
  ultimately show ?thesis unfolding sv_inv_def o S using v by (simp del: of_upd fun_upd_apply)
qed

subsection \<open>Every operation keeps the invariant\<close>

lemma type_state_mode: "type_state type AND non_blocking = 0" "(type_state type OR possible_dup) AND non_blocking = 0"
  by (simp_all add: type_state_def stream_oriented_def datagram_oriented_def possible_dup_def non_blocking_def user_set_non_blocking_def internal_non_blocking_def)

text \<open>A descriptor just opened is registered for an object: it belongs to the object afterwards, or is closed again.\<close>

lemma adopt_inv:
  assumes f: "fd_table y opened nb" and v: "sv_inv opened nb base n T rx w hs" and "T i = Some im" "\<not> sv_is_open im"
    and d: "new_descriptor opened nb s w w1" "s \<noteq> invalid_socket" "new \<noteq> 0" "new \<notin> set hs" "register_descriptor y new s rx w1 = (err, d, rx1, w2)"
  shows "st AND non_blocking = 0 \<Longrightarrow> sv_inv opened nb base n (T(i \<mapsto> im\<lparr>si_data := d, si_socket := s, si_state := st\<rparr>)) rx1 w2 (d # hs)"
    "sv_inv opened nb base (Suc n) (T(i \<mapsto> im\<lparr>si_data := d\<rparr>)) rx1 (holder_destroy y s w2) (d # hs)"
proof -
  obtain A os started where "rx_inv rx hs A os started" using v by (auto simp: sv_inv_def)
  note r = register_inv [OF this d(3-5)]
  have i: "i \<notin> open_in T" using assms(3,4) by (simp add: open_in_def)
  have nd: "new_descriptor opened nb s w w2" by (rule new_descriptor_after [OF d(1) register_keeps [OF f d(5)]])
  show "sv_inv opened nb base n (T(i \<mapsto> im\<lparr>si_data := d, si_socket := s, si_state := st\<rparr>)) rx1 w2 (d # hs)" if "st AND non_blocking = 0"
    using inv_gain [OF v i, of "im\<lparr>si_data := d, si_socket := s, si_state := st\<rparr>" w2 rx1] nd r d(2) that by (simp add: sv_is_open_def del: fun_upd_apply)
  have s: "s \<in> opened w2" "opened w2 - {s} = opened w" "\<forall>t. t \<in> opened w \<longrightarrow> nb t w2 = nb t w" using nd d(2) by (auto simp: new_descriptor_def)
  note h = holder_destroy_closes [OF f s(1) d(2)]
  have "\<forall>t. t \<in> opened w \<longrightarrow> nb t (holder_destroy y s w2) = nb t w" using h s nd d(2) by (auto simp: new_descriptor_def)
  then show "sv_inv opened nb base (Suc n) (T(i \<mapsto> im\<lparr>si_data := d\<rparr>)) rx1 (holder_destroy y s w2) (d # hs)"
    using inv_leak [OF v i _ _ _ r(1) r(2)] r(5) h s(2) assms(4) by (simp add: sv_is_open_def del: fun_upd_apply)
qed

lemma open_inv:
  assumes f: "fd_table y opened nb" and v: "sv_inv opened nb base n T rx w hs" and t: "T i = Some im" and n: "new \<noteq> 0" "new \<notin> set hs"
    and r: "do_open y af type protocol new im rx w = (ec, im1, rx1, w1)"
  shows "\<exists>n' hs'. sv_inv opened nb base n' (T(i \<mapsto> im1)) rx1 w1 hs'"
proof (cases "sv_is_open im")
  case True
  then show ?thesis using r v fun_upd_idem [of T i "Some im", OF t] by (auto simp: do_open_def)
next
  case False
  obtain s e w2 where s: "so_socket y af type protocol w = ((s, e), w2)" by (metis prod.collapse)
  have nd: "new_descriptor opened nb s w w2" using s fd_tableD(2) [OF f, of af type protocol w] by (auto simp: so_socket_def split: prod.splits)
  show ?thesis
  proof (cases "s = invalid_socket")
    case True
    have "sv_inv opened nb base n (T(i \<mapsto> im)) rx w2 hs"
      by (rule inv_idle [OF v]) (use False t nd True in \<open>auto simp: open_in_def new_descriptor_def\<close>)
    then show ?thesis using r s False True by (auto simp: do_open_def)
  next
    case ns: False
    obtain err d rx2 w3 where g: "register_descriptor y new s rx w2 = (err, d, rx2, w3)" by (metis prod_cases4)
    note a = adopt_inv [OF f v t False nd ns n g]
    show ?thesis using r s False ns g a(1) [OF type_state_mode(1)] a(2) by (auto simp: do_open_def Let_def simp del: fun_upd_apply split: if_splits)
  qed
qed

lemma accept_inv:
  assumes f: "fd_table y opened nb" and v: "sv_inv opened nb base n T rx w hs" and t: "T i = Some im" and n: "new \<noteq> 0" "new \<notin> set hs"
    and r: "sv_accept y type new acc im rx w = Some (ec, im1, rx1, w1)"
  shows "\<exists>n' hs'. sv_inv opened nb base n' (T(i \<mapsto> im1)) rx1 w1 hs'"
proof (cases "sv_is_open im")
  case True
  then show ?thesis using r v fun_upd_idem [of T i "Some im", OF t] by (auto simp: sv_accept_def)
next
  case False
  obtain s e w2 where s: "so_sync_accept y (si_socket acc) (si_state acc) w = Some ((s, e), w2)"
    using r False by (auto simp: sv_accept_def split: bind_splits)
  have nd: "new_descriptor opened nb s w w2" using sync_accept_new [OF s f] by simp
  show ?thesis
  proof (cases "s = invalid_socket")
    case True
    have "sv_inv opened nb base n (T(i \<mapsto> im)) rx w2 hs"
      by (rule inv_idle [OF v]) (use False t nd True in \<open>auto simp: open_in_def new_descriptor_def\<close>)
    then show ?thesis using r s False True by (auto simp: sv_accept_def)
  next
    case ns: False
    obtain err d rx2 w3 where g: "register_descriptor y new s rx w2 = (err, d, rx2, w3)" by (metis prod_cases4)
    note a = adopt_inv [OF f v t False nd ns n g]
    show ?thesis using r s False ns g a(1) [OF type_state_mode(2)] a(2)
      by (auto simp: sv_accept_def do_assign_def Let_def simp del: fun_upd_apply split: if_splits)
  qed
qed

text \<open>What \<open>close\<close> and the destructor do for an open object.\<close>

lemma release_inv:
  assumes f: "fd_table y opened nb" and v: "sv_inv opened nb base n T rx w hs" and t: "T i = Some im" "sv_is_open im"
  shows "\<exists>rx1 w1. deregister_descriptor y (si_socket im) (si_data im) closing rx w = Some (0, rx1, w1) \<and>
    (\<forall>st b r st1 w2 x. so_close y (si_socket im) st b w1 = (r, st1, w2) \<longrightarrow> opened w2 = opened w - {si_socket im} \<and>
      ((case x of None \<Rightarrow> True | Some im \<Rightarrow> \<not> sv_is_open im) \<longrightarrow> sv_inv opened nb base n (T(i := x)) rx1 w2 (remove1 (si_data im) hs)))"
proof -
  note u = v [unfolded sv_inv_def]
  have i: "i \<in> open_in T" using t by (simp add: open_in_def)
  have e: "sock_of T i = si_socket im" "data_of T i = si_data im" using t by (simp_all add: sock_of_def data_of_def)
  have "si_socket im \<in> sock_of T ` open_in T" "si_data im \<in> data_of T ` open_in T" using i e by (metis imageI)+
  moreover have "opened w = base \<union> sock_of T ` open_in T" "data_of T ` open_in T \<subseteq> set hs" using u by blast+
  ultimately have d: "si_data im \<in> set hs" and s: "si_socket im \<in> opened w" by auto
  obtain A os started where "rx_inv rx hs A os started" using v by (auto simp: sv_inv_def)
  then obtain rx1 w1 where g: "deregister_descriptor y (si_socket im) (si_data im) closing rx w = Some (0, rx1, w1)"
    "rx_inv rx1 (remove1 (si_data im) hs) (cleared (si_data im) A) (os @ desc_ops A (si_data im)) started"
    "\<forall>c. c \<noteq> si_data im \<longrightarrow> ds_descriptor (rx_data rx1 c) = ds_descriptor (rx_data rx c)"
    using deregister_inv [OF _ d] by metis
  have k: "keeps_table opened nb w w1" by (rule deregister_keeps [OF f g(1)])
  have "opened w2 = opened w - {si_socket im} \<and>
      ((case x of None \<Rightarrow> True | Some im \<Rightarrow> \<not> sv_is_open im) \<longrightarrow> sv_inv opened nb base n (T(i := x)) rx1 w2 (remove1 (si_data im) hs))"
    if c: "so_close y (si_socket im) st b w1 = (r, st1, w2)" for st b r st1 w2 x
  proof -
    have "opened w2 = opened w - {si_socket im}" "\<forall>t. t \<noteq> si_socket im \<longrightarrow> nb t w2 = nb t w"
      using so_close_closes [OF f _ _ c] k s t(2) by (auto simp: keeps_table_def sv_is_open_def)
    then show ?thesis using inv_lose [OF v i refl refl _ _ _ _, of w2 rx1 _ _ _ x] g(2,3) e by auto
  qed
  then show ?thesis using g(1) by blast
qed

lemma close_inv:
  assumes f: "fd_table y opened nb" and v: "sv_inv opened nb base n T rx w hs" and t: "T i = Some im"
  shows "\<exists>ec im1 rx1 w1 hs'. sv_close y im rx w = Some (ec, im1, rx1, w1) \<and> \<not> sv_is_open im1 \<and>
    opened w1 = (if sv_is_open im then opened w - {si_socket im} else opened w) \<and> sv_inv opened nb base n (T(i \<mapsto> im1)) rx1 w1 hs'"
proof (cases "sv_is_open im")
  case True
  obtain rx1 w1 where d: "deregister_descriptor y (si_socket im) (si_data im) (si_state im AND possible_dup = 0) rx w = Some (0, rx1, w1)"
    and r: "\<And>st b r st1 w2 x. so_close y (si_socket im) st b w1 = (r, st1, w2) \<Longrightarrow> opened w2 = opened w - {si_socket im} \<and>
      ((case x of None \<Rightarrow> True | Some im \<Rightarrow> \<not> sv_is_open im) \<longrightarrow> sv_inv opened nb base n (T(i := x)) rx1 w2 (remove1 (si_data im) hs))"
    using release_inv [OF f v t True] by metis
  obtain res ec st w2 where c: "so_close y (si_socket im) (si_state im) False w1 = ((res, ec), st, w2)" by (metis prod.collapse)
  let ?im = "sv_construct (im\<lparr>si_data := 0, si_state := st\<rparr>)"
  have "sv_close y im rx w = Some (ec, ?im, rx1, w2)" using True d c by (simp add: sv_close_def)
  moreover have "\<not> sv_is_open ?im" by (simp add: sv_construct_def sv_is_open_def)
  ultimately show ?thesis using r [OF c, of "Some ?im"] True by auto
next
  case False
  let ?im = "sv_construct (im\<lparr>si_data := si_data im, si_state := si_state im\<rparr>)"
  have i: "i \<notin> open_in T" using False t by (simp add: open_in_def)
  have "sv_close y im rx w = Some (0, ?im, rx, w)" using False by (simp add: sv_close_def sv_is_open_def so_close_def)
  moreover have c: "\<not> sv_is_open ?im" by (simp add: sv_construct_def sv_is_open_def)
  moreover have "sv_inv opened nb base n (T(i \<mapsto> ?im)) rx w hs"
    by (rule inv_idle [OF v i]) (use c in \<open>simp_all add: keeps_table_def\<close>)
  ultimately show ?thesis using False by auto
qed

lemma destroy_inv:
  assumes f: "fd_table y opened nb" and v: "sv_inv opened nb base n T rx w hs" and t: "T i = Some im"
  shows "\<exists>im1 rx1 w1 hs'. sv_destroy y im rx w = Some (im1, rx1, w1) \<and> sv_inv opened nb base n (T(i := None)) rx1 w1 hs'"
proof (cases "sv_is_open im")
  case True
  obtain rx1 w1 where d: "deregister_descriptor y (si_socket im) (si_data im) (si_state im AND possible_dup = 0) rx w = Some (0, rx1, w1)"
    and r: "\<And>st b r st1 w2 x. so_close y (si_socket im) st b w1 = (r, st1, w2) \<Longrightarrow> opened w2 = opened w - {si_socket im} \<and>
      ((case x of None \<Rightarrow> True | Some im \<Rightarrow> \<not> sv_is_open im) \<longrightarrow> sv_inv opened nb base n (T(i := x)) rx1 w2 (remove1 (si_data im) hs))"
    using release_inv [OF f v t True] by metis
  obtain res st w2 where c: "so_close y (si_socket im) (si_state im) True w1 = (res, st, w2)" by (metis prod_cases3)
  then show ?thesis using True d r [OF c, of None] by (auto simp: sv_destroy_def sv_is_open_def simp del: fun_upd_apply)
next
  case False
  have "sv_inv opened nb base n (T(i := None)) rx w hs"
    by (rule inv_idle [OF v]) (use False t in \<open>auto simp: open_in_def keeps_table_def\<close>)
  then show ?thesis using False by (auto simp: sv_destroy_def sv_is_open_def simp del: fun_upd_apply)
qed

lemma control_opened:
  assumes "fd_table y opened nb" "control_step y s c st w = (r, st1, w1)"
  shows "opened w1 = opened w"
proof -
  have i: "opened w2 = opened w" if "sys_ioctl y s cmd arg w = (x, w2)" for cmd arg x w2
    using fd_tableD(5) [OF assms(1), of s cmd arg w] that by (metis prod.collapse)
  have o: "opened w2 = opened w" if "sys_setsockopt y s level optname optval w = (x, w2)" for level optname optval x w2
    using fd_tableD(6) [OF assms(1), of w s level optname optval] that by (simp add: keeps_table_def)
  show ?thesis using assms(2)
    by (cases c) (auto simp: set_user_non_blocking_def set_internal_non_blocking_def so_ioctl_def so_setsockopt_def Let_def
        split: if_splits prod.splits dest: i o)
qed

lemma control_inv:
  assumes f: "fd_table y opened nb" and v: "sv_inv opened nb base n T rx w hs" and t: "T i = Some im" "sv_is_open im"
    and c: "control_step y (si_socket im) c (si_state im) w = (r, st, w1)"
  shows "sv_inv opened nb base n (T(i \<mapsto> im\<lparr>si_state := st\<rparr>)) rx w1 hs"
proof (rule inv_mode [OF v t])
  have i: "i \<in> open_in T" using t by (simp add: open_in_def)
  then have "in_mode nb (si_socket im) (si_state im) w" using v t(1) by (auto simp: sv_inv_def sock_of_def)
  note m = control_step_mode [OF fd_tableD(1) [OF f] this c]
  then show "\<forall>t. t \<noteq> si_socket im \<longrightarrow> nb t w1 = nb t w" "in_mode nb (si_socket im) st w1" by blast+
  show "opened w1 = opened w" by (rule control_opened [OF f c])
qed

lemma cancel_keeps:
  assumes v: "sv_inv opened nb base n T rx w hs" and t: "T i = Some im" and c: "sv_cancel im rx = Some (ec, rx1)"
  shows "sv_inv opened nb base n T rx1 w hs"
proof (cases "rx1 = rx")
  case False
  obtain A os started where r: "rx_inv rx hs A os started" using v by (auto simp: sv_inv_def)
  have o: "sv_is_open im" "cancel_ops (si_data im) rx = Some rx1" "si_data im \<noteq> 0"
    using c False by (auto simp: sv_cancel_def cancel_ops_def split: if_splits bind_splits)
  then have "same_registry rx rx1" "\<exists>A os started. rx_inv rx1 hs A os started" using cancel_inv [OF r o(3)] by auto
  then show ?thesis using v unfolding sv_inv_def same_registry_def by auto
qed (use v in simp)

subsection \<open>Runs\<close>

text \<open>The descriptor states in use.\<close>

definition live_states :: "reactor \<Rightarrow> nat list" where
  "live_states rx = (case destroy_list (op_next (rx_pool rx)) (op_live_list (rx_pool rx)) of None \<Rightarrow> [] | Some xs \<Rightarrow> xs)"

lemma live_states_inv: "rx_inv rx hs A os started \<Longrightarrow> live_states rx = hs"
  using destroy_list_all [of "op_next (rx_pool rx)" hs] by (auto simp: rx_inv_def pool_of_def live_states_def)

text \<open>Calls on socket objects from the kernel state \<open>w0\<close> on. A new descriptor state is not one that is in use.\<close>

inductive sv_run :: "('s, 'a) sys \<Rightarrow> 's \<Rightarrow> (nat \<rightharpoonup> sock_impl) \<Rightarrow> reactor \<Rightarrow> 's \<Rightarrow> bool" for y :: "('s, 'a) sys" and w0 :: 's where
  sv_new: "sv_run y w0 (\<lambda>_. None) rx_make w0"
| sv_make: "sv_run y w0 T rx w \<Longrightarrow> T i = None \<Longrightarrow> sv_run y w0 (T(i \<mapsto> sv_construct im)) rx w"
| sv_opens: "sv_run y w0 T rx w \<Longrightarrow> T i = Some im \<Longrightarrow> new \<noteq> 0 \<Longrightarrow> new \<notin> set (live_states rx) \<Longrightarrow>
    do_open y af type protocol new im rx w = (ec, im1, rx1, w1) \<Longrightarrow> sv_run y w0 (T(i \<mapsto> im1)) rx1 w1"
| sv_accepts: "sv_run y w0 T rx w \<Longrightarrow> T j = Some acc \<Longrightarrow> T i = Some im \<Longrightarrow> new \<noteq> 0 \<Longrightarrow> new \<notin> set (live_states rx) \<Longrightarrow>
    sv_accept y type new acc im rx w = Some (ec, im1, rx1, w1) \<Longrightarrow> sv_run y w0 (T(i \<mapsto> im1)) rx1 w1"
| sv_closes: "sv_run y w0 T rx w \<Longrightarrow> T i = Some im \<Longrightarrow> sv_close y im rx w = Some (ec, im1, rx1, w1) \<Longrightarrow> sv_run y w0 (T(i \<mapsto> im1)) rx1 w1"
| sv_destroys: "sv_run y w0 T rx w \<Longrightarrow> T i = Some im \<Longrightarrow> sv_destroy y im rx w = Some (im1, rx1, w1) \<Longrightarrow> sv_run y w0 (T(i := None)) rx1 w1"
| sv_moves: "sv_run y w0 T rx w \<Longrightarrow> T i = Some other \<Longrightarrow> T j = None \<Longrightarrow> base_move_construct im other = (im1, other1) \<Longrightarrow>
    sv_run y w0 (T(i \<mapsto> other1, j \<mapsto> im1)) rx w"
| sv_assigns: "sv_run y w0 T rx w \<Longrightarrow> T i = Some other \<Longrightarrow> T j = Some im \<Longrightarrow> i \<noteq> j \<Longrightarrow>
    base_move_assign y im other rx w = Some (im1, other1, rx1, w1) \<Longrightarrow> sv_run y w0 (T(i \<mapsto> other1, j \<mapsto> im1)) rx1 w1"
| sv_controls: "sv_run y w0 T rx w \<Longrightarrow> T i = Some im \<Longrightarrow> sv_is_open im \<Longrightarrow>
    control_step y (si_socket im) c (si_state im) w = (r, st, w1) \<Longrightarrow> sv_run y w0 (T(i \<mapsto> im\<lparr>si_state := st\<rparr>)) rx w1"
| sv_cancels: "sv_run y w0 T rx w \<Longrightarrow> T i = Some im \<Longrightarrow> sv_cancel im rx = Some (ec, rx1) \<Longrightarrow> sv_run y w0 T rx1 w"

lemma sv_inv_make: "sv_inv opened nb (opened w) 0 (\<lambda>_. None) rx_make w []"
  using rx_inv_make by (auto simp: sv_inv_def open_in_def)

lemma sv_run_inv: "sv_run y w0 T rx w \<Longrightarrow> fd_table y opened nb \<Longrightarrow> \<exists>n hs. sv_inv opened nb (opened w0) n T rx w hs"
proof (induction rule: sv_run.induct)
  case sv_new
  then show ?case using sv_inv_make [of opened nb w0] by blast
next
  case (sv_make T rx w i im)
  then obtain n hs where v: "sv_inv opened nb (opened w0) n T rx w hs" by blast
  have "sv_inv opened nb (opened w0) n (T(i \<mapsto> sv_construct im)) rx w hs"
    by (rule inv_idle [OF v]) (use sv_make.hyps(2) in \<open>auto simp: open_in_def keeps_table_def sv_construct_def sv_is_open_def\<close>)
  then show ?case by blast
next
  case (sv_opens T rx w i im new af type protocol ec im1 rx1 w1)
  then obtain n hs where v: "sv_inv opened nb (opened w0) n T rx w hs" by blast
  then have "live_states rx = hs" using live_states_inv by (auto simp: sv_inv_def)
  then show ?case using open_inv [OF sv_opens.prems v sv_opens.hyps(2,3) _ sv_opens.hyps(5)] sv_opens.hyps(4) by (simp del: fun_upd_apply)
next
  case (sv_accepts T rx w j acc i im new type ec im1 rx1 w1)
  then obtain n hs where v: "sv_inv opened nb (opened w0) n T rx w hs" by blast
  then have "live_states rx = hs" using live_states_inv by (auto simp: sv_inv_def)
  then show ?case using accept_inv [OF sv_accepts.prems v sv_accepts.hyps(3,4) _ sv_accepts.hyps(6)] sv_accepts.hyps(5) by (simp del: fun_upd_apply)
next
  case (sv_closes T rx w i im ec im1 rx1 w1)
  then obtain n hs where v: "sv_inv opened nb (opened w0) n T rx w hs" by blast
  show ?case using close_inv [OF sv_closes.prems v sv_closes.hyps(2)] sv_closes.hyps(3) by (auto simp del: fun_upd_apply)
next
  case (sv_destroys T rx w i im im1 rx1 w1)
  then obtain n hs where v: "sv_inv opened nb (opened w0) n T rx w hs" by blast
  show ?case using destroy_inv [OF sv_destroys.prems v sv_destroys.hyps(2)] sv_destroys.hyps(3) by (auto simp del: fun_upd_apply)
next
  case (sv_moves T rx w i other j im im1 other1)
  then obtain n hs where v: "sv_inv opened nb (opened w0) n T rx w hs" by blast
  have "i \<noteq> j" "j \<notin> open_in T" using sv_moves.hyps(2,3) by (auto simp: open_in_def)
  then show ?case using inv_move [OF v sv_moves.hyps(2) _ _ sv_moves.hyps(4)] by blast
next
  case (sv_assigns T rx w i other j im im1 other1 rx1 w1)
  then obtain n hs where v: "sv_inv opened nb (opened w0) n T rx w hs" by blast
  obtain im2 rx2 w2 hs' where d: "sv_destroy y im rx w = Some (im2, rx2, w2)" "sv_inv opened nb (opened w0) n (T(j := None)) rx2 w2 hs'"
    using destroy_inv [OF sv_assigns.prems v sv_assigns.hyps(3)] by blast
  have m: "base_move_construct im2 other = (im1, other1)" "rx1 = rx2" "w1 = w2"
    using sv_assigns.hyps(5) d(1) by (auto simp: base_move_assign_def split: prod.splits)
  have "sv_inv opened nb (opened w0) n ((T(j := None))(i \<mapsto> other1, j \<mapsto> im1)) rx2 w2 hs'"
    by (rule inv_move [OF d(2) _ sv_assigns.hyps(4) _ m(1)]) (use sv_assigns.hyps(2,4) in \<open>auto simp: open_in_def\<close>)
  moreover have "(T(j := None))(i \<mapsto> other1, j \<mapsto> im1) = T(i \<mapsto> other1, j \<mapsto> im1)" using sv_assigns.hyps(4) by (auto simp: fun_upd_def)
  ultimately show ?case unfolding m by metis
next
  case (sv_controls T rx w i im c r st w1)
  then obtain n hs where v: "sv_inv opened nb (opened w0) n T rx w hs" by blast
  show ?case using control_inv [OF sv_controls.prems v sv_controls.hyps(2-4)] by blast
next
  case (sv_cancels T rx w i im ec rx1)
  then obtain n hs where v: "sv_inv opened nb (opened w0) n T rx w hs" by blast
  show ?case using cancel_keeps [OF v sv_cancels.hyps(2,3)] by blast
qed

subsection \<open>Accepting a connection\<close>

text \<open>What the calls of \<open>accept\<close> on the descriptor \<open>l\<close> will find: a connection, for the error 0, or an error, and the error of the
  call of \<open>poll\<close> that may follow.\<close>

definition scripted :: "('s, 'a) sys \<Rightarrow> int \<Rightarrow> ('s \<Rightarrow> (errno \<times> errno) list) \<Rightarrow> bool" where
  "scripted y l q \<longleftrightarrow> (\<forall>w e p rest. q w = (e, p) # rest \<longrightarrow> (\<exists>fd a w1 w2. sys_accept y l w = ((fd, a, e), w1) \<and>
     (fd \<noteq> invalid_socket \<longleftrightarrow> e = 0) \<and> q w1 = rest \<and> sys_poll_in y l (- 1) w1 = ((if p = 0 then 1 else - 1, p), w2) \<and> q w2 = rest))"

lemma scriptedD:
  assumes "scripted y l q" "q w = (e, p) # rest"
  shows "\<exists>fd a w1 w2. sys_accept y l w = ((fd, a, e), w1) \<and> (fd \<noteq> invalid_socket \<longleftrightarrow> e = 0) \<and> q w1 = rest \<and>
    sys_poll_in y l (- 1) w1 = ((if p = 0 then 1 else - 1, p), w2) \<and> q w2 = rest"
  by (rule assms(1) [unfolded scripted_def, rule_format, OF assms(2)])

text \<open>Failures after which \<open>accept\<close> waits for the next connection.\<close>

definition passing :: "state_type \<Rightarrow> errno \<times> errno \<Rightarrow> bool" where
  "passing st x \<longleftrightarrow> (case x of (e, p) \<Rightarrow> p = 0 \<and>
     (e = EAGAIN \<and> st AND user_set_non_blocking = 0 \<or> (e = ECONNABORTED \<or> e = EPROTO) \<and> st AND enable_connection_aborted = 0))"

lemma sync_accept_first:
  assumes "scripted y l q" "l \<noteq> invalid_socket" "q w = skipped @ (0, p) # rest" "\<forall>x \<in> set skipped. passing st x"
  shows "\<exists>fd w1. so_sync_accept y l st w = Some ((fd, 0), w1) \<and> fd \<noteq> invalid_socket \<and> q w1 = rest"
  using assms(3,4)
proof (induction skipped arbitrary: w)
  case Nil
  obtain fd a w1 where "sys_accept y l w = ((fd, a, 0), w1)" "fd \<noteq> invalid_socket" "q w1 = rest"
    using scriptedD [OF assms(1), of w 0 p rest] Nil by auto
  then show ?case using assms(2) by (subst so_sync_accept.simps) (simp add: so_accept_def)
next
  case (Cons x skipped)
  obtain e where x: "x = (e, 0)" "e \<noteq> 0"
    "e = EAGAIN \<and> st AND user_set_non_blocking = 0 \<or> (e = ECONNABORTED \<or> e = EPROTO) \<and> st AND enable_connection_aborted = 0"
    using Cons.prems(2) by (cases x) (auto simp: passing_def EAGAIN_def ECONNABORTED_def EPROTO_def)
  have "q w = (e, 0) # skipped @ (0, p) # rest" using Cons.prems(1) x(1) by simp
  then obtain a w1 w2 where c: "sys_accept y l w = ((invalid_socket, a, e), w1)" "sys_poll_in y l (- 1) w1 = ((1, 0), w2)"
      "q w2 = skipped @ (0, p) # rest"
    using scriptedD [OF assms(1), of w e 0] x(2) by auto
  have "so_sync_accept y l st w = so_sync_accept y l st w2"
    by (subst so_sync_accept.simps) (use x(3) c assms(2) in \<open>auto simp: so_accept_def so_poll_read_def EAGAIN_def ECONNABORTED_def EPROTO_def\<close>)
  then show ?case using Cons.IH [OF c(3)] Cons.prems(2) by simp
qed

subsection \<open>The assumptions hold for the small kernel\<close>

lemma sk_fresh_new: "0 \<le> sk_fresh w" "sk_fresh w \<notin> set (sk_open w)" "sk_fresh w \<noteq> - 1" "sk_fresh (w\<lparr>sk_script := a, sk_poll := b\<rparr>) = sk_fresh w"
  using foldr_max [of 2 "sk_open w"] by (auto simp: sk_fresh_def)

lemma small_table: "fd_table small_kernel (\<lambda>w. set (sk_open w)) (\<lambda>s w. s \<in> set (sk_nb w))"
proof -
  have n: "new_descriptor (\<lambda>w. set (sk_open w)) (\<lambda>s w. s \<in> set (sk_nb w)) (sk_fresh w) w (sk_new (w\<lparr>sk_script := a, sk_poll := b\<rparr>))" for w a b
    using sk_fresh_new(1-3) [of w] by (auto simp: new_descriptor_def sk_new_def sk_fresh_new(4) invalid_socket_def)
  have "w\<lparr>sk_script := sk_script w, sk_poll := sk_poll w\<rparr> = w" for w :: small_state by simp
  with n have m: "new_descriptor (\<lambda>w. set (sk_open w)) (\<lambda>s w. s \<in> set (sk_nb w)) (sk_fresh w) w (sk_new w)" for w by metis
  show ?thesis unfolding fd_table_def using small_modes n m
    by (auto simp: small_kernel_def sk_ok_def keeps_table_def new_descriptor_def [of _ _ "- 1"] invalid_socket_def EAGAIN_def EBADF_def Let_def split: list.splits if_splits)
qed

lemma small_scripted: "scripted small_kernel l sk_script"
  by (auto simp: scripted_def small_kernel_def sk_new_def Let_def invalid_socket_def sk_fresh_new(3) split: if_splits)

subsection \<open>Properties\<close>

text \<open>C19: Socket objects own their descriptors. After any sequence of opening, accepting, closing, destroying, moving, changing modes
  and options and cancelling, in which any system call may fail, the open descriptors are those that were open
  before and exactly one for each open object: no descriptor leaks and none is shared. Each is in the blocking mode its object believes in and is
  known to the reactor under the object's own descriptor state. Closing an object always returns and closes its
  descriptor, even if the first attempt asks to try again.\<close>

theorem descriptors_owned:
  assumes "fd_table y opened nb" "sv_run y w0 T rx w"
  shows "inj_on (sock_of T) (open_in T) \<and> opened w = opened w0 \<union> sock_of T ` open_in T \<and> opened w0 \<inter> sock_of T ` open_in T = {} \<and>
    inj_on (data_of T) (open_in T) \<and> data_of T ` open_in T \<subseteq> set (live_states rx) \<and>
    (\<forall>i im. T i = Some im \<and> sv_is_open im \<longrightarrow> in_mode nb (si_socket im) (si_state im) w \<and> ds_descriptor (rx_data rx (si_data im)) = si_socket im) \<and>
    (\<forall>i im. T i = Some im \<longrightarrow> (\<exists>ec im1 rx1 w1. sv_close y im rx w = Some (ec, im1, rx1, w1) \<and> \<not> sv_is_open im1 \<and>
       opened w1 = (if sv_is_open im then opened w - {si_socket im} else opened w)))"
proof -
  obtain n hs where v: "sv_inv opened nb (opened w0) n T rx w hs" using sv_run_inv [OF assms(2,1)] by blast
  then have h: "live_states rx = hs" using live_states_inv by (auto simp: sv_inv_def)
  have "in_mode nb (si_socket im) (si_state im) w \<and> ds_descriptor (rx_data rx (si_data im)) = si_socket im" if "T i = Some im" "sv_is_open im" for i im
  proof -
    have "i \<in> open_in T" using that by (simp add: open_in_def)
    then show ?thesis using v that by (auto simp: sv_inv_def sock_of_def data_of_def)
  qed
  moreover have "\<exists>ec im1 rx1 w1. sv_close y im rx w = Some (ec, im1, rx1, w1) \<and> \<not> sv_is_open im1 \<and>
      opened w1 = (if sv_is_open im then opened w - {si_socket im} else opened w)" if "T i = Some im" for i im
    using close_inv [OF assms(1) v that] by blast
  ultimately show ?thesis using v unfolding sv_inv_def h by (auto split: if_splits)
qed

theorem descriptors_owned_witness:
  "\<exists>T rx w im ec im1 rx1 w1. sv_run small_kernel small_start T rx w \<and> T 1 = Some im \<and> si_socket im = 3 \<and> set (sk_nb w) = {3} \<and>
    sv_close small_kernel im rx w = Some (ec, im1, rx1, w1) \<and> \<not> sv_is_open im1 \<and> set (sk_open w1) = set (sk_open w) - {3}"
proof -
  let ?im = "sv_construct \<lparr>si_socket = 0, si_state = 0, si_data = 0\<rparr>"
  let ?T = "(\<lambda>_. None)(1 :: nat \<mapsto> ?im)"
  have 1: "sv_run small_kernel small_start ?T rx_make small_start" by (rule sv_make [OF sv_new]) simp
  obtain ec im1 rx1 w1 where o: "do_open small_kernel 2 SOCK_STREAM 0 7 ?im rx_make small_start = (ec, im1, rx1, w1)" by (metis prod_cases4)
  have e: "si_socket im1 = 3" "3 \<in> set (sk_open w1)" "sk_nb w1 = []"
    using o by (auto simp: do_open_def sv_construct_def sv_is_open_def so_socket_def small_kernel_def small_start_def sk_new_def sk_fresh_def
        invalid_socket_def register_descriptor_def allocate_descriptor_state_def pool_alloc_def Let_def split: prod.splits)
  have 2: "sv_run small_kernel small_start (?T(1 \<mapsto> im1)) rx1 w1"
    by (rule sv_opens [OF 1 _ _ _ o]) (auto simp: live_states_inv [OF rx_inv_make])
  obtain r st w2 where c: "control_step small_kernel (si_socket im1) (User_non_blocking True) (si_state im1) w1 = (r, st, w2)" by (metis prod_cases3)
  have 3: "sv_run small_kernel small_start (?T(1 \<mapsto> im1, 1 \<mapsto> im1\<lparr>si_state := st\<rparr>)) rx1 w2"
    by (rule sv_controls [OF 2 _ _ c]) (use e in \<open>simp_all add: sv_is_open_def invalid_socket_def\<close>)
  have "set (sk_nb w2) = {3}" using c e by (auto simp: set_user_non_blocking_def small_kernel_def invalid_socket_def split: if_splits)
  moreover have "\<exists>ec im2 rx2 w3. sv_close small_kernel (im1\<lparr>si_state := st\<rparr>) rx1 w2 = Some (ec, im2, rx2, w3) \<and> \<not> sv_is_open im2 \<and>
      set (sk_open w3) = set (sk_open w2) - {3}"
    using descriptors_owned [OF small_table 3, THEN conjunct2, THEN conjunct2, THEN conjunct2, THEN conjunct2, THEN conjunct2, THEN conjunct2,
        THEN spec [of _ 1], THEN spec [of _ "im1\<lparr>si_state := st\<rparr>"]] e by (simp add: sv_is_open_def invalid_socket_def)
  ultimately show ?thesis using 3 e
    by (intro exI [of _ "?T(1 \<mapsto> im1, 1 \<mapsto> im1\<lparr>si_state := st\<rparr>)"] exI [of _ rx1] exI [of _ w2] exI [of _ "im1\<lparr>si_state := st\<rparr>"]) simp
qed

text \<open>C20: Accepting skips what is not a connection. On a socket object that is not open, \<open>accept\<close> waits through any number of failures the
  user did not ask to see, aborted connections and spurious wake-ups, and takes the first connection: the object is then open with
  the descriptor of the connection, in blocking mode, registered with the reactor; if the registration fails, the error is
  returned, the connection is closed and the object stays closed.\<close>

theorem accept_connects:
  assumes f: "fd_table y opened nb" and q: "scripted y (si_socket acc) q" "sv_is_open acc"
    "q w = skipped @ (0, p) # rest" "\<forall>x \<in> set skipped. passing (si_state acc) x" and c: "\<not> sv_is_open peer"
  shows "\<exists>ec peer1 rx1 w1. sv_accept y SOCK_STREAM new acc peer rx w = Some (ec, peer1, rx1, w1) \<and>
    (if ec = 0 then sv_is_open peer1 \<and> si_socket peer1 \<notin> opened w \<and> opened w1 = insert (si_socket peer1) (opened w) \<and>
       si_state peer1 = stream_oriented OR possible_dup \<and> in_mode nb (si_socket peer1) (si_state peer1) w1 \<and>
       ds_descriptor (rx_data rx1 (si_data peer1)) = si_socket peer1
     else \<not> sv_is_open peer1 \<and> opened w1 = opened w)"
proof -
  obtain fd w1 where a: "so_sync_accept y (si_socket acc) (si_state acc) w = Some ((fd, 0), w1)" "fd \<noteq> invalid_socket"
    using sync_accept_first [OF q(1) _ q(3,4)] q(2) by (auto simp: sv_is_open_def)
  obtain err d rx1 w2 where g: "register_descriptor y new fd rx w1 = (err, d, rx1, w2)" by (metis prod_cases4)
  have "new_descriptor opened nb fd w w2"
    using new_descriptor_after [OF _ register_keeps [OF f g]] sync_accept_new [OF a(1) f] by simp
  then have n: "fd \<notin> opened w" "opened w2 = insert fd (opened w)" "\<not> nb fd w2" using a(2) by (simp_all add: new_descriptor_def)
  have d: "ds_descriptor (rx_data rx1 d) = fd" using g by (auto simp: register_descriptor_def upd_desc_def Let_def split: prod.splits)
  have h: "opened (holder_destroy y fd w2) = opened w" using holder_destroy_closes [OF f _ a(2), of w2] n by auto
  have t: "type_state SOCK_STREAM = stream_oriented" by (simp add: type_state_def)
  have m: "in_mode nb fd (stream_oriented OR possible_dup) w2" using n(3) type_state_mode(2) [of SOCK_STREAM] by (simp add: in_mode_def t)
  show ?thesis using a g c n d h t m by (cases "err = 0") (auto simp: sv_accept_def do_assign_def Let_def sv_is_open_def)
qed

theorem accept_connects_witness:
  "\<exists>ec peer1 rx1 w1. sv_accept small_kernel SOCK_STREAM 7 \<lparr>si_socket = 3, si_state = stream_oriented, si_data = 0\<rparr>
      \<lparr>si_socket = invalid_socket, si_state = 0, si_data = 0\<rparr> rx_make (small_start\<lparr>sk_open := [3]\<rparr>) = Some (ec, peer1, rx1, w1) \<and>
    (if ec = 0 then sv_is_open peer1 \<and> si_socket peer1 \<noteq> 3 \<and> set (sk_open w1) = {si_socket peer1, 3} else set (sk_open w1) = {3})"
proof -
  let ?acc = "\<lparr>si_socket = 3, si_state = stream_oriented, si_data = 0\<rparr>" and ?peer = "\<lparr>si_socket = invalid_socket, si_state = 0, si_data = 0\<rparr>"
  have q: "sk_script (small_start\<lparr>sk_open := [3]\<rparr>) = [(ECONNABORTED, 0), (EAGAIN, 0)] @ (0, 0) # []" by (simp add: small_start_def)
  have p: "\<forall>x \<in> set [(ECONNABORTED, 0), (EAGAIN, 0)]. passing (si_state ?acc) x"
    by (auto simp: passing_def stream_oriented_def user_set_non_blocking_def enable_connection_aborted_def EAGAIN_def ECONNABORTED_def)
  have o: "sv_is_open ?acc" "\<not> sv_is_open ?peer" by (simp_all add: sv_is_open_def invalid_socket_def)
  show ?thesis using accept_connects [OF small_table small_scripted o(1) q p o(2), of 7 rx_make]
    by (elim exE conjE) (intro exI conjI, assumption, auto split: if_splits)
qed

text \<open>A failed registration costs a descriptor state. If the reactor cannot register the descriptor of a new socket, \<open>open\<close> returns the error, closes the
  descriptor and leaves the object closed; but the descriptor state stays in use, and neither closing nor destroying the
  object gives it back.\<close>

theorem failed_registration_lost:
  assumes f: "fd_table y opened nb" and v: "sv_run y w0 T rx w" and t: "T i = Some im" "\<not> sv_is_open im" "new \<noteq> 0" "new \<notin> set (live_states rx)"
    and s: "so_socket y af type protocol w = ((s, e), w1)" "s \<noteq> invalid_socket" and g: "register_descriptor y new s rx w1 = (err, d, rx1, w2)" "err \<noteq> 0"
  shows "\<exists>im1 w3. do_open y af type protocol new im rx w = (err, im1, rx1, w3) \<and> \<not> sv_is_open im1 \<and> opened w3 = opened w \<and>
    live_states rx1 = d # live_states rx \<and> d \<notin> set (live_states rx) \<and>
    sv_destroy y im1 rx1 w3 = Some (im1, rx1, w3) \<and> sv_close y im1 rx1 w3 = Some (0, sv_construct im1, rx1, w3)"
proof -
  obtain n hs where i: "sv_inv opened nb (opened w0) n T rx w hs" using sv_run_inv [OF v f] by blast
  then obtain A os started where r: "rx_inv rx hs A os started" by (auto simp: sv_inv_def)
  note h = live_states_inv [OF r]
  have "new \<notin> set hs" using t(4) h by simp
  note j = register_inv [OF r t(3) this g(1)]
  have nd: "new_descriptor opened nb s w w1" using s(1) fd_tableD(2) [OF f, of af type protocol w] by (auto simp: so_socket_def split: prod.splits)
  have "new_descriptor opened nb s w w2" by (rule new_descriptor_after [OF nd register_keeps [OF f g(1)]])
  then have "opened (holder_destroy y s w2) = opened w" using holder_destroy_closes [OF f _ s(2), of w2] s(2) by (auto simp: new_descriptor_def)
  moreover have "do_open y af type protocol new im rx w = (err, im\<lparr>si_data := d\<rparr>, rx1, holder_destroy y s w2)"
    using t(2) s g by (simp add: do_open_def Let_def)
  ultimately show ?thesis using t(2) h live_states_inv [OF j(1)] j(2)
    by (simp add: sv_is_open_def sv_destroy_def sv_close_def so_close_def)
qed

end
