(* ===== verification/Timer_Queue.thy ===== *)
theory Timer_Queue
  imports Op_Queue "HOL-Library.Multiset"
begin

text \<open>
  The timer queue of the vendored asio (\<^verbatim>\<open>asio/detail/timer_queue.hpp\<close>): the timers of a reactor in a binary
  heap by expiry time, in which every timer knows its own position, and in a doubly linked list;
  every timer has a queue of waiting operations.

  The state is the queue object with the memory it works on: the data of the timers by address (0 is
  the null pointer), the links of the operations, and the operations whose \<open>ec_\<close> is
  \<open>operation_aborted\<close>. Times are of a linear order, \<open>less_than\<close> of the traits of a \<open>std::chrono\<close> clock
  is its \<open><\<close>, and no time of such a clock is infinite.
\<close>

subsection \<open>State\<close>

record per_timer_data =
  pt_ops :: op_queue
  pt_heap_index :: nat
  pt_next :: nat
  pt_prev :: nat

record 't heap_entry =
  he_time :: 't
  he_timer :: nat

record 't timer_queue =
  tq_timers :: nat
  tq_heap :: "'t heap_entry list"
  tq_data :: "nat \<Rightarrow> per_timer_data"
  tq_links :: links
  tq_aborted :: "nat \<Rightarrow> bool"

text \<open>A new timer; \<open>heap_index_\<close> is not initialised, and read only of timers in the list.\<close>

definition per_timer_make :: "nat \<Rightarrow> per_timer_data" where
  "per_timer_make index = \<lparr>pt_ops = oq_make, pt_heap_index = index, pt_next = 0, pt_prev = 0\<rparr>"

text \<open>A new queue, in a memory of new timers and unlinked operations.\<close>

definition tq_make :: "(nat \<Rightarrow> nat) \<Rightarrow> 't timer_queue" where
  "tq_make index = \<lparr>tq_timers = 0, tq_heap = [], tq_data = (\<lambda>t. per_timer_make (index t)), tq_links = (\<lambda>_. 0), tq_aborted = (\<lambda>_. False)\<rparr>"

definition is_positive_infinity :: "'t::linorder \<Rightarrow> bool" where
  "is_positive_infinity t \<longleftrightarrow> False"

definition upd_timer :: "nat \<Rightarrow> (per_timer_data \<Rightarrow> per_timer_data) \<Rightarrow> 't timer_queue \<Rightarrow> 't timer_queue" where
  "upd_timer t f w = w\<lparr>tq_data := (tq_data w)(t := f (tq_data w t))\<rparr>"

definition tq_empty :: "'t timer_queue \<Rightarrow> bool" where
  "tq_empty w \<longleftrightarrow> tq_timers w = 0"

subsection \<open>The heap\<close>

abbreviation htime :: "'t timer_queue \<Rightarrow> nat \<Rightarrow> 't" where
  "htime w i \<equiv> he_time (tq_heap w ! i)"

abbreviation htimer :: "'t timer_queue \<Rightarrow> nat \<Rightarrow> nat" where
  "htimer w i \<equiv> he_timer (tq_heap w ! i)"

definition swap_list :: "nat \<Rightarrow> nat \<Rightarrow> 'a list \<Rightarrow> 'a list" where
  "swap_list i j T = T[i := T ! j, j := T ! i]"

lemma swap_list_nth: "i < length T \<Longrightarrow> j < length T \<Longrightarrow> k < length T \<Longrightarrow>
    swap_list i j T ! k = (if k = i then T ! j else if k = j then T ! i else T ! k)"
  by (auto simp: swap_list_def nth_list_update)

lemma swap_list_length [simp]: "length (swap_list i j T) = length T"
  by (simp add: swap_list_def)

lemma map_swap_list [simp]: "i < length T \<Longrightarrow> j < length T \<Longrightarrow> map f (swap_list i j T) = swap_list i j (map f T)"
  by (simp add: swap_list_def map_update)

definition swap_heap :: "nat \<Rightarrow> nat \<Rightarrow> 't timer_queue \<Rightarrow> 't timer_queue" where
  "swap_heap index1 index2 w0 = (let w = w0\<lparr>tq_heap := swap_list index1 index2 (tq_heap w0)\<rparr>
     in upd_timer (htimer w index2) (\<lambda>d. d\<lparr>pt_heap_index := index2\<rparr>)
          (upd_timer (htimer w index1) (\<lambda>d. d\<lparr>pt_heap_index := index1\<rparr>) w))"

lemma swap_heap_heap [simp]: "tq_heap (swap_heap i j w) = swap_list i j (tq_heap w)"
  by (simp add: swap_heap_def upd_timer_def Let_def)

function up_heap :: "nat \<Rightarrow> 't::linorder timer_queue \<Rightarrow> 't timer_queue" where
  "up_heap index w = (if index > 0
     then let parent = (index - 1) div 2 in
       if \<not> htime w index < htime w parent then w else up_heap parent (swap_heap index parent w)
     else w)"
  by auto
termination by (relation "measure fst") auto

definition min_child_of :: "'t::linorder timer_queue \<Rightarrow> nat \<Rightarrow> nat" where
  "min_child_of w child = (if child + 1 = length (tq_heap w) \<or> htime w child < htime w (child + 1) then child else child + 1)"

function down_heap :: "nat \<Rightarrow> 't::linorder timer_queue \<Rightarrow> 't timer_queue" where
  "down_heap index w = (let child = index * 2 + 1 in
     if child < length (tq_heap w)
     then let min_child = min_child_of w child in
       if htime w index < htime w min_child then w else down_heap min_child (swap_heap index min_child w)
     else w)"
  by auto
termination by (relation "measure (\<lambda>(i, w). length (tq_heap w) - i)") (auto simp: min_child_of_def)

declare up_heap.simps [simp del] down_heap.simps [simp del]

subsection \<open>Operations\<close>

definition pop_heap :: "'t timer_queue \<Rightarrow> 't timer_queue" where
  "pop_heap w = w\<lparr>tq_heap := butlast (tq_heap w)\<rparr>"

definition heap_remove :: "nat \<Rightarrow> 't::linorder timer_queue \<Rightarrow> 't timer_queue" where
  "heap_remove index w = (if tq_heap w \<noteq> [] \<and> index < length (tq_heap w)
     then if index = length (tq_heap w) - 1 then pop_heap w
       else let w1 = pop_heap (swap_heap index (length (tq_heap w) - 1) w) in
         if index > 0 \<and> htime w1 index < htime w1 ((index - 1) div 2) then up_heap index w1 else down_heap index w1
     else w)"

definition list_remove :: "nat \<Rightarrow> 't timer_queue \<Rightarrow> 't timer_queue" where
  "list_remove t w0 = (let
       w1 = (if tq_timers w0 = t then w0\<lparr>tq_timers := pt_next (tq_data w0 t)\<rparr> else w0);
       w2 = (if pt_prev (tq_data w1 t) \<noteq> 0 then upd_timer (pt_prev (tq_data w1 t)) (\<lambda>d. d\<lparr>pt_next := pt_next (tq_data w1 t)\<rparr>) w1 else w1);
       w3 = (if pt_next (tq_data w2 t) \<noteq> 0 then upd_timer (pt_next (tq_data w2 t)) (\<lambda>d. d\<lparr>pt_prev := pt_prev (tq_data w2 t)\<rparr>) w2 else w2)
     in upd_timer t (\<lambda>d. d\<lparr>pt_next := 0, pt_prev := 0\<rparr>) w3)"

definition remove_timer :: "nat \<Rightarrow> 't::linorder timer_queue \<Rightarrow> 't timer_queue" where
  "remove_timer t w = list_remove t (heap_remove (pt_heap_index (tq_data w t)) w)"

definition heap_insert :: "'t::linorder \<Rightarrow> nat \<Rightarrow> 't timer_queue \<Rightarrow> 't timer_queue" where
  "heap_insert time t w = (if is_positive_infinity time then upd_timer t (\<lambda>d. d\<lparr>pt_heap_index := size_max - 1\<rparr>) w
     else let
       w1 = upd_timer t (\<lambda>d. d\<lparr>pt_heap_index := length (tq_heap w)\<rparr>) w;
       w2 = w1\<lparr>tq_heap := tq_heap w1 @ [\<lparr>he_time = time, he_timer = t\<rparr>]\<rparr>
     in up_heap (length (tq_heap w2) - 1) w2)"

definition list_insert :: "nat \<Rightarrow> 't timer_queue \<Rightarrow> 't timer_queue" where
  "list_insert t w = (let
       w1 = upd_timer t (\<lambda>d. d\<lparr>pt_next := tq_timers w, pt_prev := 0\<rparr>) w;
       w2 = (if tq_timers w1 \<noteq> 0 then upd_timer (tq_timers w1) (\<lambda>d. d\<lparr>pt_prev := t\<rparr>) w1 else w1)
     in w2\<lparr>tq_timers := t\<rparr>)"

definition timer_push :: "nat \<Rightarrow> nat \<Rightarrow> 't timer_queue \<Rightarrow> 't timer_queue" where
  "timer_push t h w = (case oq_push (tq_links w) (pt_ops (tq_data w t)) h of (l, q) \<Rightarrow>
     upd_timer t (\<lambda>d. d\<lparr>pt_ops := q\<rparr>) (w\<lparr>tq_links := l\<rparr>))"

definition enqueue_timer :: "'t::linorder \<Rightarrow> nat \<Rightarrow> nat \<Rightarrow> 't timer_queue \<Rightarrow> 't timer_queue \<times> bool" where
  "enqueue_timer time t h w0 = (let
       w1 = (if pt_prev (tq_data w0 t) = 0 \<and> t \<noteq> tq_timers w0 then list_insert t (heap_insert time t w0) else w0);
       w2 = timer_push t h w1
     in (w2, pt_heap_index (tq_data w2 t) = 0 \<and> oq_front (pt_ops (tq_data w2 t)) = h))"

text \<open>\<open>ops.push(timer->op_queue_)\<close>\<close>

definition push_ops :: "nat \<Rightarrow> 't timer_queue \<Rightarrow> op_queue \<Rightarrow> 't timer_queue \<times> op_queue" where
  "push_ops t w q = (case oq_push_all (tq_links w) q (pt_ops (tq_data w t)) of (l, q', r) \<Rightarrow>
     (upd_timer t (\<lambda>d. d\<lparr>pt_ops := r\<rparr>) (w\<lparr>tq_links := l\<rparr>), q'))"

text \<open>The loops of the next three operations follow pointers or positions stored in the timers; that
  they end is proved, not built in.\<close>

partial_function (option) ready_loop :: "'t::linorder \<Rightarrow> 't timer_queue \<Rightarrow> op_queue \<Rightarrow> ('t timer_queue \<times> op_queue) option" where
  "ready_loop now w q = (if tq_heap w \<noteq> [] \<and> \<not> now < htime w 0
     then let t = htimer w 0 in case push_ops t w q of (w1, q1) \<Rightarrow> ready_loop now (remove_timer t w1) q1
     else Some (w, q))"

definition get_ready_timers :: "'t::linorder \<Rightarrow> 't timer_queue \<Rightarrow> op_queue \<Rightarrow> ('t timer_queue \<times> op_queue) option" where
  "get_ready_timers now w q = (if tq_heap w \<noteq> [] then ready_loop now w q else Some (w, q))"

partial_function (option) all_loop :: "'t timer_queue \<Rightarrow> op_queue \<Rightarrow> ('t timer_queue \<times> op_queue) option" where
  "all_loop w q = (if tq_timers w \<noteq> 0
     then let t = tq_timers w in case push_ops t (w\<lparr>tq_timers := pt_next (tq_data w t)\<rparr>) q of (w1, q1) \<Rightarrow>
       all_loop (upd_timer t (\<lambda>d. d\<lparr>pt_next := 0, pt_prev := 0\<rparr>) w1) q1
     else Some (w, q))"

definition get_all_timers :: "'t timer_queue \<Rightarrow> op_queue \<Rightarrow> ('t timer_queue \<times> op_queue) option" where
  "get_all_timers w q = Option.bind (all_loop w q) (\<lambda>(w1, q1). Some (w1\<lparr>tq_heap := []\<rparr>, q1))"

text \<open>One round of the loop of \<open>cancel_timer\<close>: the operation \<open>h\<close> moves from the timer to \<open>ops\<close>.\<close>

definition cancel_op :: "nat \<Rightarrow> nat \<Rightarrow> 't timer_queue \<Rightarrow> op_queue \<Rightarrow> 't timer_queue \<times> op_queue" where
  "cancel_op t h w q = (case oq_pop (tq_links w) (pt_ops (tq_data w t)) of (l1, r) \<Rightarrow>
     case oq_push l1 q h of (l2, q1) \<Rightarrow>
       (upd_timer t (\<lambda>d. d\<lparr>pt_ops := r\<rparr>) (w\<lparr>tq_links := l2, tq_aborted := (tq_aborted w)(h := True)\<rparr>), q1))"

partial_function (option) cancel_loop ::
  "nat \<Rightarrow> nat \<Rightarrow> 't timer_queue \<Rightarrow> op_queue \<Rightarrow> nat \<Rightarrow> ('t timer_queue \<times> op_queue \<times> nat) option" where
  "cancel_loop t max_cancelled w q num_cancelled = (let
       h = (if num_cancelled \<noteq> max_cancelled then oq_front (pt_ops (tq_data w t)) else 0)
     in if h \<noteq> 0 then case cancel_op t h w q of (w1, q1) \<Rightarrow> cancel_loop t max_cancelled w1 q1 (num_cancelled + 1)
        else Some (w, q, num_cancelled))"

definition cancel_timer :: "nat \<Rightarrow> nat \<Rightarrow> 't::linorder timer_queue \<Rightarrow> op_queue \<Rightarrow> ('t timer_queue \<times> op_queue \<times> nat) option" where
  "cancel_timer t max_cancelled w q = (if pt_prev (tq_data w t) \<noteq> 0 \<or> t = tq_timers w
     then Option.bind (cancel_loop t max_cancelled w q 0) (\<lambda>(w1, q1, n).
       Some (if oq_empty (pt_ops (tq_data w1 t)) then remove_timer t w1 else w1, q1, n))
     else Some (w, q, 0))"

subsection \<open>Sifting keeps the order of the heap\<close>

definition par :: "nat \<Rightarrow> nat" where
  "par i = (i - 1) div 2"

definition heap_ord :: "'t::linorder list \<Rightarrow> bool" where
  "heap_ord T \<longleftrightarrow> (\<forall>k<length T. 0 < k \<longrightarrow> T ! par k \<le> T ! k)"

text \<open>Ordered except between \<open>i\<close> and its parent, or except between \<open>i\<close> and its children.\<close>

definition up_ok :: "'t::linorder list \<Rightarrow> nat \<Rightarrow> bool" where
  "up_ok T i \<longleftrightarrow> i < length T \<and> (\<forall>k<length T. 0 < k \<longrightarrow> k \<noteq> i \<longrightarrow> T ! par k \<le> T ! k) \<and>
     (\<forall>k<length T. 0 < k \<longrightarrow> par k = i \<longrightarrow> 0 < i \<longrightarrow> T ! par i \<le> T ! k)"

definition down_ok :: "'t::linorder list \<Rightarrow> nat \<Rightarrow> bool" where
  "down_ok T i \<longleftrightarrow> i < length T \<and> (\<forall>k<length T. 0 < k \<longrightarrow> par k \<noteq> i \<longrightarrow> T ! par k \<le> T ! k) \<and>
     (\<forall>k<length T. 0 < k \<longrightarrow> par k = i \<longrightarrow> 0 < i \<longrightarrow> T ! par i \<le> T ! k)"

lemma par_less: "0 < i \<Longrightarrow> par i < i"
  by (auto simp: par_def)

lemma par_children: "0 < k \<Longrightarrow> par k = i \<longleftrightarrow> k = 2 * i + 1 \<or> k = 2 * i + 2"
  by (auto simp: par_def)

lemma up_ok_swap:
  assumes "up_ok T i" "0 < i" "T ! i < T ! par i"
  shows "up_ok (swap_list i (par i) T) (par i)"
proof -
  have i: "i < length T" "par i < i" using assms par_less by (auto simp: up_ok_def)
  note e = assms(1) [unfolded up_ok_def]
  have n: "swap_list i (par i) T ! k = (if k = i then T ! par i else if k = par i then T ! i else T ! k)" if "k < length T" for k
    using swap_list_nth [of i T "par i" k] that i by simp
  have pl: "par k < length T" if "k < length T" for k using that by (auto simp: par_def)
  have 1: "swap_list i (par i) T ! par k \<le> swap_list i (par i) T ! k" if "k < length T" "0 < k" "k \<noteq> par i" for k
  proof -
    consider "k = i" | "k \<noteq> i" "par k = par i" | "k \<noteq> i" "par k = i" | "k \<noteq> i" "par k \<noteq> i" "par k \<noteq> par i" by blast
    then show ?thesis
    proof cases
      case 2
      then have "T ! par i \<le> T ! k" using e that by metis
      then show ?thesis using 2 n [OF that(1)] n [OF pl [OF that(1)]] that assms(3) i by simp
    next
      case 3
      then have "T ! par i \<le> T ! k" using e that assms(2) by metis
      then show ?thesis using 3 n [OF that(1)] n [OF pl [OF that(1)]] that i by simp
    next
      case 4
      then have "T ! par k \<le> T ! k" using e that by metis
      then show ?thesis using 4 n [OF that(1)] n [OF pl [OF that(1)]] that by simp
    qed (use n [OF that(1)] n [OF pl [OF that(1)]] that assms(3) i in simp)
  qed
  have 2: "swap_list i (par i) T ! par (par i) \<le> swap_list i (par i) T ! k"
    if "k < length T" "0 < k" "par k = par i" "0 < par i" for k
  proof -
    have p: "par (par i) < par i" using par_less that(4) .
    have "T ! par (par i) \<le> T ! par i" using e that(4) i by (metis nat_neq_iff order_less_trans)
    moreover have "k \<noteq> i \<Longrightarrow> T ! par i \<le> T ! k" using e that by metis
    moreover have "k \<noteq> par i" using par_less [OF that(2)] that(3) by simp
    ultimately show ?thesis using n [OF that(1)] n [of "par (par i)"] p i by auto
  qed
  show ?thesis using 1 2 i by (simp add: up_ok_def)
qed

lemma up_ok_stop: "up_ok T i \<Longrightarrow> i = 0 \<or> \<not> T ! i < T ! par i \<Longrightarrow> heap_ord T"
  unfolding up_ok_def heap_ord_def by (metis leI less_irrefl)

lemma down_ok_swap:
  assumes "down_ok T i" "0 < m" "m < length T" "par m = i" "T ! m \<le> T ! i"
    and "\<And>k. k < length T \<Longrightarrow> 0 < k \<Longrightarrow> par k = i \<Longrightarrow> T ! m \<le> T ! k"
  shows "down_ok (swap_list i m T) m"
proof -
  have i: "i < length T" "i < m" using assms(1,2,4) par_less by (auto simp: down_ok_def)
  note e = assms(1) [unfolded down_ok_def]
  have n: "swap_list i m T ! k = (if k = i then T ! m else if k = m then T ! i else T ! k)" if "k < length T" for k
    using swap_list_nth [of i T m k] that i assms(3) by simp
  have pl: "par k < length T" if "k < length T" for k using that by (auto simp: par_def)
  have 1: "swap_list i m T ! par k \<le> swap_list i m T ! k" if "k < length T" "0 < k" "par k \<noteq> m" for k
  proof -
    consider "par k = i" | "k = i" "par k \<noteq> i" | "k \<noteq> i" "par k \<noteq> i" by blast
    then show ?thesis
    proof cases
      case 1
      then have "k \<noteq> i" using par_less [OF that(2)] by simp
      then show ?thesis using 1 n [OF that(1)] n [OF pl [OF that(1)]] assms(5) assms(6) [OF that(1,2) 1] by simp
    next
      case 2
      then have "T ! par i \<le> T ! m" using e assms(2,3,4) that(2) by metis
      then show ?thesis using 2 n [OF that(1)] n [OF pl [OF that(1)]] that(3) i by simp
    next
      case 3
      then have "T ! par k \<le> T ! k" "k \<noteq> m" using e that assms(4) by metis+
      then show ?thesis using 3 n [OF that(1)] n [OF pl [OF that(1)]] that by simp
    qed
  qed
  have 2: "swap_list i m T ! par m \<le> swap_list i m T ! k" if "k < length T" "0 < k" "par k = m" for k
  proof -
    have "m < k" using par_less [OF that(2)] that(3) by simp
    moreover have "T ! m \<le> T ! k" using e that i by (metis less_irrefl)
    ultimately show ?thesis using n [OF that(1)] n [OF i(1)] assms(4) i by simp
  qed
  show ?thesis using 1 2 assms(3) by (simp add: down_ok_def)
qed

lemma heap_root: "heap_ord T \<Longrightarrow> k < length T \<Longrightarrow> T ! 0 \<le> T ! k"
proof (induction k rule: less_induct)
  case (less k)
  show ?case
  proof (cases "k = 0")
    case False
    then have "T ! par k \<le> T ! k" "par k < k" using less.prems par_less by (auto simp: heap_ord_def)
    then show ?thesis using less.IH [of "par k"] less.prems by simp
  qed simp
qed

subsection \<open>The positions the timers know\<close>

abbreviation times :: "'t timer_queue \<Rightarrow> 't list" where
  "times w \<equiv> map he_time (tq_heap w)"

abbreviation timers :: "'t timer_queue \<Rightarrow> nat list" where
  "timers w \<equiv> map he_timer (tq_heap w)"

definition idx_ok :: "'t timer_queue \<Rightarrow> bool" where
  "idx_ok w \<longleftrightarrow> distinct (timers w) \<and> (\<forall>i<length (tq_heap w). pt_heap_index (tq_data w (htimer w i)) = i)"

lemma idx_inj: "idx_ok w \<Longrightarrow> i < length (tq_heap w) \<Longrightarrow> j < length (tq_heap w) \<Longrightarrow> htimer w i = htimer w j \<longleftrightarrow> i = j"
  by (metis idx_ok_def)

text \<open>Everything but the heap and the positions is unchanged.\<close>

definition beside :: "'t timer_queue \<Rightarrow> 't timer_queue \<Rightarrow> bool" where
  "beside w w' \<longleftrightarrow> tq_timers w' = tq_timers w \<and> tq_links w' = tq_links w \<and> tq_aborted w' = tq_aborted w \<and>
     (\<forall>t. pt_ops (tq_data w' t) = pt_ops (tq_data w t) \<and> pt_next (tq_data w' t) = pt_next (tq_data w t) \<and>
        pt_prev (tq_data w' t) = pt_prev (tq_data w t))"

definition sifted :: "'t timer_queue \<Rightarrow> 't timer_queue \<Rightarrow> bool" where
  "sifted w w' \<longleftrightarrow> beside w w' \<and> mset (tq_heap w') = mset (tq_heap w) \<and> idx_ok w'"

lemma beside_refl [simp]: "beside w w"
  by (simp add: beside_def)

lemma beside_trans: "beside w w' \<Longrightarrow> beside w' w'' \<Longrightarrow> beside w w''"
  by (simp add: beside_def)

lemma sifted_trans: "sifted w w' \<Longrightarrow> sifted w' w'' \<Longrightarrow> sifted w w''"
  by (auto simp: sifted_def intro: beside_trans)

lemma swap_heap_data: "tq_data (swap_heap i j w) = (let h = swap_list i j (tq_heap w);
    d = (tq_data w)(he_timer (h ! i) := (tq_data w (he_timer (h ! i)))\<lparr>pt_heap_index := i\<rparr>) in
    d(he_timer (h ! j) := (d (he_timer (h ! j)))\<lparr>pt_heap_index := j\<rparr>))"
  by (simp add: swap_heap_def upd_timer_def Let_def)

lemma swap_heap_sifted:
  assumes "idx_ok w" "i < length (tq_heap w)" "j < length (tq_heap w)"
  shows "sifted w (swap_heap i j w)"
proof -
  let ?h = "swap_list i j (tq_heap w)"
  have m: "mset ?h = mset (tq_heap w)" using assms(2,3) by (simp add: swap_list_def mset_swap)
  have d: "distinct (map he_timer ?h)"
    using assms distinct_swap [of i "timers w" j] by (simp add: swap_list_def map_update idx_ok_def)
  have "pt_heap_index (tq_data (swap_heap i j w) (he_timer (?h ! k))) = k" if k: "k < length ?h" for k
  proof -
    have inj: "he_timer (?h ! k) = he_timer (?h ! l) \<longleftrightarrow> k = l" if "l < length ?h" for l
      using nth_eq_iff_index_eq [OF d, of k l] that k by (simp add: nth_map [of _ ?h, symmetric] del: map_swap_list nth_map)
    have "?h ! k = tq_heap w ! k" if "k \<noteq> i" "k \<noteq> j" using that assms(2,3) k by (simp add: swap_list_nth)
    then show ?thesis using inj [of i] inj [of j] assms k unfolding swap_heap_data Let_def idx_ok_def by simp
  qed
  then have "idx_ok (swap_heap i j w)" using d by (simp add: idx_ok_def)
  moreover have "beside w (swap_heap i j w)" by (simp add: beside_def swap_heap_def upd_timer_def Let_def)
  ultimately show ?thesis using m by (simp add: sifted_def)
qed

lemma up_heap_sifted: "idx_ok w \<Longrightarrow> i < length (tq_heap w) \<Longrightarrow> sifted w (up_heap i w)"
proof (induction i w rule: up_heap.induct)
  case (1 i w)
  show ?case
  proof (cases "0 < i \<and> htime w i < htime w ((i - 1) div 2)")
    case True
    then have s: "sifted w (swap_heap i ((i - 1) div 2) w)" using 1(2,3) by (intro swap_heap_sifted) auto
    then have "sifted (swap_heap i ((i - 1) div 2) w) (up_heap ((i - 1) div 2) (swap_heap i ((i - 1) div 2) w))"
      using 1(1) [OF _ refl] 1(3) True by (auto simp: sifted_def)
    then show ?thesis using s True by (subst up_heap.simps) (auto simp: Let_def intro: sifted_trans)
  next
    case False
    then show ?thesis using 1(2) by (subst up_heap.simps) (auto simp: Let_def sifted_def)
  qed
qed

lemma up_heap_ord: "up_ok (times w) i \<Longrightarrow> heap_ord (times (up_heap i w))"
proof (induction i w rule: up_heap.induct)
  case (1 i w)
  have i: "i < length (tq_heap w)" using 1(2) by (simp add: up_ok_def)
  show ?case
  proof (cases "0 < i \<and> htime w i < htime w (par i)")
    case True
    then have p: "par i < length (tq_heap w)" using par_less [of i] i by simp
    have "up_ok (times (swap_heap i (par i) w)) (par i)"
      using up_ok_swap [OF 1(2)] True i p by simp
    then have "heap_ord (times (up_heap (par i) (swap_heap i (par i) w)))"
      using 1(1) [OF _ refl] True by (simp add: par_def)
    then show ?thesis using True by (subst up_heap.simps) (simp add: par_def Let_def)
  next
    case False
    then have "heap_ord (times w)"
      by (intro up_ok_stop [OF 1(2)]) (use i par_less [of i] in auto)
    then show ?thesis using False by (subst up_heap.simps) (auto simp: par_def Let_def)
  qed
qed

lemma min_child:
  assumes "2 * i + 1 < length (tq_heap w)" "m = min_child_of w (i * 2 + 1)"
  shows "m < length (tq_heap w)" "0 < m" "par m = i" "k < length (tq_heap w) \<Longrightarrow> 0 < k \<Longrightarrow> par k = i \<Longrightarrow> htime w m \<le> htime w k"
  using assms by (auto simp: min_child_of_def par_children mult.commute [of i])

lemma down_heap_sifted: "idx_ok w \<Longrightarrow> i < length (tq_heap w) \<Longrightarrow> sifted w (down_heap i w)"
proof (induction i w rule: down_heap.induct)
  case (1 i w)
  let ?m = "min_child_of w (i * 2 + 1)"
  show ?case
  proof (cases "i * 2 + 1 < length (tq_heap w) \<and> \<not> htime w i < htime w ?m")
    case True
    then have m: "?m < length (tq_heap w)" using min_child(1) [of i w] by simp
    have s: "sifted w (swap_heap i ?m w)" using 1(2,3) m by (rule swap_heap_sifted)
    then have "sifted (swap_heap i ?m w) (down_heap ?m (swap_heap i ?m w))"
      using 1(1) [OF refl _ refl] m True by (simp add: sifted_def)
    then show ?thesis using s True by (subst down_heap.simps) (auto simp: Let_def intro: sifted_trans)
  next
    case False
    then show ?thesis using 1(2) by (subst down_heap.simps) (auto simp: Let_def sifted_def)
  qed
qed

lemma down_heap_ord: "down_ok (times w) i \<Longrightarrow> heap_ord (times (down_heap i w))"
proof (induction i w rule: down_heap.induct)
  case (1 i w)
  let ?m = "min_child_of w (i * 2 + 1)"
  have i: "i < length (tq_heap w)" using 1(2) by (simp add: down_ok_def)
  show ?case
  proof (cases "i * 2 + 1 < length (tq_heap w) \<and> \<not> htime w i < htime w ?m")
    case True
    note m = min_child [OF _ refl, of i w]
    have "down_ok (swap_list i ?m (times w)) ?m"
      by (rule down_ok_swap [OF 1(2)]) (use True m i in \<open>auto simp: mult.commute\<close>)
    then have "heap_ord (times (down_heap ?m (swap_heap i ?m w)))"
      using 1(1) [OF refl _ refl] True i m(1) by (simp add: mult.commute)
    then show ?thesis using True by (subst down_heap.simps) (simp add: Let_def)
  next
    case False
    have "times w ! i \<le> times w ! k" if k: "k < length (tq_heap w)" "0 < k" "par k = i" for k
    proof -
      have "i * 2 + 1 < length (tq_heap w)" using k by (auto simp: par_children)
      then have "htime w ?m \<le> htime w k" "htime w i < htime w ?m" using False min_child(4) [OF _ refl k] by auto
      then show ?thesis using k i by auto
    qed
    then have "heap_ord (times w)" using 1(2) by (auto simp: heap_ord_def down_ok_def)
    then show ?thesis using False by (subst down_heap.simps) (auto simp: Let_def)
  qed
qed

text \<open>A new entry reaches the root exactly if it is earlier than the root.\<close>

lemma up_heap_root: "up_ok (times w) i \<Longrightarrow> tq_heap (up_heap i w) ! 0 = (if htime w i < htime w 0 then tq_heap w ! i else tq_heap w ! 0)"
proof (induction i w rule: up_heap.induct)
  case (1 i w)
  have i: "i < length (tq_heap w)" using 1(2) by (simp add: up_ok_def)
  show ?case
  proof (cases "0 < i \<and> htime w i < htime w (par i)")
    case True
    then have p: "par i < length (tq_heap w)" "par i < i" using par_less [of i] i by simp_all
    let ?w = "swap_heap i (par i) w"
    have "up_ok (times ?w) (par i)" using up_ok_swap [OF 1(2)] True i p by simp
    then have "tq_heap (up_heap (par i) ?w) ! 0 = (if htime ?w (par i) < htime ?w 0 then tq_heap ?w ! par i else tq_heap ?w ! 0)"
      using 1(1) [OF _ refl] True by (simp add: par_def)
    moreover have "tq_heap ?w ! k = (if k = i then tq_heap w ! par i else if k = par i then tq_heap w ! i else tq_heap w ! k)"
      if "k \<le> i" for k using swap_list_nth [of i "tq_heap w" "par i" k] i p that by simp
    moreover have "up_heap i w = up_heap (par i) ?w" using True by (subst up_heap.simps) (simp add: par_def Let_def)
    ultimately show ?thesis using p True by (cases "par i = 0") simp_all
  next
    case False
    have "par i < length (tq_heap w)" using i by (auto simp: par_def)
    then have "htime w 0 \<le> htime w i"
      using heap_root [OF up_ok_stop [OF 1(2)], of i] False i par_less [of i] by (cases "tq_heap w = []") auto
    then show ?thesis using False by (subst up_heap.simps) (auto simp: par_def Let_def)
  qed
qed

subsection \<open>Entering and leaving the heap\<close>

lemma heap_ord_butlast: "heap_ord T \<Longrightarrow> heap_ord (butlast T)"
  by (auto simp: heap_ord_def nth_butlast par_def)

lemma replace_ok:
  assumes "heap_ord T" "i < length T - 1" "T1 = butlast (swap_list i (length T - 1) T)"
  shows "0 < i \<and> T1 ! i < T1 ! par i \<Longrightarrow> up_ok T1 i" "\<not> (0 < i \<and> T1 ! i < T1 ! par i) \<Longrightarrow> down_ok T1 i"
proof -
  have l: "length T1 = length T - 1" using assms(3) by simp
  have n: "T1 ! k = (if k = i then T ! (length T - 1) else T ! k)" if "k < length T1" for k
    using assms(2,3) that by (simp add: nth_butlast swap_list_nth)
  have e: "T ! par k \<le> T ! k" "par k < length T1" "par k < k" if "k < length T1" "0 < k" for k
    using assms(1) that l par_less [of k] by (auto simp: heap_ord_def)
  have i: "i < length T1" using assms(2) l by simp
  have ch: "T1 ! par i \<le> T1 ! k" if k: "k < length T1" "0 < k" "par k = i" "0 < i" for k
  proof -
    have "T ! par i \<le> T ! i" "T ! i \<le> T ! k" "par i \<noteq> i" "k \<noteq> i" using e(1) [OF k(1,2)] e [OF i k(4)] e(3) [OF k(1,2)] k(3) by auto
    then show ?thesis using n [of "par i"] n [OF k(1)] e(2) [OF i k(4)] by (auto intro: order_trans)
  qed
  have other: "T1 ! par k \<le> T1 ! k" if k: "k < length T1" "0 < k" "k \<noteq> i" "par k \<noteq> i" for k
    using e [OF k(1,2)] n [OF k(1)] n [of "par k"] k by simp
  show "up_ok T1 i" if a: "0 < i \<and> T1 ! i < T1 ! par i"
  proof -
    have "T1 ! i \<le> T1 ! k" if "k < length T1" "0 < k" "par k = i" for k using ch [OF that] a by (meson less_imp_le order_trans)
    then show ?thesis using other ch i unfolding up_ok_def by metis
  qed
  show "down_ok T1 i" if "\<not> (0 < i \<and> T1 ! i < T1 ! par i)"
    using that other ch i unfolding down_ok_def by (metis leI)
qed

lemma pop_heap_laws:
  assumes "idx_ok w" "tq_heap w \<noteq> []"
  shows "idx_ok (pop_heap w)" "beside w (pop_heap w)" "mset (tq_heap (pop_heap w)) = mset (tq_heap w) - {#last (tq_heap w)#}"
proof -
  show "idx_ok (pop_heap w)" using assms by (auto simp: idx_ok_def pop_heap_def map_butlast distinct_butlast nth_butlast)
  show "beside w (pop_heap w)" by (simp add: beside_def pop_heap_def)
  have "mset (tq_heap w) = mset (butlast (tq_heap w) @ [last (tq_heap w)])" using assms(2) by simp
  then show "mset (tq_heap (pop_heap w)) = mset (tq_heap w) - {#last (tq_heap w)#}"
    unfolding pop_heap_def by (simp del: append_butlast_last_id)
qed

text \<open>Removing position \<open>i\<close> takes exactly that entry out and keeps order and positions.\<close>

lemma heap_remove_laws:
  assumes "idx_ok w" "heap_ord (times w)" "i < length (tq_heap w)"
  shows "idx_ok (heap_remove i w) \<and> heap_ord (times (heap_remove i w)) \<and> beside w (heap_remove i w) \<and>
    mset (tq_heap (heap_remove i w)) = mset (tq_heap w) - {#tq_heap w ! i#}"
proof (cases "i = length (tq_heap w) - 1")
  case True
  have ne: "tq_heap w \<noteq> []" using assms(3) by auto
  then have "heap_remove i w = pop_heap w" "last (tq_heap w) = tq_heap w ! i"
    using True assms(3) by (simp_all add: heap_remove_def last_conv_nth)
  moreover have "times (pop_heap w) = butlast (times w)" by (simp add: pop_heap_def map_butlast)
  ultimately show ?thesis using pop_heap_laws [OF assms(1) ne] heap_ord_butlast [OF assms(2)] by metis
next
  case False
  let ?n = "length (tq_heap w) - 1"
  let ?s = "swap_heap i ?n w"
  let ?w = "pop_heap ?s"
  have i: "i < ?n" "tq_heap w \<noteq> []" using False assms(3) by auto
  have s: "sifted w ?s" using swap_heap_sifted [OF assms(1,3)] i by simp
  have "tq_heap ?s \<noteq> []" using i by (metis length_0_conv swap_heap_heap swap_list_length)
  note p = pop_heap_laws [OF _ this]
  have "last (tq_heap ?s) = tq_heap w ! i" using i assms(3)
    by (simp add: last_conv_nth swap_list_nth swap_list_def)
  then have w: "idx_ok ?w" "beside w ?w" "mset (tq_heap ?w) = mset (tq_heap w) - {#tq_heap w ! i#}"
    using p s beside_trans by (auto simp: sifted_def)
  have l: "i < length (tq_heap ?w)" using i by (simp add: pop_heap_def)
  have t: "times ?w = butlast (swap_list i (length (times w) - 1) (times w))"
    using i assms(3) by (simp add: pop_heap_def map_butlast)
  have f: "heap_remove i w = (if 0 < i \<and> times ?w ! i < times ?w ! par i then up_heap i ?w else down_heap i ?w)"
    using False i assms(3) l by (auto simp: heap_remove_def Let_def par_def)
  have o: "heap_ord (times (heap_remove i w))"
    using replace_ok [OF assms(2) _ t] i up_heap_ord [of ?w i] down_heap_ord [of ?w i] by (simp add: f)
  have "sifted ?w (heap_remove i w)" unfolding f using up_heap_sifted [OF w(1) l] down_heap_sifted [OF w(1) l] by simp
  then show ?thesis using w o beside_trans by (auto simp: sifted_def)
qed

lemma heap_insert_laws:
  assumes "idx_ok w" "heap_ord (times w)" "t \<notin> set (timers w)"
  shows "idx_ok (heap_insert x t w)" "heap_ord (times (heap_insert x t w))" "beside w (heap_insert x t w)"
    "mset (tq_heap (heap_insert x t w)) = add_mset \<lparr>he_time = x, he_timer = t\<rparr> (mset (tq_heap w))"
    "pt_heap_index (tq_data (heap_insert x t w) t) = 0 \<longleftrightarrow> (\<forall>e\<in>set (tq_heap w). x < he_time e)"
proof -
  let ?e = "\<lparr>he_time = x, he_timer = t\<rparr>"
  let ?n = "length (tq_heap w)"
  define w2 where "w2 = (upd_timer t (\<lambda>d. d\<lparr>pt_heap_index := ?n\<rparr>) w)\<lparr>tq_heap := tq_heap w @ [?e]\<rparr>"
  have h: "tq_heap w2 = tq_heap w @ [?e]" by (simp add: w2_def)
  have f: "heap_insert x t w = up_heap ?n w2"
    by (simp add: heap_insert_def is_positive_infinity_def w2_def upd_timer_def Let_def)
  have idx: "idx_ok w2" unfolding idx_ok_def
  proof
    show "distinct (timers w2)" using assms(1,3) by (simp add: h idx_ok_def)
    show "\<forall>i<length (tq_heap w2). pt_heap_index (tq_data w2 (htimer w2 i)) = i"
    proof (intro allI impI)
      fix i assume i: "i < length (tq_heap w2)"
      have "htimer w i \<noteq> t" if "i < ?n" using that assms(3) by auto
      then show "pt_heap_index (tq_data w2 (htimer w2 i)) = i"
        using i assms(1) by (cases "i < ?n") (auto simp: w2_def upd_timer_def idx_ok_def nth_append)
    qed
  qed
  have "par ?n \<noteq> ?n \<or> tq_heap w = []" by (cases "tq_heap w") (auto simp: par_def)
  then have "up_ok (times w2) ?n" unfolding up_ok_def h
    using assms(2) par_less by (auto simp: heap_ord_def nth_append less_Suc_eq par_children par_def split: if_splits)
  note u = up_heap_ord [OF this] up_heap_root [OF this]
  have s: "sifted w2 (heap_insert x t w)" unfolding f using idx h by (intro up_heap_sifted) simp_all
  show ok: "idx_ok (heap_insert x t w)" "heap_ord (times (heap_insert x t w))" using s u(1) by (simp_all add: f sifted_def)
  show "beside w (heap_insert x t w)" using s by (auto simp: sifted_def beside_def w2_def upd_timer_def)
  show m: "mset (tq_heap (heap_insert x t w)) = add_mset ?e (mset (tq_heap w))" using s by (simp add: sifted_def h)
  have "pt_heap_index (tq_data (heap_insert x t w) t) = 0 \<longleftrightarrow> htimer (heap_insert x t w) 0 = t"
  proof -
    have "t \<in> set (timers (heap_insert x t w))" using m by (metis image_eqI insertI1 list.set_map heap_entry.select_convs(2) set_mset_add_mset_insert set_mset_mset)
    then obtain i where i: "i < length (tq_heap (heap_insert x t w))" "htimer (heap_insert x t w) i = t" by (auto simp: in_set_conv_nth)
    then have "pt_heap_index (tq_data (heap_insert x t w) t) = i" using ok(1) by (auto simp: idx_ok_def)
    moreover have "htimer (heap_insert x t w) 0 = t \<longleftrightarrow> i = 0"
      using idx_inj [OF ok(1) _ i(1), of 0] i by (metis gr_zeroI length_greater_0_conv list.size(3) less_nat_zero_code)
    ultimately show ?thesis by simp
  qed
  also have "... \<longleftrightarrow> ?n = 0 \<or> x < htime w 0"
    using u(2) assms(3) by (cases "tq_heap w") (auto simp: f h nth_append)
  also have "... \<longleftrightarrow> (\<forall>e\<in>set (tq_heap w). x < he_time e)"
  proof -
    have "htime w 0 \<le> he_time e" if e: "e \<in> set (tq_heap w)" for e
    proof -
      obtain k where "k < ?n" "e = tq_heap w ! k" using e by (metis in_set_conv_nth)
      then show ?thesis using heap_root [OF assms(2), of k] by (simp add: nth_map [of 0] length_greater_0_conv [symmetric] del: length_greater_0_conv)
    qed
    moreover have "tq_heap w \<noteq> [] \<Longrightarrow> tq_heap w ! 0 \<in> set (tq_heap w)" by simp
    ultimately show ?thesis by (cases "tq_heap w = []") (auto intro: less_le_trans)
  qed
  finally show "pt_heap_index (tq_data (heap_insert x t w) t) = 0 \<longleftrightarrow> (\<forall>e\<in>set (tq_heap w). x < he_time e)" .
qed

end
