(* ===== verification/Timer_Queue_Props.thy ===== *)
theory Timer_Queue_Props
  imports Timer_Queue
begin

text \<open>
  The timer queue of asio as a table: which timer expires when, and which operations wait for it in
  which order. The locale \<open>timer_table\<close> is the contract a reactor relies on; it is interpreted on the
  operations of the model, and its client lemma follows every operation from \<open>enqueue_timer\<close> to the
  queue it is delivered to.
\<close>

subsection \<open>The list of active timers\<close>

definition first_of :: "nat list \<Rightarrow> nat \<Rightarrow> nat" where
  "first_of xs n = (if xs = [] then n else hd xs)"

definition last_of :: "nat \<Rightarrow> nat list \<Rightarrow> nat" where
  "last_of p xs = (if xs = [] then p else last xs)"

fun dseg :: "(nat \<Rightarrow> per_timer_data) \<Rightarrow> nat \<Rightarrow> nat list \<Rightarrow> nat \<Rightarrow> bool" where
  "dseg d p [] n \<longleftrightarrow> True"
| "dseg d p (x # xs) n \<longleftrightarrow> pt_prev (d x) = p \<and> pt_next (d x) = first_of xs n \<and> dseg d x xs n"

definition active :: "'t timer_queue \<Rightarrow> nat list \<Rightarrow> bool" where
  "active w xs \<longleftrightarrow> dseg (tq_data w) 0 xs 0 \<and> distinct xs \<and> 0 \<notin> set xs \<and> tq_timers w = first_of xs 0 \<and>
     (\<forall>t. t \<notin> set xs \<longrightarrow> pt_prev (tq_data w t) = 0)"

lemma last_of_zero: "0 \<notin> set xs \<Longrightarrow> last_of 0 xs = 0 \<longleftrightarrow> xs = []"
  unfolding last_of_def by (metis last_in_set)

lemma first_of_zero: "0 \<notin> set xs \<Longrightarrow> first_of xs 0 = 0 \<longleftrightarrow> xs = []"
  unfolding first_of_def by (metis hd_in_set)

lemma dseg_append: "dseg d p (xs @ ys) n \<longleftrightarrow> dseg d p xs (first_of ys n) \<and> dseg d (last_of p xs) ys n"
  by (induction xs arbitrary: p) (auto simp: first_of_def last_of_def)

lemma dseg_cong: "(\<And>t. t \<in> set xs \<Longrightarrow> pt_prev (d' t) = pt_prev (d t) \<and> pt_next (d' t) = pt_next (d t)) \<Longrightarrow> dseg d' p xs n = dseg d p xs n"
  by (induction xs arbitrary: p) auto

lemma dseg_other [simp]: "t \<notin> set xs \<Longrightarrow> dseg (d(t := v)) p xs n = dseg d p xs n"
  by (rule dseg_cong) auto

lemma dseg_set_next: "dseg d p xs n \<Longrightarrow> distinct xs \<Longrightarrow> xs \<noteq> [] \<Longrightarrow> dseg (d(last xs := (d (last xs))\<lparr>pt_next := m\<rparr>)) p xs m"
proof (induction xs arbitrary: p)
  case (Cons x xs)
  show ?case
  proof (cases "xs = []")
    case False
    then have "last xs \<noteq> x" using Cons.prems(2) by auto
    then show ?thesis using Cons False by (auto simp: first_of_def)
  qed (use Cons in \<open>simp add: first_of_def\<close>)
qed simp

lemma dseg_set_prev: "dseg d p xs n \<Longrightarrow> distinct xs \<Longrightarrow> xs \<noteq> [] \<Longrightarrow> dseg (d(hd xs := (d (hd xs))\<lparr>pt_prev := m\<rparr>)) m xs n"
  by (cases xs) auto

text \<open>The test of \<open>enqueue_timer\<close> and \<open>cancel_timer\<close> finds out whether a timer is in the list.\<close>

lemma active_mem:
  assumes "active w xs" "t \<noteq> 0"
  shows "pt_prev (tq_data w t) = 0 \<and> t \<noteq> tq_timers w \<longleftrightarrow> t \<notin> set xs"
proof (cases "t \<in> set xs")
  case True
  then obtain ys zs where x: "xs = ys @ t # zs" by (meson split_list)
  then have "pt_prev (tq_data w t) = last_of 0 ys" using assms(1) by (simp add: active_def dseg_append)
  moreover have "last_of 0 ys \<noteq> 0" if "ys \<noteq> []" using that assms(1) x by (simp add: active_def last_of_zero)
  moreover have "tq_timers w = t" if "ys = []" using that assms(1) x by (simp add: active_def first_of_def)
  ultimately show ?thesis using True by (cases "ys = []") simp_all
next
  case False
  then show ?thesis using assms hd_in_set [of xs] by (auto simp: active_def first_of_def)
qed

lemma beside_active: "beside w w' \<Longrightarrow> active w' xs = active w xs"
  using dseg_cong [of xs "tq_data w'" "tq_data w"] by (auto simp: beside_def active_def)

text \<open>Everything but the list is unchanged.\<close>

definition relinked :: "'t timer_queue \<Rightarrow> 't timer_queue \<Rightarrow> bool" where
  "relinked w w' \<longleftrightarrow> tq_heap w' = tq_heap w \<and> tq_links w' = tq_links w \<and> tq_aborted w' = tq_aborted w \<and>
     (\<forall>t. pt_ops (tq_data w' t) = pt_ops (tq_data w t) \<and> pt_heap_index (tq_data w' t) = pt_heap_index (tq_data w t))"

lemma relinked_upd [simp]: "relinked w w1 \<Longrightarrow> (\<And>d. pt_ops (f d) = pt_ops d \<and> pt_heap_index (f d) = pt_heap_index d) \<Longrightarrow> relinked w (upd_timer t f w1)"
  by (simp add: relinked_def upd_timer_def)

lemma relinked_head [simp]: "relinked w w" "relinked w (w1\<lparr>tq_timers := t\<rparr>) = relinked w w1"
  by (simp_all add: relinked_def)

lemma list_insert_active:
  assumes "active w xs" "t \<notin> set xs" "t \<noteq> 0"
  shows "active (list_insert t w) (t # xs)" "relinked w (list_insert t w)"
proof -
  let ?d = "(tq_data w)(t := (tq_data w t)\<lparr>pt_next := first_of xs 0, pt_prev := 0\<rparr>)"
  have f: "tq_timers w = first_of xs 0" using assms(1) by (simp add: active_def)
  have x: "first_of xs 0 \<noteq> 0 \<longleftrightarrow> xs \<noteq> []" "xs \<noteq> [] \<Longrightarrow> first_of xs 0 \<noteq> t" "xs \<noteq> [] \<Longrightarrow> first_of xs 0 \<in> set xs"
    using assms first_of_zero [of xs] hd_in_set [of xs] by (auto simp: active_def first_of_def)
  have d: "tq_data (list_insert t w) = (if xs = [] then ?d else ?d(hd xs := (?d (hd xs))\<lparr>pt_prev := t\<rparr>))"
    using f x by (auto simp: list_insert_def upd_timer_def Let_def first_of_def)
  have "dseg ?d 0 xs 0" using assms(1,2) by (simp add: active_def)
  then have s: "dseg (tq_data (list_insert t w)) t xs 0"
    using dseg_set_prev [of ?d 0 xs 0 t] assms(1) d by (cases "xs = []") (simp_all add: active_def)
  have "pt_prev (tq_data (list_insert t w) t) = 0 \<and> pt_next (tq_data (list_insert t w) t) = first_of xs 0"
    using x unfolding d by (cases "xs = []") (simp_all add: first_of_def)
  moreover have "pt_prev (tq_data (list_insert t w) u) = 0" if "u \<notin> set (t # xs)" for u
    using that x assms(1) unfolding d by (auto simp: active_def)
  moreover have "tq_timers (list_insert t w) = t" by (simp add: list_insert_def Let_def)
  ultimately show "active (list_insert t w) (t # xs)" using s assms by (auto simp: active_def first_of_def [of "_ # _"])
  show "relinked w (list_insert t w)" by (simp add: list_insert_def Let_def)
qed

lemma list_remove_active:
  assumes "active w (ys @ t # zs)"
  shows "active (list_remove t w) (ys @ zs)" "relinked w (list_remove t w)"
proof -
  let ?p = "last_of 0 ys" and ?n = "first_of zs 0" and ?d = "tq_data w"
  note a = assms [unfolded active_def dseg_append]
  have pn: "pt_prev (?d t) = ?p" "pt_next (?d t) = ?n" "dseg ?d 0 ys t" "dseg ?d t zs 0"
    using a by (auto simp: first_of_def)
  have y: "?p \<noteq> 0 \<longleftrightarrow> ys \<noteq> []" "ys \<noteq> [] \<Longrightarrow> ?p = last ys \<and> last ys \<in> set ys" using a last_of_zero [of ys] by (simp_all add: last_of_def)
  have z: "?n \<noteq> 0 \<longleftrightarrow> zs \<noteq> []" "zs \<noteq> [] \<Longrightarrow> ?n = hd zs \<and> hd zs \<in> set zs" using a first_of_zero [of zs] by (simp_all add: first_of_def)
  have nin: "t \<notin> set ys" "t \<notin> set zs" "set ys \<inter> set zs = {}" "distinct ys" "distinct zs" "t \<noteq> 0" using a by auto
  have tim: "tq_timers w = t \<longleftrightarrow> ys = []" using a nin by (cases ys) (auto simp: first_of_def)
  let ?d1 = "if ys = [] then ?d else ?d(last ys := (?d (last ys))\<lparr>pt_next := ?n\<rparr>)"
  let ?d2 = "if zs = [] then ?d1 else ?d1(hd zs := (?d1 (hd zs))\<lparr>pt_prev := ?p\<rparr>)"
  have ne: "last ys \<noteq> t \<and> last ys \<notin> set zs" if "ys \<noteq> []" using last_in_set [OF that] nin by blast
  have ne': "hd zs \<noteq> t \<and> hd zs \<notin> set ys" if "zs \<noteq> []" using hd_in_set [OF that] nin by blast
  have d: "tq_data (list_remove t w) = ?d2(t := (?d2 t)\<lparr>pt_next := 0, pt_prev := 0\<rparr>)"
    using pn y z ne ne' by (cases "ys = []"; cases "zs = []") (auto simp: list_remove_def upd_timer_def Let_def)
  have "dseg ?d1 0 ys ?n" using dseg_set_next [OF pn(3)] nin by (cases "ys = []") simp_all
  then have 1: "dseg (tq_data (list_remove t w)) 0 ys ?n" unfolding d using nin ne' by (cases "zs = []") simp_all
  have "dseg ?d1 t zs 0" using pn(4) ne by simp
  then have "dseg ?d2 ?p zs 0" using dseg_set_prev [of ?d1 t zs 0] nin by (cases "zs = []") simp_all
  then have 2: "dseg (tq_data (list_remove t w)) ?p zs 0" unfolding d using nin by simp
  have "pt_prev (tq_data (list_remove t w) u) = 0" if "u \<notin> set (ys @ zs)" for u
  proof -
    have "u \<noteq> t \<Longrightarrow> pt_prev (?d u) = 0" using that a by auto
    moreover have "zs \<noteq> [] \<Longrightarrow> hd zs \<noteq> u" using that by auto
    ultimately show ?thesis unfolding d by (cases "ys = []"; cases "zs = []") auto
  qed
  moreover have "tq_timers (list_remove t w) = first_of (ys @ zs) 0"
    using tim pn(2) a by (cases "ys = []") (auto simp: list_remove_def upd_timer_def Let_def first_of_def)
  ultimately show "active (list_remove t w) (ys @ zs)" using a 1 2 by (auto simp: active_def dseg_append)
  show "relinked w (list_remove t w)" by (simp add: list_remove_def Let_def)
qed

subsection \<open>Timers and their expiry times\<close>

text \<open>The heap and the list hold the same timers: those of \<open>S\<close>, with their times.\<close>

definition expiries :: "'t timer_queue \<Rightarrow> (nat \<times> 't) set" where
  "expiries w = (\<lambda>e. (he_timer e, he_time e)) ` set (tq_heap w)"

definition tq_struct :: "'t::linorder timer_queue \<Rightarrow> (nat \<rightharpoonup> 't) \<Rightarrow> bool" where
  "tq_struct w S \<longleftrightarrow> idx_ok w \<and> heap_ord (times w) \<and> expiries w = Map.graph S \<and> (\<exists>xs. active w xs \<and> set xs = dom S)"

text \<open>Only operations move: the heap and the list are unchanged.\<close>

definition requeued :: "'t timer_queue \<Rightarrow> 't timer_queue \<Rightarrow> bool" where
  "requeued w w' \<longleftrightarrow> tq_heap w' = tq_heap w \<and> tq_timers w' = tq_timers w \<and>
     (\<forall>t. pt_next (tq_data w' t) = pt_next (tq_data w t) \<and> pt_prev (tq_data w' t) = pt_prev (tq_data w t) \<and>
        pt_heap_index (tq_data w' t) = pt_heap_index (tq_data w t))"

definition same_ops :: "'t timer_queue \<Rightarrow> 't timer_queue \<Rightarrow> bool" where
  "same_ops w w' \<longleftrightarrow> tq_links w' = tq_links w \<and> tq_aborted w' = tq_aborted w \<and> (\<forall>t. pt_ops (tq_data w' t) = pt_ops (tq_data w t))"

lemma relinked_keeps: "relinked w w' \<Longrightarrow> idx_ok w' = idx_ok w \<and> expiries w' = expiries w \<and> tq_heap w' = tq_heap w"
  by (simp add: relinked_def idx_ok_def expiries_def)

lemma same_opsI: "beside w w1 \<Longrightarrow> relinked w1 w2 \<Longrightarrow> same_ops w w2"
  by (simp add: beside_def relinked_def same_ops_def)

lemma requeued_struct: "requeued w w' \<Longrightarrow> tq_struct w' S = tq_struct w S"
  using dseg_cong [of _ "tq_data w'" "tq_data w"]
  by (auto simp: requeued_def tq_struct_def idx_ok_def expiries_def active_def)

lemma struct_dom: "tq_struct w S \<Longrightarrow> set (timers w) = dom S"
proof -
  assume "tq_struct w S"
  then have "fst ` expiries w = fst ` Map.graph S" by (simp add: tq_struct_def)
  then have "set (timers w) = fst ` Map.graph S" by (simp add: expiries_def image_image)
  also have "... = dom S" by (force simp: Map.graph_def dom_def)
  finally show ?thesis .
qed

lemma struct_mem: "tq_struct w S \<Longrightarrow> t \<noteq> 0 \<Longrightarrow> pt_prev (tq_data w t) = 0 \<and> t \<noteq> tq_timers w \<longleftrightarrow> t \<notin> dom S"
  unfolding tq_struct_def using active_mem by metis

lemma struct_not_null: "tq_struct w S \<Longrightarrow> S t = Some x \<Longrightarrow> t \<noteq> 0"
  unfolding tq_struct_def active_def by (metis domI)

lemma struct_root:
  assumes "tq_struct w S" "tq_heap w \<noteq> []"
  shows "S (htimer w 0) = Some (htime w 0)" "S t = Some x \<Longrightarrow> htime w 0 \<le> x"
proof -
  have "(htimer w 0, htime w 0) \<in> expiries w" using assms(2) by (simp add: expiries_def)
  then show "S (htimer w 0) = Some (htime w 0)" using assms(1) by (simp add: tq_struct_def Map.graph_def)
  assume "S t = Some x"
  then have "(t, x) \<in> expiries w" using assms(1) by (simp add: tq_struct_def Map.graph_def)
  then obtain k where "k < length (tq_heap w)" "x = htime w k" by (auto simp: expiries_def in_set_conv_nth)
  then show "htime w 0 \<le> x" using heap_root [of "times w" k] assms by (simp add: tq_struct_def nth_map [of 0])
qed

lemma struct_heap_Nil: "tq_struct w S \<Longrightarrow> tq_heap w = [] \<longleftrightarrow> S = Map.empty"
  using struct_dom [of w S] by (cases "tq_heap w") auto

lemma insert_struct:
  assumes "tq_struct w S" "t \<notin> dom S" "t \<noteq> 0" "w' = list_insert t (heap_insert x t w)"
  shows "tq_struct w' (S(t \<mapsto> x))" "same_ops w w'" "pt_heap_index (tq_data w' t) = 0 \<longleftrightarrow> (\<forall>u y. S u = Some y \<longrightarrow> x < y)"
proof -
  let ?h = "heap_insert x t w"
  obtain xs where xs: "active w xs" "set xs = dom S" using assms(1) by (auto simp: tq_struct_def)
  have s: "idx_ok w" "heap_ord (times w)" "t \<notin> set (timers w)" "expiries w = Map.graph S"
    using assms(1,2) struct_dom [OF assms(1)] by (auto simp: tq_struct_def)
  note h = heap_insert_laws [OF s(1-3), of x]
  have "active ?h xs" using beside_active [OF h(3)] xs(1) by simp
  note l = list_insert_active [OF this _ assms(3)] relinked_keeps [OF list_insert_active(2) [OF this _ assms(3)]]
  have "set (tq_heap ?h) = insert \<lparr>he_time = x, he_timer = t\<rparr> (set (tq_heap w))" using h(4) by (metis set_mset_add_mset_insert set_mset_mset)
  then have "expiries ?h = insert (t, x) (Map.graph S)" using s(4) by (simp add: expiries_def)
  then have "expiries w' = Map.graph (S(t \<mapsto> x))" using l assms(2,4) xs(2) by (auto simp: Map.graph_def split: if_splits)
  then show "tq_struct w' (S(t \<mapsto> x))" unfolding tq_struct_def
    using l h(1,2) assms(2,4) xs(2) by (intro conjI exI [of _ "t # xs"]) simp_all
  show "same_ops w w'" using same_opsI [OF h(3)] l(2) assms(2,4) xs(2) by simp
  have "pt_heap_index (tq_data w' t) = pt_heap_index (tq_data ?h t)" using l(2) assms(2,4) xs(2) by (simp add: relinked_def)
  moreover have "(\<forall>e\<in>set (tq_heap w). x < he_time e) \<longleftrightarrow> (\<forall>u y. S u = Some y \<longrightarrow> x < y)"
  proof -
    have "(\<forall>e\<in>set (tq_heap w). x < he_time e) \<longleftrightarrow> (\<forall>p\<in>expiries w. x < snd p)" by (simp add: expiries_def)
    then show ?thesis using s(4) by (auto simp: Map.graph_def)
  qed
  ultimately show "pt_heap_index (tq_data w' t) = 0 \<longleftrightarrow> (\<forall>u y. S u = Some y \<longrightarrow> x < y)" using h(5) by simp
qed

lemma remove_struct:
  assumes "tq_struct w S" "S t = Some x"
  shows "tq_struct (remove_timer t w) (S(t := None))" "same_ops w (remove_timer t w)"
    "length (tq_heap (remove_timer t w)) < length (tq_heap w)"
proof -
  let ?h = "heap_remove (pt_heap_index (tq_data w t)) w"
  obtain xs where xs: "active w xs" "set xs = dom S" using assms(1) by (auto simp: tq_struct_def)
  then obtain ys zs where yz: "xs = ys @ t # zs" using assms(2) by (metis domI split_list)
  have s: "idx_ok w" "heap_ord (times w)" "expiries w = Map.graph S" using assms(1) by (auto simp: tq_struct_def)
  have "(t, x) \<in> expiries w" using s(3) assms(2) by (simp add: Map.graph_def)
  then obtain i where i: "i < length (tq_heap w)" "htimer w i = t" "htime w i = x" by (auto simp: expiries_def in_set_conv_nth)
  then have "pt_heap_index (tq_data w t) = i" using s(1) by (auto simp: idx_ok_def)
  then have h: "idx_ok ?h" "heap_ord (times ?h)" "beside w ?h" "mset (tq_heap ?h) = mset (tq_heap w) - {#tq_heap w ! i#}"
    using heap_remove_laws [OF s(1,2) i(1)] by simp_all
  have "active ?h (ys @ t # zs)" using beside_active [OF h(3)] xs(1) yz by simp
  note l = list_remove_active [OF this] relinked_keeps [OF list_remove_active(2) [OF this]]
  have d: "distinct (timers w)" using s(1) by (simp add: idx_ok_def)
  have "set (tq_heap ?h) = set (tq_heap w) - {tq_heap w ! i}"
  proof -
    have "distinct (tq_heap w)" using d by (simp add: distinct_map)
    then have "mset (remove1 (tq_heap w ! i) (tq_heap w)) = mset (tq_heap ?h)" "set (remove1 (tq_heap w ! i) (tq_heap w)) = set (tq_heap w) - {tq_heap w ! i}"
      using h(4) by simp_all
    then show ?thesis by (metis set_mset_mset)
  qed
  moreover have "e = tq_heap w ! i" if "e \<in> set (tq_heap w)" "he_timer e = t" for e
    using that i idx_inj [OF s(1)] by (metis in_set_conv_nth)
  ultimately have "expiries ?h = Map.graph S - {t} \<times> UNIV" using s(3) i by (auto simp: expiries_def)
  moreover have "expiries (remove_timer t w) = expiries ?h" using l(3) by (simp add: remove_timer_def)
  ultimately have "expiries (remove_timer t w) = Map.graph (S(t := None))"
    by (auto simp: Map.graph_def split: if_splits)
  moreover have "set (ys @ zs) = dom (S(t := None))" using xs yz by (auto simp: active_def)
  ultimately show "tq_struct (remove_timer t w) (S(t := None))" unfolding tq_struct_def
    using l h(1,2) by (intro conjI exI [of _ "ys @ zs"]) (simp_all add: remove_timer_def)
  show "same_ops w (remove_timer t w)" using same_opsI [OF h(3) l(2)] by (simp add: remove_timer_def)
  have "length (tq_heap ?h) = length (tq_heap w) - 1" using arg_cong [OF h(4), of size] i(1) by (simp add: size_Diff_singleton)
  then show "length (tq_heap (remove_timer t w)) < length (tq_heap w)" using l i(1) by (simp add: remove_timer_def)
qed

subsection \<open>The waiting operations\<close>

text \<open>Timer \<open>u\<close> has the operations \<open>Q u\<close>, and the queue \<open>q\<close> of operations to be delivered holds \<open>os\<close>.\<close>

definition queues :: "'t timer_queue \<Rightarrow> (nat \<Rightarrow> nat list) \<Rightarrow> op_queue \<Rightarrow> nat list \<Rightarrow> bool" where
  "queues w Q q os \<longleftrightarrow> (\<forall>u. queue_of (tq_links w) (pt_ops (tq_data w u)) (Q u)) \<and> queue_of (tq_links w) q os \<and>
     (\<forall>u v. u \<noteq> v \<longrightarrow> set (Q u) \<inter> set (Q v) = {}) \<and> (\<forall>u. set os \<inter> set (Q u) = {})"

lemma same_ops_queues: "same_ops w w' \<Longrightarrow> queues w' Q q os = queues w Q q os"
  by (simp add: same_ops_def queues_def)

lemma upd_timer_frame [simp]:
  "tq_links (upd_timer t f w) = tq_links w" "tq_heap (upd_timer t f w) = tq_heap w" "tq_aborted (upd_timer t f w) = tq_aborted w"
  "tq_timers (upd_timer t f w) = tq_timers w" "tq_data (upd_timer t f w) = (tq_data w)(t := f (tq_data w t))"
  by (simp_all add: upd_timer_def)

text \<open>Only the links of the operations in \<open>X\<close> may have changed.\<close>

definition kept :: "'t timer_queue \<Rightarrow> 't timer_queue \<Rightarrow> nat set \<Rightarrow> bool" where
  "kept w w' X \<longleftrightarrow> (\<forall>h. h \<notin> X \<longrightarrow> tq_links w' h = tq_links w h)"

lemma kept_trans: "kept w w' X \<Longrightarrow> kept w' w'' Y \<Longrightarrow> X \<subseteq> Z \<Longrightarrow> Y \<subseteq> Z \<Longrightarrow> kept w w'' Z"
  unfolding kept_def by (metis subsetD)

lemma kept_queue: "kept w w' X \<Longrightarrow> queue_of (tq_links w) q xs \<Longrightarrow> set xs \<inter> X = {} \<Longrightarrow> queue_of (tq_links w') q xs"
  by (rule queue_of_cong) (auto simp: kept_def)

lemma timer_push_queues:
  assumes "queues w Q q os" "h \<noteq> 0" "h \<notin> set os" "\<And>u. h \<notin> set (Q u)"
  shows "queues (timer_push t h w) (Q(t := Q t @ [h])) q os" "requeued w (timer_push t h w)"
    "oq_front (pt_ops (tq_data (timer_push t h w) t)) = h \<longleftrightarrow> Q t = []" "tq_aborted (timer_push t h w) = tq_aborted w"
proof -
  obtain l r where p: "oq_push (tq_links w) (pt_ops (tq_data w t)) h = (l, r)" by fastforce
  have w: "timer_push t h w = upd_timer t (\<lambda>d. d\<lparr>pt_ops := r\<rparr>) (w\<lparr>tq_links := l\<rparr>)" by (simp add: timer_push_def p)
  note a = assms(1) [unfolded queues_def]
  have t: "queue_of (tq_links w) (pt_ops (tq_data w t)) (Q t)" using a by blast
  have s: "queue_of l r (Q t @ [h])" using oq_push_snoc [OF t assms(4,2) p] .
  have "queue_of l (pt_ops (tq_data w u)) (Q u)" if "u \<noteq> t" for u
    using oq_push_frame [OF t p, of "pt_ops (tq_data w u)" "Q u"] a assms(4) that by metis
  moreover have "queue_of l q os" using oq_push_frame [OF t p, of q os] a assms(3) by (metis Int_commute)
  moreover have "set os \<inter> set ((Q(t := Q t @ [h])) u) = {}" for u using a assms(3) by simp
  moreover have "set ((Q(t := Q t @ [h])) u) \<inter> set ((Q(t := Q t @ [h])) v) = {}" if "u \<noteq> v" for u v
    using a assms(4) that by auto
  ultimately show "queues (timer_push t h w) (Q(t := Q t @ [h])) q os" using s by (simp add: queues_def w)
  show "requeued w (timer_push t h w)" "tq_aborted (timer_push t h w) = tq_aborted w" by (simp_all add: w requeued_def)
  have "oq_front r = (if Q t = [] then h else hd (Q t))" using s by (simp add: queue_of_def)
  then show "oq_front (pt_ops (tq_data (timer_push t h w) t)) = h \<longleftrightarrow> Q t = []"
    using hd_in_set [of "Q t"] assms(4) [of t] by (auto simp: w)
qed

lemma push_ops_queues:
  assumes "queues w Q q os" "push_ops t w q = (w', q')"
  shows "queues w' (Q(t := [])) q' (os @ Q t)" "requeued w w'" "tq_aborted w' = tq_aborted w" "kept w w' (set os)"
proof -
  obtain l q1 r where p: "oq_push_all (tq_links w) q (pt_ops (tq_data w t)) = (l, q1, r)" by (metis prod.collapse)
  have w: "w' = upd_timer t (\<lambda>d. d\<lparr>pt_ops := r\<rparr>) (w\<lparr>tq_links := l\<rparr>)" "q' = q1" using assms(2) by (simp_all add: push_ops_def p)
  note a = assms(1) [unfolded queues_def]
  have q: "queue_of (tq_links w) q os" "queue_of (tq_links w) (pt_ops (tq_data w t)) (Q t)" "set os \<inter> set (Q t) = {}" using a by blast+
  have s: "queue_of l q1 (os @ Q t)" "queue_of l r []" using oq_push_all_append [OF q p] by simp_all
  have "queue_of l (pt_ops (tq_data w u)) (Q u)" for u using oq_push_all_frame [OF q(1) p] a by metis
  moreover have "set (os @ Q t) \<inter> set ((Q(t := [])) u) = {}" for u using a by auto
  moreover have "set ((Q(t := [])) u) \<inter> set ((Q(t := [])) v) = {}" if "u \<noteq> v" for u v using a that by auto
  ultimately show "queues w' (Q(t := [])) q' (os @ Q t)" using s by (simp add: queues_def w)
  show "requeued w w'" "tq_aborted w' = tq_aborted w" by (simp_all add: w requeued_def)
  show "kept w w' (set os)" using oq_push_all_links [OF q(1) p] by (simp add: kept_def w)
qed

lemma cancel_op_queues:
  assumes "queues w Q q os" "Q t = h # hs" "cancel_op t h w q = (w', q')"
  shows "queues w' (Q(t := hs)) q' (os @ [h])" "requeued w w'" "tq_aborted w' = (tq_aborted w)(h := True)" "kept w w' (insert h (set os))"
proof -
  obtain l1 r where p: "oq_pop (tq_links w) (pt_ops (tq_data w t)) = (l1, r)" by fastforce
  obtain l2 q1 where u: "oq_push l1 q h = (l2, q1)" by fastforce
  have w: "w' = upd_timer t (\<lambda>d. d\<lparr>pt_ops := r\<rparr>) (w\<lparr>tq_links := l2, tq_aborted := (tq_aborted w)(h := True)\<rparr>)" "q' = q1"
    using assms(3) by (simp_all add: cancel_op_def p u)
  note a = assms(1) [unfolded queues_def]
  have t: "queue_of (tq_links w) (pt_ops (tq_data w t)) (h # hs)" using a assms(2) by metis
  note r = oq_pop_Cons [OF t p]
  have h: "h \<notin> set os" "h \<notin> set hs" "h \<noteq> 0" using a assms(2) t by (metis disjoint_iff list.set_intros(1), auto simp: queue_of_def)
  have ho: "h \<notin> set (Q v)" if "v \<noteq> t" for v using a that assms(2) by (metis disjoint_iff list.set_intros(1))
  have q: "queue_of l1 q os" using a r(2) queue_of_other h(1) by metis
  have s: "queue_of l2 q1 (os @ [h])" using oq_push_snoc [OF q h(1,3) u] .
  have "queue_of l2 r hs" using oq_push_frame [OF q u r(1) h(2)] a assms(2) by (metis disjoint_iff list.set_intros(2))
  moreover have "queue_of l2 (pt_ops (tq_data w v)) (Q v)" if "v \<noteq> t" for v
    using oq_push_frame [OF q u _ ho [OF that]] a r(2) queue_of_other ho [OF that] by metis
  moreover have "set (os @ [h]) \<inter> set ((Q(t := hs)) v) = {}" for v 
  proof (cases "v = t")
    case True
    have "set os \<inter> set (h # hs) = {}" using a assms(2) by metis
    then show ?thesis using h True by auto
  qed (use a ho in auto)
  moreover have "set ((Q(t := hs)) u) \<inter> set ((Q(t := hs)) v) = {}" if "u \<noteq> v" for u v
  proof -
    have "set (Q u) \<inter> set (Q v) = {}" using a that by blast
    then show ?thesis using assms(2) by auto
  qed
  ultimately show "queues w' (Q(t := hs)) q' (os @ [h])" using s by (simp add: queues_def w)
  show "requeued w w'" "tq_aborted w' = (tq_aborted w)(h := True)" by (simp_all add: w requeued_def)
  show "kept w w' (insert h (set os))" using oq_push_links [OF q u] r(2) by (simp add: kept_def w)
qed

lemma requeued_refl [simp]: "requeued w w"
  by (simp add: requeued_def)

lemma requeued_trans: "requeued w w' \<Longrightarrow> requeued w' w'' \<Longrightarrow> requeued w w''"
  by (simp add: requeued_def)

lemma cancel_loop_queues:
  assumes "queues w Q q os" "k \<le> m" "n = min (m - k) (length (Q t))"
  shows "\<exists>w' q'. cancel_loop t m w q k = Some (w', q', k + n) \<and> requeued w w' \<and>
    queues w' (Q(t := drop n (Q t))) q' (os @ take n (Q t)) \<and> tq_aborted w' = (\<lambda>h. h \<in> set (take n (Q t)) \<or> tq_aborted w h) \<and>
    kept w w' (set os \<union> set (Q t))"
  using assms
proof (induction n arbitrary: w Q q os k)
  case 0
  have f: "oq_front (pt_ops (tq_data w t)) = 0 \<longleftrightarrow> Q t = []"
    using 0(1) unfolding queues_def queue_of_def by (metis list.set_sel(1))
  have "k = m \<or> Q t = []" using 0(2,3) by (auto simp: min_def split: if_splits)
  then have "cancel_loop t m w q k = Some (w, q, k)" using f by (subst cancel_loop.simps) auto
  then show ?case using 0(1) by (simp add: kept_def)
next
  case (Suc n)
  then obtain h hs where q: "Q t = h # hs" by (cases "Q t") auto
  obtain w1 q1 where c: "cancel_op t h w q = (w1, q1)" by fastforce
  note s = cancel_op_queues [OF Suc.prems(1) q c]
  have f: "oq_front (pt_ops (tq_data w t)) = h" "h \<noteq> 0"
    using Suc.prems(1) q unfolding queues_def queue_of_def by (metis list.sel(1) list.discI, metis list.set_intros(1))
  have k: "k + 1 \<le> m" "n = min (m - (k + 1)) (length ((Q(t := hs)) t))" "k \<noteq> m" using Suc.prems(2,3) q by auto
  have "cancel_loop t m w q k = cancel_loop t m w1 q1 (k + 1)"
    using f k(3) c by (subst cancel_loop.simps) (simp add: Let_def)
  moreover obtain w' q' where "cancel_loop t m w1 q1 (k + 1) = Some (w', q', k + 1 + n)" "requeued w1 w'"
      "queues w' ((Q(t := hs))(t := drop n hs)) q' ((os @ [h]) @ take n hs)" "tq_aborted w' = (\<lambda>g. g \<in> set (take n hs) \<or> tq_aborted w1 g)" "kept w1 w' (set (os @ [h]) \<union> set hs)"
    using Suc.IH [OF s(1) k(1,2)] by (auto simp: fun_upd_same simp del: fun_upd_apply)
  moreover from this have "tq_aborted w' = (\<lambda>g. g \<in> set (take (Suc n) (Q t)) \<or> tq_aborted w g)" using s(3) q by auto
  moreover from calculation have "kept w w' (set os \<union> set (Q t))" using kept_trans [OF s(4), of w' _ "set os \<union> set (Q t)"] q by auto
  ultimately show ?case using q requeued_trans [OF s(2)] by (intro exI [of _ w'] exI [of _ q']) (simp del: fun_upd_apply)
qed

subsection \<open>The table of timers\<close>

type_synonym 't table = "nat \<rightharpoonup> 't \<times> nat list"

definition ops_of :: "'t table \<Rightarrow> nat \<Rightarrow> nat list" where
  "ops_of A t = (case A t of None \<Rightarrow> [] | Some (x, ps) \<Rightarrow> ps)"

definition waiting :: "'t table \<Rightarrow> nat set" where
  "waiting A = (\<Union>u. set (ops_of A u))"

definition tq_table :: "'t::linorder timer_queue \<Rightarrow> op_queue \<Rightarrow> 't table \<Rightarrow> nat list \<Rightarrow> bool" where
  "tq_table w q A os \<longleftrightarrow> tq_struct w (\<lambda>t. map_option fst (A t)) \<and> queues w (ops_of A) q os \<and> (\<forall>t x. A t \<noteq> Some (x, []))"

definition schedule :: "'t table \<Rightarrow> nat \<Rightarrow> 't \<Rightarrow> nat \<Rightarrow> 't table" where
  "schedule A t x h = (case A t of None \<Rightarrow> A(t \<mapsto> (x, [h])) | Some (y, ps) \<Rightarrow> A(t \<mapsto> (y, ps @ [h])))"

definition later :: "'t::linorder \<Rightarrow> 't table \<Rightarrow> 't table" where
  "later now A = (\<lambda>t. case A t of Some (x, ps) \<Rightarrow> if now < x then Some (x, ps) else None | None \<Rightarrow> None)"

definition withdraw :: "'t table \<Rightarrow> nat \<Rightarrow> nat \<Rightarrow> 't table" where
  "withdraw A t n = (case A t of None \<Rightarrow> A | Some (x, ps) \<Rightarrow> if length ps \<le> n then A(t := None) else A(t \<mapsto> (x, drop n ps)))"

lemma ops_of_update: "ops_of (A(t := None)) = (ops_of A)(t := [])" "ops_of (A(t \<mapsto> (x, ps))) = (ops_of A)(t := ps)"
  by (auto simp: ops_of_def)

lemma table_time_update: "(\<lambda>u. map_option fst ((A(t := None)) u)) = (\<lambda>u. map_option fst (A u))(t := None)"
  "(\<lambda>u. map_option fst ((A(t \<mapsto> (x, ps))) u)) = (\<lambda>u. map_option fst (A u))(t \<mapsto> x)"
  by auto

lemma table_mem: "tq_table w q A os \<Longrightarrow> t \<noteq> 0 \<Longrightarrow> pt_prev (tq_data w t) = 0 \<and> t \<noteq> tq_timers w \<longleftrightarrow> A t = None"
  using struct_mem [of w "\<lambda>u. map_option fst (A u)" t] by (cases "A t") (auto simp: tq_table_def domIff)

lemma table_enqueue:
  assumes "tq_table w q A os" "t \<noteq> 0" "h \<noteq> 0" "h \<notin> set os" "\<And>u. h \<notin> set (ops_of A u)" "enqueue_timer x t h w = (w', b)"
  shows "tq_table w' q (schedule A t x h) os \<and> (b \<longleftrightarrow> A t = None \<and> (\<forall>u y ps. A u = Some (y, ps) \<longrightarrow> x < y))"
proof -
  let ?S = "\<lambda>u. map_option fst (A u)"
  note a = assms(1) [unfolded tq_table_def]
  have m: "pt_prev (tq_data w t) = 0 \<and> t \<noteq> tq_timers w \<longleftrightarrow> A t = None" using table_mem [OF assms(1,2)] .
  show ?thesis
  proof (cases "A t")
    case None
    let ?w = "list_insert t (heap_insert x t w)"
    have n: "t \<notin> dom ?S" "ops_of A t = []" using None by (auto simp: ops_of_def)
    note i = insert_struct [OF conjunct1 [OF a] n(1) assms(2) refl, of x]
    have "queues ?w (ops_of A) q os" using same_ops_queues [OF i(2)] a by simp
    note p = timer_push_queues [OF this assms(3-5), of t]
    have e: "w' = timer_push t h ?w" "b \<longleftrightarrow> pt_heap_index (tq_data w' t) = 0 \<and> oq_front (pt_ops (tq_data w' t)) = h"
      using assms(6) m None by (auto simp: enqueue_timer_def Let_def)
    have "schedule A t x h = A(t \<mapsto> (x, [h]))" using None by (simp add: schedule_def)
    then have "tq_table w' q (schedule A t x h) os" using p(1) i(1) requeued_struct [OF p(2)] a n(2)
      by (simp add: tq_table_def e(1) ops_of_update table_time_update del: fun_upd_apply) (simp add: fun_upd_apply)
    moreover have "pt_heap_index (tq_data w' t) = 0 \<longleftrightarrow> (\<forall>u y ps. A u = Some (y, ps) \<longrightarrow> x < y)"
      using i(3) p(2) by (auto simp: requeued_def e(1))
    ultimately show ?thesis using e p(3) n(2) None by simp
  next
    case (Some yps)
    obtain y ps where A: "A t = Some (y, ps)" "ps \<noteq> []" "ops_of A t = ps" using Some a by (cases yps) (auto simp: ops_of_def)
    note p = timer_push_queues [OF conjunct1 [OF conjunct2 [OF a]] assms(3-5), of t]
    have e: "w' = timer_push t h w" "b \<longleftrightarrow> pt_heap_index (tq_data w' t) = 0 \<and> oq_front (pt_ops (tq_data w' t)) = h"
      using assms(6) m A(1) by (auto simp: enqueue_timer_def Let_def)
    have S: "schedule A t x h = A(t \<mapsto> (y, ps @ [h]))" using A(1) by (simp add: schedule_def)
    have "?S = ?S(t \<mapsto> y)" using A(1) by auto
    then have "tq_table w' q (schedule A t x h) os" using p(1) requeued_struct [OF p(2)] a A(3)
      by (simp add: tq_table_def e(1) S ops_of_update table_time_update del: fun_upd_apply) (simp add: fun_upd_apply)
    then show ?thesis using e(2) p(3) A by (simp add: e(1))
  qed
qed

lemma table_remove:
  assumes "tq_struct w (\<lambda>u. map_option fst (A u))" "queues w ((ops_of A)(t := [])) q os" "A t = Some (x, ps)" "\<forall>t x. A t \<noteq> Some (x, [])"
  shows "tq_table (remove_timer t w) q (A(t := None)) os" "length (tq_heap (remove_timer t w)) < length (tq_heap w)"
    "tq_aborted (remove_timer t w) = tq_aborted w" "tq_links (remove_timer t w) = tq_links w"
proof -
  note r = remove_struct [OF assms(1), of t x]
  show "tq_table (remove_timer t w) q (A(t := None)) os"
    using r(1) same_ops_queues [OF r(2)] assms(2-4)
    by (simp add: tq_table_def ops_of_update table_time_update del: fun_upd_apply) (simp add: fun_upd_apply)
qed (use remove_struct(2,3) [OF assms(1), of t x] assms(3) in \<open>simp_all add: same_ops_def\<close>)

text \<open>The timers that are due come out in the order of their times, each with all its operations.\<close>

lemma table_ready:
  assumes "tq_table w q A os"
  shows "\<exists>w' q' ts. ready_loop now w q = Some (w', q') \<and> tq_table w' q' (later now A) (os @ concat (map (ops_of A) ts)) \<and>
    distinct ts \<and> set ts = {t. \<exists>x ps. A t = Some (x, ps) \<and> x \<le> now} \<and> sorted (map (\<lambda>t. fst (the (A t))) ts) \<and> tq_aborted w' = tq_aborted w \<and>
    kept w w' (set os \<union> waiting A)"
  using assms
proof (induction "length (tq_heap w)" arbitrary: w q A os rule: less_induct)
  case less
  let ?S = "\<lambda>u. map_option fst (A u)"
  note a = less.prems [unfolded tq_table_def]
  show ?case
  proof (cases "tq_heap w \<noteq> [] \<and> \<not> now < htime w 0")
    case False
    have n: "now < x" if "A t = Some (x, ps)" for t x ps
    proof -
      have "?S t = Some x" using that by simp
      then have "tq_heap w \<noteq> []" "htime w 0 \<le> x" using struct_heap_Nil [of w ?S] struct_root(2) [of w ?S t x] a by (auto dest: fun_cong [of _ _ t])
      then show ?thesis using False by (meson less_le_trans)
    qed
    then have "later now A = A" by (auto simp: later_def fun_eq_iff split: option.splits)
    moreover have "{t. \<exists>x ps. A t = Some (x, ps) \<and> x \<le> now} = {}" using n by force
    moreover have "ready_loop now w q = Some (w, q)" using False by (subst ready_loop.simps) auto
    ultimately show ?thesis using less.prems by (intro exI [of _ w] exI [of _ q] exI [of _ "[]"]) (simp add: kept_def)
  next
    case True
    let ?t = "htimer w 0" and ?x = "htime w 0"
    obtain ps where t: "A ?t = Some (?x, ps)" using struct_root(1) [of w ?S] a True by fastforce
    obtain w1 q1 where p: "push_ops ?t w q = (w1, q1)" by fastforce
    note s = push_ops_queues [OF conjunct1 [OF conjunct2 [OF a]] p]
    have o: "ops_of A ?t = ps" using t by (simp add: ops_of_def)
    have "tq_struct w1 ?S" using requeued_struct [OF s(2)] a by simp
    note r = table_remove [OF this s(1) t conjunct2 [OF conjunct2 [OF a]]]
    let ?A = "A(?t := None)"
    have h: "tq_heap w1 = tq_heap w" using s(2) by (simp add: requeued_def)
    obtain w' q' ts where i: "ready_loop now (remove_timer ?t w1) q1 = Some (w', q')"
        "tq_table w' q' (later now ?A) ((os @ ps) @ concat (map (ops_of ?A) ts))" "distinct ts"
        "set ts = {t. \<exists>x ps. ?A t = Some (x, ps) \<and> x \<le> now}" "sorted (map (\<lambda>t. fst (the (?A t))) ts)" "tq_aborted w' = tq_aborted w"
        "kept (remove_timer ?t w1) w' (set (os @ ps) \<union> waiting ?A)"
      using less.hyps [OF _ r(1)] r(2,3) s(3) h o by (auto simp del: fun_upd_apply)
    have nt: "?t \<notin> set ts" using i(4) by simp
    have e: "later now ?A = later now A" "map (ops_of ?A) ts = map (ops_of A) ts" "map (\<lambda>t. fst (the (?A t))) ts = map (\<lambda>t. fst (the (A t))) ts"
      using t True nt by (auto simp: later_def ops_of_def fun_eq_iff)
    have "?x \<le> fst (the (A u))" if "u \<in> set ts" for u
      using that i(4) nt struct_root(2) [of w ?S u] a True by (auto split: if_splits)
    then have "sorted (map (\<lambda>t. fst (the (A t))) (?t # ts))" using i(5) t unfolding e(3) by simp
    moreover have "set (?t # ts) = {t. \<exists>x ps. A t = Some (x, ps) \<and> x \<le> now}" using i(4) t True by auto
    moreover have "tq_table w' q' (later now A) (os @ concat (map (ops_of A) (?t # ts)))" using i(2) o unfolding e(1,2) by simp
    moreover have "ready_loop now w q = Some (w', q')" using True p i(1) by (subst ready_loop.simps) (simp add: Let_def)
    moreover have "distinct (?t # ts)" using i(3) nt by simp
    moreover have "kept w w' (set os \<union> waiting A)"
    proof (rule kept_trans)
      show "kept w (remove_timer ?t w1) (set os)" using s(4) r(4) by (simp add: kept_def)
      show "set (os @ ps) \<union> waiting ?A \<subseteq> set os \<union> waiting A" using o by (auto simp: waiting_def ops_of_update split: if_splits)
    qed (use i(7) in auto)
    ultimately show ?thesis using i(6) by blast
  qed
qed

lemma table_cancel:
  assumes "tq_table w q A os" "t \<noteq> 0" "n = min m (length (ops_of A t))"
  shows "\<exists>w' q'. cancel_timer t m w q = Some (w', q', n) \<and> tq_table w' q' (withdraw A t n) (os @ take n (ops_of A t)) \<and>
    tq_aborted w' = (\<lambda>h. h \<in> set (take n (ops_of A t)) \<or> tq_aborted w h) \<and> kept w w' (set os \<union> set (ops_of A t))"
proof -
  let ?S = "\<lambda>u. map_option fst (A u)"
  note a = assms(1) [unfolded tq_table_def]
  have m: "pt_prev (tq_data w t) = 0 \<and> t \<noteq> tq_timers w \<longleftrightarrow> A t = None" using table_mem [OF assms(1,2)] .
  show ?thesis
  proof (cases "A t")
    case None
    then have "cancel_timer t m w q = Some (w, q, 0)" using m by (simp add: cancel_timer_def)
    then show ?thesis using None assms(1,3) by (simp add: ops_of_def withdraw_def kept_def)
  next
    case (Some xps)
    obtain x ps where A: "A t = Some (x, ps)" "ops_of A t = ps" using Some by (cases xps) (auto simp: ops_of_def)
    obtain w1 q1 where c: "cancel_loop t m w q 0 = Some (w1, q1, n)" "requeued w w1" "queues w1 ((ops_of A)(t := drop n ps)) q1 (os @ take n ps)"
        "tq_aborted w1 = (\<lambda>h. h \<in> set (take n ps) \<or> tq_aborted w h)" "kept w w1 (set os \<union> set ps)"
      using cancel_loop_queues [OF conjunct1 [OF conjunct2 [OF a]], of 0 m n t] assms(3) A(2) by auto
    have s: "tq_struct w1 ?S" using requeued_struct [OF c(2)] a by simp
    have "queue_of (tq_links w1) (pt_ops (tq_data w1 t)) (drop n ps)" using c(3) unfolding queues_def by (metis fun_upd_same)
    then have e: "oq_empty (pt_ops (tq_data w1 t)) \<longleftrightarrow> length ps \<le> n" using queue_of_empty by fastforce
    have f: "cancel_timer t m w q = Some (if length ps \<le> n then remove_timer t w1 else w1, q1, n)"
      using m A(1) c(1) e by (auto simp: cancel_timer_def)
    show ?thesis
    proof (cases "length ps \<le> n")
      case True
      then have "queues w1 ((ops_of A)(t := [])) q1 (os @ ps)" using c(3) by simp
      note r = table_remove [OF s this A(1) conjunct2 [OF conjunct2 [OF a]]]
      show ?thesis using r(1,3,4) f c(4,5) True A by (simp add: withdraw_def kept_def)
    next
      case False
      have "?S = ?S(t \<mapsto> x)" using A(1) by auto
      then have "tq_table w1 q1 (A(t \<mapsto> (x, drop n ps))) (os @ take n ps)" using c(3) s a False
        by (simp add: tq_table_def ops_of_update table_time_update del: fun_upd_apply) (simp add: fun_upd_apply)
      then show ?thesis using f c(4,5) False A by (simp add: withdraw_def)
    qed
  qed
qed

lemma all_loop_queues:
  assumes "queues w Q q os" "dseg (tq_data w) p xs 0" "distinct xs" "0 \<notin> set xs" "tq_timers w = first_of xs 0"
    and "\<And>t. t \<notin> set xs \<Longrightarrow> pt_prev (tq_data w t) = 0"
  shows "\<exists>w' q'. all_loop w q = Some (w', q') \<and> queues w' (\<lambda>t. if t \<in> set xs then [] else Q t) q' (os @ concat (map Q xs)) \<and>
    tq_timers w' = 0 \<and> (\<forall>t. pt_prev (tq_data w' t) = 0) \<and> tq_aborted w' = tq_aborted w \<and>
    kept w w' (set os \<union> (\<Union>u. set (Q u)))"
  using assms
proof (induction xs arbitrary: w Q q os p)
  case Nil
  then have "all_loop w q = Some (w, q)" by (subst all_loop.simps) (simp add: first_of_def)
  then show ?case using Nil by (simp add: first_of_def kept_def)
next
  case (Cons x xs)
  let ?w = "w\<lparr>tq_timers := pt_next (tq_data w x)\<rparr>"
  obtain w1 q1 where p: "push_ops x ?w q = (w1, q1)" by fastforce
  have "queues ?w Q q os" using Cons.prems(1) by (simp add: queues_def)
  note s = push_ops_queues [OF this p]
  let ?w2 = "upd_timer x (\<lambda>d. d\<lparr>pt_next := 0, pt_prev := 0\<rparr>) w1"
  have x: "x \<noteq> 0" "x \<notin> set xs" "tq_timers w = x" using Cons.prems(3-5) by (auto simp: first_of_def)
  have l: "all_loop w q = all_loop ?w2 q1" using x p by (subst all_loop.simps) (simp add: Let_def)
  have "queues ?w2 (Q(x := [])) q1 (os @ Q x)" using s(1) same_ops_queues [of w1 ?w2] by (simp add: same_ops_def)
  moreover have "dseg (tq_data ?w2) x xs 0"
    using Cons.prems(2) x(2) dseg_cong [of xs "tq_data w1" "tq_data w" x 0] s(2) by (simp add: requeued_def)
  moreover have "tq_timers ?w2 = first_of xs 0" using s(2) Cons.prems(2) by (simp add: requeued_def)
  moreover have "pt_prev (tq_data ?w2 t) = 0" if "t \<notin> set xs" for t using that Cons.prems(6) s(2) by (simp add: requeued_def)
  moreover have "distinct xs" "0 \<notin> set xs" using Cons.prems(3,4) by auto
  ultimately have "\<exists>w' q'. all_loop ?w2 q1 = Some (w', q') \<and>
      queues w' (\<lambda>t. if t \<in> set xs then [] else (Q(x := [])) t) q' ((os @ Q x) @ concat (map (Q(x := [])) xs)) \<and>
      tq_timers w' = 0 \<and> (\<forall>t. pt_prev (tq_data w' t) = 0) \<and> tq_aborted w' = tq_aborted ?w2 \<and>
      kept ?w2 w' (set (os @ Q x) \<union> (\<Union>u. set ((Q(x := [])) u)))"
    by (intro Cons.IH)
  moreover have "kept w v (set os \<union> (\<Union>u. set (Q u)))" if "kept ?w2 v (set (os @ Q x) \<union> (\<Union>u. set ((Q(x := [])) u)))" for v
    using that s(4) by (auto simp: kept_def)
  moreover have "map (Q(x := [])) xs = map Q xs" using x(2) by simp
  moreover have "(\<lambda>t. if t \<in> set xs then [] else (Q(x := [])) t) = (\<lambda>t. if t \<in> set (x # xs) then [] else Q t)" by auto
  ultimately show ?case using l s(3) by simp blast
qed

lemma table_all:
  fixes A :: "'t::linorder table"
  assumes "tq_table w q A os"
  shows "\<exists>w' q' ts. get_all_timers w q = Some (w', q') \<and> tq_table w' q' Map.empty (os @ concat (map (ops_of A) ts)) \<and>
    distinct ts \<and> set ts = dom A \<and> tq_empty w' \<and> tq_aborted w' = tq_aborted w \<and> kept w w' (set os \<union> waiting A)"
proof -
  note a = assms [unfolded tq_table_def tq_struct_def]
  obtain xs where xs: "active w xs" "set xs = dom A" using a by (auto simp: dom_def)
  obtain w1 q1 where l: "all_loop w q = Some (w1, q1)" "queues w1 (\<lambda>t. if t \<in> set xs then [] else ops_of A t) q1 (os @ concat (map (ops_of A) xs))"
      "tq_timers w1 = 0" "\<forall>t. pt_prev (tq_data w1 t) = 0" "tq_aborted w1 = tq_aborted w" "kept w w1 (set os \<union> waiting A)"
    unfolding waiting_def using all_loop_queues [of w "ops_of A" q os 0 xs] a xs(1) by (auto simp: active_def)
  have "(\<lambda>t. if t \<in> set xs then [] else ops_of A t) = ops_of (Map.empty :: 't table)" using xs(2) by (auto simp: ops_of_def fun_eq_iff split: option.splits)
  then have "queues w1 (ops_of (Map.empty :: 't table)) q1 (os @ concat (map (ops_of A) xs))" using l(2) by simp
  moreover have "tq_struct (w1\<lparr>tq_heap := []\<rparr>) Map.empty"
    using l(3,4) by (auto simp: tq_struct_def idx_ok_def heap_ord_def expiries_def Map.graph_def active_def first_of_def)
  ultimately have "tq_table (w1\<lparr>tq_heap := []\<rparr>) q1 Map.empty (os @ concat (map (ops_of A) xs))"
    using same_ops_queues [of w1 "w1\<lparr>tq_heap := []\<rparr>"] by (simp add: tq_table_def same_ops_def)
  then show ?thesis using l xs
    by (intro exI [of _ "w1\<lparr>tq_heap := []\<rparr>"] exI [of _ q1] exI [of _ xs]) (simp add: get_all_timers_def tq_empty_def active_def kept_def)
qed

lemma table_make: "tq_table (tq_make index) oq_make Map.empty []"
  by (auto simp: tq_table_def tq_struct_def tq_make_def per_timer_make_def idx_ok_def heap_ord_def expiries_def Map.graph_def active_def
      first_of_def queues_def ops_of_def queue_of_Nil)

lemma table_delivered: "tq_table w q A os \<Longrightarrow> distinct os \<and> (\<forall>u. set os \<inter> set (ops_of A u) = {})"
  by (simp add: tq_table_def queues_def queue_of_def)

subsection \<open>The contract of the timer queue\<close>

datatype 't tq_call = Enqueue 't nat nat | Ready 't | Cancel nat nat

fun scheduled :: "'t tq_call list \<Rightarrow> nat list" where
  "scheduled [] = []"
| "scheduled (Enqueue x t h # cs) = h # scheduled cs"
| "scheduled (_ # cs) = scheduled cs"

fun call_timer :: "'t tq_call \<Rightarrow> nat option" where
  "call_timer (Enqueue x t h) = Some t"
| "call_timer (Ready now) = None"
| "call_timer (Cancel t m) = Some t"

lemma UN_queues: "(\<Union>u. set ((Q(t := v)) u)) = set v \<union> (\<Union>u\<in>- {t}. set (Q u))"
  by (auto split: if_splits)

lemma waiting_schedule: "waiting (schedule A t x h) = insert h (waiting A)"
proof -
  have "ops_of (schedule A t x h) = (ops_of A)(t := ops_of A t @ [h])" by (auto simp: schedule_def ops_of_def split: option.splits)
  then show ?thesis using UN_queues [of "ops_of A" t "ops_of A t @ [h]"] UN_queues [of "ops_of A" t "ops_of A t"] by (simp add: waiting_def del: fun_upd_apply)
qed

lemma waiting_withdraw: "waiting (withdraw A t n) \<union> set (take n (ops_of A t)) = waiting A"
proof -
  have "ops_of (withdraw A t n) = (ops_of A)(t := drop n (ops_of A t))" by (auto simp: withdraw_def ops_of_def split: option.splits)
  moreover have "set (drop n (ops_of A t)) \<union> set (take n (ops_of A t)) = set (ops_of A t)" by (metis append_take_drop_id set_append sup_commute)
  ultimately show ?thesis using UN_queues [of "ops_of A" t "drop n (ops_of A t)"] UN_queues [of "ops_of A" t "ops_of A t"]
    by (auto simp: waiting_def simp del: fun_upd_apply)
qed

lemma waiting_later: "set ts = {t. \<exists>x ps. A t = Some (x, ps) \<and> x \<le> now} \<Longrightarrow> waiting (later now A) \<union> set (concat (map (ops_of A) ts)) = waiting A"
proof -
  assume ts: "set ts = {t. \<exists>x ps. A t = Some (x, ps) \<and> x \<le> now}"
  have "ops_of (later now A) u = (if u \<in> set ts then [] else ops_of A u)" for u
    unfolding ts by (auto simp: later_def ops_of_def split: option.splits)
  then have "waiting (later now A) = (\<Union>u\<in>- set ts. set (ops_of A u))" by (auto simp: waiting_def split: if_splits)
  then show ?thesis by (auto simp: waiting_def)
qed

locale timer_table =
  fixes tbl :: "'w \<Rightarrow> 'q \<Rightarrow> ('t::linorder) table \<Rightarrow> nat list \<Rightarrow> bool"
    and enqueue :: "'t \<Rightarrow> nat \<Rightarrow> nat \<Rightarrow> 'w \<Rightarrow> 'w \<times> bool"
    and ready :: "'t \<Rightarrow> 'w \<Rightarrow> 'q \<Rightarrow> ('w \<times> 'q) option"
    and cancel :: "nat \<Rightarrow> nat \<Rightarrow> 'w \<Rightarrow> 'q \<Rightarrow> ('w \<times> 'q \<times> nat) option"
  assumes delivered_apart: "tbl w q A os \<Longrightarrow> distinct os \<and> (\<forall>u. set os \<inter> set (ops_of A u) = {})"
    and enqueue_schedules: "tbl w q A os \<Longrightarrow> t \<noteq> 0 \<Longrightarrow> h \<noteq> 0 \<Longrightarrow> h \<notin> set os \<Longrightarrow> (\<And>u. h \<notin> set (ops_of A u)) \<Longrightarrow>
      enqueue x t h w = (w', b) \<Longrightarrow> tbl w' q (schedule A t x h) os"
    and ready_delivers: "tbl w q A os \<Longrightarrow> \<exists>w' q' ts. ready now w q = Some (w', q') \<and>
      tbl w' q' (later now A) (os @ concat (map (ops_of A) ts)) \<and> set ts = {t. \<exists>x ps. A t = Some (x, ps) \<and> x \<le> now}"
    and cancel_withdraws: "tbl w q A os \<Longrightarrow> t \<noteq> 0 \<Longrightarrow> \<exists>w' q' n. cancel t m w q = Some (w', q', n) \<and>
      tbl w' q' (withdraw A t n) (os @ take n (ops_of A t))"
begin

fun run_calls :: "'t tq_call list \<Rightarrow> 'w \<Rightarrow> 'q \<Rightarrow> ('w \<times> 'q) option" where
  "run_calls [] w q = Some (w, q)"
| "run_calls (Enqueue x t h # cs) w q = run_calls cs (fst (enqueue x t h w)) q"
| "run_calls (Ready now # cs) w q = Option.bind (ready now w q) (\<lambda>(w', q'). run_calls cs w' q')"
| "run_calls (Cancel t m # cs) w q = Option.bind (cancel t m w q) (\<lambda>(w', q', n). run_calls cs w' q')"

text \<open>Every operation handed to the queue is delivered once or still waits.\<close>

lemma run_conserves:
  assumes "tbl w q A os" "distinct (scheduled cs)" "0 \<notin> set (scheduled cs)" "set (scheduled cs) \<inter> (set os \<union> waiting A) = {}"
    and "\<And>c. c \<in> set cs \<Longrightarrow> call_timer c \<noteq> Some 0"
  shows "\<exists>w' q' A' os'. run_calls cs w q = Some (w', q') \<and> tbl w' q' A' os' \<and> set os' \<union> waiting A' = set os \<union> waiting A \<union> set (scheduled cs)"
  using assms
proof (induction cs arbitrary: w q A os)
  case Nil
  then show ?case by auto
next
  case (Cons c cs)
  have t: "\<And>c. c \<in> set cs \<Longrightarrow> call_timer c \<noteq> Some 0" "call_timer c \<noteq> Some 0" using Cons.prems(5) by auto
  show ?case
  proof (cases c)
    case (Enqueue x t' h)
    obtain w1 b where e: "enqueue x t' h w = (w1, b)" by fastforce
    have "h \<notin> set (ops_of A u)" for u using Cons.prems(4) Enqueue by (auto simp: waiting_def)
    then have 1: "tbl w1 q (schedule A t' x h) os"
      by (intro enqueue_schedules [OF Cons.prems(1) _ _ _ _ e]) (use Cons.prems(3,4) Enqueue t(2) in auto)
    show ?thesis using Cons.IH [OF 1 _ _ _ t(1)] Cons.prems(2-4) Enqueue e by (simp add: waiting_schedule)
  next
    case (Ready now)
    obtain w1 q1 ts where r: "ready now w q = Some (w1, q1)" "tbl w1 q1 (later now A) (os @ concat (map (ops_of A) ts))"
        "set ts = {t. \<exists>x ps. A t = Some (x, ps) \<and> x \<le> now}" using ready_delivers [OF Cons.prems(1), of now] by blast
    have "set (os @ concat (map (ops_of A) ts)) \<union> waiting (later now A) = set os \<union> waiting A" using waiting_later [OF r(3)] by auto
    then show ?thesis using Cons.IH [OF r(2) _ _ _ t(1)] Cons.prems(2-4) Ready r(1) by simp
  next
    case (Cancel t' m)
    obtain w1 q1 n where r: "cancel t' m w q = Some (w1, q1, n)" "tbl w1 q1 (withdraw A t' n) (os @ take n (ops_of A t'))"
      using cancel_withdraws [OF Cons.prems(1), of t' m] Cancel t(2) by auto
    have "set (os @ take n (ops_of A t')) \<union> waiting (withdraw A t' n) = set os \<union> waiting A" using waiting_withdraw [of A t' n] by auto
    then show ?thesis using Cons.IH [OF r(2) _ _ _ t(1)] Cons.prems(2-4) Cancel r(1) by simp
  qed
qed

end

lemma get_ready_timers_loop: "get_ready_timers now w q = ready_loop now w q"
  by (subst ready_loop.simps) (auto simp: get_ready_timers_def ready_loop.simps)

interpretation tq: timer_table tq_table enqueue_timer get_ready_timers cancel_timer
proof (unfold_locales, goal_cases)
  case (1 w q A os)
  then show ?case by (rule table_delivered)
next
  case (2 w q A os t h x w' b)
  then show ?case using table_enqueue by blast
next
  case (3 w q A os now)
  then show ?case unfolding get_ready_timers_loop using table_ready by blast
next
  case (4 w q A os t m)
  then show ?case using table_cancel [OF 4 refl, of m] by blast
qed

subsection \<open>Properties\<close>

text \<open>\<open>get_ready_timers\<close> delivers what is due. It returns, moves all operations of exactly the timers
  whose time is not later than \<open>now\<close> to the queue it was given, timer after timer in the order of
  their times and for each timer in the order they were queued, and leaves the other timers as
  they were, in a queue that is still well formed.\<close>

theorem timers_ready:
  assumes "tq_table w q A os"
  shows "\<exists>w' q' ts. get_ready_timers now w q = Some (w', q') \<and> tq_table w' q' (later now A) (os @ concat (map (ops_of A) ts)) \<and>
    distinct ts \<and> set ts = {t. \<exists>x ps. A t = Some (x, ps) \<and> x \<le> now} \<and> sorted (map (\<lambda>t. fst (the (A t))) ts) \<and> tq_aborted w' = tq_aborted w"
  unfolding get_ready_timers_loop using table_ready [OF assms] by blast

theorem timers_ready_witness:
  "\<exists>w q w' q'. enqueue_timer 5 1 10 (tq_make (\<lambda>_. 0)) = (w, True) \<and> get_ready_timers (7::int) w oq_make = Some (w', q') \<and>
    oq_destroy (tq_links w') q' = Some [10] \<and> tq_table w' q' Map.empty [10]"
proof -
  obtain w b where e: "enqueue_timer (5::int) 1 10 (tq_make (\<lambda>_. 0)) = (w, b)" by fastforce
  have t: "tq_table w oq_make [1 \<mapsto> (5, [10])] []" "b"
    using table_enqueue [OF table_make _ _ _ _ e] by (auto simp: ops_of_def schedule_def)
  let ?A = "[1 \<mapsto> (5::int, [10])] :: int table"
  obtain w' q' ts where r: "get_ready_timers 7 w oq_make = Some (w', q')" "tq_table w' q' (later 7 ?A) ([] @ concat (map (ops_of ?A) ts))"
      "distinct ts" "set ts = {t. \<exists>x ps. ?A t = Some (x, ps) \<and> x \<le> 7}"
    using timers_ready [OF t(1), of 7] by blast
  have "set ts = {1}" using r(4) by (auto split: if_splits)
  then have "ts = [1]" using r(3) by (cases ts) (auto simp: subset_singleton_iff)
  moreover have "later 7 ?A = Map.empty" by (auto simp: later_def)
  ultimately have "tq_table w' q' Map.empty [10]" using r(2) by (simp add: ops_of_def)
  moreover from this have "oq_destroy (tq_links w') q' = Some [10]" using oq_destroy_all by (simp add: tq_table_def queues_def)
  ultimately show ?thesis using e t(2) r(1) by auto
qed

text \<open>A new wait is scheduled, and the reactor is told when it is the first to expire. \<open>enqueue_timer\<close>
  with a new operation adds it at the end of the operations of its timer, which keeps its time if it
  is already waiting, and returns true exactly if the timer was idle and all others expire later.\<close>

theorem timer_scheduled:
  assumes "tq_table w q A os" "t \<noteq> 0" "h \<noteq> 0" "h \<notin> set os" "h \<notin> waiting A" "enqueue_timer x t h w = (w', b)"
  shows "tq_table w' q (schedule A t x h) os \<and> (b \<longleftrightarrow> A t = None \<and> (\<forall>u y ps. A u = Some (y, ps) \<longrightarrow> x < y))"
  by (rule table_enqueue [OF assms(1-4) _ assms(6)]) (use assms(5) in \<open>simp add: waiting_def\<close>)

theorem timer_scheduled_witness:
  "\<exists>w'. enqueue_timer (5::int) 1 10 (tq_make (\<lambda>_. 0)) = (w', True) \<and> tq_table w' oq_make [1 \<mapsto> (5, [10])] []"
proof -
  obtain w b where e: "enqueue_timer (5::int) 1 10 (tq_make (\<lambda>_. 0)) = (w, b)" by fastforce
  show ?thesis using timer_scheduled [OF table_make _ _ _ _ e] e by (auto simp: waiting_def ops_of_def schedule_def)
qed

text \<open>No wait is lost and none is delivered twice. After any calls of \<open>enqueue_timer\<close>, \<open>get_ready_timers\<close>
  and \<open>cancel_timer\<close> on a new queue, all of which return, every operation that was enqueued is either
  delivered, once, or still waits for its timer; \<open>get_all_timers\<close> then delivers the rest and leaves the
  queue empty.\<close>

theorem timer_waits_conserved:
  fixes cs :: "'t::linorder tq_call list"
  assumes "distinct (scheduled cs)" "0 \<notin> set (scheduled cs)" "\<And>c. c \<in> set cs \<Longrightarrow> call_timer c \<noteq> Some 0"
  shows "\<exists>w q A os w' q' os'. tq.run_calls cs (tq_make index) oq_make = Some (w, q) \<and> tq_table w q A os \<and>
    distinct os \<and> set os \<inter> waiting A = {} \<and> set os \<union> waiting A = set (scheduled cs) \<and>
    get_all_timers w q = Some (w', q') \<and> oq_destroy (tq_links w') q' = Some (os @ os') \<and> distinct (os @ os') \<and> set os' = waiting A \<and> tq_empty w'"
proof -
  have "waiting (Map.empty :: 't table) = {}" by (auto simp: waiting_def ops_of_def)
  then obtain w q and A :: "'t table" and os where r: "tq.run_calls cs (tq_make index) oq_make = Some (w, q)" "tq_table w q A os"
      "set os \<union> waiting A = set (scheduled cs)"
    using tq.run_conserves [OF table_make assms(1,2) _ assms(3)] by fastforce
  have d: "distinct os" "set os \<inter> waiting A = {}" using table_delivered [OF r(2)] by (auto simp: waiting_def)
  obtain w' q' ts where a: "get_all_timers w q = Some (w', q')" "tq_table w' q' Map.empty (os @ concat (map (ops_of A) ts))" "set ts = dom A" "tq_empty w'"
    using table_all [OF r(2)] by blast
  have "queue_of (tq_links w') q' (os @ concat (map (ops_of A) ts))" using a(2) by (simp add: tq_table_def queues_def)
  then have "oq_destroy (tq_links w') q' = Some (os @ concat (map (ops_of A) ts))" "distinct (os @ concat (map (ops_of A) ts))"
    using oq_destroy_all by (blast, simp add: queue_of_def)
  moreover have "set (concat (map (ops_of A) ts)) = waiting A"
  proof -
    have "ops_of A u = []" if "u \<notin> set ts" for u using that a(3) by (auto simp: ops_of_def split: option.splits)
    then show ?thesis by (fastforce simp: waiting_def)
  qed
  ultimately show ?thesis using r d a(1,4) by blast
qed

theorem timer_waits_conserved_witness:
  "\<exists>w q. tq.run_calls [Enqueue (5::int) 1 10, Enqueue 3 2 11, Ready 4, Cancel 1 1] (tq_make (\<lambda>_. 0)) oq_make = Some (w, q)"
proof -
  let ?cs = "[Enqueue (5::int) 1 10, Enqueue 3 2 11, Ready 4, Cancel 1 1]"
  have "c \<in> set ?cs \<Longrightarrow> call_timer c \<noteq> Some 0" for c by auto
  then show ?thesis using timer_waits_conserved [of ?cs "\<lambda>_. 0"] by fastforce
qed

end
