(* ===== verification/Chrono_Time.thy ===== *)
theory Chrono_Time
  imports Timer_Queue_Props "HOL-Library.Signed_Division"
begin

text \<open>
  Times and durations of the timers of asio (\<^verbatim>\<open>asio/detail/chrono_time_traits.hpp\<close>) and the time a reactor
  may wait (\<^verbatim>\<open>timer_queue.hpp\<close>, \<^verbatim>\<open>impl/timer_queue_set.ipp\<close>). A time point or a duration is a 64-bit count of
  ticks of the clock; an operation whose exact value does not fit is undefined in C++ and \<open>None\<close>
  here. The period of a clock is the ratio of two positive numbers.
\<close>

subsection \<open>Arithmetic that saturates\<close>

definition tick_min :: int where "tick_min = - (2 ^ 63)"
definition tick_max :: int where "tick_max = 2 ^ 63 - 1"

definition int64 :: "int \<Rightarrow> bool" where
  "int64 x \<longleftrightarrow> tick_min \<le> x \<and> x \<le> tick_max"

definition chk64 :: "int \<Rightarrow> int option" where
  "chk64 x = (if int64 x then Some x else None)"

definition chrono_add :: "int \<Rightarrow> int \<Rightarrow> int option" where
  "chrono_add t d = (let epoch = 0 in
     if t \<ge> epoch
     then Option.bind (chk64 (tick_max - t)) (\<lambda>room. if room < d then Some tick_max else chk64 (t + d))
     else Option.bind (chk64 (t - tick_min)) (\<lambda>room. Option.bind (chk64 (- room)) (\<lambda>r.
       if r > d then Some tick_min else chk64 (t + d))))"

definition chrono_subtract :: "int \<Rightarrow> int \<Rightarrow> int option" where
  "chrono_subtract t1 t2 = (let epoch = 0 in
     if t1 \<ge> epoch
     then if t2 \<ge> epoch then chk64 (t1 - t2)
       else if t2 = tick_min then Some tick_max
       else Option.bind (chk64 (tick_max - t1)) (\<lambda>room. Option.bind (chk64 (epoch - t2)) (\<lambda>n.
         if room < n then Some tick_max else chk64 (t1 - t2)))
     else if t2 < epoch then chk64 (t1 - t2)
       else if t1 = tick_min then Some tick_min
       else Option.bind (chk64 (tick_max - t2)) (\<lambda>room. Option.bind (chk64 (epoch - t1)) (\<lambda>n.
         if room < n then Some tick_min else Option.bind (chk64 (t2 - t1)) (\<lambda>d. chk64 (- d)))))"

definition clamp64 :: "int \<Rightarrow> int" where
  "clamp64 x = max tick_min (min tick_max x)"

subsection \<open>Conversion of durations\<close>

fun ct_gcd :: "nat \<Rightarrow> nat \<Rightarrow> nat" where
  "ct_gcd v1 v2 = (if v2 = 0 then v1 else ct_gcd v2 (v1 mod v2))"

declare ct_gcd.simps [simp del]

text \<open>\<open>duration_cast<Num, Den>\<close> for a clock with the period \<open>pnum / pden\<close>.\<close>

definition chrono_cast :: "nat \<Rightarrow> nat \<Rightarrow> nat \<Rightarrow> nat \<Rightarrow> int \<Rightarrow> int option" where
  "chrono_cast pnum pden Num Den ticks = (let
       num1 = pnum div ct_gcd pnum Num; num2 = Num div ct_gcd pnum Num;
       den1 = pden div ct_gcd pden Den; den2 = Den div ct_gcd pden Den;
       num = num1 * den2; den = num2 * den1
     in if num = 1 \<and> den = 1 then Some ticks
        else if num \<noteq> 1 \<and> den = 1 then chk64 (ticks * int num)
        else if num = 1 \<and> pden \<noteq> 1 then Some (ticks sdiv int den)
        else Option.bind (chk64 (ticks * int num)) (\<lambda>x. Some (x sdiv int den)))"

definition total_milliseconds :: "nat \<Rightarrow> nat \<Rightarrow> int \<Rightarrow> int option" where
  "total_milliseconds pnum pden ticks = chrono_cast pnum pden 1 1000 ticks"

definition total_microseconds :: "nat \<Rightarrow> nat \<Rightarrow> int \<Rightarrow> int option" where
  "total_microseconds pnum pden ticks = chrono_cast pnum pden 1 1000000 ticks"

subsection \<open>How long to wait\<close>

definition to_msec :: "nat \<Rightarrow> nat \<Rightarrow> int \<Rightarrow> int \<Rightarrow> int option" where
  "to_msec pnum pden ticks max_duration = (if ticks \<le> 0 then Some 0
     else Option.bind (total_milliseconds pnum pden ticks) (\<lambda>msec.
       Some (if msec = 0 then 1 else if msec > max_duration then max_duration else msec)))"

definition to_usec :: "nat \<Rightarrow> nat \<Rightarrow> int \<Rightarrow> int \<Rightarrow> int option" where
  "to_usec pnum pden ticks max_duration = (if ticks \<le> 0 then Some 0
     else Option.bind (total_microseconds pnum pden ticks) (\<lambda>usec.
       Some (if usec = 0 then 1 else if usec > max_duration then max_duration else usec)))"

definition wait_duration_msec :: "nat \<Rightarrow> nat \<Rightarrow> int \<Rightarrow> int \<Rightarrow> int timer_queue \<Rightarrow> int option" where
  "wait_duration_msec pnum pden now max_duration w = (if tq_heap w = [] then Some max_duration
     else Option.bind (chrono_subtract (htime w 0) now) (\<lambda>d. to_msec pnum pden d max_duration))"

definition wait_duration_usec :: "nat \<Rightarrow> nat \<Rightarrow> int \<Rightarrow> int \<Rightarrow> int timer_queue \<Rightarrow> int option" where
  "wait_duration_usec pnum pden now max_duration w = (if tq_heap w = [] then Some max_duration
     else Option.bind (chrono_subtract (htime w 0) now) (\<lambda>d. to_usec pnum pden d max_duration))"

text \<open>The timer queues of a reactor, in the order of their list; the clock is read for each of them.\<close>

fun set_wait_msec :: "(int timer_queue \<times> int) list \<Rightarrow> nat \<Rightarrow> nat \<Rightarrow> int \<Rightarrow> int option" where
  "set_wait_msec [] pnum pden min_duration = Some min_duration"
| "set_wait_msec ((w, now) # ws) pnum pden min_duration =
     Option.bind (wait_duration_msec pnum pden now min_duration w) (\<lambda>m. set_wait_msec ws pnum pden m)"

fun set_wait_usec :: "(int timer_queue \<times> int) list \<Rightarrow> nat \<Rightarrow> nat \<Rightarrow> int \<Rightarrow> int option" where
  "set_wait_usec [] pnum pden min_duration = Some min_duration"
| "set_wait_usec ((w, now) # ws) pnum pden min_duration =
     Option.bind (wait_duration_usec pnum pden now min_duration w) (\<lambda>m. set_wait_usec ws pnum pden m)"

subsection \<open>Lemmas\<close>

lemmas tick_defs = int64_def chk64_def clamp64_def tick_min_def tick_max_def

lemma add_clamp: "int64 t \<Longrightarrow> int64 d \<Longrightarrow> chrono_add t d = Some (clamp64 (t + d))"
  by (auto simp: chrono_add_def tick_defs Let_def)

lemma subtract_clamp: "int64 t1 \<Longrightarrow> int64 t2 \<Longrightarrow> chrono_subtract t1 t2 = Some (clamp64 (t1 - t2))"
  by (cases "0 \<le> t1"; cases "0 \<le> t2") (simp_all add: chrono_subtract_def tick_defs Let_def)

lemma ct_gcd_gcd: "ct_gcd m n = gcd m n"
  by (induction m n rule: ct_gcd.induct) (subst ct_gcd.simps, simp add: gcd_non_0_nat)

lemma sdiv_mult_cancel: "0 < c \<Longrightarrow> (a * c) sdiv (b * c) = (a sdiv b :: int)"
  by (simp add: signed_divide_int_def sgn_mult abs_mult)

lemma cast_value:
  assumes "0 < pnum" "0 < pden" "0 < Num" "0 < Den" "chrono_cast pnum pden Num Den ticks = Some r"
  shows "r = (ticks * int (pnum * Den)) sdiv int (pden * Num)"
proof -
  let ?g = "gcd pnum Num" and ?h = "gcd pden Den"
  let ?num = "(pnum div ?g) * (Den div ?h)" and ?den = "(Num div ?g) * (pden div ?h)"
  have "pnum * Den = (pnum div ?g * ?g) * (Den div ?h * ?h)" "pden * Num = (pden div ?h * ?h) * (Num div ?g * ?g)" by simp_all
  then have "pnum * Den = ?num * (?g * ?h)" "pden * Num = ?den * (?g * ?h)" by (simp_all only: ac_simps)
  moreover have "0 < int (?g * ?h)" using assms(1,2) by simp
  ultimately have "(ticks * int (pnum * Den)) sdiv int (pden * Num) = (ticks * int ?num) sdiv int ?den"
    using sdiv_mult_cancel [of "int (?g * ?h)" "ticks * int ?num" "int ?den"] by (simp only: of_nat_mult mult.assoc)
  then show ?thesis using assms(5)
    by (auto simp: chrono_cast_def ct_gcd_gcd chk64_def Let_def bind_eq_Some_conv split: if_splits)
qed

text \<open>A clock that counts nanoseconds never overflows in the conversion.\<close>

lemma nanosecond_cast:
  "total_milliseconds 1 1000000000 ticks = Some (ticks sdiv 1000000)"
  "total_microseconds 1 1000000000 ticks = Some (ticks sdiv 1000)"
  by (simp_all add: total_milliseconds_def total_microseconds_def chrono_cast_def ct_gcd.simps Let_def)

text \<open>The wait in units of \<open>unit\<close> nanoseconds for a first timer that expires in \<open>d\<close> nanoseconds.\<close>

definition wait_value :: "int \<Rightarrow> int \<Rightarrow> int \<Rightarrow> int" where
  "wait_value unit d m = (if d \<le> 0 then 0 else if d div unit = 0 then 1 else if d div unit > m then m else d div unit)"

lemma wait_duration_value:
  assumes "tq_heap w \<noteq> []" "int64 (htime w 0)" "int64 now"
  shows "wait_duration_msec 1 1000000000 now m w = Some (wait_value 1000000 (clamp64 (htime w 0 - now)) m)"
    "wait_duration_usec 1 1000000000 now m w = Some (wait_value 1000 (clamp64 (htime w 0 - now)) m)"
  using assms(1) subtract_clamp [OF assms(2,3)]
  by (simp_all add: wait_duration_msec_def wait_duration_usec_def to_msec_def to_usec_def nanosecond_cast wait_value_def
      signed_divide_int_def del: One_nat_def)

lemma wait_value_bounds:
  assumes "0 < unit" "0 \<le> m" "r = wait_value unit (clamp64 d) m"
  shows "0 \<le> r" "r \<le> max m 1" "d \<le> 0 \<Longrightarrow> r = 0" "r = 0 \<Longrightarrow> m = 0 \<or> d \<le> 0" "d \<le> e \<Longrightarrow> r \<le> 1 \<or> r * unit \<le> e"
proof -
  let ?d = "clamp64 d"
  have d: "?d \<le> 0 \<longleftrightarrow> d \<le> 0" "0 < ?d \<Longrightarrow> ?d \<le> d" by (auto simp: clamp64_def tick_min_def tick_max_def)
  have q: "?d div unit * unit \<le> ?d" using div_mult_mod_eq [of ?d unit] pos_mod_sign [OF assms(1), of ?d] by linarith
  show "0 \<le> r" "r \<le> max m 1" using assms by (auto simp: wait_value_def div_int_pos_iff)
  show "d \<le> 0 \<Longrightarrow> r = 0" "r = 0 \<Longrightarrow> m = 0 \<or> d \<le> 0" using assms(3) d(1) by (auto simp: wait_value_def split: if_splits)
  assume e: "d \<le> e"
  show "r \<le> 1 \<or> r * unit \<le> e"
  proof (cases "?d \<le> 0 \<or> ?d div unit = 0")
    case False
    then have u: "?d div unit * unit \<le> e" "r \<le> ?d div unit" using q d(2) e assms(3) by (auto simp: wait_value_def)
    then show ?thesis using mult_right_mono [OF u(2), of unit] assms(1) by linarith
  qed (use assms(3) in \<open>auto simp: wait_value_def\<close>)
qed

lemma heap_first: "heap_ord (times w) \<Longrightarrow> e \<in> set (tq_heap w) \<Longrightarrow> htime w 0 \<le> he_time e"
proof -
  assume a: "heap_ord (times w)" "e \<in> set (tq_heap w)"
  then obtain k where "k < length (tq_heap w)" "e = tq_heap w ! k" by (metis in_set_conv_nth)
  then show "htime w 0 \<le> he_time e" using heap_root [OF a(1), of k] by (cases "tq_heap w = []") (simp_all add: nth_map [of 0])
qed

lemma wait_one:
  assumes "heap_ord (times w)" "\<And>e. e \<in> set (tq_heap w) \<Longrightarrow> int64 (he_time e)" "int64 now" "0 \<le> m"
  obtains r where "wait_duration_msec 1 1000000000 now m w = Some r" "0 \<le> r" "r \<le> max m 1"
    "\<And>e. e \<in> set (tq_heap w) \<Longrightarrow> r \<le> 1 \<or> r * 1000000 \<le> he_time e - now" "r = 0 \<Longrightarrow> m = 0 \<or> (\<exists>e\<in>set (tq_heap w). he_time e \<le> now)"
proof (cases "tq_heap w = []")
  case True
  then show thesis using that [of m] assms(4) by (simp add: wait_duration_msec_def)
next
  case False
  then have h: "tq_heap w ! 0 \<in> set (tq_heap w)" by simp
  note v = wait_duration_value(1) [OF False assms(2) [OF h] assms(3), of m] and b = wait_value_bounds [of 1000000 m _ "htime w 0 - now", OF _ assms(4) refl]
  show thesis
  proof (rule that [OF v])
    show "wait_value 1000000 (clamp64 (htime w 0 - now)) m = 0 \<Longrightarrow> m = 0 \<or> (\<exists>e\<in>set (tq_heap w). he_time e \<le> now)" using b(4) h by fastforce
  qed (use b heap_first [OF assms(1)] in simp_all)
qed

lemma set_wait:
  assumes "\<And>w now. (w, now) \<in> set ws \<Longrightarrow> heap_ord (times w) \<and> int64 now \<and> (\<forall>e\<in>set (tq_heap w). int64 (he_time e))" "0 \<le> m"
  shows "\<exists>r. set_wait_msec ws 1 1000000000 m = Some r \<and> 0 \<le> r \<and> r \<le> max m 1 \<and>
    (\<forall>(w, now)\<in>set ws. \<forall>e\<in>set (tq_heap w). r \<le> 1 \<or> r * 1000000 \<le> he_time e - now) \<and>
    (r = 0 \<longrightarrow> m = 0 \<or> (\<exists>(w, now)\<in>set ws. \<exists>e\<in>set (tq_heap w). he_time e \<le> now))"
  using assms
proof (induction ws arbitrary: m)
  case (Cons p ws)
  obtain w now where p: "p = (w, now)" by fastforce
  have a: "heap_ord (times w)" "int64 now" "\<And>e. e \<in> set (tq_heap w) \<Longrightarrow> int64 (he_time e)" using Cons.prems(1) [of w now] p by auto
  obtain r1 where r1: "wait_duration_msec 1 1000000000 now m w = Some r1" "0 \<le> r1" "r1 \<le> max m 1"
      "\<And>e. e \<in> set (tq_heap w) \<Longrightarrow> r1 \<le> 1 \<or> r1 * 1000000 \<le> he_time e - now" "r1 = 0 \<Longrightarrow> m = 0 \<or> (\<exists>e\<in>set (tq_heap w). he_time e \<le> now)"
    using wait_one [OF a(1,3,2) Cons.prems(2)] by metis
  have ws: "heap_ord (times w) \<and> int64 now \<and> (\<forall>e\<in>set (tq_heap w). int64 (he_time e))" if "(w, now) \<in> set ws" for w now
    using Cons.prems(1) [of w now] that by simp
  obtain r where r: "set_wait_msec ws 1 1000000000 r1 = Some r" "0 \<le> r" "r \<le> max r1 1"
      "\<forall>(w, now)\<in>set ws. \<forall>e\<in>set (tq_heap w). r \<le> 1 \<or> r * 1000000 \<le> he_time e - now"
      "r = 0 \<longrightarrow> r1 = 0 \<or> (\<exists>(w, now)\<in>set ws. \<exists>e\<in>set (tq_heap w). he_time e \<le> now)"
    using Cons.IH [OF ws r1(2)] by blast
  have "r \<le> 1 \<or> r * 1000000 \<le> he_time e - now" if "e \<in> set (tq_heap w)" for e using r1(4) [OF that] r(3) by linarith
  moreover have "set_wait_msec (p # ws) 1 1000000000 m = Some r" using r1(1) r(1) p by (simp del: One_nat_def)
  moreover have "r \<le> max m 1" using r(3) r1(3) by linarith
  moreover have "r = 0 \<longrightarrow> m = 0 \<or> (\<exists>(w, now)\<in>set (p # ws). \<exists>e\<in>set (tq_heap w). he_time e \<le> now)" using r(5) r1(5) p by auto
  ultimately show ?case using r(2,4) p by (intro exI [of _ r]) auto
qed simp

text \<open>The result is not the least of the waits: a queue whose first timer is due within a millisecond
  answers 1 even when it is asked for at most 0.\<close>

lemma wait_above_limit:
  assumes "tq_heap w \<noteq> []" "int64 (htime w 0)" "int64 now" "0 < htime w 0 - now" "htime w 0 - now < 1000000"
  shows "wait_duration_msec 1 1000000000 now 0 w = Some 1"
proof -
  have "clamp64 (htime w 0 - now) = htime w 0 - now" using assms(4,5) by (simp add: clamp64_def tick_min_def tick_max_def)
  then show ?thesis using wait_duration_value(1) [OF assms(1-3), of 0] assms(4,5) by (simp add: wait_value_def)
qed

subsection \<open>Properties\<close>

text \<open>The arithmetic on times is exact until it saturates. For any two 64-bit times or durations no
  step of \<open>add\<close> or \<open>subtract\<close> overflows and the result is the exact sum or difference, limited to the range
  of the type; whenever \<open>duration_cast\<close> does not overflow its result is the exact quotient, rounded
  towards zero, whatever the period of the clock.\<close>

theorem chrono_arithmetic:
  assumes "int64 t" "int64 u" "0 < pnum" "0 < pden" "0 < Num" "0 < Den" "chrono_cast pnum pden Num Den ticks = Some r"
  shows "chrono_add t u = Some (clamp64 (t + u)) \<and> chrono_subtract t u = Some (clamp64 (t - u)) \<and>
    r = (ticks * int (pnum * Den)) sdiv int (pden * Num)"
  using add_clamp [OF assms(1,2)] subtract_clamp [OF assms(1,2)] cast_value [OF assms(3-7)] by simp

theorem chrono_arithmetic_witness:
  "chrono_add (2 ^ 63 - 5) 10 = Some (2 ^ 63 - 1) \<and> chrono_subtract (2 ^ 63 - 5) 10 = Some (2 ^ 63 - 15)"
  using chrono_arithmetic [of "2 ^ 63 - 5" 10 1 1000000000 1 1000 7 0] nanosecond_cast(1) [of 7]
  by (simp add: tick_defs total_milliseconds_def signed_divide_int_def)

text \<open>A reactor does not oversleep and does not spin. With timer queues of a clock of nanoseconds and a
  positive limit, the wait of \<open>timer_queue_set::wait_duration_msec\<close> is computed without overflow, is between
  0 and the limit, ends before every timer of every queue expires unless it is at most one
  millisecond, and is 0 only if a timer has expired.\<close>

theorem reactor_wait:
  assumes "\<And>w now. (w, now) \<in> set ws \<Longrightarrow> \<exists>q A os. tq_table w q A os \<and> int64 now \<and> (\<forall>u x ps. A u = Some (x, ps) \<longrightarrow> int64 x)" "0 < m"
  shows "\<exists>r. set_wait_msec ws 1 1000000000 m = Some r \<and> 0 \<le> r \<and> r \<le> m \<and>
    (\<forall>(w, now)\<in>set ws. \<forall>e\<in>set (tq_heap w). r \<le> 1 \<or> r * 1000000 \<le> he_time e - now) \<and>
    (r = 0 \<longrightarrow> (\<exists>(w, now)\<in>set ws. \<exists>e\<in>set (tq_heap w). he_time e \<le> now))"
proof -
  have "heap_ord (times w) \<and> int64 now \<and> (\<forall>e\<in>set (tq_heap w). int64 (he_time e))" if m: "(w, now) \<in> set ws" for w now
  proof -
    obtain q A os where t: "tq_table w q A os" "int64 now" "\<forall>u x ps. A u = Some (x, ps) \<longrightarrow> int64 x" using assms(1) [OF m] by blast
    then have "(he_timer e, he_time e) \<in> Map.graph (\<lambda>u. map_option fst (A u))" if "e \<in> set (tq_heap w)" for e
      using that by (auto simp: tq_table_def tq_struct_def expiries_def)
    then have "int64 (he_time e)" if "e \<in> set (tq_heap w)" for e using that t(3) by (fastforce simp: Map.graph_def)
    then show ?thesis using t by (auto simp: tq_table_def tq_struct_def)
  qed
  then show ?thesis using set_wait [of ws m] assms(2) by fastforce
qed

theorem reactor_wait_witness:
  "\<exists>w b r. enqueue_timer (3000000::int) 1 10 (tq_make (\<lambda>_. 0)) = (w, b) \<and> set_wait_msec [(w, 0)] 1 1000000000 300000 = Some r \<and> 0 \<le> r \<and> r \<le> 300000"
proof -
  obtain w b where e: "enqueue_timer (3000000::int) 1 10 (tq_make (\<lambda>_. 0)) = (w, b)" by fastforce
  have "tq_table w oq_make [1 \<mapsto> (3000000, [10])] []"
    using table_enqueue [OF table_make _ _ _ _ e] by (auto simp: ops_of_def schedule_def)
  then have "\<exists>q A os. tq_table v q A os \<and> int64 now \<and> (\<forall>u x ps. A u = Some (x, ps) \<longrightarrow> int64 x)" if "(v, now) \<in> set [(w, 0)]" for v now
    using that by (intro exI [of _ oq_make] exI [of _ "[1 \<mapsto> (3000000, [10])]"] exI [of _ "[]"]) (auto simp: tick_defs split: if_splits)
  then show ?thesis using reactor_wait [of "[(w, 0)]" 300000] e by fastforce
qed

end
