(* ===== verification/Timer_Service.thy ===== *)
theory Timer_Service
  imports Chrono_Time
begin

text \<open>
  Timers as a program sees them: \<open>deadline_timer_service\<close> (\<^verbatim>\<open>asio/detail/deadline_timer_service.hpp\<close>) on top of
  the timer operations of the epoll reactor (\<^verbatim>\<open>asio/detail/impl/epoll_reactor.hpp\<close>, \<^verbatim>\<open>epoll_reactor.ipp\<close>) and
  the queue of completed operations of the scheduler (\<^verbatim>\<open>asio/detail/impl/task_io_service.ipp\<close>), for a clock of
  nanoseconds, a reactor with a timer descriptor and this one timer queue, and a scheduler that is not
  restricted to one thread.

  The state has the timer queue with its memory, the operations posted for invocation, the count of
  outstanding work, and the last call of \<open>timerfd_settime\<close> with the time it was made. Clock readings are
  arguments: \<open>now\<close> is what the code reads, \<open>st\<close> the time of the system call. A wait operation is new
  memory, so its address is an argument too. The tracking macros and locks have no effect here.
\<close>

subsection \<open>The reactor\<close>

record itimerspec =
  it_sec :: int
  it_nsec :: int

record timer_service =
  ts_queue :: "int timer_queue"
  ts_posted :: op_queue
  ts_work :: nat
  ts_shutdown :: bool
  ts_timerfd :: "(int \<times> itimerspec \<times> bool) option"
  ts_expiry :: "nat \<Rightarrow> int"
  ts_might :: "nat \<Rightarrow> bool"

text \<open>\<open>get_timeout(itimerspec&)\<close>; the flag is \<open>TFD_TIMER_ABSTIME\<close>.\<close>

definition get_timeout :: "int \<Rightarrow> int timer_queue \<Rightarrow> (itimerspec \<times> bool) option" where
  "get_timeout now w = Option.bind (set_wait_usec [(w, now)] 1 1000000000 (5 * 60 * 1000 * 1000)) (\<lambda>usec.
     Some (\<lparr>it_sec = usec sdiv 1000000, it_nsec = (if usec \<noteq> 0 then (usec smod 1000000) * 1000 else 1)\<rparr>, usec = 0))"

definition update_timeout :: "int \<Rightarrow> int \<Rightarrow> timer_service \<Rightarrow> timer_service option" where
  "update_timeout now st s = Option.bind (get_timeout now (ts_queue s)) (\<lambda>(spec, flags).
     Some (s\<lparr>ts_timerfd := Some (st, spec, flags)\<rparr>))"

definition post_immediate_completion :: "nat \<Rightarrow> timer_service \<Rightarrow> timer_service" where
  "post_immediate_completion h s = (case oq_push (tq_links (ts_queue s)) (ts_posted s) h of (l, q) \<Rightarrow>
     s\<lparr>ts_work := ts_work s + 1, ts_queue := (ts_queue s)\<lparr>tq_links := l\<rparr>, ts_posted := q\<rparr>)"

text \<open>\<open>op_queue_.push(ops)\<close> of the scheduler.\<close>

definition push_posted :: "op_queue \<Rightarrow> timer_service \<Rightarrow> timer_service" where
  "push_posted ops s = (case oq_push_all (tq_links (ts_queue s)) (ts_posted s) ops of (l, q, r) \<Rightarrow>
     s\<lparr>ts_queue := (ts_queue s)\<lparr>tq_links := l\<rparr>, ts_posted := q\<rparr>)"

definition post_deferred_completions :: "op_queue \<Rightarrow> timer_service \<Rightarrow> timer_service" where
  "post_deferred_completions ops s = (if \<not> oq_empty ops then push_posted ops s else s)"

definition schedule_timer :: "int \<Rightarrow> nat \<Rightarrow> nat \<Rightarrow> int \<Rightarrow> int \<Rightarrow> timer_service \<Rightarrow> timer_service option" where
  "schedule_timer time t h now st s = (if ts_shutdown s then Some (post_immediate_completion h s)
     else case enqueue_timer time t h (ts_queue s) of (w, earliest) \<Rightarrow>
       let s1 = s\<lparr>ts_queue := w, ts_work := ts_work s + 1\<rparr>
       in if earliest then update_timeout now st s1 else Some s1)"

definition reactor_cancel_timer :: "nat \<Rightarrow> nat \<Rightarrow> timer_service \<Rightarrow> (timer_service \<times> nat) option" where
  "reactor_cancel_timer t max_cancelled s = Option.bind (cancel_timer t max_cancelled (ts_queue s) oq_make) (\<lambda>(w, ops, n).
     Some (post_deferred_completions ops (s\<lparr>ts_queue := w\<rparr>), n))"

text \<open>The part of \<open>epoll_reactor::run\<close> after the timer descriptor was ready, and what the scheduler does with the
  operations it returns.\<close>

definition run_timers :: "int \<Rightarrow> int \<Rightarrow> int \<Rightarrow> timer_service \<Rightarrow> timer_service option" where
  "run_timers due now st s = Option.bind (get_ready_timers due (ts_queue s) oq_make) (\<lambda>(w, ops).
     Option.bind (update_timeout now st (s\<lparr>ts_queue := w\<rparr>)) (\<lambda>s1. Some (push_posted ops s1)))"

subsection \<open>The service\<close>

definition dts_construct :: "nat \<Rightarrow> timer_service \<Rightarrow> timer_service" where
  "dts_construct t s = s\<lparr>ts_expiry := (ts_expiry s)(t := 0), ts_might := (ts_might s)(t := False)\<rparr>"

definition dts_cancel :: "nat \<Rightarrow> timer_service \<Rightarrow> (timer_service \<times> nat) option" where
  "dts_cancel t s = (if \<not> ts_might s t then Some (s, 0)
     else Option.bind (reactor_cancel_timer t (size_max - 1) s) (\<lambda>(s1, n).
       Some (s1\<lparr>ts_might := (ts_might s1)(t := False)\<rparr>, n)))"

definition dts_destroy :: "nat \<Rightarrow> timer_service \<Rightarrow> timer_service option" where
  "dts_destroy t s = map_option fst (dts_cancel t s)"

definition dts_cancel_one :: "nat \<Rightarrow> timer_service \<Rightarrow> (timer_service \<times> nat) option" where
  "dts_cancel_one t s = (if \<not> ts_might s t then Some (s, 0)
     else Option.bind (reactor_cancel_timer t 1 s) (\<lambda>(s1, n).
       Some (if n = 0 then s1\<lparr>ts_might := (ts_might s1)(t := False)\<rparr> else s1, n)))"

definition dts_expires_at :: "nat \<Rightarrow> int \<Rightarrow> timer_service \<Rightarrow> (timer_service \<times> nat) option" where
  "dts_expires_at t x s = Option.bind (dts_cancel t s) (\<lambda>(s1, n). Some (s1\<lparr>ts_expiry := (ts_expiry s1)(t := x)\<rparr>, n))"

definition dts_remaining :: "nat \<Rightarrow> int \<Rightarrow> timer_service \<Rightarrow> int option" where
  "dts_remaining t now s = chrono_subtract (ts_expiry s t) now"

definition dts_expires_from_now :: "nat \<Rightarrow> int \<Rightarrow> int \<Rightarrow> timer_service \<Rightarrow> (timer_service \<times> nat) option" where
  "dts_expires_from_now t d now s = Option.bind (chrono_add now d) (\<lambda>x. dts_expires_at t x s)"

definition dts_async_wait :: "nat \<Rightarrow> nat \<Rightarrow> int \<Rightarrow> int \<Rightarrow> timer_service \<Rightarrow> timer_service option" where
  "dts_async_wait t h now st s = schedule_timer (ts_expiry s t) t h now st (s\<lparr>ts_might := (ts_might s)(t := True)\<rparr>)"

definition ts_make :: "(nat \<Rightarrow> nat) \<Rightarrow> timer_service" where
  "ts_make index = \<lparr>ts_queue = tq_make index, ts_posted = oq_make, ts_work = 0, ts_shutdown = False, ts_timerfd = None,
     ts_expiry = (\<lambda>_. 0), ts_might = (\<lambda>_. False)\<rparr>"

subsection \<open>The invariant\<close>

text \<open>When the descriptor becomes ready, by the documentation of \<open>timerfd_settime\<close>.\<close>

definition fd_expiry :: "int \<Rightarrow> itimerspec \<Rightarrow> bool \<Rightarrow> int" where
  "fd_expiry st spec flags = (if flags then 0 else st) + it_sec spec * 1000000000 + it_nsec spec"

text \<open>The descriptor is set to a time at most a microsecond and the delay \<open>\<delta>\<close> of the system call after \<open>x\<close>, or
  was set to a time already past.\<close>

definition armed_for :: "int \<Rightarrow> timer_service \<Rightarrow> int \<Rightarrow> bool" where
  "armed_for \<delta> s x \<longleftrightarrow> (case ts_timerfd s of None \<Rightarrow> False
     | Some (st, spec, flags) \<Rightarrow> fd_expiry st spec flags \<le> x + 1000 + \<delta> \<or> fd_expiry st spec flags \<le> st)"

definition svc_ok :: "int \<Rightarrow> timer_service \<Rightarrow> int table \<Rightarrow> nat list \<Rightarrow> bool" where
  "svc_ok \<delta> s A os \<longleftrightarrow> tq_table (ts_queue s) (ts_posted s) A os \<and> waiting A \<subseteq> {0<..<size_max} \<and>
     (\<forall>t x ps. A t = Some (x, ps) \<longrightarrow> ts_might s t \<and> x = ts_expiry s t \<and> armed_for \<delta> s x) \<and> (\<forall>t. int64 (ts_expiry s t))"

lemma svc_make: "svc_ok \<delta> (ts_make index) Map.empty []"
  using table_make [of index] by (simp add: svc_ok_def ts_make_def waiting_def ops_of_def int64_def tick_min_def tick_max_def)

text \<open>An operation on the timer queue uses a queue of its own; its result is appended to the posted ones.\<close>

lemma table_local: "tq_table w q A os \<Longrightarrow> tq_table w oq_make A [] \<and> queue_of (tq_links w) q os \<and> set os \<inter> waiting A = {}"
  by (auto simp: tq_table_def queues_def queue_of_Nil waiting_def)

lemma push_posted_table:
  assumes "tq_table w ops A ns" "queue_of (tq_links w) (ts_posted s) os" "set os \<inter> (set ns \<union> waiting A) = {}" "ts_queue s = w"
  shows "tq_table (ts_queue (push_posted ops s)) (ts_posted (push_posted ops s)) A (os @ ns)"
    "tq_aborted (ts_queue (push_posted ops s)) = tq_aborted w" "ts_might (push_posted ops s) = ts_might s" "ts_expiry (push_posted ops s) = ts_expiry s"
    "ts_timerfd (push_posted ops s) = ts_timerfd s" "ts_work (push_posted ops s) = ts_work s" "ts_shutdown (push_posted ops s) = ts_shutdown s"
proof -
  obtain l q r where p: "oq_push_all (tq_links w) (ts_posted s) ops = (l, q, r)" by (metis prod.collapse)
  have f: "push_posted ops s = s\<lparr>ts_queue := w\<lparr>tq_links := l\<rparr>, ts_posted := q\<rparr>" using p assms(4) by (simp add: push_posted_def)
  note a = assms(1) [unfolded tq_table_def queues_def]
  have "queue_of (tq_links w) ops ns" "set os \<inter> set ns = {}" using a assms(3) by auto
  then have q: "queue_of l q (os @ ns)" using oq_push_all_append [OF assms(2) _ _ p] by blast
  have "queue_of l (pt_ops (tq_data w u)) (ops_of A u)" for u
    by (rule oq_push_all_frame [OF assms(2) p]) (use a assms(3) in \<open>auto simp: waiting_def\<close>)
  then have "queues (w\<lparr>tq_links := l\<rparr>) (ops_of A) q (os @ ns)"
    using a q assms(3) by (auto simp: queues_def waiting_def)
  moreover have "tq_struct (w\<lparr>tq_links := l\<rparr>) (\<lambda>t. map_option fst (A t))"
    using a requeued_struct [of w "w\<lparr>tq_links := l\<rparr>"] by (simp add: requeued_def)
  ultimately show "tq_table (ts_queue (push_posted ops s)) (ts_posted (push_posted ops s)) A (os @ ns)" using a by (simp add: tq_table_def f)
qed (use assms(4) in \<open>simp_all add: push_posted_def split: prod.split\<close>)

lemma post_deferred_is_push: "post_deferred_completions ops s = push_posted ops s"
  by (simp add: post_deferred_completions_def push_posted_def oq_empty_def oq_push_all_def)

subsection \<open>The timer descriptor is set early enough\<close>

lemma get_timeout_early:
  assumes "tq_struct w S" "\<And>t x. S t = Some x \<Longrightarrow> int64 x" "int64 now" "st \<le> now + \<delta>" "0 < st"
  shows "\<exists>spec flags. get_timeout now w = Some (spec, flags) \<and>
    (\<forall>t x. S t = Some x \<longrightarrow> fd_expiry st spec flags \<le> x + 1000 + \<delta> \<or> fd_expiry st spec flags \<le> st)"
proof (cases "tq_heap w = []")
  case True
  then show ?thesis using struct_heap_Nil [OF assms(1)] by (auto simp: get_timeout_def wait_duration_usec_def)
next
  case False
  let ?r = "wait_value 1000 (clamp64 (htime w 0 - now)) 300000000"
  let ?spec = "\<lparr>it_sec = ?r sdiv 1000000, it_nsec = (if ?r \<noteq> 0 then (?r smod 1000000) * 1000 else 1)\<rparr>"
  note root = struct_root [OF assms(1) False]
  have "int64 (htime w 0)" using assms(2) root(1) .
  then have g: "get_timeout now w = Some (?spec, ?r = 0)"
    using wait_duration_value(2) [OF False _ assms(3)] by (simp add: get_timeout_def del: One_nat_def)
  note b = wait_value_bounds [of 1000 300000000 ?r "htime w 0 - now", OF _ _ refl]
  have split: "r div 1000000 * 1000000000 + r mod 1000000 * 1000 = r * 1000" for r :: int using div_mult_mod_eq [of r 1000000] by linarith
  have v: "fd_expiry st ?spec (?r = 0) = (if ?r = 0 then 1 else st + ?r * 1000)"
    using b(1) split [of ?r] by (auto simp: fd_expiry_def signed_divide_int_def signed_modulo_int_def)
  have "fd_expiry st ?spec (?r = 0) \<le> x + 1000 + \<delta> \<or> fd_expiry st ?spec (?r = 0) \<le> st" if x: "S t = Some x" for t x
  proof (cases "?r = 0")
    case True
    then show ?thesis using v assms(5) by simp
  next
    case False
    have "0 < x - now" "htime w 0 - now \<le> x - now" using b(3) False root(2) [OF x] by linarith+
    moreover from this have "?r \<le> 1 \<or> ?r * 1000 \<le> x - now" using b(5) by simp
    moreover have "fd_expiry st ?spec (?r = 0) = st + ?r * 1000" using v False by simp
    ultimately show ?thesis using assms(4) by linarith
  qed
  then show ?thesis using g by blast
qed

lemma update_timeout_ok:
  assumes "tq_table (ts_queue s) q A os" "\<And>t x ps. A t = Some (x, ps) \<Longrightarrow> int64 x" "int64 now" "st \<le> now + \<delta>" "0 < st"
  obtains call where "update_timeout now st s = Some (s\<lparr>ts_timerfd := Some call\<rparr>)"
    "\<And>t x ps. A t = Some (x, ps) \<Longrightarrow> armed_for \<delta> (s\<lparr>ts_timerfd := Some call\<rparr>) x"
proof -
  have t: "tq_struct (ts_queue s) (\<lambda>t. map_option fst (A t))" using assms(1) by (simp add: tq_table_def)
  have i: "\<forall>t x. map_option fst (A t) = Some x \<longrightarrow> int64 x" using assms(2) by auto
  obtain spec flags where g: "get_timeout now (ts_queue s) = Some (spec, flags)"
      "\<forall>t x. map_option fst (A t) = Some x \<longrightarrow> fd_expiry st spec flags \<le> x + 1000 + \<delta> \<or> fd_expiry st spec flags \<le> st"
    using get_timeout_early [OF t _ assms(3-5)] i by metis
  show thesis by (rule that [of "(st, spec, flags)"]) (use g in \<open>auto simp: update_timeout_def armed_for_def\<close>)
qed

subsection \<open>The operations keep the invariant\<close>

lemma async_wait_ok:
  assumes "svc_ok \<delta> s A os" "\<not> ts_shutdown s" "t \<noteq> 0" "h \<in> {0<..<size_max}" "h \<notin> set os" "h \<notin> waiting A"
    and "int64 now" "st \<le> now + \<delta>" "0 < st"
  shows "\<exists>s'. dts_async_wait t h now st s = Some s' \<and> svc_ok \<delta> s' (schedule A t (ts_expiry s t) h) os \<and>
    ts_work s' = ts_work s + 1 \<and> \<not> ts_shutdown s' \<and> ts_expiry s' = ts_expiry s \<and> ts_timerfd s' \<noteq> None"
proof -
  let ?x = "ts_expiry s t" and ?s = "s\<lparr>ts_might := (ts_might s)(t := True)\<rparr>"
  let ?A = "schedule A t ?x h"
  note a = assms(1) [unfolded svc_ok_def]
  obtain w b where e: "enqueue_timer ?x t h (ts_queue s) = (w, b)" by fastforce
  have h: "h \<notin> set (ops_of A u)" for u using assms(6) by (simp add: waiting_def)
  have t: "tq_table w (ts_posted s) ?A os" "b \<longleftrightarrow> A t = None \<and> (\<forall>u y ps. A u = Some (y, ps) \<longrightarrow> ?x < y)"
    using table_enqueue [OF conjunct1 [OF a] assms(3) _ assms(5) h e] assms(4) by auto
  let ?s1 = "?s\<lparr>ts_queue := w, ts_work := ts_work s + 1\<rparr>"
  have f: "dts_async_wait t h now st s = (if b then update_timeout now st ?s1 else Some ?s1)"
    using e assms(2) by (simp add: dts_async_wait_def schedule_timer_def Let_def)
  have times: "x = ts_expiry s u \<and> (u = t \<or> ts_might s u)" if "?A u = Some (x, ps)" for u x ps
    using that a by (auto simp: schedule_def split: option.splits if_splits)
  have i: "int64 x" if "?A u = Some (x, ps)" for u x ps using times [OF that] a by simp
  have w: "waiting ?A \<subseteq> {0<..<size_max}" using a assms(4) by (auto simp: waiting_schedule)
  show ?thesis
  proof (cases b)
    case True
    obtain call where c: "update_timeout now st ?s1 = Some (?s1\<lparr>ts_timerfd := Some call\<rparr>)"
        "\<And>u x ps. ?A u = Some (x, ps) \<Longrightarrow> armed_for \<delta> (?s1\<lparr>ts_timerfd := Some call\<rparr>) x"
      by (rule update_timeout_ok [of ?s1 "ts_posted s" ?A os now st \<delta>]) (use t(1) i assms(7-9) in auto)
    then have "svc_ok \<delta> (?s1\<lparr>ts_timerfd := Some call\<rparr>) ?A os" using t(1) w a by (auto simp: svc_ok_def dest: times)
    then show ?thesis using f c(1) True assms(2) by (cases call) simp
  next
    case False
    have near: "\<exists>y. y \<le> ?x \<and> armed_for \<delta> s y"
    proof (cases "A t")
      case None
      then obtain u y ps where "A u = Some (y, ps)" "y \<le> ?x" using False t(2) by (meson not_less)
      then show ?thesis using a by blast
    next
      case (Some yps)
      then show ?thesis using a by (cases yps) blast
    qed
    then have "armed_for \<delta> s ?x" by (force simp: armed_for_def split: option.splits)
    then have "armed_for \<delta> s x" if m: "?A u = Some (x, ps)" for u x ps
    proof (cases "u = t")
      case False
      then have "A u = Some (x, ps)" using m by (simp add: schedule_def split: option.splits prod.splits)
      then show ?thesis using a by blast
    qed (use times [OF m] in simp)
    then have "armed_for \<delta> ?s1 x" if "?A u = Some (x, ps)" for u x ps using that by (simp add: armed_for_def)
    then have "svc_ok \<delta> ?s1 ?A os" using t(1) w a by (auto simp: svc_ok_def dest: times)
    moreover have "ts_timerfd s \<noteq> None" using near by (auto simp: armed_for_def split: option.splits)
    ultimately show ?thesis using f False assms(2) by simp
  qed
qed

definition same_service :: "timer_service \<Rightarrow> timer_service \<Rightarrow> bool" where
  "same_service s s' \<longleftrightarrow> ts_might s' = ts_might s \<and> ts_expiry s' = ts_expiry s \<and> ts_timerfd s' = ts_timerfd s \<and>
     ts_work s' = ts_work s \<and> ts_shutdown s' = ts_shutdown s"

lemma same_service_armed: "same_service s s' \<Longrightarrow> armed_for \<delta> s' x = armed_for \<delta> s x"
  by (simp add: same_service_def armed_for_def)

lemma reactor_cancel_ok:
  assumes "tq_table (ts_queue s) (ts_posted s) A os" "t \<noteq> 0" "n = min m (length (ops_of A t))"
  shows "\<exists>s'. reactor_cancel_timer t m s = Some (s', n) \<and> same_service s s' \<and>
    tq_table (ts_queue s') (ts_posted s') (withdraw A t n) (os @ take n (ops_of A t)) \<and>
    tq_aborted (ts_queue s') = (\<lambda>h. h \<in> set (take n (ops_of A t)) \<or> tq_aborted (ts_queue s) h)"
proof -
  let ?ns = "take n (ops_of A t)"
  note l = table_local [OF assms(1)]
  obtain w ops where c: "cancel_timer t m (ts_queue s) oq_make = Some (w, ops, n)" "tq_table w ops (withdraw A t n) ([] @ ?ns)"
      "tq_aborted w = (\<lambda>h. h \<in> set ?ns \<or> tq_aborted (ts_queue s) h)" "kept (ts_queue s) w (set [] \<union> set (ops_of A t))"
    using table_cancel [OF conjunct1 [OF l] assms(2,3)] by blast
  have d: "set os \<inter> set (ops_of A t) = {}" using l by (auto simp: waiting_def)
  have p: "queue_of (tq_links w) (ts_posted s) os" using kept_queue [OF c(4), of "ts_posted s" os] l d by simp
  have "set os \<inter> (set ?ns \<union> waiting (withdraw A t n)) = {}" using l waiting_withdraw [of A t n] by auto
  then show ?thesis using push_posted_table [of w ops "withdraw A t n" ?ns "s\<lparr>ts_queue := w\<rparr>" os] c p
    by (simp add: reactor_cancel_timer_def post_deferred_is_push same_service_def)
qed

lemma waits_bounded:
  assumes "tq_table w q A os" "waiting A \<subseteq> {0<..<size_max}"
  shows "length (ops_of A t) \<le> size_max - 1"
proof -
  have "distinct (ops_of A t)" using assms(1) by (simp add: tq_table_def queues_def queue_of_def)
  then have "length (ops_of A t) = card (set (ops_of A t))" by (simp add: distinct_card)
  also have "... \<le> card {0<..<size_max}" by (rule card_mono) (use assms(2) in \<open>auto simp: waiting_def\<close>)
  finally show ?thesis by simp
qed

lemma svc_withdraw:
  assumes "svc_ok \<delta> s A os" "same_service s s'" "tq_table (ts_queue s') (ts_posted s') (withdraw A t n) os'"
  shows "svc_ok \<delta> s' (withdraw A t n) os'"
proof -
  note a = assms(1) [unfolded svc_ok_def]
  have "waiting (withdraw A t n) \<subseteq> {0<..<size_max}" using a waiting_withdraw [of A t n] by blast
  moreover have "\<exists>qs. A u = Some (x, qs)" if "withdraw A t n u = Some (x, ps)" for u x ps
    using that by (auto simp: withdraw_def split: option.splits if_splits)
  ultimately show ?thesis using assms(2,3) a same_service_armed [OF assms(2)] unfolding svc_ok_def same_service_def by metis
qed

lemma withdraw_all: "length (ops_of A t) \<le> n \<Longrightarrow> withdraw A t n = A(t := None)"
  by (auto simp: withdraw_def ops_of_def split: option.splits)

text \<open>\<open>cancel\<close> cancels every pending wait of the timer and counts them, with or without its short cut.\<close>

lemma cancel_ok:
  assumes "svc_ok \<delta> s A os" "t \<noteq> 0"
  shows "\<exists>s'. dts_cancel t s = Some (s', length (ops_of A t)) \<and> svc_ok \<delta> s' (A(t := None)) (os @ ops_of A t) \<and>
    tq_aborted (ts_queue s') = (\<lambda>h. h \<in> set (ops_of A t) \<or> tq_aborted (ts_queue s) h) \<and>
    ts_expiry s' = ts_expiry s \<and> ts_work s' = ts_work s \<and> ts_shutdown s' = ts_shutdown s"
proof (cases "ts_might s t")
  case False
  then have "A t = None" using assms(1) by (cases "A t") (auto simp: svc_ok_def)
  then have "A(t := None) = A" "ops_of A t = []" by (auto simp: ops_of_def)
  then show ?thesis using assms(1) False by (simp add: dts_cancel_def)
next
  case True
  note a = assms(1) [unfolded svc_ok_def]
  let ?n = "length (ops_of A t)"
  have n: "?n = min (size_max - 1) ?n" using waits_bounded [of "ts_queue s" "ts_posted s" A os t] a by simp
  obtain s1 where c: "reactor_cancel_timer t (size_max - 1) s = Some (s1, ?n)" "same_service s s1"
      "tq_table (ts_queue s1) (ts_posted s1) (withdraw A t ?n) (os @ take ?n (ops_of A t))"
      "tq_aborted (ts_queue s1) = (\<lambda>h. h \<in> set (take ?n (ops_of A t)) \<or> tq_aborted (ts_queue s) h)"
    using reactor_cancel_ok [OF conjunct1 [OF a] assms(2) n] by blast
  have "svc_ok \<delta> s1 (A(t := None)) (os @ ops_of A t)" using svc_withdraw [OF assms(1) c(2,3)] by (simp add: withdraw_all)
  then have "svc_ok \<delta> (s1\<lparr>ts_might := (ts_might s1)(t := False)\<rparr>) (A(t := None)) (os @ ops_of A t)"
    by (auto simp: svc_ok_def armed_for_def)
  then show ?thesis using c True by (simp add: dts_cancel_def same_service_def)
qed

lemma cancel_one_ok:
  assumes "svc_ok \<delta> s A os" "t \<noteq> 0" "n = min 1 (length (ops_of A t))"
  shows "\<exists>s'. dts_cancel_one t s = Some (s', n) \<and> svc_ok \<delta> s' (withdraw A t n) (os @ take n (ops_of A t)) \<and>
    ts_expiry s' = ts_expiry s \<and> ts_work s' = ts_work s \<and> ts_shutdown s' = ts_shutdown s"
proof (cases "ts_might s t")
  case False
  then have "A t = None" using assms(1) by (cases "A t") (auto simp: svc_ok_def)
  then have "withdraw A t n = A" "ops_of A t = []" by (auto simp: ops_of_def withdraw_def)
  then show ?thesis using assms(1,3) False by (simp add: dts_cancel_one_def)
next
  case True
  note a = assms(1) [unfolded svc_ok_def]
  obtain s1 where c: "reactor_cancel_timer t 1 s = Some (s1, n)" "same_service s s1"
      "tq_table (ts_queue s1) (ts_posted s1) (withdraw A t n) (os @ take n (ops_of A t))"
    using reactor_cancel_ok [OF conjunct1 [OF a] assms(2,3)] by blast
  have s1: "svc_ok \<delta> s1 (withdraw A t n) (os @ take n (ops_of A t))" using svc_withdraw [OF assms(1) c(2,3)] .
  have "withdraw A t n t = None" if "n = 0"
  proof -
    have "ops_of A t = []" using that assms(3) by (simp add: min_def split: if_splits)
    then show ?thesis using that withdraw_all [of A t n] by simp
  qed
  then have "svc_ok \<delta> (if n = 0 then s1\<lparr>ts_might := (ts_might s1)(t := False)\<rparr> else s1) (withdraw A t n) (os @ take n (ops_of A t))"
    using s1 by (cases "n = 0") (auto simp: svc_ok_def armed_for_def)
  then show ?thesis using c True by (simp add: dts_cancel_one_def same_service_def)
qed

lemma expires_at_ok:
  assumes "svc_ok \<delta> s A os" "t \<noteq> 0" "int64 x"
  shows "\<exists>s'. dts_expires_at t x s = Some (s', length (ops_of A t)) \<and> svc_ok \<delta> s' (A(t := None)) (os @ ops_of A t) \<and>
    tq_aborted (ts_queue s') = (\<lambda>h. h \<in> set (ops_of A t) \<or> tq_aborted (ts_queue s) h) \<and>
    ts_expiry s' = (ts_expiry s)(t := x) \<and> ts_work s' = ts_work s \<and> ts_shutdown s' = ts_shutdown s"
proof -
  obtain s1 where c: "dts_cancel t s = Some (s1, length (ops_of A t))" "svc_ok \<delta> s1 (A(t := None)) (os @ ops_of A t)"
      "tq_aborted (ts_queue s1) = (\<lambda>h. h \<in> set (ops_of A t) \<or> tq_aborted (ts_queue s) h)"
      "ts_expiry s1 = ts_expiry s" "ts_work s1 = ts_work s" "ts_shutdown s1 = ts_shutdown s"
    using cancel_ok [OF assms(1,2)] by blast
  have "svc_ok \<delta> (s1\<lparr>ts_expiry := (ts_expiry s1)(t := x)\<rparr>) (A(t := None)) (os @ ops_of A t)"
    using c(2) assms(3) by (auto simp: svc_ok_def armed_for_def)
  then show ?thesis using c by (simp add: dts_expires_at_def)
qed

lemma run_timers_ok:
  assumes "svc_ok \<delta> s A os" "int64 now" "st \<le> now + \<delta>" "0 < st"
  shows "\<exists>s' ts. run_timers due now st s = Some s' \<and> svc_ok \<delta> s' (later due A) (os @ concat (map (ops_of A) ts)) \<and>
    set ts = {t. \<exists>x ps. A t = Some (x, ps) \<and> x \<le> due} \<and> tq_aborted (ts_queue s') = tq_aborted (ts_queue s) \<and>
    ts_expiry s' = ts_expiry s \<and> ts_work s' = ts_work s \<and> ts_shutdown s' = ts_shutdown s"
proof -
  note a = assms(1) [unfolded svc_ok_def]
  note l = table_local [OF conjunct1 [OF a]]
  obtain w ops ts where r: "ready_loop due (ts_queue s) oq_make = Some (w, ops)" "tq_table w ops (later due A) ([] @ concat (map (ops_of A) ts))"
      "set ts = {t. \<exists>x ps. A t = Some (x, ps) \<and> x \<le> due}" "tq_aborted w = tq_aborted (ts_queue s)" "kept (ts_queue s) w (set [] \<union> waiting A)"
    using table_ready [OF conjunct1 [OF l], of due] by blast
  let ?ns = "concat (map (ops_of A) ts)" and ?A = "later due A"
  have W: "waiting ?A \<union> set ?ns = waiting A" using waiting_later [OF r(3)] .
  have p: "queue_of (tq_links w) (ts_posted s) os" using kept_queue [OF r(5), of "ts_posted s" os] l by simp
  have A: "\<exists>qs. A u = Some (x, qs)" if "?A u = Some (x, ps)" for u x ps using that by (auto simp: later_def split: option.splits if_splits)
  have i: "int64 x" if "?A u = Some (x, ps)" for u x ps using A [OF that] a by auto
  let ?s = "s\<lparr>ts_queue := w\<rparr>"
  obtain call where c: "update_timeout now st ?s = Some (?s\<lparr>ts_timerfd := Some call\<rparr>)"
      "\<And>u x ps. ?A u = Some (x, ps) \<Longrightarrow> armed_for \<delta> (?s\<lparr>ts_timerfd := Some call\<rparr>) x"
    by (rule update_timeout_ok [of ?s ops ?A ?ns now st \<delta>]) (use r(2) i assms(2-4) in auto)
  let ?t = "?s\<lparr>ts_timerfd := Some call\<rparr>"
  have "set os \<inter> (set ?ns \<union> waiting ?A) = {}" using l W by blast
  then have q: "tq_table (ts_queue (push_posted ops ?t)) (ts_posted (push_posted ops ?t)) ?A (os @ ?ns)"
      "tq_aborted (ts_queue (push_posted ops ?t)) = tq_aborted w" "same_service ?t (push_posted ops ?t)"
    using push_posted_table [of w ops ?A ?ns ?t os] r(2) p by (simp_all add: same_service_def)
  have "svc_ok \<delta> (push_posted ops ?t) ?A (os @ ?ns)" unfolding svc_ok_def
  proof (intro conjI allI impI)
    show "waiting ?A \<subseteq> {0<..<size_max}" using W a by blast
    fix u x ps assume m: "?A u = Some (x, ps)"
    show "armed_for \<delta> (push_posted ops ?t) x" using c(2) [OF m] same_service_armed [OF q(3)] by simp
    show "ts_might (push_posted ops ?t) u" "x = ts_expiry (push_posted ops ?t) u" using A [OF m] a q(3) by (auto simp: same_service_def)
  qed (use q(1,3) a in \<open>simp_all add: same_service_def\<close>)
  then show ?thesis using r(1,3,4) c(1) q(2,3)
    by (intro exI [of _ "push_posted ops ?t"] exI [of _ ts]) (simp add: run_timers_def get_ready_timers_loop same_service_def)
qed

subsection \<open>Programs of timer operations\<close>

datatype svc_call =
    Async_wait nat nat int int
  | Cancel_all nat
  | Cancel_one nat
  | Expires_at nat int
  | Expires_from_now nat int int
  | Timers_due int int int

fun svc_step :: "svc_call \<Rightarrow> timer_service \<Rightarrow> timer_service option" where
  "svc_step (Async_wait t h now st) s = dts_async_wait t h now st s"
| "svc_step (Cancel_all t) s = map_option fst (dts_cancel t s)"
| "svc_step (Cancel_one t) s = map_option fst (dts_cancel_one t s)"
| "svc_step (Expires_at t x) s = map_option fst (dts_expires_at t x s)"
| "svc_step (Expires_from_now t d now) s = map_option fst (dts_expires_from_now t d now s)"
| "svc_step (Timers_due due now st) s = run_timers due now st s"

fun svc_steps :: "svc_call list \<Rightarrow> timer_service \<Rightarrow> timer_service option" where
  "svc_steps [] s = Some s"
| "svc_steps (c # cs) s = Option.bind (svc_step c s) (svc_steps cs)"

fun svc_waits :: "svc_call list \<Rightarrow> nat list" where
  "svc_waits [] = []"
| "svc_waits (Async_wait t h now st # cs) = h # svc_waits cs"
| "svc_waits (_ # cs) = svc_waits cs"

text \<open>Timers and operations have addresses, times fit in 64 bits, and a call of \<open>timerfd_settime\<close> follows within \<open>\<delta>\<close>
  the reading of the clock it is computed from.\<close>

fun svc_fine :: "int \<Rightarrow> svc_call \<Rightarrow> bool" where
  "svc_fine \<delta> (Async_wait t h now st) \<longleftrightarrow> t \<noteq> 0 \<and> h \<in> {0<..<size_max} \<and> int64 now \<and> st \<le> now + \<delta> \<and> 0 < st"
| "svc_fine \<delta> (Cancel_all t) \<longleftrightarrow> t \<noteq> 0"
| "svc_fine \<delta> (Cancel_one t) \<longleftrightarrow> t \<noteq> 0"
| "svc_fine \<delta> (Expires_at t x) \<longleftrightarrow> t \<noteq> 0 \<and> int64 x"
| "svc_fine \<delta> (Expires_from_now t d now) \<longleftrightarrow> t \<noteq> 0 \<and> int64 d \<and> int64 now"
| "svc_fine \<delta> (Timers_due due now st) \<longleftrightarrow> int64 now \<and> st \<le> now + \<delta> \<and> 0 < st"

lemma clamp64_range: "int64 (clamp64 x)"
  by (simp add: clamp64_def int64_def tick_min_def tick_max_def)

lemma waiting_cancelled: "waiting (A(t := None)) \<union> set (ops_of A t) = waiting A"
  using waiting_withdraw [of A t "length (ops_of A t)"] by (simp add: withdraw_all)

lemma svc_step_ok:
  assumes "svc_ok \<delta> s A os" "\<not> ts_shutdown s" "svc_fine \<delta> c" "set (svc_waits [c]) \<inter> (set os \<union> waiting A) = {}"
  shows "\<exists>s' A' os'. svc_step c s = Some s' \<and> svc_ok \<delta> s' A' os' \<and> \<not> ts_shutdown s' \<and> ts_work s' = ts_work s + length (svc_waits [c]) \<and>
    set os' \<union> waiting A' = set os \<union> waiting A \<union> set (svc_waits [c])"
proof (cases c)
  case (Async_wait t h now st)
  then obtain s' where "dts_async_wait t h now st s = Some s'" "svc_ok \<delta> s' (schedule A t (ts_expiry s t) h) os" "ts_work s' = ts_work s + 1" "\<not> ts_shutdown s'"
    using async_wait_ok [OF assms(1,2), of t h now st] assms(3,4) by auto
  then show ?thesis using Async_wait by (intro exI [of _ s'] exI [of _ "schedule A t (ts_expiry s t) h"] exI [of _ os]) (simp add: waiting_schedule)
next
  case (Cancel_all t)
  then obtain s' where "dts_cancel t s = Some (s', length (ops_of A t))" "svc_ok \<delta> s' (A(t := None)) (os @ ops_of A t)" "ts_work s' = ts_work s" "ts_shutdown s' = ts_shutdown s"
    using cancel_ok [OF assms(1), of t] assms(3) by auto
  then show ?thesis using Cancel_all assms(2) waiting_cancelled [of A t]
    by (intro exI [of _ s'] exI [of _ "A(t := None)"] exI [of _ "os @ ops_of A t"]) auto
next
  case (Cancel_one t)
  define n where "n = min 1 (length (ops_of A t))"
  obtain s' where "dts_cancel_one t s = Some (s', n)" "svc_ok \<delta> s' (withdraw A t n) (os @ take n (ops_of A t))" "ts_work s' = ts_work s" "ts_shutdown s' = ts_shutdown s"
    using cancel_one_ok [OF assms(1) _ n_def] assms(3) Cancel_one by auto
  then show ?thesis using Cancel_one assms(2) waiting_withdraw [of A t n]
    by (intro exI [of _ s'] exI [of _ "withdraw A t n"] exI [of _ "os @ take n (ops_of A t)"]) auto
next
  case (Expires_at t x)
  then obtain s' where "dts_expires_at t x s = Some (s', length (ops_of A t))" "svc_ok \<delta> s' (A(t := None)) (os @ ops_of A t)" "ts_work s' = ts_work s" "ts_shutdown s' = ts_shutdown s"
    using expires_at_ok [OF assms(1), of t x] assms(3) by auto
  then show ?thesis using Expires_at assms(2) waiting_cancelled [of A t]
    by (intro exI [of _ s'] exI [of _ "A(t := None)"] exI [of _ "os @ ops_of A t"]) auto
next
  case (Expires_from_now t d now)
  then have "chrono_add now d = Some (clamp64 (now + d))" using add_clamp assms(3) by simp
  moreover obtain s' where "dts_expires_at t (clamp64 (now + d)) s = Some (s', length (ops_of A t))" "svc_ok \<delta> s' (A(t := None)) (os @ ops_of A t)"
      "ts_work s' = ts_work s" "ts_shutdown s' = ts_shutdown s"
    using expires_at_ok [OF assms(1) _ clamp64_range, of t] assms(3) Expires_from_now by force
  ultimately show ?thesis using Expires_from_now assms(2) waiting_cancelled [of A t]
    by (intro exI [of _ s'] exI [of _ "A(t := None)"] exI [of _ "os @ ops_of A t"]) (auto simp: dts_expires_from_now_def)
next
  case (Timers_due due now st)
  then obtain s' ts where r: "run_timers due now st s = Some s'" "svc_ok \<delta> s' (later due A) (os @ concat (map (ops_of A) ts))"
      "set ts = {t. \<exists>x ps. A t = Some (x, ps) \<and> x \<le> due}" "ts_work s' = ts_work s" "ts_shutdown s' = ts_shutdown s"
    using run_timers_ok [OF assms(1), of now st due] assms(3) by auto
  have "set (os @ concat (map (ops_of A) ts)) \<union> waiting (later due A) = set os \<union> waiting A" using waiting_later [OF r(3)] by auto
  then show ?thesis using Timers_due assms(2) r(1,2,4,5)
    by (intro exI [of _ s'] exI [of _ "later due A"] exI [of _ "os @ concat (map (ops_of A) ts)"]) simp
qed

lemma svc_waits_Cons: "svc_waits (c # cs) = svc_waits [c] @ svc_waits cs"
  by (cases c) simp_all

lemma svc_steps_ok:
  assumes "svc_ok \<delta> s A os" "\<not> ts_shutdown s" "\<forall>c\<in>set cs. svc_fine \<delta> c" "distinct (svc_waits cs)" "set (svc_waits cs) \<inter> (set os \<union> waiting A) = {}"
  shows "\<exists>s' A' os'. svc_steps cs s = Some s' \<and> svc_ok \<delta> s' A' os' \<and> ts_work s' = ts_work s + length (svc_waits cs) \<and>
    set os' \<union> waiting A' = set os \<union> waiting A \<union> set (svc_waits cs)"
  using assms
proof (induction cs arbitrary: s A os)
  case (Cons c cs)
  have w: "svc_waits (c # cs) = svc_waits [c] @ svc_waits cs" by (rule svc_waits_Cons)
  obtain s1 A1 os1 where 1: "svc_step c s = Some s1" "svc_ok \<delta> s1 A1 os1" "\<not> ts_shutdown s1" "ts_work s1 = ts_work s + length (svc_waits [c])"
      "set os1 \<union> waiting A1 = set os \<union> waiting A \<union> set (svc_waits [c])"
    using svc_step_ok [OF Cons.prems(1,2), of c] Cons.prems(3,5) unfolding w by auto
  have "set (svc_waits cs) \<inter> (set os1 \<union> waiting A1) = {}" using 1(5) Cons.prems(4,5) unfolding w by auto
  then obtain s2 A2 os2 where "svc_steps cs s1 = Some s2" "svc_ok \<delta> s2 A2 os2" "ts_work s2 = ts_work s1 + length (svc_waits cs)"
      "set os2 \<union> waiting A2 = set os1 \<union> waiting A1 \<union> set (svc_waits cs)"
    using Cons.IH [OF 1(2,3)] Cons.prems(3,4) unfolding w by auto
  then show ?case using 1(1,4,5) unfolding w by (intro exI [of _ s2] exI [of _ A2] exI [of _ os2]) auto
qed auto

subsection \<open>Properties\<close>

text \<open>C26: the timer service does its work in every state it can reach. After any sequence of waits,
  cancellations, changes of expiry and timer events from a new service, with fresh operations, all of
  which return: every wait is posted for invocation, once, or still waits; the work counted is the
  number of waits; and the timer descriptor is set so that it becomes ready, for every timer that is
  still waited for, at most a microsecond and the delay of the system call after the expiry, so no
  expiry is slept through.\<close>

theorem timer_service_runs:
  assumes "\<forall>c\<in>set cs. svc_fine \<delta> c" "distinct (svc_waits cs)"
  shows "\<exists>s A os. svc_steps cs (ts_make index) = Some s \<and> tq_table (ts_queue s) (ts_posted s) A os \<and>
    distinct os \<and> set os \<inter> waiting A = {} \<and> set os \<union> waiting A = set (svc_waits cs) \<and> ts_work s = length (svc_waits cs) \<and>
    (\<forall>t x ps. A t = Some (x, ps) \<longrightarrow> x = ts_expiry s t \<and> (\<exists>st spec flags. ts_timerfd s = Some (st, spec, flags) \<and>
       (fd_expiry st spec flags \<le> x + 1000 + \<delta> \<or> fd_expiry st spec flags \<le> st)))"
proof -
  have m: "waiting (Map.empty :: int table) = {}" "\<not> ts_shutdown (ts_make index)" "ts_work (ts_make index) = 0"
    by (auto simp: waiting_def ops_of_def ts_make_def)
  obtain s A os where r: "svc_steps cs (ts_make index) = Some s" "svc_ok \<delta> s A os" "ts_work s = length (svc_waits cs)" "set os \<union> waiting A = set (svc_waits cs)"
    using svc_steps_ok [OF svc_make m(2) assms] m(1,3) by auto
  have "distinct os \<and> set os \<inter> waiting A = {}" using table_delivered [of "ts_queue s" "ts_posted s" A os] r(2) by (auto simp: svc_ok_def waiting_def)
  moreover have "x = ts_expiry s t \<and> (\<exists>st spec flags. ts_timerfd s = Some (st, spec, flags) \<and>
      (fd_expiry st spec flags \<le> x + 1000 + \<delta> \<or> fd_expiry st spec flags \<le> st))" if "A t = Some (x, ps)" for t x ps
    using r(2) that by (fastforce simp: svc_ok_def armed_for_def split: option.splits)
  ultimately show ?thesis using r by (intro exI [of _ s] exI [of _ A] exI [of _ os]) (simp add: svc_ok_def)
qed

theorem timer_service_runs_witness:
  "\<exists>s. svc_steps [Expires_from_now 1 5000000000 1000, Async_wait 1 10 1000 1200, Async_wait 1 11 1300 1400, Cancel_one 1, Timers_due 6000000000 6000000100 6000000200]
     (ts_make (\<lambda>_. 0)) = Some s \<and> ts_work s = 2"
  using timer_service_runs [of "[Expires_from_now 1 5000000000 1000, Async_wait 1 10 1000 1200, Async_wait 1 11 1300 1400, Cancel_one 1, Timers_due 6000000000 6000000100 6000000200]" 1000 "\<lambda>_. 0"]
  by (fastforce simp: int64_def tick_min_def tick_max_def size_max_def)

text \<open>Changing the expiry of a timer cancels its waits. In every state of the service \<open>expires_at\<close> returns the
  number of pending waits of the timer, posts exactly these, in the order they were started, with the
  error \<open>operation_aborted\<close>, and leaves the other timers alone, although it asks the reactor only when the
  timer might have pending waits; the new expiry is the one asked for.\<close>

theorem timer_expires_at:
  assumes "svc_ok \<delta> s A os" "t \<noteq> 0" "int64 x"
  shows "\<exists>s'. dts_expires_at t x s = Some (s', length (ops_of A t)) \<and> svc_ok \<delta> s' (A(t := None)) (os @ ops_of A t) \<and>
    tq_aborted (ts_queue s') = (\<lambda>h. h \<in> set (ops_of A t) \<or> tq_aborted (ts_queue s) h) \<and>
    ts_expiry s' = (ts_expiry s)(t := x)"
  using expires_at_ok [OF assms] by blast

theorem timer_expires_at_witness:
  "\<exists>s s'. dts_async_wait 1 10 5 5 (ts_make (\<lambda>_. 0)) = Some s \<and> dts_expires_at 1 7 s = Some (s', 1) \<and> tq_aborted (ts_queue s') 10 \<and> ts_expiry s' 1 = 7"
proof -
  obtain s where s: "dts_async_wait 1 10 5 5 (ts_make (\<lambda>_. 0)) = Some s" "svc_ok 0 s (schedule Map.empty 1 0 10) []"
    using async_wait_ok [OF svc_make [of 0 "\<lambda>_. 0"], of 1 10 5 5]
    by (auto simp: ts_make_def waiting_def ops_of_def size_max_def int64_def tick_min_def tick_max_def)
  have "ops_of (schedule Map.empty 1 (0::int) 10) 1 = [10]" by (simp add: schedule_def ops_of_def)
  then show ?thesis using timer_expires_at [OF s(2), of 1 7] s(1) by (fastforce simp: int64_def tick_min_def tick_max_def)
qed

end
