(* ===== verification/Timer_Set.thy ===== *)
theory Timer_Set
  imports Timer_Service Object_Pool
begin

text \<open>
  The set of timer queues of a reactor (\<^verbatim>\<open>asio/detail/impl/timer_queue_set.ipp\<close>): a linked list of queues, each with
  timers of its own, over one memory of operations. A queue is its address, 0 is the null pointer; the
  contents of the queues are \<open>qs_queue\<close>, whose \<open>tq_links\<close> are those of the memory when an operation of the queue is
  called. All clocks count nanoseconds; a clock is read once for each queue.
\<close>

subsection \<open>Definitions\<close>

record timer_set =
  qs_first :: nat
  qs_next :: "nat \<Rightarrow> nat"
  qs_queue :: "nat \<Rightarrow> int timer_queue"

definition qs_make :: timer_set where
  "qs_make = \<lparr>qs_first = 0, qs_next = (\<lambda>_. 0), qs_queue = (\<lambda>_. tq_make (\<lambda>_. 0))\<rparr>"

definition qs_insert :: "nat \<Rightarrow> timer_set \<Rightarrow> timer_set" where
  "qs_insert q S = S\<lparr>qs_next := (qs_next S)(q := qs_first S), qs_first := q\<rparr>"

partial_function (option) erase_from :: "nat \<Rightarrow> (nat \<Rightarrow> nat) \<Rightarrow> nat \<Rightarrow> (nat \<Rightarrow> nat) option" where
  "erase_from q nxt p = (if nxt p = 0 then Some nxt
     else if nxt p = q then Some (nxt(p := nxt q, q := 0)) else erase_from q nxt (nxt p))"

definition qs_erase :: "nat \<Rightarrow> timer_set \<Rightarrow> timer_set option" where
  "qs_erase q S = (if qs_first S \<noteq> 0
     then if q = qs_first S then Some (S\<lparr>qs_first := qs_next S q, qs_next := (qs_next S)(q := 0)\<rparr>)
       else map_option (\<lambda>nxt. S\<lparr>qs_next := nxt\<rparr>) (erase_from q (qs_next S) (qs_first S))
     else Some S)"

partial_function (option) all_empty_from :: "(nat \<Rightarrow> nat) \<Rightarrow> (nat \<Rightarrow> int timer_queue) \<Rightarrow> nat \<Rightarrow> bool option" where
  "all_empty_from nxt Q p = (if p = 0 then Some True else if \<not> tq_empty (Q p) then Some False else all_empty_from nxt Q (nxt p))"

definition qs_all_empty :: "timer_set \<Rightarrow> bool option" where
  "qs_all_empty S = all_empty_from (qs_next S) (qs_queue S) (qs_first S)"

text \<open>The loop \<open>for (p = first_; p; p = p->next_)\<close>, which all other operations are.\<close>

partial_function (option) each_queue :: "(nat \<Rightarrow> 'a \<Rightarrow> 'a option) \<Rightarrow> (nat \<Rightarrow> nat) \<Rightarrow> nat \<Rightarrow> 'a \<Rightarrow> 'a option" where
  "each_queue f nxt p s = (if p = 0 then Some s else Option.bind (f p s) (each_queue f nxt (nxt p)))"

definition qs_wait_msec :: "(nat \<Rightarrow> int) \<Rightarrow> timer_set \<Rightarrow> int \<Rightarrow> int option" where
  "qs_wait_msec now S = each_queue (\<lambda>p m. wait_duration_msec 1 1000000000 (now p) m (qs_queue S p)) (qs_next S) (qs_first S)"

definition qs_wait_usec :: "(nat \<Rightarrow> int) \<Rightarrow> timer_set \<Rightarrow> int \<Rightarrow> int option" where
  "qs_wait_usec now S = each_queue (\<lambda>p m. wait_duration_usec 1 1000000000 (now p) m (qs_queue S p)) (qs_next S) (qs_first S)"

text \<open>An operation on one queue, in the memory \<open>l\<close>.\<close>

definition on_queue :: "(nat \<Rightarrow> int timer_queue \<Rightarrow> op_queue \<Rightarrow> (int timer_queue \<times> op_queue) option) \<Rightarrow> nat
    \<Rightarrow> timer_set \<times> links \<times> op_queue \<Rightarrow> (timer_set \<times> links \<times> op_queue) option" where
  "on_queue f p = (\<lambda>(S, l, ops). Option.bind (f p ((qs_queue S p)\<lparr>tq_links := l\<rparr>) ops) (\<lambda>(w, ops1).
     Some (S\<lparr>qs_queue := (qs_queue S)(p := w)\<rparr>, tq_links w, ops1)))"

definition qs_get_ready_timers :: "(nat \<Rightarrow> int) \<Rightarrow> timer_set \<Rightarrow> links \<Rightarrow> op_queue \<Rightarrow> (timer_set \<times> links \<times> op_queue) option" where
  "qs_get_ready_timers due S l ops = each_queue (on_queue (\<lambda>p. get_ready_timers (due p))) (qs_next S) (qs_first S) (S, l, ops)"

definition qs_get_all_timers :: "timer_set \<Rightarrow> links \<Rightarrow> op_queue \<Rightarrow> (timer_set \<times> links \<times> op_queue) option" where
  "qs_get_all_timers S l ops = each_queue (on_queue (\<lambda>p. get_all_timers)) (qs_next S) (qs_first S) (S, l, ops)"

subsection \<open>The list of queues\<close>

definition set_of_queues :: "timer_set \<Rightarrow> nat list \<Rightarrow> bool" where
  "set_of_queues S qs \<longleftrightarrow> distinct qs \<and> 0 \<notin> set qs \<and> qs_first S = head_of qs \<and> forth (qs_next S) qs 0"

lemma set_make: "set_of_queues qs_make []"
  by (simp add: set_of_queues_def qs_make_def head_of_def)

lemma set_insert: "set_of_queues S qs \<Longrightarrow> q \<noteq> 0 \<Longrightarrow> q \<notin> set qs \<Longrightarrow> set_of_queues (qs_insert q S) (q # qs)"
  by (auto simp: set_of_queues_def qs_insert_def head_of_def split: list.splits)

lemma erase_from_list:
  "forth nxt (p # qs) 0 \<Longrightarrow> distinct (p # qs) \<Longrightarrow> 0 \<notin> set (p # qs) \<Longrightarrow> q \<noteq> p \<Longrightarrow>
    \<exists>nxt'. erase_from q nxt p = Some nxt' \<and> forth nxt' (p # remove1 q qs) 0 \<and> (\<forall>z. z \<notin> set (p # qs) \<longrightarrow> nxt' z = nxt z)"
proof (induction qs arbitrary: p)
  case Nil
  then show ?case by (subst erase_from.simps) simp
next
  case (Cons r rs)
  have n: "nxt p = r" "r \<noteq> 0" "p \<noteq> r" using Cons.prems by auto
  show ?case
  proof (cases "q = r")
    case True
    have "erase_from q nxt p = Some (nxt(p := nxt r, r := 0))" using True n by (subst erase_from.simps) simp
    moreover have "nxt r = (case rs of [] \<Rightarrow> 0 | y # _ \<Rightarrow> y)" "forth nxt rs 0" using Cons.prems(1) by simp_all
    moreover have "p \<notin> set rs" "r \<notin> set rs" using Cons.prems(2) by auto
    ultimately show ?thesis using True n(3) by simp
  next
    case False
    obtain nxt' where i: "erase_from q nxt r = Some nxt'" "forth nxt' (r # remove1 q rs) 0" "\<forall>z. z \<notin> set (r # rs) \<longrightarrow> nxt' z = nxt z"
      using Cons.IH [of r] Cons.prems False by auto
    have "erase_from q nxt p = Some nxt'" using i(1) False n by (subst erase_from.simps) simp
    moreover have "nxt' p = r" using i(3) n(1) Cons.prems(2) by simp
    ultimately show ?thesis using i(2,3) False by simp
  qed
qed

lemma set_erase:
  assumes "set_of_queues S qs"
  shows "\<exists>S'. qs_erase q S = Some S' \<and> set_of_queues S' (remove1 q qs) \<and> qs_queue S' = qs_queue S"
proof (cases qs)
  case Nil
  then show ?thesis using assms by (simp add: qs_erase_def set_of_queues_def head_of_def)
next
  case (Cons p rs)
  note a = assms [unfolded set_of_queues_def Cons]
  show ?thesis
  proof (cases "q = p")
    case True
    then show ?thesis using a Cons by (auto simp: qs_erase_def set_of_queues_def head_of_def split: list.splits)
  next
    case False
    obtain nxt' where e: "erase_from q (qs_next S) p = Some nxt'" "forth nxt' (p # remove1 q rs) 0"
      using erase_from_list [of "qs_next S" p rs q] a False by blast
    have "0 \<notin> set (remove1 q rs)" "p \<notin> set (remove1 q rs)" using a notin_set_remove1 by auto
    then show ?thesis using a e Cons False by (auto simp: qs_erase_def set_of_queues_def head_of_def)
  qed
qed

fun each_list :: "(nat \<Rightarrow> 'a \<Rightarrow> 'a option) \<Rightarrow> nat list \<Rightarrow> 'a \<Rightarrow> 'a option" where
  "each_list f [] s = Some s"
| "each_list f (q # qs) s = Option.bind (f q s) (each_list f qs)"

lemma each_queue_list: "set_of_queues S qs \<Longrightarrow> each_queue f (qs_next S) (qs_first S) s = each_list f qs s"
proof -
  have "forth nxt qs 0 \<Longrightarrow> 0 \<notin> set qs \<Longrightarrow> each_queue f nxt (head_of qs) s = each_list f qs s" for nxt
  proof (induction qs arbitrary: s)
    case Nil
    then show ?case by (subst each_queue.simps) (simp add: head_of_def)
  next
    case (Cons q qs)
    then have "nxt q = head_of qs" "q \<noteq> 0" "head_of (q # qs) = q" by (simp_all add: head_of_def)
    moreover have "each_queue f nxt (head_of qs) = each_list f qs" using Cons by (intro ext) simp
    ultimately show ?case by (subst each_queue.simps) simp
  qed
  then show "set_of_queues S qs \<Longrightarrow> each_queue f (qs_next S) (qs_first S) s = each_list f qs s" by (simp add: set_of_queues_def)
qed

lemma all_empty_list: "set_of_queues S qs \<Longrightarrow> qs_all_empty S = Some (\<forall>q \<in> set qs. tq_empty (qs_queue S q))"
proof -
  have "forth nxt qs 0 \<Longrightarrow> 0 \<notin> set qs \<Longrightarrow> all_empty_from nxt Q (head_of qs) = Some (\<forall>q \<in> set qs. tq_empty (Q q))" for nxt and Q :: "nat \<Rightarrow> int timer_queue"
  proof (induction qs)
    case Nil
    then show ?case by (subst all_empty_from.simps) (simp add: head_of_def)
  next
    case (Cons q qs)
    then have "nxt q = head_of qs" "q \<noteq> 0" "head_of (q # qs) = q" by (simp_all add: head_of_def)
    then show ?case using Cons by (subst all_empty_from.simps) simp
  qed
  then show "set_of_queues S qs \<Longrightarrow> qs_all_empty S = Some (\<forall>q \<in> set qs. tq_empty (qs_queue S q))"
    by (simp add: qs_all_empty_def set_of_queues_def)
qed

subsection \<open>The timers of all queues\<close>

text \<open>The queue \<open>q\<close> holds the timers \<open>T q\<close> in the memory \<open>l\<close>, and no two queues share an operation.\<close>

definition tables :: "links \<Rightarrow> (nat \<Rightarrow> int timer_queue) \<Rightarrow> nat list \<Rightarrow> (nat \<Rightarrow> int table) \<Rightarrow> bool" where
  "tables l Q qs T \<longleftrightarrow> (\<forall>q \<in> set qs. tq_table ((Q q)\<lparr>tq_links := l\<rparr>) oq_make (T q) []) \<and>
     (\<forall>q \<in> set qs. \<forall>r \<in> set qs. q \<noteq> r \<longrightarrow> waiting (T q) \<inter> waiting (T r) = {})"

definition timer_ops :: "nat list \<Rightarrow> (nat \<Rightarrow> int table) \<Rightarrow> nat set" where
  "timer_ops qs T = (\<Union>q \<in> set qs. waiting (T q))"

text \<open>The timers of one queue that are due, in the order of their times.\<close>

definition due_timers :: "int \<Rightarrow> int table \<Rightarrow> nat list \<Rightarrow> bool" where
  "due_timers now A ts \<longleftrightarrow> distinct ts \<and> set ts = {t. \<exists>x ps. A t = Some (x, ps) \<and> x \<le> now} \<and> sorted (map (\<lambda>t. fst (the (A t))) ts)"

definition ops_in :: "nat list \<Rightarrow> (nat \<Rightarrow> int table) \<Rightarrow> (nat \<Rightarrow> nat list) \<Rightarrow> nat list" where
  "ops_in qs T ts = concat (map (\<lambda>q. concat (map (ops_of (T q)) (ts q))) qs)"

lemma ops_in_other: "q \<notin> set qs \<Longrightarrow> ops_in qs T (ts(q := us)) = ops_in qs T ts"
  by (induction qs) (auto simp: ops_in_def)

lemma table_moved:
  assumes "tq_table (w\<lparr>tq_links := l\<rparr>) q A os" "\<And>z. z \<in> waiting A \<Longrightarrow> l' z = l z" "queue_of l' p ns" "set ns \<inter> waiting A = {}"
  shows "tq_table (w\<lparr>tq_links := l'\<rparr>) p A ns"
proof -
  note a = assms(1) [unfolded tq_table_def queues_def]
  have "tq_struct (w\<lparr>tq_links := l'\<rparr>) S = tq_struct (w\<lparr>tq_links := l\<rparr>) S" for S
    by (rule requeued_struct) (simp add: requeued_def)
  moreover have "queue_of l' (pt_ops (tq_data w u)) (ops_of A u)" for u
    by (rule queue_of_cong [of _ _ l]) (use a assms(2) in \<open>auto simp: waiting_def\<close>)
  moreover have "set ns \<inter> set (ops_of A u) = {}" for u using assms(4) unfolding waiting_def by blast
  ultimately show ?thesis using a assms(3) by (simp add: tq_table_def queues_def)
qed

lemma tables_moved: "tables l Q qs T \<Longrightarrow> (\<And>z. z \<in> timer_ops qs T \<Longrightarrow> l' z = l z) \<Longrightarrow> tables l' Q qs T"
  unfolding tables_def timer_ops_def by (intro conjI ballI table_moved [of l _ oq_make _ "[]" l' oq_make "[]"]) (auto simp: queue_of_Nil)

lemma tables_Cons: "tables l Q (q # qs) T \<Longrightarrow> tables l Q qs T"
  by (auto simp: tables_def)

text \<open>A loop that moves operations of each queue to one queue of operations.\<close>

lemma each_delivers:
  assumes step: "\<And>q w p A os. tq_table w p A os \<Longrightarrow> \<exists>w' p' ts. f q w p = Some (w', p') \<and> tq_table w' p' (g q A) (os @ concat (map (ops_of A) ts)) \<and>
      sel q A ts \<and> kept w w' (set os \<union> waiting A)"
    and sub: "\<And>q A ts. sel q A ts \<Longrightarrow> waiting (g q A) \<union> set (concat (map (ops_of A) ts)) = waiting A"
  shows "tables l (qs_queue S) qs T \<Longrightarrow> distinct qs \<Longrightarrow> queue_of l p ns \<Longrightarrow> set ns \<inter> timer_ops qs T = {} \<Longrightarrow>
    \<exists>S' l' p' ts. each_list (on_queue f) qs (S, l, p) = Some (S', l', p') \<and> tables l' (qs_queue S') qs (\<lambda>q. g q (T q)) \<and>
      queue_of l' p' (ns @ ops_in qs T ts) \<and> (\<forall>q \<in> set qs. sel q (T q) (ts q)) \<and>
      qs_first S' = qs_first S \<and> qs_next S' = qs_next S \<and> (\<forall>q. q \<notin> set qs \<longrightarrow> qs_queue S' q = qs_queue S q) \<and>
      (\<forall>z. z \<notin> set ns \<union> timer_ops qs T \<longrightarrow> l' z = l z)"
proof (induction qs arbitrary: S l p ns)
  case Nil
  then show ?case by (simp add: ops_in_def tables_def)
next
  case (Cons q qs)
  let ?w = "(qs_queue S q)\<lparr>tq_links := l\<rparr>"
  have dj: "waiting (T q) \<inter> timer_ops qs T = {}" using Cons.prems(1,2) by (auto simp: tables_def timer_ops_def)
  have nd: "set ns \<inter> waiting (T q) = {}" "set ns \<inter> timer_ops qs T = {}" using Cons.prems(4) by (auto simp: timer_ops_def)
  have "tq_table ?w oq_make (T q) []" using Cons.prems(1) by (simp add: tables_def)
  then have "tq_table ?w p (T q) ns" using table_moved [OF _ _ Cons.prems(3) nd(1), of l "qs_queue S q"] by auto
  then obtain w1 p1 us where s: "f q ?w p = Some (w1, p1)" "tq_table w1 p1 (g q (T q)) (ns @ concat (map (ops_of (T q)) us))"
      "sel q (T q) us" "kept ?w w1 (set ns \<union> waiting (T q))" using step by blast
  let ?ms = "concat (map (ops_of (T q)) us)" and ?S = "S\<lparr>qs_queue := (qs_queue S)(q := w1)\<rparr>"
  have l1: "tq_links w1 z = l z" if "z \<notin> set ns \<union> waiting (T q)" for z using s(4) that by (simp add: kept_def)
  have sb: "waiting (g q (T q)) \<subseteq> waiting (T q)" "set ?ms \<subseteq> waiting (T q)" using sub [OF s(3)] by auto
  have q1: "queue_of (tq_links w1) p1 (ns @ ?ms)" using s(2) by (simp add: tq_table_def queues_def)
  have ap: "set (ns @ ?ms) \<inter> waiting (g q (T q)) = {}" using table_delivered [OF s(2)] by (auto simp: waiting_def)
  have n1: "q \<notin> set qs" "distinct qs" using Cons.prems(2) by auto
  have "tables (tq_links w1) (qs_queue S) qs T" by (rule tables_moved [OF tables_Cons [OF Cons.prems(1)] l1]) (use dj nd in auto)
  then have "tables (tq_links w1) (qs_queue ?S) qs T" using n1(1) by (auto simp: tables_def)
  moreover have "set (ns @ ?ms) \<inter> timer_ops qs T = {}" using nd sb dj by auto
  ultimately obtain S' l' p' ts where r: "each_list (on_queue f) qs (?S, tq_links w1, p1) = Some (S', l', p')"
      "tables l' (qs_queue S') qs (\<lambda>q. g q (T q))" "queue_of l' p' ((ns @ ?ms) @ ops_in qs T ts)" "\<forall>q \<in> set qs. sel q (T q) (ts q)"
      "qs_first S' = qs_first ?S" "qs_next S' = qs_next ?S" "\<forall>r. r \<notin> set qs \<longrightarrow> qs_queue S' r = qs_queue ?S r"
      "\<forall>z. z \<notin> set (ns @ ?ms) \<union> timer_ops qs T \<longrightarrow> l' z = tq_links w1 z"
    using Cons.IH [OF _ n1(2) q1, of ?S] by blast
  have Q: "qs_queue S' q = w1" using r(7) n1(1) by simp
  have "l' z = tq_links w1 z" if "z \<in> waiting (g q (T q))" for z using r(8) that sb(1) dj ap by blast
  then have tq: "tq_table (w1\<lparr>tq_links := l'\<rparr>) oq_make (g q (T q)) []"
    using table_moved [of "tq_links w1" w1 p1 "g q (T q)" _ l' oq_make "[]"] s(2) by (simp add: queue_of_Nil)
  have dg: "waiting (g q (T q)) \<inter> waiting (g x (T x)) = {}" if "x \<in> set qs" for x
  proof -
    have "waiting (g x (T x)) \<subseteq> waiting (T x)" using sub r(4) that by blast
    then show ?thesis using sb(1) dj that by (auto simp: timer_ops_def)
  qed
  let ?ts = "ts(q := us)"
  have o: "ops_in (q # qs) T ?ts = ?ms @ ops_in qs T ts" using ops_in_other [OF n1(1), of T ts us] by (simp add: ops_in_def)
  have "tables l' (qs_queue S') (q # qs) (\<lambda>q. g q (T q))" using r(2) tq Q dg by (auto simp: tables_def Int_commute)
  moreover have "each_list (on_queue f) (q # qs) (S, l, p) = Some (S', l', p')" using s(1) r(1) by (simp add: on_queue_def)
  moreover have "queue_of l' p' (ns @ ops_in (q # qs) T ?ts)" using r(3) o by simp
  moreover have "\<forall>x \<in> set (q # qs). sel x (T x) (?ts x)" using r(4) s(3) by simp
  moreover have "\<forall>x. x \<notin> set (q # qs) \<longrightarrow> qs_queue S' x = qs_queue S x" using r(7) by simp
  moreover have "l' z = l z" if "z \<notin> set ns \<union> timer_ops (q # qs) T" for z
  proof -
    have "z \<notin> waiting (T q)" "z \<notin> timer_ops qs T" "z \<notin> set ns" using that by (auto simp: timer_ops_def)
    moreover from this have "z \<notin> set (ns @ ?ms) \<union> timer_ops qs T" "z \<notin> set ns \<union> waiting (T q)" using sb(2) by (simp_all, blast)
    ultimately show ?thesis using r(8) l1 [of z] by presburger
  qed
  ultimately show ?case using r(5,6)
    by (intro exI [of _ S'] exI [of _ l'] exI [of _ p'] exI [of _ ?ts] conjI) (simp_all del: fun_upd_apply)
qed

lemma set_ready:
  assumes "set_of_queues S qs" "tables l (qs_queue S) qs T" "queue_of l p ns" "set ns \<inter> timer_ops qs T = {}"
  shows "\<exists>S' l' p' ts. qs_get_ready_timers due S l p = Some (S', l', p') \<and> set_of_queues S' qs \<and>
    tables l' (qs_queue S') qs (\<lambda>q. later (due q) (T q)) \<and> queue_of l' p' (ns @ ops_in qs T ts) \<and>
    (\<forall>q \<in> set qs. due_timers (due q) (T q) (ts q)) \<and> (\<forall>z. z \<notin> set ns \<union> timer_ops qs T \<longrightarrow> l' z = l z)"
proof -
  have d: "distinct qs" using assms(1) by (simp add: set_of_queues_def)
  have step: "\<exists>w' p' ts. get_ready_timers (due q) w p = Some (w', p') \<and> tq_table w' p' (later (due q) A) (os @ concat (map (ops_of A) ts)) \<and>
      due_timers (due q) A ts \<and> kept w w' (set os \<union> waiting A)" if "tq_table w p A os" for q w p A os
    using table_ready [OF that, of "due q"] unfolding get_ready_timers_loop due_timers_def by blast
  have sub: "waiting (later (due q) A) \<union> set (concat (map (ops_of A) ts)) = waiting A" if "due_timers (due q) A ts" for q A ts
    by (rule waiting_later) (use that in \<open>simp add: due_timers_def\<close>)
  show ?thesis
    using each_delivers [of "\<lambda>q. get_ready_timers (due q)" "\<lambda>q. later (due q)" "\<lambda>q. due_timers (due q)", OF step sub assms(2) d assms(3,4)] assms(1)
    unfolding qs_get_ready_timers_def each_queue_list [OF assms(1)] set_of_queues_def by fastforce
qed

lemma waiting_all: "set ts = dom A \<Longrightarrow> waiting (Map.empty :: 't table) \<union> set (concat (map (ops_of A) ts)) = waiting A"
proof -
  assume ts: "set ts = dom A"
  have "ops_of A u = []" if "u \<notin> set ts" for u using that ts by (auto simp: ops_of_def split: option.splits)
  then show ?thesis by (fastforce simp: waiting_def ops_of_def [of Map.empty])
qed

lemma set_all:
  assumes "set_of_queues S qs" "tables l (qs_queue S) qs T" "queue_of l p ns" "set ns \<inter> timer_ops qs T = {}"
  shows "\<exists>S' l' p' ts. qs_get_all_timers S l p = Some (S', l', p') \<and> set_of_queues S' qs \<and>
    tables l' (qs_queue S') qs (\<lambda>_. Map.empty) \<and> queue_of l' p' (ns @ ops_in qs T ts) \<and>
    (\<forall>q \<in> set qs. distinct (ts q) \<and> set (ts q) = dom (T q)) \<and> (\<forall>z. z \<notin> set ns \<union> timer_ops qs T \<longrightarrow> l' z = l z)"
proof -
  have d: "distinct qs" using assms(1) by (simp add: set_of_queues_def)
  have step: "\<exists>w' p' ts. get_all_timers w p = Some (w', p') \<and> tq_table w' p' Map.empty (os @ concat (map (ops_of A) ts)) \<and>
      (distinct ts \<and> set ts = dom A) \<and> kept w w' (set os \<union> waiting A)" if "tq_table w p A os" for w p and A :: "int table" and os
    using table_all [OF that] by blast
  have sub: "waiting (Map.empty :: int table) \<union> set (concat (map (ops_of A) ts)) = waiting A" if "distinct ts \<and> set ts = dom A" for A :: "int table" and ts
    using waiting_all that by blast
  show ?thesis
    using each_delivers [of "\<lambda>q. get_all_timers" "\<lambda>q A. Map.empty" "\<lambda>q A ts. distinct ts \<and> set ts = dom A", OF step sub assms(2) d assms(3,4)] assms(1)
    unfolding qs_get_all_timers_def each_queue_list [OF assms(1)] set_of_queues_def by fastforce
qed

subsection \<open>How long the reactor may wait\<close>

text \<open>A wait of \<open>r\<close> units is at most one unit or ends before the timer \<open>x\<close> expires.\<close>

definition early :: "int \<Rightarrow> int \<Rightarrow> int \<Rightarrow> int \<Rightarrow> bool" where
  "early unit now r x \<longleftrightarrow> r \<le> 1 \<or> r * unit \<le> x - now"

lemma wait_early:
  assumes "tq_table w q A os" "\<And>t x ps. A t = Some (x, ps) \<Longrightarrow> int64 x" "int64 now" "0 \<le> m"
  shows "\<exists>r. wait_duration_msec 1 1000000000 now m w = Some r \<and> 0 \<le> r \<and> r \<le> max m 1 \<and> (\<forall>t x ps. A t = Some (x, ps) \<longrightarrow> early 1000000 now r x)"
    "\<exists>r. wait_duration_usec 1 1000000000 now m w = Some r \<and> 0 \<le> r \<and> r \<le> max m 1 \<and> (\<forall>t x ps. A t = Some (x, ps) \<longrightarrow> early 1000 now r x)"
proof -
  have t: "tq_struct w (\<lambda>t. map_option fst (A t))" using assms(1) by (simp add: tq_table_def)
  have "(tq_heap w = [] \<and> (\<forall>t. A t = None)) \<or> (tq_heap w \<noteq> [] \<and> int64 (htime w 0) \<and> (\<forall>t x ps. A t = Some (x, ps) \<longrightarrow> htime w 0 \<le> x))"
  proof (cases "tq_heap w = []")
    case True
    then have "map_option fst (A t) = None" for t using struct_heap_Nil [OF t] by (meson fun_cong)
    then show ?thesis using True by simp
  next
    case False
    note r = struct_root [OF t False]
    have "\<exists>ps. A (htimer w 0) = Some (htime w 0, ps)" using r(1) by auto
    then show ?thesis using False assms(2) r(2) by fastforce
  qed
  moreover have "0 \<le> wait_value u (clamp64 (htime w 0 - now)) m \<and> wait_value u (clamp64 (htime w 0 - now)) m \<le> max m 1 \<and>
      (\<forall>x. htime w 0 \<le> x \<longrightarrow> early u now (wait_value u (clamp64 (htime w 0 - now)) m) x)" if "0 < u" for u
    using wait_value_bounds [OF that assms(4) refl, of "htime w 0 - now"] by (simp add: early_def)
  ultimately show "\<exists>r. wait_duration_msec 1 1000000000 now m w = Some r \<and> 0 \<le> r \<and> r \<le> max m 1 \<and> (\<forall>t x ps. A t = Some (x, ps) \<longrightarrow> early 1000000 now r x)"
    "\<exists>r. wait_duration_usec 1 1000000000 now m w = Some r \<and> 0 \<le> r \<and> r \<le> max m 1 \<and> (\<forall>t x ps. A t = Some (x, ps) \<longrightarrow> early 1000 now r x)"
    using wait_duration_value [of w now m] assms(3,4)
    by (auto simp: wait_duration_msec_def [of _ _ _ _ w] wait_duration_usec_def [of _ _ _ _ w] simp del: One_nat_def)
qed

lemma early_less: "early unit now r1 x \<Longrightarrow> r \<le> max r1 1 \<Longrightarrow> 0 < unit \<Longrightarrow> early unit now r x"
proof -
  assume a: "early unit now r1 x" "r \<le> max r1 1" "0 < unit"
  have "r * unit \<le> r1 * unit" if "r \<le> r1" using mult_right_mono [OF that, of unit] a(3) by simp
  then show "early unit now r x" using a(1,2) by (fastforce simp: early_def max_def split: if_splits)
qed

lemma each_early:
  assumes "\<And>q m. q \<in> set qs \<Longrightarrow> 0 \<le> m \<Longrightarrow> \<exists>r. f q m = Some r \<and> 0 \<le> r \<and> r \<le> max m 1 \<and> (\<forall>x. P q x \<longrightarrow> early unit (now q) r x)" "0 < unit" "0 \<le> m"
  shows "\<exists>r. each_list f qs m = Some r \<and> 0 \<le> r \<and> r \<le> max m 1 \<and> (\<forall>q \<in> set qs. \<forall>x. P q x \<longrightarrow> early unit (now q) r x)"
  using assms
proof (induction qs arbitrary: m)
  case (Cons q qs)
  obtain r1 where 1: "f q m = Some r1" "0 \<le> r1" "r1 \<le> max m 1" "\<forall>x. P q x \<longrightarrow> early unit (now q) r1 x"
    using Cons.prems(1) [of q m] Cons.prems(3) by auto
  obtain r where 2: "each_list f qs r1 = Some r" "0 \<le> r" "r \<le> max r1 1" "\<forall>q \<in> set qs. \<forall>x. P q x \<longrightarrow> early unit (now q) r x"
    using Cons.IH [OF Cons.prems(1) assms(2) 1(2)] by auto
  have "early unit (now q) r x" if "P q x" for x using early_less [OF _ 2(3) assms(2)] 1(4) that by blast
  then show ?case using 1 2 by (intro exI [of _ r]) auto
qed simp

text \<open>The wait over all queues ends before the first timer expires, or is at most one unit.\<close>

lemma set_wait_early:
  assumes "set_of_queues S qs" "tables l (qs_queue S) qs T" "\<forall>q \<in> set qs. int64 (now q) \<and> (\<forall>t x ps. T q t = Some (x, ps) \<longrightarrow> int64 x)" "0 \<le> m"
  shows "\<exists>r. qs_wait_msec now S m = Some r \<and> 0 \<le> r \<and> r \<le> max m 1 \<and> (\<forall>q \<in> set qs. \<forall>x. (\<exists>t ps. T q t = Some (x, ps)) \<longrightarrow> early 1000000 (now q) r x)"
    "\<exists>r. qs_wait_usec now S m = Some r \<and> 0 \<le> r \<and> r \<le> max m 1 \<and> (\<forall>q \<in> set qs. \<forall>x. (\<exists>t ps. T q t = Some (x, ps)) \<longrightarrow> early 1000 (now q) r x)"
proof -
  have t: "tq_table ((qs_queue S q)\<lparr>tq_links := l\<rparr>) oq_make (T q) []" "int64 (now q)" "T q t = Some (x, ps) \<Longrightarrow> int64 x"
    if "q \<in> set qs" for q t x ps using assms(2,3) that by (auto simp: tables_def)
  note e = wait_early [OF t(1) t(3) t(2)]
  have w: "wait_duration_msec pn pd n m (v\<lparr>tq_links := l\<rparr>) = wait_duration_msec pn pd n m v"
    "wait_duration_usec pn pd n m (v\<lparr>tq_links := l\<rparr>) = wait_duration_usec pn pd n m v" for pn pd n m v
    by (simp_all add: wait_duration_msec_def wait_duration_usec_def)
  show "\<exists>r. qs_wait_msec now S m = Some r \<and> 0 \<le> r \<and> r \<le> max m 1 \<and> (\<forall>q \<in> set qs. \<forall>x. (\<exists>t ps. T q t = Some (x, ps)) \<longrightarrow> early 1000000 (now q) r x)"
    unfolding qs_wait_msec_def each_queue_list [OF assms(1)] using e(1) assms(4) unfolding w by (intro each_early) (fastforce, simp, simp)
  show "\<exists>r. qs_wait_usec now S m = Some r \<and> 0 \<le> r \<and> r \<le> max m 1 \<and> (\<forall>q \<in> set qs. \<forall>x. (\<exists>t ps. T q t = Some (x, ps)) \<longrightarrow> early 1000 (now q) r x)"
    unfolding qs_wait_usec_def each_queue_list [OF assms(1)] using e(2) assms(4) unfolding w by (intro each_early) (fastforce, simp, simp)
qed

end
