(* ===== verification/Interrupter.thy ===== *)
theory Interrupter
  imports Socket_Control
begin

text \<open>
  The system calls the epoll reactor of the vendored asio makes for its own descriptors, and the interrupter that
  wakes it (\<^verbatim>\<open>asio/detail/eventfd_select_interrupter.hpp\<close>, \<^verbatim>\<open>asio/detail/impl/eventfd_select_interrupter.ipp\<close>), on a
  system with \<open>EFD_CLOEXEC\<close> and \<open>EFD_NONBLOCK\<close>.

  The calls are the record \<open>evsys\<close>; each returns its result and \<open>errno\<close>. What is assumed of them is the locale
  \<open>descriptor_kernel\<close>: which calls open a descriptor, which close one, and what the calls on an epoll descriptor
  do to the set of descriptors it watches. The pointer stored with a watched descriptor is the datatype
  \<open>event_ptr\<close>: the address of the reactor's interrupter, of its timer descriptor, or of a descriptor state.
\<close>

subsection \<open>System calls\<close>

datatype event_ptr = Interrupter_ptr | Timer_fd_ptr | Descriptor_ptr nat

type_synonym 's syscall = "'s \<Rightarrow> (int \<times> errno) \<times> 's"

record 's evsys =
  ev_epoll_create1 :: "int \<Rightarrow> 's syscall"
  ev_epoll_create :: "int \<Rightarrow> 's syscall"
  ev_timerfd_create :: "int \<Rightarrow> int \<Rightarrow> 's syscall"
  ev_eventfd :: "int \<Rightarrow> int \<Rightarrow> 's syscall"
  ev_pipe :: "'s \<Rightarrow> (int \<times> int \<times> int \<times> errno) \<times> 's"
  ev_fcntl :: "int \<Rightarrow> int \<Rightarrow> int \<Rightarrow> 's syscall"
  ev_close :: "int \<Rightarrow> 's syscall"
  ev_write :: "int \<Rightarrow> nat \<Rightarrow> 's syscall"
  ev_read :: "int \<Rightarrow> nat \<Rightarrow> 's syscall"
  ev_epoll_ctl :: "int \<Rightarrow> int \<Rightarrow> int \<Rightarrow> 32 word \<Rightarrow> event_ptr \<Rightarrow> 's syscall"
  ev_epoll_wait :: "int \<Rightarrow> nat \<Rightarrow> int \<Rightarrow> 's \<Rightarrow> (int \<times> (event_ptr \<times> 32 word) list) \<times> 's"
  ev_timerfd_settime :: "int \<Rightarrow> bool \<Rightarrow> int \<Rightarrow> int \<Rightarrow> 's syscall"

definition F_SETFD :: int where "F_SETFD = 2"
definition F_SETFL :: int where "F_SETFL = 4"
definition FD_CLOEXEC :: int where "FD_CLOEXEC = 1"
definition O_NONBLOCK :: int where "O_NONBLOCK = 2048"
definition EFD_CLOEXEC :: int where "EFD_CLOEXEC = 524288"
definition EFD_NONBLOCK :: int where "EFD_NONBLOCK = 2048"

subsection \<open>The interrupter\<close>

record interrupter =
  ir_read :: int
  ir_write :: int

definition set_flags :: "'s evsys \<Rightarrow> int \<Rightarrow> 's \<Rightarrow> 's" where
  "set_flags k fd w = snd (ev_fcntl k fd F_SETFD FD_CLOEXEC (snd (ev_fcntl k fd F_SETFL O_NONBLOCK w)))"

text \<open>\<open>open_descriptors\<close>: an event descriptor, also on a kernel that refuses the flags, or a pipe; the first
  component is the error it throws. A failed \<open>eventfd\<close> leaves both members at \<open>-1\<close>.\<close>

definition open_descriptors :: "'s evsys \<Rightarrow> 's \<Rightarrow> errno option \<times> interrupter \<times> 's" where
  "open_descriptors k w = (case ev_eventfd k 0 (EFD_CLOEXEC OR EFD_NONBLOCK) w of ((fd, e), w1) \<Rightarrow>
     case (if fd = - 1 \<and> e = EINVAL then case ev_eventfd k 0 0 w1 of ((fd', e'), w2) \<Rightarrow>
         (fd', if fd' \<noteq> - 1 then set_flags k fd' w2 else w2)
       else (fd, w1)) of (fd1, w3) \<Rightarrow>
     if fd1 = - 1
     then case ev_pipe k w3 of ((result, p0, p1, e1), w4) \<Rightarrow>
       if result = 0 then (None, \<lparr>ir_read = p0, ir_write = p1\<rparr>, set_flags k p1 (set_flags k p0 w4))
       else (Some e1, \<lparr>ir_read = - 1, ir_write = - 1\<rparr>, w4)
     else (None, \<lparr>ir_read = fd1, ir_write = fd1\<rparr>, w3))"

definition close_descriptors :: "'s evsys \<Rightarrow> interrupter \<Rightarrow> 's \<Rightarrow> 's" where
  "close_descriptors k ir w = (let
       w1 = (if ir_write ir \<noteq> - 1 \<and> ir_write ir \<noteq> ir_read ir then snd (ev_close k (ir_write ir) w) else w)
     in if ir_read ir \<noteq> - 1 then snd (ev_close k (ir_read ir) w1) else w1)"

definition recreate :: "'s evsys \<Rightarrow> interrupter \<Rightarrow> 's \<Rightarrow> errno option \<times> interrupter \<times> 's" where
  "recreate k ir w = open_descriptors k (close_descriptors k ir w)"

text \<open>One 64-bit counter of value 1 is written.\<close>

definition ir_interrupt :: "'s evsys \<Rightarrow> interrupter \<Rightarrow> 's \<Rightarrow> 's" where
  "ir_interrupt k ir w = snd (ev_write k (ir_write ir) 8 w)"

text \<open>The two loops of \<open>reset\<close>; both repeat for as long as the kernel interrupts the read.\<close>

partial_function (option) read_retry :: "'s evsys \<Rightarrow> int \<Rightarrow> nat \<Rightarrow> 's \<Rightarrow> (int \<times> 's) option" where
  "read_retry k fd n w = (case ev_read k fd n w of ((r, e), w1) \<Rightarrow>
     if r < 0 \<and> e = EINTR then read_retry k fd n w1 else Some (r, w1))"

partial_function (option) drain_pipe :: "'s evsys \<Rightarrow> int \<Rightarrow> int \<Rightarrow> 's \<Rightarrow> 's option" where
  "drain_pipe k fd bytes_read w = (if bytes_read = 1024
     then case ev_read k fd 1024 w of ((r, e), w1) \<Rightarrow> drain_pipe k fd r w1 else Some w)"

definition ir_reset :: "'s evsys \<Rightarrow> interrupter \<Rightarrow> 's \<Rightarrow> (bool \<times> 's) option" where
  "ir_reset k ir w = (if ir_write ir = ir_read ir
     then Option.bind (read_retry k (ir_read ir) 8 w) (\<lambda>(r, w1). Some (r > 0, w1))
     else Option.bind (read_retry k (ir_read ir) 1024 w) (\<lambda>(r, w1).
       Option.bind (drain_pipe k (ir_read ir) r w1) (\<lambda>w2. Some (r > 0, w2))))"

definition ir_fds :: "interrupter \<Rightarrow> int set" where
  "ir_fds ir = {ir_read ir, ir_write ir} - {- 1}"

subsection \<open>Open and watched descriptors\<close>

text \<open>\<open>opened\<close> are the open descriptors of a system state, \<open>interest\<close> gives for an epoll descriptor what it watches.
  A call \<open>adds\<close> descriptors that were not open, without changing what the others watch, or \<open>drops\<close> some; a watched
  descriptor that is closed may stay watched as long as another process has it open.\<close>

type_synonym interest = "int \<Rightarrow> int \<rightharpoonup> 32 word \<times> event_ptr"

definition adds :: "('s \<Rightarrow> int set) \<Rightarrow> ('s \<Rightarrow> interest) \<Rightarrow> int set \<Rightarrow> 's \<Rightarrow> 's \<Rightarrow> bool" where
  "adds opened interest X w w' \<longleftrightarrow> - 1 \<notin> X \<and> X \<inter> opened w = {} \<and> opened w' = opened w \<union> X \<and>
     (\<forall>p. interest w' p = (if p \<in> X then Map.empty else interest w p))"

definition drops :: "('s \<Rightarrow> int set) \<Rightarrow> ('s \<Rightarrow> interest) \<Rightarrow> int set \<Rightarrow> 's \<Rightarrow> 's \<Rightarrow> bool" where
  "drops opened interest X w w' \<longleftrightarrow> opened w' = opened w - X \<and>
     (\<forall>p. p \<notin> X \<longrightarrow> interest w' p \<subseteq>\<^sub>m interest w p)"

definition opens :: "('s \<Rightarrow> int set) \<Rightarrow> ('s \<Rightarrow> interest) \<Rightarrow> 's syscall \<Rightarrow> bool" where
  "opens opened interest c \<longleftrightarrow> (\<forall>w r e w'. c w = ((r, e), w') \<longrightarrow> adds opened interest ({r} - {- 1}) w w')"

definition untouched :: "('s \<Rightarrow> int set) \<Rightarrow> ('s \<Rightarrow> interest) \<Rightarrow> 's syscall \<Rightarrow> bool" where
  "untouched opened interest c \<longleftrightarrow> (\<forall>w. adds opened interest {} w (snd (c w)))"

lemma adds_refl [simp]: "adds opened interest {} w w"
  by (simp add: adds_def)

lemma adds_trans: "adds opened interest X w w1 \<Longrightarrow> adds opened interest Y w1 w2 \<Longrightarrow> adds opened interest (X \<union> Y) w w2"
  by (auto simp: adds_def)

lemma drops_refl [simp]: "drops opened interest {} w w"
  by (simp add: drops_def)

lemma drops_trans: "drops opened interest X w w1 \<Longrightarrow> drops opened interest Y w1 w2 \<Longrightarrow> drops opened interest (X \<union> Y) w w2"
  unfolding drops_def by (auto intro: map_le_trans)

lemma opensD: "opens opened interest c \<Longrightarrow> c w = ((r, e), w') \<Longrightarrow> adds opened interest ({r} - {- 1}) w w'"
  by (simp add: opens_def)

text \<open>Laws by the manual pages: the four calls that create a descriptor return one that was not in use or \<open>-1\<close>, a
  new epoll descriptor watches nothing, \<open>close\<close> releases the descriptor whatever it returns, and adding or
  modifying a watched descriptor has exactly this effect when it succeeds and none when it fails.\<close>

locale descriptor_kernel =
  fixes k :: "'s evsys" and opened :: "'s \<Rightarrow> int set" and interest :: "'s \<Rightarrow> interest"
  assumes epoll_create1_opens: "opens opened interest (ev_epoll_create1 k flags)"
    and epoll_create_opens: "opens opened interest (ev_epoll_create k n)"
    and timerfd_create_opens: "opens opened interest (ev_timerfd_create k clock flags)"
    and eventfd_opens: "opens opened interest (ev_eventfd k n flags)"
    and pipe_opens: "ev_pipe k w = ((r, p0, p1, e), w1) \<Longrightarrow>
      if r = 0 then p0 \<noteq> p1 \<and> - 1 \<notin> {p0, p1} \<and> adds opened interest {p0, p1} w w1 else adds opened interest {} w w1"
    and fcntl_silent: "untouched opened interest (ev_fcntl k fd c arg)"
    and write_silent: "untouched opened interest (ev_write k fd len)"
    and settime_silent: "untouched opened interest (ev_timerfd_settime k fd abstime sec nsec)"
    and close_drops: "drops opened interest {fd} w (snd (ev_close k fd w))"
    and ctl_watches: "ev_epoll_ctl k p c fd ev ptr w = ((r, e), w') \<Longrightarrow> c \<in> {1, 3} \<Longrightarrow> opened w' = opened w \<and>
      (\<forall>q. interest w' q = (if q = p \<and> r = 0 then (interest w q)(fd \<mapsto> (ev, ptr)) else interest w q))"
begin

lemma set_flags_silent: "adds opened interest {} w (set_flags k fd w)"
proof -
  have f: "adds opened interest {} v (snd (ev_fcntl k fd c arg v))" for c arg v using fcntl_silent by (simp add: untouched_def)
  show ?thesis using adds_trans [OF f f] by (simp add: set_flags_def)
qed

text \<open>Opening returns the descriptors it opened, or opens none.\<close>

lemma open_adds:
  assumes "open_descriptors k w = (e, ir, w')"
  shows "adds opened interest (ir_fds ir) w w'" "e = None \<longleftrightarrow> ir_read ir \<noteq> - 1" "e = None \<longleftrightarrow> ir_write ir \<noteq> - 1"
proof -
  obtain fd e1 w1 where a: "ev_eventfd k 0 (EFD_CLOEXEC OR EFD_NONBLOCK) w = ((fd, e1), w1)" by (metis prod.collapse)
  obtain fd1 w3 where b: "(if fd = - 1 \<and> e1 = EINVAL then case ev_eventfd k 0 0 w1 of ((fd', e'), w2) \<Rightarrow>
         (fd', if fd' \<noteq> - 1 then set_flags k fd' w2 else w2) else (fd, w1)) = (fd1, w3)" by fastforce
  have 1: "adds opened interest ({fd} - {- 1}) w w1" by (rule opensD [OF eventfd_opens a])
  have 3: "adds opened interest ({fd1} - {- 1}) w w3"
  proof (cases "fd = - 1 \<and> e1 = EINVAL")
    case True
    obtain fd' e' w2 where c: "ev_eventfd k 0 0 w1 = ((fd', e'), w2)" by (metis prod.collapse)
    have d: "fd1 = fd'" "w3 = (if fd' \<noteq> - 1 then set_flags k fd' w2 else w2)" using b c True by auto
    have "adds opened interest ({fd'} - {- 1}) w1 w2" by (rule opensD [OF eventfd_opens c])
    then have "adds opened interest ({fd'} - {- 1}) w1 w3" using adds_trans [OF _ set_flags_silent] d(2) by (simp, fastforce)
    then show ?thesis using adds_trans [OF 1, of "{fd'} - {- 1}" w3] True d(1) by simp
  qed (use b 1 in auto)
  show "adds opened interest (ir_fds ir) w w'" "e = None \<longleftrightarrow> ir_read ir \<noteq> - 1" "e = None \<longleftrightarrow> ir_write ir \<noteq> - 1"
  proof -
    obtain r p0 p1 e2 w4 where p: "ev_pipe k w3 = ((r, p0, p1, e2), w4)" by (metis prod.collapse)
    note q = pipe_opens [OF p]
    have n: "fd1 = - 1 \<Longrightarrow> adds opened interest X w3 v \<Longrightarrow> adds opened interest X w v" for X v using adds_trans [OF 3, of X v] by simp
    have f: "adds opened interest {p0, p1} w3 (set_flags k p1 (set_flags k p0 w4))" if "r = 0"
      using q that adds_trans [of opened interest "{p0, p1}" w3 w4 "{}"] adds_trans [OF set_flags_silent set_flags_silent] by simp
    have m: "{p0, p1} - {- 1} = {p0, p1}" if "r = 0" using q that by auto
    have "(fd1 \<noteq> - 1 \<and> e = None \<and> ir = \<lparr>ir_read = fd1, ir_write = fd1\<rparr> \<and> w' = w3) \<or>
      (fd1 = - 1 \<and> r = 0 \<and> e = None \<and> ir = \<lparr>ir_read = p0, ir_write = p1\<rparr> \<and> w' = set_flags k p1 (set_flags k p0 w4)) \<or>
      (fd1 = - 1 \<and> r \<noteq> 0 \<and> e = Some e2 \<and> ir = \<lparr>ir_read = - 1, ir_write = - 1\<rparr> \<and> w' = w4)"
      using assms a b p by (auto simp: open_descriptors_def split: if_splits)
    then show "adds opened interest (ir_fds ir) w w'" "e = None \<longleftrightarrow> ir_read ir \<noteq> - 1" "e = None \<longleftrightarrow> ir_write ir \<noteq> - 1"
      using 3 n f m q by (auto simp: ir_fds_def insert_Diff_if)
  qed
qed

lemma close_drops_all: "drops opened interest (ir_fds ir) w (close_descriptors k ir w)"
proof -
  have e: "ir_fds ir = (if ir_write ir \<noteq> - 1 \<and> ir_write ir \<noteq> ir_read ir then {ir_write ir} else {}) \<union>
    (if ir_read ir \<noteq> - 1 then {ir_read ir} else {})" by (auto simp: ir_fds_def)
  show ?thesis unfolding e close_descriptors_def Let_def
    by (rule drops_trans [of _ _ _ w "if ir_write ir \<noteq> - 1 \<and> ir_write ir \<noteq> ir_read ir then snd (ev_close k (ir_write ir) w) else w"])
      (simp_all add: close_drops)
qed

end

subsection \<open>A small kernel\<close>

text \<open>A kernel on which the laws hold. When \<open>dk_old\<close> is set it knows neither event descriptors nor the flags of the newer
  calls. It reports the events \<open>dk_events\<close>.\<close>

record desk =
  dk_open :: "int list"
  dk_watch :: interest
  dk_old :: bool
  dk_events :: "(event_ptr \<times> 32 word) list"

definition dk_fresh :: "desk \<Rightarrow> int" where
  "dk_fresh w = 1 + foldr max (dk_open w) 2"

definition dk_new :: "desk syscall" where
  "dk_new w = ((dk_fresh w, 0), w\<lparr>dk_open := dk_fresh w # dk_open w, dk_watch := (dk_watch w)(dk_fresh w := Map.empty)\<rparr>)"

definition dk_ok :: "int \<Rightarrow> desk syscall" where
  "dk_ok r w = ((r, 0), w)"

definition desk_kernel :: "desk evsys" where
  "desk_kernel = \<lparr>ev_epoll_create1 = (\<lambda>flags w. if dk_old w then ((- 1, EINVAL), w) else dk_new w),
     ev_epoll_create = (\<lambda>n. dk_new),
     ev_timerfd_create = (\<lambda>clock flags w. if dk_old w \<and> flags \<noteq> 0 then ((- 1, EINVAL), w) else dk_new w),
     ev_eventfd = (\<lambda>n flags w. if dk_old w then ((- 1, EINVAL), w) else dk_new w),
     ev_pipe = (\<lambda>w. case dk_new w of ((p0, e0), w1) \<Rightarrow> case dk_new w1 of ((p1, e1), w2) \<Rightarrow> ((0, p0, p1, 0), w2)),
     ev_fcntl = (\<lambda>fd c arg. dk_ok 0),
     ev_close = (\<lambda>fd w. ((0, 0), w\<lparr>dk_open := removeAll fd (dk_open w), dk_watch := (\<lambda>p. (dk_watch w p)(fd := None))\<rparr>)),
     ev_write = (\<lambda>fd n. dk_ok (int n)), ev_read = (\<lambda>fd n. dk_ok (int n)),
     ev_epoll_ctl = (\<lambda>p c fd ev ptr w. if fd \<notin> set (dk_open w) then ((- 1, EBADF), w)
       else ((0, 0), w\<lparr>dk_watch := (dk_watch w)(p := (dk_watch w p)(fd := (if c = 2 then None else Some (ev, ptr))))\<rparr>)),
     ev_epoll_wait = (\<lambda>p n timeout w. ((int (length (dk_events w)), dk_events w), w)),
     ev_timerfd_settime = (\<lambda>fd abstime sec nsec. dk_ok 0)\<rparr>"

lemma dk_fresh_new: "dk_fresh w \<notin> set (dk_open w)" "dk_fresh w \<noteq> - 1"
  using foldr_max [of 2 "dk_open w"] by (auto simp: dk_fresh_def)

lemma dk_new_adds: "dk_new w = ((r, e), w') \<Longrightarrow> r \<noteq> - 1 \<and> adds (\<lambda>w. set (dk_open w)) dk_watch {r} w w'"
  using dk_fresh_new [of w] by (auto simp: dk_new_def adds_def)

lemma dk_opens: "opens (\<lambda>w. set (dk_open w)) dk_watch (\<lambda>w. if b w then ((- 1, e), w) else dk_new w)"
  using dk_new_adds by (fastforce simp: opens_def split: if_splits)

interpretation desk: descriptor_kernel desk_kernel "\<lambda>w. set (dk_open w)" dk_watch
proof (unfold_locales, goal_cases)
  case (2 n)
  then show ?case using dk_opens [of "\<lambda>_. False"] by (simp add: desk_kernel_def)
next
  case (5 w r p0 p1 e w1)
  then obtain f0 e0 v f1 e1 where n: "dk_new w = ((f0, e0), v)" "dk_new v = ((f1, e1), w1)" "r = 0" "p0 = f0" "p1 = f1"
    by (auto simp: desk_kernel_def split: prod.splits)
  note a = dk_new_adds [OF n(1)] dk_new_adds [OF n(2)]
  then show ?case using adds_trans [of _ _ "{f0}" w v "{f1}" w1] n(3-5) by (auto simp: adds_def)
next
  case (9 fd w)
  then show ?case by (auto simp: desk_kernel_def drops_def map_le_def)
next
  case (10 p c fd ev ptr w r e w')
  then show ?case by (auto simp: desk_kernel_def split: if_splits)
qed (auto simp: desk_kernel_def untouched_def dk_ok_def intro: dk_opens)

end
