(* ===== verification/Reactor_Run.thy ===== *)
theory Reactor_Run
  imports Epoll_Reactor Timer_Set Interrupter
begin

text \<open>
  The epoll reactor of the vendored asio as a whole (\<^verbatim>\<open>asio/detail/impl/epoll_reactor.ipp\<close>): construction and
  destruction with its own descriptors, the wait for events and their dispatch, the timeout of the wait,
  internal descriptors, the shutdown, and the restart in a forked child.

  The state \<open>epoll_state\<close> has the registered descriptors and operations of theory \<open>Epoll_Reactor\<close>, the timer queues of
  theory \<open>Timer_Set\<close> over the same memory of operations, the interrupter, the two descriptors, and the events
  stored in each descriptor state by \<open>set_ready_events\<close>. A descriptor state is an operation itself, linked by the
  memory at its address. Readings of the clocks are arguments, one for each timer queue.
\<close>

subsection \<open>State, construction and destruction\<close>

definition ENOSYS :: errno where "ENOSYS = 38"
definition EPOLL_CLOEXEC :: int where "EPOLL_CLOEXEC = 524288"
definition TFD_CLOEXEC :: int where "TFD_CLOEXEC = 524288"
definition CLOCK_MONOTONIC :: int where "CLOCK_MONOTONIC = 1"
definition epoll_size :: int where "epoll_size = 20000"

record epoll_state =
  es_rx :: reactor
  es_timers :: timer_set
  es_interrupter :: interrupter
  es_epoll_fd :: int
  es_timer_fd :: int
  es_shutdown :: bool
  es_ready :: "nat \<Rightarrow> 32 word"

definition do_epoll_create :: "'s evsys \<Rightarrow> 's \<Rightarrow> (errno + int) \<times> 's" where
  "do_epoll_create k w = (case ev_epoll_create1 k EPOLL_CLOEXEC w of ((fd, e), w1) \<Rightarrow>
     case (if fd = - 1 \<and> (e = EINVAL \<or> e = ENOSYS)
       then case ev_epoll_create k epoll_size w1 of ((fd', e'), w2) \<Rightarrow>
         (fd', e', if fd' \<noteq> - 1 then snd (ev_fcntl k fd' F_SETFD FD_CLOEXEC w2) else w2)
       else (fd, e, w1)) of (fd1, e1, w3) \<Rightarrow>
     (if fd1 = - 1 then Inl e1 else Inr fd1, w3))"

definition do_timerfd_create :: "'s evsys \<Rightarrow> 's \<Rightarrow> int \<times> 's" where
  "do_timerfd_create k w = (case ev_timerfd_create k CLOCK_MONOTONIC TFD_CLOEXEC w of ((fd, e), w1) \<Rightarrow>
     if fd = - 1 \<and> e = EINVAL
     then case ev_timerfd_create k CLOCK_MONOTONIC 0 w1 of ((fd', e'), w2) \<Rightarrow>
       (fd', if fd' \<noteq> - 1 then snd (ev_fcntl k fd' F_SETFD FD_CLOEXEC w2) else w2)
     else (fd, w1))"

text \<open>The part the constructor and the restart after a fork have in common: the reactor's own descriptors are added to
  the new epoll descriptor, and the interrupter is made readable for good.\<close>

definition watch_internal :: "'s evsys \<Rightarrow> epoll_state \<Rightarrow> 's \<Rightarrow> 's" where
  "watch_internal k es w = (let
       w1 = snd (ev_epoll_ctl k (es_epoll_fd es) EPOLL_CTL_ADD (ir_read (es_interrupter es)) (EPOLLIN OR EPOLLERR OR EPOLLET) Interrupter_ptr w);
       w2 = ir_interrupt k (es_interrupter es) w1
     in if es_timer_fd es \<noteq> - 1
        then snd (ev_epoll_ctl k (es_epoll_fd es) EPOLL_CTL_ADD (es_timer_fd es) (EPOLLIN OR EPOLLERR) Timer_fd_ptr w2) else w2)"

text \<open>An exception of a member's constructor destroys the members built before.\<close>

definition er_make :: "'s evsys \<Rightarrow> 's \<Rightarrow> (errno + epoll_state) \<times> 's" where
  "er_make k w = (case open_descriptors k w of (e, ir, w1) \<Rightarrow> case e of Some e1 \<Rightarrow> (Inl e1, w1)
     | None \<Rightarrow> case do_epoll_create k w1 of (r, w2) \<Rightarrow> case r of Inl e2 \<Rightarrow> (Inl e2, close_descriptors k ir w2)
       | Inr ep \<Rightarrow> case do_timerfd_create k w2 of (tfd, w3) \<Rightarrow>
         let es = \<lparr>es_rx = rx_make, es_timers = qs_make, es_interrupter = ir, es_epoll_fd = ep, es_timer_fd = tfd,
           es_shutdown = False, es_ready = (\<lambda>_. 0)\<rparr>
         in (Inr es, watch_internal k es w3))"

definition close_fd :: "'s evsys \<Rightarrow> int \<Rightarrow> 's \<Rightarrow> 's" where
  "close_fd k fd w = (if fd \<noteq> - 1 then snd (ev_close k fd w) else w)"

text \<open>The destructor of the queues of a descriptor state, last one first, and the pool's own: the states that are
  deleted, with the operations they still have.\<close>

fun destroy_ops :: "reactor \<Rightarrow> (nat \<times> nat) list \<Rightarrow> nat list option" where
  "destroy_ops rx [] = Some []"
| "destroy_ops rx ((d, i) # ps) = Option.bind (oq_destroy (rx_links rx) (ds_queue (rx_data rx d) i)) (\<lambda>xs.
     Option.bind (destroy_ops rx ps) (\<lambda>ys. Some (xs @ ys)))"

definition er_destroy :: "'s evsys \<Rightarrow> epoll_state \<Rightarrow> 's \<Rightarrow> (nat list \<times> nat list \<times> 's) option" where
  "er_destroy k es w = Option.bind (pool_destroy (rx_pool (es_rx es))) (\<lambda>ds.
     Option.bind (destroy_ops (es_rx es) (concat (map (\<lambda>d. [(d, 2), (d, 1), (d, 0)]) ds))) (\<lambda>xs.
       Some (ds, xs, close_descriptors k (es_interrupter es) (close_fd k (es_timer_fd es) (close_fd k (es_epoll_fd es) w)))))"

text \<open>The new values of the target and the source.\<close>

definition move_descriptor :: "nat \<Rightarrow> nat \<times> nat" where
  "move_descriptor source_data = (source_data, 0)"

subsection \<open>The timeout\<close>

definition er_interrupt :: "'s evsys \<Rightarrow> epoll_state \<Rightarrow> 's \<Rightarrow> 's" where
  "er_interrupt k es w = snd (ev_epoll_ctl k (es_epoll_fd es) EPOLL_CTL_MOD (ir_read (es_interrupter es)) (EPOLLIN OR EPOLLERR OR EPOLLET) Interrupter_ptr w)"

definition er_timeout_msec :: "(nat \<Rightarrow> int) \<Rightarrow> epoll_state \<Rightarrow> int option" where
  "er_timeout_msec now es = qs_wait_msec now (es_timers es) (5 * 60 * 1000)"

definition er_get_timeout :: "(nat \<Rightarrow> int) \<Rightarrow> epoll_state \<Rightarrow> (itimerspec \<times> bool) option" where
  "er_get_timeout now es = Option.bind (qs_wait_usec now (es_timers es) (5 * 60 * 1000 * 1000)) (\<lambda>usec.
     Some (\<lparr>it_sec = usec sdiv 1000000, it_nsec = (if usec \<noteq> 0 then (usec smod 1000000) * 1000 else 1)\<rparr>, usec = 0))"

text \<open>\<open>get_timeout(new_timeout)\<close> followed by \<open>timerfd_settime\<close>.\<close>

definition set_timer_fd :: "'s evsys \<Rightarrow> (nat \<Rightarrow> int) \<Rightarrow> epoll_state \<Rightarrow> 's \<Rightarrow> 's option" where
  "set_timer_fd k now es w = Option.bind (er_get_timeout now es) (\<lambda>(spec, flags).
     Some (snd (ev_timerfd_settime k (es_timer_fd es) flags (it_sec spec) (it_nsec spec) w)))"

definition er_update_timeout :: "'s evsys \<Rightarrow> (nat \<Rightarrow> int) \<Rightarrow> epoll_state \<Rightarrow> 's \<Rightarrow> 's option" where
  "er_update_timeout k now es w = (if es_timer_fd es \<noteq> - 1 then set_timer_fd k now es w else Some (er_interrupt k es w))"

definition do_add_timer_queue :: "nat \<Rightarrow> epoll_state \<Rightarrow> epoll_state" where
  "do_add_timer_queue q es = es\<lparr>es_timers := qs_insert q (es_timers es)\<rparr>"

definition do_remove_timer_queue :: "nat \<Rightarrow> epoll_state \<Rightarrow> epoll_state option" where
  "do_remove_timer_queue q es = map_option (\<lambda>S. es\<lparr>es_timers := S\<rparr>) (qs_erase q (es_timers es))"

subsection \<open>Waiting for events\<close>

fun dispatch :: "int \<Rightarrow> (event_ptr \<times> 32 word) list \<Rightarrow> bool \<Rightarrow> links \<Rightarrow> (nat \<Rightarrow> 32 word) \<Rightarrow> op_queue
    \<Rightarrow> bool \<times> links \<times> (nat \<Rightarrow> 32 word) \<times> op_queue" where
  "dispatch tfd [] check_timers l rdy ops = (check_timers, l, rdy, ops)"
| "dispatch tfd ((ptr, ev) # evs) check_timers l rdy ops = (case ptr of
       Interrupter_ptr \<Rightarrow> dispatch tfd evs (if tfd = - 1 then True else check_timers) l rdy ops
     | Timer_fd_ptr \<Rightarrow> dispatch tfd evs True l rdy ops
     | Descriptor_ptr d \<Rightarrow> (case oq_push l ops d of (l1, ops1) \<Rightarrow> dispatch tfd evs check_timers l1 (rdy(d := ev)) ops1))"

text \<open>\<open>wait\<close> is the clock as read for the timeout, \<open>due\<close> as read when ready timers are taken, \<open>now\<close> as read to set the
  timer descriptor again.\<close>

definition er_run :: "'s evsys \<Rightarrow> bool \<Rightarrow> (nat \<Rightarrow> int) \<Rightarrow> (nat \<Rightarrow> int) \<Rightarrow> (nat \<Rightarrow> int) \<Rightarrow> op_queue \<Rightarrow> epoll_state \<Rightarrow> 's
    \<Rightarrow> (op_queue \<times> epoll_state \<times> 's) option" where
  "er_run k block wait due now ops es w = Option.bind
     (if es_timer_fd es \<noteq> - 1 then Some (if block then - 1 else 0)
      else if block then er_timeout_msec wait es else Some 0) (\<lambda>timeout.
     case ev_epoll_wait k (es_epoll_fd es) 128 timeout w of ((num_events, events), w1) \<Rightarrow>
     case dispatch (es_timer_fd es) (take (nat num_events) events) (es_timer_fd es = - 1) (rx_links (es_rx es)) (es_ready es) ops of
       (check_timers, l, rdy, ops1) \<Rightarrow>
     let es1 = es\<lparr>es_rx := (es_rx es)\<lparr>rx_links := l\<rparr>, es_ready := rdy\<rparr> in
     if check_timers
     then Option.bind (qs_get_ready_timers due (es_timers es1) l ops1) (\<lambda>(S, l2, ops2).
       let es2 = es1\<lparr>es_rx := (es_rx es1)\<lparr>rx_links := l2\<rparr>, es_timers := S\<rparr> in
       if es_timer_fd es2 \<noteq> - 1 then Option.bind (set_timer_fd k now es2 w1) (\<lambda>w2. Some (ops2, es2, w2))
       else Some (ops2, es2, w1))
     else Some (ops1, es1, w1))"

subsection \<open>Internal descriptors and the shutdown\<close>

definition register_internal_descriptor :: "'s evsys \<Rightarrow> nat \<Rightarrow> int \<Rightarrow> nat \<Rightarrow> nat \<Rightarrow> epoll_state \<Rightarrow> 's \<Rightarrow> errno \<times> nat \<times> epoll_state \<times> 's" where
  "register_internal_descriptor k op_type descriptor new h es w = (case allocate_descriptor_state new (es_rx es) of (d, rx1) \<Rightarrow>
     let ev = EPOLLIN OR EPOLLERR OR EPOLLHUP OR EPOLLPRI OR EPOLLET;
       rx2 = upd_desc d (\<lambda>x. x\<lparr>ds_descriptor := descriptor, ds_shutdown := False\<rparr>) rx1
     in case oq_push (rx_links rx2) (ds_queue (rx_data rx2 d) op_type) h of (l, q) \<Rightarrow>
     let rx3 = upd_desc d (\<lambda>x. x\<lparr>ds_events := ev\<rparr>) ((set_queue d op_type q rx2)\<lparr>rx_links := l\<rparr>)
     in case ev_epoll_ctl k (es_epoll_fd es) EPOLL_CTL_ADD descriptor ev (Descriptor_ptr d) w of ((result, e), w1) \<Rightarrow>
       (if result \<noteq> 0 then e else 0, d, es\<lparr>es_rx := rx3\<rparr>, w1))"

text \<open>\<open>ops.push(op_queue_[i])\<close> for each queue of a state.\<close>

fun push_queues :: "nat list \<Rightarrow> nat \<Rightarrow> op_queue \<Rightarrow> reactor \<Rightarrow> op_queue \<times> reactor" where
  "push_queues [] d ops rx = (ops, rx)"
| "push_queues (i # is) d ops rx = (case oq_push_all (rx_links rx) ops (ds_queue (rx_data rx d) i) of (l, ops1, q) \<Rightarrow>
     push_queues is d ops1 ((set_queue d i q rx)\<lparr>rx_links := l\<rparr>))"

text \<open>The operations taken from the state are destroyed at the end of the block.\<close>

definition deregister_internal_descriptor :: "'s evsys \<Rightarrow> int \<Rightarrow> nat \<Rightarrow> epoll_state \<Rightarrow> 's \<Rightarrow> (nat list \<times> nat \<times> epoll_state \<times> 's) option" where
  "deregister_internal_descriptor k descriptor d es w = (if d = 0 \<or> ds_shutdown (rx_data (es_rx es) d) then Some ([], d, es, w)
     else let w1 = snd (ev_epoll_ctl k (es_epoll_fd es) EPOLL_CTL_DEL descriptor 0 (Descriptor_ptr 0) w) in
       case push_queues [0, 1, 2] d oq_make (es_rx es) of (ops, rx1) \<Rightarrow>
       let rx2 = upd_desc d (\<lambda>x. x\<lparr>ds_descriptor := - 1, ds_shutdown := True\<rparr>) rx1;
         rx3 = rx2\<lparr>rx_pool := pool_free d (rx_pool rx2)\<rparr>
       in Option.bind (oq_destroy (rx_links rx3) ops) (\<lambda>xs. Some (xs, 0, es\<lparr>es_rx := rx3\<rparr>, w1)))"

partial_function (option) shutdown_loop :: "op_queue \<Rightarrow> reactor \<Rightarrow> (op_queue \<times> reactor) option" where
  "shutdown_loop ops rx = (let d = op_live_list (rx_pool rx) in if d = 0 then Some (ops, rx)
     else case push_queues [0, 1, 2] d ops rx of (ops1, rx1) \<Rightarrow>
       let rx2 = upd_desc d (\<lambda>x. x\<lparr>ds_shutdown := True\<rparr>) rx1 in shutdown_loop ops1 (rx2\<lparr>rx_pool := pool_free d (rx_pool rx2)\<rparr>))"

text \<open>\<open>abandon_operations\<close> of the scheduler: the operations move to a local queue, whose destructor destroys them.\<close>

definition abandon_operations :: "links \<Rightarrow> op_queue \<Rightarrow> nat list option" where
  "abandon_operations l ops = (case oq_push_all l oq_make ops of (l1, ops2, r) \<Rightarrow> oq_destroy l1 ops2)"

definition shutdown_service :: "epoll_state \<Rightarrow> (nat list \<times> epoll_state) option" where
  "shutdown_service es = Option.bind (shutdown_loop oq_make (es_rx es)) (\<lambda>(ops, rx1).
     Option.bind (qs_get_all_timers (es_timers es) (rx_links rx1) ops) (\<lambda>(S, l, ops1).
       Option.bind (abandon_operations l ops1) (\<lambda>xs.
         Some (xs, es\<lparr>es_shutdown := True, es_rx := rx1\<lparr>rx_links := l\<rparr>, es_timers := S\<rparr>))))"

subsection \<open>After a fork\<close>

datatype fork_event = Fork_prepare | Fork_parent | Fork_child

text \<open>The loop over the registered descriptors, with the error it throws.\<close>

partial_function (option) reregister :: "'s evsys \<Rightarrow> int \<Rightarrow> reactor \<Rightarrow> nat \<Rightarrow> 's \<Rightarrow> (errno option \<times> 's) option" where
  "reregister k ep rx d w = (if d = 0 then Some (None, w)
     else case ev_epoll_ctl k ep EPOLL_CTL_ADD (ds_descriptor (rx_data rx d)) (ds_events (rx_data rx d)) (Descriptor_ptr d) w of ((result, e), w1) \<Rightarrow>
       if result \<noteq> 0 then Some (Some e, w1) else reregister k ep rx (op_next (rx_pool rx) d) w1)"

definition fork_service :: "'s evsys \<Rightarrow> fork_event \<Rightarrow> (nat \<Rightarrow> int) \<Rightarrow> epoll_state \<Rightarrow> 's \<Rightarrow> (errno option \<times> epoll_state \<times> 's) option" where
  "fork_service k fork_ev now es w = (if fork_ev = Fork_child
     then let w1 = close_fd k (es_epoll_fd es) w; es1 = es\<lparr>es_epoll_fd := - 1\<rparr> in
       case do_epoll_create k w1 of (r, w2) \<Rightarrow> case r of Inl e \<Rightarrow> Some (Some e, es1, w2)
       | Inr ep \<Rightarrow> let es2 = es1\<lparr>es_epoll_fd := ep\<rparr>; w3 = close_fd k (es_timer_fd es2) w2 in
         case do_timerfd_create k w3 of (tfd, w4) \<Rightarrow>
         case recreate k (es_interrupter es2) w4 of (e, ir, w5) \<Rightarrow>
         let es3 = es2\<lparr>es_timer_fd := tfd, es_interrupter := ir\<rparr> in
         case e of Some e1 \<Rightarrow> Some (Some e1, es3, w5)
         | None \<Rightarrow> Option.bind (er_update_timeout k now es3 (watch_internal k es3 w5)) (\<lambda>w6.
             Option.bind (reregister k ep (es_rx es3) (op_live_list (rx_pool (es_rx es3))) w6) (\<lambda>(e2, w7). Some (e2, es3, w7)))
     else Some (None, es, w))"

end
