(* ===== verification/Reactor_Props.thy ===== *)
theory Reactor_Props
  imports Reactor_Run
begin

text \<open>
  What the epoll reactor does with events and timers in one round of its loop, and with all its operations when it
  is shut down. The invariant \<open>es_inv\<close> puts the registered descriptors and the timer queues into one memory of
  operations.
\<close>

subsection \<open>Descriptors and timers in one memory\<close>

definition es_inv :: "epoll_state \<Rightarrow> nat list \<Rightarrow> (nat \<Rightarrow> nat \<Rightarrow> nat list) \<Rightarrow> nat list \<Rightarrow> nat list \<Rightarrow> nat list \<Rightarrow> (nat \<Rightarrow> int table) \<Rightarrow> bool" where
  "es_inv es hs A os started qs T \<longleftrightarrow> rx_inv (es_rx es) hs A os started \<and> set_of_queues (es_timers es) qs \<and>
     tables (rx_links (es_rx es)) (qs_queue (es_timers es)) qs T \<and> timer_ops qs T \<inter> (set os \<union> waiting_ops A) = {}"

lemma rx_inv_links:
  assumes "rx_inv rx hs A os started" "\<And>z. z \<in> set os \<union> waiting_ops A \<Longrightarrow> l z = rx_links rx z"
  shows "rx_inv (rx\<lparr>rx_links := l\<rparr>) hs A os started"
proof -
  note i = assms(1) [unfolded rx_inv_def rx_queues_def]
  have "queue_of l (rx_posted rx) os" by (rule queue_of_cong [of _ _ "rx_links rx"]) (use assms(2) i in auto)
  moreover have "queue_of l (ds_queue (rx_data rx d) j) (A d j)" for d j
    by (rule queue_of_cong [of _ _ "rx_links rx"]) (use assms(2) i in \<open>auto simp: waiting_ops_def\<close>)
  ultimately show ?thesis using i by (simp add: rx_inv_def rx_queues_def queue_of_Nil)
qed

text \<open>The descriptor states among the events reported by the kernel, and whether the timers are looked at.\<close>

definition ready_states :: "(event_ptr \<times> 32 word) list \<Rightarrow> nat list" where
  "ready_states evs = concat (map (\<lambda>(ptr, ev). case ptr of Descriptor_ptr d \<Rightarrow> [d] | _ \<Rightarrow> []) evs)"

definition asks_timers :: "int \<Rightarrow> (event_ptr \<times> 32 word) list \<Rightarrow> bool" where
  "asks_timers tfd evs \<longleftrightarrow> tfd = - 1 \<or> Timer_fd_ptr \<in> fst ` set evs"

lemma ready_states_mem: "d \<in> set (ready_states evs) \<longleftrightarrow> (\<exists>ev. (Descriptor_ptr d, ev) \<in> set evs)"
  by (force simp: ready_states_def split: event_ptr.splits)

lemma dispatch_pushes:
  assumes "queue_of l p ns" "distinct (ns @ ready_states evs)" "0 \<notin> set (ready_states evs)" "tfd = - 1 \<longrightarrow> c"
  shows "\<exists>l' rdy' p'. dispatch tfd evs c l rdy p = (c \<or> Timer_fd_ptr \<in> fst ` set evs, l', rdy', p') \<and>
    queue_of l' p' (ns @ ready_states evs) \<and> (\<forall>z. z \<notin> set ns \<union> set (ready_states evs) \<longrightarrow> l' z = l z) \<and>
    (\<forall>d. d \<notin> set (ready_states evs) \<longrightarrow> rdy' d = rdy d) \<and> (\<forall>d ev. (Descriptor_ptr d, ev) \<in> set evs \<longrightarrow> rdy' d = ev)"
  using assms
proof (induction evs arbitrary: c l rdy p ns)
  case (Cons pe evs)
  obtain ptr ev where pe: "pe = (ptr, ev)" by fastforce
  show ?case
  proof (cases ptr)
    case Interrupter_ptr
    then show ?thesis using Cons.IH [OF Cons.prems(1), of c rdy] Cons.prems(2-4) pe by (auto simp: ready_states_def)
  next
    case Timer_fd_ptr
    then show ?thesis using Cons.IH [OF Cons.prems(1), of True rdy] Cons.prems(2-4) pe by (auto simp: ready_states_def)
  next
    case (Descriptor_ptr d)
    have r: "ready_states (pe # evs) = d # ready_states evs" using pe Descriptor_ptr by (simp add: ready_states_def)
    obtain l1 p1 where u: "oq_push l p d = (l1, p1)" by fastforce
    have d: "d \<notin> set ns" "d \<noteq> 0" "d \<notin> set (ready_states evs)" "distinct ((ns @ [d]) @ ready_states evs)" "0 \<notin> set (ready_states evs)"
      using Cons.prems(2,3) r by auto
    obtain l' rdy' p' where i: "dispatch tfd evs c l1 (rdy(d := ev)) p1 = (c \<or> Timer_fd_ptr \<in> fst ` set evs, l', rdy', p')"
        "queue_of l' p' ((ns @ [d]) @ ready_states evs)" "\<forall>z. z \<notin> set (ns @ [d]) \<union> set (ready_states evs) \<longrightarrow> l' z = l1 z"
        "\<forall>e. e \<notin> set (ready_states evs) \<longrightarrow> rdy' e = (rdy(d := ev)) e" "\<forall>e v. (Descriptor_ptr e, v) \<in> set evs \<longrightarrow> rdy' e = v"
      using Cons.IH [OF oq_push_snoc [OF Cons.prems(1) d(1,2) u] d(4,5) Cons.prems(4), of "rdy(d := ev)"] by blast
    have "l' z = l z" if "z \<notin> set ns \<union> set (d # ready_states evs)" for z
      using i(3) oq_push_links [OF Cons.prems(1) u, of z] that by simp
    moreover have "rdy' d = ev" using i(4) d(3) by simp
    moreover have "rdy' e = v" if "(Descriptor_ptr e, v) \<in> set (pe # evs)" for e v using that i(5) pe Descriptor_ptr \<open>rdy' d = ev\<close> by auto
    moreover have "dispatch tfd (pe # evs) c l rdy p = (c \<or> Timer_fd_ptr \<in> fst ` set (pe # evs), l', rdy', p')" using pe Descriptor_ptr u i(1) by simp
    ultimately show ?thesis using i(2,4) unfolding r by (intro exI [of _ l'] exI [of _ rdy'] exI [of _ p']) simp
  qed
qed (auto simp: ready_states_def)

subsection \<open>The timer descriptor\<close>

text \<open>The descriptor becomes ready at most a microsecond after the expiry of the timer, or after the time it is set.\<close>

lemma get_timeout_ok:
  assumes "set_of_queues (es_timers es) qs" "tables l (qs_queue (es_timers es)) qs T"
    and "\<forall>q \<in> set qs. int64 (now q) \<and> (\<forall>t x ps. T q t = Some (x, ps) \<longrightarrow> int64 x)"
  shows "\<exists>spec flags. er_get_timeout now es = Some (spec, flags) \<and>
    (\<forall>st > 0. \<forall>q \<in> set qs. \<forall>t x ps. T q t = Some (x, ps) \<longrightarrow> fd_expiry st spec flags \<le> max st (x + (st - now q)) + 1000)"
proof -
  obtain r where r: "qs_wait_usec now (es_timers es) (5 * 60 * 1000 * 1000) = Some r" "0 \<le> r"
      "\<forall>q \<in> set qs. \<forall>x. (\<exists>t ps. T q t = Some (x, ps)) \<longrightarrow> early 1000 (now q) r x"
    using set_wait_early(2) [OF assms, of "5 * 60 * 1000 * 1000"] by auto
  let ?spec = "\<lparr>it_sec = r sdiv 1000000, it_nsec = (if r \<noteq> 0 then (r smod 1000000) * 1000 else 1)\<rparr>"
  have split: "r div 1000000 * 1000000000 + r mod 1000000 * 1000 = r * 1000" using div_mult_mod_eq [of r 1000000] by linarith
  have v: "fd_expiry st ?spec (r = 0) = (if r = 0 then 1 else st + r * 1000)" for st
    using r(2) split by (auto simp: fd_expiry_def signed_divide_int_def signed_modulo_int_def)
  have "fd_expiry st ?spec (r = 0) \<le> max st (x + (st - now q)) + 1000" if "0 < st" "q \<in> set qs" "T q t = Some (x, ps)" for st q t x ps
  proof -
    have "r \<le> 1 \<or> r * 1000 \<le> x - now q" using r(3) that(2,3) by (auto simp: early_def)
    then show ?thesis using that(1) r(2) unfolding v by (auto simp: max_def)
  qed
  then show ?thesis using r(1) by (intro exI [of _ ?spec] exI [of _ "r = 0"]) (simp add: er_get_timeout_def)
qed

text \<open>With a single queue this is the timeout of theory \<open>Timer_Service\<close>.\<close>

lemma timeout_one_queue: "set_of_queues (es_timers es) [q] \<Longrightarrow> er_get_timeout now es = get_timeout (now q) (qs_queue (es_timers es) q)"
  by (simp add: er_get_timeout_def get_timeout_def qs_wait_usec_def each_queue_list)

subsection \<open>One round of the reactor\<close>

definition reported :: "'s evsys \<Rightarrow> epoll_state \<Rightarrow> int \<Rightarrow> 's \<Rightarrow> (event_ptr \<times> 32 word) list" where
  "reported k es timeout w = (case ev_epoll_wait k (es_epoll_fd es) 128 timeout w of ((n, events), w1) \<Rightarrow> take (nat n) events)"

text \<open>The time to wait: for ever or not at all when there is a timer descriptor, otherwise not longer than to the
  first expiry.\<close>

definition wait_ok :: "epoll_state \<Rightarrow> bool \<Rightarrow> (nat \<Rightarrow> int) \<Rightarrow> nat list \<Rightarrow> (nat \<Rightarrow> int table) \<Rightarrow> int \<Rightarrow> bool" where
  "wait_ok es block wait qs T timeout \<longleftrightarrow> (if \<not> block then timeout = 0 else if es_timer_fd es \<noteq> - 1 then timeout = - 1
     else 0 \<le> timeout \<and> timeout \<le> 300000 \<and> (\<forall>q \<in> set qs. \<forall>t x ps. T q t = Some (x, ps) \<longrightarrow> early 1000000 (wait q) timeout x))"

text \<open>The timer descriptor was set after the wait, for the timers that remain.\<close>

definition rearmed :: "'s evsys \<Rightarrow> epoll_state \<Rightarrow> (nat \<Rightarrow> int) \<Rightarrow> nat list \<Rightarrow> (nat \<Rightarrow> int table) \<Rightarrow> 's \<Rightarrow> 's \<Rightarrow> bool" where
  "rearmed k es now qs T w w' \<longleftrightarrow> (\<exists>spec flags. w' = snd (ev_timerfd_settime k (es_timer_fd es) flags (it_sec spec) (it_nsec spec) w) \<and>
     (\<forall>st > 0. \<forall>q \<in> set qs. \<forall>t x ps. T q t = Some (x, ps) \<longrightarrow> fd_expiry st spec flags \<le> max st (x + (st - now q)) + 1000))"

lemma run_timeout:
  assumes "es_inv es hs A os started qs T" "\<forall>q \<in> set qs. int64 (wait q) \<and> (\<forall>t x ps. T q t = Some (x, ps) \<longrightarrow> int64 x)"
  shows "\<exists>timeout. (if es_timer_fd es \<noteq> - 1 then Some (if block then - 1 else 0)
      else if block then er_timeout_msec wait es else Some 0) = Some timeout \<and> wait_ok es block wait qs T timeout"
proof -
  have t: "set_of_queues (es_timers es) qs" "tables (rx_links (es_rx es)) (qs_queue (es_timers es)) qs T" using assms(1) by (simp_all add: es_inv_def)
  show ?thesis using set_wait_early(1) [OF t assms(2), of 300000] by (fastforce simp: wait_ok_def er_timeout_msec_def)
qed

lemma set_timer_rearmed:
  assumes "set_of_queues (es_timers es) qs" "tables l (qs_queue (es_timers es)) qs T" "es_timer_fd es = es_timer_fd es0"
    and "\<forall>q \<in> set qs. int64 (now q) \<and> (\<forall>t x ps. T q t = Some (x, ps) \<longrightarrow> int64 x)"
  shows "\<exists>w'. set_timer_fd k now es w = Some w' \<and> rearmed k es0 now qs T w w'"
proof -
  obtain spec flags where "er_get_timeout now es = Some (spec, flags)"
      "\<forall>st > 0. \<forall>q \<in> set qs. \<forall>t x ps. T q t = Some (x, ps) \<longrightarrow> fd_expiry st spec flags \<le> max st (x + (st - now q)) + 1000"
    using get_timeout_ok [OF assms(1,2,4)] by blast
  then show ?thesis using assms(3) unfolding set_timer_fd_def rearmed_def by auto
qed

lemma later_Some: "later now A t = Some (x, ps) \<longleftrightarrow> A t = Some (x, ps) \<and> now < x"
  by (auto simp: later_def split: option.splits)

lemma timer_ops_later: "timer_ops qs (\<lambda>q. later (due q) (T q)) \<subseteq> timer_ops qs T"
proof -
  have "waiting (later n A) \<subseteq> waiting A" for n and A :: "int table"
  proof -
    have "set (ops_of (later n A) u) \<subseteq> set (ops_of A u)" for u by (auto simp: ops_of_def later_def split: option.splits if_splits)
    then show ?thesis unfolding waiting_def by blast
  qed
  then show ?thesis unfolding timer_ops_def by blast
qed

text \<open>The part of a round that looks at the timers.\<close>

lemma run_timers_part:
  assumes "es_inv es hs A os started qs T" "queue_of (rx_links (es_rx es)) p ns" "set ns \<inter> (set os \<union> waiting_ops A \<union> timer_ops qs T) = {}"
    and "\<forall>q \<in> set qs. int64 (now q) \<and> (\<forall>t x ps. T q t = Some (x, ps) \<longrightarrow> int64 x)"
  shows "\<exists>S l2 p2 ts w2. qs_get_ready_timers due (es_timers es) (rx_links (es_rx es)) p = Some (S, l2, p2) \<and>
    queue_of l2 p2 (ns @ ops_in qs T ts) \<and> (\<forall>q \<in> set qs. due_timers (due q) (T q) (ts q)) \<and>
    es_inv (es\<lparr>es_rx := (es_rx es)\<lparr>rx_links := l2\<rparr>, es_timers := S\<rparr>) hs A os started qs (\<lambda>q. later (due q) (T q)) \<and>
    set_timer_fd k now (es\<lparr>es_rx := (es_rx es)\<lparr>rx_links := l2\<rparr>, es_timers := S\<rparr>) w = Some w2 \<and>
    rearmed k es now qs (\<lambda>q. later (due q) (T q)) w w2"
proof -
  note i = assms(1) [unfolded es_inv_def]
  have nd: "set ns \<inter> timer_ops qs T = {}" using assms(3) by blast
  obtain S l2 p2 ts where r: "qs_get_ready_timers due (es_timers es) (rx_links (es_rx es)) p = Some (S, l2, p2)" "set_of_queues S qs"
      "tables l2 (qs_queue S) qs (\<lambda>q. later (due q) (T q))" "queue_of l2 p2 (ns @ ops_in qs T ts)"
      "\<forall>q \<in> set qs. due_timers (due q) (T q) (ts q)" "\<forall>z. z \<notin> set ns \<union> timer_ops qs T \<longrightarrow> l2 z = rx_links (es_rx es) z"
    using set_ready [of "es_timers es" qs "rx_links (es_rx es)" T p ns due] i assms(2) nd by blast
  let ?es = "es\<lparr>es_rx := (es_rx es)\<lparr>rx_links := l2\<rparr>, es_timers := S\<rparr>"
  have "rx_inv ((es_rx es)\<lparr>rx_links := l2\<rparr>) hs A os started"
    by (rule rx_inv_links) (use i assms(3) r(6) in blast)+
  then have e: "es_inv ?es hs A os started qs (\<lambda>q. later (due q) (T q))"
    using i r(2,3) timer_ops_later [of qs due T] by (auto simp: es_inv_def)
  have "\<forall>q \<in> set qs. int64 (now q) \<and> (\<forall>t x ps. later (due q) (T q) t = Some (x, ps) \<longrightarrow> int64 x)" using assms(4) unfolding later_Some by blast
  then obtain w2 where "set_timer_fd k now ?es w = Some w2" "rearmed k es now qs (\<lambda>q. later (due q) (T q)) w w2"
    using set_timer_rearmed [of ?es qs l2 "\<lambda>q. later (due q) (T q)" es now k w] r(2,3) by auto
  then show ?thesis using r(1,4,5) e by blast
qed


text \<open>A state with one timer, due at 5, in the queue 20, and a kernel that reports a descriptor and the timer descriptor.\<close>

definition sample_queue :: "int timer_queue" where
  "sample_queue = fst (enqueue_timer 5 1 10 (tq_make (\<lambda>_. 0)))"

definition sample_es :: epoll_state where
  "sample_es = \<lparr>es_rx = rx_make\<lparr>rx_links := tq_links sample_queue\<rparr>, es_timers = qs_insert 20 (qs_make\<lparr>qs_queue := (\<lambda>_. sample_queue)\<rparr>),
     es_interrupter = \<lparr>ir_read = 3, ir_write = 3\<rparr>, es_epoll_fd = 4, es_timer_fd = 5, es_shutdown = False, es_ready = (\<lambda>_. 0)\<rparr>"

definition sample_desk :: desk where
  "sample_desk = \<lparr>dk_open = [3, 4, 5], dk_watch = (\<lambda>_. Map.empty), dk_old = False, dk_events = [(Descriptor_ptr 7, EPOLLIN), (Timer_fd_ptr, EPOLLIN)]\<rparr>"

definition sample_table :: "int table" where
  "sample_table = [1 \<mapsto> (5, [10])]"

lemma sample_table_ops: "waiting sample_table = {10}" "ops_of sample_table 1 = [10]"
  by (auto simp: waiting_def ops_of_def sample_table_def split: if_splits)

lemma sample_inv: "es_inv sample_es [] (\<lambda>_ _. []) [] [] [20] (\<lambda>_. sample_table)"
proof -
  obtain b where e: "enqueue_timer 5 1 10 (tq_make (\<lambda>_. 0)) = (sample_queue, b)" by (metis sample_queue_def prod.collapse)
  have t: "tq_table sample_queue oq_make sample_table []"
    using table_enqueue [OF table_make _ _ _ _ e] by (auto simp: ops_of_def schedule_def sample_table_def)
  have "rx_inv (rx_make\<lparr>rx_links := tq_links sample_queue\<rparr>) [] (\<lambda>_ _. []) [] []" by (rule rx_inv_links [OF rx_inv_make]) (simp add: waiting_ops_def)
  moreover have "set_of_queues (qs_make\<lparr>qs_queue := (\<lambda>_. sample_queue)\<rparr>) []" using set_make by (simp add: set_of_queues_def)
  then have "set_of_queues (es_timers sample_es) [20]" using set_insert [of _ "[]" 20] by (simp add: sample_es_def)
  ultimately show ?thesis using t by (simp add: es_inv_def sample_es_def tables_def qs_insert_def waiting_ops_def)
qed


subsection \<open>Taking all operations\<close>

lemma push_queues_all:
  "rx_queues rx A os p ns \<Longrightarrow> distinct is \<Longrightarrow> push_queues is d p rx = (p', rx') \<Longrightarrow>
    same_registry rx rx' \<and> rx_queues rx' (A(d := \<lambda>i. if i \<in> set is then [] else A d i)) os p' (ns @ concat (map (A d) is)) \<and>
    (\<forall>z. z \<notin> set ns \<union> (\<Union>i. set (A d i)) \<longrightarrow> rx_links rx' z = rx_links rx z)"
proof (induction "is" arbitrary: rx A p ns)
  case (Cons i "is")
  note q = Cons.prems(1) [unfolded rx_queues_def]
  obtain l p1 q' where u: "oq_push_all (rx_links rx) p (ds_queue (rx_data rx d) i) = (l, p1, q')" by (metis prod.collapse)
  have n: "set ns \<inter> set (A d i) = {}" using apartD(3) [of A os ns d i] q by blast
  have l: "queue_of l q' []" "queue_of l p1 (ns @ A d i)" using oq_push_all_append [OF _ _ n u] q by blast+
  have f: "z \<notin> set ns \<Longrightarrow> l z = rx_links rx z" for z using oq_push_all_links [OF _ u] q by blast
  let ?rx = "(set_queue d i q' rx)\<lparr>rx_links := l\<rparr>" and ?A = "A(d := (A d)(i := []))"
  have "rx_queues ((set_queue d i q' rx)\<lparr>rx_links := l, rx_ec := rx_ec rx\<rparr>) ?A os p1 (ns @ A d i)"
    by (rule queues_move [OF Cons.prems(1) _ l]) (use f in auto)
  then have r: "rx_queues ?rx ?A os p1 (ns @ A d i)" by (simp del: fun_upd_apply)
  have d: "distinct is" "push_queues is d p1 ?rx = (p', rx')" using Cons.prems(2,3) u by simp_all
  note ih = Cons.IH [OF r d]
  have A: "?A(d := \<lambda>j. if j \<in> set is then [] else ?A d j) = A(d := \<lambda>j. if j \<in> set (i # is) then [] else A d j)" by (auto intro!: ext)
  have m: "map (?A d) is = map (A d) is" using Cons.prems(2) by auto
  have s: "same_registry rx rx'" using ih same_registry_trans [of rx ?rx rx'] by (simp del: fun_upd_apply)
  have "rx_links rx' z = rx_links rx z" if "z \<notin> set ns \<union> (\<Union>i. set (A d i))" for z
  proof -
    have "z \<notin> set (ns @ A d i) \<union> (\<Union>j. set (?A d j))" using that by (auto split: if_splits)
    then show ?thesis using ih f [of z] that by simp
  qed
  then show ?case using ih s unfolding A m by (simp del: fun_upd_apply)
qed (auto simp: fun_upd_def)

lemma cleared_three: "\<forall>i. 3 \<le> i \<longrightarrow> A d i = [] \<Longrightarrow> A(d := \<lambda>i. if i \<in> set [0, 1, 2] then [] else A d i) = cleared d A"
  by (auto intro!: ext simp: cleared_def not_less_eq_eq numeral_3_eq_3 numeral_2_eq_2)

lemma push_three:
  assumes "rx_queues rx A os p ns" "\<forall>i. 3 \<le> i \<longrightarrow> A d i = []" "push_queues [0, 1, 2] d p rx = (p', rx')"
  shows "same_registry rx rx'" "rx_queues rx' (cleared d A) os p' (ns @ desc_ops A d)"
    "z \<notin> set ns \<union> waiting_ops A \<Longrightarrow> rx_links rx' z = rx_links rx z"
proof -
  note p = push_queues_all [OF assms(1) _ assms(3), unfolded cleared_three [of A d, OF assms(2)]]
  show "same_registry rx rx'" "rx_queues rx' (cleared d A) os p' (ns @ desc_ops A d)" using p by (simp_all add: desc_ops_def)
  show "z \<notin> set ns \<union> waiting_ops A \<Longrightarrow> rx_links rx' z = rx_links rx z" using p by (auto simp: waiting_ops_def)
qed

lemma desc_ops_cleared: "d \<notin> set hs \<Longrightarrow> map (desc_ops (cleared d A)) hs = map (desc_ops A) hs"
  by (auto simp: desc_ops_def cleared_def)

lemma waiting_cleared: "\<forall>i. 3 \<le> i \<longrightarrow> A d i = [] \<Longrightarrow> waiting_ops A = set (desc_ops A d) \<union> waiting_ops (cleared d A)"
proof -
  assume a: "\<forall>i. 3 \<le> i \<longrightarrow> A d i = []"
  have "fewer d A (cleared d A) (desc_ops A d)"
    using aborted_fewer [of A d, OF a] unfolding cleared_three [of A d, OF a] desc_ops_def .
  then show ?thesis by (rule fewer_waiting)
qed

lemma shutdown_loop_all:
  "pool_of (rx_pool rx) hs free \<Longrightarrow> rx_queues rx A os p ns \<Longrightarrow> \<forall>d i. d \<notin> set hs \<or> 3 \<le> i \<longrightarrow> A d i = [] \<Longrightarrow>
    \<exists>p' rx'. shutdown_loop p rx = Some (p', rx') \<and> pool_of (rx_pool rx') [] (rev hs @ free) \<and>
      rx_queues rx' (\<lambda>_ _. []) os p' (ns @ concat (map (desc_ops A) hs)) \<and> rx_invoked rx' = rx_invoked rx \<and>
      (\<forall>d. ds_shutdown (rx_data rx' d) \<longleftrightarrow> ds_shutdown (rx_data rx d) \<or> d \<in> set hs) \<and>
      (\<forall>z. z \<notin> set ns \<union> waiting_ops A \<longrightarrow> rx_links rx' z = rx_links rx z)"
proof (induction hs arbitrary: rx A p ns free)
  case Nil
  then have "op_live_list (rx_pool rx) = 0" by (simp add: pool_of_def head_of_def)
  then have "shutdown_loop p rx = Some (p, rx)" by (subst shutdown_loop.simps) simp
  moreover have "A = (\<lambda>_ _. [])" using Nil.prems(3) by (intro ext) simp
  ultimately show ?case using Nil.prems by simp
next
  case (Cons d hs)
  obtain p1 rx1 where u: "push_queues [0, 1, 2] d p rx = (p1, rx1)" by fastforce
  have d: "op_live_list (rx_pool rx) = d" "d \<noteq> 0" "d \<notin> set hs" using Cons.prems(1) by (auto simp: pool_of_def head_of_def)
  have z: "\<forall>i. 3 \<le> i \<longrightarrow> A d i = []" using Cons.prems(3) by blast
  note c = push_three [OF Cons.prems(2) z u]
  let ?rx = "(upd_desc d (\<lambda>x. x\<lparr>ds_shutdown := True\<rparr>) rx1)\<lparr>rx_pool := pool_free d (rx_pool rx1)\<rparr>"
  have l: "shutdown_loop p rx = shutdown_loop p1 ?rx" using u d(1,2) by (subst shutdown_loop.simps) (simp add: Let_def upd_desc_def)
  have "pool_of (rx_pool ?rx) hs (d # free)"
    using recycled.release_live [OF Cons.prems(1), of d] c(1) by (simp add: same_registry_def)
  moreover have "rx_queues ?rx (cleared d A) os p1 (ns @ desc_ops A d)" using c(2) by simp
  moreover have "\<forall>e i. e \<notin> set hs \<or> 3 \<le> i \<longrightarrow> cleared d A e i = []" using Cons.prems(3) by (auto simp: cleared_def)
  ultimately obtain p' rx' where r: "shutdown_loop p1 ?rx = Some (p', rx')" "pool_of (rx_pool rx') [] (rev hs @ d # free)"
      "rx_queues rx' (\<lambda>_ _. []) os p' ((ns @ desc_ops A d) @ concat (map (desc_ops (cleared d A)) hs))" "rx_invoked rx' = rx_invoked ?rx"
      "\<forall>e. ds_shutdown (rx_data rx' e) \<longleftrightarrow> ds_shutdown (rx_data ?rx e) \<or> e \<in> set hs"
      "\<forall>z. z \<notin> set (ns @ desc_ops A d) \<union> waiting_ops (cleared d A) \<longrightarrow> rx_links rx' z = rx_links ?rx z"
    using Cons.IH [of ?rx "d # free" "cleared d A" p1 "ns @ desc_ops A d"] by blast
  have "rx_links rx' z = rx_links rx z" if "z \<notin> set ns \<union> waiting_ops A" for z
    using r(6) c(3) [OF that] that waiting_cleared [of A d, OF z] by (simp add: upd_desc_def)
  moreover have "ds_shutdown (rx_data rx' e) \<longleftrightarrow> ds_shutdown (rx_data rx e) \<or> e \<in> set (d # hs)" for e
    using r(5) c(1) by (auto simp: upd_desc_def same_registry_def)
  moreover have "rx_invoked rx' = rx_invoked rx" using r(4) c(1) by (simp add: upd_desc_def same_registry_def)
  ultimately show ?case using l r(1-3) unfolding desc_ops_cleared [OF d(3)] by simp
qed

lemma desc_ops_waiting: "\<forall>d i. d \<notin> set hs \<or> 3 \<le> i \<longrightarrow> A d i = [] \<Longrightarrow> set (concat (map (desc_ops A) hs)) = waiting_ops A"
proof
  assume x: "\<forall>d i. d \<notin> set hs \<or> 3 \<le> i \<longrightarrow> A d i = []"
  show "set (concat (map (desc_ops A) hs)) \<subseteq> waiting_ops A" by (auto simp: desc_ops_def waiting_ops_def)
  have "y \<in> set (desc_ops A d) \<and> d \<in> set hs" if "y \<in> set (A d j)" for y d j
  proof -
    have "d \<in> set hs" "\<not> 3 \<le> j" using x that by (metis empty_iff list.set(1))+
    moreover from this have "j = 0 \<or> j = 1 \<or> j = 2" by linarith
    ultimately show ?thesis using that by (auto simp: desc_ops_def)
  qed
  then show "waiting_ops A \<subseteq> set (concat (map (desc_ops A) hs))" by (fastforce simp: waiting_ops_def)
qed

lemma abandon_all: "queue_of l p xs \<Longrightarrow> abandon_operations l p = Some xs"
proof -
  assume q: "queue_of l p xs"
  obtain l1 ops2 r where a: "oq_push_all l oq_make p = (l1, ops2, r)" by (metis prod.collapse)
  have "queue_of l1 ops2 ([] @ xs)" using oq_push_all_append [OF _ q _ a, of "[]"] by (simp add: queue_of_Nil)
  then show "abandon_operations l p = Some xs" using a oq_destroy_all by (simp add: abandon_operations_def)
qed

text \<open>C24: The shutdown of the reactor destroys each waiting operation once. \<open>shutdown_service\<close> returns; the operations
  it destroys are those that wait for a descriptor, in the order of the registered descriptors and their queues,
  followed by those that wait for a timer, each exactly once; afterwards no descriptor is registered, their states are
  marked and can be used again, no queue of a descriptor or timer has an operation, and what was posted to
  the scheduler before is untouched.\<close>

theorem reactor_shutdown:
  assumes "es_inv es hs A os started qs T"
  shows "\<exists>xs es' ts free. shutdown_service es = Some (xs, es') \<and> xs = concat (map (desc_ops A) hs) @ ops_in qs T ts \<and> distinct xs \<and>
    set xs = waiting_ops A \<union> timer_ops qs T \<and> pool_of (rx_pool (es_rx es')) [] free \<and> set hs \<subseteq> set free \<and> es_shutdown es' \<and>
    (\<forall>d \<in> set hs. ds_shutdown (rx_data (es_rx es') d)) \<and> (\<forall>d i. oq_empty (ds_queue (rx_data (es_rx es') d) i)) \<and>
    tables (rx_links (es_rx es')) (qs_queue (es_timers es')) qs (\<lambda>_. Map.empty) \<and> queue_of (rx_links (es_rx es')) (rx_posted (es_rx es')) os"
proof -
  note i = assms [unfolded es_inv_def]
  note x = i [THEN conjunct1, unfolded rx_inv_def]
  obtain free where f: "pool_of (rx_pool (es_rx es)) hs free" using x by blast
  obtain p rx where s: "shutdown_loop oq_make (es_rx es) = Some (p, rx)" "pool_of (rx_pool rx) [] (rev hs @ free)"
      "rx_queues rx (\<lambda>_ _. []) os p (concat (map (desc_ops A) hs))" "\<forall>d. ds_shutdown (rx_data rx d) \<longleftrightarrow> ds_shutdown (rx_data (es_rx es) d) \<or> d \<in> set hs"
      "\<forall>z. z \<notin> waiting_ops A \<longrightarrow> rx_links rx z = rx_links (es_rx es) z"
    using shutdown_loop_all [OF f, of A os oq_make "[]"] x by auto
  let ?ns = "concat (map (desc_ops A) hs)"
  have w: "set ?ns = waiting_ops A" by (rule desc_ops_waiting) (use x in blast)
  have t: "tables (rx_links rx) (qs_queue (es_timers es)) qs T"
    by (rule tables_moved [of "rx_links (es_rx es)"]) (use i s(5) in blast)+
  have q: "queue_of (rx_links rx) p ?ns" "set ?ns \<inter> timer_ops qs T = {}" using s(3) i w by (auto simp: rx_queues_def)
  obtain S l p1 ts where a: "qs_get_all_timers (es_timers es) (rx_links rx) p = Some (S, l, p1)" "tables l (qs_queue S) qs (\<lambda>_. Map.empty)"
      "queue_of l p1 (?ns @ ops_in qs T ts)" "\<forall>q \<in> set qs. distinct (ts q) \<and> set (ts q) = dom (T q)" "\<forall>z. z \<notin> set ?ns \<union> timer_ops qs T \<longrightarrow> l z = rx_links rx z"
    using set_all [OF _ t q] i by blast
  let ?es = "es\<lparr>es_shutdown := True, es_rx := rx\<lparr>rx_links := l\<rparr>, es_timers := S\<rparr>"
  have r: "shutdown_service es = Some (?ns @ ops_in qs T ts, ?es)" using s(1) a(1) abandon_all [OF a(3)] by (simp add: shutdown_service_def)
  have "set (concat (map (ops_of (T q)) (ts q))) = waiting (T q)" if "q \<in> set qs" for q
  proof -
    have "set (ts q) = dom (T q)" using a(4) that by blast
    then show ?thesis using waiting_all [of "ts q" "T q"] by (simp add: waiting_def [of Map.empty] ops_of_def [of Map.empty])
  qed
  then have o: "set (ops_in qs T ts) = timer_ops qs T" by (simp add: ops_in_def timer_ops_def)
  have "set os \<inter> (set ?ns \<union> timer_ops qs T) = {}" using s(3) i by (auto simp: rx_queues_def apart_def)
  then have "\<And>z. z \<in> set os \<Longrightarrow> l z = rx_links rx z" using a(5) by blast
  then have "queue_of l (rx_posted rx) os" by (rule queue_of_cong) (use s(3) in \<open>simp_all add: rx_queues_def\<close>)
  moreover have "oq_empty (ds_queue (rx_data rx d) j)" for d j using s(3) by (auto simp: rx_queues_def queue_of_Nil oq_empty_def oq_make_def)
  moreover have "distinct (?ns @ ops_in qs T ts)" using a(3) unfolding queue_of_def by blast
  ultimately show ?thesis using r s(2,4) a(2) w o
    by (intro exI [of _ "?ns @ ops_in qs T ts"] exI [of _ ?es] exI [of _ ts] exI [of _ "rev hs @ free"]) simp
qed

theorem reactor_shutdown_witness:
  "\<exists>xs es'. shutdown_service sample_es = Some (xs, es') \<and> set xs = {10} \<and> es_shutdown es'"
  using reactor_shutdown [OF sample_inv] sample_table_ops(1) by (auto simp: waiting_ops_def timer_ops_def)

text \<open>Removing an internal descriptor destroys the operations that wait for it and forgets it.\<close>

lemma deregister_internal_all:
  assumes "rx_inv (es_rx es) hs A os started" "d \<in> set hs"
  shows "\<exists>es' w'. deregister_internal_descriptor k fd d es w = Some (desc_ops A d, 0, es', w') \<and>
    (\<exists>free. pool_of (rx_pool (es_rx es')) (remove1 d hs) free) \<and> rx_queues (es_rx es') (cleared d A) os oq_make []"
proof -
  note x = assms(1) [unfolded rx_inv_def]
  obtain free where f: "pool_of (rx_pool (es_rx es)) hs free" using x by blast
  obtain p rx1 where u: "push_queues [0, 1, 2] d oq_make (es_rx es) = (p, rx1)" by fastforce
  have z: "\<forall>i. 3 \<le> i \<longrightarrow> A d i = []" "rx_queues (es_rx es) A os oq_make []" using x by blast+
  note c = push_three [OF z(2,1) u]
  have d: "d \<noteq> 0" "\<not> ds_shutdown (rx_data (es_rx es) d)" using x f assms(2) by (auto simp: pool_of_def)
  let ?f = "\<lambda>x. x\<lparr>ds_descriptor := - 1, ds_shutdown := True\<rparr>"
  let ?rx = "(upd_desc d ?f rx1)\<lparr>rx_pool := pool_free d (rx_pool rx1)\<rparr>"
  have q: "queue_of (rx_links rx1) p (desc_ops A d)" using c(2) by (simp add: rx_queues_def)
  have "deregister_internal_descriptor k fd d es w =
      Some (desc_ops A d, 0, es\<lparr>es_rx := ?rx\<rparr>, snd (ev_epoll_ctl k (es_epoll_fd es) EPOLL_CTL_DEL fd 0 (Descriptor_ptr 0) w))"
    using d u oq_destroy_all [OF q] by (simp add: deregister_internal_descriptor_def Let_def upd_desc_def)
  moreover have "pool_of (rx_pool ?rx) (remove1 d hs) (d # free)" using recycled.release_live [OF f assms(2)] c(1) by (simp add: same_registry_def)
  moreover have "apart (cleared d A) os []" using c(2) by (simp add: rx_queues_def apart_def Int_Un_distrib)
  then have "rx_queues ?rx (cleared d A) os oq_make []" using c(2) by (simp add: rx_queues_def queue_of_Nil upd_desc_def)
  ultimately show ?thesis by (intro exI [of _ "es\<lparr>es_rx := ?rx\<rparr>"] exI) auto
qed

end
