(* ===== verification/Reactor_Fork.thy ===== *)
theory Reactor_Fork
  imports Reactor_Props
begin

text \<open>
  The descriptors of the epoll reactor: which ones it owns from construction to destruction, and what its epoll
  descriptor watches after a fork, for every outcome of the system calls, under the laws of the locale
  \<open>descriptor_kernel\<close>.
\<close>

subsection \<open>Ownership\<close>

definition fd_set :: "int \<Rightarrow> int set" where
  "fd_set fd = {fd} - {- 1}"

lemma fd_set_simps [simp]: "fd_set (- 1) = {}" "f \<in> fd_set fd \<longleftrightarrow> f = fd \<and> f \<noteq> - 1"
  by (auto simp: fd_set_def)

definition es_fds :: "epoll_state \<Rightarrow> int set" where
  "es_fds es = fd_set (es_epoll_fd es) \<union> fd_set (es_timer_fd es) \<union> ir_fds (es_interrupter es)"

text \<open>The open descriptors are \<open>X\<close> and those of the reactor, which are apart.\<close>

definition es_owns :: "('s \<Rightarrow> int set) \<Rightarrow> epoll_state \<Rightarrow> 's \<Rightarrow> int set \<Rightarrow> bool" where
  "es_owns opened es w X \<longleftrightarrow> opened w = X \<union> es_fds es \<and> X \<inter> es_fds es = {} \<and>
     fd_set (es_epoll_fd es) \<inter> (fd_set (es_timer_fd es) \<union> ir_fds (es_interrupter es)) = {} \<and> fd_set (es_timer_fd es) \<inter> ir_fds (es_interrupter es) = {}"

text \<open>What the epoll descriptor is meant to watch.\<close>

definition wanted :: "epoll_state \<Rightarrow> nat list \<Rightarrow> int \<rightharpoonup> 32 word \<times> event_ptr" where
  "wanted es hs f = (if f = ir_read (es_interrupter es) then Some (EPOLLIN OR EPOLLERR OR EPOLLET, Interrupter_ptr)
     else if f = es_timer_fd es \<and> f \<noteq> - 1 then Some (EPOLLIN OR EPOLLERR, Timer_fd_ptr)
     else map_of (map (\<lambda>d. (ds_descriptor (rx_data (es_rx es) d), ds_events (rx_data (es_rx es) d), Descriptor_ptr d)) hs) f)"

text \<open>Calls that only add entries of \<open>M\<close> to what \<open>ep\<close> watches.\<close>

definition watches :: "('s \<Rightarrow> int set) \<Rightarrow> ('s \<Rightarrow> interest) \<Rightarrow> int \<Rightarrow> (int \<rightharpoonup> 32 word \<times> event_ptr) \<Rightarrow> 's \<Rightarrow> 's \<Rightarrow> bool" where
  "watches opened interest ep M w w' \<longleftrightarrow> opened w' = opened w \<and> (interest w ep \<subseteq>\<^sub>m M \<longrightarrow> interest w' ep \<subseteq>\<^sub>m M) \<and>
     (\<forall>f. M f \<noteq> None \<longrightarrow> interest w ep f = M f \<longrightarrow> interest w' ep f = M f)"

lemma watches_refl [simp]: "watches opened interest ep M w w"
  by (simp add: watches_def)

lemma watches_trans: "watches opened interest ep M w w1 \<Longrightarrow> watches opened interest ep M w1 w2 \<Longrightarrow> watches opened interest ep M w w2"
  by (auto simp: watches_def)

lemma silent_watches: "adds opened interest {} w w' \<Longrightarrow> watches opened interest ep M w w'"
  by (simp add: adds_def watches_def)

context descriptor_kernel
begin

lemma ctl_watch:
  assumes "ev_epoll_ctl k ep c fd ev ptr w = ((r, e), w')" "c = EPOLL_CTL_ADD \<or> c = EPOLL_CTL_MOD" "M fd = Some (ev, ptr)"
  shows "watches opened interest ep M w w'" "r = 0 \<Longrightarrow> interest w' ep fd = M fd"
proof -
  have c: "opened w' = opened w" "interest w' ep = (if r = 0 then (interest w ep)(fd \<mapsto> (ev, ptr)) else interest w ep)"
    using ctl_watches [OF assms(1)] assms(2) by (auto simp: EPOLL_CTL_ADD_def EPOLL_CTL_MOD_def)
  show "watches opened interest ep M w w'" using c assms(3) by (auto simp: watches_def map_le_def)
  show "r = 0 \<Longrightarrow> interest w' ep fd = M fd" using c assms(3) by simp
qed

lemma ctl_watch_snd: "c = EPOLL_CTL_ADD \<or> c = EPOLL_CTL_MOD \<Longrightarrow> M fd = Some (ev, ptr) \<Longrightarrow> watches opened interest ep M w (snd (ev_epoll_ctl k ep c fd ev ptr w))"
  using ctl_watch(1) [of ep c fd ev ptr w] by (metis prod.collapse)

lemma watch_internal_ok:
  assumes "fd_set (es_timer_fd es) \<inter> ir_fds (es_interrupter es) = {}" "ir_read (es_interrupter es) \<noteq> - 1"
  shows "watches opened interest (es_epoll_fd es) (wanted es hs) w (watch_internal k es w)"
proof -
  let ?W = "watches opened interest (es_epoll_fd es) (wanted es hs)" and ?ir = "es_interrupter es"
  have "es_timer_fd es \<noteq> ir_read ?ir" using assms by (auto simp: ir_fds_def fd_set_def)
  then have m: "wanted es hs (ir_read ?ir) = Some (EPOLLIN OR EPOLLERR OR EPOLLET, Interrupter_ptr)" "es_timer_fd es \<noteq> - 1 \<Longrightarrow> wanted es hs (es_timer_fd es) = Some (EPOLLIN OR EPOLLERR, Timer_fd_ptr)"
    by (simp_all add: wanted_def)
  define w1 where "w1 = snd (ev_epoll_ctl k (es_epoll_fd es) EPOLL_CTL_ADD (ir_read ?ir) (EPOLLIN OR EPOLLERR OR EPOLLET) Interrupter_ptr w)"
  define w2 where "w2 = ir_interrupt k ?ir w1"
  have 1: "?W w w1" unfolding w1_def by (rule ctl_watch_snd) (use m in simp_all)
  have 2: "?W w1 w2" unfolding w2_def ir_interrupt_def by (rule silent_watches) (use write_silent in \<open>simp add: untouched_def\<close>)
  have 3: "?W w2 (snd (ev_epoll_ctl k (es_epoll_fd es) EPOLL_CTL_ADD (es_timer_fd es) (EPOLLIN OR EPOLLERR) Timer_fd_ptr w2))" if "es_timer_fd es \<noteq> - 1"
    by (rule ctl_watch_snd) (use m that in simp_all)
  show ?thesis using watches_trans [OF 1 2] watches_trans [OF watches_trans [OF 1 2] 3] by (simp add: watch_internal_def Let_def w1_def [symmetric] w2_def [symmetric])
qed

lemma update_timeout_watches:
  assumes "er_update_timeout k now es w = Some w'"
  shows "watches opened interest (es_epoll_fd es) (wanted es hs) w w'"
proof (cases "es_timer_fd es = - 1")
  case True
  then have "w' = er_interrupt k es w" using assms by (simp add: er_update_timeout_def)
  then show ?thesis unfolding er_interrupt_def by (auto intro!: ctl_watch_snd simp: wanted_def)
next
  case False
  then obtain spec flags where "er_get_timeout now es = Some (spec, flags)"
    using assms by (auto simp: er_update_timeout_def set_timer_fd_def bind_eq_Some_conv)
  then have "w' = snd (ev_timerfd_settime k (es_timer_fd es) flags (it_sec spec) (it_nsec spec) w)"
    using assms False by (simp add: er_update_timeout_def set_timer_fd_def)
  then have "adds opened interest {} w w'" using settime_silent by (simp add: untouched_def)
  then show ?thesis by (rule silent_watches)
qed

lemma reregister_all:
  "forth (op_next (rx_pool rx)) hs 0 \<Longrightarrow> 0 \<notin> set hs \<Longrightarrow>
    (\<And>d. d \<in> set hs \<Longrightarrow> M (ds_descriptor (rx_data rx d)) = Some (ds_events (rx_data rx d), Descriptor_ptr d)) \<Longrightarrow>
    \<exists>e w'. reregister k ep rx (head_of hs) w = Some (e, w') \<and> watches opened interest ep M w w' \<and>
      (e = None \<longrightarrow> (\<forall>d \<in> set hs. interest w' ep (ds_descriptor (rx_data rx d)) = M (ds_descriptor (rx_data rx d))))"
proof (induction hs arbitrary: w)
  case Nil
  then show ?case by (subst reregister.simps) (simp add: head_of_def)
next
  case (Cons d hs)
  let ?x = "rx_data rx d"
  obtain r e w1 where c: "ev_epoll_ctl k ep EPOLL_CTL_ADD (ds_descriptor ?x) (ds_events ?x) (Descriptor_ptr d) w = ((r, e), w1)" by (metis prod.collapse)
  have M: "M (ds_descriptor ?x) = Some (ds_events ?x, Descriptor_ptr d)" using Cons.prems(3) by simp
  have h: "head_of (d # hs) = d" "d \<noteq> 0" "op_next (rx_pool rx) d = head_of hs" using Cons.prems(1,2) by (auto simp: head_of_def)
  note a = ctl_watch [OF c disjI1 [OF refl], of M, OF M]
  show ?case
  proof (cases "r = 0")
    case False
    then show ?thesis using a(1) c h by (subst reregister.simps) simp
  next
    case True
    obtain e' w' where i: "reregister k ep rx (head_of hs) w1 = Some (e', w')" "watches opened interest ep M w1 w'"
        "e' = None \<longrightarrow> (\<forall>d \<in> set hs. interest w' ep (ds_descriptor (rx_data rx d)) = M (ds_descriptor (rx_data rx d)))"
      using Cons.IH [of w1] Cons.prems by auto
    have "interest w' ep (ds_descriptor ?x) = M (ds_descriptor ?x)" using i(2) a(2) True M by (auto simp: watches_def)
    moreover have "reregister k ep rx (head_of (d # hs)) w = Some (e', w')" using c h i(1) True by (subst reregister.simps) simp
    ultimately show ?thesis using i(2,3) watches_trans [OF a(1)] by auto
  qed
qed

subsection \<open>Opening and closing\<close>

lemma epoll_create_adds:
  assumes "do_epoll_create k w = (r, w')"
  shows "case r of Inl e \<Rightarrow> adds opened interest {} w w' | Inr fd \<Rightarrow> fd \<noteq> - 1 \<and> adds opened interest {fd} w w'"
proof -
  obtain fd e w1 where a: "ev_epoll_create1 k EPOLL_CLOEXEC w = ((fd, e), w1)" by (metis prod.collapse)
  obtain fd' e' w2 where b: "ev_epoll_create k epoll_size w1 = ((fd', e'), w2)" by (metis prod.collapse)
  have 1: "adds opened interest ({fd} - {- 1}) w w1" by (rule opensD [OF epoll_create1_opens a])
  have 2: "adds opened interest ({fd'} - {- 1}) w1 w2" by (rule opensD [OF epoll_create_opens b])
  have 3: "adds opened interest {} w2 (snd (ev_fcntl k fd' F_SETFD FD_CLOEXEC w2))" using fcntl_silent by (simp add: untouched_def)
  show ?thesis using assms a b 1 adds_trans [OF 1 2] adds_trans [OF adds_trans [OF 1 2] 3]
    by (auto simp: do_epoll_create_def split: if_splits)
qed

lemma timerfd_create_adds:
  assumes "do_timerfd_create k w = (fd, w')"
  shows "adds opened interest ({fd} - {- 1}) w w'"
proof -
  obtain f e w1 where a: "ev_timerfd_create k CLOCK_MONOTONIC TFD_CLOEXEC w = ((f, e), w1)" by (metis prod.collapse)
  obtain f' e' w2 where b: "ev_timerfd_create k CLOCK_MONOTONIC 0 w1 = ((f', e'), w2)" by (metis prod.collapse)
  have 1: "adds opened interest ({f} - {- 1}) w w1" by (rule opensD [OF timerfd_create_opens a])
  have 2: "adds opened interest ({f'} - {- 1}) w1 w2" by (rule opensD [OF timerfd_create_opens b])
  have 3: "adds opened interest {} w2 (snd (ev_fcntl k f' F_SETFD FD_CLOEXEC w2))" using fcntl_silent by (simp add: untouched_def)
  show ?thesis using assms a b 1 adds_trans [OF 1 2] adds_trans [OF adds_trans [OF 1 2] 3]
    by (auto simp: do_timerfd_create_def split: if_splits)
qed

lemma close_fd_drops: "drops opened interest (fd_set fd) w (close_fd k fd w)"
  using close_drops by (simp add: close_fd_def fd_set_def)

text \<open>Each step of a restart keeps the ownership.\<close>

lemma owns_close_epoll:
  assumes "es_owns opened es w X"
  shows "es_owns opened (es\<lparr>es_epoll_fd := - 1\<rparr>) (close_fd k (es_epoll_fd es) w) X"
proof -
  have "opened (close_fd k (es_epoll_fd es) w) = opened w - fd_set (es_epoll_fd es)" using close_fd_drops by (simp add: drops_def)
  then show ?thesis using assms unfolding es_owns_def es_fds_def by (simp del: fd_set_simps(2)) blast
qed

lemma owns_close_timer:
  assumes "es_owns opened es w X"
  shows "es_owns opened (es\<lparr>es_timer_fd := - 1\<rparr>) (close_fd k (es_timer_fd es) w) X"
proof -
  have "opened (close_fd k (es_timer_fd es) w) = opened w - fd_set (es_timer_fd es)" using close_fd_drops by (simp add: drops_def)
  then show ?thesis using assms unfolding es_owns_def es_fds_def by (simp del: fd_set_simps(2)) blast
qed

lemma owns_close_interrupter:
  assumes "es_owns opened es w X"
  shows "es_owns opened (es\<lparr>es_interrupter := \<lparr>ir_read = - 1, ir_write = - 1\<rparr>\<rparr>) (close_descriptors k (es_interrupter es) w) X"
proof -
  have "opened (close_descriptors k (es_interrupter es) w) = opened w - ir_fds (es_interrupter es)" using close_drops_all by (simp add: drops_def)
  moreover have "ir_fds \<lparr>ir_read = - 1, ir_write = - 1\<rparr> = {}" by (simp add: ir_fds_def)
  ultimately show ?thesis using assms unfolding es_owns_def es_fds_def by (simp del: fd_set_simps(2)) blast
qed

lemma owns_open:
  assumes "es_owns opened es w X" "adds opened interest Y w w'"
  shows "es_epoll_fd es = - 1 \<Longrightarrow> fd_set ep = Y \<Longrightarrow> es_owns opened (es\<lparr>es_epoll_fd := ep\<rparr>) w' X"
    "es_timer_fd es = - 1 \<Longrightarrow> fd_set tfd = Y \<Longrightarrow> es_owns opened (es\<lparr>es_timer_fd := tfd\<rparr>) w' X"
    "ir_fds (es_interrupter es) = {} \<Longrightarrow> ir_fds ir = Y \<Longrightarrow> es_owns opened (es\<lparr>es_interrupter := ir\<rparr>) w' X"
  using assms unfolding es_owns_def es_fds_def adds_def by (simp_all del: fd_set_simps(2)) blast+

text \<open>What a new epoll descriptor watches does not change while other descriptors come and go.\<close>

lemma still_empty:
  assumes "interest w ep = Map.empty"
  shows "drops opened interest Y w w' \<Longrightarrow> ep \<notin> Y \<Longrightarrow> interest w' ep = Map.empty"
    "adds opened interest Y w w' \<Longrightarrow> interest w' ep = Map.empty"
proof -
  show "interest w' ep = Map.empty" if "drops opened interest Y w w'" "ep \<notin> Y"
  proof (rule map_le_antisym)
    show "interest w' ep \<subseteq>\<^sub>m Map.empty" using that assms by (metis drops_def)
  qed simp
  show "adds opened interest Y w w' \<Longrightarrow> interest w' ep = Map.empty" using assms by (simp add: adds_def)
qed

lemma wanted_live:
  assumes "distinct (map (\<lambda>d. ds_descriptor (rx_data (es_rx es) d)) hs)" "d \<in> set hs"
    and "ds_descriptor (rx_data (es_rx es) d) \<notin> {ir_read (es_interrupter es)} \<union> fd_set (es_timer_fd es)"
  shows "wanted es hs (ds_descriptor (rx_data (es_rx es) d)) = Some (ds_events (rx_data (es_rx es) d), Descriptor_ptr d)"
proof -
  have "map_of (map (\<lambda>d. (ds_descriptor (rx_data (es_rx es) d), ds_events (rx_data (es_rx es) d), Descriptor_ptr d)) hs)
      (ds_descriptor (rx_data (es_rx es) d)) = Some (ds_events (rx_data (es_rx es) d), Descriptor_ptr d)"
    by (rule map_of_is_SomeI) (use assms(1,2) in \<open>auto simp: comp_def\<close>)
  then show ?thesis using assms(3) by (simp add: wanted_def)
qed

text \<open>The new descriptors of a forked child, before anything is watched again.\<close>

lemma fork_descriptors:
  assumes own: "es_owns opened es w X" and "interest w2 ep = Map.empty" "es_owns opened (es\<lparr>es_epoll_fd := ep\<rparr>) w2 X" "ep \<noteq> - 1"
    and "do_timerfd_create k (close_fd k (es_timer_fd es) w2) = (tfd, w4)" "recreate k (es_interrupter es) w4 = (e, ir, w5)"
  shows "es_owns opened (es\<lparr>es_epoll_fd := ep, es_timer_fd := tfd, es_interrupter := ir\<rparr>) w5 X" "interest w5 ep = Map.empty"
    "e = None \<longleftrightarrow> ir_read ir \<noteq> - 1"
proof -
  let ?w3 = "close_fd k (es_timer_fd es) w2" and ?es2 = "es\<lparr>es_epoll_fd := ep\<rparr>" and ?ir0 = "\<lparr>ir_read = - 1, ir_write = - 1\<rparr>"
  let ?w = "close_descriptors k (es_interrupter es) w4"
  have o: "open_descriptors k ?w = (e, ir, w5)" using assms(6) by (simp add: recreate_def)
  show "e = None \<longleftrightarrow> ir_read ir \<noteq> - 1" by (rule open_adds(2) [OF o])
  have ep: "ep \<notin> fd_set (es_timer_fd es)" "ep \<notin> ir_fds (es_interrupter es)" using assms(3,4) by (auto simp: es_owns_def simp del: fd_set_simps(1))
  have t: "adds opened interest (fd_set tfd) ?w3 w4" using timerfd_create_adds [OF assms(5)] by (simp add: fd_set_def)
  have "interest ?w3 ep = Map.empty" using still_empty(1) [OF assms(2) close_fd_drops ep(1)] .
  then have "interest w4 ep = Map.empty" using still_empty(2) t by blast
  then have "interest ?w ep = Map.empty" using still_empty(1) close_drops_all ep(2) by blast
  then show "interest w5 ep = Map.empty" using still_empty(2) open_adds(1) [OF o] by blast
  have "es_owns opened (?es2\<lparr>es_timer_fd := - 1\<rparr>) ?w3 X" using owns_close_timer [OF assms(3)] by simp
  then have "es_owns opened (?es2\<lparr>es_timer_fd := tfd\<rparr>) w4 X" using owns_open(2) [OF _ t, of "?es2\<lparr>es_timer_fd := - 1\<rparr>"] by simp
  then have "es_owns opened (?es2\<lparr>es_timer_fd := tfd, es_interrupter := ?ir0\<rparr>) ?w X" using owns_close_interrupter by fastforce
  then show "es_owns opened (es\<lparr>es_epoll_fd := ep, es_timer_fd := tfd, es_interrupter := ir\<rparr>) w5 X"
    using owns_open(3) [OF _ open_adds(1) [OF o], of "?es2\<lparr>es_timer_fd := tfd, es_interrupter := ?ir0\<rparr>"] by (simp add: ir_fds_def [of ?ir0])
qed

text \<open>With new descriptors, everything that is registered is watched again.\<close>

lemma fork_watches_again:
  assumes own: "es_owns opened es w X" and "interest w (es_epoll_fd es) = Map.empty" "ir_read (es_interrupter es) \<noteq> - 1"
    and "set_of_queues (es_timers es) qs" "tables l (qs_queue (es_timers es)) qs T" "pool_of (rx_pool (es_rx es)) hs free"
    and "\<forall>q \<in> set qs. int64 (now q) \<and> (\<forall>t x ps. T q t = Some (x, ps) \<longrightarrow> int64 x)"
    and "distinct (map (\<lambda>d. ds_descriptor (rx_data (es_rx es) d)) hs)" "\<And>d. d \<in> set hs \<Longrightarrow> ds_descriptor (rx_data (es_rx es) d) \<in> X"
  shows "\<exists>w1 e w2. er_update_timeout k now es (watch_internal k es w) = Some w1 \<and>
    reregister k (es_epoll_fd es) (es_rx es) (op_live_list (rx_pool (es_rx es))) w1 = Some (e, w2) \<and> es_owns opened es w2 X \<and>
    interest w2 (es_epoll_fd es) \<subseteq>\<^sub>m wanted es hs \<and> (e = None \<longrightarrow> (\<forall>d \<in> set hs.
      interest w2 (es_epoll_fd es) (ds_descriptor (rx_data (es_rx es) d)) = Some (ds_events (rx_data (es_rx es) d), Descriptor_ptr d)))"
proof -
  let ?ep = "es_epoll_fd es" and ?M = "wanted es hs" and ?w6 = "watch_internal k es w" and ?ir = "es_interrupter es"
  have "\<exists>w7. er_update_timeout k now es ?w6 = Some w7"
    using set_timer_rearmed [of es qs l T es now k ?w6] assms(4,5,7) by (auto simp: er_update_timeout_def)
  then obtain w7 where u: "er_update_timeout k now es ?w6 = Some w7" by blast
  have w6: "watches opened interest ?ep ?M w ?w6" using watch_internal_ok [of es hs w] own assms(3) by (simp add: es_owns_def)
  have w7: "watches opened interest ?ep ?M ?w6 w7" by (rule update_timeout_watches [OF u])
  have M: "?M (ds_descriptor (rx_data (es_rx es) x)) = Some (ds_events (rx_data (es_rx es) x), Descriptor_ptr x)" if "x \<in> set hs" for x
  proof -
    have "X \<inter> (fd_set (es_timer_fd es) \<union> ir_fds ?ir) = {}" using own by (auto simp: es_owns_def es_fds_def simp del: fd_set_simps)
    moreover have "ir_read ?ir \<in> ir_fds ?ir" using assms(3) by (simp add: ir_fds_def)
    ultimately have "ds_descriptor (rx_data (es_rx es) x) \<notin> {ir_read ?ir} \<union> fd_set (es_timer_fd es)" using assms(9) [OF that]
      unfolding disjoint_iff by (metis Un_iff singletonD)
    then show ?thesis using wanted_live [of es hs x] assms(8) that by (simp del: fd_set_simps)
  qed
  have p: "forth (op_next (rx_pool (es_rx es))) hs 0" "0 \<notin> set hs" "op_live_list (rx_pool (es_rx es)) = head_of hs"
    using assms(6) by (auto simp: pool_of_def)
  obtain e2 w8 where g: "reregister k ?ep (es_rx es) (head_of hs) w7 = Some (e2, w8)" "watches opened interest ?ep ?M w7 w8"
      "e2 = None \<longrightarrow> (\<forall>x \<in> set hs. interest w8 ?ep (ds_descriptor (rx_data (es_rx es) x)) = ?M (ds_descriptor (rx_data (es_rx es) x)))"
    using reregister_all [OF p(1,2), of ?M ?ep w7] M by blast
  have "watches opened interest ?ep ?M w w8" by (rule watches_trans [OF watches_trans [OF w6 w7] g(2)])
  then have "interest w8 ?ep \<subseteq>\<^sub>m ?M" "es_owns opened es w8 X" using own assms(2) by (simp_all add: watches_def es_owns_def)
  then show ?thesis using u g(1,3) p(3) M by simp
qed

lemma fork_child_ok:
  assumes "es_owns opened es w X" "set_of_queues (es_timers es) qs" "tables l (qs_queue (es_timers es)) qs T" "pool_of (rx_pool (es_rx es)) hs free"
    and "\<forall>q \<in> set qs. int64 (now q) \<and> (\<forall>t x ps. T q t = Some (x, ps) \<longrightarrow> int64 x)"
    and "distinct (map (\<lambda>d. ds_descriptor (rx_data (es_rx es) d)) hs)" "\<And>d. d \<in> set hs \<Longrightarrow> ds_descriptor (rx_data (es_rx es) d) \<in> X"
  shows "\<exists>e es' w'. fork_service k Fork_child now es w = Some (e, es', w') \<and> es_owns opened es' w' X \<and> es_rx es' = es_rx es \<and> es_timers es' = es_timers es \<and>
    (e = None \<longrightarrow> interest w' (es_epoll_fd es') \<subseteq>\<^sub>m wanted es' hs \<and>
      (\<forall>d \<in> set hs. interest w' (es_epoll_fd es') (ds_descriptor (rx_data (es_rx es) d)) = Some (ds_events (rx_data (es_rx es) d), Descriptor_ptr d)))"
proof -
  let ?w1 = "close_fd k (es_epoll_fd es) w" and ?es1 = "es\<lparr>es_epoll_fd := - 1\<rparr>"
  obtain r w2 where c: "do_epoll_create k ?w1 = (r, w2)" by fastforce
  have 1: "es_owns opened ?es1 ?w1 X" by (rule owns_close_epoll [OF assms(1)])
  show ?thesis
  proof (cases r)
    case (Inl e)
    then have "adds opened interest {} ?w1 w2" using epoll_create_adds [OF c] by simp
    then have "es_owns opened ?es1 w2 X" using 1 by (simp add: es_owns_def adds_def)
    then show ?thesis using Inl c by (simp add: fork_service_def Let_def)
  next
    case (Inr ep)
    let ?es2 = "es\<lparr>es_epoll_fd := ep\<rparr>"
    have a: "ep \<noteq> - 1" "adds opened interest (fd_set ep) ?w1 w2" "interest w2 ep = Map.empty"
      using epoll_create_adds [OF c] Inr by (auto simp: adds_def fd_set_def)
    have 2: "es_owns opened ?es2 w2 X" using owns_open(1) [OF 1 a(2)] by simp
    obtain tfd w4 where t: "do_timerfd_create k (close_fd k (es_timer_fd es) w2) = (tfd, w4)" by fastforce
    obtain e ir w5 where i: "recreate k (es_interrupter es) w4 = (e, ir, w5)" by (metis prod_cases3)
    let ?es3 = "es\<lparr>es_epoll_fd := ep, es_timer_fd := tfd, es_interrupter := ir\<rparr>"
    note d = fork_descriptors [OF assms(1) a(3) 2 a(1) t i]
    have f: "fork_service k Fork_child now es w = (case e of Some e1 \<Rightarrow> Some (Some e1, ?es3, w5)
       | None \<Rightarrow> Option.bind (er_update_timeout k now ?es3 (watch_internal k ?es3 w5)) (\<lambda>w6.
           Option.bind (reregister k ep (es_rx ?es3) (op_live_list (rx_pool (es_rx ?es3))) w6) (\<lambda>(e2, w7). Some (e2, ?es3, w7))))"
      using c Inr t i by (simp add: fork_service_def Let_def)
    show ?thesis
    proof (cases e)
      case (Some e1)
      then show ?thesis using f d(1) by simp
    next
      case None
      obtain w6 e2 w7 where g: "er_update_timeout k now ?es3 (watch_internal k ?es3 w5) = Some w6"
          "reregister k ep (es_rx es) (op_live_list (rx_pool (es_rx es))) w6 = Some (e2, w7)" "es_owns opened ?es3 w7 X" "interest w7 ep \<subseteq>\<^sub>m wanted ?es3 hs"
          "e2 = None \<longrightarrow> (\<forall>d \<in> set hs. interest w7 ep (ds_descriptor (rx_data (es_rx es) d)) = Some (ds_events (rx_data (es_rx es) d), Descriptor_ptr d))"
        using fork_watches_again [OF d(1), of qs l T hs free now] d(2,3) None assms(2-7) by auto
      then have "fork_service k Fork_child now es w = Some (e2, ?es3, w7)" using f None by simp
      then show ?thesis using g(3-5) by simp
    qed
  qed
qed

text \<open>The constructor owns what it opened, or nothing is open that was not before.\<close>

lemma make_owns:
  assumes "er_make k w = (r, w')"
  shows "case r of Inl e \<Rightarrow> opened w' = opened w
    | Inr es \<Rightarrow> es_owns opened es w' (opened w) \<and> es_rx es = rx_make \<and> es_timers es = qs_make \<and> interest w' (es_epoll_fd es) \<subseteq>\<^sub>m wanted es []"
proof -
  obtain e ir w1 where a: "open_descriptors k w = (e, ir, w1)" by (metis prod_cases3)
  obtain r1 w2 where c: "do_epoll_create k w1 = (r1, w2)" by fastforce
  obtain tfd w3 where t: "do_timerfd_create k w2 = (tfd, w3)" by fastforce
  note o = open_adds [OF a] and ec = epoll_create_adds [OF c]
  have tf: "adds opened interest (fd_set tfd) w2 w3" using timerfd_create_adds [OF t] by (simp add: fd_set_def)
  consider (fail) "e \<noteq> None" | (epoll) x where "e = None" "r1 = Inl x" | (fine) ep where "e = None" "r1 = Inr ep" by (cases e; cases r1) auto
  then show ?thesis
  proof cases
    case fail
    then have "ir_fds ir = {}" using o(2,3) by (simp add: ir_fds_def)
    then show ?thesis using fail assms a o(1) by (auto simp: er_make_def adds_def)
  next
    case epoll
    have "opened (close_descriptors k ir w2) = opened w2 - ir_fds ir" using close_drops_all by (simp add: drops_def)
    moreover have "opened w2 = opened w \<union> ir_fds ir" "opened w \<inter> ir_fds ir = {}" using ec o(1) epoll(2) by (auto simp: adds_def)
    moreover have "r = Inl x" "w' = close_descriptors k ir w2" using assms a c epoll by (simp_all add: er_make_def)
    ultimately show ?thesis by auto
  next
    case fine
    define es where "es = \<lparr>es_rx = rx_make, es_timers = qs_make, es_interrupter = ir, es_epoll_fd = ep, es_timer_fd = tfd, es_shutdown = False, es_ready = (\<lambda>_. 0)\<rparr>"
    have r: "r = Inr es" "w' = watch_internal k es w3" using assms a c t fine by (simp_all add: er_make_def es_def Let_def)
    have ep: "ep \<noteq> - 1" "adds opened interest (fd_set ep) w1 w2" using ec fine(2) by (simp_all add: fd_set_def)
    let ?es0 = "es\<lparr>es_epoll_fd := - 1, es_timer_fd := - 1, es_interrupter := \<lparr>ir_read = - 1, ir_write = - 1\<rparr>\<rparr>"
    have "es_owns opened ?es0 w (opened w)" by (simp add: es_owns_def es_fds_def ir_fds_def)
    then have "es_owns opened (es\<lparr>es_epoll_fd := - 1, es_timer_fd := - 1\<rparr>) w1 (opened w)" using owns_open(3) [OF _ o(1), of ?es0] by (simp add: es_def ir_fds_def)
    then have "es_owns opened (es\<lparr>es_timer_fd := - 1\<rparr>) w2 (opened w)" using owns_open(1) [OF _ ep(2), of "es\<lparr>es_epoll_fd := - 1, es_timer_fd := - 1\<rparr>"] by (simp add: es_def)
    then have w3: "es_owns opened es w3 (opened w)" using owns_open(2) [OF _ tf, of "es\<lparr>es_timer_fd := - 1\<rparr>"] by (simp add: es_def)
    have "interest w2 ep = Map.empty" using ep by (simp add: adds_def)
    then have "interest w3 ep = Map.empty" using still_empty(2) tf by blast
    moreover have "watches opened interest ep (wanted es []) w3 w'"
      using watch_internal_ok [of es "[]" w3] w3 r(2) o(2) fine(1) by (simp add: es_owns_def es_def)
    ultimately show ?thesis using w3 r(1) by (simp add: watches_def es_owns_def es_def)
  qed
qed

text \<open>The destructor closes them all.\<close>

lemma destroy_closes:
  assumes "es_owns opened es w X" "er_destroy k es w = Some (ds, xs, w')"
  shows "opened w' = X"
proof -
  let ?w1 = "close_fd k (es_epoll_fd es) w" and ?es1 = "es\<lparr>es_epoll_fd := - 1\<rparr>"
  let ?w2 = "close_fd k (es_timer_fd es) ?w1" and ?es2 = "es\<lparr>es_epoll_fd := - 1, es_timer_fd := - 1\<rparr>"
  have "es_owns opened ?es1 ?w1 X" by (rule owns_close_epoll [OF assms(1)])
  then have "es_owns opened ?es2 ?w2 X" using owns_close_timer [of ?es1 ?w1 X] by simp
  then have "es_owns opened (?es2\<lparr>es_interrupter := \<lparr>ir_read = - 1, ir_write = - 1\<rparr>\<rparr>) (close_descriptors k (es_interrupter es) ?w2) X"
    using owns_close_interrupter [of ?es2 ?w2 X] by simp
  moreover have "w' = close_descriptors k (es_interrupter es) ?w2" using assms(2) by (auto simp: er_destroy_def bind_eq_Some_conv)
  ultimately show ?thesis by (simp add: es_owns_def es_fds_def ir_fds_def)
qed

text \<open>A registered state whose descriptor is not open stops the loop with an error.\<close>

lemma reregister_closed:
  assumes "\<And>p fd ev ptr v. fd \<notin> opened v \<Longrightarrow> fst (fst (ev_epoll_ctl k p EPOLL_CTL_ADD fd ev ptr v)) \<noteq> 0"
  shows "forth (op_next (rx_pool rx)) hs 0 \<Longrightarrow> 0 \<notin> set hs \<Longrightarrow> d \<in> set hs \<Longrightarrow> ds_descriptor (rx_data rx d) \<notin> opened w \<Longrightarrow>
    reregister k ep rx (head_of hs) w = Some (e, w') \<Longrightarrow> e \<noteq> None"
proof (induction hs arbitrary: w)
  case (Cons c hs)
  let ?x = "rx_data rx c"
  obtain r f w1 where a: "ev_epoll_ctl k ep EPOLL_CTL_ADD (ds_descriptor ?x) (ds_events ?x) (Descriptor_ptr c) w = ((r, f), w1)" by (metis prod.collapse)
  have h: "head_of (c # hs) = c" "c \<noteq> 0" "op_next (rx_pool rx) c = head_of hs" using Cons.prems(1,2) by (auto simp: head_of_def)
  have o: "opened w1 = opened w" using ctl_watches [OF a] by (simp add: EPOLL_CTL_ADD_def)
  have u: "reregister k ep rx (head_of (c # hs)) w = (if r \<noteq> 0 then Some (Some f, w1) else reregister k ep rx (head_of hs) w1)"
    using a h by (subst reregister.simps) simp
  show ?case
  proof (cases "r = 0")
    case True
    then have "d \<noteq> c" using assms [of "ds_descriptor ?x" w ep "ds_events ?x" "Descriptor_ptr c"] a Cons.prems(4) by auto
    then show ?thesis using Cons.IH [of w1] Cons.prems True u o by simp
  qed (use u Cons.prems(5) in auto)
qed simp

end

text \<open>C23: The restart of the reactor in a forked child. Whatever the system calls answer, \<open>fork_service\<close> returns and
  the reactor owns exactly its old descriptors replaced by the new ones: nothing leaks and no other descriptor is closed,
  also when it throws. When it does not throw, the new epoll descriptor watches every registered descriptor
  with its events and its own state, and otherwise at most the new interrupter and timer descriptor. In the parent nothing
  changes.\<close>

theorem reactor_fork:
  assumes "descriptor_kernel k opened interest" "es_inv es hs A os started qs T" "es_owns opened es w X"
    and "\<forall>q \<in> set qs. int64 (now q) \<and> (\<forall>t x ps. T q t = Some (x, ps) \<longrightarrow> int64 x)"
    and "distinct (map (\<lambda>d. ds_descriptor (rx_data (es_rx es) d)) hs)" "\<forall>d \<in> set hs. ds_descriptor (rx_data (es_rx es) d) \<in> X"
  shows "\<exists>e es' w'. fork_service k ev now es w = Some (e, es', w') \<and> es_owns opened es' w' X \<and> es_inv es' hs A os started qs T \<and>
    (ev \<noteq> Fork_child \<longrightarrow> e = None \<and> es' = es \<and> w' = w) \<and>
    (ev = Fork_child \<and> e = None \<longrightarrow> interest w' (es_epoll_fd es') \<subseteq>\<^sub>m wanted es' hs \<and>
      (\<forall>d \<in> set hs. interest w' (es_epoll_fd es') (ds_descriptor (rx_data (es_rx es) d)) = Some (ds_events (rx_data (es_rx es) d), Descriptor_ptr d)))"
proof (cases "ev = Fork_child")
  case True
  note i = assms(2) [unfolded es_inv_def]
  obtain free where f: "pool_of (rx_pool (es_rx es)) hs free" using i by (auto simp: rx_inv_def)
  have t: "set_of_queues (es_timers es) qs" "tables (rx_links (es_rx es)) (qs_queue (es_timers es)) qs T" using i by blast+
  obtain e es' w' where r: "fork_service k Fork_child now es w = Some (e, es', w')" "es_owns opened es' w' X" "es_rx es' = es_rx es" "es_timers es' = es_timers es"
      "e = None \<longrightarrow> interest w' (es_epoll_fd es') \<subseteq>\<^sub>m wanted es' hs \<and>
        (\<forall>d \<in> set hs. interest w' (es_epoll_fd es') (ds_descriptor (rx_data (es_rx es) d)) = Some (ds_events (rx_data (es_rx es) d), Descriptor_ptr d))"
    using descriptor_kernel.fork_child_ok [OF assms(1,3) t f assms(4,5)] assms(6) by blast
  have "es_inv es' hs A os started qs T" using i r(3,4) by (simp add: es_inv_def)
  then show ?thesis using True r(1,2,5) by blast
qed (use assms(2,3) in \<open>simp add: fork_service_def\<close>)

text \<open>A reactor on the small kernel, with the descriptor 5 registered as the state 7.\<close>

definition fork_rx :: reactor where
  "fork_rx = fst (snd (snd (register_descriptor small_kernel 7 5 rx_make small_start)))"

definition fork_desk :: desk where
  "fork_desk = \<lparr>dk_open = [5], dk_watch = (\<lambda>_. Map.empty), dk_old = True, dk_events = []\<rparr>"

lemma fork_rx_inv: "rx_inv fork_rx [7] (\<lambda>_ _. []) [] []" "ds_descriptor (rx_data fork_rx 7) = 5"
proof -
  obtain e d rx1 w1 where a: "register_descriptor small_kernel 7 5 rx_make small_start = (e, d, rx1, w1)" by (metis prod_cases4)
  have d: "d = 7" using a by (auto simp: register_descriptor_def allocate_descriptor_state_def pool_alloc_def pool_make_def rx_make_def Let_def split: prod.splits)
  note r = register_inv [OF rx_inv_make _ _ a]
  show "rx_inv fork_rx [7] (\<lambda>_ _. []) [] []" "ds_descriptor (rx_data fork_rx 7) = 5" using r(1,4) a d by (simp_all add: fork_rx_def)
qed

text \<open>On this kernel only a descriptor that is not open can stop a restart.\<close>

lemma desk_fork_error:
  assumes "fork_service desk_kernel Fork_child now es w = Some (Some f, es', w')"
  shows "\<exists>ep v. reregister desk_kernel ep (es_rx es) (op_live_list (rx_pool (es_rx es))) v = Some (Some f, w')"
proof -
  have c: "\<exists>ep v'. do_epoll_create desk_kernel v = (Inr ep, v')" for v
    using dk_fresh_new(2) [of v] by (auto simp: do_epoll_create_def desk_kernel_def dk_new_def dk_ok_def)
  have i: "\<exists>ir v'. recreate desk_kernel ir0 v = (None, ir, v')" for ir0 v
    using dk_fresh_new(2) [of "close_descriptors desk_kernel ir0 v"]
    by (auto simp: recreate_def open_descriptors_def desk_kernel_def dk_new_def dk_ok_def split: prod.split)
  obtain ep w2 where 1: "do_epoll_create desk_kernel (close_fd desk_kernel (es_epoll_fd es) w) = (Inr ep, w2)" using c by blast
  obtain tfd w4 where 2: "do_timerfd_create desk_kernel (close_fd desk_kernel (es_timer_fd es) w2) = (tfd, w4)" by fastforce
  obtain ir w5 where 3: "recreate desk_kernel (es_interrupter es) w4 = (None, ir, w5)" using i by blast
  show ?thesis using assms 1 2 3 by (auto simp: fork_service_def Let_def bind_eq_Some_conv split: if_splits)
qed

lemma desk_reregister_error:
  assumes "rx_inv rx [d] A os started" "reregister desk_kernel ep rx (op_live_list (rx_pool rx)) v = Some (Some f, w')"
  shows "ds_descriptor (rx_data rx d) \<notin> set (dk_open w')"
proof -
  have "op_live_list (rx_pool rx) = d" "d \<noteq> 0" "op_next (rx_pool rx) d = 0" using assms(1) by (auto simp: rx_inv_def pool_of_def head_of_def)
  then show ?thesis using assms(2)
    by (auto simp: reregister.simps [of _ _ _ d] reregister.simps [of _ _ _ 0] desk_kernel_def split: if_splits)
qed

theorem reactor_fork_witness:
  "\<exists>es0 w es' w'. er_make desk_kernel fork_desk = (Inr es0, w) \<and>
    fork_service desk_kernel Fork_child (\<lambda>_. 0) (es0\<lparr>es_rx := fork_rx\<rparr>) w = Some (None, es', w') \<and> es_owns (\<lambda>w. set (dk_open w)) es' w' {5} \<and>
    dk_watch w' (es_epoll_fd es') 5 = Some (ds_events (rx_data fork_rx 7), Descriptor_ptr 7)"
proof -
  let ?o = "\<lambda>w. set (dk_open w)"
  obtain es0 w where m: "er_make desk_kernel fork_desk = (Inr es0, w)"
    by (simp add: er_make_def open_descriptors_def do_epoll_create_def do_timerfd_create_def desk_kernel_def fork_desk_def dk_new_def dk_fresh_def
        set_flags_def dk_ok_def Let_def TFD_CLOEXEC_def)
  have o: "es_owns ?o es0 w {5}" "es_timers es0 = qs_make" using desk.make_owns [OF m] by (simp_all add: fork_desk_def)
  let ?es = "es0\<lparr>es_rx := fork_rx\<rparr>"
  have i: "es_inv ?es [7] (\<lambda>_ _. []) [] [] [] (\<lambda>_. Map.empty)"
    using fork_rx_inv(1) o(2) set_make by (simp add: es_inv_def tables_def timer_ops_def)
  have "es_owns ?o ?es w {5}" using o(1) by (simp add: es_owns_def es_fds_def)
  from reactor_fork [OF desk.descriptor_kernel_axioms i this, of "\<lambda>_. 0" Fork_child]
  obtain e es' w' where r: "fork_service desk_kernel Fork_child (\<lambda>_. 0) ?es w = Some (e, es', w')" "es_owns ?o es' w' {5}"
      "e = None \<longrightarrow> dk_watch w' (es_epoll_fd es') 5 = Some (ds_events (rx_data fork_rx 7), Descriptor_ptr 7)" using fork_rx_inv(2) by auto
  have "5 \<in> set (dk_open w')" using r(2) by (auto simp: es_owns_def)
  then have "e = None" using desk_fork_error [of "\<lambda>_. 0" ?es w _ es' w'] desk_reregister_error [OF fork_rx_inv(1)] fork_rx_inv(2) r(1) by (cases e) auto
  then show ?thesis using m r by blast
qed

text \<open>A state that a failed registration left behind stops the restart. When the descriptor of some registered state is not
  open any more, and the kernel refuses descriptors that are not open, a restart that comes as far as the registered
  descriptors throws.\<close>

theorem lost_registration_stops_restart:
  assumes "descriptor_kernel k opened interest" "\<And>p fd ev ptr v. fd \<notin> opened v \<Longrightarrow> fst (fst (ev_epoll_ctl k p EPOLL_CTL_ADD fd ev ptr v)) \<noteq> 0"
    and "rx_inv rx hs A os started" "d \<in> set hs" "ds_descriptor (rx_data rx d) \<notin> opened w"
    and "reregister k ep rx (op_live_list (rx_pool rx)) w = Some (e, w')"
  shows "e \<noteq> None"
proof -
  obtain free where "pool_of (rx_pool rx) hs free" using assms(3) by (auto simp: rx_inv_def)
  then have "forth (op_next (rx_pool rx)) hs 0" "0 \<notin> set hs" "op_live_list (rx_pool rx) = head_of hs" by (auto simp: pool_of_def)
  then show ?thesis using descriptor_kernel.reregister_closed [OF assms(1,2) _ _ assms(4,5)] assms(6) by metis
qed

end
