(* ===== verification/Timer_Wait.thy ===== *)
theory Timer_Wait
  imports Reactor_Run
begin

text \<open>
  The rest of \<open>deadline_timer_service\<close> (\<^verbatim>\<open>asio/detail/deadline_timer_service.hpp\<close>): its construction and destruction on a
  reactor, and the blocking wait, for a clock of nanoseconds. The clock and \<open>select\<close> are the record \<open>clock_sys\<close>; what the
  wait relies on is the locale \<open>advancing_clock\<close>: the clock advances between two readings, at least by the timeout of
  a \<open>select\<close> in between that did not fail.
\<close>

subsection \<open>Definitions\<close>

definition dts_make :: "nat \<Rightarrow> epoll_state \<Rightarrow> epoll_state" where
  "dts_make q es = do_add_timer_queue q es"

definition dts_delete :: "nat \<Rightarrow> epoll_state \<Rightarrow> epoll_state option" where
  "dts_delete q es = do_remove_timer_queue q es"

record 's clock_sys =
  ck_now :: "'s \<Rightarrow> int \<times> 's"
  ck_select :: "int \<Rightarrow> int \<Rightarrow> 's syscall"

definition total_seconds :: "nat \<Rightarrow> nat \<Rightarrow> int \<Rightarrow> int option" where
  "total_seconds pnum pden ticks = chrono_cast pnum pden 1 1 ticks"

text \<open>\<open>socket_ops::select\<close> on Linux.\<close>

definition so_select :: "'s clock_sys \<Rightarrow> int \<Rightarrow> int \<Rightarrow> 's syscall" where
  "so_select k sec usec w = (case ck_select k sec usec w of ((result, e), w1) \<Rightarrow> ((result, if result \<ge> 0 then 0 else e), w1))"

definition do_wait :: "'s clock_sys \<Rightarrow> int \<Rightarrow> 's \<Rightarrow> (errno \<times> 's) option" where
  "do_wait k timeout w = Option.bind (total_seconds 1 1000000000 timeout) (\<lambda>sec.
     Option.bind (total_microseconds 1 1000000000 timeout) (\<lambda>usec.
       case so_select k sec (usec smod 1000000) w of ((result, ec), w1) \<Rightarrow> Some (ec, w1)))"

partial_function (option) wait_loop :: "'s clock_sys \<Rightarrow> int \<Rightarrow> int \<Rightarrow> errno \<Rightarrow> 's \<Rightarrow> (errno \<times> int \<times> 's) option" where
  "wait_loop k expiry now ec w = (if now < expiry \<and> ec = 0
     then Option.bind (chrono_subtract expiry now) (\<lambda>d. Option.bind (do_wait k d w) (\<lambda>(ec1, w1).
       case ck_now k w1 of (now1, w2) \<Rightarrow> wait_loop k expiry now1 ec1 w2))
     else Some (ec, now, w))"

text \<open>The error code and the last reading of the clock.\<close>

definition dts_wait :: "'s clock_sys \<Rightarrow> nat \<Rightarrow> timer_service \<Rightarrow> 's \<Rightarrow> (errno \<times> int \<times> 's) option" where
  "dts_wait k t s w = (case ck_now k w of (now, w1) \<Rightarrow> wait_loop k (ts_expiry s t) now 0 w1)"

subsection \<open>The wait ends at the expiry\<close>

lemma seconds_cast: "total_seconds 1 1000000000 ticks = Some (ticks sdiv 1000000000)"
  by (simp add: total_seconds_def chrono_cast_def ct_gcd.simps Let_def)

text \<open>The timeout given to \<open>select\<close>: the whole microseconds of the time that is left.\<close>

definition asked :: "int \<Rightarrow> int \<times> int" where
  "asked d = (d div 1000000000, d div 1000 mod 1000000)"

lemma asked_bounds:
  assumes "0 \<le> d" "asked d = (sec, usec)"
  shows "0 \<le> sec" "0 \<le> usec" "usec < 1000000" "sec * 1000000000 + usec * 1000 \<le> d" "d < sec * 1000000000 + usec * 1000 + 1000"
proof -
  have e: "sec = d div 1000000000" "usec = d div 1000 mod 1000000" using assms(2) by (simp_all add: asked_def)
  have "d div 1000 div 1000000 = d div 1000000000" by (simp add: zdiv_zmult2_eq [symmetric])
  then have "sec * 1000000 + usec = d div 1000" using e div_mult_mod_eq [of "d div 1000" 1000000] by simp
  moreover have "d div 1000 * 1000 + d mod 1000 = d" "0 \<le> d mod 1000" "d mod 1000 < 1000" using div_mult_mod_eq [of d 1000] by simp_all
  ultimately show "sec * 1000000000 + usec * 1000 \<le> d" "d < sec * 1000000000 + usec * 1000 + 1000" by linarith+
qed (use assms in \<open>auto simp: asked_def div_int_pos_iff\<close>)

lemma do_wait_asks:
  assumes "0 \<le> d" "asked d = (sec, usec)"
  shows "do_wait k d w = Some (snd (fst (so_select k sec usec w)), snd (so_select k sec usec w))"
proof -
  have "d sdiv 1000000000 = d div 1000000000" "d sdiv 1000 = d div 1000"
    using assms(1) by (cases "d = 0"; simp add: signed_divide_int_def)+
  moreover have "0 \<le> d div 1000" using assms(1) by simp
  then have "d div 1000 smod 1000000 = d div 1000 mod 1000000" by (cases "d div 1000 = 0") (simp_all add: signed_modulo_int_def)
  ultimately show ?thesis using assms(2) by (auto simp: do_wait_def seconds_cast nanosecond_cast asked_def split: prod.split simp del: One_nat_def)
qed

text \<open>\<open>time\<close> is the time of a state of the system; readings stop at the greatest time that fits in 64 bits.\<close>

locale advancing_clock =
  fixes k :: "'s clock_sys" and time :: "'s \<Rightarrow> int"
  assumes now_reads: "ck_now k w = (now, w1) \<Longrightarrow> int64 now \<and> min tick_max (time w + 1) \<le> now \<and> now \<le> time w1"
    and select_sleeps: "ck_select k sec usec w = ((r, e), w1) \<Longrightarrow> 0 \<le> sec \<Longrightarrow> 0 \<le> usec \<Longrightarrow>
      time w + (if r \<ge> 0 then sec * 1000000000 + usec * 1000 else 0) \<le> time w1 \<and> (r < 0 \<longrightarrow> e \<noteq> 0)"
begin

lemma wait_loop_returns:
  assumes "int64 expiry" "int64 now" "now \<le> time w"
  shows "\<exists>ec last w1. wait_loop k expiry now ec0 w = Some (ec, last, w1) \<and> (ec = 0 \<longrightarrow> expiry \<le> last)"
  using assms(2,3)
proof (induction "nat (expiry - now)" arbitrary: now ec0 w rule: less_induct)
  case less
  show ?case
  proof (cases "now < expiry \<and> ec0 = 0")
    case False
    then have "wait_loop k expiry now ec0 w = Some (ec0, now, w)" by (subst wait_loop.simps) (simp only: if_False)
    then show ?thesis using False by auto
  next
    case True
    let ?d = "clamp64 (expiry - now)"
    have s: "chrono_subtract expiry now = Some ?d" by (rule subtract_clamp [OF assms(1) less.prems(1)])
    have d: "0 \<le> ?d" using True by (simp add: clamp64_def tick_min_def tick_max_def)
    obtain sec usec where a: "asked ?d = (sec, usec)" by fastforce
    obtain r e w1 where c: "ck_select k sec usec w = ((r, e), w1)" by (metis prod.collapse)
    obtain now1 w2 where n: "ck_now k w1 = (now1, w2)" by fastforce
    let ?ec = "if r \<ge> 0 then 0 else e"
    have l: "wait_loop k expiry now ec0 w = wait_loop k expiry now1 ?ec w2"
      using True s do_wait_asks [OF d a, of k w] c n by (subst wait_loop.simps) (simp add: so_select_def)
    note t = select_sleeps [OF c asked_bounds(1,2) [OF d a]] now_reads [OF n]
    have "time w \<le> time w1" using t(1) asked_bounds(1,2) [OF d a] by (auto split: if_splits)
    then have "nat (expiry - now1) < nat (expiry - now)" using t(2) less.prems(2) True assms(1) by (auto simp: int64_def)
    moreover have "int64 now1" "now1 \<le> time w2" using t(2) by simp_all
    ultimately show ?thesis using less.hyps l by simp
  qed
qed

end

text \<open>The blocking wait returns, and not before the expiry unless \<open>select\<close> fails. A \<open>select\<close> is never asked to sleep past
  the expiry, and for all but the last microsecond of what is left.\<close>

theorem blocking_wait:
  assumes "advancing_clock k time" "int64 (ts_expiry s t)"
  shows "\<exists>ec last w1. dts_wait k t s w = Some (ec, last, w1) \<and> (ec = 0 \<longrightarrow> ts_expiry s t \<le> last)"
    "0 \<le> d \<Longrightarrow> asked d = (sec, usec) \<Longrightarrow> do_wait k d w = Some (snd (fst (so_select k sec usec w)), snd (so_select k sec usec w)) \<and>
      sec * 1000000000 + usec * 1000 \<le> d \<and> d < sec * 1000000000 + usec * 1000 + 1000"
proof -
  obtain now w1 where n: "ck_now k w = (now, w1)" by fastforce
  have "int64 now" "now \<le> time w1" using advancing_clock.now_reads [OF assms(1) n] by simp_all
  then show "\<exists>ec last w1. dts_wait k t s w = Some (ec, last, w1) \<and> (ec = 0 \<longrightarrow> ts_expiry s t \<le> last)"
    using advancing_clock.wait_loop_returns [OF assms, of now w1 0] n by (simp add: dts_wait_def)
qed (use do_wait_asks asked_bounds(4,5) in simp)

text \<open>A clock that advances by one nanosecond with each reading, and a \<open>select\<close> that is interrupted as often as the second
  component says.\<close>

definition tick_clock :: "(int \<times> nat) clock_sys" where
  "tick_clock = \<lparr>ck_now = (\<lambda>(t, n). (clamp64 (t + 1), (max tick_min (t + 1), n))),
     ck_select = (\<lambda>sec usec (t, n). if n > 0 then ((- 1, EINTR), (t, n - 1)) else ((0, 0), (t + sec * 1000000000 + usec * 1000, n)))\<rparr>"

interpretation ticking: advancing_clock tick_clock fst
proof
  show "int64 now \<and> min tick_max (fst w + 1) \<le> now \<and> now \<le> fst w1" if "ck_now tick_clock w = (now, w1)" for w now w1
    using that by (cases w) (auto simp: tick_clock_def clamp64_def int64_def tick_min_def tick_max_def)
  show "fst w + (if r \<ge> 0 then sec * 1000000000 + usec * 1000 else 0) \<le> fst w1 \<and> (r < 0 \<longrightarrow> e \<noteq> 0)"
    if "ck_select tick_clock sec usec w = ((r, e), w1)" for sec usec w r e w1
    using that by (cases w) (auto simp: tick_clock_def EINTR_def split: if_splits)
qed

theorem blocking_wait_witness:
  "\<exists>ec last w. dts_wait tick_clock 1 ((ts_make (\<lambda>_. 0))\<lparr>ts_expiry := (\<lambda>_. 5000)\<rparr>) (0, 0) = Some (ec, last, w) \<and> (ec = 0 \<longrightarrow> 5000 \<le> last)"
  using blocking_wait(1) [OF ticking.advancing_clock_axioms, of "(ts_make (\<lambda>_. 0))\<lparr>ts_expiry := (\<lambda>_. 5000)\<rparr>" 1 "(0, 0)"]
  by (simp add: int64_def tick_min_def tick_max_def)

end
