(* ===== verification/Spec2Isabelle.thy ===== *)
theory Spec2Isabelle
  imports Bitset_Props Bitset_Run Lpmtree Errors Redis Cohttp Worker_Timers Socket_Service Reactor_Fork Timer_Wait
begin

text \<open>
  cohttpd is an HTTP server in C++: a master process forks workers; each worker runs coroutines, one
  that accepts connections and one per connection; requests go to handlers that are loaded from shared
  libraries. This development models the sources under \<^verbatim>\<open>src/src\<close> as HOL functions and proves what makes
  them correct, or how they fail.

  \<^bold>\<open>How the parts interact.\<close> \<open>main\<close> reads the options, binds the port and forks the workers
  (\<^verbatim>\<open>cohttp.cpp\<close>). A worker loads its handlers (\<^verbatim>\<open>modules.cpp\<close>), builds a pool of buffers (\<^verbatim>\<open>iobufs.cpp\<close>,
  which allocates by a \<^verbatim>\<open>bitset\<close>) and accepts connections under a lock (\<^verbatim>\<open>semops.cpp\<close>). A connection
  (\<^verbatim>\<open>server.cpp\<close>) reads into pool buffers, feeds them to the parser through callbacks (\<^verbatim>\<open>codecs.cpp\<close>) that
  fill a request (\<^verbatim>\<open>request.cpp\<close>, with slices of \<^verbatim>\<open>iobufs.hpp\<close>), calls the handler of the path, which
  writes a response (\<^verbatim>\<open>response.cpp\<close>) into further pool buffers, and sends these with the composed write
  of asio.

  \<^bold>\<open>Theories.\<close>
  \<^item> \<open>Prelude\<close>: outcomes (\<open>res\<close> is an error or a value, every raise, abort and out-of-range access is an
    \<open>error\<close>), their binds, \<open>size_t\<close> arithmetic modulo \<open>2 ^ 64\<close>. \<open>Libc\<close>: 32-bit \<open>int\<close>, decimal printing,
    \<open>snprintf\<close>, \<open>memcpy\<close>, comparison of strings.
  \<^item> \<open>Bitset\<close>, \<open>Bitset_Spec\<close>, \<open>Bitset_Props\<close>, \<open>Bitset_Run\<close>: \<^verbatim>\<open>bitset.hpp\<close>, \<^verbatim>\<open>bitset.cpp\<close> on 64-bit blocks; every
    operation, and every sequence of them, against the list of its bits.
  \<^item> \<open>Slice\<close>, \<open>Iobufs\<close>: \<^verbatim>\<open>iobufs.hpp\<close>, \<^verbatim>\<open>iobufs.cpp\<close>; buffers with positions, the pool on an explicit heap, its
    clients as a step relation, the locale \<open>index_allocator\<close> for what the pool needs of its bitmap.
  \<^item> \<open>Lpmtree\<close>: \<^verbatim>\<open>lpmtree.hpp\<close>; refinement of a table of prefixes.
  \<^item> \<open>Response\<close>, \<open>Response_Props\<close>: \<^verbatim>\<open>response.cpp\<close> on the heap of buffers, with frame conditions.
  \<^item> \<open>Request\<close>, \<open>Codecs\<close>: \<^verbatim>\<open>request.cpp\<close>, \<^verbatim>\<open>codecs.cpp\<close>; the callbacks and the parse loop.
  \<^item> \<open>Errors\<close>, \<open>Semops\<close>: \<^verbatim>\<open>errors.cpp\<close>, \<^verbatim>\<open>semops.cpp\<close>.
  \<^item> \<open>Modules\<close>: \<^verbatim>\<open>handler.hpp\<close>, \<^verbatim>\<open>modules.cpp\<close>, \<^verbatim>\<open>modules/default.cpp\<close>, \<^verbatim>\<open>modules/hello.cpp\<close>; the locale
    \<open>folded_map\<close> for the registry. \<open>Redis\<close>: \<^verbatim>\<open>modules/redis.cpp\<close>.
  \<^item> \<open>Options\<close>, \<open>Cohttp\<close>: \<^verbatim>\<open>cohttp.cpp\<close>, \<^verbatim>\<open>cohttp.hpp\<close> and the options of \<^verbatim>\<open>server.hpp\<close>.
  \<^item> \<open>Asio_Buffers\<close>, \<open>Asio_Socket\<close>: the part of the vendored asio through which the server reads and
    writes; the sources include the same code as \<^verbatim>\<open>boost::asio\<close>.
  \<^item> \<open>Op_Queue\<close>, \<open>Timer_Queue\<close>, \<open>Timer_Queue_Props\<close>, \<open>Chrono_Time\<close>, \<open>Timer_Service\<close>: the timers of the vendored
    asio (\<^verbatim>\<open>detail/op_queue.hpp\<close>, \<^verbatim>\<open>detail/timer_queue.hpp\<close>, \<^verbatim>\<open>detail/chrono_time_traits.hpp\<close>,
    \<^verbatim>\<open>detail/deadline_timer_service.hpp\<close>, \<^verbatim>\<open>detail/impl/epoll_reactor.ipp\<close>): intrusive queues and a doubly linked
    list in an explicit memory, a binary heap whose entries know their positions, 64-bit arithmetic on
    times, and the service with its timer descriptor; the locales \<open>linked_fifo\<close> and \<open>timer_table\<close> are their contracts.
  \<^item> \<open>Socket_Control\<close>, \<open>Object_Pool\<close>, \<open>Epoll_Reactor\<close>, \<open>Socket_Service\<close>: sockets below the acceptor and the connections
    (\<^verbatim>\<open>detail/impl/socket_ops.ipp\<close>, \<^verbatim>\<open>detail/object_pool.hpp\<close>, \<^verbatim>\<open>detail/impl/epoll_reactor.ipp\<close>,
    \<^verbatim>\<open>detail/impl/reactive_socket_service_base.ipp\<close>, \<^verbatim>\<open>detail/reactive_socket_service.hpp\<close>): the system calls as a
    record, blocking modes and closing, the reactor's states and queues of operations in an explicit
    memory with calls and events as a step relation, and socket objects that own their descriptors; the
    locale \<open>object_recycler\<close> is the contract of the pool of descriptor states.
  \<^item> \<open>Interrupter\<close>, \<open>Timer_Set\<close>, \<open>Reactor_Run\<close>, \<open>Reactor_Props\<close>, \<open>Reactor_Fork\<close>, \<open>Timer_Wait\<close>: the reactor as a whole
    (\<^verbatim>\<open>detail/impl/epoll_reactor.ipp\<close>, \<^verbatim>\<open>detail/impl/eventfd_select_interrupter.ipp\<close>, \<^verbatim>\<open>detail/impl/timer_queue_set.ipp\<close>): its
    own descriptors, the linked list of its timer queues, the wait for events and their dispatch, shutdown, and the
    restart in a forked child. Descriptor states and timers share one memory of operations (\<open>es_inv\<close>); the locale
    \<open>descriptor_kernel\<close> says which calls open, close and watch descriptors. \<open>Timer_Wait\<close> has the blocking wait of a timer
    (locale \<open>advancing_clock\<close>).
  \<^item> \<open>Server\<close> (definitions), \<open>Server_Props\<close> (a request returns; the locale \<open>answering_handler\<close> for what a
    connection needs of a handler), \<open>Server_Claims\<close>, \<open>Server_Life\<close>: \<^verbatim>\<open>server.hpp\<close>, \<^verbatim>\<open>server.cpp\<close>, one
    connection from its start to its end.
  \<^item> \<open>Coroutines\<close>, \<open>Coroutine_Inv\<close>, \<open>Worker\<close>, \<open>Worker_Claims\<close>, \<open>Worker_Timers\<close>: the connections of a worker as
    coroutines. A coroutine is suspended at a \<open>point\<close> of \<open>process_request\<close> or \<open>parse\<close> with its live variables;
    \<open>resume\<close> runs it to the next wait. \<open>worker_moves\<close> is the step relation of a worker: \<open>accept\<close> returns, a
    coroutine runs, a timer expires, the service is stopped, in any order. The locales \<open>serving\<close> (what a worker
    needs of parser, kernel and handlers) and \<open>timer_library\<close> carry the proofs.
  \<^item> this theory: a worker from the modules it loads to the replies on the wire.

  \<^bold>\<open>State.\<close> A class is a record with the members of the class; \<open>world\<close> is the heap of buffers and the pool;
  \<open>http_connection\<close> has the socket, the timers, the world and the trace of calls to handlers. An
  operation takes the state and returns it updated.

  \<^bold>\<open>What is an argument.\<close> Code outside the sources is a parameter, with what is relied on as a predicate:
  the parser library (\<open>http_parser_api\<close>, \<open>consumes\<close>, \<open>advances\<close>), \<open>std::sort\<close> (a permutation that is
  sorted), the kernel under sockets (\<open>kernel\<close>, \<open>sends\<close>, \<open>receives\<close>, \<open>quiet\<close>, \<open>hangs_up\<close>), timers of the coroutine library
  (\<open>timer_api\<close>, \<open>timers_ok\<close>, \<open>timers_unique\<close>), the YAML library (\<open>yaml_api\<close>), semaphores (\<open>sem_api\<close>), channels and client
  library of redis (\<open>redis_lib\<close>, \<open>prompt\<close>), system calls on sockets (\<open>sys\<close>, \<open>fd_modes\<close>, \<open>fd_table\<close>, \<open>scripted\<close>) and on
  the descriptors of the reactor (\<open>evsys\<close>, \<open>descriptor_kernel\<close>), the clock (\<open>clock_sys\<close>, \<open>advancing_clock\<close>), answers of the operating system (\<open>main_os\<close>). Each contract has an
  instance, which the witnesses use.

  \<^bold>\<open>What is shown.\<close> Bit vector: single bits, shifts, search, bitwise operations. Pool: buffers in use never
  overlap, acquire and release. Tree: longest prefix. Request: callbacks rebuild header, body and URL
  however the parser splits them; lookup by name. Response: exact bytes, and each overflow. Registry:
  dispatch. asio: \<open>write\<close> sends every byte in order; timers are delivered in order of expiry, none is lost,
  and a reactor never sleeps through an expiry; socket objects own their descriptors in the mode they believe
  in, \<open>accept\<close> takes the first connection, and the reactor completes every operation once, hands out in each round what
  is ready and due, and neither leaks a descriptor nor forgets one when it restarts after a fork. Connection: it ends, gives back its buffers and timers,
  bounds its memory, and sends whole pages. Worker: a coroutine alone is the sequential program; in every
  interleaving buffers are never shared or lost, no coroutine fails, every timer belongs to a connection that is
  there, and all connections end. Service: calls to handlers, numbers of connections, what ends
  it. Program: processes, supervision, log files, configuration.

  \<^bold>\<open>Loops.\<close> There is no fuel. Loops over data are total functions; loops that wait for a peer, a kernel
  or the parser are partial functions into \<open>option\<close>, and that they return is proved from the contracts:
  \<open>left\<close> bounds what a peer still sends, \<open>wait\<close> how often in a row a socket asks to try again.

  \<^bold>\<open>Not modelled.\<close> The scheduler of the coroutine library: any coroutine may run next, and each runs until it
  waits for its socket. Coroutines inside a handler (the redis module waits in its handler; its rounds are in
  \<open>Redis\<close>). Log messages. The unit tests of the code that
  need a concrete parser. In \<^verbatim>\<open>handler.cpp\<close> the class \<open>default_handler\<close>, which does nothing and is used
  nowhere. Of asio what an asynchronous operation does when it is tried (an argument
  of the reactor), the scheduler beyond its queue of posted operations, datagrams, name resolution, other platforms and everything the
  server does not use; the test framework \<^verbatim>\<open>doctest.h\<close>.
\<close>

section \<open>A worker from its modules to the replies\<close>



end
